(* ===== verification/Mqx_Prelude.thy ===== *)
theory Mqx_Prelude
  imports Main "HOL-Library.Word"
begin

text \<open>
  Shared vocabulary of the development: the integer types of the Cortex-M port
  (\<^verbatim>\<open>psptypes.h\<close>), the error codes of \<^verbatim>\<open>mqx.h\<close> the modelled functions return, the theorem
  collections the component theories fill, and generic facts on words and lists.

  The configuration modelled is the default one of \<^verbatim>\<open>mqx_cnfg.h\<close>: error, validity and
  memory checks on (\<^verbatim>\<open>MQX_CHECK_ERRORS\<close>, \<^verbatim>\<open>MQX_CHECK_VALIDITY\<close>,
  \<^verbatim>\<open>MQX_CHECK_MEMORY_ALLOCATION_ERRORS\<close>), component destruction, ticks, hardware ticks, time
  slices and dynamic priorities on, user mode off, little-endian, 32-bit \<^verbatim>\<open>_mqx_uint\<close>.
\<close>

subsection \<open>Integer types\<close>

type_synonym u8 = "8 word"
type_synonym u16 = "16 word"
type_synonym u32 = "32 word"
type_synonym u64 = "64 word"

text \<open>Addresses of kernel objects are natural numbers and \<^verbatim>\<open>NULL\<close> is zero.\<close>

type_synonym addr = nat

abbreviation (input) NULL :: addr where "NULL \<equiv> 0"

subsection \<open>Theorem collections\<close>

named_theorems word_nat \<comment> \<open>rewrites that turn word arithmetic into arithmetic on nat\<close>
named_theorems queue_simps \<comment> \<open>effect of the queue macros on the link fields\<close>
named_theorems kernel_simps \<comment> \<open>frame equations of the kernel state operations\<close>
named_theorems op_defs \<comment> \<open>definitions of the operations of a component\<close>

subsection \<open>Error codes of mqx.h\<close>

abbreviation (input) MQX_OK :: u32 where "MQX_OK \<equiv> 0x00"
abbreviation (input) MQX_INVALID_PARAMETER :: u32 where "MQX_INVALID_PARAMETER \<equiv> 0x0C"
abbreviation (input) MQX_CANNOT_CALL_FUNCTION_FROM_ISR :: u32
  where "MQX_CANNOT_CALL_FUNCTION_FROM_ISR \<equiv> 0x0D"
abbreviation (input) MQX_CORRUPT_QUEUE :: u32 where "MQX_CORRUPT_QUEUE \<equiv> 0x1D"

subsection \<open>Words as natural numbers\<close>

lemma unat_u8_bound: "unat (x :: u8) < 256"
  using unsigned_less [of x, where ?'a = nat] by simp

lemma unat_u16_bound: "unat (x :: u16) < 65536"
  using unsigned_less [of x, where ?'a = nat] by simp

lemma unat_u32_bound: "unat (x :: u32) < 4294967296"
  using unsigned_less [of x, where ?'a = nat] by simp

lemma unat_u64_bound: "unat (x :: u64) < 18446744073709551616"
  using unsigned_less [of x, where ?'a = nat] by simp

lemma unat_add_small [word_nat]:
  fixes a b :: "'a::len word"
  shows "unat a + unat b < 2 ^ LENGTH('a) \<Longrightarrow> unat (a + b) = unat a + unat b"
  by (simp add: unat_word_ariths)

lemma unat_sub_small [word_nat]:
  fixes a b :: "'a::len word"
  shows "unat b \<le> unat a \<Longrightarrow> unat (a - b) = unat a - unat b"
  by (simp add: unat_sub word_le_nat_alt)

lemma unat_mult_small [word_nat]:
  fixes a b :: "'a::len word"
  shows "unat a * unat b < 2 ^ LENGTH('a) \<Longrightarrow> unat (a * b) = unat a * unat b"
  by (simp add: unat_word_ariths)

lemma unat_of_nat_small [word_nat]:
  "n < 2 ^ LENGTH('a::len) \<Longrightarrow> unat (of_nat n :: 'a word) = n"
  by (simp add: unat_of_nat take_bit_nat_eq_self)

end
