(* ===== verification/Mqx_Queue.thy ===== *)
theory Mqx_Queue
  imports Mqx_Prelude
begin

text \<open>
  The doubly linked queues of \<^verbatim>\<open>kernel/queue.c\<close> and of the queue macros of
  \<^verbatim>\<open>include/mqx_prv.h\<close>, at the level of their pointers. A heap holds the \<^verbatim>\<open>NEXT\<close> and
  \<^verbatim>\<open>PREV\<close> fields of every element and head (a head starts with the same two fields as an
  element) and the \<^verbatim>\<open>SIZE\<close> and \<^verbatim>\<open>MAX\<close> fields of the heads. The predicate \<open>queue_rep h q xs\<close>
  says that the head \<open>q\<close> owns exactly the elements \<open>xs\<close>, in this order. Each operation
  refines the list operation it stands for, \<open>queue_test\<close> decides representability, and the
  locale \<open>fifo_queue\<close> states the interface the other components rely on.
\<close>

subsection \<open>Heap and macros\<close>

record queue_heap =
  NEXT :: "addr \<Rightarrow> addr"
  PREV :: "addr \<Rightarrow> addr"
  SIZE :: "addr \<Rightarrow> u16"
  MAX_Q :: "addr \<Rightarrow> u16"

definition set_NEXT :: "addr \<Rightarrow> addr \<Rightarrow> queue_heap \<Rightarrow> queue_heap" where
  "set_NEXT p v h = h\<lparr>NEXT := (NEXT h)(p := v)\<rparr>"

definition set_PREV :: "addr \<Rightarrow> addr \<Rightarrow> queue_heap \<Rightarrow> queue_heap" where
  "set_PREV p v h = h\<lparr>PREV := (PREV h)(p := v)\<rparr>"

definition set_SIZE :: "addr \<Rightarrow> u16 \<Rightarrow> queue_heap \<Rightarrow> queue_heap" where
  "set_SIZE p v h = h\<lparr>SIZE := (SIZE h)(p := v)\<rparr>"

definition set_MAX :: "addr \<Rightarrow> u16 \<Rightarrow> queue_heap \<Rightarrow> queue_heap" where
  "set_MAX p v h = h\<lparr>MAX_Q := (MAX_Q h)(p := v)\<rparr>"

text \<open>\<^verbatim>\<open>_QUEUE_INIT\<close>: the empty ring is the head linked to itself.\<close>

definition QUEUE_INIT :: "addr \<Rightarrow> u16 \<Rightarrow> queue_heap \<Rightarrow> queue_heap" where
  "QUEUE_INIT q m h = set_MAX q m (set_SIZE q 0 (set_PREV q q (set_NEXT q q h)))"

definition QUEUE_GET_SIZE :: "addr \<Rightarrow> queue_heap \<Rightarrow> u16" where
  "QUEUE_GET_SIZE q h = SIZE h q"

definition QUEUE_IS_EMPTY :: "addr \<Rightarrow> queue_heap \<Rightarrow> bool" where
  "QUEUE_IS_EMPTY q h = (QUEUE_GET_SIZE q h = 0)"

definition QUEUE_IS_FULL :: "addr \<Rightarrow> queue_heap \<Rightarrow> bool" where
  "QUEUE_IS_FULL q h = (QUEUE_GET_SIZE q h = MAX_Q h q)"

text \<open>\<^verbatim>\<open>_QUEUE_LINK\<close>: the four stores in the order of the macro; \<^verbatim>\<open>nxt\<close> is read first.\<close>

definition QUEUE_LINK :: "addr \<Rightarrow> addr \<Rightarrow> queue_heap \<Rightarrow> queue_heap" where
  "QUEUE_LINK member element h =
     (let nxt = NEXT h member
      in set_PREV nxt element
           (set_PREV element member
             (set_NEXT member element
               (set_NEXT element nxt h))))"

definition QUEUE_INSERT :: "addr \<Rightarrow> addr \<Rightarrow> addr \<Rightarrow> queue_heap \<Rightarrow> queue_heap" where
  "QUEUE_INSERT q member element h =
     (let h' = QUEUE_LINK member element h in set_SIZE q (SIZE h' q + 1) h')"

definition QUEUE_ENQUEUE :: "addr \<Rightarrow> addr \<Rightarrow> queue_heap \<Rightarrow> queue_heap" where
  "QUEUE_ENQUEUE q element h = QUEUE_INSERT q (PREV h q) element h"

definition QUEUE_UNLINK :: "addr \<Rightarrow> queue_heap \<Rightarrow> queue_heap" where
  "QUEUE_UNLINK member h =
     (let prev_ptr = PREV h member; next_ptr = NEXT h member
      in set_PREV next_ptr prev_ptr (set_NEXT prev_ptr next_ptr h))"

definition QUEUE_REMOVE :: "addr \<Rightarrow> addr \<Rightarrow> queue_heap \<Rightarrow> queue_heap" where
  "QUEUE_REMOVE q element h =
     (let h' = QUEUE_UNLINK element h in set_SIZE q (SIZE h' q - 1) h')"

definition QUEUE_DEQUEUE :: "addr \<Rightarrow> queue_heap \<Rightarrow> addr \<times> queue_heap" where
  "QUEUE_DEQUEUE q h = (let element = NEXT h q in (element, QUEUE_REMOVE q element h))"

subsection \<open>The functions of queue.c\<close>

definition queue_init :: "addr \<Rightarrow> u16 \<Rightarrow> queue_heap \<Rightarrow> queue_heap" where
  "queue_init q_ptr sz h = QUEUE_INIT q_ptr sz h"

definition queue_enqueue :: "addr \<Rightarrow> addr \<Rightarrow> queue_heap \<Rightarrow> bool \<times> queue_heap" where
  "queue_enqueue q_ptr e_ptr h =
     (if MAX_Q h q_ptr \<noteq> 0 \<and> SIZE h q_ptr \<ge> MAX_Q h q_ptr then (False, h)
      else (True, QUEUE_ENQUEUE q_ptr e_ptr h))"

definition queue_dequeue :: "addr \<Rightarrow> queue_heap \<Rightarrow> addr \<times> queue_heap" where
  "queue_dequeue q_ptr h = (if SIZE h q_ptr = 0 then (NULL, h) else QUEUE_DEQUEUE q_ptr h)"

definition queue_head :: "addr \<Rightarrow> queue_heap \<Rightarrow> addr" where
  "queue_head q_ptr h = (if SIZE h q_ptr = 0 then NULL else NEXT h q_ptr)"

definition queue_insert :: "addr \<Rightarrow> addr \<Rightarrow> addr \<Rightarrow> queue_heap \<Rightarrow> bool \<times> queue_heap" where
  "queue_insert q_ptr qe_ptr e_ptr h =
     (let qe = (if qe_ptr = NULL then q_ptr else qe_ptr)
      in if MAX_Q h q_ptr \<noteq> 0 \<and> SIZE h q_ptr \<ge> MAX_Q h q_ptr then (False, h)
         else (True, QUEUE_INSERT q_ptr qe e_ptr h))"

definition queue_next :: "addr \<Rightarrow> addr \<Rightarrow> queue_heap \<Rightarrow> addr" where
  "queue_next q_ptr e_ptr h =
     (if e_ptr = NULL then NULL
      else let next_ptr = NEXT h e_ptr in if next_ptr = q_ptr then NULL else next_ptr)"

text \<open>
  \<^verbatim>\<open>_queue_test\<close>. The loop runs while the pre-decremented counter is not zero, so exactly
  \<^verbatim>\<open>SIZE\<close> times (the counter is a 32-bit \<^verbatim>\<open>SIZE + 1\<close> and cannot wrap); the result is the code
  and, on an error, the element stored through \<^verbatim>\<open>element_in_error_ptr\<close>.
\<close>

fun queue_test_loop :: "addr \<Rightarrow> queue_heap \<Rightarrow> nat \<Rightarrow> addr \<Rightarrow> addr \<Rightarrow> u32 \<times> addr option" where
  "queue_test_loop q_ptr h (Suc n) element_ptr prev_ptr =
     (if element_ptr = q_ptr then (MQX_CORRUPT_QUEUE, Some element_ptr)
      else if PREV h element_ptr \<noteq> prev_ptr then (MQX_CORRUPT_QUEUE, Some element_ptr)
      else queue_test_loop q_ptr h n (NEXT h element_ptr) element_ptr)"
| "queue_test_loop q_ptr h 0 element_ptr prev_ptr =
     (if element_ptr \<noteq> q_ptr then (MQX_CORRUPT_QUEUE, Some element_ptr)
      else if PREV h q_ptr \<noteq> prev_ptr then (MQX_CORRUPT_QUEUE, Some element_ptr)
      else (MQX_OK, None))"

definition queue_test :: "addr \<Rightarrow> queue_heap \<Rightarrow> u32 \<times> addr option" where
  "queue_test q_ptr h = queue_test_loop q_ptr h (unat (QUEUE_GET_SIZE q_ptr h)) (NEXT h q_ptr) q_ptr"

definition queue_unlink :: "addr \<Rightarrow> addr \<Rightarrow> queue_heap \<Rightarrow> queue_heap" where
  "queue_unlink q_ptr e_ptr h = QUEUE_REMOVE q_ptr e_ptr h"

definition queue_get_size :: "addr \<Rightarrow> queue_heap \<Rightarrow> u16" where
  "queue_get_size q_ptr h = QUEUE_GET_SIZE q_ptr h"

definition queue_is_empty :: "addr \<Rightarrow> queue_heap \<Rightarrow> bool" where
  "queue_is_empty q_ptr h = QUEUE_IS_EMPTY q_ptr h"

subsection \<open>Field access rules\<close>

lemma set_fields [queue_simps]:
  "NEXT (set_NEXT p v h) = (NEXT h)(p := v)" "PREV (set_NEXT p v h) = PREV h"
  "SIZE (set_NEXT p v h) = SIZE h" "MAX_Q (set_NEXT p v h) = MAX_Q h"
  "NEXT (set_PREV p v h) = NEXT h" "PREV (set_PREV p v h) = (PREV h)(p := v)"
  "SIZE (set_PREV p v h) = SIZE h" "MAX_Q (set_PREV p v h) = MAX_Q h"
  "NEXT (set_SIZE p w h) = NEXT h" "PREV (set_SIZE p w h) = PREV h"
  "SIZE (set_SIZE p w h) = (SIZE h)(p := w)" "MAX_Q (set_SIZE p w h) = MAX_Q h"
  "NEXT (set_MAX p w h) = NEXT h" "PREV (set_MAX p w h) = PREV h"
  "SIZE (set_MAX p w h) = SIZE h" "MAX_Q (set_MAX p w h) = (MAX_Q h)(p := w)"
  by (simp_all add: set_NEXT_def set_PREV_def set_SIZE_def set_MAX_def)

lemma QUEUE_LINK_fields [queue_simps]:
  "NEXT (QUEUE_LINK m e h) = (NEXT h)(e := NEXT h m, m := e)"
  "PREV (QUEUE_LINK m e h) = (PREV h)(e := m, NEXT h m := e)"
  "SIZE (QUEUE_LINK m e h) = SIZE h" "MAX_Q (QUEUE_LINK m e h) = MAX_Q h"
  by (simp_all add: QUEUE_LINK_def Let_def queue_simps)

lemma QUEUE_UNLINK_fields [queue_simps]:
  "NEXT (QUEUE_UNLINK m h) = (NEXT h)(PREV h m := NEXT h m)"
  "PREV (QUEUE_UNLINK m h) = (PREV h)(NEXT h m := PREV h m)"
  "SIZE (QUEUE_UNLINK m h) = SIZE h" "MAX_Q (QUEUE_UNLINK m h) = MAX_Q h"
  by (simp_all add: QUEUE_UNLINK_def Let_def queue_simps)

lemma QUEUE_INSERT_fields [queue_simps]:
  "NEXT (QUEUE_INSERT q m e h) = (NEXT h)(e := NEXT h m, m := e)"
  "PREV (QUEUE_INSERT q m e h) = (PREV h)(e := m, NEXT h m := e)"
  "SIZE (QUEUE_INSERT q m e h) = (SIZE h)(q := SIZE h q + 1)" "MAX_Q (QUEUE_INSERT q m e h) = MAX_Q h"
  by (simp_all add: QUEUE_INSERT_def Let_def queue_simps)

lemma QUEUE_REMOVE_fields [queue_simps]:
  "NEXT (QUEUE_REMOVE q e h) = (NEXT h)(PREV h e := NEXT h e)"
  "PREV (QUEUE_REMOVE q e h) = (PREV h)(NEXT h e := PREV h e)"
  "SIZE (QUEUE_REMOVE q e h) = (SIZE h)(q := SIZE h q - 1)" "MAX_Q (QUEUE_REMOVE q e h) = MAX_Q h"
  by (simp_all add: QUEUE_REMOVE_def Let_def queue_simps)

subsection \<open>Representation of a list by a ring\<close>

text \<open>\<open>chain h a xs b\<close>: following \<^verbatim>\<open>NEXT\<close> from \<open>a\<close> visits \<open>xs\<close> and reaches \<open>b\<close>, and every
  \<^verbatim>\<open>PREV\<close> on the way points back.\<close>

fun chain :: "queue_heap \<Rightarrow> addr \<Rightarrow> addr list \<Rightarrow> addr \<Rightarrow> bool" where
  "chain h a [] b = (NEXT h a = b \<and> PREV h b = a)"
| "chain h a (x # xs) b = (NEXT h a = x \<and> PREV h x = a \<and> chain h x xs b)"

definition queue_rep :: "queue_heap \<Rightarrow> addr \<Rightarrow> addr list \<Rightarrow> bool" where
  "queue_rep h q xs \<longleftrightarrow> chain h q xs q \<and> distinct (q # xs) \<and> unat (SIZE h q) = length xs"

lemma chain_append: "chain h a (xs @ y # ys) b \<longleftrightarrow> chain h a xs y \<and> chain h y ys b"
  by (induction xs arbitrary: a) auto

lemma chain_cong:
  "\<lbrakk>\<And>p. p \<in> set (a # xs) \<Longrightarrow> NEXT h' p = NEXT h p;
    \<And>p. p \<in> set (xs @ [b]) \<Longrightarrow> PREV h' p = PREV h p\<rbrakk>
   \<Longrightarrow> chain h' a xs b = chain h a xs b"
  by (induction xs arbitrary: a) auto

lemma chain_snoc: "chain h a (xs @ [y]) b \<longleftrightarrow> chain h a xs y \<and> NEXT h y = b \<and> PREV h b = y"
  by (simp add: chain_append)

lemma chain_last: "chain h a xs b \<Longrightarrow> PREV h b = last (a # xs)"
  by (induction xs arbitrary: a) auto

lemma chain_first: "chain h a xs b \<Longrightarrow> NEXT h a = hd (xs @ [b])"
  by (cases xs) auto

lemma chain_unique: "chain h a xs b \<Longrightarrow> chain h a ys b \<Longrightarrow> b \<notin> set xs \<Longrightarrow> b \<notin> set ys \<Longrightarrow> xs = ys"
proof (induction xs arbitrary: a ys)
  case Nil
  then show ?case by (cases ys) auto
next
  case (Cons x xs)
  then show ?case by (cases ys) auto
qed

lemma queue_rep_unique: "queue_rep h q xs \<Longrightarrow> queue_rep h q ys \<Longrightarrow> xs = ys"
  by (auto simp: queue_rep_def dest: chain_unique)

text \<open>Two adjacent pieces of a chain, relinked around an element.\<close>

lemma chain_join:
  "\<lbrakk>chain h a xs y; chain h y ys b; y \<notin> set ys; y \<noteq> b; y \<notin> set xs; y \<noteq> a;
    distinct (a # xs @ ys); b \<notin> set (xs @ ys)\<rbrakk>
   \<Longrightarrow> chain (QUEUE_UNLINK y h) a (xs @ ys) b"
proof (induction xs arbitrary: a)
  case Nil
  then show ?case
  proof (cases ys)
    case Nil
    with Nil.prems show ?thesis by (simp add: queue_simps)
  next
    case (Cons z zs)
    have "chain (QUEUE_UNLINK y h) z zs b = chain h z zs b"
      using Nil.prems Cons by (intro chain_cong) (auto simp: queue_simps)
    with Nil.prems Cons show ?thesis by (simp add: queue_simps)
  qed
next
  case (Cons x xs)
  have "PREV h y = last (x # xs)" using Cons.prems(1) by (auto dest: chain_last)
  moreover have "NEXT h y = hd (ys @ [b])" using Cons.prems(2) by (rule chain_first)
  ultimately show ?case
    using Cons by (cases ys) (auto simp: queue_simps last_ConsR)
qed

lemma chain_link:
  "\<lbrakk>chain h a (pre @ post) b; m = last (a # pre); e \<notin> set (a # pre @ post); e \<noteq> b;
    distinct (a # pre @ post); b \<notin> set (pre @ post)\<rbrakk>
   \<Longrightarrow> chain (QUEUE_LINK m e h) a (pre @ e # post) b"
proof (induction pre arbitrary: a)
  case Nil
  then show ?case
  proof (cases post)
    case Nil
    with Nil.prems show ?thesis by (auto simp: queue_simps)
  next
    case (Cons z zs)
    have "chain (QUEUE_LINK m e h) z zs b = chain h z zs b"
      using Nil.prems Cons by (intro chain_cong) (auto simp: queue_simps)
    with Nil.prems Cons show ?thesis by (auto simp: queue_simps)
  qed
next
  case (Cons x pre)
  have m: "m = last (x # pre)" using Cons.prems(2) by simp
  have nxt: "NEXT h m = hd (post @ [b])"
  proof -
    have "chain h m post b"
      using Cons.prems(1) unfolding m
    proof (cases pre rule: rev_cases)
      case Nil
      then show "chain h (last (x # pre)) post b" using Cons.prems(1) by simp
    next
      case (snoc ys y)
      then show "chain h (last (x # pre)) post b"
        using Cons.prems(1) by (simp add: chain_append)
    qed
    then show ?thesis by (rule chain_first)
  qed
  have neq: "hd (post @ [b]) \<noteq> x" "e \<noteq> x" "a \<noteq> m" "a \<noteq> e"
    using Cons.prems(3-6) m by (cases post; auto split: if_splits)+
  have "chain (QUEUE_LINK m e h) x (pre @ e # post) b"
    using Cons.prems m by (intro Cons.IH) auto
  with Cons.prems(1) neq nxt show ?case by (simp add: queue_simps)
qed

subsection \<open>Refinement of the list operations\<close>

lemma queue_repI:
  "\<lbrakk>chain h q xs q; distinct (q # xs); unat (SIZE h q) = length xs\<rbrakk> \<Longrightarrow> queue_rep h q xs"
  by (simp add: queue_rep_def)

lemma queue_rep_chainD:
  assumes "queue_rep h q xs"
  shows "chain h q xs q" and "distinct (q # xs)" and "unat (SIZE h q) = length xs"
  using assms by (simp_all add: queue_rep_def)

lemma chain_set_SIZE [simp]: "chain (set_SIZE p w h) a xs b = chain h a xs b"
  by (rule chain_cong) (simp_all add: queue_simps)

lemma queue_rep_SIZE_0: "queue_rep h q xs \<Longrightarrow> SIZE h q = 0 \<longleftrightarrow> xs = []"
  by (auto simp: queue_rep_def unat_eq_0 [symmetric])

lemma queue_rep_init: "queue_rep (QUEUE_INIT q m h) q []"
  by (simp add: queue_rep_def QUEUE_INIT_def queue_simps)

lemma SIZE_inc:
  fixes s :: u16
  shows "unat s < 65535 \<Longrightarrow> unat (s + 1) = Suc (unat s)"
  by (simp add: unat_add_small)

lemma SIZE_dec:
  fixes s :: u16
  shows "0 < unat s \<Longrightarrow> unat (s - 1) = unat s - 1"
  by (simp add: unat_sub_small)

lemma queue_rep_insert:
  assumes rep: "queue_rep h q (pre @ post)" and m: "m = last (q # pre)"
    and e: "e \<notin> set (q # pre @ post)" and len: "length (pre @ post) < 65535"
  shows "queue_rep (QUEUE_INSERT q m e h) q (pre @ e # post)"
proof (rule queue_repI)
  note r = queue_rep_chainD [OF rep]
  have "chain (QUEUE_LINK m e h) q (pre @ e # post) q"
    using r(1) m e r(2) by (intro chain_link) auto
  then show "chain (QUEUE_INSERT q m e h) q (pre @ e # post) q"
    by (simp add: QUEUE_INSERT_def Let_def)
  show "distinct (q # pre @ e # post)" using r(2) e by auto
  show "unat (SIZE (QUEUE_INSERT q m e h) q) = length (pre @ e # post)"
    using r(3) len by (simp add: queue_simps SIZE_inc)
qed

lemma queue_rep_enqueue:
  assumes rep: "queue_rep h q xs" and e: "e \<notin> set (q # xs)" and len: "length xs < 65535"
  shows "queue_rep (QUEUE_ENQUEUE q e h) q (xs @ [e])"
proof -
  have "PREV h q = last (q # xs)" using queue_rep_chainD(1) [OF rep] by (rule chain_last)
  with queue_rep_insert [of h q xs "[]" "PREV h q" e] assms show ?thesis
    by (simp add: QUEUE_ENQUEUE_def)
qed

lemma queue_rep_remove:
  assumes rep: "queue_rep h q (pre @ e # post)"
  shows "queue_rep (QUEUE_REMOVE q e h) q (pre @ post)"
proof (rule queue_repI)
  note r = queue_rep_chainD [OF rep]
  have "chain (QUEUE_UNLINK e h) q (pre @ post) q"
    using r(1,2) by (intro chain_join) (auto simp: chain_append)
  then show "chain (QUEUE_REMOVE q e h) q (pre @ post) q"
    by (simp add: QUEUE_REMOVE_def Let_def)
  show "distinct (q # pre @ post)" using r(2) by auto
  show "unat (SIZE (QUEUE_REMOVE q e h) q) = length (pre @ post)"
    using r(3) by (simp add: queue_simps SIZE_dec)
qed

lemma queue_rep_dequeue:
  assumes rep: "queue_rep h q (x # xs)"
  shows "fst (QUEUE_DEQUEUE q h) = x" and "queue_rep (snd (QUEUE_DEQUEUE q h)) q xs"
proof -
  have "NEXT h q = x" using queue_rep_chainD(1) [OF rep] by simp
  with queue_rep_remove [of h q "[]" x xs] rep
  show "fst (QUEUE_DEQUEUE q h) = x" and "queue_rep (snd (QUEUE_DEQUEUE q h)) q xs"
    by (simp_all add: QUEUE_DEQUEUE_def Let_def)
qed

text \<open>Operations on one queue leave every other queue with separate cells as it is.\<close>

lemma queue_rep_frame:
  assumes rep: "queue_rep h q xs"
    and next_eq: "\<And>p. p \<in> set (q # xs) \<Longrightarrow> NEXT h' p = NEXT h p"
    and prev_eq: "\<And>p. p \<in> set (q # xs) \<Longrightarrow> PREV h' p = PREV h p"
    and size_eq: "SIZE h' q = SIZE h q"
  shows "queue_rep h' q xs"
proof -
  have "chain h' q xs q = chain h q xs q" by (rule chain_cong) (auto simp: next_eq prev_eq)
  with rep size_eq show ?thesis by (simp add: queue_rep_def)
qed

subsection \<open>The consistency test\<close>

lemma queue_test_loop_iff:
  "NEXT h p = e \<Longrightarrow>
   fst (queue_test_loop q h n e p) = MQX_OK \<longleftrightarrow>
     (\<exists>xs. length xs = n \<and> q \<notin> set xs \<and> chain h p xs q)"
proof (induction n arbitrary: e p)
  case 0
  then show ?case by auto
next
  case (Suc n)
  show ?case
  proof (cases "e = q \<or> PREV h e \<noteq> p")
    case True
    moreover have "\<nexists>xs. length xs = Suc n \<and> q \<notin> set xs \<and> chain h p xs q"
      using True Suc.prems by (auto simp: length_Suc_conv)
    ultimately show ?thesis by auto
  next
    case False
    have "(\<exists>xs. length xs = Suc n \<and> q \<notin> set xs \<and> chain h p xs q) \<longleftrightarrow>
        (\<exists>ys. length ys = n \<and> q \<notin> set ys \<and> chain h e ys q)" (is "?L \<longleftrightarrow> ?R")
    proof
      assume ?L
      with Suc.prems show ?R by (auto simp: length_Suc_conv)
    next
      assume ?R
      then obtain ys where "length ys = n" "q \<notin> set ys" "chain h e ys q" by blast
      with False Suc.prems show ?L by (intro exI [of _ "e # ys"]) auto
    qed
    with Suc.IH [of e "NEXT h e"] False show ?thesis by simp
  qed
qed

text \<open>A ring whose \<^verbatim>\<open>PREV\<close> fields agree with its \<^verbatim>\<open>NEXT\<close> fields and that meets its head only at
  the end repeats no element, so the test need not look for repetitions.\<close>

lemma chain_distinct: "chain h q xs b \<Longrightarrow> q \<notin> set xs \<Longrightarrow> distinct xs"
proof (induction xs arbitrary: b rule: rev_induct)
  case Nil
  show ?case by simp
next
  case (snoc y xs)
  from snoc.prems have c: "chain h q xs y" and q: "q \<notin> set xs" by (simp_all add: chain_snoc)
  from snoc.IH [OF c q] have d: "distinct xs" .
  have "y \<notin> set xs"
  proof
    assume "y \<in> set xs"
    then obtain us vs where xs: "xs = us @ y # vs" by (auto simp: in_set_conv_decomp)
    with c have "chain h q us y" and "chain h y vs y" by (simp_all add: chain_append)
    then have "last (q # us) = last (y # vs)" by (metis chain_last)
    moreover have "last (q # us) \<in> set (q # us)" and "last (y # vs) \<in> set (y # vs)"
      by (rule last_in_set, simp)+
    ultimately show False using d q xs by auto
  qed
  with d show ?case by simp
qed

lemma queue_test_loop_code:
  "queue_test_loop q h n e p = (MQX_OK, None) \<or>
   (\<exists>x. queue_test_loop q h n e p = (MQX_CORRUPT_QUEUE, Some x))"
  by (induction n arbitrary: e p) auto

lemma queue_test_rep: "fst (queue_test q h) = MQX_OK \<longleftrightarrow> (\<exists>xs. queue_rep h q xs)"
proof -
  have "fst (queue_test q h) = MQX_OK \<longleftrightarrow>
      (\<exists>xs. length xs = unat (SIZE h q) \<and> q \<notin> set xs \<and> chain h q xs q)"
    by (simp add: queue_test_def QUEUE_GET_SIZE_def queue_test_loop_iff)
  also have "\<dots> \<longleftrightarrow> (\<exists>xs. queue_rep h q xs)"
    by (metis chain_distinct distinct.simps(2) queue_rep_def)
  finally show ?thesis .
qed

text \<open>
  C33 (equivalence). \<^verbatim>\<open>_queue_test\<close> reports \<^verbatim>\<open>MQX_OK\<close> exactly for the heads that own a well-formed
  ring: a sequence of distinct elements, other than the head, whose \<^verbatim>\<open>NEXT\<close> and \<^verbatim>\<open>PREV\<close>
  pointers agree and whose number is the stored \<^verbatim>\<open>SIZE\<close>.
\<close>

theorem queue_test_iff_rep: "fst (queue_test q h) = MQX_OK \<longleftrightarrow> (\<exists>xs. queue_rep h q xs)"
  by (rule queue_test_rep)

subsection \<open>The FIFO interface\<close>

text \<open>
  What the rest of the kernel relies on: a state that represents a list, an operation that
  appends and one that takes the first element. The elements that may be appended are given
  by \<open>admissible\<close> (not already linked, and room for one more).
\<close>

fun deq_many :: "('s \<Rightarrow> 'a \<times> 's) \<Rightarrow> nat \<Rightarrow> 's \<Rightarrow> 'a list \<times> 's" where
  "deq_many deq 0 s = ([], s)"
| "deq_many deq (Suc n) s =
     (let (x, s') = deq s; (xs, s'') = deq_many deq n s' in (x # xs, s''))"

fun admissible_all :: "('a \<Rightarrow> 'a list \<Rightarrow> bool) \<Rightarrow> 'a list \<Rightarrow> 'a list \<Rightarrow> bool" where
  "admissible_all adm xs [] = True"
| "admissible_all adm xs (y # ys) = (adm y xs \<and> admissible_all adm (xs @ [y]) ys)"

locale fifo_queue =
  fixes rep :: "'s \<Rightarrow> 'a list \<Rightarrow> bool"
    and enq :: "'a \<Rightarrow> 's \<Rightarrow> 's"
    and deq :: "'s \<Rightarrow> 'a \<times> 's"
    and admissible :: "'a \<Rightarrow> 'a list \<Rightarrow> bool"
  assumes enq_rep: "rep s xs \<Longrightarrow> admissible x xs \<Longrightarrow> rep (enq x s) (xs @ [x])"
    and deq_fst: "rep s (x # xs) \<Longrightarrow> fst (deq s) = x"
    and deq_rep: "rep s (x # xs) \<Longrightarrow> rep (snd (deq s)) xs"
begin

lemma enq_many_rep: "rep s xs \<Longrightarrow> admissible_all admissible xs ys \<Longrightarrow> rep (fold enq ys s) (xs @ ys)"
proof (induction ys arbitrary: s xs)
  case Nil
  then show ?case by simp
next
  case (Cons y ys)
  from Cons.prems have "rep (enq y s) (xs @ [y])" by (simp add: enq_rep)
  from Cons.IH [OF this] Cons.prems show ?case by simp
qed

lemma deq_many_order: "rep s (xs @ ys) \<Longrightarrow>
  fst (deq_many deq (length xs) s) = xs \<and> rep (snd (deq_many deq (length xs) s)) ys"
proof (induction xs arbitrary: s)
  case Nil
  then show ?case by simp
next
  case (Cons x xs)
  then have "fst (deq s) = x" and "rep (snd (deq s)) (xs @ ys)"
    by (auto intro: deq_fst deq_rep)
  with Cons.IH [of "snd (deq s)"] show ?case by (auto simp: split_beta Let_def)
qed

lemma fifo_order:
  assumes "rep s xs" and "admissible_all admissible xs ys"
  shows "fst (deq_many deq (length (xs @ ys)) (fold enq ys s)) = xs @ ys"
    and "rep (snd (deq_many deq (length (xs @ ys)) (fold enq ys s))) []"
  using deq_many_order [of "fold enq ys s" "xs @ ys" "[]"] enq_many_rep [OF assms] by auto

end

subsection \<open>The pointer queue provides the interface\<close>

definition queue_room :: "addr \<Rightarrow> u16 \<Rightarrow> addr \<Rightarrow> addr list \<Rightarrow> bool" where
  "queue_room q m e xs \<longleftrightarrow>
     e \<notin> set (q # xs) \<and> length xs < 65535 \<and> (m = 0 \<or> length xs < unat m)"

definition bounded_rep :: "addr \<Rightarrow> u16 \<Rightarrow> queue_heap \<Rightarrow> addr list \<Rightarrow> bool" where
  "bounded_rep q m h xs \<longleftrightarrow> queue_rep h q xs \<and> MAX_Q h q = m"

lemma MAX_frame [queue_simps]:
  "MAX_Q (QUEUE_ENQUEUE q e h) = MAX_Q h" "MAX_Q (snd (QUEUE_DEQUEUE q h)) = MAX_Q h"
  by (simp_all add: QUEUE_ENQUEUE_def QUEUE_DEQUEUE_def Let_def queue_simps)

lemma queue_full_iff:
  "queue_rep h q xs \<Longrightarrow> MAX_Q h q \<le> SIZE h q \<longleftrightarrow> unat (MAX_Q h q) \<le> length xs"
  by (simp add: queue_rep_def word_le_nat_alt)

lemma bounded_rep_enqueue:
  "bounded_rep q m h xs \<Longrightarrow> queue_room q m e xs \<Longrightarrow>
   bounded_rep q m (snd (queue_enqueue q e h)) (xs @ [e])"
  by (auto simp: bounded_rep_def queue_room_def queue_enqueue_def queue_full_iff queue_simps
      intro: queue_rep_enqueue)

lemma bounded_rep_dequeue:
  assumes "bounded_rep q m h (x # xs)"
  shows "fst (queue_dequeue q h) = x" and "bounded_rep q m (snd (queue_dequeue q h)) xs"
  using assms queue_rep_SIZE_0 [of h q "x # xs"]
  by (auto simp: bounded_rep_def queue_dequeue_def queue_rep_dequeue queue_simps)

lemma queue_enqueue_rep:
  "queue_rep h q xs \<Longrightarrow> queue_room q (MAX_Q h q) e xs \<Longrightarrow> queue_rep (snd (queue_enqueue q e h)) q (xs @ [e])"
  using bounded_rep_enqueue [of q "MAX_Q h q" h xs e] by (simp add: bounded_rep_def)

interpretation ptr_queue: fifo_queue "bounded_rep q m" "\<lambda>e h. snd (queue_enqueue q e h)"
  "queue_dequeue q" "queue_room q m"
  for q :: addr and m :: u16
  by unfold_locales (auto intro: bounded_rep_enqueue bounded_rep_dequeue)

lemma admissible_all_room:
  "admissible_all (queue_room q m) xs ys \<longleftrightarrow>
     (ys = [] \<or> (q \<notin> set ys \<and> distinct ys \<and> set xs \<inter> set ys = {} \<and>
       length (xs @ ys) \<le> 65535 \<and> (m = 0 \<or> length (xs @ ys) \<le> unat m)))"
  by (induction ys arbitrary: xs) (auto simp: queue_room_def)

text \<open>
  Fact. First in, first out: enqueueing \<open>ys\<close> on a queue that holds \<open>xs\<close> and dequeueing
  as many elements returns \<open>xs\<close> and then \<open>ys\<close>, in order, and leaves the queue empty, as long as
  the new elements are unlinked, distinct and fit the queue's maximum.
\<close>

theorem queue_fifo:
  assumes "queue_rep h q xs" and "distinct (q # xs @ ys)" and "length (xs @ ys) \<le> 65535"
    and "MAX_Q h q = 0 \<or> length (xs @ ys) \<le> unat (MAX_Q h q)"
  shows "fst (deq_many (queue_dequeue q) (length (xs @ ys))
           (fold (\<lambda>e h. snd (queue_enqueue q e h)) ys h)) = xs @ ys
       \<and> queue_rep (snd (deq_many (queue_dequeue q) (length (xs @ ys))
           (fold (\<lambda>e h. snd (queue_enqueue q e h)) ys h))) q []"
proof -
  have "bounded_rep q (MAX_Q h q) h xs" using assms(1) by (simp add: bounded_rep_def)
  moreover have "admissible_all (queue_room q (MAX_Q h q)) xs ys"
    using assms(2-4) by (auto simp: admissible_all_room)
  ultimately show ?thesis
    using ptr_queue.fifo_order [of q "MAX_Q h q" h xs ys] by (simp add: bounded_rep_def)
qed

definition empty_heap :: queue_heap where
  "empty_heap = \<lparr>NEXT = (\<lambda>_. 0), PREV = (\<lambda>_. 0), SIZE = (\<lambda>_. 0), MAX_Q = (\<lambda>_. 0)\<rparr>"

theorem queue_fifo_witness:
  "fst (deq_many (queue_dequeue 1) (length [5 :: addr, 7])
      (fold (\<lambda>e h. snd (queue_enqueue 1 e h)) [5, 7] (queue_init 1 2 empty_heap))) = [5, 7]"
  using queue_fifo [of "queue_init 1 2 empty_heap" 1 "[]" "[5, 7]"]
    queue_rep_init [of 1 2 empty_heap]
  by (simp add: queue_init_def QUEUE_INIT_def queue_simps)

subsection \<open>Each function on a represented queue\<close>

text \<open>
  Fact. \<^verbatim>\<open>_queue_enqueue\<close> fails, changing nothing, exactly when the queue has a maximum
  and holds that many elements, and otherwise appends the element.
\<close>

theorem queue_enqueue_spec:
  assumes "queue_rep h q xs" and "e \<notin> set (q # xs)" and "length xs < 65535"
  shows "if MAX_Q h q \<noteq> 0 \<and> unat (MAX_Q h q) \<le> length xs then queue_enqueue q e h = (False, h)
         else fst (queue_enqueue q e h) \<and> queue_rep (snd (queue_enqueue q e h)) q (xs @ [e])"
  using assms by (auto simp: queue_enqueue_def queue_full_iff intro: queue_rep_enqueue)

theorem queue_enqueue_spec_witness:
  "queue_rep (snd (queue_enqueue 1 5 (queue_init 1 2 empty_heap))) 1 [5]"
  using queue_enqueue_spec [of "queue_init 1 2 empty_heap" 1 "[]" 5]
    queue_rep_init [of 1 2 empty_heap]
  by (simp add: queue_init_def QUEUE_INIT_def queue_simps)

text \<open>
  Fact. \<^verbatim>\<open>_queue_insert\<close> puts the element right after the given member, or at the front
  for \<^verbatim>\<open>NULL\<close>, unless the queue is full.
\<close>

theorem queue_insert_spec:
  assumes "queue_rep h q (pre @ post)" and "e \<notin> set (q # pre @ post)"
    and "length (pre @ post) < 65535" and "NULL \<notin> set (q # pre)"
    and "\<not> (MAX_Q h q \<noteq> 0 \<and> unat (MAX_Q h q) \<le> length (pre @ post))"
  shows "fst (queue_insert q (if pre = [] then NULL else last pre) e h)
       \<and> queue_rep (snd (queue_insert q (if pre = [] then NULL else last pre) e h)) q (pre @ e # post)"
proof -
  have "last (q # pre) = (if pre = [] then q else last pre)" by simp
  moreover have "pre \<noteq> [] \<Longrightarrow> last pre \<noteq> NULL" using assms(4) by (metis last_in_set list.set_intros(2))
  moreover have "\<not> (MAX_Q h q \<noteq> 0 \<and> SIZE h q \<ge> MAX_Q h q)"
    using assms(5) queue_full_iff [OF assms(1)] by blast
  ultimately show ?thesis
    using queue_rep_insert [OF assms(1) refl assms(2,3)]
    by (auto simp: queue_insert_def Let_def)
qed

theorem queue_insert_spec_witness:
  "queue_rep (snd (queue_insert 1 5 9 (snd (queue_enqueue 1 5 (queue_init 1 4 empty_heap))))) 1 [5, 9]"
proof -
  have rep: "queue_rep (snd (queue_enqueue 1 5 (queue_init 1 4 empty_heap))) 1 ([5] @ [])"
    using queue_enqueue_rep [of "queue_init 1 4 empty_heap" 1 "[]" 5]
      queue_rep_init [of 1 4 empty_heap]
    by (simp add: queue_init_def QUEUE_INIT_def queue_simps queue_room_def)
  have "MAX_Q (snd (queue_enqueue 1 5 (queue_init 1 4 empty_heap))) 1 = 4"
    by (simp add: queue_enqueue_def queue_simps queue_init_def QUEUE_INIT_def)
  with queue_insert_spec [OF rep, of 9] show ?thesis by simp
qed

text \<open>
  Fact. \<^verbatim>\<open>_queue_next\<close> walks the represented list: it returns the element after the given
  one and \<^verbatim>\<open>NULL\<close> at the last element or for \<^verbatim>\<open>NULL\<close>; \<^verbatim>\<open>_queue_head\<close> returns the first element,
  \<^verbatim>\<open>NULL\<close> if there is none.
\<close>

theorem queue_next_spec:
  assumes "queue_rep h q (pre @ x # post)" and "NULL \<notin> set (q # pre @ x # post)"
  shows "queue_next q x h = (case post of [] \<Rightarrow> NULL | y # _ \<Rightarrow> y)
       \<and> queue_next q NULL h = NULL \<and> queue_head q h = hd (pre @ [x])"
proof -
  from assms(1) have c: "chain h q pre x" "chain h x post q" "q \<notin> set post"
    by (auto simp: queue_rep_def chain_append)
  from c(2) have "NEXT h x = hd (post @ [q])" by (rule chain_first)
  moreover from c(1) have "NEXT h q = hd (pre @ [x])" by (rule chain_first)
  moreover have "SIZE h q \<noteq> 0" using queue_rep_SIZE_0 [OF assms(1)] by simp
  ultimately show ?thesis
    using assms(2) c(3) by (auto simp: queue_next_def queue_head_def Let_def split: list.splits)
qed

theorem queue_next_spec_witness:
  "queue_next 1 5 (snd (queue_enqueue 1 7 (snd (queue_enqueue 1 5 (queue_init 1 0 empty_heap))))) = 7"
proof -
  let ?h1 = "snd (queue_enqueue 1 5 (queue_init 1 0 empty_heap))"
  have m: "MAX_Q (queue_init 1 0 empty_heap) 1 = 0" "MAX_Q ?h1 1 = 0"
    by (simp_all add: queue_init_def QUEUE_INIT_def queue_enqueue_def queue_simps)
  have r0: "queue_rep (queue_init 1 0 empty_heap) 1 []" by (simp add: queue_init_def queue_rep_init)
  have r1: "queue_rep ?h1 1 [5]" using queue_enqueue_rep [OF r0, of 5] m by (simp add: queue_room_def)
  have "queue_rep (snd (queue_enqueue 1 7 ?h1)) 1 ([] @ 5 # [7])"
    using queue_enqueue_rep [OF r1, of 7] m by (simp add: queue_room_def)
  from queue_next_spec [OF this] show ?thesis by simp
qed

text \<open>
  Fact. \<^verbatim>\<open>_queue_unlink\<close> removes exactly the given element, and unlinking a task twice
  (which \<^verbatim>\<open>_lwsem_wait_timed_internal\<close> followed by \<^verbatim>\<open>_time_delay_internal\<close> does) is the same as
  unlinking it once.
\<close>

theorem queue_unlink_spec:
  assumes "queue_rep h q (pre @ e # post)"
  shows "queue_rep (queue_unlink q e h) q (pre @ post)
       \<and> QUEUE_UNLINK e (QUEUE_UNLINK e h) = QUEUE_UNLINK e h"
proof
  show "queue_rep (queue_unlink q e h) q (pre @ post)"
    using assms by (simp add: queue_unlink_def queue_rep_remove)
  from assms have c: "chain h q pre e" "chain h e post q" and d: "distinct (q # pre @ e # post)"
    by (simp_all add: queue_rep_def chain_append)
  from c have "PREV h e = last (q # pre)" and "NEXT h e = hd (post @ [q])"
    by (simp_all add: chain_last chain_first)
  with d have "PREV h e \<noteq> e" and "NEXT h e \<noteq> e"
    by (auto simp: hd_append split: if_splits)
  then show "QUEUE_UNLINK e (QUEUE_UNLINK e h) = QUEUE_UNLINK e h"
    by (simp add: QUEUE_UNLINK_def Let_def set_NEXT_def set_PREV_def)
qed

theorem queue_unlink_spec_witness:
  "queue_rep (queue_unlink 1 5 (snd (queue_enqueue 1 5 (queue_init 1 0 empty_heap)))) 1 []"
  using queue_unlink_spec [of "snd (queue_enqueue 1 5 (queue_init 1 0 empty_heap))" 1 "[]" 5 "[]"]
    queue_enqueue_rep [of "queue_init 1 0 empty_heap" 1 "[]" 5] queue_rep_init [of 1 0 empty_heap]
  by (simp add: queue_init_def QUEUE_INIT_def queue_simps queue_room_def)

end
