(* ===== verification/Psp_Math.thy ===== *)
theory Psp_Math
  imports Mqx_Prelude
begin

text \<open>
  The multiple-precision routines of the Cortex-M port (\<^verbatim>\<open>psp_mat1.c\<close>, \<^verbatim>\<open>psp_mat2.c\<close>,
  \<^verbatim>\<open>psp_mat3.c\<close>) on which the tick conversions rest. A \<^verbatim>\<open>PSP_128_BIT_UNION\<close> is the list of its
  four 32-bit words \<^verbatim>\<open>LW[0..3]\<close>, least significant first (the port is little-endian), and
  \<open>lwval\<close> is the number it denotes. Every routine is shown to compute the exact sum, product
  or quotient, carry or remainder included.
\<close>

subsection \<open>Numbers as word lists\<close>

fun lwval :: "u32 list \<Rightarrow> nat" where
  "lwval [] = 0"
| "lwval (x # xs) = unat x + 2 ^ 32 * lwval xs"

definition LLW :: "u32 list \<Rightarrow> nat \<Rightarrow> u64" where
  "LLW n k = ucast (n ! (2 * k)) + push_bit 32 (ucast (n ! (2 * k + 1)))"

lemma lwval_bound: "lwval xs < 2 ^ (32 * length xs)"
proof (induction xs)
  case Nil
  show ?case by simp
next
  case (Cons x xs)
  have "2 ^ 32 * (lwval xs + 1) \<le> 2 ^ 32 * 2 ^ (32 * length xs)"
    using Cons.IH by (intro mult_le_mono2) simp
  then have "unat x + 2 ^ 32 * lwval xs < 2 ^ 32 * 2 ^ (32 * length xs)"
    using unat_u32_bound [of x] by simp
  then show ?case by (simp add: power_add)
qed

lemma length_4_conv: "length xs = 4 \<longleftrightarrow> (\<exists>a b c d. xs = [a, b, c, d])"
  by (auto simp: eval_nat_numeral length_Suc_conv)

subsection \<open>psp_mat1.c\<close>

definition mul_step :: "u32 \<Rightarrow> u32 list \<Rightarrow> nat \<Rightarrow> u32 list \<Rightarrow> u32 list" where
  "mul_step mul m i tmp =
     (let w = (ucast mul :: u64) * ucast (m ! i);
          w0 = (ucast w :: u32);
          tmp' = tmp[i := tmp ! i + w0]
      in tmp'[i + 1 := ucast (drop_bit 32 w + of_bool (tmp' ! i < w0))])"

text \<open>
  \<^verbatim>\<open>_psp_mul_128_by_32\<close>: the returned word is the carry out of the product. The code clears
  \<^verbatim>\<open>LLW[0]\<close> of its scratch union only; the other two words are written before they are read,
  so their initial value, here zero, does not matter (\<open>mul_128_scratch\<close>).
\<close>

definition mul_128_loop :: "u32 \<Rightarrow> u32 list \<Rightarrow> u32 list \<Rightarrow> u32 \<times> u32 list" where
  "mul_128_loop mul m scratch =
     (let tmp = fold (mul_step mul m) [0, 1, 2] scratch;
          w = (ucast mul :: u64) * ucast (m ! 3);
          w0 = (ucast w :: u32);
          tmp' = tmp[3 := tmp ! 3 + w0];
          r = drop_bit 32 w + of_bool (tmp' ! 3 < w0)
      in (ucast r, tmp'))"

definition psp_mul_128_by_32 :: "u32 list \<Rightarrow> u32 \<Rightarrow> u32 \<times> u32 list" where
  "psp_mul_128_by_32 m mul =
     (if mul = 0 \<or> (LLW m 0 = 0 \<and> LLW m 1 = 0) then (0, [0, 0, 0, 0])
      else if mul = 1 then (0, m)
      else mul_128_loop mul m [0, 0, 0, 0])"

subsection \<open>psp_mat2.c\<close>

definition div_step :: "u32 \<Rightarrow> u32 list \<Rightarrow> nat \<Rightarrow> u64 \<times> u32 list \<Rightarrow> u64 \<times> u32 list" where
  "div_step d n i st =
     (let (r, tmp) = st;
          w = push_bit 32 r + ucast (n ! i);
          q = w div ucast d;
          tmp' = tmp[i + 1 := tmp ! (i + 1) + ucast (drop_bit 32 q)]
      in (w mod ucast d, tmp'[i := tmp' ! i + ucast q]))"

text \<open>
  \<^verbatim>\<open>_psp_div_128_by_32\<close>: the returned word is the remainder; a zero divisor returns
  \<^verbatim>\<open>MAX_UINT_32\<close> and leaves the result union (third argument) untouched.
\<close>

definition psp_div_128_by_32 :: "u32 list \<Rightarrow> u32 \<Rightarrow> u32 list \<Rightarrow> u32 \<times> u32 list" where
  "psp_div_128_by_32 n d r_ptr =
     (if d = 0 then (- 1, r_ptr)
      else if d = 1 then (0, n)
      else if LLW n 0 \<noteq> 0 \<or> LLW n 1 \<noteq> 0
      then let (r, tmp) = fold (div_step d n) [2, 1, 0] (ucast (n ! 3), [0, 0, 0, 0])
           in (ucast r, tmp)
      else (0, n))"

subsection \<open>psp_mat3.c\<close>

fun add_carry_loop :: "u32 list \<Rightarrow> u32 \<Rightarrow> u32 \<times> u32 list" where
  "add_carry_loop [] cy = (cy, [])"
| "add_carry_loop (z # zs) cy =
     (let x = z + cy; (cy', xs) = add_carry_loop zs (of_bool (x < z)) in (cy', x # xs))"

definition psp_add_element_to_array :: "u32 list \<Rightarrow> u32 \<Rightarrow> u32 \<times> u32 list" where
  "psp_add_element_to_array s1 val =
     (case s1 of [] \<Rightarrow> (0, [])
      | x # zs \<Rightarrow> (let y = x + val; (cy, xs) = add_carry_loop zs (of_bool (y < val)) in (cy, y # xs)))"

subsection \<open>One limb\<close>

lemma unat_ucast_u32_u64 [word_nat]: "unat (ucast (a :: u32) :: u64) = unat a"
  using unat_u32_bound [of a] by (simp add: unsigned_ucast_eq take_bit_nat_eq_self)

lemma unat_ucast_u64_u32 [word_nat]: "unat (ucast (w :: u64) :: u32) = unat w mod 2 ^ 32"
  by (simp add: unsigned_ucast_eq take_bit_eq_mod)

lemma unat_mult_u32_bound: "unat (a :: u32) * unat (b :: u32) \<le> 4294967295 * 4294967295"
  using unat_u32_bound [of a] unat_u32_bound [of b] by (intro mult_le_mono) simp_all

lemma unat_ucast_mult_u64 [word_nat]:
  "unat ((ucast (a :: u32) :: u64) * ucast (b :: u32)) = unat a * unat b"
  using unat_mult_u32_bound [of a b] by (simp add: unat_mult_small word_nat)

lemma carry_iff:
  fixes a b :: u32
  shows "a + b < b \<longleftrightarrow> 2 ^ 32 \<le> unat a + unat b"
proof (cases "unat a + unat b < 2 ^ 32")
  case True
  then show ?thesis by (simp add: word_less_nat_alt unat_word_ariths)
next
  case False
  with unat_u32_bound [of a] unat_u32_bound [of b]
  have "(unat a + unat b) mod 2 ^ 32 = unat a + unat b - 2 ^ 32"
    by (subst le_mod_geq) simp_all
  with False unat_u32_bound [of a] show ?thesis
    by (simp add: word_less_nat_alt unat_word_ariths)
qed

lemma unat_add_carry:
  fixes a b :: u32
  shows "unat (a + b) + 2 ^ 32 * of_bool (a + b < b) = unat a + unat b"
proof (cases "unat a + unat b < 2 ^ 32")
  case True
  then show ?thesis by (simp add: carry_iff unat_add_small)
next
  case False
  with unat_u32_bound [of a] unat_u32_bound [of b]
  have "(unat a + unat b) mod 2 ^ 32 = unat a + unat b - 2 ^ 32"
    by (subst le_mod_geq) simp_all
  with False show ?thesis by (simp add: carry_iff unat_word_ariths)
qed

text \<open>One limb of the product: low word and carry out hold exactly the old word plus the
  64-bit product.\<close>

lemma mul_limb:
  fixes t a b :: u32
  defines "w \<equiv> (ucast a :: u64) * ucast b"
  defines "lo \<equiv> t + (ucast w :: u32)"
  defines "hi \<equiv> ucast (drop_bit 32 w + of_bool (lo < ucast w)) :: u32"
  shows "unat lo + 2 ^ 32 * unat hi = unat t + unat a * unat b"
proof -
  have w: "unat w = unat a * unat b" by (simp add: w_def word_nat)
  have dr: "unat (drop_bit 32 w) = unat w div 2 ^ 32"
    by (subst unat_drop_bit_eq) (simp add: drop_bit_eq_div)
  have le: "unat w div 2 ^ 32 \<le> 2 ^ 32 - 2"
    using unat_mult_u32_bound [of a b] w by (simp add: div_le_mono [of _ "4294967295 * 4294967295" "2 ^ 32"])
  have b: "unat (of_bool (lo < ucast w) :: u64) = of_bool (lo < ucast w)" by simp
  have hi: "unat hi = unat w div 2 ^ 32 + of_bool (lo < ucast w)"
    using le by (simp add: hi_def word_nat dr b)
  have "unat lo + 2 ^ 32 * of_bool (lo < ucast w) = unat t + unat w mod 2 ^ 32"
    using unat_add_carry [of t "ucast w"] by (simp add: lo_def word_nat)
  moreover have "unat w = 2 ^ 32 * (unat w div 2 ^ 32) + unat w mod 2 ^ 32" by presburger
  ultimately show ?thesis unfolding hi w [symmetric] distrib_left by linarith
qed

subsection \<open>Multiplication\<close>

lemma fold_3: "fold f [x, y, z] s = f z (f y (f x s))"
  by simp

lemma mul_128_loop_val:
  assumes "length m = 4"
  shows "lwval (snd (mul_128_loop mul m [0, 0, u2, u3]))
           + 2 ^ 128 * unat (fst (mul_128_loop mul m [0, 0, u2, u3])) = lwval m * unat mul"
proof -
  from assms obtain a b c d where m: "m = [a, b, c, d]" by (auto simp: length_4_conv)
  define prod where "prod = (\<lambda>x. (ucast mul :: u64) * ucast (x :: u32))"
  define lo where "lo = (\<lambda>t x. t + (ucast (prod x) :: u32))"
  define hi where "hi = (\<lambda>t x. ucast (drop_bit 32 (prod x) + of_bool (lo t x < ucast (prod x))) :: u32)"
  have limb: "unat (lo t x) + 2 ^ 32 * unat (hi t x) = unat t + unat mul * unat x" for t x
    using mul_limb [of t mul x] by (simp add: lo_def hi_def prod_def)
  define t1 where "t1 = hi 0 a"
  define t2 where "t2 = hi t1 b"
  define t3 where "t3 = hi t2 c"
  have loop: "mul_128_loop mul m [0, 0, u2, u3] = (hi t3 d, [lo 0 a, lo t1 b, lo t2 c, lo t3 d])"
    by (simp add: m mul_128_loop_def mul_step_def Let_def lo_def hi_def prod_def t1_def t2_def t3_def)
  have "unat mul * unat a = unat (lo 0 a) + 2 ^ 32 * unat t1"
    using limb [of 0 a] by (simp add: t1_def)
  moreover have "unat mul * unat b + unat t1 = unat (lo t1 b) + 2 ^ 32 * unat t2"
    using limb [of t1 b] by (simp add: t2_def)
  moreover have "unat mul * unat c + unat t2 = unat (lo t2 c) + 2 ^ 32 * unat t3"
    using limb [of t2 c] by (simp add: t3_def)
  moreover have "unat mul * unat d + unat t3 = unat (lo t3 d) + 2 ^ 32 * unat (hi t3 d)"
    using limb [of t3 d] by simp
  ultimately show ?thesis unfolding loop by (simp add: m algebra_simps)
qed

lemma mul_128_scratch:
  "length m = 4 \<Longrightarrow> mul_128_loop mul m [0, 0, u2, u3] = mul_128_loop mul m [0, 0, v2, v3]"
  by (auto simp: length_4_conv mul_128_loop_def mul_step_def Let_def)

lemma LLW_eq_0:
  "LLW n k = 0 \<longleftrightarrow> n ! (2 * k) = 0 \<and> n ! (2 * k + 1) = 0"
proof -
  have p: "unat (push_bit 32 (ucast x :: u64)) = 2 ^ 32 * unat x" for x :: u32
    using unat_u32_bound [of x]
    by (simp add: unsigned_push_bit_eq word_nat push_bit_eq_mult take_bit_nat_eq_self mult.commute)
  have "unat (LLW n k) = unat (n ! (2 * k)) + 2 ^ 32 * unat (n ! (2 * k + 1))"
    using unat_u32_bound [of "n ! (2 * k)"] unat_u32_bound [of "n ! (2 * k + 1)"]
    by (simp add: LLW_def word_nat p)
  then show ?thesis by (simp add: unat_eq_zero flip: unat_eq_0)
qed

lemma LLW_lwval_0:
  "length n = 4 \<Longrightarrow> LLW n 0 = 0 \<and> LLW n 1 = 0 \<longleftrightarrow> lwval n = 0"
  by (auto simp: length_4_conv LLW_eq_0 unat_eq_zero)

lemma psp_mul_length: "length m = 4 \<Longrightarrow> length (snd (psp_mul_128_by_32 m mul)) = 4"
  by (simp add: psp_mul_128_by_32_def mul_128_loop_def mul_step_def Let_def)

lemma psp_mul_128_value:
  assumes "length m = 4"
  shows "lwval (snd (psp_mul_128_by_32 m mul)) + 2 ^ 128 * unat (fst (psp_mul_128_by_32 m mul))
       = lwval m * unat mul"
  using assms LLW_lwval_0 [OF assms] mul_128_loop_val [OF assms, of mul 0 0]
  by (auto simp: psp_mul_128_by_32_def)

text \<open>
  Fact. \<^verbatim>\<open>_psp_mul_128_by_32\<close> computes the exact 160-bit product of a 128-bit and a 32-bit
  number: the stored 128-bit union plus the returned carry, shifted by 128 bits, is the product.
\<close>

theorem psp_mul_128_correct:
  assumes "length m = 4"
  shows "lwval (snd (psp_mul_128_by_32 m mul)) + 2 ^ 128 * unat (fst (psp_mul_128_by_32 m mul))
       = lwval m * unat mul"
  using assms by (rule psp_mul_128_value)

theorem psp_mul_128_correct_witness:
  "lwval (snd (psp_mul_128_by_32 [0xFFFFFFFF, 7, 0, 1] 0xFFFFFFFF))
     + 2 ^ 128 * unat (fst (psp_mul_128_by_32 [0xFFFFFFFF, 7, 0, 1] 0xFFFFFFFF))
   = lwval [0xFFFFFFFF, 7, 0, 1] * 0xFFFFFFFF"
  using psp_mul_128_correct [of "[0xFFFFFFFF, 7, 0, 1]" "0xFFFFFFFF"] by simp

subsection \<open>Division\<close>

lemma unat_join [word_nat]:
  "unat r < 2 ^ 32 \<Longrightarrow> unat (push_bit 32 (r :: u64) + ucast (x :: u32)) = 2 ^ 32 * unat r + unat x"
  using unat_u32_bound [of x]
  by (simp add: unat_add_small word_nat unsigned_push_bit_eq push_bit_eq_mult take_bit_nat_eq_self
      mult.commute)

lemma unat_drop_bit_u64 [word_nat]: "unat (drop_bit 32 (w :: u64)) = unat w div 2 ^ 32"
  by (subst unat_drop_bit_eq) (simp add: drop_bit_eq_div)

lemma div_join_less:
  fixes r d x :: nat
  assumes "r < d" "x < 2 ^ 32"
  shows "(2 ^ 32 * r + x) div d < 2 ^ 32"
proof (rule less_mult_imp_div_less)
  have "2 ^ 32 * r + x < 2 ^ 32 * (r + 1)" using assms(2) by simp
  also have "\<dots> \<le> 2 ^ 32 * d" using assms(1) by (intro mult_le_mono2) simp
  finally show "2 ^ 32 * r + x < 2 ^ 32 * d" .
qed

lemma drop_bit_small: "unat (q :: u64) < 2 ^ 32 \<Longrightarrow> drop_bit 32 q = 0"
  by (simp add: word_nat unat_eq_zero flip: unat_eq_0)

text \<open>One step of the long division, the incoming remainder being below the divisor.\<close>

lemma div_limb:
  fixes r :: u64 and d x :: u32
  assumes "unat r < unat d"
  defines "w \<equiv> push_bit 32 r + ucast x"
  shows "unat (w mod ucast d) < unat d"
    and "drop_bit 32 (w div ucast d) = 0"
    and "unat d * unat (ucast (w div ucast d) :: u32) + unat (w mod ucast d) = 2 ^ 32 * unat r + unat x"
proof -
  have d: "unat d < 2 ^ 32" using unat_u32_bound [of d] by simp
  with assms(1) have w: "unat w = 2 ^ 32 * unat r + unat x" by (simp add: w_def word_nat)
  have q: "unat (w div ucast d) < 2 ^ 32"
    using div_join_less [OF assms(1), of "unat x"] unat_u32_bound [of x] by (simp add: unat_div w word_nat)
  show "unat (w mod ucast d) < unat d" using assms(1) by (simp add: unat_mod word_nat)
  from q show "drop_bit 32 (w div ucast d) = 0" by (rule drop_bit_small)
  from q show "unat d * unat (ucast (w div ucast d) :: u32) + unat (w mod ucast d)
      = 2 ^ 32 * unat r + unat x"
    by (simp add: word_nat unat_div unat_mod w)
qed

lemma div_128_loop_val:
  assumes "length n = 4" and "d \<noteq> 0"
  defines "st \<equiv> fold (div_step d n) [2, 1, 0] (ucast (n ! 3), [0, 0, 0, 0])"
  shows "unat d * lwval (snd st) + unat (fst st) = lwval n" and "unat (fst st) < unat d"
proof -
  from assms(1) obtain a b c e where n: "n = [a, b, c, e]" by (auto simp: length_4_conv)
  have d: "0 < unat d" using assms(2) by (simp add: unat_gt_0)
  define w1 where "w1 = push_bit 32 (ucast e :: u64) + ucast c"
  define w2 where "w2 = push_bit 32 (w1 mod ucast d) + ucast b"
  define w3 where "w3 = push_bit 32 (w2 mod ucast d) + ucast a"
  have w1: "unat w1 = 2 ^ 32 * unat e + unat c"
    using unat_u32_bound [of e] by (simp add: w1_def word_nat)
  have r1: "unat (w1 mod ucast d) < unat d" using d by (simp add: unat_mod word_nat)
  note s2 = div_limb [OF r1, of b, folded w2_def]
  note s3 = div_limb [OF s2(1), of a, folded w3_def]
  let ?q1 = "w1 div ucast d"
  have st: "st = (w3 mod ucast d,
      [ucast (w3 div ucast d), ucast (w2 div ucast d), ucast ?q1, ucast (drop_bit 32 ?q1)])"
    unfolding st_def fold_3
    by (simp add: div_step_def n Let_def s2(2) s3(2) flip: w1_def w2_def w3_def)
  have "unat ?q1 < 2 ^ 64" using unat_u64_bound [of ?q1] by simp
  then have "unat (ucast ?q1 :: u32) + 2 ^ 32 * unat (ucast (drop_bit 32 ?q1) :: u32) = unat ?q1"
    by (simp add: word_nat less_mult_imp_div_less)
  moreover have "unat d * unat ?q1 + unat (w1 mod ucast d) = 2 ^ 32 * unat e + unat c"
    by (simp add: unat_div unat_mod word_nat w1)
  ultimately have "unat d * (unat (ucast ?q1 :: u32) + 2 ^ 32 * unat (ucast (drop_bit 32 ?q1) :: u32))
      + unat (w1 mod ucast d) = 2 ^ 32 * unat e + unat c" by simp
  with s2(3) s3(3) show "unat d * lwval (snd st) + unat (fst st) = lwval n"
    unfolding st by (simp add: n algebra_simps)
  from s3(1) show "unat (fst st) < unat d" by (simp add: st)
qed

lemma psp_div_length:
  "length n = 4 \<Longrightarrow> d \<noteq> 0 \<Longrightarrow> length (snd (psp_div_128_by_32 n d r)) = 4"
  by (simp add: psp_div_128_by_32_def div_step_def Let_def split_beta)

lemma psp_div_128_value:
  assumes "length n = 4" and "d \<noteq> 0"
  shows "lwval (snd (psp_div_128_by_32 n d r)) = lwval n div unat d"
    and "unat (fst (psp_div_128_by_32 n d r)) = lwval n mod unat d"
proof -
  have d: "0 < unat d" using assms(2) by (simp add: unat_gt_0)
  note v = div_128_loop_val [OF assms]
  define st where "st = fold (div_step d n) [2, 1, 0] (ucast (n ! 3), [0, 0, 0, 0])"
  have "lwval (snd st) = lwval n div unat d" and "unat (fst st) = lwval n mod unat d"
    using v d by (auto simp: st_def div_mult_self4 mod_mult_self4 simp flip: v(1))
  moreover have "unat (ucast (fst st) :: u32) = unat (fst st)"
    using v(2) unat_u32_bound [of d] by (simp add: st_def word_nat)
  moreover have "d = 1 \<Longrightarrow> unat d = 1" by simp
  ultimately show "lwval (snd (psp_div_128_by_32 n d r)) = lwval n div unat d"
    and "unat (fst (psp_div_128_by_32 n d r)) = lwval n mod unat d"
    using assms LLW_lwval_0 [OF assms(1)]
    unfolding psp_div_128_by_32_def st_def [symmetric]
    by (auto simp: Let_def split_beta)
qed

text \<open>
  Fact. \<^verbatim>\<open>_psp_div_128_by_32\<close> is exact long division: for a nonzero divisor the stored union
  is the quotient and the returned word the remainder of the 128-bit dividend.
\<close>

theorem psp_div_128_correct:
  assumes "length n = 4" and "d \<noteq> 0"
  shows "lwval (snd (psp_div_128_by_32 n d r)) = lwval n div unat d
       \<and> unat (fst (psp_div_128_by_32 n d r)) = lwval n mod unat d"
  using psp_div_128_value [OF assms] by blast

theorem psp_div_128_correct_witness:
  "lwval (snd (psp_div_128_by_32 [5, 0, 9, 0xFFFFFFFF] 10 [])) = lwval [5, 0, 9, 0xFFFFFFFF] div 10"
  using psp_div_128_correct [of "[5, 0, 9, 0xFFFFFFFF]" 10 "[]"] by simp

subsection \<open>Addition\<close>

lemma add_carry_loop_val:
  "unat cy \<le> 1 \<Longrightarrow>
   lwval (snd (add_carry_loop zs cy)) + 2 ^ (32 * length zs) * unat (fst (add_carry_loop zs cy))
     = lwval zs + unat cy \<and> length (snd (add_carry_loop zs cy)) = length zs"
proof (induction zs arbitrary: cy)
  case Nil
  then show ?case by simp
next
  case (Cons z zs)
  let ?c = "of_bool (z + cy < z) :: u32"
  have c: "unat ?c = of_bool (z + cy < z)" by simp
  have "unat (z + cy) + 2 ^ 32 * of_bool (z + cy < z) = unat z + unat cy"
    using unat_add_carry [of cy z] by (simp add: add.commute)
  with Cons.IH [of ?c] c show ?case
    by (auto simp: Let_def split_beta algebra_simps power_add)
qed

lemma psp_add_element_value:
  assumes "s \<noteq> []"
  shows "lwval (snd (psp_add_element_to_array s v))
           + 2 ^ (32 * length s) * unat (fst (psp_add_element_to_array s v)) = lwval s + unat v
       \<and> length (snd (psp_add_element_to_array s v)) = length s"
proof -
  from assms obtain x zs where s: "s = x # zs" by (cases s) auto
  let ?c = "of_bool (x + v < v) :: u32"
  have "unat ?c = of_bool (x + v < v)" by simp
  with add_carry_loop_val [of ?c zs] unat_add_carry [of x v] show ?thesis
    by (auto simp: s psp_add_element_to_array_def Let_def split_beta algebra_simps power_add)
qed

text \<open>
  Fact. \<^verbatim>\<open>_psp_add_element_to_array\<close> adds a 32-bit value to a number of any length of at
  least one word: stored words and returned carry together hold the exact sum.
\<close>

theorem psp_add_element_correct:
  assumes "s \<noteq> []"
  shows "lwval (snd (psp_add_element_to_array s v))
           + 2 ^ (32 * length s) * unat (fst (psp_add_element_to_array s v)) = lwval s + unat v
       \<and> length (snd (psp_add_element_to_array s v)) = length s"
  using assms by (rule psp_add_element_value)

theorem psp_add_element_correct_witness:
  "lwval (snd (psp_add_element_to_array [0xFFFFFFFF, 0xFFFFFFFF, 0, 0] 1)) = 2 ^ 64"
  using psp_add_element_correct [of "[0xFFFFFFFF, 0xFFFFFFFF, 0, 0]" 1]
  by (simp add: psp_add_element_to_array_def Let_def)

end
