(* ===== verification/Psp_Ticks.thy ===== *)
theory Psp_Ticks
  imports Psp_Math
begin

unbundle bit_operations_syntax

text \<open>
  Tick structures of the Cortex-M port: the arithmetic of \<^verbatim>\<open>psp_tiad.c\<close>, \<^verbatim>\<open>psp_tisu.c\<close>,
  \<^verbatim>\<open>psp_tinm.c\<close> and the macros of \<^verbatim>\<open>psp_time.h\<close>, and the conversions between ticks and time
  units (\<^verbatim>\<open>psp_*ti.c\<close>, \<^verbatim>\<open>psp_ti*.c\<close>). A tick structure counts 64-bit ticks and 32-bit hardware
  ticks; the two rates are fields of the kernel data, here the record \<open>clock\<close>, which the kernel
  state of the scheduler extends.
\<close>

subsection \<open>Data\<close>

record psp_tick =
  TICKS :: u64
  HW_TICKS :: u32

record clock =
  TICKS_PER_SECOND :: u32
  HW_TICKS_PER_TICK :: u32

record time_struct =
  SECONDS :: u32
  MILLISECONDS :: u32

text \<open>\<^verbatim>\<open>MQX_ZERO_TICK_STRUCT\<close> and \<^verbatim>\<open>_mqx_zero_tick_struct\<close>.\<close>

definition zero_tick_struct :: psp_tick where
  "zero_tick_struct = \<lparr>TICKS = 0, HW_TICKS = 0\<rparr>"

subsection \<open>Arithmetic\<close>

definition psp_add_ticks :: "'a clock_scheme \<Rightarrow> psp_tick \<Rightarrow> psp_tick \<Rightarrow> psp_tick" where
  "psp_add_ticks kd a b =
     (let ticks = TICKS a + TICKS b; hwtpt = HW_TICKS_PER_TICK kd
      in if HW_TICKS a \<ge> hwtpt - HW_TICKS b
         then \<lparr>TICKS = ticks + 1, HW_TICKS = HW_TICKS a + (HW_TICKS b - hwtpt)\<rparr>
         else \<lparr>TICKS = ticks, HW_TICKS = HW_TICKS a + HW_TICKS b\<rparr>)"

definition psp_subtract_ticks :: "'a clock_scheme \<Rightarrow> psp_tick \<Rightarrow> psp_tick \<Rightarrow> psp_tick" where
  "psp_subtract_ticks kd a b =
     (let ticks = TICKS a - TICKS b
      in if HW_TICKS a < HW_TICKS b
         then \<lparr>TICKS = ticks - 1, HW_TICKS = HW_TICKS a + HW_TICKS_PER_TICK kd - HW_TICKS b\<rparr>
         else \<lparr>TICKS = ticks, HW_TICKS = HW_TICKS a - HW_TICKS b\<rparr>)"

text \<open>\<^verbatim>\<open>_psp_subtract_ticks_int32\<close> drops the hardware ticks of the difference and clamps the ticks into a signed
  32-bit number; the flag says whether it had to. The result is the bit pattern of the \<^verbatim>\<open>int32_t\<close>.\<close>

definition psp_subtract_ticks_int32 :: "'a clock_scheme \<Rightarrow> psp_tick \<Rightarrow> psp_tick \<Rightarrow> u32 \<times> bool" where
  "psp_subtract_ticks_int32 kd a b =
     (let r0 = TICKS a - TICKS b;
          r = (if HW_TICKS a < HW_TICKS b then r0 - 1 else r0);
          hi = (ucast (drop_bit 32 r) :: u32);
          lo = (ucast r :: u32);
          a_hw_ticks = (hi AND (0xFFFFFFFF XOR 0x7FFFFFFF)) OR (lo AND 0x7FFFFFFF);
          b_hw_ticks = (lo AND (0xFFFFFFFF XOR 0x7FFFFFFF)) OR (hi AND 0x7FFFFFFF)
      in if drop_bit 31 a_hw_ticks * 0xFFFFFFFF \<noteq> b_hw_ticks
         then (0x7FFFFFFF + drop_bit 31 a_hw_ticks, True)
         else (a_hw_ticks, False))"

definition psp_normalize_ticks :: "'a clock_scheme \<Rightarrow> psp_tick \<Rightarrow> psp_tick" where
  "psp_normalize_ticks kd t =
     (if HW_TICKS t \<ge> HW_TICKS_PER_TICK kd
      then let n = HW_TICKS t div HW_TICKS_PER_TICK kd
           in \<lparr>TICKS = TICKS t + ucast n, HW_TICKS = HW_TICKS t - n * HW_TICKS_PER_TICK kd\<rparr>
      else t)"

definition PSP_INC_TICKS :: "psp_tick \<Rightarrow> psp_tick" where
  "PSP_INC_TICKS t = t\<lparr>TICKS := TICKS t + 1\<rparr>"

text \<open>\<^verbatim>\<open>PSP_ADD_TICKS_TO_TICK_STRUCT(a, v, r)\<close> writes the ticks of \<open>r\<close> only.\<close>

definition PSP_ADD_TICKS_TO_TICK_STRUCT :: "psp_tick \<Rightarrow> u32 \<Rightarrow> psp_tick \<Rightarrow> psp_tick" where
  "PSP_ADD_TICKS_TO_TICK_STRUCT a v r = r\<lparr>TICKS := TICKS a + ucast v\<rparr>"

definition PSP_CMP_TICKS :: "psp_tick \<Rightarrow> psp_tick \<Rightarrow> int" where
  "PSP_CMP_TICKS a b = (if TICKS a > TICKS b then 1 else if TICKS a < TICKS b then - 1 else 0)"

subsection \<open>Time units to ticks\<close>

definition psp_seconds_to_ticks :: "'a clock_scheme \<Rightarrow> u32 \<Rightarrow> psp_tick" where
  "psp_seconds_to_ticks kd seconds =
     \<lparr>TICKS = ucast seconds * ucast (TICKS_PER_SECOND kd), HW_TICKS = 0\<rparr>"

definition psp_minutes_to_ticks :: "'a clock_scheme \<Rightarrow> u32 \<Rightarrow> psp_tick" where
  "psp_minutes_to_ticks kd minutes =
     \<lparr>TICKS = ucast minutes * ucast (TICKS_PER_SECOND kd) * 60, HW_TICKS = 0\<rparr>"

definition psp_hours_to_ticks :: "'a clock_scheme \<Rightarrow> u32 \<Rightarrow> psp_tick" where
  "psp_hours_to_ticks kd hours =
     \<lparr>TICKS = ucast hours * ucast (TICKS_PER_SECOND kd) * 3600, HW_TICKS = 0\<rparr>"

definition psp_days_to_ticks :: "'a clock_scheme \<Rightarrow> u32 \<Rightarrow> psp_tick" where
  "psp_days_to_ticks kd days =
     \<lparr>TICKS = ucast days * ucast (TICKS_PER_SECOND kd) * (3600 * 24), HW_TICKS = 0\<rparr>"

definition psp_msecs_to_ticks :: "'a clock_scheme \<Rightarrow> u32 \<Rightarrow> psp_tick" where
  "psp_msecs_to_ticks kd msecs =
     (let tmp = (ucast msecs :: u64) * ucast (TICKS_PER_SECOND kd);
          rest = tmp mod 1000;
          hw = (rest * ucast (HW_TICKS_PER_TICK kd) + 500) div 1000
      in \<lparr>TICKS = tmp div 1000, HW_TICKS = ucast hw\<rparr>)"

definition psp_usecs_to_ticks :: "'a clock_scheme \<Rightarrow> u32 \<Rightarrow> psp_tick" where
  "psp_usecs_to_ticks kd usecs =
     (let tmp = (ucast usecs :: u64) * ucast (TICKS_PER_SECOND kd);
          rest = tmp mod (1000 * 1000);
          hw = (rest * ucast (HW_TICKS_PER_TICK kd) + 500000) div (1000 * 1000)
      in \<lparr>TICKS = tmp div (1000 * 1000), HW_TICKS = ucast hw\<rparr>)"

definition psp_nsecs_to_ticks :: "'a clock_scheme \<Rightarrow> u32 \<Rightarrow> psp_tick" where
  "psp_nsecs_to_ticks kd nsecs =
     (let tmp = (ucast nsecs :: u64) * ucast (TICKS_PER_SECOND kd);
          rest = tmp mod (1000 * 1000 * 1000);
          hw = (rest * ucast (HW_TICKS_PER_TICK kd) + 500000000) div (1000 * 1000 * 1000)
      in \<lparr>TICKS = tmp div (1000 * 1000 * 1000), HW_TICKS = ucast hw\<rparr>)"

text \<open>Picoseconds are converted without rounding, in 128 bits.\<close>

definition psp_psecs_to_ticks :: "'a clock_scheme \<Rightarrow> u32 \<Rightarrow> psp_tick" where
  "psp_psecs_to_ticks kd psecs =
     (let tmp = (ucast psecs :: u64) * ucast (TICKS_PER_SECOND kd);
          rest = tmp mod (1000 * 1000 * 1000 * 1000);
          tmp1 = snd (psp_mul_128_by_32 [ucast rest, ucast (drop_bit 32 rest), 0, 0] (HW_TICKS_PER_TICK kd));
          tmp2 = snd (psp_div_128_by_32 tmp1 (1000 * 1000 * 1000) tmp1);
          tmp3 = snd (psp_div_128_by_32 tmp2 1000 tmp2)
      in \<lparr>TICKS = tmp div (1000 * 1000 * 1000 * 1000), HW_TICKS = tmp3 ! 0\<rparr>)"

definition psp_time_to_ticks :: "'a clock_scheme \<Rightarrow> time_struct \<Rightarrow> psp_tick" where
  "psp_time_to_ticks kd ts =
     psp_add_ticks kd (psp_seconds_to_ticks kd (SECONDS ts)) (psp_msecs_to_ticks kd (MILLISECONDS ts))"

text \<open>
  \<^verbatim>\<open>_psp_msecs_to_ticks_quick\<close> keeps two static variables: \<^verbatim>\<open>heuristic\<close> (0 not yet chosen, 1
  whole milliseconds per tick, 2 otherwise) and \<^verbatim>\<open>ms_per_tick\<close>. The result is the ticks and the
  new values of the statics; the \<^verbatim>\<open>goto\<close>s are the shared branches.
\<close>

record quick_statics =
  ms_per_tick :: u32
  heuristic :: u32

definition quick_fast :: "quick_statics \<Rightarrow> u32 \<Rightarrow> psp_tick" where
  "quick_fast st msecs = \<lparr>TICKS = ucast (msecs div ms_per_tick st), HW_TICKS = 0\<rparr>"

definition quick_slow :: "'a clock_scheme \<Rightarrow> u32 \<Rightarrow> psp_tick" where
  "quick_slow kd msecs =
     \<lparr>TICKS = (ucast msecs * ucast (TICKS_PER_SECOND kd)) div 1000, HW_TICKS = 0\<rparr>"

definition psp_msecs_to_ticks_quick ::
  "'a clock_scheme \<Rightarrow> quick_statics \<Rightarrow> u32 \<Rightarrow> psp_tick \<times> quick_statics" where
  "psp_msecs_to_ticks_quick kd st msecs =
     (if heuristic st = 1 then (quick_fast st msecs, st)
      else if heuristic st = 2 then (quick_slow kd msecs, st)
      else let mpt = 1000 div TICKS_PER_SECOND kd
           in if mpt * TICKS_PER_SECOND kd = 1000
              then (quick_fast \<lparr>ms_per_tick = mpt, heuristic = 1\<rparr> msecs,
                    \<lparr>ms_per_tick = mpt, heuristic = 1\<rparr>)
              else (quick_slow kd msecs, \<lparr>ms_per_tick = mpt, heuristic = 2\<rparr>))"

subsection \<open>Ticks to time units\<close>

text \<open>The rounding shared by the conversions to seconds, minutes, hours and days.\<close>

definition round_ticks :: "'a clock_scheme \<Rightarrow> psp_tick \<Rightarrow> u64" where
  "round_ticks kd t =
     (if TICKS t \<noteq> - 1 \<and> HW_TICKS t > HW_TICKS_PER_TICK kd div 2 then TICKS t + 1 else TICKS t)"

definition clip_u32 :: "u64 \<Rightarrow> u32 \<times> bool" where
  "clip_u32 tmp = (ucast tmp, tmp > 0xFFFFFFFF)"

definition psp_ticks_to_seconds :: "'a clock_scheme \<Rightarrow> psp_tick \<Rightarrow> u32 \<times> bool" where
  "psp_ticks_to_seconds kd t = clip_u32 (round_ticks kd t div ucast (TICKS_PER_SECOND kd))"

definition psp_ticks_to_minutes :: "'a clock_scheme \<Rightarrow> psp_tick \<Rightarrow> u32 \<times> bool" where
  "psp_ticks_to_minutes kd t = clip_u32 ((round_ticks kd t div ucast (TICKS_PER_SECOND kd)) div 60)"

definition psp_ticks_to_hours :: "'a clock_scheme \<Rightarrow> psp_tick \<Rightarrow> u32 \<times> bool" where
  "psp_ticks_to_hours kd t =
     clip_u32 ((round_ticks kd t div ucast (TICKS_PER_SECOND kd)) div (60 * 60))"

definition psp_ticks_to_days :: "'a clock_scheme \<Rightarrow> psp_tick \<Rightarrow> u32 \<times> bool" where
  "psp_ticks_to_days kd t =
     clip_u32 ((round_ticks kd t div ucast (TICKS_PER_SECOND kd)) div (60 * 60 * 24))"

text \<open>The 128-bit conversions to milli-, micro-, nano- and picoseconds. Every intermediate result
  is stored back into the same union.\<close>

definition union_of_ticks :: "psp_tick \<Rightarrow> u32 list" where
  "union_of_ticks t = [ucast (TICKS t), ucast (drop_bit 32 (TICKS t)), 0, 0]"

definition total_hwticks :: "'a clock_scheme \<Rightarrow> psp_tick \<Rightarrow> u32 list" where
  "total_hwticks kd t =
     snd (psp_add_element_to_array
       (snd (psp_mul_128_by_32 (union_of_ticks t) (HW_TICKS_PER_TICK kd))) (HW_TICKS t))"

definition finish_units :: "'a clock_scheme \<Rightarrow> bool \<Rightarrow> u32 list \<Rightarrow> u32 \<times> bool" where
  "finish_units kd rnd tmp0 =
     (let tmp1 = snd (psp_div_128_by_32 tmp0 (TICKS_PER_SECOND kd) tmp0);
          tmp2 = snd (psp_div_128_by_32 tmp1 (HW_TICKS_PER_TICK kd) tmp1);
          tmp3 = (if rnd then snd (psp_add_element_to_array tmp2 5) else tmp2);
          tmp4 = snd (psp_div_128_by_32 tmp3 10 tmp3)
      in (tmp4 ! 0, LLW tmp4 1 \<noteq> 0 \<or> tmp4 ! 1 \<noteq> 0))"

definition psp_ticks_to_milliseconds_internal ::
  "'a clock_scheme \<Rightarrow> bool \<Rightarrow> psp_tick \<Rightarrow> u32 \<times> bool" where
  "psp_ticks_to_milliseconds_internal kd rnd t =
     finish_units kd rnd (snd (psp_mul_128_by_32 (total_hwticks kd t) 10000))"

definition psp_ticks_to_microseconds_internal ::
  "'a clock_scheme \<Rightarrow> bool \<Rightarrow> psp_tick \<Rightarrow> u32 \<times> bool" where
  "psp_ticks_to_microseconds_internal kd rnd t =
     finish_units kd rnd (snd (psp_mul_128_by_32 (total_hwticks kd t) (10 * 1000 * 1000)))"

definition psp_ticks_to_nanoseconds_internal ::
  "'a clock_scheme \<Rightarrow> bool \<Rightarrow> psp_tick \<Rightarrow> u32 \<times> bool" where
  "psp_ticks_to_nanoseconds_internal kd rnd t =
     finish_units kd rnd
       (snd (psp_mul_128_by_32 (snd (psp_mul_128_by_32 (total_hwticks kd t) 1000000000)) 10))"

definition psp_ticks_to_picoseconds_internal ::
  "'a clock_scheme \<Rightarrow> bool \<Rightarrow> psp_tick \<Rightarrow> u32 \<times> bool" where
  "psp_ticks_to_picoseconds_internal kd rnd t =
     finish_units kd rnd
       (snd (psp_mul_128_by_32 (snd (psp_mul_128_by_32 (total_hwticks kd t) 1000000000)) 10000))"

definition psp_ticks_to_milliseconds :: "'a clock_scheme \<Rightarrow> psp_tick \<Rightarrow> u32 \<times> bool" where
  "psp_ticks_to_milliseconds kd t = psp_ticks_to_milliseconds_internal kd True t"

definition psp_ticks_to_milliseconds_truncate :: "'a clock_scheme \<Rightarrow> psp_tick \<Rightarrow> u32 \<times> bool" where
  "psp_ticks_to_milliseconds_truncate kd t = psp_ticks_to_milliseconds_internal kd False t"

definition psp_ticks_to_microseconds :: "'a clock_scheme \<Rightarrow> psp_tick \<Rightarrow> u32 \<times> bool" where
  "psp_ticks_to_microseconds kd t = psp_ticks_to_microseconds_internal kd True t"

definition psp_ticks_to_microseconds_truncate :: "'a clock_scheme \<Rightarrow> psp_tick \<Rightarrow> u32 \<times> bool" where
  "psp_ticks_to_microseconds_truncate kd t = psp_ticks_to_microseconds_internal kd False t"

definition psp_ticks_to_nanoseconds :: "'a clock_scheme \<Rightarrow> psp_tick \<Rightarrow> u32 \<times> bool" where
  "psp_ticks_to_nanoseconds kd t = psp_ticks_to_nanoseconds_internal kd True t"

definition psp_ticks_to_picoseconds :: "'a clock_scheme \<Rightarrow> psp_tick \<Rightarrow> u32 \<times> bool" where
  "psp_ticks_to_picoseconds kd t = psp_ticks_to_picoseconds_internal kd True t"

text \<open>\<^verbatim>\<open>_psp_ticks_to_time\<close>: the product \<^verbatim>\<open>HW_TICKS[0] * 1000\<close> is computed in 32 bits.\<close>

definition psp_ticks_to_time :: "'a clock_scheme \<Rightarrow> psp_tick \<Rightarrow> bool \<times> time_struct" where
  "psp_ticks_to_time kd t =
     (let tps = TICKS_PER_SECOND kd
      in if TICKS t div ucast tps > 0xFFFFFFFF
         then (False, \<lparr>SECONDS = 0xFFFFFFFF, MILLISECONDS = 999\<rparr>)
         else let tmp = TICKS t * 1000 + ucast (HW_TICKS t * 1000 div HW_TICKS_PER_TICK kd);
                  tmp' = tmp div ucast tps;
                  secs = ucast (tmp' div 1000)
              in (True, \<lparr>SECONDS = secs, MILLISECONDS = ucast (tmp' - ucast (secs * 1000))\<rparr>))"

text \<open>\<^verbatim>\<open>_psp_get_elapsed_milliseconds\<close> of the time \<^verbatim>\<open>kernel_data->TIME\<close>; a shortcut if a tick is a whole number of
  milliseconds.\<close>

definition psp_get_elapsed_milliseconds :: "'a clock_scheme \<Rightarrow> psp_tick \<Rightarrow> u32" where
  "psp_get_elapsed_milliseconds kd time =
     (let ticks = TICKS time; ms_per_tick = 1000 div TICKS_PER_SECOND kd
      in if ms_per_tick * TICKS_PER_SECOND kd = 1000 then ucast (ticks * ucast ms_per_tick)
         else ucast ((ticks * 1000) div ucast (TICKS_PER_SECOND kd)))"

subsection \<open>Values of tick structures\<close>

text \<open>The number of hardware ticks a structure stands for, and normal form.\<close>

definition hwvalue :: "'a clock_scheme \<Rightarrow> psp_tick \<Rightarrow> nat" where
  "hwvalue kd t = unat (TICKS t) * unat (HW_TICKS_PER_TICK kd) + unat (HW_TICKS t)"

definition tick_normal :: "'a clock_scheme \<Rightarrow> psp_tick \<Rightarrow> bool" where
  "tick_normal kd t \<longleftrightarrow> HW_TICKS t < HW_TICKS_PER_TICK kd"

lemma add_ticks_hw:
  fixes a b h :: u32
  assumes "a < h" and "b < h"
  shows "h - b \<le> a \<longleftrightarrow> unat h \<le> unat a + unat b"
    and "h - b \<le> a \<Longrightarrow> unat (a + (b - h)) = unat a + unat b - unat h"
    and "\<not> h - b \<le> a \<Longrightarrow> unat (a + b) = unat a + unat b"
proof -
  have hb: "unat (h - b) = unat h - unat b"
    using assms(2) by (intro unat_sub_small) (simp add: word_less_nat_alt)
  show i: "h - b \<le> a \<longleftrightarrow> unat h \<le> unat a + unat b"
    using assms(2) by (auto simp: word_le_nat_alt word_less_nat_alt hb)
  { assume le: "h - b \<le> a"
    have "unat (a - (h - b)) = unat a - (unat h - unat b)"
      using le hb by (simp only: unat_sub_small word_le_nat_alt)
    moreover have "a + (b - h) = a - (h - b)" by simp
    ultimately have "unat (a + (b - h)) = unat a - (unat h - unat b)" by (simp only:)
    with assms(2) show "unat (a + (b - h)) = unat a + unat b - unat h"
      by (simp add: word_less_nat_alt) }
  { assume "\<not> h - b \<le> a"
    with i unat_u32_bound [of h] show "unat (a + b) = unat a + unat b"
      by (simp add: unat_add_small) }
qed

text \<open>
  Fact. \<^verbatim>\<open>_psp_add_ticks\<close> adds exactly: on normal operands whose tick counts leave room for a
  carry, the result is normal and denotes the sum of the two hardware-tick counts.
\<close>

theorem psp_add_ticks_value:
  assumes "tick_normal kd a" and "tick_normal kd b"
    and "unat (TICKS a) + unat (TICKS b) + 1 < 2 ^ 64"
  shows "hwvalue kd (psp_add_ticks kd a b) = hwvalue kd a + hwvalue kd b
       \<and> tick_normal kd (psp_add_ticks kd a b)"
proof -
  let ?h = "HW_TICKS_PER_TICK kd"
  have a: "HW_TICKS a < ?h" and b: "HW_TICKS b < ?h" using assms(1,2) by (simp_all add: tick_normal_def)
  note hw = add_ticks_hw [OF a b]
  have s: "unat (TICKS a + TICKS b) = unat (TICKS a) + unat (TICKS b)"
    using assms(3) by (simp add: unat_add_small)
  have s1: "unat (TICKS a + TICKS b + 1) = unat (TICKS a) + unat (TICKS b) + 1"
    using assms(3) s by (simp add: unat_add_small)
  show ?thesis
  proof (cases "?h - HW_TICKS b \<le> HW_TICKS a")
    case True
    with hw s1 a b show ?thesis
      by (simp add: psp_add_ticks_def Let_def hwvalue_def tick_normal_def word_less_nat_alt
          algebra_simps)
  next
    case False
    with hw s a b show ?thesis
      by (simp add: psp_add_ticks_def Let_def hwvalue_def tick_normal_def word_less_nat_alt
          algebra_simps)
  qed
qed

text \<open>
  Fact. \<^verbatim>\<open>_psp_subtract_ticks\<close> undoes \<^verbatim>\<open>_psp_add_ticks\<close> on normal operands, whatever the tick
  counts: both wrap at 64 bits, as the kernel needs for \<^verbatim>\<open>TIME_OFFSET\<close>.
\<close>

theorem psp_subtract_add_ticks:
  assumes "tick_normal kd a" and "tick_normal kd b"
  shows "psp_subtract_ticks kd (psp_add_ticks kd a b) b = a"
proof -
  let ?h = "HW_TICKS_PER_TICK kd"
  have a: "HW_TICKS a < ?h" and b: "HW_TICKS b < ?h" using assms by (simp_all add: tick_normal_def)
  note hw = add_ticks_hw [OF a b]
  show ?thesis
  proof (cases "?h - HW_TICKS b \<le> HW_TICKS a")
    case True
    have "unat (HW_TICKS a + (HW_TICKS b - ?h)) < unat (HW_TICKS b)"
      using hw(2) [OF True] hw(1) True a by (simp add: word_less_nat_alt)
    then have "HW_TICKS a + (HW_TICKS b - ?h) < HW_TICKS b" by (simp add: word_less_nat_alt)
    with True show ?thesis
      by (simp add: psp_add_ticks_def psp_subtract_ticks_def Let_def)
  next
    case False
    have "\<not> HW_TICKS a + HW_TICKS b < HW_TICKS b"
      using hw(3) [OF False] by (simp add: word_less_nat_alt)
    with False show ?thesis
      by (simp add: psp_add_ticks_def psp_subtract_ticks_def Let_def)
  qed
qed

lemma psp_normalize_normal:
  assumes "HW_TICKS_PER_TICK kd \<noteq> 0"
  shows "tick_normal kd (psp_normalize_ticks kd t)"
    and "unat (TICKS t) + unat (HW_TICKS t) < 2 ^ 64 \<Longrightarrow>
         hwvalue kd (psp_normalize_ticks kd t) = hwvalue kd t"
proof -
  let ?h = "HW_TICKS_PER_TICK kd" and ?w = "HW_TICKS t"
  have h: "0 < unat ?h" using assms by (simp add: unat_gt_0)
  have m: "?w - ?w div ?h * ?h = ?w mod ?h" by (simp add: minus_div_mult_eq_mod)
  show "tick_normal kd (psp_normalize_ticks kd t)"
    using h by (auto simp: tick_normal_def psp_normalize_ticks_def Let_def m word_less_nat_alt
        word_le_nat_alt unat_mod)
  assume r: "unat (TICKS t) + unat ?w < 2 ^ 64"
  have "unat (ucast (?w div ?h) :: u64) = unat ?w div unat ?h" by (simp add: word_nat unat_div)
  moreover have "unat (TICKS t) + unat ?w div unat ?h < 2 ^ 64"
    using r div_le_dividend [of "unat ?w" "unat ?h"] by linarith
  ultimately have "unat (TICKS t + ucast (?w div ?h)) = unat (TICKS t) + unat ?w div unat ?h"
    by (subst unat_add_small) simp_all
  moreover have "unat (?w - ?w div ?h * ?h) = unat ?w mod unat ?h" by (simp only: m unat_mod)
  ultimately show "hwvalue kd (psp_normalize_ticks kd t) = hwvalue kd t"
    by (auto simp: hwvalue_def psp_normalize_ticks_def Let_def distrib_right)
qed

subsection \<open>The 128-bit conversions\<close>

lemma psp_mul_exact:
  assumes "length m = 4" and "lwval m * unat mul < 2 ^ 128"
  shows "lwval (snd (psp_mul_128_by_32 m mul)) = lwval m * unat mul"
proof -
  note e = psp_mul_128_value [OF assms(1), of mul]
  then have "2 ^ 128 * unat (fst (psp_mul_128_by_32 m mul)) < 2 ^ 128" using assms(2) by linarith
  then have "unat (fst (psp_mul_128_by_32 m mul)) = 0" by simp
  with e show ?thesis by simp
qed

lemma psp_add_exact:
  assumes "length s = 4" and "lwval s + unat v < 2 ^ 128"
  shows "lwval (snd (psp_add_element_to_array s v)) = lwval s + unat v"
    and "length (snd (psp_add_element_to_array s v)) = 4"
proof -
  from assms(1) have "s \<noteq> []" by auto
  note e = psp_add_element_value [OF this, of v]
  with assms(1) have "2 ^ 128 * unat (fst (psp_add_element_to_array s v)) < 2 ^ 128"
    using assms(2) by simp
  then have "unat (fst (psp_add_element_to_array s v)) = 0" by simp
  with e assms(1) show "lwval (snd (psp_add_element_to_array s v)) = lwval s + unat v"
    and "length (snd (psp_add_element_to_array s v)) = 4" by simp_all
qed

lemma union_of_ticks_val: "lwval (union_of_ticks t) = unat (TICKS t)" "length (union_of_ticks t) = 4"
  using unat_u64_bound [of "TICKS t"]
  by (simp_all add: union_of_ticks_def word_nat less_mult_imp_div_less)

lemma unat_prod_bound:
  assumes "unat (T :: u64) \<le> 2 ^ 64 - 1" and "unat (H :: u32) \<le> 2 ^ 32 - 1"
  shows "unat T * unat H + (2 ^ 32 - 1) < 2 ^ 96"
proof -
  have "unat T * unat H \<le> (2 ^ 64 - 1) * (2 ^ 32 - 1)" using assms by (rule mult_le_mono)
  then have "unat T * unat H + (2 ^ 32 - 1) \<le> (2 ^ 64 - 1) * (2 ^ 32 - 1) + (2 ^ 32 - 1)"
    by (rule add_right_mono)
  then show ?thesis by simp
qed

lemma hwvalue_bound: "hwvalue kd t < 2 ^ 96"
proof -
  have "unat (TICKS t) \<le> 2 ^ 64 - 1" and "unat (HW_TICKS_PER_TICK kd) \<le> 2 ^ 32 - 1"
    and "unat (HW_TICKS t) \<le> 2 ^ 32 - 1"
    using unat_u64_bound [of "TICKS t"] unat_u32_bound [of "HW_TICKS_PER_TICK kd"]
      unat_u32_bound [of "HW_TICKS t"] by simp_all
  with unat_prod_bound [of "TICKS t" "HW_TICKS_PER_TICK kd"] show ?thesis
    by (simp add: hwvalue_def)
qed

lemma total_hwticks_val:
  "lwval (total_hwticks kd t) = hwvalue kd t" "length (total_hwticks kd t) = 4"
proof -
  note b = hwvalue_bound [of kd t, unfolded hwvalue_def]
  let ?m = "snd (psp_mul_128_by_32 (union_of_ticks t) (HW_TICKS_PER_TICK kd))"
  have l: "length ?m = 4" by (simp add: psp_mul_length union_of_ticks_val)
  have v: "lwval ?m = unat (TICKS t) * unat (HW_TICKS_PER_TICK kd)"
    using b by (subst psp_mul_exact) (simp_all add: union_of_ticks_val)
  have "lwval ?m + unat (HW_TICKS t) < 2 ^ 128" using b v by simp
  from psp_add_exact [OF l this] v
  show "lwval (total_hwticks kd t) = hwvalue kd t" "length (total_hwticks kd t) = 4"
    by (simp_all add: total_hwticks_def hwvalue_def)
qed

lemma lw_clip:
  assumes "length n = 4"
  shows "n ! 0 = of_nat (lwval n)" and "LLW n 1 \<noteq> 0 \<or> n ! 1 \<noteq> 0 \<longleftrightarrow> 2 ^ 32 \<le> lwval n"
proof -
  from assms obtain a b c d where n: "n = [a, b, c, d]" by (auto simp: length_4_conv)
  have "(of_nat (lwval n) :: u32) = of_nat (unat a) + of_nat (2 ^ 32) * of_nat (lwval [b, c, d])"
    by (simp add: n)
  also have "(of_nat (2 ^ 32) :: u32) = 0" by simp
  finally show "n ! 0 = of_nat (lwval n)" by (simp add: n)
  have "lwval [b, c, d] = 0 \<longleftrightarrow> b = 0 \<and> c = 0 \<and> d = 0" by (auto simp: unat_eq_zero)
  moreover have "2 ^ 32 \<le> lwval n \<longleftrightarrow> lwval [b, c, d] \<noteq> 0"
    using unat_u32_bound [of a] by (simp add: n; arith)
  ultimately show "LLW n 1 \<noteq> 0 \<or> n ! 1 \<noteq> 0 \<longleftrightarrow> 2 ^ 32 \<le> lwval n"
    by (auto simp: LLW_eq_0 n)
qed

lemma finish_units_val:
  fixes rnd :: bool
  assumes "length tmp = 4" and "lwval tmp + 5 < 2 ^ 128"
    and "TICKS_PER_SECOND kd \<noteq> 0" and "HW_TICKS_PER_TICK kd \<noteq> 0"
  defines "v \<equiv> ((lwval tmp div unat (TICKS_PER_SECOND kd)) div unat (HW_TICKS_PER_TICK kd)
                 + (if rnd then 5 else 0)) div 10"
  shows "finish_units kd rnd tmp = (of_nat v, 2 ^ 32 \<le> v)"
proof -
  define tmp1 where "tmp1 = snd (psp_div_128_by_32 tmp (TICKS_PER_SECOND kd) tmp)"
  define tmp2 where "tmp2 = snd (psp_div_128_by_32 tmp1 (HW_TICKS_PER_TICK kd) tmp1)"
  define tmp3 where "tmp3 = (if rnd then snd (psp_add_element_to_array tmp2 5) else tmp2)"
  define tmp4 where "tmp4 = snd (psp_div_128_by_32 tmp3 10 tmp3)"
  have 1: "length tmp1 = 4" "lwval tmp1 = lwval tmp div unat (TICKS_PER_SECOND kd)"
    using assms(1,3) by (simp_all add: tmp1_def psp_div_length psp_div_128_value)
  have 2: "length tmp2 = 4" "lwval tmp2 = lwval tmp1 div unat (HW_TICKS_PER_TICK kd)"
    using 1(1) assms(4) by (simp_all add: tmp2_def psp_div_length psp_div_128_value)
  have "lwval tmp2 \<le> lwval tmp" unfolding 1(2) 2(2) by (meson div_le_dividend order_trans)
  then have 3: "length tmp3 = 4" "lwval tmp3 = lwval tmp2 + (if rnd then 5 else 0)"
    using 2(1) assms(2) psp_add_exact [OF 2(1), of 5] by (simp_all add: tmp3_def)
  have 4: "length tmp4 = 4" "lwval tmp4 = v"
    using 3 1(2) 2(2) by (simp_all add: tmp4_def psp_div_length psp_div_128_value v_def)
  have "finish_units kd rnd tmp = (tmp4 ! 0, LLW tmp4 1 \<noteq> 0 \<or> tmp4 ! 1 \<noteq> 0)"
    unfolding finish_units_def Let_def tmp1_def [symmetric] tmp2_def [symmetric]
      tmp3_def [symmetric] tmp4_def [symmetric] ..
  with lw_clip [OF 4(1)] 4(2) show ?thesis by simp
qed

text \<open>
  C40 (functional). The 128-bit conversion to milliseconds is exact and never loses a carry: for nonzero
  rates the result is the number of tenths of milliseconds, divided by the two rates, rounded
  (or truncated) to milliseconds; the returned word is its low 32 bits and the overflow flag says
  whether it needs more.
\<close>

theorem psp_ticks_to_milliseconds_exact:
  assumes "TICKS_PER_SECOND kd \<noteq> 0" and "HW_TICKS_PER_TICK kd \<noteq> 0"
  shows "let v = \<lambda>r. (((hwvalue kd t * 10000) div unat (TICKS_PER_SECOND kd))
                     div unat (HW_TICKS_PER_TICK kd) + r) div 10
         in psp_ticks_to_milliseconds kd t = (of_nat (v 5), 2 ^ 32 \<le> v 5)
          \<and> psp_ticks_to_milliseconds_truncate kd t = (of_nat (v 0), 2 ^ 32 \<le> v 0)"
proof -
  let ?m = "snd (psp_mul_128_by_32 (total_hwticks kd t) 10000)"
  have v: "lwval ?m = hwvalue kd t * 10000"
    using hwvalue_bound [of kd t] by (subst psp_mul_exact) (simp_all add: total_hwticks_val)
  have l: "length ?m = 4" by (simp add: psp_mul_length total_hwticks_val)
  have "lwval ?m + 5 < 2 ^ 128" using v hwvalue_bound [of kd t] by simp
  from finish_units_val [OF l this assms, of True] finish_units_val [OF l this assms, of False]
  show ?thesis
    by (simp add: Let_def psp_ticks_to_milliseconds_def psp_ticks_to_milliseconds_truncate_def
        psp_ticks_to_milliseconds_internal_def v)
qed

definition clock_200 :: clock where
  "clock_200 = \<lparr>TICKS_PER_SECOND = 200, HW_TICKS_PER_TICK = 60000\<rparr>"

theorem psp_ticks_to_milliseconds_exact_witness:
  "psp_ticks_to_milliseconds clock_200 \<lparr>TICKS = 3, HW_TICKS = 30000\<rparr> = (18, False)"
  using psp_ticks_to_milliseconds_exact [of clock_200 "\<lparr>TICKS = 3, HW_TICKS = 30000\<rparr>"]
  by (simp add: clock_200_def hwvalue_def Let_def)

text \<open>
  Fact. The conversion to picoseconds multiplies by 10000000000000 in 128 bits and drops the
  carries: it is exact as long as that product fits, and the overflow flag is then right.
\<close>

theorem psp_ticks_to_picoseconds_exact:
  assumes "TICKS_PER_SECOND kd \<noteq> 0" and "HW_TICKS_PER_TICK kd \<noteq> 0"
    and "hwvalue kd t * 10000000000000 + 5 < 2 ^ 128"
  shows "let v = (((hwvalue kd t * 10000000000000) div unat (TICKS_PER_SECOND kd))
                     div unat (HW_TICKS_PER_TICK kd) + 5) div 10
         in psp_ticks_to_picoseconds kd t = (of_nat v, 2 ^ 32 \<le> v)"
proof -
  let ?m1 = "snd (psp_mul_128_by_32 (total_hwticks kd t) 1000000000)"
  let ?m = "snd (psp_mul_128_by_32 ?m1 10000)"
  have l1: "length ?m1 = 4" by (simp add: psp_mul_length total_hwticks_val)
  have v1: "lwval ?m1 = hwvalue kd t * 1000000000"
    using assms(3) by (subst psp_mul_exact) (simp_all add: total_hwticks_val)
  have l: "length ?m = 4" by (simp add: psp_mul_length l1)
  have v: "lwval ?m = hwvalue kd t * 10000000000000"
    using assms(3) by (subst psp_mul_exact) (simp_all add: l1 v1)
  have "lwval ?m + 5 < 2 ^ 128" using v assms(3) by simp
  from finish_units_val [OF l this assms(1,2), of True] show ?thesis
    by (simp add: Let_def psp_ticks_to_picoseconds_def psp_ticks_to_picoseconds_internal_def v)
qed

theorem psp_ticks_to_picoseconds_exact_witness:
  "psp_ticks_to_picoseconds clock_200 \<lparr>TICKS = 0, HW_TICKS = 3\<rparr> = (250000, False)"
  using psp_ticks_to_picoseconds_exact [of clock_200 "\<lparr>TICKS = 0, HW_TICKS = 3\<rparr>"]
  by (simp add: clock_200_def hwvalue_def Let_def)

theorem psp_add_ticks_value_witness:
  "hwvalue clock_200 (psp_add_ticks clock_200 \<lparr>TICKS = 1, HW_TICKS = 50000\<rparr> \<lparr>TICKS = 2, HW_TICKS = 20000\<rparr>)
     = 250000"
  using psp_add_ticks_value [of clock_200 "\<lparr>TICKS = 1, HW_TICKS = 50000\<rparr>" "\<lparr>TICKS = 2, HW_TICKS = 20000\<rparr>"]
  by (simp add: clock_200_def hwvalue_def tick_normal_def)

theorem psp_subtract_add_ticks_witness:
  "psp_subtract_ticks clock_200
     (psp_add_ticks clock_200 \<lparr>TICKS = - 1, HW_TICKS = 50000\<rparr> \<lparr>TICKS = 2, HW_TICKS = 20000\<rparr>)
     \<lparr>TICKS = 2, HW_TICKS = 20000\<rparr> = \<lparr>TICKS = - 1, HW_TICKS = 50000\<rparr>"
  by (rule psp_subtract_add_ticks) (simp_all add: clock_200_def tick_normal_def)

subsection \<open>Conversions to and from whole units\<close>

lemma unat_ticks_units:
  fixes n tps :: u32 and c :: u64
  assumes "unat tps * unat c \<le> 2 ^ 32"
  shows "unat (ucast n * ucast tps * c :: u64) = unat n * (unat tps * unat c)"
proof -
  have "unat n * (unat tps * unat c) \<le> 4294967295 * 2 ^ 32"
    using unat_u32_bound [of n] assms by (intro mult_le_mono) simp_all
  then have "unat (ucast n * ucast tps :: u64) * unat c < 2 ^ 64"
    by (simp add: word_nat mult.assoc)
  then have "unat (ucast n * ucast tps * c :: u64) = unat (ucast n * ucast tps :: u64) * unat c"
    by (intro unat_mult_small) simp
  then show ?thesis by (simp add: word_nat mult.assoc)
qed

lemma clip_u32_id: "unat w < 2 ^ 32 \<Longrightarrow> clip_u32 w = (of_nat (unat w), False)"
  by (simp add: clip_u32_def word_less_nat_alt not_less flip: unat_ucast_u64_u32)

lemma units_roundtrip:
  fixes n :: u32 and c :: u64
  assumes "TICKS_PER_SECOND kd \<noteq> 0" and "unat (TICKS_PER_SECOND kd) * unat c \<le> 2 ^ 32"
    and "unat c \<noteq> 0"
  shows "clip_u32 ((round_ticks kd \<lparr>TICKS = ucast n * ucast (TICKS_PER_SECOND kd) * c, HW_TICKS = 0\<rparr>
           div ucast (TICKS_PER_SECOND kd)) div c) = (n, False)"
proof -
  let ?tps = "TICKS_PER_SECOND kd"
  have "0 < unat ?tps" using assms(1) by (simp add: unat_gt_0)
  then have u: "unat ((ucast n * ucast ?tps * c) div ucast ?tps div c :: u64) = unat n"
    using assms(2,3) by (simp add: unat_div unat_ticks_units word_nat flip: div_mult2_eq)
  have "\<not> HW_TICKS_PER_TICK kd div 2 < 0" by simp
  with u unat_u32_bound [of n] show ?thesis
    by (subst clip_u32_id) (simp_all add: round_ticks_def)
qed

text \<open>
  Fact. Converting seconds, minutes, hours or days to ticks and back gives the same number,
  with no overflow reported, for every 32-bit amount and every tick rate of at most 49710 per second.
\<close>

theorem psp_units_roundtrip:
  assumes "TICKS_PER_SECOND kd \<noteq> 0" and "TICKS_PER_SECOND kd \<le> 49710"
  shows "psp_ticks_to_seconds kd (psp_seconds_to_ticks kd n) = (n, False)
       \<and> psp_ticks_to_minutes kd (psp_minutes_to_ticks kd n) = (n, False)
       \<and> psp_ticks_to_hours kd (psp_hours_to_ticks kd n) = (n, False)
       \<and> psp_ticks_to_days kd (psp_days_to_ticks kd n) = (n, False)"
proof -
  have le: "unat (TICKS_PER_SECOND kd) \<le> 49710" using assms(2) by (simp add: word_le_nat_alt)
  note rt = units_roundtrip [OF assms(1), of _ n]
  from rt [of 1] rt [of 60] rt [of 3600] rt [of 86400] le show ?thesis
    by (simp add: psp_ticks_to_seconds_def psp_seconds_to_ticks_def psp_ticks_to_minutes_def
        psp_minutes_to_ticks_def psp_ticks_to_hours_def psp_hours_to_ticks_def
        psp_ticks_to_days_def psp_days_to_ticks_def)
qed

theorem psp_units_roundtrip_witness:
  "psp_ticks_to_days clock_200 (psp_days_to_ticks clock_200 0xFFFFFFFF) = (0xFFFFFFFF, False)"
  using psp_units_roundtrip [of clock_200 "0xFFFFFFFF"] by (simp add: clock_200_def)

subsection \<open>The quick millisecond conversion\<close>

text \<open>The statics are valid for a clock when the cached choice was made for its tick rate.\<close>

definition quick_valid :: "'a clock_scheme \<Rightarrow> quick_statics \<Rightarrow> bool" where
  "quick_valid kd st \<longleftrightarrow>
     (heuristic st = 1 \<longrightarrow> unat (ms_per_tick st) * unat (TICKS_PER_SECOND kd) = 1000)"

lemma whole_ms_iff:
  fixes t :: u32
  assumes "t \<noteq> 0"
  shows "(1000 div t) * t = 1000 \<longleftrightarrow> unat (1000 div t) * unat t = 1000"
proof -
  have "unat (1000 div t) * unat t \<le> 1000" by (simp add: unat_div)
  then have "unat (1000 div t * t) = unat (1000 div t) * unat t" by (simp add: unat_mult_small)
  then show ?thesis by (simp add: word_unat_eq_iff)
qed

lemma quick_fast_slow:
  assumes "unat (ms_per_tick st) * unat (TICKS_PER_SECOND kd) = 1000"
  shows "quick_fast st msecs = quick_slow kd msecs"
proof -
  let ?m = "unat (ms_per_tick st)" and ?t = "unat (TICKS_PER_SECOND kd)"
  have pos: "0 < ?t" "0 < ?m" using assms by (auto intro: Nat.gr0I)
  have "(unat msecs * ?t) div 1000 = (unat msecs * ?t) div (?m * ?t)" by (simp add: assms)
  also have "\<dots> = unat msecs div ?m" using pos by simp
  finally show ?thesis
    by (simp add: quick_fast_def quick_slow_def word_unat_eq_iff unat_div word_nat)
qed

text \<open>
  Fact. With statics valid for the clock, \<^verbatim>\<open>_psp_msecs_to_ticks_quick\<close> returns exactly the
  milliseconds times the tick rate, divided by 1000, and leaves valid statics: the cached
  division by milliseconds per tick is an optimisation, not an approximation.
\<close>

theorem psp_msecs_to_ticks_quick_eq:
  assumes "TICKS_PER_SECOND kd \<noteq> 0" and "quick_valid kd st"
  shows "unat (TICKS (fst (psp_msecs_to_ticks_quick kd st msecs)))
           = (unat msecs * unat (TICKS_PER_SECOND kd)) div 1000
       \<and> quick_valid kd (snd (psp_msecs_to_ticks_quick kd st msecs))"
proof -
  have slow: "unat (TICKS (quick_slow kd msecs)) = (unat msecs * unat (TICKS_PER_SECOND kd)) div 1000"
    by (simp add: quick_slow_def unat_div word_nat)
  have mpt: "1000 div TICKS_PER_SECOND kd * TICKS_PER_SECOND kd = 1000 \<Longrightarrow>
      unat (1000 div TICKS_PER_SECOND kd) * unat (TICKS_PER_SECOND kd) = 1000"
    using whole_ms_iff [OF assms(1)] by simp
  show ?thesis
    using assms(2) slow quick_fast_slow [of st kd msecs] mpt
      quick_fast_slow [of "\<lparr>ms_per_tick = 1000 div TICKS_PER_SECOND kd, heuristic = 1\<rparr>" kd msecs]
    by (simp add: psp_msecs_to_ticks_quick_def Let_def quick_valid_def)
qed

theorem psp_msecs_to_ticks_quick_eq_witness:
  "unat (TICKS (fst (psp_msecs_to_ticks_quick clock_200 \<lparr>ms_per_tick = 0, heuristic = 0\<rparr> 1007))) = 201"
  using psp_msecs_to_ticks_quick_eq [of clock_200 "\<lparr>ms_per_tick = 0, heuristic = 0\<rparr>" 1007]
  by (simp add: clock_200_def quick_valid_def)

text \<open>
  The statics are never reset: after \<^verbatim>\<open>_time_set_ticks_per_sec\<close> changes the rate the cached choice is
  stale. Choosing it at 200 ticks per second and then changing the rate to 100 converts one second
  to 200 ticks, two seconds at the new rate.
\<close>

lemma psp_msecs_to_ticks_quick_stale:
  "let st = snd (psp_msecs_to_ticks_quick clock_200 \<lparr>ms_per_tick = 0, heuristic = 0\<rparr> 1);
       kd = clock_200\<lparr>TICKS_PER_SECOND := 100\<rparr>
   in TICKS (fst (psp_msecs_to_ticks_quick kd st 1000)) = 200 \<and> TICKS (quick_slow kd 1000) = 100"
  by (simp add: psp_msecs_to_ticks_quick_def clock_200_def quick_fast_def quick_slow_def Let_def)

subsection \<open>Differences as 32-bit numbers\<close>

text \<open>The halves of a 64-bit number with their sign bits exchanged: the low one is the number cut to 32 bits and
  the high one is the sign extension exactly if nothing was lost.\<close>

lemma bit_sign_masks:
  "bit (0x80000000 :: u32) n \<longleftrightarrow> n = 31" "bit (0x7FFFFFFF :: u32) n \<longleftrightarrow> n < 31"
proof -
  have "(0x80000000 :: u32) = push_bit 31 1" by simp
  then show "bit (0x80000000 :: u32) n \<longleftrightarrow> n = 31" by (auto simp only: bit_simps) auto
  have "(0x7FFFFFFF :: u32) = mask 31" by (simp add: mask_eq_exp_minus_1)
  then show "bit (0x7FFFFFFF :: u32) n \<longleftrightarrow> n < 31" by (simp only: bit_mask_iff) auto
qed

lemma sign_exchange_low:
  fixes r :: u64
  shows "bit (((ucast (drop_bit 32 r) :: u32) AND 0x80000000) OR ((ucast r :: u32) AND 0x7FFFFFFF)) n \<longleftrightarrow>
    n < 32 \<and> bit r (if n = 31 then 63 else n)"
  by (simp only: bit_and_iff bit_or_iff bit_unsigned_iff bit_drop_bit_eq bit_sign_masks o_apply) auto

lemma sign_exchange_high:
  fixes r :: u64
  shows "bit (((ucast r :: u32) AND 0x80000000) OR ((ucast (drop_bit 32 r) :: u32) AND 0x7FFFFFFF)) n \<longleftrightarrow>
    n < 32 \<and> bit r (if n = 31 then 31 else 32 + n)"
  by (simp only: bit_and_iff bit_or_iff bit_unsigned_iff bit_drop_bit_eq bit_sign_masks o_apply) auto

lemma bit_sint_min:
  "bit (sint (r :: u64)) n = bit r (min n 63)" "bit (sint (x :: u32)) n = bit x (min n 31)"
  by (cases "n \<le> 63"; auto simp: bit_sint_iff min_def dest: bit_imp_le_length)
    (cases "n \<le> 31"; auto simp: bit_sint_iff min_def dest: bit_imp_le_length)

lemma fits_int32_bits:
  fixes r :: u64
  shows "- (2 ^ 31) \<le> sint r \<and> sint r < 2 ^ 31 \<longleftrightarrow> (\<forall>n. 31 \<le> n \<and> n < 63 \<longrightarrow> bit r n = bit r 63)"
proof -
  have "- (2 ^ 31) \<le> sint r \<and> sint r < 2 ^ 31 \<longleftrightarrow> signed_take_bit 31 (sint r) = sint r"
    by (auto simp only: signed_take_bit_int_eq_self_iff)
  also have "\<dots> \<longleftrightarrow> (\<forall>n. bit r (min (min n 31) 63) = bit r (min n 63))"
    by (simp only: bit_eq_iff bit_signed_take_bit_iff bit_sint_min simp_thms possible_bit_int) (simp add: min.commute)
  also have "\<dots> \<longleftrightarrow> (\<forall>n. 31 \<le> n \<and> n < 63 \<longrightarrow> bit r n = bit r 63)"
  proof (rule iffI; intro allI impI)
    fix n :: nat
    assume h: "\<forall>n. bit r (min (min n 31) 63) = bit r (min n 63)" and n: "31 \<le> n \<and> n < 63"
    have m: "min n 31 = 31" "min n 63 = n" using n by simp_all
    have "bit r 31 = bit r n" "bit r 31 = bit r 63"
      using h [rule_format, of n] h [rule_format, of 63] by (simp_all add: m)
    then show "bit r n = bit r 63" by simp
  next
    fix n :: nat
    assume h: "\<forall>n. 31 \<le> n \<and> n < 63 \<longrightarrow> bit r n = bit r 63"
    then have "bit r 31 = bit r 63" by simp
    with h [rule_format, of n] show "bit r (min (min n 31) 63) = bit r (min n 63)"
      by (cases "n \<le> 31"; cases "n < 63") simp_all
  qed
  finally show ?thesis .
qed

lemma high_bits_reindex:
  fixes r :: u64
  shows "(\<forall>n :: nat. n < 32 \<longrightarrow> bit r (if n = 31 then 31 else 32 + n) = bit r 63) \<longleftrightarrow> (\<forall>n. 31 \<le> n \<and> n < 63 \<longrightarrow> bit r n = bit r 63)"
proof (rule iffI; intro allI impI)
  fix n :: nat
  assume "\<forall>n :: nat. n < 32 \<longrightarrow> bit r (if n = 31 then 31 else 32 + n) = bit r 63" and "31 \<le> n \<and> n < 63"
  then have h: "\<forall>n :: nat. n < 32 \<longrightarrow> bit r (if n = 31 then 31 else 32 + n) = bit r 63" "31 \<le> n" "n < 63" by auto
  show "bit r n = bit r 63"
  proof (cases "n = 31")
    case False
    then have n: "n - 32 < 32" "n - 32 \<noteq> 31" "32 + (n - 32) = n" using h(2,3) by linarith+
    show ?thesis using h(1) [rule_format, OF n(1)] n(2,3) by simp
  qed (use h(1) [rule_format, of 31] in simp)
qed auto

lemma sign_exchange_fits:
  fixes r :: u64
  defines "x \<equiv> ((ucast (drop_bit 32 r) :: u32) AND 0x80000000) OR ((ucast r :: u32) AND 0x7FFFFFFF)"
    and "y \<equiv> ((ucast r :: u32) AND 0x80000000) OR ((ucast (drop_bit 32 r) :: u32) AND 0x7FFFFFFF)"
  shows "drop_bit 31 x = of_bool (bit r 63)"
    and "drop_bit 31 x * 0xFFFFFFFF = y \<longleftrightarrow> - (2 ^ 31) \<le> sint r \<and> sint r < 2 ^ 31"
    and "- (2 ^ 31) \<le> sint r \<and> sint r < 2 ^ 31 \<Longrightarrow> sint x = sint r"
proof -
  have bx: "bit x n \<longleftrightarrow> n < 32 \<and> bit r (if n = 31 then 63 else n)" for n
    unfolding x_def by (rule sign_exchange_low)
  have bY: "bit y n \<longleftrightarrow> n < 32 \<and> bit r (if n = 31 then 31 else 32 + n)" for n
    unfolding y_def by (rule sign_exchange_high)
  show s: "drop_bit 31 x = of_bool (bit r 63)"
    by (rule bit_eqI) (auto simp: bit_simps bx)
  have m: "(0xFFFFFFFF :: u32) = mask 32" by (simp add: mask_eq_exp_minus_1)
  have "drop_bit 31 x * 0xFFFFFFFF = y \<longleftrightarrow> (\<forall>n :: nat. n < 32 \<longrightarrow> bit r (if n = 31 then 31 else 32 + n) = bit r 63)"
    unfolding s m by (auto simp: bit_eq_iff bit_simps bY)
  then show "drop_bit 31 x * 0xFFFFFFFF = y \<longleftrightarrow> - (2 ^ 31) \<le> sint r \<and> sint r < 2 ^ 31"
    by (simp only: high_bits_reindex fits_int32_bits)
  assume "- (2 ^ 31) \<le> sint r \<and> sint r < 2 ^ 31"
  then have *: "\<forall>n. 31 \<le> n \<and> n < 63 \<longrightarrow> bit r n = bit r 63" by (simp only: fits_int32_bits)
  have "bit (sint x) n = bit (sint r) n" for n
    unfolding bit_sint_min bx using * [rule_format, of n] by (cases "n < 31"; cases "n < 63") simp_all
  then show "sint x = sint r" by (intro bit_eqI) simp
qed

text \<open>
  C39 (bounds). \<^verbatim>\<open>_psp_subtract_ticks_int32\<close> returns the difference of two tick counts (less one if the hardware
  ticks borrow), read as a signed 64-bit number and clamped into the range of \<^verbatim>\<open>int32_t\<close>, and sets the flag
  exactly if the difference is outside.
\<close>

theorem psp_subtract_ticks_int32_clamps:
  "(let d = sint (TICKS (psp_subtract_ticks kd a b)); (r, over) = psp_subtract_ticks_int32 kd a b
    in sint r = max (- (2 ^ 31)) (min (2 ^ 31 - 1) d) \<and> (over \<longleftrightarrow> d < - (2 ^ 31) \<or> 2 ^ 31 - 1 < d))"
proof -
  define r where "r = TICKS (psp_subtract_ticks kd a b)"
  let ?d = "sint r"
  let ?x = "((ucast (drop_bit 32 r) :: u32) AND 0x80000000) OR ((ucast r :: u32) AND 0x7FFFFFFF)"
  let ?y = "((ucast r :: u32) AND 0x80000000) OR ((ucast (drop_bit 32 r) :: u32) AND 0x7FFFFFFF)"
  note x = sign_exchange_fits [of r]
  have r: "(if HW_TICKS a < HW_TICKS b then TICKS a - TICKS b - 1 else TICKS a - TICKS b) = r"
    by (simp add: r_def psp_subtract_ticks_def Let_def)
  have v: "psp_subtract_ticks_int32 kd a b =
      (if drop_bit 31 ?x * 0xFFFFFFFF \<noteq> ?y then (0x7FFFFFFF + drop_bit 31 ?x, True) else (?x, False))"
    unfolding psp_subtract_ticks_int32_def Let_def r by simp
  have big: "sint (0x7FFFFFFF + of_bool (bit r 63) :: u32) = (if bit r 63 then - (2 ^ 31) else 2 ^ 31 - 1)"
    by simp
  have neg: "bit r 63 \<longleftrightarrow> ?d < 0" by (simp add: bit_last_iff [symmetric])
  have "sint (fst (psp_subtract_ticks_int32 kd a b)) = max (- (2 ^ 31)) (min (2 ^ 31 - 1) ?d)
    \<and> (snd (psp_subtract_ticks_int32 kd a b) \<longleftrightarrow> ?d < - (2 ^ 31) \<or> 2 ^ 31 - 1 < ?d)"
  proof (cases "- (2 ^ 31) \<le> ?d \<and> ?d < 2 ^ 31")
    case True
    then show ?thesis unfolding v x(2) using x(3) [OF True] by simp
  next
    case False
    then show ?thesis unfolding v x(2) unfolding x(1) using big neg by auto
  qed
  then show ?thesis by (simp only: Let_def split_beta r_def)
qed

subsection \<open>Picoseconds and elapsed milliseconds\<close>

lemma psp_psecs_to_ticks_exact:
  fixes kd p
  defines "t \<equiv> psp_psecs_to_ticks kd p"
  defines "w \<equiv> unat p * unat (TICKS_PER_SECOND kd)"
  shows "unat (TICKS t) = w div 10 ^ 12 \<and> unat (HW_TICKS t) = (w mod 10 ^ 12) * unat (HW_TICKS_PER_TICK kd) div 10 ^ 12"
proof -
  define rest where "rest = ((ucast p :: u64) * ucast (TICKS_PER_SECOND kd)) mod (1000 * 1000 * 1000 * 1000)"
  define tmp0 :: "u32 list" where "tmp0 = [ucast rest, ucast (drop_bit 32 rest), 0, 0]"
  define tmp1 where "tmp1 = snd (psp_mul_128_by_32 tmp0 (HW_TICKS_PER_TICK kd))"
  define tmp2 where "tmp2 = snd (psp_div_128_by_32 tmp1 (1000 * 1000 * 1000) tmp1)"
  define tmp3 where "tmp3 = snd (psp_div_128_by_32 tmp2 1000 tmp2)"
  let ?h = "unat (HW_TICKS_PER_TICK kd)"
  have t: "t = \<lparr>TICKS = (ucast p * ucast (TICKS_PER_SECOND kd)) div (1000 * 1000 * 1000 * 1000), HW_TICKS = tmp3 ! 0\<rparr>"
    by (simp only: t_def psp_psecs_to_ticks_def Let_def tmp3_def tmp2_def tmp1_def tmp0_def rest_def)
  have w: "unat ((ucast p :: u64) * ucast (TICKS_PER_SECOND kd)) = w" by (simp add: w_def word_nat)
  have rest: "unat rest = w mod 10 ^ 12" by (simp add: rest_def unat_mod w)
  have "unat rest div 2 ^ 32 < 2 ^ 32"
    using mod_less_divisor [of "10 ^ 12" w] by (intro less_mult_imp_div_less) (simp add: rest)
  then have "unat rest mod 2 ^ 32 + 2 ^ 32 * (unat rest div 2 ^ 32 mod 2 ^ 32) = unat rest" by simp
  then have v0: "lwval tmp0 = unat rest" "length tmp0 = 4" by (simp_all add: tmp0_def word_nat)
  have b: "unat rest * ?h < 10 ^ 12 * 2 ^ 32"
    using unat_u32_bound [of "HW_TICKS_PER_TICK kd"] by (intro mult_strict_mono) (simp_all add: rest)
  have v1: "lwval tmp1 = unat rest * ?h" "length tmp1 = 4"
    unfolding tmp1_def using v0 b by (simp_all add: psp_mul_exact psp_mul_length)
  have v2: "lwval tmp2 = unat rest * ?h div 10 ^ 9" "length tmp2 = 4"
    unfolding tmp2_def using v1 by (simp_all add: psp_div_128_value psp_div_length)
  have v3: "lwval tmp3 = unat rest * ?h div 10 ^ 12" "length tmp3 = 4"
    unfolding tmp3_def using v2 by (simp_all add: psp_div_128_value psp_div_length div_mult2_eq [symmetric])
  have "unat (tmp3 ! 0) = lwval tmp3"
  proof -
    have "lwval tmp3 < 2 ^ 32" unfolding v3 using b by (intro less_mult_imp_div_less) (simp add: mult.commute)
    then show ?thesis using v3(2) by (auto simp: length_4_conv)
  qed
  then show ?thesis using v3 by (simp add: t unat_div w rest)
qed

lemma psp_psecs_to_ticks_normal:
  assumes "HW_TICKS_PER_TICK kd \<noteq> 0"
  shows "tick_normal kd (psp_psecs_to_ticks kd p)"
proof -
  let ?h = "unat (HW_TICKS_PER_TICK kd)" and ?w = "unat p * unat (TICKS_PER_SECOND kd)"
  have "(?w mod 10 ^ 12) * ?h < 10 ^ 12 * ?h"
    using assms by (intro mult_strict_right_mono) (simp_all add: unat_gt_0)
  then have "(?w mod 10 ^ 12) * ?h div 10 ^ 12 < ?h" by (intro less_mult_imp_div_less) (simp add: mult.commute)
  then show ?thesis using psp_psecs_to_ticks_exact [of kd p] by (simp add: tick_normal_def word_less_nat_alt)
qed

text \<open>The other conversions round the hardware ticks to nearest and can return a whole tick of them, which is not
  normal: 4999999 nanoseconds at 200 ticks of 600000 hardware ticks.\<close>

lemma psp_nsecs_to_ticks_not_normal:
  defines "kd \<equiv> \<lparr>TICKS_PER_SECOND = 200, HW_TICKS_PER_TICK = 600000\<rparr>"
  shows "psp_nsecs_to_ticks kd 4999999 = \<lparr>TICKS = 0, HW_TICKS = 600000\<rparr>"
    and "\<not> tick_normal kd (psp_nsecs_to_ticks kd 4999999)"
  by (simp_all add: kd_def psp_nsecs_to_ticks_def tick_normal_def Let_def)

text \<open>The shortcut and the general branch agree as long as the product fits into 64 bits.\<close>

lemma psp_get_elapsed_milliseconds_value:
  assumes "TICKS_PER_SECOND kd \<noteq> 0" "unat (TICKS t) * 1000 < 2 ^ 64"
  shows "unat (psp_get_elapsed_milliseconds kd t) = (unat (TICKS t) * 1000 div unat (TICKS_PER_SECOND kd)) mod 2 ^ 32"
proof -
  let ?p = "unat (TICKS_PER_SECOND kd)" and ?t = "unat (TICKS t)" and ?m = "1000 div TICKS_PER_SECOND kd"
  have p: "0 < ?p" using assms(1) by (simp add: unat_gt_0)
  have m: "unat ?m = 1000 div ?p" by (simp add: unat_div)
  have "unat ?m * ?p \<le> 1000" unfolding m by simp
  then have mp: "unat (?m * TICKS_PER_SECOND kd) = unat ?m * ?p" by (intro unat_mult_small) simp
  show ?thesis
  proof (cases "?m * TICKS_PER_SECOND kd = 1000")
    case True
    then have e: "unat ?m * ?p = 1000" using mp by simp
    have "?t * unat ?m \<le> ?t * 1000" using m by (intro mult_le_mono2) simp
    then have "?t * unat ?m < 2 ^ 64" using assms(2) by linarith
    then have "unat (TICKS t * ucast ?m) = ?t * unat ?m" by (subst unat_mult_small) (simp_all add: word_nat)
    moreover have "?t * 1000 div ?p = ?t * unat ?m" unfolding e [symmetric] using p by (simp add: mult.assoc [symmetric])
    ultimately show ?thesis using True by (simp add: psp_get_elapsed_milliseconds_def Let_def word_nat)
  next
    case False
    have "unat (TICKS t * 1000) = ?t * 1000" using assms(2) by (subst unat_mult_small) simp_all
    then show ?thesis using False by (simp add: psp_get_elapsed_milliseconds_def Let_def word_nat unat_div)
  qed
qed

end
