(* ===== verification/Calendar.thy ===== *)
theory Calendar
  imports Psp_Ticks
begin

text \<open>
  Calendar conversions of \<^verbatim>\<open>kernel/time.c\<close>: \<^verbatim>\<open>_time_from_date\<close>, \<^verbatim>\<open>_time_to_date\<close>, their helpers, the
  date parts of the standard C interface (\<^verbatim>\<open>mktime\<close>, \<^verbatim>\<open>gmtime_r\<close>, \<^verbatim>\<open>timegm\<close>, \<^verbatim>\<open>localtime_r\<close>) and
  \<^verbatim>\<open>_time_diff\<close>. The fields of \<^verbatim>\<open>DATE_STRUCT\<close> are 16-bit signed integers: they are integers here
  and every store is truncated by \<open>int16\<close>. Local 32-bit variables are integers reduced by \<open>uint32\<close>.
  A result of \<open>None\<close> stands for a read outside the month table; it is proved not to happen.
\<close>

subsection \<open>Data and integer conversions\<close>

definition int16 :: "int \<Rightarrow> int" where "int16 x = signed_take_bit 15 x"

definition uint32 :: "int \<Rightarrow> int" where "uint32 x = x mod 4294967296"

definition uint16 :: "int \<Rightarrow> int" where "uint16 x = x mod 65536"

text \<open>Division of C: the quotient is truncated towards zero.\<close>

definition cdiv :: "int \<Rightarrow> int \<Rightarrow> int" where
  "cdiv a b = (if a < 0 then - ((- a) div b) else a div b)"

record date_struct =
  YEAR :: int
  MONTH :: int
  DAY :: int
  HOUR :: int
  MINUTE :: int
  SECOND :: int
  MILLISEC :: int
  WDAY :: int
  YDAY :: int

definition MAXIMUM_SECONDS_IN_TIME :: int where "MAXIMUM_SECONDS_IN_TIME = 4102444799"

definition days_in_month_internal :: "int list list" where
  "days_in_month_internal =
     [[0, 31, 28, 31, 30, 31, 30, 31, 31, 30, 31, 30, 31],
      [0, 31, 29, 31, 30, 31, 30, 31, 31, 30, 31, 30, 31]]"

text \<open>A read of the table, \<open>None\<close> outside its bounds.\<close>

definition days_in_month :: "bool \<Rightarrow> int \<Rightarrow> int option" where
  "days_in_month leap m =
     (if 0 \<le> m \<and> m \<le> 12 then Some (days_in_month_internal ! (if leap then 1 else 0) ! nat m) else None)"

definition time_check_if_leap :: "int \<Rightarrow> bool" where
  "time_check_if_leap year =
     (let y = uint16 year
      in if y mod 100 = 0 then (if y mod 400 = 0 then True else False)
         else (if y mod 4 = 0 then True else False))"

subsection \<open>From date to time\<close>

text \<open>\<^verbatim>\<open>normalize\<close>: success, the reduced field and the field of the next higher order. On failure the
  reduced field is already stored and the higher one is unchanged.\<close>

definition normalize :: "int \<Rightarrow> int \<Rightarrow> int \<Rightarrow> bool \<times> int \<times> int" where
  "normalize norm_value boundary high_order =
     (let tmp0 = int16 (cdiv norm_value boundary);
          n0 = int16 (norm_value - tmp0 * boundary);
          n = (if n0 < 0 then int16 (n0 + boundary) else n0);
          tmp = (if n0 < 0 then int16 (tmp0 - 1) else tmp0)
      in if tmp < 0 \<and> high_order < 0 \<and> tmp < 0x1000 - high_order then (False, n, high_order)
         else if \<not> tmp < 0 \<and> high_order > 0 \<and> tmp > 0x7FFF - high_order then (False, n, high_order)
         else (True, n, int16 (high_order + tmp)))"

definition normalize_fields :: "date_struct \<Rightarrow> bool \<times> date_struct" where
  "normalize_fields d =
     (let (ok1, ms, s) = normalize (MILLISEC d) 1000 (SECOND d);
          d1 = d\<lparr>MILLISEC := ms, SECOND := s\<rparr>
      in if \<not> ok1 then (False, d1) else
      let (ok2, s', mi) = normalize (SECOND d1) 60 (MINUTE d1);
          d2 = d1\<lparr>SECOND := s', MINUTE := mi\<rparr>
      in if \<not> ok2 then (False, d2) else
      let (ok3, mi', ho) = normalize (MINUTE d2) 60 (HOUR d2);
          d3 = d2\<lparr>MINUTE := mi', HOUR := ho\<rparr>
      in if \<not> ok3 then (False, d3) else
      let (ok4, ho', dy) = normalize (HOUR d3) 24 (DAY d3);
          d4 = d3\<lparr>HOUR := ho', DAY := dy\<rparr>
      in if \<not> ok4 then (False, d4) else
      let d5 = d4\<lparr>MONTH := int16 (MONTH d4 - 1)\<rparr>;
          (ok5, mo, ye) = normalize (MONTH d5) 12 (YEAR d5);
          d6 = d5\<lparr>MONTH := mo, YEAR := ye\<rparr>
      in if \<not> ok5 then (False, d6)
      else (True, d6\<lparr>MONTH := int16 (MONTH d6 + 1)\<rparr>))"

text \<open>
  The loop that brings the day into its month. The test \<^verbatim>\<open>DAY < 1U\<close> is an unsigned comparison: a
  negative day is converted to a large unsigned number, so it holds for day zero only.
\<close>

definition carry_month :: "date_struct \<Rightarrow> date_struct" where
  "carry_month d =
     (if MONTH d = 13 then d\<lparr>MONTH := 1, YEAR := int16 (YEAR d + 1)\<rparr>
      else if MONTH d = 0 then d\<lparr>MONTH := 12, YEAR := int16 (YEAR d - 1)\<rparr>
      else d)"

lemma days_in_month_pos:
  "days_in_month leap m = Some n \<Longrightarrow> m \<noteq> 0 \<Longrightarrow> 28 \<le> n \<and> n \<le> 31"
proof -
  assume a: "days_in_month leap m = Some n" and "m \<noteq> 0"
  then have "0 < m" and "m \<le> 12" by (auto simp: days_in_month_def split: if_splits)
  then have "m = 1 \<or> m = 2 \<or> m = 3 \<or> m = 4 \<or> m = 5 \<or> m = 6 \<or> m = 7 \<or> m = 8 \<or> m = 9 \<or> m = 10
    \<or> m = 11 \<or> m = 12" by presburger
  with a show ?thesis by (elim disjE) (auto simp: days_in_month_def days_in_month_internal_def)
qed

lemma int16_bounds: "- 32768 \<le> int16 x" "int16 x \<le> 32767"
  using signed_take_bit_int_greater_eq_minus_exp [of 15 x] signed_take_bit_int_less_exp [of 15 x]
  by (simp_all add: int16_def)

lemma int16_id: "- 32768 \<le> x \<Longrightarrow> x \<le> 32767 \<Longrightarrow> int16 x = x"
  by (simp add: int16_def signed_take_bit_int_eq_self)

lemma int16_le: "0 \<le> x \<Longrightarrow> int16 x \<le> x"
  using int16_bounds(2) [of x] int16_id [of x] by (cases "x \<le> 32767") auto

function normalize_day :: "date_struct \<Rightarrow> date_struct option" where
  "normalize_day d =
     (if MONTH d = 0 then None
      else case days_in_month (time_check_if_leap (YEAR d)) (MONTH d) of
        None \<Rightarrow> None
      | Some n \<Rightarrow>
          if DAY d > n
          then normalize_day (carry_month (d\<lparr>DAY := int16 (DAY d - n), MONTH := int16 (MONTH d + 1)\<rparr>))
          else if DAY d = 0
          then normalize_day (carry_month (d\<lparr>DAY := int16 (DAY d + n), MONTH := int16 (MONTH d - 1)\<rparr>))
          else Some d)"
  by pat_completeness auto
termination
proof (relation "measure (\<lambda>d. if DAY d = 0 then 40 else nat (DAY d))", goal_cases)
  case 1
  show ?case by simp
next
  case (2 d n)
  then have n: "28 \<le> n" "n \<le> 31" by (auto dest: days_in_month_pos)
  have "int16 (DAY d - n) \<le> DAY d - n" using 2 by (intro int16_le) simp
  moreover have "int16 (DAY d - n) \<noteq> 0 \<or> 40 < DAY d"
    using 2 n by (cases "DAY d \<le> 40") (auto simp: int16_id)
  ultimately show ?case using 2 n by (auto simp: carry_month_def)
next
  case (3 d n)
  then have n: "28 \<le> n" "n \<le> 31" by (auto dest: days_in_month_pos)
  with 3 show ?case by (auto simp: carry_month_def int16_id)
qed

declare normalize_day.simps [simp del]

fun sum_months :: "bool \<Rightarrow> nat \<Rightarrow> int" where
  "sum_months leap 0 = 0"
| "sum_months leap (Suc m) =
     (if m = 0 then 0 else sum_months leap m + days_in_month_internal ! (if leap then 1 else 0) ! m)"

text \<open>\<^verbatim>\<open>sum_months leap month\<close> is the loop \<^verbatim>\<open>while (--month > 0) yday += table[leap][month]\<close>; the rest of
  the function after normalisation follows, with its stores in order.\<close>

definition seconds_of_date ::
  "date_struct \<Rightarrow> time_struct \<Rightarrow> bool \<times> date_struct \<times> time_struct" where
  "seconds_of_date d ts =
     (if YEAR d < 1970 then (False, d, ts)
      else
        let leap = time_check_if_leap (YEAR d);
            day0 = uint32 ((YEAR d - 1970) * 365);
            day1 = uint32 (day0 + (YEAR d div 4 - YEAR d div 100 + YEAR d div 400
                                    - (1970 div 4 - 1970 div 100 + 1970 div 400)));
            day2 = (if leap then uint32 (day1 - 1) else day1);
            yday = uint32 (sum_months leap (nat (MONTH d)) + (uint32 (DAY d) - 1));
            day = uint32 (day2 + yday);
            time = uint32 (uint32 (uint32 (HOUR d) * 3600) + uint32 (MINUTE d) * 60 + uint32 (SECOND d))
        in if uint32 (MAXIMUM_SECONDS_IN_TIME - time) div 86400 < day then (False, d, ts)
           else (True, d\<lparr>WDAY := int16 (uint32 (day + 4) mod 7), YDAY := int16 yday\<rparr>,
                 \<lparr>SECONDS = word_of_int (time + uint32 (day * 86400)),
                  MILLISECONDS = word_of_int (MILLISEC d)\<rparr>))"

definition time_from_date ::
  "date_struct option \<Rightarrow> time_struct option \<Rightarrow>
   (bool \<times> date_struct option \<times> time_struct option) option" where
  "time_from_date date_ptr ts_ptr =
     (case (date_ptr, ts_ptr) of
        (Some d, Some ts) \<Rightarrow>
          (let (ok, d1) = normalize_fields d
           in if \<not> ok then Some (False, Some d1, Some ts)
              else case normalize_day d1 of
                None \<Rightarrow> None
              | Some d2 \<Rightarrow>
                  (let (ok', d3, ts') = seconds_of_date d2 ts in Some (ok', Some d3, Some ts')))
      | _ \<Rightarrow> Some (False, date_ptr, ts_ptr))"

subsection \<open>From time to date\<close>

text \<open>The month loop: \<^verbatim>\<open>while (day >= table[leap][MONTH])\<close>.\<close>

function find_month :: "bool \<Rightarrow> int \<Rightarrow> int \<Rightarrow> (int \<times> int) option" where
  "find_month leap month day =
     (if month < 1 then None
      else case days_in_month leap month of
        None \<Rightarrow> None
      | Some n \<Rightarrow> if day \<ge> n then find_month leap (month + 1) (day - n) else Some (month, day))"
  by pat_completeness auto
termination
  by (relation "measure (\<lambda>(leap, month, day). nat (14 - month))")
    (auto simp: days_in_month_def split: if_splits)

declare find_month.simps [simp del]

definition date_of_seconds :: "time_struct \<Rightarrow> date_struct \<Rightarrow> date_struct option" where
  "date_of_seconds ts d =
     (let time0 = uint (SECONDS ts);
          day0 = time0 div 86400;
          time1 = uint32 (time0 - day0 * 86400);
          hour = int16 (uint16 (time1 div 3600));
          time2 = uint32 (time1 - uint32 hour * 3600);
          minute = int16 (uint16 (time2 div 60));
          time3 = uint32 (time2 - uint32 minute * 60);
          second = int16 (uint16 time3);
          millisec = int16 (uint16 (uint (MILLISECONDS ts)));
          wday = int16 (uint16 (uint32 (day0 + 4) mod 7));
          day1 = uint32 (day0 + 365);
          year = uint32 (4 * (day1 div 1461));
          day2 = uint32 (day1 - uint32 (year * 1461) div 4);
          tmp0 = day2 div 365;
          tmp = (if tmp0 = 4 then 3 else tmp0);
          day3 = uint32 (day2 - tmp * 365);
          y = int16 (uint32 (year + tmp + 1970 - 1))
      in case find_month (time_check_if_leap y) 1 day3 of
           None \<Rightarrow> None
         | Some (month, day) \<Rightarrow>
             Some (d\<lparr>YEAR := y, MONTH := int16 month, DAY := int16 (int16 day + 1), HOUR := hour,
                     MINUTE := minute, SECOND := second, MILLISEC := millisec, WDAY := wday,
                     YDAY := int16 day3\<rparr>))"

definition time_to_date ::
  "time_struct option \<Rightarrow> date_struct option \<Rightarrow>
   (bool \<times> time_struct option \<times> date_struct option) option" where
  "time_to_date ts_ptr date_ptr =
     (case (ts_ptr, date_ptr) of
        (Some ts, Some d) \<Rightarrow>
          (if MAXIMUM_SECONDS_IN_TIME - uint (MILLISECONDS ts) div 1000 < uint (SECONDS ts)
           then Some (False, ts_ptr, date_ptr)
           else let ts' = \<lparr>SECONDS = SECONDS ts + MILLISECONDS ts div 1000,
                           MILLISECONDS = MILLISECONDS ts mod 1000\<rparr>
                in case date_of_seconds ts' d of
                     None \<Rightarrow> None
                   | Some d' \<Rightarrow> Some (True, Some ts', Some d'))
      | _ \<Rightarrow> Some (False, ts_ptr, date_ptr))"

subsection \<open>Difference of two times and the standard C interface\<close>

definition time_diff :: "time_struct \<Rightarrow> time_struct \<Rightarrow> time_struct" where
  "time_diff start_time end_time =
     (let temp = end_time;
          temp1 = (if MILLISECONDS temp < MILLISECONDS start_time
                   then temp\<lparr>MILLISECONDS := MILLISECONDS temp + 1000, SECONDS := SECONDS temp - 1\<rparr>
                   else temp);
          temp2 = temp1\<lparr>SECONDS := SECONDS temp1 - SECONDS start_time,
                        MILLISECONDS := MILLISECONDS temp1 - MILLISECONDS start_time\<rparr>
      in if MILLISECONDS temp2 > 1000
         then temp2\<lparr>SECONDS := SECONDS temp2 + MILLISECONDS temp2 div 1000,
                    MILLISECONDS := MILLISECONDS temp2 mod 1000\<rparr>
         else temp2)"

record tm =
  tm_sec :: int
  tm_min :: int
  tm_hour :: int
  tm_mday :: int
  tm_mon :: int
  tm_year :: int
  tm_wday :: int
  tm_yday :: int
  tm_isdst :: int

definition timezone :: int where "timezone = 0"

text \<open>Automatic variables of the C functions hold no known value before they are filled; every field
  is written before it is read, so any initial value gives the same result.\<close>

definition uninit_time :: time_struct where "uninit_time = \<lparr>SECONDS = 0, MILLISECONDS = 0\<rparr>"

definition uninit_date :: date_struct where
  "uninit_date = \<lparr>YEAR = 0, MONTH = 0, DAY = 0, HOUR = 0, MINUTE = 0, SECOND = 0, MILLISEC = 0, WDAY = 0, YDAY = 0\<rparr>"

definition date_of_tm :: "tm \<Rightarrow> date_struct" where
  "date_of_tm t = uninit_date\<lparr>MILLISEC := 0, SECOND := int16 (tm_sec t), MINUTE := int16 (tm_min t),
     HOUR := int16 (tm_hour t), DAY := int16 (tm_mday t + 1), MONTH := int16 (tm_mon t + 1),
     YEAR := int16 (tm_year t + 1900)\<rparr>"

text \<open>\<^verbatim>\<open>mktime\<close>: the time and the structure, with its weekday and day of the year filled in on success.\<close>

definition mktime :: "tm option \<Rightarrow> (u32 \<times> tm option) option" where
  "mktime tm_ptr =
     (case tm_ptr of
        None \<Rightarrow> Some (0, None)
      | Some t \<Rightarrow>
          (case time_from_date (Some (date_of_tm t)) (Some uninit_time) of
             None \<Rightarrow> None
           | Some (True, Some date, Some ts) \<Rightarrow>
               (if uint32 (MAXIMUM_SECONDS_IN_TIME - timezone) < uint (SECONDS ts) then Some (0, Some t)
                else Some (SECONDS ts + word_of_int timezone,
                           Some (t\<lparr>tm_wday := WDAY date, tm_yday := YDAY date\<rparr>)))
           | _ \<Rightarrow> Some (0, Some t)))"

definition gmtime_r :: "u32 option \<Rightarrow> tm option \<Rightarrow> tm option option" where
  "gmtime_r timep result =
     (case (timep, result) of
        (Some time, Some t) \<Rightarrow>
          (case time_to_date (Some \<lparr>SECONDS = time, MILLISECONDS = 0\<rparr>) (Some uninit_date) of
             None \<Rightarrow> None
           | Some (True, _, Some date) \<Rightarrow>
               Some (Some (t\<lparr>tm_sec := SECOND date, tm_min := MINUTE date, tm_hour := HOUR date,
                             tm_mday := DAY date - 1, tm_mon := MONTH date - 1, tm_year := YEAR date - 1900,
                             tm_wday := WDAY date, tm_yday := YDAY date\<rparr>))
           | _ \<Rightarrow> Some None)
      | _ \<Rightarrow> Some None)"

definition timegm :: "tm option \<Rightarrow> u32 option" where
  "timegm tm_ptr =
     (case tm_ptr of
        None \<Rightarrow> Some 0
      | Some t \<Rightarrow>
          (case time_from_date (Some (date_of_tm t)) (Some uninit_time) of
             None \<Rightarrow> None
           | Some (True, _, Some ts) \<Rightarrow> Some (SECONDS ts)
           | _ \<Rightarrow> Some 0))"

definition localtime_r :: "u32 option \<Rightarrow> tm option \<Rightarrow> tm option option" where
  "localtime_r timep result =
     (case timep of
        None \<Rightarrow> Some None
      | Some time \<Rightarrow>
          if timezone > 0 \<and> uint time < uint32 timezone \<or>
             timezone < 0 \<and> uint time > uint32 (MAXIMUM_SECONDS_IN_TIME + timezone)
          then Some None
          else gmtime_r (Some (time - word_of_int timezone)) result)"

subsection \<open>The calendar as a specification\<close>

text \<open>The Gregorian calendar, counted year by year from 1970: the number of days before a year, the
  dates that exist, and the second at which a date begins.\<close>

definition is_leap :: "int \<Rightarrow> bool" where
  "is_leap y \<longleftrightarrow> y mod 4 = 0 \<and> (y mod 100 \<noteq> 0 \<or> y mod 400 = 0)"

primrec days_before_year :: "nat \<Rightarrow> int" where
  "days_before_year 0 = 0"
| "days_before_year (Suc k) = days_before_year k + (if is_leap (1970 + int k) then 366 else 365)"

definition month_length :: "bool \<Rightarrow> nat \<Rightarrow> int" where
  "month_length leap m = (if m = 2 then (if leap then 29 else 28) else if m \<in> {4, 6, 9, 11} then 30 else 31)"

definition valid_date :: "date_struct \<Rightarrow> bool" where
  "valid_date d \<longleftrightarrow> 1970 \<le> YEAR d \<and> YEAR d \<le> 2099 \<and> 1 \<le> MONTH d \<and> MONTH d \<le> 12 \<and>
     1 \<le> DAY d \<and> DAY d \<le> month_length (is_leap (YEAR d)) (nat (MONTH d)) \<and>
     0 \<le> HOUR d \<and> HOUR d < 24 \<and> 0 \<le> MINUTE d \<and> MINUTE d < 60 \<and> 0 \<le> SECOND d \<and> SECOND d < 60 \<and>
     0 \<le> MILLISEC d \<and> MILLISEC d < 1000"

definition day_of_year :: "date_struct \<Rightarrow> int" where
  "day_of_year d = (\<Sum>m = 1..<nat (MONTH d). month_length (is_leap (YEAR d)) m) + DAY d - 1"

definition day_number :: "date_struct \<Rightarrow> int" where
  "day_number d = days_before_year (nat (YEAR d - 1970)) + day_of_year d"

definition date_seconds :: "date_struct \<Rightarrow> int" where
  "date_seconds d = 86400 * day_number d + 3600 * HOUR d + 60 * MINUTE d + SECOND d"

subsection \<open>Facts on years and months\<close>

lemma time_check_if_leap_eq: "0 \<le> y \<Longrightarrow> y < 65536 \<Longrightarrow> time_check_if_leap y = is_leap y"
  by (simp add: time_check_if_leap_def uint16_def is_leap_def) presburger

lemma div_pred_step:
  fixes y b :: int
  assumes "0 < b"
  shows "y div b = (y - 1) div b + (if y mod b = 0 then 1 else 0)"
proof (cases "y mod b = 0")
  case True
  then obtain k where y: "y = b * k" by auto
  have e: "b * k - 1 = (b - 1) + b * (k - 1)" by (simp add: algebra_simps)
  have "(b * k - 1) div b = (k - 1) + (b - 1) div b" unfolding e using assms by (intro div_mult_self2) simp
  moreover have "(b - 1) div b = 0" using assms by (intro div_pos_pos_trivial) simp_all
  ultimately show ?thesis using assms True y by simp
next
  case False
  have "0 \<le> y mod b - 1" "y mod b - 1 < b"
    using False pos_mod_sign [OF assms, of y] pos_mod_bound [OF assms, of y] by linarith+
  then have z: "(y mod b - 1) div b = 0" by (rule div_pos_pos_trivial)
  have e: "y - 1 = (y mod b - 1) + b * (y div b)" by simp
  have "(y - 1) div b = y div b + (y mod b - 1) div b" by (subst e, rule div_mult_self2) (use assms in simp)
  then show ?thesis using False z by simp
qed
lemma leap_count_aux:
  fixes a b c a' b' c' :: int
  assumes "a = a' + (if p then 1 else 0)" "b = b' + (if q then 1 else 0)" "c = c' + (if r then 1 else 0)"
    and "q \<Longrightarrow> p" "r \<Longrightarrow> q"
  shows "(a - b + c) - (if p \<and> (\<not> q \<or> r) then 1 else 0) = a' - b' + c'"
  using assms by auto

lemma mod_zero_trans: "(a :: int) dvd b \<Longrightarrow> y mod b = 0 \<Longrightarrow> y mod a = 0"
  by (metis dvd_eq_mod_eq_0 dvd_trans)

lemma leap_count_step:
  fixes y :: int
  shows "(y div 4 - y div 100 + y div 400) - (if is_leap y then 1 else 0)
       = (y - 1) div 4 - (y - 1) div 100 + (y - 1) div 400"
  unfolding is_leap_def
proof (rule leap_count_aux)
  show "y mod 100 = 0 \<Longrightarrow> y mod 4 = 0" by (rule mod_zero_trans [of 4 100]) simp_all
  show "y mod 400 = 0 \<Longrightarrow> y mod 100 = 0" by (rule mod_zero_trans [of 100 400]) simp_all
qed (rule div_pred_step, simp)+

lemma days_before_year_formula:
  "days_before_year k =
     365 * int k + ((1969 + int k) div 4 - (1969 + int k) div 100 + (1969 + int k) div 400) - 477"
proof (induction k)
  case 0
  show ?case by simp
next
  case (Suc k)
  have "1970 + int k - 1 = 1969 + int k" by simp
  moreover have "1969 + int (Suc k) = 1970 + int k" by simp
  ultimately show ?case
    using leap_count_step [of "1970 + int k"] Suc by (cases "is_leap (1970 + int k)") simp_all
qed

lemma is_leap_2099:
  assumes "1970 \<le> y" and "y \<le> 2099"
  shows "is_leap y \<longleftrightarrow> y mod 4 = 0"
proof -
  have "y mod 400 = 0" if "y mod 100 = 0"
  proof -
    from that obtain q where "y = 100 * q" by auto
    with assms have "q = 20" by linarith
    with \<open>y = 100 * q\<close> show ?thesis by simp
  qed
  then show ?thesis by (auto simp: is_leap_def)
qed

lemma days_before_year_small: "k \<le> 130 \<Longrightarrow> days_before_year k = 365 * int k + (int k + 1) div 4"
proof (induction k)
  case 0
  show ?case by simp
next
  case (Suc k)
  have "is_leap (1970 + int k) \<longleftrightarrow> (1970 + int k) mod 4 = 0"
    using Suc.prems by (intro is_leap_2099) simp_all
  moreover have "(int (Suc k) + 1) div 4 = (int k + 1) div 4 + (if (1970 + int k) mod 4 = 0 then 1 else 0)"
    by presburger
  ultimately show ?case using Suc by simp
qed

lemma days_before_year_mono: "j \<le> k \<Longrightarrow> days_before_year j \<le> days_before_year k"
  by (induction k rule: dec_induct) auto

text \<open>The table of the code holds the lengths of the months.\<close>

lemma month_length_table:
  assumes "1 \<le> m" "m \<le> 12"
  shows "days_in_month_internal ! (if leap then 1 else 0) ! m = month_length leap m"
proof -
  have "m = 1 \<or> m = 2 \<or> m = 3 \<or> m = 4 \<or> m = 5 \<or> m = 6 \<or> m = 7 \<or> m = 8 \<or> m = 9 \<or> m = 10 \<or> m = 11 \<or> m = 12"
    using assms by presburger
  then show ?thesis by (elim disjE) (simp_all add: month_length_def days_in_month_internal_def)
qed

lemma sum_months_eq: "m \<le> 13 \<Longrightarrow> sum_months leap m = (\<Sum>i = 1..<m. month_length leap i)"
  by (induction m) (auto simp: month_length_table)

lemma month_length_bounds: "28 \<le> month_length leap m \<and> month_length leap m \<le> 31"
  by (simp add: month_length_def)

lemma month_length_nonneg: "1 \<le> m \<Longrightarrow> m \<le> 12 \<Longrightarrow> 0 \<le> month_length leap m"
  using month_length_bounds [of leap m] by simp

lemma days_in_month_Some: "1 \<le> m \<Longrightarrow> m \<le> 12 \<Longrightarrow> days_in_month leap m = Some (month_length leap (nat m))"
  using month_length_table [of "nat m" leap] by (simp add: days_in_month_def)

lemma year_length: "(\<Sum>i = 1..<13. month_length leap i) = (if leap then 366 else 365)"
  by (simp add: month_length_def numeral_eq_Suc)

lemma find_month_steps:
  "1 \<le> m \<Longrightarrow> m \<le> n \<Longrightarrow> n \<le> 12 \<Longrightarrow> 0 \<le> e \<Longrightarrow>
   find_month leap (int m) ((\<Sum>i = m..<n. month_length leap i) + e) = find_month leap (int n) e"
proof (induction "n - m" arbitrary: m)
  case 0
  then show ?case by simp
next
  case (Suc k)
  then have "m < n" by simp
  have IH: "find_month leap (1 + int m) ((\<Sum>i = Suc m..<n. month_length leap i) + e)
      = find_month leap (int n) e" using Suc.hyps(1) [of "Suc m"] Suc.hyps(2) Suc.prems by simp
  have s: "(\<Sum>i = m..<n. month_length leap i) = month_length leap m + (\<Sum>i = Suc m..<n. month_length leap i)"
    using \<open>m < n\<close> by (rule sum.atLeast_Suc_lessThan)
  have "0 \<le> (\<Sum>i = Suc m..<n. month_length leap i)"
    using Suc.prems by (intro sum_nonneg month_length_nonneg) simp_all
  then show ?case
    using Suc.prems IH unfolding s
    by (subst find_month.simps) (simp add: days_in_month_Some add.commute)
qed

lemma find_month_exact:
  assumes "1 \<le> n" and "n \<le> 12" and "0 \<le> e" and "e < month_length leap n"
  shows "find_month leap 1 ((\<Sum>i = 1..<n. month_length leap i) + e) = Some (int n, e)"
proof -
  have "find_month leap (int n) e = Some (int n, e)"
    using assms by (subst find_month.simps) (simp add: days_in_month_Some)
  then show ?thesis using find_month_steps [of 1 n e leap] assms by simp
qed

lemma month_exists:
  "0 \<le> yd \<Longrightarrow> yd < (\<Sum>i = 1..<Suc n. month_length leap i) \<Longrightarrow>
   \<exists>m \<ge> 1. m \<le> n \<and> (\<Sum>i = 1..<m. month_length leap i) \<le> yd \<and>
     yd < (\<Sum>i = 1..<m. month_length leap i) + month_length leap m"
proof (induction n)
  case 0
  then show ?case by simp
next
  case (Suc n)
  show ?case
  proof (cases "yd < (\<Sum>i = 1..<Suc n. month_length leap i)")
    case True
    with Suc.IH Suc.prems(1) show ?thesis by (metis le_SucI)
  next
    case False
    then show ?thesis using Suc.prems by (intro exI [of _ "Suc n"]) simp
  qed
qed

subsection \<open>Normalisation of valid dates\<close>

lemma normalize_id:
  "0 \<le> v \<Longrightarrow> v < b \<Longrightarrow> b \<le> 32767 \<Longrightarrow> 0 \<le> hi \<Longrightarrow> hi \<le> 32767 \<Longrightarrow> normalize v b hi = (True, v, hi)"
  by (simp add: normalize_def cdiv_def int16_id Let_def)

lemma valid_date_month:
  assumes "valid_date d"
  shows "1 \<le> nat (MONTH d)" "nat (MONTH d) \<le> 12" "DAY d \<le> 31"
proof -
  show m: "1 \<le> nat (MONTH d)" "nat (MONTH d) \<le> 12" using assms by (auto simp: valid_date_def le_nat_iff)
  show "DAY d \<le> 31"
    using assms month_length_bounds [of "is_leap (YEAR d)" "nat (MONTH d)"] unfolding valid_date_def by linarith
qed

lemma normalize_fields_id: "valid_date d \<Longrightarrow> normalize_fields d = (True, d)"
  using valid_date_month(3) [of d]
  by (simp add: valid_date_def normalize_fields_def normalize_id int16_id Let_def)

lemma valid_date_leap: "valid_date d \<Longrightarrow> time_check_if_leap (YEAR d) = is_leap (YEAR d)"
  by (intro time_check_if_leap_eq) (simp_all add: valid_date_def)

lemma normalize_day_id: "valid_date d \<Longrightarrow> normalize_day d = Some d"
  using valid_date_leap [of d]
  by (subst normalize_day.simps) (simp add: valid_date_def days_in_month_Some)

subsection \<open>Exactness of the conversions\<close>

lemma day_of_year_bounds:
  assumes "valid_date d"
  shows "0 \<le> day_of_year d" "day_of_year d < (if is_leap (YEAR d) then 366 else 365)"
proof -
  let ?l = "is_leap (YEAR d)" and ?m = "nat (MONTH d)"
  note m = valid_date_month [OF assms]
  have "0 \<le> (\<Sum>i = 1..<?m. month_length ?l i)" using m by (intro sum_nonneg month_length_nonneg) simp_all
  then show "0 \<le> day_of_year d" using assms by (simp add: day_of_year_def valid_date_def)
  have "day_of_year d < (\<Sum>i = 1..<Suc ?m. month_length ?l i)"
    using assms m by (simp add: day_of_year_def valid_date_def)
  also have "\<dots> \<le> (\<Sum>i = 1..<13. month_length ?l i)"
    using m by (intro sum_mono2) (auto intro: month_length_nonneg)
  finally show "day_of_year d < (if ?l then 366 else 365)" unfolding year_length .
qed

lemma day_number_year:
  assumes "valid_date d"
  shows "days_before_year (nat (YEAR d - 1970)) \<le> day_number d"
    "day_number d < days_before_year (Suc (nat (YEAR d - 1970)))"
  using day_of_year_bounds [OF assms] assms by (simp_all add: day_number_def valid_date_def)

lemma day_number_bounds:
  assumes "valid_date d"
  shows "0 \<le> day_number d" "day_number d \<le> 47481"
proof -
  have "days_before_year 0 \<le> days_before_year (nat (YEAR d - 1970))" by (rule days_before_year_mono) simp
  then show "0 \<le> day_number d" using day_number_year(1) [OF assms] by simp
  have "days_before_year (Suc (nat (YEAR d - 1970))) \<le> days_before_year 130"
    using assms by (intro days_before_year_mono) (auto simp: valid_date_def)
  then show "day_number d \<le> 47481"
    using day_number_year(2) [OF assms] by (simp add: days_before_year_small)
qed

lemma uint32_id: "0 \<le> x \<Longrightarrow> x < 4294967296 \<Longrightarrow> uint32 x = x"
  by (simp add: uint32_def)

lemma uint32_absorb:
  "uint32 (uint32 a + b) = uint32 (a + b)" "uint32 (a + uint32 b) = uint32 (a + b)"
  "uint32 (uint32 a - b) = uint32 (a - b)"
  by (simp_all add: uint32_def mod_simps)

lemma year_days:
  assumes "1970 \<le> y"
  shows "(y - 1970) * 365 + (y div 4 - y div 100 + y div 400 - (1970 div 4 - 1970 div 100 + 1970 div 400))
      - (if is_leap y then 1 else 0) = days_before_year (nat (y - 1970))"
proof -
  have e: "int (nat (y - 1970)) = y - 1970" "1969 + (y - 1970) = y - 1" using assms by simp_all
  have c: "(1970 div 4 - 1970 div 100 + 1970 div 400 :: int) = 477" by simp
  have "x * 365 + (a - 477) - l = 365 * x + b - 477" if "a - l = b" for a b l x :: int using that by simp
  from this [OF leap_count_step [of y]] show ?thesis
    unfolding days_before_year_formula e c .
qed

lemma year_days_code:
  assumes "1970 \<le> y" "y \<le> 2099" "time_check_if_leap y = is_leap y"
  shows "(if time_check_if_leap y
      then uint32 (uint32 (uint32 ((y - 1970) * 365) +
        (y div 4 - y div 100 + y div 400 - (1970 div 4 - 1970 div 100 + 1970 div 400))) - 1)
      else uint32 (uint32 ((y - 1970) * 365) +
        (y div 4 - y div 100 + y div 400 - (1970 div 4 - 1970 div 100 + 1970 div 400))))
    = days_before_year (nat (y - 1970))"
proof -
  have "0 \<le> days_before_year (nat (y - 1970))" using days_before_year_mono [of 0] by simp
  moreover have "days_before_year (nat (y - 1970)) \<le> days_before_year 130"
    using assms by (intro days_before_year_mono) simp
  ultimately have "uint32 (days_before_year (nat (y - 1970))) = days_before_year (nat (y - 1970))"
    by (intro uint32_id) (simp_all add: days_before_year_small)
  with year_days [OF assms(1)] assms(3) show ?thesis
    by (cases "is_leap y") (simp_all only: uint32_absorb if_True if_False diff_0_right)
qed

lemma date_seconds_max: "valid_date d \<Longrightarrow> 0 \<le> date_seconds d \<and> date_seconds d \<le> MAXIMUM_SECONDS_IN_TIME"
  using day_number_bounds [of d]
  by (simp add: date_seconds_def valid_date_def MAXIMUM_SECONDS_IN_TIME_def)

lemma max_seconds_check:
  assumes "0 \<le> t" "t < 86400" "0 \<le> day" "day \<le> 47481"
  shows "\<not> uint32 (MAXIMUM_SECONDS_IN_TIME - t) div 86400 < day"
proof -
  have "uint32 (MAXIMUM_SECONDS_IN_TIME - t) = MAXIMUM_SECONDS_IN_TIME - t"
    using assms by (intro uint32_id) (simp_all add: MAXIMUM_SECONDS_IN_TIME_def)
  moreover have "47481 * 86400 \<le> MAXIMUM_SECONDS_IN_TIME - t"
    using assms by (simp add: MAXIMUM_SECONDS_IN_TIME_def)
  then have "47481 \<le> (MAXIMUM_SECONDS_IN_TIME - t) div 86400" 
    using zdiv_mono1 [of "47481 * 86400" "MAXIMUM_SECONDS_IN_TIME - t" 86400] by simp
  ultimately show ?thesis using assms by simp
qed

definition stamp :: "date_struct \<Rightarrow> date_struct" where
  "stamp d = d\<lparr>WDAY := (day_number d + 4) mod 7, YDAY := day_of_year d\<rparr>"

lemma seconds_of_date_valid:
  assumes v: "valid_date d"
  shows "seconds_of_date d ts =
    (True, stamp d, \<lparr>SECONDS = word_of_int (date_seconds d), MILLISECONDS = word_of_int (MILLISEC d)\<rparr>)"
proof -
  have y: "1970 \<le> YEAR d" "YEAR d \<le> 2099" using v by (simp_all add: valid_date_def)
  note l = valid_date_leap [OF v] and dn = day_number_bounds [OF v] and dy = day_of_year_bounds [OF v]
  let ?time = "uint32 (uint32 (uint32 (HOUR d) * 3600) + uint32 (MINUTE d) * 60 + uint32 (SECOND d))"
  have time: "?time = 3600 * HOUR d + 60 * MINUTE d + SECOND d"
    using v by (simp add: valid_date_def uint32_id)
  have tb: "0 \<le> 3600 * HOUR d + 60 * MINUTE d + SECOND d"
    "3600 * HOUR d + 60 * MINUTE d + SECOND d < 86400" using v by (simp_all add: valid_date_def)
  have yd: "uint32 (sum_months (time_check_if_leap (YEAR d)) (nat (MONTH d)) + (uint32 (DAY d) - 1)) = day_of_year d"
    using v dy valid_date_month(3) [OF v]
    by (simp add: sum_months_eq l uint32_id valid_date_def day_of_year_def split: if_splits)
  have day: "uint32 (days_before_year (nat (YEAR d - 1970)) + day_of_year d) = day_number d"
    using dn by (simp add: uint32_id flip: day_number_def)
  have w: "int16 (uint32 (day_number d + 4) mod 7) = (day_number d + 4) mod 7"
  proof -
    have "0 \<le> (day_number d + 4) mod 7" "(day_number d + 4) mod 7 < 7" by simp_all
    moreover have "uint32 (day_number d + 4) = day_number d + 4" using dn by (simp add: uint32_id)
    ultimately show ?thesis by (simp add: int16_id)
  qed
  have yd16: "int16 (day_of_year d) = day_of_year d" using dy by (intro int16_id) (auto split: if_splits)
  have d64: "uint32 (day_number d * 86400) = day_number d * 86400" using dn by (simp add: uint32_id)
  have "\<not> YEAR d < 1970" using y by simp
  then show ?thesis
    unfolding seconds_of_date_def Let_def year_days_code [OF y l] time yd day w yd16 d64
    using max_seconds_check [OF tb dn] by (simp add: stamp_def date_seconds_def algebra_simps)
qed

text \<open>
  C35 (functional). \<^verbatim>\<open>_time_from_date\<close> converts every date from 1 January 1970 to 31 December 2099
  exactly: the seconds are those the calendar counts (they fit the 32-bit field), the fields of
  the date are left as they are and its day of the week and of the year are filled in.
\<close>

theorem time_from_date_exact:
  assumes "valid_date d"
  shows "time_from_date (Some d) (Some ts) =
      Some (True, Some (stamp d), Some \<lparr>SECONDS = word_of_int (date_seconds d), MILLISECONDS = word_of_int (MILLISEC d)\<rparr>)
    \<and> 0 \<le> date_seconds d \<and> date_seconds d \<le> MAXIMUM_SECONDS_IN_TIME"
  using normalize_fields_id [OF assms] normalize_day_id [OF assms] seconds_of_date_valid [OF assms]
    date_seconds_max [OF assms]
  by (simp add: time_from_date_def)

theorem time_from_date_exact_witness:
  "time_from_date (Some \<lparr>YEAR = 2000, MONTH = 2, DAY = 29, HOUR = 23, MINUTE = 59, SECOND = 59,
       MILLISEC = 999, WDAY = 0, YDAY = 0\<rparr>) (Some \<lparr>SECONDS = 0, MILLISECONDS = 0\<rparr>) =
   Some (True, Some \<lparr>YEAR = 2000, MONTH = 2, DAY = 29, HOUR = 23, MINUTE = 59, SECOND = 59,
       MILLISEC = 999, WDAY = 2, YDAY = 59\<rparr>, Some \<lparr>SECONDS = 951868799, MILLISECONDS = 999\<rparr>)"
  (is "time_from_date (Some ?d) _ = _")
proof -
  have v: "valid_date ?d" by (simp add: valid_date_def month_length_def is_leap_def)
  have y: "day_of_year ?d = 59"
    by (simp add: day_of_year_def month_length_def numeral_eq_Suc)
  have "day_number ?d = 11016" using y by (simp add: day_number_def days_before_year_small)
  with time_from_date_exact [OF v, of "\<lparr>SECONDS = 0, MILLISECONDS = 0\<rparr>"] y show ?thesis
    by (simp add: stamp_def date_seconds_def)
qed

lemma year_of_day:
  fixes n q r tmp k :: int
  assumes n: "0 \<le> n" "n \<le> 47481"
    and q: "q = (n + 365) div 1461" and r: "r = (n + 365) - 1461 * q"
    and tmp: "tmp = (if r div 365 = 4 then 3 else r div 365)" and k: "k = 4 * q + tmp - 1"
  shows "0 \<le> k" "k \<le> 129" "0 \<le> r - tmp * 365"
    "days_before_year (nat k) + (r - tmp * 365) = n"
    "r - tmp * 365 < (if is_leap (1970 + k) then 366 else 365)"
proof -
  have rb: "0 \<le> r" "r < 1461" unfolding r q by (simp_all add: minus_mult_div_eq_mod)
  have qb: "0 \<le> q" "q \<le> 32" unfolding q using n by auto
  obtain c where c: "r div 365 = c" by simp
  have cb: "365 * c \<le> r" "r < 365 * c + 365" unfolding c [symmetric] by auto
  from rb cb have tb: "0 \<le> tmp" "tmp \<le> 3" "365 * tmp \<le> r" "r < 365 * tmp + (if tmp = 3 then 366 else 365)"
    unfolding tmp c by auto
  have "q = 0 \<Longrightarrow> 1 \<le> tmp" using n r tb by (auto split: if_splits)
  then show kb: "0 \<le> k" using qb tb unfolding k by (cases "q = 0") simp_all
  have "q = 32 \<Longrightarrow> tmp \<le> 2" using n r tb by (auto split: if_splits)
  then show k129: "k \<le> 129" using qb tb unfolding k by (cases "q = 32") simp_all
  have "(k + 1) div 4 = q" unfolding k using tb by simp
  then have "days_before_year (nat k) = 365 * k + q"
    using kb k129 by (subst days_before_year_small) simp_all
  then show "days_before_year (nat k) + (r - tmp * 365) = n" unfolding k r by simp
  show "0 \<le> r - tmp * 365" using tb by simp
  have e: "1970 + k = (1 + tmp) + 4 * (q + 492)" by (simp add: k)
  have "tmp = 0 \<or> tmp = 1 \<or> tmp = 2 \<or> tmp = 3" using tb by arith
  then have "(1970 + k) mod 4 = 0 \<longleftrightarrow> tmp = 3" unfolding e mod_mult_self2 by auto
  then have "is_leap (1970 + k) \<longleftrightarrow> tmp = 3" using is_leap_2099 [of "1970 + k"] kb k129 by simp
  then show "r - tmp * 365 < (if is_leap (1970 + k) then 366 else 365)" using tb by simp
qed

lemma clock_fields:
  fixes t :: int
  assumes "0 \<le> t" "t < 86400"
  defines "h \<equiv> t div 3600"
  defines "m \<equiv> (t - h * 3600) div 60"
  shows "0 \<le> h" "h < 24" "0 \<le> m" "m < 60" "0 \<le> t - h * 3600 - m * 60" "t - h * 3600 - m * 60 < 60"
  using assms(1,2) unfolding m_def h_def by auto

lemma int16_uint16_id: "0 \<le> x \<Longrightarrow> x \<le> 32767 \<Longrightarrow> int16 (uint16 x) = x"
  by (simp add: uint16_def int16_id)

definition fill_date :: "int \<Rightarrow> int \<Rightarrow> int \<Rightarrow> int \<Rightarrow> int \<Rightarrow> int \<Rightarrow> date_struct \<Rightarrow> date_struct" where
  "fill_date y m e t ms n d =
     (let h = t div 3600; mi = (t - h * 3600) div 60
      in d\<lparr>YEAR := y, MONTH := m, DAY := e + 1, HOUR := h, MINUTE := mi, SECOND := t - h * 3600 - mi * 60,
           MILLISEC := ms, WDAY := (n + 4) mod 7,
           YDAY := (\<Sum>i = 1..<nat m. month_length (is_leap y) i) + e\<rparr>)"

lemma fill_date_valid:
  assumes "1970 \<le> y" "y \<le> 2099" "1 \<le> m" "m \<le> 12" "0 \<le> e" "e < month_length (is_leap y) (nat m)"
    and t: "0 \<le> t" "t < 86400" and "0 \<le> ms" "ms < 1000"
    and n: "days_before_year (nat (y - 1970)) + (\<Sum>i = 1..<nat m. month_length (is_leap y) i) + e = n"
  shows "valid_date (fill_date y m e t ms n d)" "date_seconds (fill_date y m e t ms n d) = 86400 * n + t"
    "MILLISEC (fill_date y m e t ms n d) = ms" "stamp (fill_date y m e t ms n d) = fill_date y m e t ms n d"
proof -
  show "valid_date (fill_date y m e t ms n d)"
    using assms(1-6,9,10) clock_fields [OF t] by (simp add: fill_date_def valid_date_def Let_def)
  have dn: "day_number (fill_date y m e t ms n d) = n"
    using n by (simp add: day_number_def day_of_year_def fill_date_def Let_def)
  show "MILLISEC (fill_date y m e t ms n d) = ms" by (simp add: fill_date_def Let_def)
  show "date_seconds (fill_date y m e t ms n d) = 86400 * n + t"
    unfolding date_seconds_def dn by (simp add: fill_date_def Let_def)
  show "stamp (fill_date y m e t ms n d) = fill_date y m e t ms n d"
    unfolding stamp_def dn by (simp add: day_of_year_def fill_date_def Let_def)
qed

lemma date_of_seconds_fill:
  assumes t: "uint (SECONDS ts) \<le> MAXIMUM_SECONDS_IN_TIME" and ms: "uint (MILLISECONDS ts) < 1000"
  obtains y m e where "date_of_seconds ts d =
      Some (fill_date y m e (uint (SECONDS ts) mod 86400) (uint (MILLISECONDS ts)) (uint (SECONDS ts) div 86400) d)"
    and "1970 \<le> y" "y \<le> 2099" "1 \<le> m" "m \<le> 12" "0 \<le> e" "e < month_length (is_leap y) (nat m)"
    and "days_before_year (nat (y - 1970)) + (\<Sum>i = 1..<nat m. month_length (is_leap y) i) + e
      = uint (SECONDS ts) div 86400"
proof -
  define n where "n = uint (SECONDS ts) div 86400"
  define s where "s = uint (SECONDS ts) mod 86400"
  define q where "q = (n + 365) div 1461"
  define r where "r = (n + 365) - 1461 * q"
  define tmp where "tmp = (if r div 365 = 4 then 3 else r div 365)"
  define k where "k = 4 * q + tmp - 1"
  have n: "0 \<le> n" "n \<le> 47481"
    using t unfolding n_def MAXIMUM_SECONDS_IN_TIME_def by (simp_all add: pos_imp_zdiv_nonneg_iff)
  note Y = year_of_day [OF n q_def r_def tmp_def k_def]
  let ?l = "is_leap (1970 + k)"
  have "r - tmp * 365 < (\<Sum>i = 1..<Suc 12. month_length ?l i)" using Y(5) year_length [of ?l] by simp
  from month_exists [OF Y(3) this] obtain m where m: "1 \<le> m" "m \<le> 12"
    and lo: "(\<Sum>i = 1..<m. month_length ?l i) \<le> r - tmp * 365"
    and hi: "r - tmp * 365 < (\<Sum>i = 1..<m. month_length ?l i) + month_length ?l m" by blast
  define e where "e = r - tmp * 365 - (\<Sum>i = 1..<m. month_length ?l i)"
  have eb: "0 \<le> e" "e < month_length ?l m" using lo hi by (simp_all add: e_def)
  have yd: "r - tmp * 365 = (\<Sum>i = 1..<m. month_length ?l i) + e" by (simp add: e_def)
  have sb: "0 \<le> s" "s < 86400" by (simp_all add: s_def)
  note C = clock_fields [OF sb]
  have qb: "0 \<le> q" "q \<le> 32" unfolding q_def using n by auto
  have rb: "0 \<le> r" "r < 1461" unfolding r_def q_def by (simp_all add: minus_mult_div_eq_mod)
  have tb: "0 \<le> tmp" "tmp \<le> 3" using rb unfolding tmp_def by auto
  have "month_length ?l m \<le> 31" using month_length_bounds [of ?l m] by simp
  define h where "h = s div 3600"
  define mi where "mi = (s - h * 3600) div 60"
  note C' = C [folded h_def, folded mi_def]
  have "uint (SECONDS ts) - n * 86400 = s" unfolding n_def s_def by (simp add: minus_div_mult_eq_mod)
  then have c1: "uint32 (uint (SECONDS ts) - n * 86400) = s" using sb by (simp add: uint32_id)
  have c2: "int16 (uint16 h) = h" "int16 (uint16 mi) = mi"
    "int16 (uint16 (s - h * 3600 - mi * 60)) = s - h * 3600 - mi * 60"
    using C' by (simp_all add: int16_uint16_id)
  have c3: "uint32 (s - uint32 h * 3600) = s - h * 3600"
    "uint32 (s - h * 3600 - uint32 mi * 60) = s - h * 3600 - mi * 60"
    using C' sb by (simp_all add: uint32_id)
  have c4: "int16 (uint16 (uint (MILLISECONDS ts))) = uint (MILLISECONDS ts)"
    using ms by (intro int16_uint16_id) simp_all
  have "0 \<le> (n + 4) mod 7" "(n + 4) mod 7 < 7" by simp_all
  moreover have "uint32 (n + 4) = n + 4" using n by (simp add: uint32_id)
  ultimately have c5: "int16 (uint16 (uint32 (n + 4) mod 7)) = (n + 4) mod 7" by (simp add: int16_uint16_id)
  have c6: "uint32 (n + 365) = n + 365" using n by (simp add: uint32_id)
  have c7: "uint32 (4 * q) = 4 * q" "uint32 (4 * q * 1461) div 4 = q * 1461" using qb by (simp_all add: uint32_id)
  have c8: "uint32 (n + 365 - q * 1461) = r" using rb by (simp add: r_def uint32_id mult.commute)
  have c9: "uint32 (r - tmp * 365) = r - tmp * 365" using Y(3) rb tb by (simp add: uint32_id)
  have "uint32 (4 * q + tmp + 1970 - 1) = 1970 + k" using qb tb by (simp add: k_def uint32_id)
  then have c10: "int16 (uint32 (4 * q + tmp + 1970 - 1)) = 1970 + k" using Y(1,2) by (simp add: int16_id)
  have c11: "time_check_if_leap (1970 + k) = ?l" using Y(1,2) by (intro time_check_if_leap_eq) simp_all
  have c12: "find_month ?l 1 (r - tmp * 365) = Some (int m, e)"
    unfolding yd using find_month_exact [OF m eb] .
  have c13: "int16 (int m) = int m" "int16 (int16 e + 1) = e + 1" "int16 (r - tmp * 365) = r - tmp * 365"
    using m eb \<open>month_length ?l m \<le> 31\<close> Y(3) rb tb by (simp_all add: int16_id)
  have code: "date_of_seconds ts d = Some (fill_date (1970 + k) (int m) e s (uint (MILLISECONDS ts)) n d)"
    unfolding date_of_seconds_def Let_def n_def [symmetric] c1 h_def [symmetric] c2 c3 mi_def [symmetric] c4 c5
      c6 q_def [symmetric] c7 c8 tmp_def [symmetric] c9 c10 c11 c12
    using c13 yd by (simp add: fill_date_def Let_def h_def mi_def)
  show thesis
    using that [of "1970 + k" "int m" e] code Y m eb yd unfolding n_def [symmetric] s_def [symmetric]
    by (simp add: add.assoc)
qed

lemma time_to_date_fill:
  assumes "uint (SECONDS ts) + uint (MILLISECONDS ts) div 1000 \<le> MAXIMUM_SECONDS_IN_TIME"
  obtains d' where "time_to_date (Some ts) (Some d) =
      Some (True, Some \<lparr>SECONDS = SECONDS ts + MILLISECONDS ts div 1000,
                       MILLISECONDS = MILLISECONDS ts mod 1000\<rparr>, Some d')"
    and "valid_date d'" and "date_seconds d' = uint (SECONDS ts) + uint (MILLISECONDS ts) div 1000"
    and "MILLISEC d' = uint (MILLISECONDS ts) mod 1000" and "stamp d' = d'"
proof -
  let ?ts = "\<lparr>SECONDS = SECONDS ts + MILLISECONDS ts div 1000, MILLISECONDS = MILLISECONDS ts mod 1000\<rparr>"
  have q: "uint (MILLISECONDS ts div 1000) = uint (MILLISECONDS ts) div 1000"
    and m: "uint (MILLISECONDS ts mod 1000) = uint (MILLISECONDS ts) mod 1000"
    by (simp_all add: uint_div uint_mod)
  have s: "uint (SECONDS ?ts) = uint (SECONDS ts) + uint (MILLISECONDS ts) div 1000"
    using assms q by (simp add: uint_add_lem [THEN iffD1] MAXIMUM_SECONDS_IN_TIME_def)
  have "uint (SECONDS ?ts) \<le> MAXIMUM_SECONDS_IN_TIME" "uint (MILLISECONDS ?ts) < 1000"
    using assms s m by simp_all
  from date_of_seconds_fill [OF this, where d = d] obtain y mo e where f:
    "date_of_seconds ?ts d = Some (fill_date y mo e (uint (SECONDS ?ts) mod 86400)
       (uint (MILLISECONDS ?ts)) (uint (SECONDS ?ts) div 86400) d)"
    and b: "1970 \<le> y" "y \<le> 2099" "1 \<le> mo" "mo \<le> 12" "0 \<le> e" "e < month_length (is_leap y) (nat mo)"
    and n: "days_before_year (nat (y - 1970)) + (\<Sum>i = 1..<nat mo. month_length (is_leap y) i) + e
      = uint (SECONDS ?ts) div 86400" by blast
  have u: "0 \<le> uint (SECONDS ?ts) mod 86400" "uint (SECONDS ?ts) mod 86400 < 86400"
    "0 \<le> uint (MILLISECONDS ?ts)" "uint (MILLISECONDS ?ts) < 1000"
    using m by simp_all
  have "\<not> MAXIMUM_SECONDS_IN_TIME - uint (MILLISECONDS ts) div 1000 < uint (SECONDS ts)"
    using assms by (simp only: not_less le_diff_eq)
  then have code: "time_to_date (Some ts) (Some d) = Some (True, Some ?ts, Some (fill_date y mo e
      (uint (SECONDS ?ts) mod 86400) (uint (MILLISECONDS ?ts)) (uint (SECONDS ?ts) div 86400) d))"
    unfolding time_to_date_def Let_def by (simp only: prod.case option.case if_False f)
  note v = fill_date_valid [OF b u n, where d = d]
  show thesis
  proof (rule that [OF code v(1) _ _ v(4)])
    show "date_seconds (fill_date y mo e (uint (SECONDS ?ts) mod 86400) (uint (MILLISECONDS ?ts))
        (uint (SECONDS ?ts) div 86400) d) = uint (SECONDS ts) + uint (MILLISECONDS ts) div 1000"
      unfolding v(2) mult_div_mod_eq by (rule s)
    show "MILLISEC (fill_date y mo e (uint (SECONDS ?ts) mod 86400) (uint (MILLISECONDS ?ts))
        (uint (SECONDS ?ts) div 86400) d) = uint (MILLISECONDS ts) mod 1000"
      unfolding v(3) by (simp only: time_struct.simps m)
  qed
qed

lemma day_number_inject:
  assumes v: "valid_date d" "valid_date d'" and e: "day_number d = day_number d'"
  shows "YEAR d = YEAR d'" "MONTH d = MONTH d'" "DAY d = DAY d'"
proof -
  let ?k = "nat (YEAR d - 1970)" and ?k' = "nat (YEAR d' - 1970)"
  have "\<not> Suc ?k \<le> ?k'" "\<not> Suc ?k' \<le> ?k"
    using day_number_year [OF v(1)] day_number_year [OF v(2)] e
      days_before_year_mono [of "Suc ?k" ?k'] days_before_year_mono [of "Suc ?k'" ?k] by linarith+
  then have "?k = ?k'" by simp
  then show y: "YEAR d = YEAR d'" using v unfolding valid_date_def by linarith
  have fm: "find_month (is_leap (YEAR c)) 1 (day_of_year c) = Some (MONTH c, DAY c - 1)" if "valid_date c" for c
    using find_month_exact [OF valid_date_month(1,2) [OF that], of "DAY c - 1" "is_leap (YEAR c)"] that
    by (simp add: day_of_year_def valid_date_def algebra_simps)
  have "day_of_year d = day_of_year d'" using e y by (simp add: day_number_def)
  then show "MONTH d = MONTH d'" "DAY d = DAY d'" using fm [OF v(1)] fm [OF v(2)] y by simp_all
qed

lemma time_split_inject:
  fixes h h' m m' s s' n n' :: int
  assumes "86400 * n + 3600 * h + 60 * m + s = 86400 * n' + 3600 * h' + 60 * m' + s'"
    and "0 \<le> h" "h < 24" "0 \<le> m" "m < 60" "0 \<le> s" "s < 60"
    and "0 \<le> h'" "h' < 24" "0 \<le> m'" "m' < 60" "0 \<le> s'" "s' < 60"
  shows "n = n' \<and> h = h' \<and> m = m' \<and> s = s'"
proof -
  have n: "n = n'" using assms by (cases n n' rule: linorder_cases) linarith+
  have h: "h = h'" using assms n by (cases h h' rule: linorder_cases) linarith+
  have "m = m'" using assms n h by (cases m m' rule: linorder_cases) linarith+
  with assms n h show ?thesis by simp
qed

lemma stamp_inject:
  assumes "valid_date d" "valid_date d'" "date_seconds d = date_seconds d'" "MILLISEC d = MILLISEC d'"
  shows "stamp d = stamp d'"
proof -
  have "day_number d = day_number d' \<and> HOUR d = HOUR d' \<and> MINUTE d = MINUTE d' \<and> SECOND d = SECOND d'"
    using assms(1-3) unfolding date_seconds_def valid_date_def by (intro time_split_inject) simp_all
  with day_number_inject [OF assms(1,2)] assms(4) show ?thesis
    by (simp add: stamp_def day_of_year_def)
qed

text \<open>
  Fact. \<^verbatim>\<open>_time_to_date\<close> does not reject milliseconds beyond 999, as its comment says: it carries them into the seconds and
  returns \<^verbatim>\<open>TRUE\<close> with the date of the time so normalised.
\<close>

lemma time_to_date_carries:
  assumes "uint (SECONDS ts) + uint (MILLISECONDS ts) div 1000 \<le> MAXIMUM_SECONDS_IN_TIME"
  shows "\<exists>ts' d'. time_to_date (Some ts) (Some d) = Some (True, Some ts', Some d')
    \<and> uint (SECONDS ts') = uint (SECONDS ts) + uint (MILLISECONDS ts) div 1000
    \<and> uint (MILLISECONDS ts') = uint (MILLISECONDS ts) mod 1000
    \<and> valid_date d' \<and> date_seconds d' = uint (SECONDS ts') \<and> MILLISEC d' = uint (MILLISECONDS ts')
    \<and> WDAY d' = (day_number d' + 4) mod 7 \<and> YDAY d' = day_of_year d'
    \<and> time_from_date (Some d') (Some ts0) = Some (True, Some d', Some ts')"
proof -
  let ?ts = "\<lparr>SECONDS = SECONDS ts + MILLISECONDS ts div 1000, MILLISECONDS = MILLISECONDS ts mod 1000\<rparr>"
  obtain d' where c: "time_to_date (Some ts) (Some d) = Some (True, Some ?ts, Some d')"
    and v: "valid_date d'" and s: "date_seconds d' = uint (SECONDS ts) + uint (MILLISECONDS ts) div 1000"
    and m: "MILLISEC d' = uint (MILLISECONDS ts) mod 1000" and st: "stamp d' = d'"
    using time_to_date_fill [OF assms] by blast
  have su: "uint (SECONDS ?ts) = uint (SECONDS ts) + uint (MILLISECONDS ts) div 1000"
    using assms by (simp add: uint_add_lem [THEN iffD1] MAXIMUM_SECONDS_IN_TIME_def uint_div)
  have mu: "uint (MILLISECONDS ?ts) = uint (MILLISECONDS ts) mod 1000" by (simp add: uint_mod)
  have "\<lparr>SECONDS = word_of_int (date_seconds d'), MILLISECONDS = word_of_int (MILLISEC d')\<rparr> = ?ts"
    unfolding s m su [symmetric] mu [symmetric] by simp
  then have ret: "time_from_date (Some d') (Some ts0) = Some (True, Some d', Some ?ts)"
    using normalize_fields_id [OF v] normalize_day_id [OF v] seconds_of_date_valid [OF v, of ts0] st
    by (simp add: time_from_date_def)
  have "WDAY (stamp d') = (day_number d' + 4) mod 7" "YDAY (stamp d') = day_of_year d'"
    by (simp_all add: stamp_def)
  then show ?thesis
    using c v s m st su mu ret by (intro exI [of _ ?ts] exI [of _ d'] conjI) (simp_all only:)
qed

text \<open>
  C36 (functional). \<^verbatim>\<open>_time_to_date\<close> on a time in the documented range (up to the last second of 2099, milliseconds up to 999)
  returns \<^verbatim>\<open>TRUE\<close>, leaves the time as it is and gives the unique existing date that begins there, its weekday and day of
  the year included; \<^verbatim>\<open>_time_from_date\<close> of that date gives the same time back. Later times give \<^verbatim>\<open>FALSE\<close> and change
  nothing.
\<close>

theorem time_to_date_exact:
  assumes ms: "MILLISECONDS ts < 1000"
  shows "(uint (SECONDS ts) \<le> MAXIMUM_SECONDS_IN_TIME \<longrightarrow>
      (\<exists>d'. time_to_date (Some ts) (Some d) = Some (True, Some ts, Some d')
        \<and> valid_date d' \<and> date_seconds d' = uint (SECONDS ts) \<and> MILLISEC d' = uint (MILLISECONDS ts)
        \<and> WDAY d' = (day_number d' + 4) mod 7 \<and> YDAY d' = day_of_year d'
        \<and> (\<forall>e. valid_date e \<and> date_seconds e = uint (SECONDS ts) \<and> MILLISEC e = uint (MILLISECONDS ts) \<longrightarrow> stamp e = d')
        \<and> time_from_date (Some d') (Some ts0) = Some (True, Some d', Some ts)))
    \<and> (uint (SECONDS ts) > MAXIMUM_SECONDS_IN_TIME \<longrightarrow> time_to_date (Some ts) (Some d) = Some (False, Some ts, Some d))"
proof (intro conjI impI)
  have m: "uint (MILLISECONDS ts) < 1000" using ms by (simp add: word_less_def)
  have z: "uint (MILLISECONDS ts) div 1000 = 0" "uint (MILLISECONDS ts) mod 1000 = uint (MILLISECONDS ts)" using m by simp_all
  show "time_to_date (Some ts) (Some d) = Some (False, Some ts, Some d)" if "uint (SECONDS ts) > MAXIMUM_SECONDS_IN_TIME"
    using that z by (simp add: time_to_date_def)
  assume "uint (SECONDS ts) \<le> MAXIMUM_SECONDS_IN_TIME"
  then have "uint (SECONDS ts) + uint (MILLISECONDS ts) div 1000 \<le> MAXIMUM_SECONDS_IN_TIME" using z by simp
  from time_to_date_carries [OF this, of d ts0] obtain ts' d' where
    c: "time_to_date (Some ts) (Some d) = Some (True, Some ts', Some d')" "valid_date d'" "date_seconds d' = uint (SECONDS ts')"
      "MILLISEC d' = uint (MILLISECONDS ts')" "WDAY d' = (day_number d' + 4) mod 7" "YDAY d' = day_of_year d'"
      "time_from_date (Some d') (Some ts0) = Some (True, Some d', Some ts')"
    and t: "uint (SECONDS ts') = uint (SECONDS ts)" "uint (MILLISECONDS ts') = uint (MILLISECONDS ts)"
    unfolding z by auto
  have "ts' = ts" using t by (cases ts; cases ts') (simp add: word_uint_eq_iff)
  moreover have "stamp d' = d'" unfolding stamp_def c(5,6) [symmetric] by simp
  then have u: "\<forall>e. valid_date e \<and> date_seconds e = uint (SECONDS ts) \<and> MILLISEC e = uint (MILLISECONDS ts) \<longrightarrow> stamp e = d'"
    using stamp_inject [OF _ c(2)] c(3,4) t by metis
  ultimately show "\<exists>d'. time_to_date (Some ts) (Some d) = Some (True, Some ts, Some d')
        \<and> valid_date d' \<and> date_seconds d' = uint (SECONDS ts) \<and> MILLISEC d' = uint (MILLISECONDS ts)
        \<and> WDAY d' = (day_number d' + 4) mod 7 \<and> YDAY d' = day_of_year d'
        \<and> (\<forall>e. valid_date e \<and> date_seconds e = uint (SECONDS ts) \<and> MILLISEC e = uint (MILLISECONDS ts) \<longrightarrow> stamp e = d')
        \<and> time_from_date (Some d') (Some ts0) = Some (True, Some d', Some ts)"
    using c t u by (intro exI [of _ d'] conjI) (simp_all only:)
qed

theorem time_to_date_exact_witness:
  "\<exists>d'. time_to_date (Some \<lparr>SECONDS = 951868800, MILLISECONDS = 500\<rparr>)
      (Some \<lparr>YEAR = 0, MONTH = 0, DAY = 0, HOUR = 0, MINUTE = 0, SECOND = 0, MILLISEC = 0, WDAY = 0, YDAY = 0\<rparr>)
    = Some (True, Some \<lparr>SECONDS = 951868800, MILLISECONDS = 500\<rparr>, Some d') \<and> date_seconds d' = 951868800 \<and> MILLISEC d' = 500"
  using time_to_date_exact [of "\<lparr>SECONDS = 951868800, MILLISECONDS = 500\<rparr>"
      "\<lparr>YEAR = 0, MONTH = 0, DAY = 0, HOUR = 0, MINUTE = 0, SECOND = 0, MILLISEC = 0, WDAY = 0, YDAY = 0\<rparr>"
      "\<lparr>SECONDS = 0, MILLISECONDS = 0\<rparr>"]
  by (fastforce simp: MAXIMUM_SECONDS_IN_TIME_def)

text \<open>
  Fact. Converting an existing date to a time and the time back to a date returns the
  date, with its weekday and day of the year filled in.
\<close>

theorem date_time_roundtrip:
  assumes "valid_date d"
  shows "\<exists>ts. time_from_date (Some d) (Some ts0) = Some (True, Some (stamp d), Some ts)
    \<and> time_to_date (Some ts) (Some d0) = Some (True, Some ts, Some (stamp d))"
proof -
  let ?ts = "\<lparr>SECONDS = word_of_int (date_seconds d), MILLISECONDS = word_of_int (MILLISEC d)\<rparr> :: time_struct"
  have m: "0 \<le> MILLISEC d" "MILLISEC d < 1000" using assms by (simp_all add: valid_date_def)
  have b: "uint (SECONDS ?ts) = date_seconds d" "uint (MILLISECONDS ?ts) = MILLISEC d"
    using date_seconds_max [OF assms] m
    by (simp_all add: MAXIMUM_SECONDS_IN_TIME_def uint_word_of_int)
  have z: "MILLISEC d div 1000 = 0" "MILLISEC d mod 1000 = MILLISEC d" using m by simp_all
  have "uint (SECONDS ?ts) + uint (MILLISECONDS ?ts) div 1000 \<le> MAXIMUM_SECONDS_IN_TIME"
    unfolding b z using date_seconds_max [OF assms] by simp
  from time_to_date_fill [OF this, of d0] obtain d' where c: "time_to_date (Some ?ts) (Some d0) =
      Some (True, Some \<lparr>SECONDS = SECONDS ?ts + MILLISECONDS ?ts div 1000,
        MILLISECONDS = MILLISECONDS ?ts mod 1000\<rparr>, Some d')"
    and d': "valid_date d'" "date_seconds d' = date_seconds d" "MILLISEC d' = MILLISEC d" "stamp d' = d'"
    unfolding b z by auto
  have "MILLISECONDS ?ts div 1000 = 0" "MILLISECONDS ?ts mod 1000 = MILLISECONDS ?ts"
    using b(2) z by (simp_all only: word_uint_eq_iff uint_div uint_mod) simp_all
  moreover have "d' = stamp d" using stamp_inject [OF assms d'(1)] d' by simp
  ultimately have "time_to_date (Some ?ts) (Some d0) = Some (True, Some ?ts, Some (stamp d))"
    using c by simp
  moreover have "time_from_date (Some d) (Some ts0) = Some (True, Some (stamp d), Some ?ts)"
    using normalize_fields_id [OF assms] normalize_day_id [OF assms] seconds_of_date_valid [OF assms]
    by (simp add: time_from_date_def)
  ultimately show ?thesis by blast
qed

theorem date_time_roundtrip_witness:
  "\<exists>ts. time_to_date (Some ts) (Some uninit_date) = Some (True, Some ts, Some (stamp
     \<lparr>YEAR = 2024, MONTH = 12, DAY = 31, HOUR = 12, MINUTE = 0, SECOND = 1, MILLISEC = 5, WDAY = 0, YDAY = 0\<rparr>))"
  using date_time_roundtrip [of
      "\<lparr>YEAR = 2024, MONTH = 12, DAY = 31, HOUR = 12, MINUTE = 0, SECOND = 1, MILLISEC = 5, WDAY = 0, YDAY = 0\<rparr>"
      uninit_time uninit_date]
  by (fastforce simp: valid_date_def month_length_def is_leap_def)

subsection \<open>The conversions are defined on every input\<close>

lemma int16_range: "- 32768 \<le> int16 x \<and> int16 x \<le> 32767"
  using int16_bounds by simp

lemma normalize_month_range:
  assumes "normalize (int16 x) 12 hi = (ok, n, hi')"
  shows "0 \<le> n \<and> n \<le> 11"
proof -
  define v where "v = int16 x"
  have vb: "- 32768 \<le> v" "v \<le> 32767" using int16_bounds v_def by simp_all
  define t where "t = cdiv v 12"
  have tb: "- 2731 \<le> t" "t \<le> 2731" "- 12 < v - t * 12" "v - t * 12 < 12"
    using vb unfolding t_def cdiv_def by auto
  define n0 where "n0 = v - t * 12"
  have "n = (if n0 < 0 then n0 + 12 else n0)"
    using assms tb vb
    by (auto simp: normalize_def Let_def int16_id v_def [symmetric] t_def [symmetric] n0_def split: if_splits)
  then show ?thesis using tb by (auto simp: n0_def)
qed

lemma normalize_fields_month:
  "normalize_fields d = (True, d') \<Longrightarrow> 1 \<le> MONTH d' \<and> MONTH d' \<le> 12"
  by (auto simp: normalize_fields_def Let_def int16_id split: prod.splits if_splits
      dest!: normalize_month_range)

lemma normalize_day_defined:
  "1 \<le> MONTH d \<Longrightarrow> MONTH d \<le> 12 \<Longrightarrow> \<exists>d'. normalize_day d = Some d' \<and> 1 \<le> MONTH d' \<and> MONTH d' \<le> 12"
proof (induction d rule: normalize_day.induct)
  case (1 d)
  let ?n = "month_length (time_check_if_leap (YEAR d)) (nat (MONTH d))"
  have n: "days_in_month (time_check_if_leap (YEAR d)) (MONTH d) = Some ?n"
    using 1 by (intro days_in_month_Some)
  let ?up = "carry_month (d\<lparr>DAY := int16 (DAY d - ?n), MONTH := int16 (MONTH d + 1)\<rparr>)"
  let ?dn = "carry_month (d\<lparr>DAY := int16 (DAY d + ?n), MONTH := int16 (MONTH d - 1)\<rparr>)"
  have r: "1 \<le> MONTH ?up \<and> MONTH ?up \<le> 12" "1 \<le> MONTH ?dn \<and> MONTH ?dn \<le> 12"
    using 1(3,4) by (auto simp: carry_month_def int16_id)
  have "MONTH d \<noteq> 0" using 1 by simp
  with 1(1) [OF _ n _] 1(2) [OF _ n _] r 1(3,4) n show ?case
    by (subst (1) normalize_day.simps) auto
qed

text \<open>
  C37 (termination). On every input, valid or not, \<^verbatim>\<open>_time_from_date\<close> and \<^verbatim>\<open>_time_to_date\<close> return: their loops
  end, and no read leaves the month table.
\<close>

theorem calendar_total:
  "time_from_date date_ptr ts_ptr \<noteq> None \<and> time_to_date ts_ptr date_ptr \<noteq> None"
proof
  show "time_from_date date_ptr ts_ptr \<noteq> None"
  proof (cases "\<exists>d ts ok d1. date_ptr = Some d \<and> ts_ptr = Some ts \<and> normalize_fields d = (True, d1)")
    case True
    then obtain d ts d1 where p: "date_ptr = Some d" "ts_ptr = Some ts" "normalize_fields d = (True, d1)" by blast
    then obtain d2 where "normalize_day d1 = Some d2"
      using normalize_day_defined normalize_fields_month by blast
    with p show ?thesis by (simp add: time_from_date_def split: prod.splits)
  next
    case False
    then show ?thesis by (auto simp: time_from_date_def split: option.splits prod.splits)
  qed
  show "time_to_date ts_ptr date_ptr \<noteq> None"
  proof (cases "\<exists>ts d. ts_ptr = Some ts \<and> date_ptr = Some d")
    case True
    then obtain ts d where p: "ts_ptr = Some ts" "date_ptr = Some d" by blast
    show ?thesis
    proof (cases "uint (SECONDS ts) + uint (MILLISECONDS ts) div 1000 \<le> MAXIMUM_SECONDS_IN_TIME")
      case True
      then show ?thesis unfolding p by (rule time_to_date_fill [where d = d]) simp
    next
      case False
      then show ?thesis using p by (simp add: time_to_date_def)
    qed
  next
    case False
    then show ?thesis by (auto simp: time_to_date_def split: option.splits)
  qed
qed

subsection \<open>The standard C interface\<close>

lemma date_of_tm_fields:
  assumes v: "valid_date d" and z: "MILLISEC d = 0"
    and t: "tm_sec t = SECOND d" "tm_min t = MINUTE d" "tm_hour t = HOUR d" "tm_mday t = DAY d - 1"
      "tm_mon t = MONTH d - 1" "tm_year t = YEAR d - 1900"
  shows "date_of_tm t = d\<lparr>WDAY := 0, YDAY := 0\<rparr>"
  using v z t valid_date_month(3) [OF v]
  by (simp add: date_of_tm_def uninit_date_def valid_date_def int16_id)

lemma valid_date_cleared: "valid_date (d\<lparr>WDAY := a, YDAY := b\<rparr>) = valid_date d"
  "date_seconds (d\<lparr>WDAY := a, YDAY := b\<rparr>) = date_seconds d"
  "stamp (d\<lparr>WDAY := a, YDAY := b\<rparr>) = stamp d" "MILLISEC (d\<lparr>WDAY := a, YDAY := b\<rparr>) = MILLISEC d"
  by (simp_all add: valid_date_def date_seconds_def day_number_def day_of_year_def stamp_def)

lemma from_date_valid:
  "valid_date d \<Longrightarrow> time_from_date (Some d) (Some ts) =
     Some (True, Some (stamp d), Some \<lparr>SECONDS = word_of_int (date_seconds d), MILLISECONDS = word_of_int (MILLISEC d)\<rparr>)"
  by (simp add: time_from_date_def normalize_fields_id normalize_day_id seconds_of_date_valid)

text \<open>
  Fact. \<^verbatim>\<open>gmtime_r\<close> breaks every time up to the end of 2099 down to a \<^verbatim>\<open>struct tm\<close> from which
  \<^verbatim>\<open>timegm\<close> and \<^verbatim>\<open>mktime\<close> compute the same time again; \<^verbatim>\<open>mktime\<close> leaves the structure unchanged.
\<close>

theorem gmtime_timegm_roundtrip:
  assumes "uint time \<le> MAXIMUM_SECONDS_IN_TIME"
  shows "\<exists>t. gmtime_r (Some time) (Some result) = Some (Some t) \<and> timegm (Some t) = Some time
    \<and> mktime (Some t) = Some (time, Some t)"
proof -
  have "uint (SECONDS \<lparr>SECONDS = time, MILLISECONDS = 0\<rparr>)
      + uint (MILLISECONDS \<lparr>SECONDS = time, MILLISECONDS = 0\<rparr>) div 1000 \<le> MAXIMUM_SECONDS_IN_TIME"
    using assms by simp
  from time_to_date_fill [OF this, of uninit_date] obtain ts d where
    c: "time_to_date (Some \<lparr>SECONDS = time, MILLISECONDS = 0\<rparr>) (Some uninit_date) = Some (True, ts, Some d)"
    and d: "valid_date d" "date_seconds d = uint time" "MILLISEC d = 0" "stamp d = d"
    by (metis (no_types, lifting) add.right_neutral div_0 mod_0 time_struct.select_convs(1,2) unsigned_0)
  let ?t = "result\<lparr>tm_sec := SECOND d, tm_min := MINUTE d, tm_hour := HOUR d, tm_mday := DAY d - 1,
    tm_mon := MONTH d - 1, tm_year := YEAR d - 1900, tm_wday := WDAY d, tm_yday := YDAY d\<rparr>"
  have "date_of_tm ?t = d\<lparr>WDAY := 0, YDAY := 0\<rparr>" using d(1,3) by (intro date_of_tm_fields) simp_all
  then have f: "time_from_date (Some (date_of_tm ?t)) (Some uninit_time) =
      Some (True, Some d, Some \<lparr>SECONDS = time, MILLISECONDS = 0\<rparr>)"
    using d by (simp add: from_date_valid valid_date_cleared)
  have g: "gmtime_r (Some time) (Some result) = Some (Some ?t)" using c by (simp add: gmtime_r_def)
  have "uint32 (MAXIMUM_SECONDS_IN_TIME - timezone) = MAXIMUM_SECONDS_IN_TIME"
    by (simp add: uint32_def MAXIMUM_SECONDS_IN_TIME_def timezone_def)
  then have "timegm (Some ?t) = Some time" "mktime (Some ?t) = Some (time, Some ?t)"
    using f assms by (simp_all add: timegm_def mktime_def timezone_def)
  with g show ?thesis by blast
qed

theorem gmtime_timegm_roundtrip_witness:
  "\<exists>t. gmtime_r (Some 951868799) (Some (tm.make 0 0 0 0 0 0 0 0 0)) = Some (Some t) \<and> timegm (Some t) = Some 951868799"
  using gmtime_timegm_roundtrip [of 951868799 "tm.make 0 0 0 0 0 0 0 0 0"]
  by (auto simp: MAXIMUM_SECONDS_IN_TIME_def)

end
