(* ===== verification/Resumption.thy ===== *)
theory Resumption
  imports Mqx_Prelude
begin

text \<open>
  Programs that may be switched out. A kernel function may hand the processor to another task in its
  middle and go on when its caller runs again. It is either \<open>Done\<close> with a result, or \<open>Susp\<close>ended with the
  state at the switch and the rest of its code as a function of the state it is resumed in. The type is
  coinductive: a function that waits in a loop may be switched out any number of times.
\<close>

codatatype (dead 'k, 'a) prog = Done 'a 'k | Susp 'k "'k \<Rightarrow> ('k, 'a) prog"

primcorec andthen :: "('k, 'a) prog \<Rightarrow> ('a \<Rightarrow> 'k \<Rightarrow> ('k, 'b) prog) \<Rightarrow> ('k, 'b) prog" where
  "andthen p f = (case p of Done a k \<Rightarrow> f a k | Susp k c \<Rightarrow> Susp k (\<lambda>k'. andthen (c k') f))"

lemma andthen_simps [simp]:
  "andthen (Done a k) f = f a k"
  "andthen (Susp k c) f = Susp k (\<lambda>k'. andthen (c k') f)"
  by (subst andthen.code; simp)+

text \<open>The state after the first stretch of code, and the result if it has returned.\<close>

definition state_of :: "('k, 'a) prog \<Rightarrow> 'k" where
  "state_of p = (case p of Done a k \<Rightarrow> k | Susp k c \<Rightarrow> k)"

definition result_of :: "('k, 'a) prog \<Rightarrow> 'a option" where
  "result_of p = (case p of Done a k \<Rightarrow> Some a | Susp k c \<Rightarrow> None)"

lemma state_result_simps [simp]:
  "state_of (Done a k) = k" "state_of (Susp k c) = k"
  "result_of (Done a k) = Some a" "result_of (Susp k c) = None"
  by (simp_all add: state_of_def result_of_def)

text \<open>\<open>keeps S D R p\<close>: the program is switched out in states that satisfy \<open>S\<close> only and ends, if it ends, in \<open>D\<close>,
  if it is resumed in states that satisfy \<open>S\<close> and the condition \<open>R\<close> for running again.\<close>

coinductive keeps :: "('k \<Rightarrow> bool) \<Rightarrow> ('k \<Rightarrow> bool) \<Rightarrow> ('k \<Rightarrow> bool) \<Rightarrow> ('k, 'a) prog \<Rightarrow> bool"
  for S D R where
  finished: "D k \<Longrightarrow> keeps S D R (Done a k)"
| switched: "S k \<Longrightarrow> (\<And>k'. S k' \<Longrightarrow> R k' \<Longrightarrow> keeps S D R (c k')) \<Longrightarrow> keeps S D R (Susp k c)"

inductive_simps keeps_simps [simp]: "keeps S D R (Done a k)" "keeps S D R (Susp k c)"

lemma andthen_assoc: "andthen (andthen p f) g = andthen p (\<lambda>a k. andthen (f a k) g)"
proof (coinduction arbitrary: p rule: prog.coinduct_strong)
  case Eq_prog
  show ?case by (cases p) (auto simp: rel_fun_def)
qed

lemma keeps_andthen:
  assumes "keeps S D R p" and "\<And>a k. D k \<Longrightarrow> keeps S E R (f a k)"
  shows "keeps S E R (andthen p f)"
  using assms(1)
proof (coinduction arbitrary: p)
  case keeps
  then show ?case
  proof cases
    case (finished k a)
    with assms(2) [of k a] have "keeps S E R (f a k)" by simp
    then show ?thesis using finished by (cases "f a k") auto
  next
    case (switched k c)
    then show ?thesis by auto
  qed
qed

lemma keeps_state: "keeps S D R p \<Longrightarrow> (\<And>k. D k \<Longrightarrow> S k) \<Longrightarrow> S (state_of p)"
  by (cases p) auto

lemma keeps_mono: "keeps S D R p \<Longrightarrow> (\<And>k. D k \<Longrightarrow> E k) \<Longrightarrow> keeps S E R p"
proof (coinduction arbitrary: p)
  case keeps
  then show ?case by (cases p) auto
qed

text \<open>\<open>yields P p\<close>: every result the program can return satisfies \<open>P\<close>, in whatever states it is resumed.\<close>

coinductive yields :: "('a \<Rightarrow> bool) \<Rightarrow> ('k, 'a) prog \<Rightarrow> bool" for P where
  result: "P a \<Longrightarrow> yields P (Done a k)"
| later: "(\<And>k'. yields P (c k')) \<Longrightarrow> yields P (Susp k c)"

inductive_simps yields_simps [simp]: "yields P (Done a k)" "yields P (Susp k c)"

lemma yields_andthen:
  assumes "\<And>a k. yields P (f a k)"
  shows "yields P (andthen p f)"
proof (coinduction arbitrary: p)
  case yields
  show ?case
  proof (cases p)
    case (Done a k)
    with assms [of a k] show ?thesis by (cases "f a k") auto
  qed auto
qed

lemma keeps_conj:
  "keeps S D R p \<Longrightarrow> keeps S' D' R p \<Longrightarrow> keeps (\<lambda>k. S k \<and> S' k) (\<lambda>k. D k \<and> D' k) R p"
proof (coinduction arbitrary: p)
  case keeps
  then show ?case by (cases p) auto
qed

subsection \<open>Loops that give up the processor\<close>

text \<open>A loop whose rounds end with a call that lets other tasks run: a round returns the result of the loop
  (\<open>Inl\<close>) or the loop variables of the next round (\<open>Inr\<close>). Before the next round the task gives up the
  processor, and the round starts in the state the task is resumed in.\<close>

primcorec spin :: "('k \<Rightarrow> 'k) \<Rightarrow> ('s \<Rightarrow> 'k \<Rightarrow> ('k, 'a + 's) prog) \<Rightarrow> ('k, 'a + 's) prog \<Rightarrow> ('k, 'a) prog" where
  "spin give_up round p =
     (case p of
        Done r k \<Rightarrow> (case r of Inl a \<Rightarrow> Done a k | Inr s \<Rightarrow> Susp (give_up k) (\<lambda>k'. spin give_up round (round s k')))
      | Susp k c \<Rightarrow> Susp k (\<lambda>k'. spin give_up round (c k')))"

lemma spin_simps [simp]:
  "spin give_up round (Done (Inl a) k) = Done a k"
  "spin give_up round (Done (Inr s) k) = Susp (give_up k) (\<lambda>k'. spin give_up round (round s k'))"
  "spin give_up round (Susp k c) = Susp k (\<lambda>k'. spin give_up round (c k'))"
  by (subst spin.code; simp)+

lemma keeps_spin:
  assumes "keeps S D R p" and "\<And>k. D k \<Longrightarrow> S (give_up k)" and "\<And>s k. S k \<Longrightarrow> R k \<Longrightarrow> keeps S D R (round s k)"
  shows "keeps S D R (spin give_up round p)"
  using assms(1)
proof (coinduction arbitrary: p)
  case keeps
  then show ?case
  proof cases
    case (finished k r)
    then show ?thesis using assms(2,3) by (cases r) auto
  next
    case (switched k c)
    then show ?thesis by auto
  qed
qed

end
