(* ===== verification/Kernel.thy ===== *)
theory Kernel
  imports Mqx_Queue Psp_Ticks Resumption
begin

unbundle bit_operations_syntax

text \<open>
  The kernel state shared by the scheduler and the synchronisation components: task descriptors,
  ready queues, timeout queue and wait queues (\<^verbatim>\<open>mqx_prv.h\<close>), the macros that move a task between
  them, and the dispatcher (\<^verbatim>\<open>dispatch.S\<close>).

  Queues are lists of task descriptors here: theory \<^verbatim>\<open>Mqx_Queue\<close> shows that the pointer operations
  implement the list operations. A ready queue is named by its priority (the queues are one array,
  \<^verbatim>\<open>READY_Q_LIST - priority\<close>, so a queue at a higher address has a smaller priority number). A wait
  queue is named by the address of its head: \<open>TD_QUEUES\<close> holds the ones linked through \<^verbatim>\<open>TD_NEXT\<close>
  and \<^verbatim>\<open>TD_PREV\<close>, \<open>AUX_QUEUES\<close> the ones linked through \<^verbatim>\<open>AUX_QUEUE\<close>.
\<close>

subsection \<open>Constants\<close>

abbreviation (input) MQX_TASK_QUEUE_EMPTY :: u32 where "MQX_TASK_QUEUE_EMPTY \<equiv> 0x0F"
abbreviation (input) MQX_INVALID_TASK_STATE :: u32 where "MQX_INVALID_TASK_STATE \<equiv> 0x11"
abbreviation (input) MQX_INVALID_TASK_ID :: u32 where "MQX_INVALID_TASK_ID \<equiv> 0x12"
abbreviation (input) MQX_INVALID_TASK_QUEUE :: u32 where "MQX_INVALID_TASK_QUEUE \<equiv> 0x1E"
abbreviation (input) MQX_INVALID_LWSEM :: u32 where "MQX_INVALID_LWSEM \<equiv> 0x1F"
abbreviation (input) MQX_LWSEM_WAIT_TIMEOUT :: u32 where "MQX_LWSEM_WAIT_TIMEOUT \<equiv> 0x37"
abbreviation (input) MQX_EINVAL :: u32 where "MQX_EINVAL \<equiv> 0x410"

text \<open>Task states: the low byte is the reason, the bits above it say which queues hold the task.\<close>

abbreviation (input) IS_BLOCKED :: u32 where "IS_BLOCKED \<equiv> 0x001"
abbreviation (input) IS_ON_TIMEOUT_Q :: u32 where "IS_ON_TIMEOUT_Q \<equiv> 0x100"
abbreviation (input) TD_IS_ON_QUEUE :: u32 where "TD_IS_ON_QUEUE \<equiv> 0x200"
abbreviation (input) TD_IS_ON_AUX_QUEUE :: u32 where "TD_IS_ON_AUX_QUEUE \<equiv> 0x400"
abbreviation (input) READY :: u32 where "READY \<equiv> 0x02"
abbreviation (input) BLOCKED :: u32 where "BLOCKED \<equiv> 0x03"
abbreviation (input) MUTEX_BLOCKED :: u32 where "MUTEX_BLOCKED \<equiv> 0x223"
abbreviation (input) TASK_QUEUE_BLOCKED :: u32 where "TASK_QUEUE_BLOCKED \<equiv> 0x229"
abbreviation (input) LWSEM_BLOCKED :: u32 where "LWSEM_BLOCKED \<equiv> 0x42B"
abbreviation (input) LWEVENT_BLOCKED :: u32 where "LWEVENT_BLOCKED \<equiv> 0x42D"

abbreviation (input) TASK_PRIORITY_BOOSTED :: u32 where "TASK_PRIORITY_BOOSTED \<equiv> 0x8000"
abbreviation (input) TASK_PREEMPTION_DISABLED :: u32 where "TASK_PREEMPTION_DISABLED \<equiv> 0x1000"
abbreviation (input) MQX_TIME_SLICE_TASK :: u32 where "MQX_TIME_SLICE_TASK \<equiv> 0x04"

subsection \<open>State\<close>

record td =
  TASK_ID :: u32
  STATE :: u32
  INFO :: addr
  FLAGS :: u32
  MY_QUEUE :: nat
  HOME_QUEUE :: nat
  TIMEOUT :: psp_tick
  BOOSTED :: u32
  DISABLED_LEVEL :: u32
  TASK_ERROR_CODE :: u32
  LWEVENT_BITS :: u32
  TIME_SLICE :: psp_tick
  CURRENT_TIME_SLICE :: psp_tick
  WATCHDOG_TIME :: psp_tick

record lwsem =
  LWSEM_VALID_FIELD :: u32
  VALUE :: int

record task_queue =
  TASKQ_VALID_FIELD :: u32
  POLICY :: u32

record lwevent =
  EV_VALID :: u32
  EV_VALUE :: u32
  EV_FLAGS :: u32
  EV_AUTO :: u32

text \<open>A message queue: the message area after the structure is \<open>MSG_MEM\<close>, an array of words; the locations
  are indices into it and \<^verbatim>\<open>MSG_START_LOC\<close> is 0.\<close>

record lwmsgq =
  MSGQ_VALID :: u32
  MSG_SIZE :: nat
  MAX_SIZE :: nat
  CURRENT_SIZE :: nat
  MSG_WRITE_LOC :: nat
  MSG_READ_LOC :: nat
  MSG_END_LOC :: nat
  MSG_MEM :: "nat \<Rightarrow> u32"

record mutex =
  MTX_VALID :: u32
  PROTOCOLS :: u32
  PRIORITY_CEILING :: nat
  MTX_COUNT :: u32
  LOCK :: u8
  OWNER_TD :: addr
  MTX_BOOSTED :: u32

text \<open>A lightweight timer and a periodic queue of them; \<open>TIMER_PTR\<close> is the last timer processed, or the queue
  head itself (\<open>None\<close>).\<close>

record lwtimer =
  TMR_VALID :: u32
  RELATIVE_TICKS :: u32
  TIMER_FUNCTION :: addr
  PARAMETER :: addr
  PERIOD_PTR :: addr

record lwtimer_period =
  PER_VALID :: u32
  PERIOD :: u32
  EXPIRY :: u32
  WAIT :: u32
  TIMERS :: "addr list"
  TIMER_PTR :: "addr option"

text \<open>Partitions. Their addresses are words, on which the code computes and from which it forms checksums. The
  \<^verbatim>\<open>POOL\<close> structure inside a partition at address \<open>p\<close> is the area at \<open>p + 44\<close>. \<open>PDATA\<close> is the memory handed out.\<close>

type_synonym ptr = u32

record pblock =
  LINK :: ptr
  CHECKSUM :: u32
  BLK_TASK_ID :: u32

record parea =
  NEXT_POOL_PTR :: ptr
  AREA_VALID :: u32
  NUMBER_OF_BLOCKS :: u32
  FIRST_IBLOCK_PTR :: ptr

record partpool =
  BLOCK_SIZE :: u32
  AVAILABLE :: u32
  FREE_LIST_PTR :: ptr
  TOTAL_BLOCKS :: u32
  MAX_BLOCKS_USED :: u32
  GROW_BLOCKS :: u32
  MAXIMUM_BLOCKS :: u32
  PARTITION_TYPE :: u32
  TEST_FREE_PTR :: ptr

record partitions =
  PBLOCKS :: "ptr \<Rightarrow> pblock"
  PAREAS :: "ptr \<Rightarrow> parea"
  PARTPOOLS :: "ptr \<Rightarrow> partpool"
  PARTITION_LIST :: "ptr list"
  PARTITION_COMPONENT :: "u32 option"
  PDATA :: "ptr \<Rightarrow> u8"

text \<open>Lightweight memory: block headers and pools. \<open>UWORD\<close> is the union of the header, the link of a free block or the
  task number (low half) and the memory type (high half) of one in use. \<open>LWDATA\<close> is the memory handed out.\<close>

record lwblock =
  BLOCKSIZE :: u32
  BPOOL :: ptr
  UWORD :: u32

record lwpool =
  LWPOOL_VALID :: u32
  POOL_ALLOC_START_PTR :: ptr
  POOL_ALLOC_END_PTR :: ptr
  POOL_FREE_LIST_PTR :: ptr
  POOL_ALLOC_PTR :: ptr
  POOL_FREE_PTR :: ptr
  POOL_TEST_PTR :: ptr
  POOL_TEST2_PTR :: ptr
  POOL_DESTROY_PTR :: ptr
  HIGHWATER :: ptr

record lwmem =
  LWBLOCKS :: "ptr \<Rightarrow> lwblock"
  LWPOOLS :: "ptr \<Rightarrow> lwpool"
  LWMEM_POOLS :: "ptr list option"
  KERNEL_LWMEM_POOL :: ptr
  LWDATA :: "ptr \<Rightarrow> u8"

text \<open>Names: an entry and a block of a name table; \<^verbatim>\<open>NUMBER_IN_BLOCK\<close> is the length of \<open>NAMES\<close>.\<close>

record name_struct =
  NAME_NUMBER :: u32
  NAME :: string

record name_block =
  MAX_NUMBER :: u32
  TOTAL_NUMBER :: u32
  GROW_NUMBER :: u32
  NM_NUMBER :: u32
  NM_VALID :: u32
  NAMES :: "name_struct list"

text \<open>A log: \<open>LOG_DATA\<close> is its data area, an array of words; the pointers into it are indices, \<^verbatim>\<open>LOG_START\<close> is 0 and
  \<^verbatim>\<open>LOG_END\<close> is \<^verbatim>\<open>MAX\<close>.\<close>

record log_header =
  LOG_FLAGS :: u32
  LOG_NUMBER :: u32
  LOG_WRITE :: nat
  LOG_READ :: nat
  LAST_LOG :: nat
  LOG_NEXT :: "nat option"
  LOG_SIZE :: nat
  LOG_MAX :: nat
  LOG_DATA :: "nat \<Rightarrow> u32"

text \<open>A lightweight log: its entries are an array and the pointers are indices into it. The entries carry time stamps in
  ticks.\<close>

record lwlog_entry =
  SEQUENCE_NUMBER :: u32
  TIMESTAMP :: psp_tick
  ENTRY_DATA :: "u32 list"
  NEXT_PTR :: nat

record lwlog_header =
  LWLOG_FLAGS :: u32
  LWLOG_NUMBER :: u32
  CURRENT_ENTRIES :: u32
  MAX_ENTRIES :: u32
  READS :: u32
  LWLOG_TYPE :: u32
  WRITE_PTR :: nat
  READ_PTR :: nat
  OLDEST_PTR :: nat
  ENTRIES :: "nat \<Rightarrow> lwlog_entry"

text \<open>Objects in memory by their address, and the kernel's lists of the ones it knows. \<open>LWTIMERS\<close> is \<open>None\<close> until the
  first periodic queue is created; \<open>LWTIMER_CALLS\<close> records the calls of timer functions with their
  parameters, oldest first. The options named \<open>KERNEL_\<close> are the \<^verbatim>\<open>VALID\<close> fields of components that exist.\<close>

record objects =
  LWEVENTS :: "addr \<Rightarrow> lwevent"
  LWEVENT_LIST :: "addr list"
  LWMSGQS :: "addr \<Rightarrow> lwmsgq"
  LWMSGQ_LIST :: "addr list"
  MUTEXES :: "addr \<Rightarrow> mutex"
  MUTEX_LIST :: "addr list"
  KERNEL_MUTEXES :: "u32 option"
  LWTIMER_STRUCTS :: "addr \<Rightarrow> lwtimer"
  LWTIMER_PERIODS :: "addr \<Rightarrow> lwtimer_period"
  LWTIMERS :: "addr list option"
  LWTIMER_CALLS :: "(addr \<times> addr) list"
  COMPONENT_CREATE_LWSEM :: addr
  PART :: partitions
  LWMEM :: lwmem
  TIME_OFFSET :: psp_tick
  NAME_TABLES :: "addr \<Rightarrow> name_block list"
  KERNEL_NAME_MANAGEMENT :: addr
  KERNEL_LOG :: "u32 option"
  LOGS :: "nat \<Rightarrow> log_header option"
  KERNEL_LWLOG :: "u32 option"
  LWLOGS :: "nat \<Rightarrow> lwlog_header option"

record kernel = clock +
  TDS :: "addr \<Rightarrow> td"
  TD_LIST :: "addr list"
  READY_Q :: "nat \<Rightarrow> addr list"
  LOWEST_TASK_PRIORITY :: nat
  CURRENT_READY_Q :: nat
  ACTIVE_PTR :: addr
  TIMEOUT_QUEUE :: "addr list"
  TD_QUEUES :: "addr \<Rightarrow> addr list"
  AUX_QUEUES :: "addr \<Rightarrow> addr list"
  TIME :: psp_tick
  IN_ISR :: nat
  INTERRUPT_CONTEXT :: "u32 list"
  STUCK :: bool
  QUICK :: quick_statics
  SCHED_TIME_SLICE :: psp_tick
  SCHED_POLICY :: u32
  SYSTEM_TD :: addr
  LWSEMS :: "addr \<Rightarrow> lwsem"
  LWSEM_LIST :: "addr list"
  TASK_QUEUES :: "addr \<Rightarrow> task_queue"
  KERNEL_TASK_QUEUES :: "addr list"
  OBJ :: objects

text \<open>\<^verbatim>\<open>_psp_init_readyqs\<close> allocates three queues more than the lowest priority (idle and init task).\<close>

definition priority_levels :: "kernel \<Rightarrow> nat" where
  "priority_levels k = LOWEST_TASK_PRIORITY k + 3"

definition upd_td :: "addr \<Rightarrow> (td \<Rightarrow> td) \<Rightarrow> kernel \<Rightarrow> kernel" where
  "upd_td t f k = k\<lparr>TDS := (TDS k)(t := f (TDS k t))\<rparr>"

definition active_td :: "kernel \<Rightarrow> td" where
  "active_td k = TDS k (ACTIVE_PTR k)"

subsection \<open>Macros of mqx_prv.h\<close>

text \<open>\<^verbatim>\<open>_INT_DISABLE\<close> and \<^verbatim>\<open>_INT_ENABLE\<close> count on the active task; the mask register they write when the
  count leaves or reaches zero is not part of the state.\<close>

definition INT_DISABLE :: "kernel \<Rightarrow> kernel" where
  "INT_DISABLE k = upd_td (ACTIVE_PTR k) (\<lambda>d. d\<lparr>DISABLED_LEVEL := DISABLED_LEVEL d + 1\<rparr>) k"

definition INT_ENABLE :: "kernel \<Rightarrow> kernel" where
  "INT_ENABLE k = upd_td (ACTIVE_PTR k)
     (\<lambda>d. if DISABLED_LEVEL d \<noteq> 0 then d\<lparr>DISABLED_LEVEL := DISABLED_LEVEL d - 1\<rparr> else d) k"

text \<open>\<^verbatim>\<open>_QUEUE_UNLINK(td)\<close> without a change of a queue's size is used on ready queues only, which keep no
  size: it takes the task out of the ready queue that holds it.\<close>

definition UNLINK_READY :: "addr \<Rightarrow> kernel \<Rightarrow> kernel" where
  "UNLINK_READY t k = k\<lparr>READY_Q := (\<lambda>p. removeAll t (READY_Q k p))\<rparr>"

definition TASK_READY :: "addr \<Rightarrow> kernel \<Rightarrow> kernel" where
  "TASK_READY t k =
     (let q = MY_QUEUE (TDS k t);
          k1 = (if q < CURRENT_READY_Q k then k\<lparr>CURRENT_READY_Q := q\<rparr> else k);
          k2 = upd_td t (\<lambda>d. d\<lparr>STATE := READY, CURRENT_TIME_SLICE := zero_tick_struct\<rparr>) k1
      in k2\<lparr>READY_Q := (READY_Q k2)(q := READY_Q k2 q @ [t])\<rparr>)"

definition TIME_DEQUEUE :: "addr \<Rightarrow> kernel \<Rightarrow> kernel" where
  "TIME_DEQUEUE t k =
     (if STATE (TDS k t) AND IS_ON_TIMEOUT_Q \<noteq> 0
      then upd_td t (\<lambda>d. d\<lparr>STATE := (STATE d AND NOT IS_ON_TIMEOUT_Q) OR BLOCKED\<rparr>)
             (k\<lparr>TIMEOUT_QUEUE := removeAll t (TIMEOUT_QUEUE k)\<rparr>)
      else k)"

text \<open>\<^verbatim>\<open>_QUEUE_ENQUEUE\<close> and \<^verbatim>\<open>_QUEUE_REMOVE\<close> on the two kinds of wait queues.\<close>

definition AUX_ENQUEUE :: "addr \<Rightarrow> addr \<Rightarrow> kernel \<Rightarrow> kernel" where
  "AUX_ENQUEUE q t k = k\<lparr>AUX_QUEUES := (AUX_QUEUES k)(q := AUX_QUEUES k q @ [t])\<rparr>"

definition AUX_REMOVE :: "addr \<Rightarrow> addr \<Rightarrow> kernel \<Rightarrow> kernel" where
  "AUX_REMOVE q t k = k\<lparr>AUX_QUEUES := (AUX_QUEUES k)(q := removeAll t (AUX_QUEUES k q))\<rparr>"

definition TDQ_SET :: "addr \<Rightarrow> addr list \<Rightarrow> kernel \<Rightarrow> kernel" where
  "TDQ_SET q xs k = k\<lparr>TD_QUEUES := (TD_QUEUES k)(q := xs)\<rparr>"

subsection \<open>Dispatcher\<close>

text \<open>\<^verbatim>\<open>find_noempty_que\<close> walks \<^verbatim>\<open>NEXT_Q\<close> from \<^verbatim>\<open>CURRENT_READY_Q\<close>; \<^verbatim>\<open>switch_task\<close> makes the head of the first
  non-empty queue the active task. If there is none the code loops forever (\<open>STUCK\<close>).\<close>

definition find_noempty_que :: "kernel \<Rightarrow> nat option" where
  "find_noempty_que k = List.find (\<lambda>p. READY_Q k p \<noteq> []) [CURRENT_READY_Q k ..< priority_levels k]"

definition switch_task :: "kernel \<Rightarrow> kernel" where
  "switch_task k =
     (case find_noempty_que k of
        None \<Rightarrow> k\<lparr>STUCK := True\<rparr>
      | Some p \<Rightarrow> k\<lparr>CURRENT_READY_Q := p, ACTIVE_PTR := hd (READY_Q k p)\<rparr>)"

definition sched_execute_scheduler :: "kernel \<Rightarrow> (kernel, unit) prog" where
  "sched_execute_scheduler k =
     (let k' = switch_task k
      in if ACTIVE_PTR k' = ACTIVE_PTR k \<and> \<not> STUCK k' then Done () k' else Susp k' (Done ()))"

definition sched_check_scheduler :: "kernel \<Rightarrow> (kernel, unit) prog" where
  "sched_check_scheduler k =
     (if IN_ISR k \<noteq> 0 then Done () k
      else if CURRENT_READY_Q k = MY_QUEUE (active_td k) then Done () k
      else sched_execute_scheduler k)"

text \<open>\<^verbatim>\<open>_task_block\<close>: mark, take off the ready queue, switch.\<close>

definition task_block :: "kernel \<Rightarrow> (kernel, unit) prog" where
  "task_block k =
     (let t = ACTIVE_PTR k
      in sched_execute_scheduler (UNLINK_READY t (upd_td t (\<lambda>d. d\<lparr>STATE := STATE d OR IS_BLOCKED\<rparr>) k)))"

text \<open>Entry and exit of \<^verbatim>\<open>_int_kernel_isr\<close>: on the way out of the outermost interrupt the dispatcher runs if
  another task heads the current ready queue, unless the active task disabled preemption. The
  interrupted task is switched out wherever it was. \<open>INTERRUPT_CONTEXT\<close> is the chain of the nested
  interrupts' contexts, of which only the error code is kept.\<close>

definition isr_enter :: "kernel \<Rightarrow> kernel" where
  "isr_enter k = k\<lparr>IN_ISR := IN_ISR k + 1, INTERRUPT_CONTEXT := 0 # INTERRUPT_CONTEXT k\<rparr>"

definition isr_exit :: "kernel \<Rightarrow> kernel" where
  "isr_exit k =
     (let k1 = k\<lparr>IN_ISR := IN_ISR k - 1, INTERRUPT_CONTEXT := tl (INTERRUPT_CONTEXT k)\<rparr>
      in if FLAGS (active_td k1) AND TASK_PREEMPTION_DISABLED \<noteq> 0 then k1
         else if IN_ISR k1 \<noteq> 0 then k1
         else if READY_Q k1 (CURRENT_READY_Q k1) \<noteq> [] \<and> hd (READY_Q k1 (CURRENT_READY_Q k1)) = ACTIVE_PTR k1
         then k1 else switch_task k1)"

subsection \<open>The kernel invariant\<close>

text \<open>
  The bits of a task's state tell exactly which queues hold it, each queue holds it once, the timeout
  queue is sorted by expiry, and no ready task is above \<^verbatim>\<open>CURRENT_READY_Q\<close>. \<open>placed k t\<close> is the part
  about one task; \<open>floating t k\<close> says that everything holds except that \<open>t\<close> is in no queue, as it is
  in the middle of a function that moves it.
\<close>

definition shape :: "kernel \<Rightarrow> bool" where
  "shape k \<longleftrightarrow> CURRENT_READY_Q k < priority_levels k \<and> (\<forall>p < CURRENT_READY_Q k. READY_Q k p = []) \<and>
     (\<forall>p. distinct (READY_Q k p)) \<and> distinct (TIMEOUT_QUEUE k) \<and>
     (\<forall>q. distinct (TD_QUEUES k q)) \<and> (\<forall>q. distinct (AUX_QUEUES k q)) \<and>
     sorted (map (\<lambda>t. TICKS (TIMEOUT (TDS k t))) (TIMEOUT_QUEUE k))"

definition placed :: "kernel \<Rightarrow> addr \<Rightarrow> bool" where
  "placed k t \<longleftrightarrow>
     (\<forall>p. t \<in> set (READY_Q k p) \<longleftrightarrow> t \<in> set (TD_LIST k) \<and> STATE (TDS k t) = READY \<and> MY_QUEUE (TDS k t) = p) \<and>
     (t \<in> set (TIMEOUT_QUEUE k) \<longleftrightarrow> t \<in> set (TD_LIST k) \<and> STATE (TDS k t) AND IS_ON_TIMEOUT_Q \<noteq> 0) \<and>
     (\<forall>q. t \<in> set (AUX_QUEUES k q) \<longleftrightarrow>
        t \<in> set (TD_LIST k) \<and> STATE (TDS k t) AND TD_IS_ON_AUX_QUEUE \<noteq> 0 \<and> INFO (TDS k t) = q) \<and>
     (\<forall>q. t \<in> set (TD_QUEUES k q) \<longleftrightarrow>
        t \<in> set (TD_LIST k) \<and> STATE (TDS k t) AND TD_IS_ON_QUEUE \<noteq> 0 \<and> INFO (TDS k t) = q) \<and>
     (STATE (TDS k t) AND TD_IS_ON_QUEUE \<noteq> 0 \<longrightarrow>
        STATE (TDS k t) AND IS_ON_TIMEOUT_Q = 0 \<and> STATE (TDS k t) AND TD_IS_ON_AUX_QUEUE = 0) \<and>
     (t \<in> set (TD_LIST k) \<longrightarrow> MY_QUEUE (TDS k t) < priority_levels k)"

definition kinv :: "kernel \<Rightarrow> bool" where
  "kinv k \<longleftrightarrow> shape k \<and> (\<forall>t. placed k t)"

definition nowhere :: "addr \<Rightarrow> kernel \<Rightarrow> bool" where
  "nowhere t k \<longleftrightarrow> (\<forall>p. t \<notin> set (READY_Q k p)) \<and> t \<notin> set (TIMEOUT_QUEUE k) \<and>
     (\<forall>q. t \<notin> set (AUX_QUEUES k q)) \<and> (\<forall>q. t \<notin> set (TD_QUEUES k q))"

definition floating :: "addr \<Rightarrow> kernel \<Rightarrow> bool" where
  "floating t k \<longleftrightarrow> shape k \<and> (\<forall>t'. t' \<noteq> t \<longrightarrow> placed k t') \<and> nowhere t k \<and> t \<in> set (TD_LIST k) \<and>
     MY_QUEUE (TDS k t) < priority_levels k"

subsection \<open>Field rules\<close>

lemma no_low_bits:
  fixes x :: u32
  assumes "x AND 3 = 0"
  shows "x AND 1 = 0" "x AND 2 = 0"
proof -
  have "x AND 1 = (x AND 3) AND 1" "x AND 2 = (x AND 3) AND 2" by (simp_all add: and.assoc)
  then show "x AND 1 = 0" "x AND 2 = 0" unfolding assms by simp_all
qed

lemma upd_td_simps [simp]:
  "TDS (upd_td t f k) = (TDS k)(t := f (TDS k t))" "TD_LIST (upd_td t f k) = TD_LIST k"
  "READY_Q (upd_td t f k) = READY_Q k" "CURRENT_READY_Q (upd_td t f k) = CURRENT_READY_Q k"
  "ACTIVE_PTR (upd_td t f k) = ACTIVE_PTR k" "TIMEOUT_QUEUE (upd_td t f k) = TIMEOUT_QUEUE k"
  "TD_QUEUES (upd_td t f k) = TD_QUEUES k" "AUX_QUEUES (upd_td t f k) = AUX_QUEUES k"
  "TIME (upd_td t f k) = TIME k" "IN_ISR (upd_td t f k) = IN_ISR k" "STUCK (upd_td t f k) = STUCK k"
  "LWSEMS (upd_td t f k) = LWSEMS k" "LWSEM_LIST (upd_td t f k) = LWSEM_LIST k"
  "OBJ (upd_td t f k) = OBJ k" "TASK_QUEUES (upd_td t f k) = TASK_QUEUES k" "KERNEL_TASK_QUEUES (upd_td t f k) = KERNEL_TASK_QUEUES k"
  "LOWEST_TASK_PRIORITY (upd_td t f k) = LOWEST_TASK_PRIORITY k"
  by (simp_all add: upd_td_def)

lemma upd_td_id: "f (TDS k t) = TDS k t \<Longrightarrow> upd_td t f k = k"
  by (simp add: upd_td_def)

lemma priority_levels_cong [simp]:
  "priority_levels (upd_td t f k) = priority_levels k"
  "priority_levels (k\<lparr>READY_Q := r\<rparr>) = priority_levels k"
  "priority_levels (k\<lparr>CURRENT_READY_Q := c\<rparr>) = priority_levels k"
  "priority_levels (k\<lparr>ACTIVE_PTR := a\<rparr>) = priority_levels k"
  "priority_levels (k\<lparr>TIMEOUT_QUEUE := l\<rparr>) = priority_levels k"
  "priority_levels (k\<lparr>AUX_QUEUES := x\<rparr>) = priority_levels k"
  "priority_levels (k\<lparr>TD_QUEUES := x\<rparr>) = priority_levels k"
  "priority_levels (k\<lparr>IN_ISR := i\<rparr>) = priority_levels k"
  "priority_levels (k\<lparr>INTERRUPT_CONTEXT := e\<rparr>) = priority_levels k"
  "priority_levels (k\<lparr>LWSEMS := ls\<rparr>) = priority_levels k"
  "priority_levels (k\<lparr>LWSEM_LIST := ll\<rparr>) = priority_levels k"
  "priority_levels (k\<lparr>TASK_QUEUES := tq\<rparr>) = priority_levels k"
  "priority_levels (k\<lparr>KERNEL_TASK_QUEUES := ktq\<rparr>) = priority_levels k"
  "priority_levels (k\<lparr>OBJ := ob\<rparr>) = priority_levels k"
  "priority_levels (k\<lparr>TIME := tm\<rparr>) = priority_levels k"
  "priority_levels (k\<lparr>STUCK := b\<rparr>) = priority_levels k"
  "priority_levels (k\<lparr>QUICK := qs\<rparr>) = priority_levels k"
  "priority_levels (k\<lparr>SCHED_TIME_SLICE := sl\<rparr>) = priority_levels k"
  "priority_levels (k\<lparr>SCHED_POLICY := pol\<rparr>) = priority_levels k"
  by (simp_all add: priority_levels_def)

text \<open>Updates the invariant does not see: object fields, times, interrupt state.\<close>

definition same_queues :: "kernel \<Rightarrow> kernel \<Rightarrow> bool" where
  "same_queues k k' \<longleftrightarrow> TD_LIST k' = TD_LIST k \<and> READY_Q k' = READY_Q k \<and>
     CURRENT_READY_Q k' = CURRENT_READY_Q k \<and> LOWEST_TASK_PRIORITY k' = LOWEST_TASK_PRIORITY k \<and>
     TIMEOUT_QUEUE k' = TIMEOUT_QUEUE k \<and> AUX_QUEUES k' = AUX_QUEUES k \<and> TD_QUEUES k' = TD_QUEUES k \<and>
     (\<forall>t. STATE (TDS k' t) = STATE (TDS k t) \<and> INFO (TDS k' t) = INFO (TDS k t) \<and>
          MY_QUEUE (TDS k' t) = MY_QUEUE (TDS k t) \<and> TIMEOUT (TDS k' t) = TIMEOUT (TDS k t))"

lemma kinv_same: "same_queues k k' \<Longrightarrow> kinv k' = kinv k"
  by (simp add: same_queues_def kinv_def shape_def placed_def priority_levels_def)

lemma floating_same: "same_queues k k' \<Longrightarrow> floating t k' = floating t k"
  by (simp add: same_queues_def floating_def shape_def placed_def nowhere_def priority_levels_def)

lemma same_INT [simp]: "same_queues k (INT_DISABLE k)" "same_queues k (INT_ENABLE k)"
  by (simp_all add: same_queues_def INT_DISABLE_def INT_ENABLE_def)

lemma kinv_INT [simp]: "kinv (INT_DISABLE k) = kinv k" "kinv (INT_ENABLE k) = kinv k"
  by (simp_all add: kinv_same)

subsection \<open>Moving a task\<close>

lemma expiry_upd [simp]:
  "t \<notin> set xs \<Longrightarrow> map (\<lambda>x. TICKS (TIMEOUT (if x = t then a else h x))) xs = map (\<lambda>x. TICKS (TIMEOUT (h x))) xs"
  by simp

lemma expiry_keep [simp]:
  "TIMEOUT a = TIMEOUT (h t) \<Longrightarrow>
   map (\<lambda>x. TICKS (TIMEOUT (if x = t then a else h x))) xs = map (\<lambda>x. TICKS (TIMEOUT (h x))) xs"
  by simp

lemma sorted_removeAll: "sorted (map f xs) \<Longrightarrow> sorted (map f (removeAll t xs))"
  using sorted_filter [of f xs "\<lambda>x. t \<noteq> x"] by (simp add: removeAll_filter_not_eq)

lemma shape_upd: "t \<notin> set (TIMEOUT_QUEUE k) \<Longrightarrow> shape (upd_td t f k) = shape k"
  by (simp add: shape_def)

lemma placed_upd_other: "t' \<noteq> t \<Longrightarrow> placed (upd_td t f k) t' = placed k t'"
  by (simp add: placed_def)

lemma floating_upd:
  "MY_QUEUE (f (TDS k t)) < priority_levels k \<Longrightarrow> floating t k \<Longrightarrow> floating t (upd_td t f k)"
  by (simp add: floating_def shape_upd placed_upd_other nowhere_def)

lemma kinv_upd_floating: "kinv k \<Longrightarrow> nowhere t k \<Longrightarrow> t \<in> set (TD_LIST k) \<Longrightarrow> floating t k"
  by (simp add: kinv_def floating_def placed_def)

lemma ready_not_waiting: "kinv k \<Longrightarrow> STATE (TDS k t) = READY \<Longrightarrow> t \<notin> set (AUX_QUEUES k q)"
  by (simp add: kinv_def placed_def)

lemma UNLINK_READY_floating:
  assumes "kinv k" and "t \<in> set (TD_LIST k)" and "STATE (TDS k t) = READY"
  shows "floating t (UNLINK_READY t k)"
  using assms
  by (auto simp: floating_def kinv_def UNLINK_READY_def shape_def placed_def nowhere_def distinct_removeAll)

lemma TASK_READY_simps [simp]:
  "TDS (TASK_READY t k) = (TDS k)(t := (TDS k t)\<lparr>STATE := READY, CURRENT_TIME_SLICE := zero_tick_struct\<rparr>)"
  "READY_Q (TASK_READY t k) = (READY_Q k)(MY_QUEUE (TDS k t) := READY_Q k (MY_QUEUE (TDS k t)) @ [t])"
  "CURRENT_READY_Q (TASK_READY t k) = min (MY_QUEUE (TDS k t)) (CURRENT_READY_Q k)"
  "TD_LIST (TASK_READY t k) = TD_LIST k" "ACTIVE_PTR (TASK_READY t k) = ACTIVE_PTR k"
  "TIMEOUT_QUEUE (TASK_READY t k) = TIMEOUT_QUEUE k" "TD_QUEUES (TASK_READY t k) = TD_QUEUES k"
  "AUX_QUEUES (TASK_READY t k) = AUX_QUEUES k" "TIME (TASK_READY t k) = TIME k"
  "IN_ISR (TASK_READY t k) = IN_ISR k" "STUCK (TASK_READY t k) = STUCK k"
  "LWSEMS (TASK_READY t k) = LWSEMS k" "LWSEM_LIST (TASK_READY t k) = LWSEM_LIST k"
  "OBJ (TASK_READY t k) = OBJ k" "TASK_QUEUES (TASK_READY t k) = TASK_QUEUES k" "KERNEL_TASK_QUEUES (TASK_READY t k) = KERNEL_TASK_QUEUES k"
  "priority_levels (TASK_READY t k) = priority_levels k"
  by (simp_all add: TASK_READY_def Let_def)

lemma TASK_READY_kinv:
  assumes "floating t k"
  shows "kinv (TASK_READY t k)"
proof -
  have "shape (TASK_READY t k)"
    using assms by (auto simp: floating_def shape_def nowhere_def)
  moreover have "placed (TASK_READY t k) t'" for t'
    using assms by (cases "t' = t") (auto simp: floating_def placed_def nowhere_def)
  ultimately show ?thesis by (simp add: kinv_def)
qed

lemma AUX_ENQUEUE_kinv:
  assumes "floating t k" and "STATE (TDS k t) = s" "s \<noteq> READY" "s AND IS_ON_TIMEOUT_Q = 0"
    and "s AND TD_IS_ON_AUX_QUEUE \<noteq> 0" "s AND TD_IS_ON_QUEUE = 0" and "INFO (TDS k t) = q"
  shows "kinv (AUX_ENQUEUE q t k)"
  using assms
  by (auto simp: floating_def kinv_def AUX_ENQUEUE_def shape_def placed_def nowhere_def)

lemma AUX_wake_floating:
  assumes "kinv k" and "t \<in> set (AUX_QUEUES k q)"
  shows "floating t (TIME_DEQUEUE t (AUX_REMOVE q t k))"
  using assms
  by (auto simp: floating_def kinv_def AUX_REMOVE_def TIME_DEQUEUE_def shape_def placed_def nowhere_def
      distinct_removeAll sorted_removeAll)


subsection \<open>The dispatcher\<close>

lemma find_noempty_que_Some:
  assumes "shape k" and "READY_Q k p \<noteq> []" and "p < priority_levels k"
  obtains r where "find_noempty_que k = Some r" and "READY_Q k r \<noteq> []" and "\<And>q. q < r \<Longrightarrow> READY_Q k q = []"
    and "r < priority_levels k"
proof -
  have "CURRENT_READY_Q k \<le> p" using assms by (auto simp: shape_def not_less [symmetric])
  then have "find_noempty_que k \<noteq> None"
    using assms by (auto simp: find_noempty_que_def find_None_iff)
  then obtain r where r: "find_noempty_que k = Some r" by blast
  then obtain i where i: "i < priority_levels k - CURRENT_READY_Q k" "r = [CURRENT_READY_Q k ..< priority_levels k] ! i"
    "READY_Q k r \<noteq> []" "\<forall>j<i. READY_Q k ([CURRENT_READY_Q k ..< priority_levels k] ! j) = []"
    by (auto simp: find_noempty_que_def find_Some_iff)
  then have r_eq: "r = CURRENT_READY_Q k + i" by simp
  have "READY_Q k q = []" if "q < r" for q
  proof (cases "q < CURRENT_READY_Q k")
    case True
    then show ?thesis using assms(1) by (simp add: shape_def)
  next
    case False
    with that i r_eq show ?thesis by (elim allE [of _ "q - CURRENT_READY_Q k"]) simp
  qed
  then show thesis using that r i r_eq by simp
qed

definition ready_tasks :: "kernel \<Rightarrow> addr set" where
  "ready_tasks k = {t \<in> set (TD_LIST k). STATE (TDS k t) = READY}"

lemma switch_task_frame [simp]:
  "TDS (switch_task k) = TDS k" "TD_LIST (switch_task k) = TD_LIST k" "READY_Q (switch_task k) = READY_Q k"
  "TIMEOUT_QUEUE (switch_task k) = TIMEOUT_QUEUE k" "TD_QUEUES (switch_task k) = TD_QUEUES k"
  "AUX_QUEUES (switch_task k) = AUX_QUEUES k" "TIME (switch_task k) = TIME k" "IN_ISR (switch_task k) = IN_ISR k"
  "LWSEMS (switch_task k) = LWSEMS k" "LWSEM_LIST (switch_task k) = LWSEM_LIST k"
  "OBJ (switch_task k) = OBJ k" "TASK_QUEUES (switch_task k) = TASK_QUEUES k" "KERNEL_TASK_QUEUES (switch_task k) = KERNEL_TASK_QUEUES k"
  "priority_levels (switch_task k) = priority_levels k" "ready_tasks (switch_task k) = ready_tasks k"
  by (simp_all add: switch_task_def priority_levels_def ready_tasks_def split: option.splits)

text \<open>What the scheduler guarantees: the active task is ready and no ready task has a better priority.\<close>

definition top_active :: "kernel \<Rightarrow> bool" where
  "top_active k \<longleftrightarrow> ACTIVE_PTR k \<in> ready_tasks k \<and> CURRENT_READY_Q k = MY_QUEUE (active_td k) \<and> \<not> STUCK k"

lemma top_active_best:
  "kinv k \<Longrightarrow> top_active k \<Longrightarrow> t \<in> ready_tasks k \<Longrightarrow> MY_QUEUE (active_td k) \<le> MY_QUEUE (TDS k t)"
proof (rule ccontr)
  assume k: "kinv k" and a: "top_active k" and t: "t \<in> ready_tasks k"
    and "\<not> MY_QUEUE (active_td k) \<le> MY_QUEUE (TDS k t)"
  then have "MY_QUEUE (TDS k t) < CURRENT_READY_Q k" by (simp add: top_active_def)
  then have "READY_Q k (MY_QUEUE (TDS k t)) = []" using k by (simp add: kinv_def shape_def)
  moreover have "placed k t" using k by (simp add: kinv_def)
  then have "t \<in> set (READY_Q k (MY_QUEUE (TDS k t)))" using t by (simp add: placed_def ready_tasks_def)
  ultimately show False by simp
qed

lemma switch_task_top:
  assumes k: "kinv k" and r: "ready_tasks k \<noteq> {}" and "\<not> STUCK k"
  shows "kinv (switch_task k)" "top_active (switch_task k)"
    "ACTIVE_PTR (switch_task k) = hd (READY_Q k (CURRENT_READY_Q (switch_task k)))"
proof -
  from r obtain t where t: "t \<in> ready_tasks k" by blast
  have p: "placed k x" for x using k by (simp add: kinv_def)
  have "t \<in> set (READY_Q k (MY_QUEUE (TDS k t)))" "MY_QUEUE (TDS k t) < priority_levels k"
    using t p [of t] by (auto simp: placed_def ready_tasks_def)
  then have ne: "READY_Q k (MY_QUEUE (TDS k t)) \<noteq> []" "MY_QUEUE (TDS k t) < priority_levels k" by auto
  have "shape k" using k by (simp add: kinv_def)
  then obtain q where q: "find_noempty_que k = Some q" "READY_Q k q \<noteq> []" "\<And>x. x < q \<Longrightarrow> READY_Q k x = []"
    "q < priority_levels k" using ne by (rule find_noempty_que_Some) auto
  have s: "switch_task k = k\<lparr>CURRENT_READY_Q := q, ACTIVE_PTR := hd (READY_Q k q)\<rparr>"
    using q by (simp add: switch_task_def)
  show "kinv (switch_task k)" using k q unfolding s by (simp add: kinv_def shape_def placed_def)
  have "hd (READY_Q k q) \<in> set (READY_Q k q)" using q by simp
  then show "top_active (switch_task k)" using p [of "hd (READY_Q k q)"] assms(3) unfolding s
    by (simp add: top_active_def ready_tasks_def active_td_def placed_def)
  show "ACTIVE_PTR (switch_task k) = hd (READY_Q k (CURRENT_READY_Q (switch_task k)))" unfolding s by simp
qed

subsection \<open>Running states\<close>

text \<open>
  The states between kernel functions, outside interrupts: the invariant holds, the active task is a
  best ready task, and the idle task, which never blocks, is ready.
\<close>

definition running :: "addr \<Rightarrow> kernel \<Rightarrow> bool" where
  "running idle k \<longleftrightarrow> kinv k \<and> top_active k \<and> IN_ISR k = 0 \<and> idle \<in> ready_tasks k"

definition resumes :: "addr \<Rightarrow> kernel \<Rightarrow> bool" where
  "resumes t k \<longleftrightarrow> ACTIVE_PTR k = t"

text \<open>In the middle of a function a better task may have become ready before the dispatcher is asked.\<close>

definition unsettled :: "addr \<Rightarrow> kernel \<Rightarrow> bool" where
  "unsettled idle k \<longleftrightarrow>
     kinv k \<and> ACTIVE_PTR k \<in> ready_tasks k \<and> \<not> STUCK k \<and> IN_ISR k = 0 \<and> idle \<in> ready_tasks k"

lemma running_unsettled: "running idle k \<Longrightarrow> unsettled idle k"
  by (simp add: running_def unsettled_def top_active_def)

lemma switch_running:
  assumes "kinv k" "idle \<in> ready_tasks k" "\<not> STUCK k" "IN_ISR k = 0"
  shows "running idle (switch_task k)"
proof -
  have r: "ready_tasks k \<noteq> {}" using assms by auto
  show ?thesis using switch_task_top [OF assms(1) r assms(3)] assms by (simp add: running_def)
qed

lemma execute_keeps:
  assumes "kinv k" "idle \<in> ready_tasks k" "\<not> STUCK k" "IN_ISR k = 0"
  shows "keeps (running idle) (running idle) R (sched_execute_scheduler k)"
  using switch_running [OF assms] by (simp add: sched_execute_scheduler_def Let_def)

lemma execute_suspends:
  assumes "kinv k" "idle \<in> ready_tasks k" "\<not> STUCK k" "ACTIVE_PTR k \<notin> ready_tasks k"
  shows "sched_execute_scheduler k = Susp (switch_task k) (Done ())"
proof -
  have "ready_tasks k \<noteq> {}" using assms by auto
  from switch_task_top(2) [OF assms(1) this assms(3)] have "ACTIVE_PTR (switch_task k) \<in> ready_tasks k"
    by (simp add: top_active_def)
  with assms(4) show ?thesis by (auto simp: sched_execute_scheduler_def Let_def)
qed

lemma check_keeps:
  assumes "unsettled idle k"
  shows "keeps (running idle) (running idle) R (sched_check_scheduler k)"
proof (cases "CURRENT_READY_Q k = MY_QUEUE (active_td k)")
  case True
  then show ?thesis using assms
    by (simp add: sched_check_scheduler_def running_def top_active_def unsettled_def)
next
  case False
  then show ?thesis using execute_keeps [of k idle R] assms by (simp add: sched_check_scheduler_def unsettled_def)
qed

lemma check_state [simp]:
  "TDS (state_of (andthen (sched_check_scheduler k) (\<lambda>_. Done r))) = TDS k"
  "TD_LIST (state_of (andthen (sched_check_scheduler k) (\<lambda>_. Done r))) = TD_LIST k"
  "AUX_QUEUES (state_of (andthen (sched_check_scheduler k) (\<lambda>_. Done r))) = AUX_QUEUES k"
  "TD_QUEUES (state_of (andthen (sched_check_scheduler k) (\<lambda>_. Done r))) = TD_QUEUES k"
  "TIMEOUT_QUEUE (state_of (andthen (sched_check_scheduler k) (\<lambda>_. Done r))) = TIMEOUT_QUEUE k"
  "OBJ (state_of (andthen (sched_check_scheduler k) (\<lambda>_. Done r))) = OBJ k"
  "ready_tasks (state_of (andthen (sched_check_scheduler k) (\<lambda>_. Done r))) = ready_tasks k"
  by (simp_all add: sched_check_scheduler_def sched_execute_scheduler_def Let_def)

lemma ready_tasks_INT [simp]: "ready_tasks (INT_DISABLE k) = ready_tasks k" "ready_tasks (INT_ENABLE k) = ready_tasks k"
  by (auto simp: ready_tasks_def INT_DISABLE_def INT_ENABLE_def)

lemma INT_simps [simp]:
  "ACTIVE_PTR (INT_DISABLE k) = ACTIVE_PTR k" "ACTIVE_PTR (INT_ENABLE k) = ACTIVE_PTR k"
  "IN_ISR (INT_DISABLE k) = IN_ISR k" "IN_ISR (INT_ENABLE k) = IN_ISR k"
  "STUCK (INT_DISABLE k) = STUCK k" "STUCK (INT_ENABLE k) = STUCK k"
  "LWSEMS (INT_DISABLE k) = LWSEMS k" "LWSEMS (INT_ENABLE k) = LWSEMS k"
  "LWSEM_LIST (INT_DISABLE k) = LWSEM_LIST k" "LWSEM_LIST (INT_ENABLE k) = LWSEM_LIST k"
  "OBJ (INT_DISABLE k) = OBJ k" "OBJ (INT_ENABLE k) = OBJ k"
  "TASK_QUEUES (INT_DISABLE k) = TASK_QUEUES k" "TASK_QUEUES (INT_ENABLE k) = TASK_QUEUES k"
  "KERNEL_TASK_QUEUES (INT_DISABLE k) = KERNEL_TASK_QUEUES k" "KERNEL_TASK_QUEUES (INT_ENABLE k) = KERNEL_TASK_QUEUES k"
  "TD_LIST (INT_DISABLE k) = TD_LIST k" "TD_LIST (INT_ENABLE k) = TD_LIST k"
  "READY_Q (INT_DISABLE k) = READY_Q k" "READY_Q (INT_ENABLE k) = READY_Q k"
  "CURRENT_READY_Q (INT_DISABLE k) = CURRENT_READY_Q k" "CURRENT_READY_Q (INT_ENABLE k) = CURRENT_READY_Q k"
  "TIMEOUT_QUEUE (INT_DISABLE k) = TIMEOUT_QUEUE k" "TIMEOUT_QUEUE (INT_ENABLE k) = TIMEOUT_QUEUE k"
  "TD_QUEUES (INT_DISABLE k) = TD_QUEUES k" "TD_QUEUES (INT_ENABLE k) = TD_QUEUES k"
  "AUX_QUEUES (INT_DISABLE k) = AUX_QUEUES k" "AUX_QUEUES (INT_ENABLE k) = AUX_QUEUES k"
  "TIME (INT_DISABLE k) = TIME k" "TIME (INT_ENABLE k) = TIME k"
  "priority_levels (INT_DISABLE k) = priority_levels k" "priority_levels (INT_ENABLE k) = priority_levels k"
  by (simp_all add: INT_DISABLE_def INT_ENABLE_def)

lemma INT_td [simp]:
  "STATE (TDS (INT_DISABLE k) t) = STATE (TDS k t)" "STATE (TDS (INT_ENABLE k) t) = STATE (TDS k t)"
  "INFO (TDS (INT_DISABLE k) t) = INFO (TDS k t)" "INFO (TDS (INT_ENABLE k) t) = INFO (TDS k t)"
  "MY_QUEUE (TDS (INT_DISABLE k) t) = MY_QUEUE (TDS k t)" "MY_QUEUE (TDS (INT_ENABLE k) t) = MY_QUEUE (TDS k t)"
  "HOME_QUEUE (TDS (INT_DISABLE k) t) = HOME_QUEUE (TDS k t)" "HOME_QUEUE (TDS (INT_ENABLE k) t) = HOME_QUEUE (TDS k t)"
  "TIMEOUT (TDS (INT_DISABLE k) t) = TIMEOUT (TDS k t)" "TIMEOUT (TDS (INT_ENABLE k) t) = TIMEOUT (TDS k t)"
  "FLAGS (TDS (INT_DISABLE k) t) = FLAGS (TDS k t)" "FLAGS (TDS (INT_ENABLE k) t) = FLAGS (TDS k t)"
  "BOOSTED (TDS (INT_DISABLE k) t) = BOOSTED (TDS k t)" "BOOSTED (TDS (INT_ENABLE k) t) = BOOSTED (TDS k t)"
  "LWEVENT_BITS (TDS (INT_DISABLE k) t) = LWEVENT_BITS (TDS k t)" "LWEVENT_BITS (TDS (INT_ENABLE k) t) = LWEVENT_BITS (TDS k t)"
  by (simp_all add: INT_DISABLE_def INT_ENABLE_def)

lemma running_INT [simp]: "running idle (INT_DISABLE k) = running idle k" "running idle (INT_ENABLE k) = running idle k"
  by (simp_all add: running_def top_active_def active_td_def)

lemma unsettled_INT [simp]:
  "unsettled idle (INT_DISABLE k) = unsettled idle k" "unsettled idle (INT_ENABLE k) = unsettled idle k"
  by (simp_all add: unsettled_def)

text \<open>A change of one task's fields that leaves its place alone.\<close>

lemma same_upd:
  "(\<And>d. STATE (f d) = STATE d \<and> INFO (f d) = INFO d \<and> MY_QUEUE (f d) = MY_QUEUE d \<and> TIMEOUT (f d) = TIMEOUT d) \<Longrightarrow>
   same_queues k (upd_td t f k)"
  by (simp add: same_queues_def)

lemma running_same:
  assumes "same_queues k k'" "ACTIVE_PTR k' = ACTIVE_PTR k" "IN_ISR k' = IN_ISR k" "STUCK k' = STUCK k"
  shows "running idle k' = running idle k" "unsettled idle k' = unsettled idle k" "ready_tasks k' = ready_tasks k"
proof -
  show r: "ready_tasks k' = ready_tasks k" using assms(1) by (simp add: ready_tasks_def same_queues_def)
  show "running idle k' = running idle k"
    using assms kinv_same [OF assms(1)] r
    by (simp add: running_def top_active_def active_td_def same_queues_def)
  show "unsettled idle k' = unsettled idle k"
    using assms kinv_same [OF assms(1)] r by (simp add: unsettled_def)
qed

lemma running_OBJ [simp]:
  "running idle (k\<lparr>OBJ := ob\<rparr>) = running idle k" "unsettled idle (k\<lparr>OBJ := ob\<rparr>) = unsettled idle k"
  "ready_tasks (k\<lparr>OBJ := ob\<rparr>) = ready_tasks k" "kinv (k\<lparr>OBJ := ob\<rparr>) = kinv k"
proof -
  have s: "same_queues k (k\<lparr>OBJ := ob\<rparr>)" by (simp add: same_queues_def)
  show "running idle (k\<lparr>OBJ := ob\<rparr>) = running idle k" "unsettled idle (k\<lparr>OBJ := ob\<rparr>) = unsettled idle k"
    "ready_tasks (k\<lparr>OBJ := ob\<rparr>) = ready_tasks k"
    by (rule running_same [OF s]; simp)+
  show "kinv (k\<lparr>OBJ := ob\<rparr>) = kinv k" by (rule kinv_same [OF s])
qed

lemma UNLINK_READY_simps [simp]:
  "TDS (UNLINK_READY t k) = TDS k" "TD_LIST (UNLINK_READY t k) = TD_LIST k"
  "ACTIVE_PTR (UNLINK_READY t k) = ACTIVE_PTR k" "IN_ISR (UNLINK_READY t k) = IN_ISR k"
  "STUCK (UNLINK_READY t k) = STUCK k" "ready_tasks (UNLINK_READY t k) = ready_tasks k"
  "CURRENT_READY_Q (UNLINK_READY t k) = CURRENT_READY_Q k" "TIMEOUT_QUEUE (UNLINK_READY t k) = TIMEOUT_QUEUE k"
  "AUX_QUEUES (UNLINK_READY t k) = AUX_QUEUES k" "TD_QUEUES (UNLINK_READY t k) = TD_QUEUES k"
  "LWSEMS (UNLINK_READY t k) = LWSEMS k" "LWSEM_LIST (UNLINK_READY t k) = LWSEM_LIST k"
  "OBJ (UNLINK_READY t k) = OBJ k" "TASK_QUEUES (UNLINK_READY t k) = TASK_QUEUES k" "KERNEL_TASK_QUEUES (UNLINK_READY t k) = KERNEL_TASK_QUEUES k"
  "TIME (UNLINK_READY t k) = TIME k" "priority_levels (UNLINK_READY t k) = priority_levels k"
  by (simp_all add: UNLINK_READY_def ready_tasks_def)

lemma UNLINK_READY_upd: "UNLINK_READY t (upd_td t f k) = upd_td t f (UNLINK_READY t k)"
  by (simp add: UNLINK_READY_def upd_td_def)

lemma ready_tasks_TASK_READY: "t \<in> set (TD_LIST k) \<Longrightarrow> ready_tasks (TASK_READY t k) = insert t (ready_tasks k)"
  by (auto simp: ready_tasks_def)

lemma ready_tasks_upd: "ready_tasks (upd_td t f k) - {t} = ready_tasks k - {t}"
  by (auto simp: ready_tasks_def)

text \<open>A task that is taken off its ready queue, changed and made ready again.\<close>

lemma requeue_kinv:
  assumes "kinv k" "t \<in> ready_tasks k" "MY_QUEUE (f (TDS k t)) < priority_levels k"
  shows "kinv (TASK_READY t (UNLINK_READY t (upd_td t f k)))"
  using assms UNLINK_READY_floating [of k t]
  by (auto simp: UNLINK_READY_upd ready_tasks_def intro!: TASK_READY_kinv floating_upd)

subsection \<open>Blocking and waking\<close>

lemma AUX_simps [simp]:
  "TDS (AUX_ENQUEUE q t k) = TDS k" "TD_LIST (AUX_ENQUEUE q t k) = TD_LIST k"
  "ACTIVE_PTR (AUX_ENQUEUE q t k) = ACTIVE_PTR k" "IN_ISR (AUX_ENQUEUE q t k) = IN_ISR k"
  "STUCK (AUX_ENQUEUE q t k) = STUCK k" "ready_tasks (AUX_ENQUEUE q t k) = ready_tasks k"
  "LWSEMS (AUX_ENQUEUE q t k) = LWSEMS k" "LWSEM_LIST (AUX_ENQUEUE q t k) = LWSEM_LIST k" "OBJ (AUX_ENQUEUE q t k) = OBJ k"
  "AUX_QUEUES (AUX_ENQUEUE q t k) = (AUX_QUEUES k)(q := AUX_QUEUES k q @ [t])"
  "TIMEOUT_QUEUE (AUX_ENQUEUE q t k) = TIMEOUT_QUEUE k" "TIME (AUX_ENQUEUE q t k) = TIME k"
  "READY_Q (AUX_ENQUEUE q t k) = READY_Q k" "priority_levels (AUX_ENQUEUE q t k) = priority_levels k"
  "TDS (AUX_REMOVE q t k) = TDS k" "TD_LIST (AUX_REMOVE q t k) = TD_LIST k"
  "ACTIVE_PTR (AUX_REMOVE q t k) = ACTIVE_PTR k" "IN_ISR (AUX_REMOVE q t k) = IN_ISR k"
  "STUCK (AUX_REMOVE q t k) = STUCK k" "ready_tasks (AUX_REMOVE q t k) = ready_tasks k"
  "LWSEMS (AUX_REMOVE q t k) = LWSEMS k" "LWSEM_LIST (AUX_REMOVE q t k) = LWSEM_LIST k" "OBJ (AUX_REMOVE q t k) = OBJ k"
  "AUX_QUEUES (AUX_REMOVE q t k) = (AUX_QUEUES k)(q := removeAll t (AUX_QUEUES k q))"
  "TIMEOUT_QUEUE (AUX_REMOVE q t k) = TIMEOUT_QUEUE k" "TIME (AUX_REMOVE q t k) = TIME k"
  by (simp_all add: AUX_ENQUEUE_def AUX_REMOVE_def ready_tasks_def)

lemma TIME_DEQUEUE_simps [simp]:
  "TD_LIST (TIME_DEQUEUE t k) = TD_LIST k" "ACTIVE_PTR (TIME_DEQUEUE t k) = ACTIVE_PTR k"
  "IN_ISR (TIME_DEQUEUE t k) = IN_ISR k" "STUCK (TIME_DEQUEUE t k) = STUCK k"
  "LWSEMS (TIME_DEQUEUE t k) = LWSEMS k" "LWSEM_LIST (TIME_DEQUEUE t k) = LWSEM_LIST k" "OBJ (TIME_DEQUEUE t k) = OBJ k"
  "AUX_QUEUES (TIME_DEQUEUE t k) = AUX_QUEUES k" "TD_QUEUES (TIME_DEQUEUE t k) = TD_QUEUES k"
  "READY_Q (TIME_DEQUEUE t k) = READY_Q k" "TIME (TIME_DEQUEUE t k) = TIME k"
  "t' \<noteq> t \<Longrightarrow> TDS (TIME_DEQUEUE t k) t' = TDS k t'" "MY_QUEUE (TDS (TIME_DEQUEUE t k) t') = MY_QUEUE (TDS k t')"
  "INFO (TDS (TIME_DEQUEUE t k) t') = INFO (TDS k t')"
  by (simp_all add: TIME_DEQUEUE_def)

text \<open>The active task blocks on an auxiliary queue: the common start of the waiting functions.\<close>

definition aux_block :: "u32 \<Rightarrow> addr \<Rightarrow> addr \<Rightarrow> kernel \<Rightarrow> kernel" where
  "aux_block s q t k = AUX_ENQUEUE q t (UNLINK_READY t (upd_td t (\<lambda>d. d\<lparr>STATE := s, INFO := q\<rparr>) k))"

lemma ready_tasks_frame:
  assumes "unsettled idle k" "t \<noteq> idle" "TD_LIST k' = TD_LIST k" "\<And>x. x \<noteq> t \<Longrightarrow> TDS k' x = TDS k x"
  shows "idle \<in> ready_tasks k'"
  using assms by (simp add: unsettled_def ready_tasks_def)

lemma aux_block_floating:
  assumes "kinv k" "t \<in> ready_tasks k"
  shows "floating t (UNLINK_READY t (upd_td t (\<lambda>d. d\<lparr>STATE := s, INFO := q\<rparr>) k))"
  unfolding UNLINK_READY_upd
  using assms by (intro floating_upd UNLINK_READY_floating) (auto simp: ready_tasks_def kinv_def placed_def)

lemma aux_block_kinv:
  assumes "kinv k" "t \<in> ready_tasks k" "s \<noteq> READY" "s AND IS_ON_TIMEOUT_Q = 0"
    "s AND TD_IS_ON_AUX_QUEUE \<noteq> 0" "s AND TD_IS_ON_QUEUE = 0"
  shows "kinv (aux_block s q t k)"
  unfolding aux_block_def
  by (rule AUX_ENQUEUE_kinv [OF aux_block_floating [OF assms(1,2)], where s = s]) (use assms in simp_all)

lemma aux_block_keeps:
  assumes "running idle k" "ACTIVE_PTR k \<noteq> idle" "s \<noteq> READY" "s AND IS_ON_TIMEOUT_Q = 0"
    "s AND TD_IS_ON_AUX_QUEUE \<noteq> 0" "s AND TD_IS_ON_QUEUE = 0"
  shows "keeps (running idle) (running idle) R (sched_execute_scheduler (aux_block s q (ACTIVE_PTR k) k))"
proof (rule execute_keeps)
  show "kinv (aux_block s q (ACTIVE_PTR k) k)"
    using assms by (intro aux_block_kinv) (simp_all add: running_def top_active_def)
  show "idle \<in> ready_tasks (aux_block s q (ACTIVE_PTR k) k)"
    by (rule ready_tasks_frame [OF running_unsettled [OF assms(1)] assms(2)]) (simp_all add: aux_block_def)
qed (use assms in \<open>simp_all add: aux_block_def running_def top_active_def\<close>)

text \<open>The first waiter of an auxiliary queue is made ready: the common end of the posting functions. The
  function \<open>f\<close> is what the poster writes into the task descriptor.\<close>

definition aux_wake :: "addr \<Rightarrow> (td \<Rightarrow> td) \<Rightarrow> addr \<Rightarrow> kernel \<Rightarrow> kernel" where
  "aux_wake q f t k = TASK_READY t (upd_td t f (TIME_DEQUEUE t (AUX_REMOVE q t k)))"

lemma aux_wake_kinv:
  assumes "kinv k" "t \<in> set (AUX_QUEUES k q)" "\<And>d. MY_QUEUE (f d) = MY_QUEUE d"
  shows "kinv (aux_wake q f t k)"
  unfolding aux_wake_def using AUX_wake_floating [OF assms(1,2)] assms(3)
  by (intro TASK_READY_kinv floating_upd) (simp_all add: floating_def)

lemma aux_wake_frame [simp]:
  "TD_LIST (aux_wake q f t k) = TD_LIST k" "ACTIVE_PTR (aux_wake q f t k) = ACTIVE_PTR k"
  "IN_ISR (aux_wake q f t k) = IN_ISR k" "STUCK (aux_wake q f t k) = STUCK k"
  "LWSEMS (aux_wake q f t k) = LWSEMS k" "LWSEM_LIST (aux_wake q f t k) = LWSEM_LIST k" "OBJ (aux_wake q f t k) = OBJ k"
  "AUX_QUEUES (aux_wake q f t k) = (AUX_QUEUES k)(q := removeAll t (AUX_QUEUES k q))"
  "t' \<noteq> t \<Longrightarrow> TDS (aux_wake q f t k) t' = TDS k t'"
  by (simp_all add: aux_wake_def)

lemma aux_wake_ready:
  "kinv k \<Longrightarrow> t \<in> set (AUX_QUEUES k q) \<Longrightarrow> ready_tasks (aux_wake q f t k) = insert t (ready_tasks k)"
  by (auto simp: ready_tasks_def aux_wake_def kinv_def placed_def)

lemma aux_wake_unsettled:
  assumes "unsettled idle k" "t \<in> set (AUX_QUEUES k q)" "\<And>d. MY_QUEUE (f d) = MY_QUEUE d"
  shows "unsettled idle (aux_wake q f t k)"
  using assms aux_wake_kinv [OF _ assms(2), of f] aux_wake_ready [OF _ assms(2), of f]
  by (simp add: unsettled_def)

text \<open>A task in its ready queue that is to leave it: the state is only unlinked later.\<close>

lemma UNLINK_READY_idem [simp]: "UNLINK_READY t (UNLINK_READY t k) = UNLINK_READY t k"
  by (simp add: UNLINK_READY_def)

lemma UNLINK_READY_commute:
  "UNLINK_READY t (AUX_ENQUEUE q t k) = AUX_ENQUEUE q t (UNLINK_READY t k)"
  "UNLINK_READY t (INT_DISABLE k) = INT_DISABLE (UNLINK_READY t k)"
  by (simp_all add: UNLINK_READY_def AUX_ENQUEUE_def INT_DISABLE_def upd_td_def)

text \<open>All waiters of a queue, from the first, when an object is destroyed.\<close>

fun wake_all :: "addr \<Rightarrow> addr list \<Rightarrow> kernel \<Rightarrow> kernel" where
  "wake_all q [] k = k"
| "wake_all q (t # ts) k = wake_all q ts (aux_wake q (\<lambda>d. d) t k)"

lemma wake_all_unsettled:
  "unsettled idle k \<Longrightarrow> AUX_QUEUES k q = ts \<Longrightarrow>
   unsettled idle (wake_all q ts k) \<and> AUX_QUEUES (wake_all q ts k) q = [] \<and>
   ready_tasks (wake_all q ts k) = ready_tasks k \<union> set ts"
proof (induction ts arbitrary: k)
  case Nil
  then show ?case by simp
next
  case (Cons t ts)
  have "distinct (t # ts)" using Cons.prems by (metis unsettled_def kinv_def shape_def)
  then have "AUX_QUEUES (aux_wake q (\<lambda>d. d) t k) q = ts" using Cons.prems by simp
  moreover have "unsettled idle (aux_wake q (\<lambda>d. d) t k)"
    using Cons.prems by (intro aux_wake_unsettled) simp_all
  moreover have "ready_tasks (aux_wake q (\<lambda>d. d) t k) = insert t (ready_tasks k)"
    using Cons.prems by (intro aux_wake_ready) (simp_all add: unsettled_def)
  ultimately show ?case using Cons.IH [of "aux_wake q (\<lambda>d. d) t k"] by auto
qed

subsection \<open>A small system\<close>

text \<open>Three tasks, for concrete instances: the idle task 100 at the lowest level, the active task 200 at
  priority 3, and task 300 at priority 2, which is delayed until tick 5; the time is tick 4.\<close>

definition mk_td :: "u32 \<Rightarrow> u32 \<Rightarrow> nat \<Rightarrow> td" where
  "mk_td i s q = \<lparr>TASK_ID = i, STATE = s, INFO = 0, FLAGS = 0, MY_QUEUE = q, HOME_QUEUE = q,
     TIMEOUT = \<lparr>TICKS = 5, HW_TICKS = 0\<rparr>, BOOSTED = 0, DISABLED_LEVEL = 0, TASK_ERROR_CODE = 0, LWEVENT_BITS = 0,
     TIME_SLICE = \<lparr>TICKS = 2, HW_TICKS = 0\<rparr>, CURRENT_TIME_SLICE = \<lparr>TICKS = 0, HW_TICKS = 0\<rparr>,
     WATCHDOG_TIME = \<lparr>TICKS = 0, HW_TICKS = 0\<rparr>\<rparr>"

definition demo :: kernel where
  "demo = \<lparr>TICKS_PER_SECOND = 200, HW_TICKS_PER_TICK = 1000,
     TDS = (\<lambda>t. if t = 200 then mk_td 2 READY 3 else if t = 300 then mk_td 3 0x102 2 else mk_td 1 READY 9),
     TD_LIST = [100, 200, 300], READY_Q = (\<lambda>p. if p = 3 then [200] else if p = 9 then [100] else []),
     LOWEST_TASK_PRIORITY = 7, CURRENT_READY_Q = 3, ACTIVE_PTR = 200, TIMEOUT_QUEUE = [300],
     TD_QUEUES = (\<lambda>_. []), AUX_QUEUES = (\<lambda>_. []), TIME = \<lparr>TICKS = 4, HW_TICKS = 0\<rparr>, IN_ISR = 0,
     INTERRUPT_CONTEXT = [], STUCK = False, QUICK = \<lparr>ms_per_tick = 5, heuristic = 1\<rparr>,
     SCHED_TIME_SLICE = \<lparr>TICKS = 2, HW_TICKS = 0\<rparr>, SCHED_POLICY = 1, SYSTEM_TD = 400,
     LWSEMS = (\<lambda>_. \<lparr>LWSEM_VALID_FIELD = 0x6C77736D, VALUE = 0\<rparr>), LWSEM_LIST = [],
     TASK_QUEUES = (\<lambda>_. \<lparr>TASKQ_VALID_FIELD = 0x74736b71, POLICY = 0\<rparr>), KERNEL_TASK_QUEUES = [],
     OBJ = \<lparr>LWEVENTS = (\<lambda>_. \<lparr>EV_VALID = 0x6C65766E, EV_VALUE = 0, EV_FLAGS = 0, EV_AUTO = 0\<rparr>), LWEVENT_LIST = [],
       LWMSGQS = (\<lambda>_. \<lparr>MSGQ_VALID = 0x6C776D73, MSG_SIZE = 1, MAX_SIZE = 2, CURRENT_SIZE = 0, MSG_WRITE_LOC = 0,
         MSG_READ_LOC = 0, MSG_END_LOC = 2, MSG_MEM = (\<lambda>_. 0)\<rparr>), LWMSGQ_LIST = [],
       MUTEXES = (\<lambda>_. \<lparr>MTX_VALID = 0x6d757478, PROTOCOLS = 4, PRIORITY_CEILING = 0, MTX_COUNT = 0, LOCK = 0,
         OWNER_TD = 0, MTX_BOOSTED = 0\<rparr>), MUTEX_LIST = [], KERNEL_MUTEXES = Some 0x6d757478,
       LWTIMER_STRUCTS = (\<lambda>_. \<lparr>TMR_VALID = 0, RELATIVE_TICKS = 0, TIMER_FUNCTION = 0, PARAMETER = 0, PERIOD_PTR = 0\<rparr>),
       LWTIMER_PERIODS = (\<lambda>_. \<lparr>PER_VALID = 0, PERIOD = 0, EXPIRY = 0, WAIT = 0, TIMERS = [], TIMER_PTR = None\<rparr>),
       LWTIMERS = None, LWTIMER_CALLS = [], COMPONENT_CREATE_LWSEM = 800,
       PART = \<lparr>PBLOCKS = (\<lambda>_. \<lparr>LINK = 0, CHECKSUM = 0, BLK_TASK_ID = 0\<rparr>),
         PAREAS = (\<lambda>_. \<lparr>NEXT_POOL_PTR = 0, AREA_VALID = 0, NUMBER_OF_BLOCKS = 0, FIRST_IBLOCK_PTR = 0\<rparr>),
         PARTPOOLS = (\<lambda>_. \<lparr>BLOCK_SIZE = 0, AVAILABLE = 0, FREE_LIST_PTR = 0, TOTAL_BLOCKS = 0, MAX_BLOCKS_USED = 0,
           GROW_BLOCKS = 0, MAXIMUM_BLOCKS = 0, PARTITION_TYPE = 0, TEST_FREE_PTR = 0\<rparr>),
         PARTITION_LIST = [], PARTITION_COMPONENT = Some 0x70617274, PDATA = (\<lambda>_. 0)\<rparr>,
       LWMEM = \<lparr>LWBLOCKS = (\<lambda>_. \<lparr>BLOCKSIZE = 0, BPOOL = 0, UWORD = 0\<rparr>),
         LWPOOLS = (\<lambda>_. \<lparr>LWPOOL_VALID = 0, POOL_ALLOC_START_PTR = 0, POOL_ALLOC_END_PTR = 0, POOL_FREE_LIST_PTR = 0,
           POOL_ALLOC_PTR = 0, POOL_FREE_PTR = 0, POOL_TEST_PTR = 0, POOL_TEST2_PTR = 0, POOL_DESTROY_PTR = 0, HIGHWATER = 0\<rparr>),
         LWMEM_POOLS = None, KERNEL_LWMEM_POOL = 0, LWDATA = (\<lambda>_. 0)\<rparr>,
       TIME_OFFSET = \<lparr>TICKS = 0, HW_TICKS = 0\<rparr>, NAME_TABLES = (\<lambda>_. []), KERNEL_NAME_MANAGEMENT = 0,
       KERNEL_LOG = None, LOGS = (\<lambda>_. None), KERNEL_LWLOG = None, LWLOGS = (\<lambda>_. None)\<rparr>\<rparr>"

lemma demo_kinv: "kinv demo"
proof -
  have "shape demo" by (simp add: shape_def demo_def priority_levels_def)
  moreover have "placed demo t" for t
    by (auto simp: placed_def demo_def mk_td_def priority_levels_def)
  ultimately show ?thesis by (simp add: kinv_def)
qed

lemma demo_running: "running 100 demo"
  by (simp add: running_def demo_kinv top_active_def ready_tasks_def active_td_def)
    (simp add: demo_def mk_td_def)

end
