(* ===== verification/Scheduler.thy ===== *)
theory Scheduler
  imports Kernel
begin

unbundle bit_operations_syntax

text \<open>
  The scheduler functions of \<^verbatim>\<open>kernel/sched.c\<close> and the task functions of \<^verbatim>\<open>kernel/task.c\<close> that change
  priorities, readiness and error codes. The interrupt mask values kept with a priority
  (\<^verbatim>\<open>TASK_SR\<close>, \<^verbatim>\<open>ACTIVE_SR\<close>, \<^verbatim>\<open>_task_sync_priority_internal\<close>) are hardware state and not modelled.
\<close>

abbreviation (input) MQX_SCHED_INVALID_POLICY :: u32 where "MQX_SCHED_INVALID_POLICY \<equiv> 0x27"
abbreviation (input) MQX_SCHED_INVALID_PARAMETER_PTR :: u32 where "MQX_SCHED_INVALID_PARAMETER_PTR \<equiv> 0x28"
abbreviation (input) MQX_SCHED_INVALID_TASK_ID :: u32 where "MQX_SCHED_INVALID_TASK_ID \<equiv> 0x2A"
abbreviation (input) MQX_SCHED_FIFO :: u32 where "MQX_SCHED_FIFO \<equiv> 1"
abbreviation (input) MQX_SCHED_RR :: u32 where "MQX_SCHED_RR \<equiv> 2"
abbreviation (input) MAX_UINT_32 :: u32 where "MAX_UINT_32 \<equiv> - 1"
abbreviation (input) MQX_DEFAULT_TASK_ID :: u32 where "MQX_DEFAULT_TASK_ID \<equiv> - 1"

subsection \<open>task.c: error codes and lookup\<close>

text \<open>In an interrupt the error code is the one of the innermost interrupt context.\<close>

definition current_error :: "kernel \<Rightarrow> u32" where
  "current_error k =
     (if IN_ISR k \<noteq> 0 then case INTERRUPT_CONTEXT k of [] \<Rightarrow> MQX_OK | c # cs \<Rightarrow> c
      else TASK_ERROR_CODE (active_td k))"

definition task_set_error :: "u32 \<Rightarrow> kernel \<Rightarrow> u32 \<times> kernel" where
  "task_set_error new_error_code k =
     (let old = current_error k
      in if new_error_code = MQX_OK \<or> old = MQX_OK
         then (old, if IN_ISR k \<noteq> 0 then k\<lparr>INTERRUPT_CONTEXT := new_error_code # tl (INTERRUPT_CONTEXT k)\<rparr>
                    else upd_td (ACTIVE_PTR k) (\<lambda>d. d\<lparr>TASK_ERROR_CODE := new_error_code\<rparr>) k)
         else (old, k))"

definition task_get_error :: "kernel \<Rightarrow> u32" where
  "task_get_error k = current_error k"

definition task_set_error_td :: "addr \<Rightarrow> u32 \<Rightarrow> kernel \<Rightarrow> u32 \<times> kernel" where
  "task_set_error_td t new_error_code k =
     (let old = TASK_ERROR_CODE (TDS k t)
      in (old, if new_error_code = MQX_OK \<or> old = MQX_OK
               then upd_td t (\<lambda>d. d\<lparr>TASK_ERROR_CODE := new_error_code\<rparr>) k else k))"

text \<open>\<^verbatim>\<open>_task_get_td\<close>: the search runs with interrupts disabled and enabled again, which leaves no trace.\<close>

definition task_get_td :: "u32 \<Rightarrow> kernel \<Rightarrow> addr" where
  "task_get_td task_id k =
     (if task_id = 0 then ACTIVE_PTR k
      else if task_id = TASK_ID (TDS k (SYSTEM_TD k)) then SYSTEM_TD k
      else case List.find (\<lambda>t. TASK_ID (TDS k t) = task_id) (TD_LIST k) of Some t \<Rightarrow> t | None \<Rightarrow> NULL)"

definition task_get_id :: "kernel \<Rightarrow> u32" where
  "task_get_id k = TASK_ID (active_td k)"

subsection \<open>sched.c: priorities\<close>

definition sched_get_max_priority :: "u32 \<Rightarrow> nat" where
  "sched_get_max_priority policy = 0"

definition sched_get_min_priority :: "u32 \<Rightarrow> kernel \<Rightarrow> nat" where
  "sched_get_min_priority policy k = LOWEST_TASK_PRIORITY k"

text \<open>\<^verbatim>\<open>_sched_insert_priorityq_internal\<close>: the loop stops at the first task of worse priority.\<close>

fun insert_priorityq :: "(addr \<Rightarrow> nat) \<Rightarrow> addr \<Rightarrow> addr list \<Rightarrow> addr list" where
  "insert_priorityq prio t [] = [t]"
| "insert_priorityq prio t (x # xs) = (if prio x > prio t then t # x # xs else x # insert_priorityq prio t xs)"

definition prio_of :: "kernel \<Rightarrow> addr \<Rightarrow> nat" where
  "prio_of k t = MY_QUEUE (TDS k t)"

definition sched_insert_priorityq :: "addr \<Rightarrow> addr \<Rightarrow> kernel \<Rightarrow> kernel" where
  "sched_insert_priorityq q t k = TDQ_SET q (insert_priorityq (prio_of k) t (TD_QUEUES k q)) k"

text \<open>\<^verbatim>\<open>_sched_get_max_priority_on_q_internal\<close>, \<^verbatim>\<open>MAX_MQX_UINT\<close> for an empty queue.\<close>

fun max_priority_loop :: "(addr \<Rightarrow> nat) \<Rightarrow> addr list \<Rightarrow> nat \<Rightarrow> nat" where
  "max_priority_loop prio [] priority = priority"
| "max_priority_loop prio (x # xs) priority =
     max_priority_loop prio xs (if prio x < priority then prio x else priority)"

definition sched_get_max_priority_on_q :: "addr \<Rightarrow> kernel \<Rightarrow> nat" where
  "sched_get_max_priority_on_q q k = max_priority_loop (prio_of k) (TD_QUEUES k q) 4294967295"

definition sched_set_priority :: "addr \<Rightarrow> nat \<Rightarrow> kernel \<Rightarrow> (kernel, unit) prog" where
  "sched_set_priority t new_priority k =
     (let old_priority = MY_QUEUE (TDS k t);
          k1 = upd_td t (\<lambda>d. d\<lparr>MY_QUEUE := new_priority\<rparr>) k
      in if STATE (TDS k1 t) = READY
         then let k2 = TASK_READY t (UNLINK_READY t k1)
              in if ACTIVE_PTR k2 = t \<and> new_priority > old_priority then sched_execute_scheduler k2
                 else Done () k2
         else Done () k1)"

definition sched_boost_priority :: "addr \<Rightarrow> nat \<Rightarrow> kernel \<Rightarrow> (kernel, unit) prog" where
  "sched_boost_priority t priority k =
     andthen (sched_set_priority t priority
        (upd_td t (\<lambda>d. d\<lparr>FLAGS := FLAGS d OR TASK_PRIORITY_BOOSTED, BOOSTED := BOOSTED d + 1\<rparr>) k))
       (\<lambda>_ k1. sched_check_scheduler k1)"

definition sched_unboost_priority :: "addr \<Rightarrow> u32 \<Rightarrow> kernel \<Rightarrow> (kernel, unit) prog" where
  "sched_unboost_priority t number_of_boosts k =
     (if FLAGS (TDS k t) AND TASK_PRIORITY_BOOSTED \<noteq> 0
      then if BOOSTED (TDS k t) > number_of_boosts
           then Done () (upd_td t (\<lambda>d. d\<lparr>BOOSTED := BOOSTED d - number_of_boosts\<rparr>) k)
           else let k1 = upd_td t (\<lambda>d. d\<lparr>BOOSTED := 0, FLAGS := FLAGS d AND NOT TASK_PRIORITY_BOOSTED\<rparr>) k
                in andthen (sched_set_priority t (HOME_QUEUE (TDS k1 t)) k1) (\<lambda>_ k2. sched_check_scheduler k2)
      else Done () k)"

definition sched_yield :: "kernel \<Rightarrow> (kernel, unit) prog" where
  "sched_yield k =
     (let t = ACTIVE_PTR k
      in andthen (sched_execute_scheduler (TASK_READY t (UNLINK_READY t (INT_DISABLE k))))
           (\<lambda>_ k1. Done () (INT_ENABLE k1)))"

subsection \<open>sched.c: policies and time slices\<close>

definition sched_set_policy :: "u32 \<Rightarrow> u32 \<Rightarrow> kernel \<Rightarrow> u32 \<times> kernel" where
  "sched_set_policy task_id policy k =
     (if \<not> (policy = MQX_SCHED_FIFO \<or> policy = MQX_SCHED_RR)
      then (MAX_UINT_32, snd (task_set_error MQX_SCHED_INVALID_POLICY k))
      else if task_id = MQX_DEFAULT_TASK_ID then (SCHED_POLICY k, k\<lparr>SCHED_POLICY := policy\<rparr>)
      else let t = task_get_td task_id k
           in if t = NULL then (MAX_UINT_32, snd (task_set_error MQX_SCHED_INVALID_TASK_ID k))
              else (if FLAGS (TDS k t) AND MQX_TIME_SLICE_TASK \<noteq> 0 then MQX_SCHED_RR else MQX_SCHED_FIFO,
                    upd_td t (\<lambda>d. d\<lparr>FLAGS := (if policy = MQX_SCHED_RR then FLAGS d OR MQX_TIME_SLICE_TASK
                                              else FLAGS d AND NOT MQX_TIME_SLICE_TASK)\<rparr>) k))"

text \<open>Functions with a result pointer return the code and the stored value, if any is stored.\<close>

definition sched_get_policy :: "u32 \<Rightarrow> kernel \<Rightarrow> u32 \<times> u32 option" where
  "sched_get_policy task_id k =
     (if task_id = MQX_DEFAULT_TASK_ID then (MQX_OK, Some (SCHED_POLICY k))
      else let t = task_get_td task_id k
           in if t = NULL then (MQX_SCHED_INVALID_TASK_ID, None)
              else (MQX_OK, Some (if FLAGS (TDS k t) AND MQX_TIME_SLICE_TASK \<noteq> 0 then MQX_SCHED_RR else MQX_SCHED_FIFO)))"

definition sched_get_rr_interval_ticks :: "u32 \<Rightarrow> kernel \<Rightarrow> (u32 \<times> psp_tick option) \<times> kernel" where
  "sched_get_rr_interval_ticks task_id k =
     (if task_id = MQX_DEFAULT_TASK_ID then ((MQX_OK, Some (SCHED_TIME_SLICE k)), k)
      else let t = task_get_td task_id k
           in if t = NULL then ((MQX_SCHED_INVALID_TASK_ID, None), snd (task_set_error MQX_SCHED_INVALID_TASK_ID k))
              else ((MQX_OK, Some (TIME_SLICE (TDS k t))), k))"

definition sched_get_rr_interval :: "u32 \<Rightarrow> kernel \<Rightarrow> (u32 \<times> u32) \<times> kernel" where
  "sched_get_rr_interval task_id k =
     (case sched_get_rr_interval_ticks task_id k of
        ((_, None), k1) \<Rightarrow> ((MAX_UINT_32, MAX_UINT_32), k1)
      | ((_, Some tick), k1) \<Rightarrow>
          let time = snd (psp_ticks_to_time k1 tick)
          in if SECONDS time \<ge> MAX_UINT_32 div 1000 then ((MAX_UINT_32, MAX_UINT_32), k1)
             else let slice = SECONDS time * 1000
                  in if slice \<ge> MAX_UINT_32 - MILLISECONDS time then ((MAX_UINT_32, MAX_UINT_32), k1)
                     else ((MQX_OK, slice + MILLISECONDS time), k1))"

definition sched_set_rr_interval_internal :: "u32 \<Rightarrow> psp_tick \<Rightarrow> kernel \<Rightarrow> (u32 \<times> psp_tick option) \<times> kernel" where
  "sched_set_rr_interval_internal task_id new k =
     (if task_id = MQX_DEFAULT_TASK_ID then ((MQX_OK, Some (SCHED_TIME_SLICE k)), k\<lparr>SCHED_TIME_SLICE := new\<rparr>)
      else let t = task_get_td task_id k
           in if t = NULL then ((MQX_SCHED_INVALID_TASK_ID, None), k)
              else ((MQX_OK, Some (TIME_SLICE (TDS k t))), upd_td t (\<lambda>d. d\<lparr>TIME_SLICE := new\<rparr>) k))"

definition sched_set_rr_interval_ticks :: "u32 \<Rightarrow> psp_tick \<Rightarrow> kernel \<Rightarrow> (u32 \<times> psp_tick option) \<times> kernel" where
  "sched_set_rr_interval_ticks task_id new k =
     (let ((result, old), k1) = sched_set_rr_interval_internal task_id new k
      in ((result, old), if result \<noteq> MQX_OK then snd (task_set_error result k1) else k1))"

definition sched_set_rr_interval :: "u32 \<Rightarrow> u32 \<Rightarrow> kernel \<Rightarrow> u32 \<times> kernel" where
  "sched_set_rr_interval task_id rr_interval k =
     (if rr_interval = 0 then (MAX_UINT_32, snd (task_set_error MQX_SCHED_INVALID_PARAMETER_PTR k))
      else let (ticks, q) = psp_msecs_to_ticks_quick k (QUICK k) (rr_interval - 1);
               ticks1 = PSP_ADD_TICKS_TO_TICK_STRUCT ticks 1 ticks
           in case sched_set_rr_interval_internal task_id ticks1 (k\<lparr>QUICK := q\<rparr>) of
                ((result, Some old), k1) \<Rightarrow> (fst (psp_ticks_to_milliseconds k1 old), k1)
              | ((result, None), k1) \<Rightarrow> (MAX_UINT_32, snd (task_set_error result k1)))"

subsection \<open>task.c: priority, readiness, preemption\<close>

definition task_get_priority :: "u32 \<Rightarrow> kernel \<Rightarrow> u32 \<times> nat option" where
  "task_get_priority task_id k =
     (let t = task_get_td task_id k
      in if t = NULL then (MQX_INVALID_TASK_ID, None) else (MQX_OK, Some (HOME_QUEUE (TDS k t))))"

text \<open>\<^verbatim>\<open>_task_set_priority\<close>. \<^verbatim>\<open>FIELD_OFFSET(TASK_QUEUE_STRUCT, TD_QUEUE)\<close> is 16.\<close>

abbreviation (input) MQX_TASK_QUEUE_BY_PRIORITY :: u32 where "MQX_TASK_QUEUE_BY_PRIORITY \<equiv> 0x08"

definition requeue_by_priority :: "addr \<Rightarrow> kernel \<Rightarrow> kernel" where
  "requeue_by_priority t k =
     (let q = INFO (TDS k t); tq = q - 16
      in if STATE (TDS k t) = TASK_QUEUE_BLOCKED \<and> POLICY (TASK_QUEUES k tq) AND MQX_TASK_QUEUE_BY_PRIORITY \<noteq> 0
         then sched_insert_priorityq q t (TDQ_SET q (removeAll t (TD_QUEUES k q)) k)
         else k)"

definition task_set_priority :: "u32 \<Rightarrow> nat \<Rightarrow> kernel \<Rightarrow> (kernel, u32 \<times> nat option) prog" where
  "task_set_priority task_id new_priority k =
     (if new_priority > LOWEST_TASK_PRIORITY k then Done (MQX_INVALID_PARAMETER, None) k
      else let t = task_get_td task_id k
           in if t = NULL then Done (MQX_INVALID_TASK_ID, None) k
              else let k1 = INT_DISABLE k;
                       old = HOME_QUEUE (TDS k1 t);
                       k2 = upd_td t (\<lambda>d. d\<lparr>HOME_QUEUE := new_priority\<rparr>) k1
                   in andthen (if BOOSTED (TDS k2 t) \<noteq> 0
                               then if new_priority < MY_QUEUE (TDS k2 t) then sched_set_priority t new_priority k2
                                    else Done () k2
                               else sched_set_priority t new_priority k2)
                        (\<lambda>_ k3. andthen (sched_check_scheduler (requeue_by_priority t k3))
                          (\<lambda>_ k4. Done (MQX_OK, Some old) (INT_ENABLE k4))))"

text \<open>\<^verbatim>\<open>_task_ready\<close>; the check of the processor number is always passed on one processor.\<close>

definition task_ready :: "addr \<Rightarrow> kernel \<Rightarrow> (kernel, unit) prog" where
  "task_ready t k =
     (if t = NULL then Done () (snd (task_set_error MQX_INVALID_TASK_ID k))
      else let k1 = INT_DISABLE k
           in if STATE (TDS k1 t) = READY
              then Done () (snd (task_set_error MQX_INVALID_TASK_STATE (INT_ENABLE k1)))
              else sched_check_scheduler (INT_ENABLE (TASK_READY t k1)))"

definition task_stop_preemption :: "kernel \<Rightarrow> kernel" where
  "task_stop_preemption k =
     INT_ENABLE (upd_td (ACTIVE_PTR k) (\<lambda>d. d\<lparr>FLAGS := FLAGS d OR TASK_PREEMPTION_DISABLED\<rparr>) (INT_DISABLE k))"

definition task_start_preemption :: "kernel \<Rightarrow> (kernel, unit) prog" where
  "task_start_preemption k =
     andthen (sched_check_scheduler
        (upd_td (ACTIVE_PTR k) (\<lambda>d. d\<lparr>FLAGS := FLAGS d AND NOT TASK_PREEMPTION_DISABLED\<rparr>) (INT_DISABLE k)))
       (\<lambda>_ k1. Done () (INT_ENABLE k1))"

subsection \<open>Priority queues\<close>

lemma insert_priorityq_set [simp]: "set (insert_priorityq prio t xs) = insert t (set xs)"
  by (induction xs) auto

lemma insert_priorityq_distinct [simp]: "distinct (insert_priorityq prio t xs) \<longleftrightarrow> t \<notin> set xs \<and> distinct xs"
  by (induction xs) auto

lemma insert_priorityq_eq:
  "sorted (map prio xs) \<Longrightarrow>
   insert_priorityq prio t xs = filter (\<lambda>x. prio x \<le> prio t) xs @ t # filter (\<lambda>x. prio x > prio t) xs"
proof (induction xs)
  case Nil
  show ?case by simp
next
  case (Cons x xs)
  show ?case
  proof (cases "prio x > prio t")
    case True
    then have "\<forall>y \<in> set xs. prio y > prio t" using Cons.prems by auto
    then have "filter (\<lambda>y. prio y \<le> prio t) xs = []" "filter (\<lambda>y. prio y > prio t) xs = xs"
      by (auto simp: filter_empty_conv not_le)
    then show ?thesis using True by simp
  next
    case False
    then show ?thesis using Cons by simp
  qed
qed

lemma insert_priorityq_sorted:
  "sorted (map prio xs) \<Longrightarrow> sorted (map prio (insert_priorityq prio t xs))"
  by (induction xs) (auto simp: less_imp_le)

lemma max_priority_loop_min: "max_priority_loop prio xs m = Min (insert m (prio ` set xs))"
proof (induction xs arbitrary: m)
  case Nil
  show ?case by simp
next
  case (Cons x xs)
  have "Min (insert m (prio ` set (x # xs))) = min (prio x) (Min (insert m (prio ` set xs)))"
    by (simp add: insert_commute [of m])
  moreover have "Min (insert (if prio x < m then prio x else m) (prio ` set xs)) = min (prio x) (Min (insert m (prio ` set xs)))"
    by (cases "set xs = {}") (auto simp: min_def)
  ultimately show ?case using Cons by simp
qed

text \<open>
  Fact. \<^verbatim>\<open>_sched_insert_priorityq_internal\<close> on a queue ordered by priority puts the task behind
  all tasks of the same or a better priority and before all others, keeps the order of the others
  and so the queue ordered: equal priorities are served first come, first served.
\<close>

theorem sched_insert_priorityq_stable:
  assumes "sorted (map (prio_of k) (TD_QUEUES k q))"
  shows "TD_QUEUES (sched_insert_priorityq q t k) q =
      filter (\<lambda>x. prio_of k x \<le> prio_of k t) (TD_QUEUES k q) @ t # filter (\<lambda>x. prio_of k x > prio_of k t) (TD_QUEUES k q)
    \<and> sorted (map (prio_of k) (TD_QUEUES (sched_insert_priorityq q t k) q))"
  using insert_priorityq_eq [OF assms, of t] insert_priorityq_sorted [OF assms, of t]
  by (simp add: sched_insert_priorityq_def TDQ_SET_def)

theorem sched_insert_priorityq_stable_witness:
  "TD_QUEUES (sched_insert_priorityq 64 200 (TDQ_SET 64 [300, 100] demo)) 64 = [300, 200, 100]"
proof -
  let ?k = "TDQ_SET 64 [300, 100] demo"
  have "TD_QUEUES ?k 64 = [300, 100]" "prio_of ?k 300 = 2" "prio_of ?k 200 = 3" "prio_of ?k 100 = 9"
    by (simp_all add: TDQ_SET_def prio_of_def demo_def mk_td_def)
  with sched_insert_priorityq_stable [of ?k 64 200] show ?thesis by simp
qed

subsection \<open>The scheduler functions keep running states\<close>

lemma task_set_error_same [simp]: "same_queues k (snd (task_set_error e k))"
  by (auto simp: task_set_error_def Let_def same_queues_def)

lemma task_set_error_frame [simp]:
  "ACTIVE_PTR (snd (task_set_error e k)) = ACTIVE_PTR k" "IN_ISR (snd (task_set_error e k)) = IN_ISR k"
  "STUCK (snd (task_set_error e k)) = STUCK k"
  by (simp_all add: task_set_error_def Let_def)

lemma running_task_set_error [simp]:
  "running idle (snd (task_set_error e k)) = running idle k"
  "unsettled idle (snd (task_set_error e k)) = unsettled idle k"
  by (simp_all add: running_same)

lemma sched_set_priority_keeps:
  assumes u: "unsettled idle k" and t: "t \<in> set (TD_LIST k)" and p: "new_priority < priority_levels k"
  shows "keeps (running idle) (unsettled idle) R (sched_set_priority t new_priority k)"
proof -
  let ?f = "\<lambda>d :: td. d\<lparr>MY_QUEUE := new_priority\<rparr>"
  have k: "kinv k" using u by (simp add: unsettled_def)
  show ?thesis
  proof (cases "STATE (TDS k t) = READY")
    case True
    let ?k2 = "TASK_READY t (UNLINK_READY t (upd_td t ?f k))"
    have "kinv ?k2" using True k t p by (intro requeue_kinv) (simp_all add: ready_tasks_def)
    moreover have "ready_tasks ?k2 = ready_tasks k"
      using True t by (auto simp: ready_tasks_TASK_READY ready_tasks_def)
    ultimately have u2: "unsettled idle ?k2" using u by (simp add: unsettled_def)
    then have "keeps (running idle) (unsettled idle) R (sched_execute_scheduler ?k2)"
      by (intro keeps_mono [OF execute_keeps]) (simp_all add: unsettled_def running_unsettled [unfolded unsettled_def])
    with u2 True show ?thesis by (simp add: sched_set_priority_def Let_def)
  next
    case False
    have "kinv (upd_td t ?f k)" using False k t p by (auto simp: kinv_def shape_def placed_def)
    moreover have "ready_tasks (upd_td t ?f k) = ready_tasks k" by (auto simp: ready_tasks_def)
    ultimately show ?thesis using False u by (simp add: sched_set_priority_def Let_def unsettled_def)
  qed
qed

lemma yield_requeue:
  assumes "running idle k"
  defines "k' \<equiv> TASK_READY (ACTIVE_PTR k) (UNLINK_READY (ACTIVE_PTR k) (INT_DISABLE k))"
  shows "kinv k'" "idle \<in> ready_tasks k'" "\<not> STUCK k'" "IN_ISR k' = 0"
proof -
  let ?t = "ACTIVE_PTR k" and ?k = "INT_DISABLE k"
  have a: "?t \<in> ready_tasks k" "kinv ?k" "\<not> STUCK k" "IN_ISR k = 0" "idle \<in> ready_tasks k"
    using assms(1) by (simp_all add: running_def top_active_def)
  then have "kinv (TASK_READY ?t (UNLINK_READY ?t (upd_td ?t (\<lambda>d. d) ?k)))"
    by (intro requeue_kinv) (auto simp: kinv_def placed_def ready_tasks_def)
  then show "kinv k'" by (simp add: upd_td_def k'_def)
  show "idle \<in> ready_tasks k'" unfolding k'_def using a by (subst ready_tasks_TASK_READY) (auto simp: ready_tasks_def)
  show "\<not> STUCK k'" "IN_ISR k' = 0" using a by (simp_all add: k'_def)
qed

lemma sched_yield_keeps: "running idle k \<Longrightarrow> keeps (running idle) (running idle) R (sched_yield k)"
  unfolding sched_yield_def Let_def by (rule keeps_andthen [OF execute_keeps [OF yield_requeue]]) simp_all

lemma running_upd:
  "(\<And>d. STATE (f d) = STATE d \<and> INFO (f d) = INFO d \<and> MY_QUEUE (f d) = MY_QUEUE d \<and> TIMEOUT (f d) = TIMEOUT d) \<Longrightarrow>
   running idle (upd_td t f k) = running idle k \<and> unsettled idle (upd_td t f k) = unsettled idle k"
  using running_same [of k "upd_td t f k"] same_upd [of f k t] by simp

lemma unsettled_check: "unsettled idle k \<Longrightarrow> keeps (running idle) (unsettled idle) R (sched_check_scheduler k)"
  by (rule keeps_mono [OF check_keeps]) (simp_all add: running_unsettled)

lemma sched_boost_priority_keeps:
  assumes "unsettled idle k" "t \<in> set (TD_LIST k)" "priority < priority_levels k"
  shows "keeps (running idle) (running idle) R (sched_boost_priority t priority k)"
  unfolding sched_boost_priority_def
  by (intro keeps_andthen [OF sched_set_priority_keeps] check_keeps)
    (use assms in \<open>simp_all add: running_upd running_unsettled\<close>)

lemma unboost_home_keeps:
  assumes "unsettled idle k" "t \<in> set (TD_LIST k)" "HOME_QUEUE (TDS k t) < priority_levels k"
  shows "keeps (running idle) (running idle) R
     (let k1 = upd_td t (\<lambda>d. d\<lparr>BOOSTED := 0, FLAGS := FLAGS d AND NOT TASK_PRIORITY_BOOSTED\<rparr>) k
      in andthen (sched_set_priority t (HOME_QUEUE (TDS k1 t)) k1) (\<lambda>_ k2. sched_check_scheduler k2))"
  unfolding Let_def
  by (intro keeps_andthen [OF sched_set_priority_keeps] check_keeps) (use assms in \<open>simp_all add: running_upd\<close>)

lemma sched_unboost_priority_keeps:
  assumes "running idle k" "t \<in> set (TD_LIST k)" "HOME_QUEUE (TDS k t) < priority_levels k"
  shows "keeps (running idle) (running idle) R (sched_unboost_priority t n k)"
  using unboost_home_keeps [OF running_unsettled] assms by (auto simp: sched_unboost_priority_def running_upd)

lemma sched_unboost_priority_unsettled:
  assumes "unsettled idle k" "t \<in> set (TD_LIST k)" "HOME_QUEUE (TDS k t) < priority_levels k"
  shows "keeps (running idle) (unsettled idle) R (sched_unboost_priority t n k)"
  using keeps_mono [OF unboost_home_keeps [OF assms], of "unsettled idle"] assms
  by (auto simp: sched_unboost_priority_def running_upd running_unsettled)

end
