(* ===== verification/Lwtimer.thy ===== *)
theory Lwtimer
  imports Scheduler
begin

unbundle bit_operations_syntax

text \<open>
  Lightweight timers (\<^verbatim>\<open>kernel/lwtimer.c\<close>): periodic queues of timers that the tick handler serves. The
  functions of the timers are application code: a call is recorded in \<open>LWTIMER_CALLS\<close> and is taken not to
  change the timers. Queues are lists, on which \<^verbatim>\<open>_queue_test\<close> finds no fault.
\<close>

abbreviation (input) LWTIMER_VALID :: u32 where "LWTIMER_VALID \<equiv> 0x6C777469"
abbreviation (input) MQX_LWTIMER_INVALID :: u32 where "MQX_LWTIMER_INVALID \<equiv> 0x40"

subsection \<open>Operations\<close>

definition upd_period :: "addr \<Rightarrow> (lwtimer_period \<Rightarrow> lwtimer_period) \<Rightarrow> objects \<Rightarrow> objects" where
  "upd_period p f ob = ob\<lparr>LWTIMER_PERIODS := (LWTIMER_PERIODS ob)(p := f (LWTIMER_PERIODS ob p))\<rparr>"

definition upd_timer :: "addr \<Rightarrow> (lwtimer \<Rightarrow> lwtimer) \<Rightarrow> objects \<Rightarrow> objects" where
  "upd_timer t f ob = ob\<lparr>LWTIMER_STRUCTS := (LWTIMER_STRUCTS ob)(t := f (LWTIMER_STRUCTS ob t))\<rparr>"

abbreviation ticks_of :: "objects \<Rightarrow> addr \<Rightarrow> u32" where
  "ticks_of ob t \<equiv> RELATIVE_TICKS (LWTIMER_STRUCTS ob t)"

definition lwtimer_create_periodic_queue :: "addr \<Rightarrow> u32 \<Rightarrow> u32 \<Rightarrow> kernel \<Rightarrow> u32 \<times> kernel" where
  "lwtimer_create_periodic_queue p period wait_ticks k =
     (let k1 = INT_DISABLE (k\<lparr>OBJ := upd_period p
            (\<lambda>r. r\<lparr>PERIOD := period, EXPIRY := 0, WAIT := wait_ticks, TIMERS := [], TIMER_PTR := None\<rparr>) (OBJ k)\<rparr>);
          queue = (case LWTIMERS (OBJ k1) of None \<Rightarrow> [] | Some ps \<Rightarrow> ps)
      in (MQX_OK, INT_ENABLE (k1\<lparr>OBJ := (upd_period p (\<lambda>r. r\<lparr>PER_VALID := LWTIMER_VALID\<rparr>) (OBJ k1))
            \<lparr>LWTIMERS := Some (queue @ [p])\<rparr>\<rparr>)))"

text \<open>The search stops before the first timer that is not earlier.\<close>

fun timer_insert :: "(addr \<Rightarrow> u32) \<Rightarrow> addr \<Rightarrow> u32 \<Rightarrow> addr list \<Rightarrow> addr list" where
  "timer_insert f t ticks [] = [t]"
| "timer_insert f t ticks (q # qs) = (if f q \<ge> ticks then t # q # qs else q # timer_insert f t ticks qs)"

definition lwtimer_add_timer_to_queue :: "addr \<Rightarrow> addr \<Rightarrow> u32 \<Rightarrow> addr \<Rightarrow> addr \<Rightarrow> kernel \<Rightarrow> u32 \<times> kernel" where
  "lwtimer_add_timer_to_queue p t ticks func parameter k =
     (let r = LWTIMER_PERIODS (OBJ k) p
      in if PER_VALID r \<noteq> LWTIMER_VALID then (MQX_LWTIMER_INVALID, k)
         else if ticks \<ge> PERIOD r then (MQX_INVALID_PARAMETER, k)
         else let ob = upd_timer t (\<lambda>d. d\<lparr>TIMER_FUNCTION := func, PARAMETER := parameter, PERIOD_PTR := p,
                         RELATIVE_TICKS := ticks\<rparr>) (OBJ k);
                  k1 = INT_DISABLE (k\<lparr>OBJ := ob\<rparr>);
                  ob1 = upd_timer t (\<lambda>d. d\<lparr>TMR_VALID := LWTIMER_VALID\<rparr>) (OBJ k1);
                  ob2 = upd_period p (\<lambda>r. r\<lparr>TIMERS := timer_insert (ticks_of ob1) t ticks (TIMERS r)\<rparr>) ob1
              in (MQX_OK, INT_ENABLE (k1\<lparr>OBJ := ob2\<rparr>)))"

text \<open>The elements after \<^verbatim>\<open>TIMER_PTR\<close>, and the element before one.\<close>

definition after_ptr :: "addr option \<Rightarrow> addr list \<Rightarrow> addr list" where
  "after_ptr q ts = (case q of None \<Rightarrow> ts | Some t \<Rightarrow> tl (dropWhile (\<lambda>x. x \<noteq> t) ts))"

definition prev_ptr :: "addr \<Rightarrow> addr list \<Rightarrow> addr option" where
  "prev_ptr t ts = (case takeWhile (\<lambda>x. x \<noteq> t) ts of [] \<Rightarrow> None | xs \<Rightarrow> Some (last xs))"

text \<open>The inner loop of the interrupt function over the timers that are due.\<close>

fun timer_loop :: "addr \<Rightarrow> addr list \<Rightarrow> objects \<Rightarrow> objects" where
  "timer_loop p [] ob = ob"
| "timer_loop p (t # ts) ob =
     (if ticks_of ob t > EXPIRY (LWTIMER_PERIODS ob p) then ob
      else let ob1 = upd_period p (\<lambda>r. r\<lparr>TIMER_PTR := Some t\<rparr>) ob;
               d = LWTIMER_STRUCTS ob1 t
           in timer_loop p ts (ob1\<lparr>LWTIMER_CALLS := LWTIMER_CALLS ob1 @ [(TIMER_FUNCTION d, PARAMETER d)]\<rparr>))"

definition period_step :: "addr \<Rightarrow> objects \<Rightarrow> objects" where
  "period_step p ob =
     (let r = LWTIMER_PERIODS ob p
      in if WAIT r \<noteq> 0 then upd_period p (\<lambda>r. r\<lparr>WAIT := WAIT r - 1\<rparr>) ob
         else let ob1 = timer_loop p (after_ptr (TIMER_PTR r) (TIMERS r)) ob;
                  ob2 = upd_period p (\<lambda>r. r\<lparr>EXPIRY := EXPIRY r + 1\<rparr>) ob1;
                  r2 = LWTIMER_PERIODS ob2 p
              in if EXPIRY r2 = PERIOD r2 then upd_period p (\<lambda>r. r\<lparr>EXPIRY := 0, TIMER_PTR := None\<rparr>) ob2 else ob2)"

text \<open>\<^verbatim>\<open>LWTIMER_ISR\<close> is installed together with the queue of periodic queues.\<close>

definition lwtimer_isr_internal :: "objects \<Rightarrow> objects" where
  "lwtimer_isr_internal ob = (case LWTIMERS ob of None \<Rightarrow> ob | Some ps \<Rightarrow> fold period_step ps ob)"

definition lwtimer_cancel_timer :: "addr \<Rightarrow> kernel \<Rightarrow> u32 \<times> kernel" where
  "lwtimer_cancel_timer t k =
     (let d = LWTIMER_STRUCTS (OBJ k) t
      in if TMR_VALID d \<noteq> LWTIMER_VALID then (MQX_LWTIMER_INVALID, k)
         else let p = PERIOD_PTR d; k1 = INT_DISABLE k
              in if PER_VALID (LWTIMER_PERIODS (OBJ k1) p) \<noteq> LWTIMER_VALID then (MQX_LWTIMER_INVALID, INT_ENABLE k1)
                 else let ob = upd_timer t (\<lambda>d. d\<lparr>TMR_VALID := 0\<rparr>) (OBJ k1);
                          ob1 = upd_period p (\<lambda>r. if TIMER_PTR r = Some t then r\<lparr>TIMER_PTR := prev_ptr t (TIMERS r)\<rparr> else r) ob;
                          ob2 = upd_period p (\<lambda>r. r\<lparr>TIMERS := remove1 t (TIMERS r)\<rparr>) ob1
                      in (MQX_OK, INT_ENABLE (k1\<lparr>OBJ := ob2\<rparr>)))"

definition lwtimer_cancel_period :: "addr \<Rightarrow> kernel \<Rightarrow> u32 \<times> kernel" where
  "lwtimer_cancel_period p k =
     (if PER_VALID (LWTIMER_PERIODS (OBJ k) p) \<noteq> LWTIMER_VALID then (MQX_LWTIMER_INVALID, k)
      else let k1 = INT_DISABLE k;
               ob = upd_period p (\<lambda>r. r\<lparr>PER_VALID := 0\<rparr>) (OBJ k1)
           in (MQX_OK, INT_ENABLE (k1\<lparr>OBJ := ob\<lparr>LWTIMERS := map_option (remove1 p) (LWTIMERS ob)\<rparr>\<rparr>)))"

text \<open>\<^verbatim>\<open>_lwtimer_test\<close> returns the periodic queue and the timer in error. Of the two ways out of its loops only
  the first enables interrupts again.\<close>

fun lwtimer_test_loop :: "addr list \<Rightarrow> kernel \<Rightarrow> (u32 \<times> addr \<times> addr) \<times> kernel" where
  "lwtimer_test_loop [] k = ((MQX_OK, NULL, NULL), INT_ENABLE k)"
| "lwtimer_test_loop (p # ps) k =
     (if PER_VALID (LWTIMER_PERIODS (OBJ k) p) \<noteq> LWTIMER_VALID then ((MQX_LWTIMER_INVALID, p, NULL), INT_ENABLE k)
      else case List.find (\<lambda>t. TMR_VALID (LWTIMER_STRUCTS (OBJ k) t) \<noteq> LWTIMER_VALID) (TIMERS (LWTIMER_PERIODS (OBJ k) p)) of
             Some t \<Rightarrow> ((MQX_LWTIMER_INVALID, p, t), k)
           | None \<Rightarrow> lwtimer_test_loop ps k)"

definition lwtimer_test :: "kernel \<Rightarrow> (u32 \<times> addr \<times> addr) \<times> kernel" where
  "lwtimer_test k =
     (case LWTIMERS (OBJ k) of
        None \<Rightarrow> ((MQX_OK, NULL, NULL), k)
      | Some ps \<Rightarrow> lwtimer_test_loop ps (INT_DISABLE k))"

subsection \<open>The interrupt function in one step\<close>

abbreviation call_of :: "(addr \<Rightarrow> lwtimer) \<Rightarrow> addr \<Rightarrow> addr \<times> addr" where
  "call_of S t \<equiv> (TIMER_FUNCTION (S t), PARAMETER (S t))"

text \<open>The timers a periodic queue runs at a tick, and the queue after it.\<close>

definition period_due :: "(addr \<Rightarrow> lwtimer) \<Rightarrow> lwtimer_period \<Rightarrow> addr list" where
  "period_due S r = (if WAIT r \<noteq> 0 then []
     else takeWhile (\<lambda>t. RELATIVE_TICKS (S t) \<le> EXPIRY r) (after_ptr (TIMER_PTR r) (TIMERS r)))"

definition period_next :: "(addr \<Rightarrow> lwtimer) \<Rightarrow> lwtimer_period \<Rightarrow> lwtimer_period" where
  "period_next S r =
     (if WAIT r \<noteq> 0 then r\<lparr>WAIT := WAIT r - 1\<rparr>
      else if EXPIRY r + 1 = PERIOD r then r\<lparr>EXPIRY := 0, TIMER_PTR := None\<rparr>
      else r\<lparr>TIMER_PTR := (if period_due S r = [] then TIMER_PTR r else Some (last (period_due S r))),
             EXPIRY := EXPIRY r + 1\<rparr>)"

lemma timer_loop_eq:
  "timer_loop p ts ob =
     (let due = takeWhile (\<lambda>t. ticks_of ob t \<le> EXPIRY (LWTIMER_PERIODS ob p)) ts
      in (upd_period p (\<lambda>r. if due = [] then r else r\<lparr>TIMER_PTR := Some (last due)\<rparr>) ob)
         \<lparr>LWTIMER_CALLS := LWTIMER_CALLS ob @ map (call_of (LWTIMER_STRUCTS ob)) due\<rparr>)"
  by (induction p ts ob rule: timer_loop.induct) (auto simp: upd_period_def Let_def not_less fun_upd_idem)

lemma period_step_eq:
  "period_step p ob = ob\<lparr>
     LWTIMER_CALLS := LWTIMER_CALLS ob @ map (call_of (LWTIMER_STRUCTS ob)) (period_due (LWTIMER_STRUCTS ob) (LWTIMER_PERIODS ob p)),
     LWTIMER_PERIODS := (LWTIMER_PERIODS ob)(p := period_next (LWTIMER_STRUCTS ob) (LWTIMER_PERIODS ob p))\<rparr>"
  by (simp add: period_step_def timer_loop_eq Let_def period_next_def period_due_def upd_period_def)

lemma fold_period_step:
  assumes "distinct ps"
  shows "LWTIMER_PERIODS (fold period_step ps ob) q =
      (if q \<in> set ps then period_next (LWTIMER_STRUCTS ob) (LWTIMER_PERIODS ob q) else LWTIMER_PERIODS ob q)"
    and "LWTIMER_CALLS (fold period_step ps ob) = LWTIMER_CALLS ob @ concat (map (\<lambda>q. map (call_of (LWTIMER_STRUCTS ob))
      (period_due (LWTIMER_STRUCTS ob) (LWTIMER_PERIODS ob q))) ps)"
    and "LWTIMER_STRUCTS (fold period_step ps ob) = LWTIMER_STRUCTS ob" "LWTIMERS (fold period_step ps ob) = LWTIMERS ob"
  using assms
proof (induction ps arbitrary: ob)
  case (Cons p ps)
  have s: "LWTIMER_STRUCTS (period_step p ob) = LWTIMER_STRUCTS ob" "LWTIMERS (period_step p ob) = LWTIMERS ob" for ob
    by (simp_all add: period_step_eq)
  { case 1
    then show ?case using Cons.IH(1) [of "period_step p ob"] s by (simp add: period_step_eq)
  next
    case 2
    have m: "map (\<lambda>q. map (call_of (LWTIMER_STRUCTS ob)) (period_due (LWTIMER_STRUCTS ob) (LWTIMER_PERIODS (period_step p ob) q))) ps
        = map (\<lambda>q. map (call_of (LWTIMER_STRUCTS ob)) (period_due (LWTIMER_STRUCTS ob) (LWTIMER_PERIODS ob q))) ps"
      using 2 by (auto simp: period_step_eq)
    have "LWTIMER_CALLS (period_step p ob)
        = LWTIMER_CALLS ob @ map (call_of (LWTIMER_STRUCTS ob)) (period_due (LWTIMER_STRUCTS ob) (LWTIMER_PERIODS ob p))"
      by (simp add: period_step_eq)
    then show ?case using Cons.IH(2) [of "period_step p ob", unfolded s m] 2 by simp
  next
    case 3
    then show ?case using Cons.IH(3) [of "period_step p ob"] s by simp
  next
    case 4
    then show ?case using Cons.IH(4) [of "period_step p ob"] s by simp }
qed simp_all

subsection \<open>Well-formed periodic queues\<close>

definition passed_ptr :: "addr option \<Rightarrow> addr list \<Rightarrow> addr list" where
  "passed_ptr q ts = (case q of None \<Rightarrow> [] | Some t \<Rightarrow> takeWhile (\<lambda>x. x \<noteq> t) ts @ [t])"

lemma passed_after: "set_option q \<subseteq> set ts \<Longrightarrow> passed_ptr q ts @ after_ptr q ts = ts"
proof (cases q)
  case (Some t)
  assume "set_option q \<subseteq> set ts"
  then have "dropWhile (\<lambda>x. x \<noteq> t) ts = t # tl (dropWhile (\<lambda>x. x \<noteq> t) ts)"
    using Some by (induction ts) auto
  then show ?thesis using Some takeWhile_dropWhile_id [of "\<lambda>x. x \<noteq> t" ts]
    by (simp add: passed_ptr_def after_ptr_def)
qed (simp add: passed_ptr_def after_ptr_def)

text \<open>The timers are in order, those up to \<^verbatim>\<open>TIMER_PTR\<close> have run in this period.\<close>

definition period_ok :: "(addr \<Rightarrow> lwtimer) \<Rightarrow> addr \<Rightarrow> lwtimer_period \<Rightarrow> bool" where
  "period_ok S p r \<longleftrightarrow> PER_VALID r = LWTIMER_VALID \<and> distinct (TIMERS r) \<and>
     sorted (map (\<lambda>t. RELATIVE_TICKS (S t)) (TIMERS r)) \<and>
     list_all (\<lambda>t. RELATIVE_TICKS (S t) < PERIOD r \<and> TMR_VALID (S t) = LWTIMER_VALID \<and> PERIOD_PTR (S t) = p) (TIMERS r) \<and>
     set_option (TIMER_PTR r) \<subseteq> set (TIMERS r) \<and>
     list_all (\<lambda>t. RELATIVE_TICKS (S t) < EXPIRY r) (passed_ptr (TIMER_PTR r) (TIMERS r)) \<and>
     (PERIOD r = 0 \<or> EXPIRY r < PERIOD r)"

text \<open>No timer that is still to run has missed its tick.\<close>

definition on_time :: "(addr \<Rightarrow> lwtimer) \<Rightarrow> lwtimer_period \<Rightarrow> bool" where
  "on_time S r \<longleftrightarrow> list_all (\<lambda>t. EXPIRY r \<le> RELATIVE_TICKS (S t)) (after_ptr (TIMER_PTR r) (TIMERS r))"

definition lwtimers_ok :: "objects \<Rightarrow> bool" where
  "lwtimers_ok ob \<longleftrightarrow> (case LWTIMERS ob of None \<Rightarrow> True
     | Some ps \<Rightarrow> distinct ps \<and> list_all (\<lambda>p. period_ok (LWTIMER_STRUCTS ob) p (LWTIMER_PERIODS ob p)) ps)"

lemma takeWhile_sorted_le:
  fixes f :: "'a \<Rightarrow> 'b::linorder"
  shows "sorted (map f xs) \<Longrightarrow> takeWhile (\<lambda>x. f x \<le> e) xs = filter (\<lambda>x. f x \<le> e) xs"
proof (induction xs)
  case (Cons x xs)
  then show ?case by (fastforce simp: filter_empty_conv intro!: sym [of "filter _ _"])
qed simp

lemma dropWhile_sorted_le:
  fixes f :: "'a \<Rightarrow> 'b::linorder"
  shows "sorted (map f xs) \<Longrightarrow> dropWhile (\<lambda>x. f x \<le> e) xs = filter (\<lambda>x. e < f x) xs"
proof (induction xs)
  case (Cons x xs)
  then show ?case by (fastforce simp: filter_id_conv intro!: sym [of "filter _ _"])
qed simp

subsection \<open>One tick of a periodic queue\<close>

lemma period_due_filter:
  assumes "period_ok S p r"
  shows "WAIT r = 0 \<Longrightarrow> period_due S r = filter (\<lambda>t. RELATIVE_TICKS (S t) \<le> EXPIRY r) (after_ptr (TIMER_PTR r) (TIMERS r))"
proof -
  have "TIMERS r = passed_ptr (TIMER_PTR r) (TIMERS r) @ after_ptr (TIMER_PTR r) (TIMERS r)"
    using passed_after assms by (simp add: period_ok_def)
  moreover have "sorted (map (\<lambda>t. RELATIVE_TICKS (S t)) (TIMERS r))" using assms by (simp add: period_ok_def)
  ultimately have "sorted (map (\<lambda>t. RELATIVE_TICKS (S t)) (after_ptr (TIMER_PTR r) (TIMERS r)))"
    by (metis map_append sorted_append)
  then show "WAIT r = 0 \<Longrightarrow> ?thesis" by (simp add: period_due_def takeWhile_sorted_le)
qed

text \<open>On time, the timers that run are those of this very tick.\<close>

lemma period_due_on_time:
  assumes "period_ok S p r" and "on_time S r" and "WAIT r = 0"
  shows "period_due S r = filter (\<lambda>t. RELATIVE_TICKS (S t) = EXPIRY r) (TIMERS r)"
proof -
  have "filter (\<lambda>t. RELATIVE_TICKS (S t) = EXPIRY r) (TIMERS r) =
      filter (\<lambda>t. RELATIVE_TICKS (S t) = EXPIRY r) (passed_ptr (TIMER_PTR r) (TIMERS r) @ after_ptr (TIMER_PTR r) (TIMERS r))"
    using passed_after assms(1) by (simp add: period_ok_def)
  also have "\<dots> = filter (\<lambda>t. RELATIVE_TICKS (S t) = EXPIRY r) (after_ptr (TIMER_PTR r) (TIMERS r))"
    using assms(1) by (auto simp: period_ok_def filter_empty_conv list_all_iff)
  also have "\<dots> = period_due S r"
    using assms(2) unfolding period_due_filter [OF assms(1,3)] on_time_def list_all_iff
    by (intro filter_cong) (auto intro: antisym)
  finally show ?thesis ..
qed

lemma after_due:
  assumes "distinct ts" and "set_option q \<subseteq> set ts" and "after_ptr q ts = due @ rest" and "due \<noteq> []"
  shows "passed_ptr (Some (last due)) ts = passed_ptr q ts @ due" and "after_ptr (Some (last due)) ts = rest"
proof -
  have ts: "ts = (passed_ptr q ts @ butlast due) @ last due # rest"
    using passed_after [OF assms(2)] assms(3,4) by (metis append.assoc append_Cons append_Nil append_butlast_last_id)
  then have n: "last due \<notin> set (passed_ptr q ts @ butlast due)" using assms(1) by (metis distinct_append disjoint_iff list.set_intros(1))
  have "takeWhile (\<lambda>x. x \<noteq> last due) ts = passed_ptr q ts @ butlast due"
    using n by (subst ts) (simp add: takeWhile_append)
  then show "passed_ptr (Some (last due)) ts = passed_ptr q ts @ due" using assms(4) by (simp add: passed_ptr_def)
  have "dropWhile (\<lambda>x. x \<noteq> last due) ts = last due # rest"
    using n by (subst ts) (simp add: dropWhile_append)
  then show "after_ptr (Some (last due)) ts = rest" by (simp add: after_ptr_def)
qed

lemma Suc_below:
  fixes e q :: u32
  assumes "e < q"
  shows "unat (e + 1) = unat e + 1" and "x \<le> e \<Longrightarrow> x < e + 1" and "e < x \<Longrightarrow> e + 1 \<le> x"
proof -
  show u: "unat (e + 1) = unat e + 1"
    using assms unat_u32_bound [of q] unat_add_small [of e 1] by (simp add: word_less_nat_alt)
  show "x \<le> e \<Longrightarrow> x < e + 1" "e < x \<Longrightarrow> e + 1 \<le> x" by (simp_all add: word_less_nat_alt word_le_nat_alt u)
qed

lemma period_ok_zero: "period_ok S p r \<Longrightarrow> PERIOD r = 0 \<Longrightarrow> TIMERS r = [] \<and> TIMER_PTR r = None"
  by (cases "TIMERS r"; cases "TIMER_PTR r") (auto simp: period_ok_def)

lemma period_next_fields [simp]:
  "PER_VALID (period_next S r) = PER_VALID r" "TIMERS (period_next S r) = TIMERS r" "PERIOD (period_next S r) = PERIOD r"
  by (simp_all add: period_next_def)

lemma period_next_moves:
  assumes ok: "period_ok S p r" and w: "WAIT r = 0" and e: "EXPIRY r + 1 \<noteq> PERIOD r"
  shows "set_option (TIMER_PTR (period_next S r)) \<subseteq> set (TIMERS r) \<and>
    passed_ptr (TIMER_PTR (period_next S r)) (TIMERS r) = passed_ptr (TIMER_PTR r) (TIMERS r) @ period_due S r \<and>
    after_ptr (TIMER_PTR (period_next S r)) (TIMERS r) = filter (\<lambda>t. EXPIRY r < RELATIVE_TICKS (S t)) (after_ptr (TIMER_PTR r) (TIMERS r))"
proof -
  let ?a = "after_ptr (TIMER_PTR r) (TIMERS r)"
  have d: "distinct (TIMERS r)" and q: "set_option (TIMER_PTR r) \<subseteq> set (TIMERS r)"
    and so: "sorted (map (\<lambda>t. RELATIVE_TICKS (S t)) (TIMERS r))" using ok by (simp_all add: period_ok_def)
  have ts: "TIMERS r = passed_ptr (TIMER_PTR r) (TIMERS r) @ ?a" using passed_after [OF q] by simp
  then have sa: "sorted (map (\<lambda>t. RELATIVE_TICKS (S t)) ?a)" using so by (metis map_append sorted_append)
  have a: "?a = period_due S r @ filter (\<lambda>t. EXPIRY r < RELATIVE_TICKS (S t)) ?a"
    unfolding dropWhile_sorted_le [OF sa, symmetric] by (simp add: period_due_def w)
  show ?thesis
  proof (cases "period_due S r = []")
    case True
    then show ?thesis using w e q a by (simp add: period_next_def)
  next
    case False
    have "last (period_due S r) \<in> set (TIMERS r)"
      using False a ts by (metis UnCI last_in_set set_append)
    then show ?thesis using after_due [OF d q a False] False w e by (simp add: period_next_def)
  qed
qed

lemma period_next_ok:
  assumes ok: "period_ok S p r"
  shows "period_ok S p (period_next S r)"
proof -
  consider "WAIT r \<noteq> 0" | "WAIT r = 0" "EXPIRY r + 1 = PERIOD r" | "WAIT r = 0" "EXPIRY r + 1 \<noteq> PERIOD r" by blast
  then show ?thesis
  proof cases
    case 2
    then show ?thesis using ok word_neq_0_conv [of "PERIOD r"]
      by (auto simp: period_ok_def period_next_def passed_ptr_def)
  next
    case 3
    note m = period_next_moves [OF ok 3]
    have e: "EXPIRY (period_next S r) = EXPIRY r + 1" using 3 by (simp add: period_next_def)
    show ?thesis
    proof (cases "PERIOD r = 0")
      case True
      then show ?thesis using period_ok_zero [OF ok] ok m 3
        by (auto simp: period_ok_def period_next_def period_due_def after_ptr_def passed_ptr_def)
    next
      case False
      then have l: "EXPIRY r < PERIOD r" using ok by (simp add: period_ok_def)
      have "list_all (\<lambda>t. RELATIVE_TICKS (S t) < EXPIRY r + 1) (passed_ptr (TIMER_PTR r) (TIMERS r) @ period_due S r)"
        using ok 3 Suc_below(2) [OF l]
        by (auto simp: period_due_filter [OF ok] period_ok_def list_all_iff intro: less_imp_le)
      moreover have "EXPIRY r + 1 < PERIOD r" using Suc_below(3) [OF l l] 3 by simp
      ultimately show ?thesis using ok m by (simp add: period_ok_def e)
    qed
  qed (use ok in \<open>simp add: period_ok_def period_next_def\<close>)
qed

lemma period_next_on_time:
  assumes ok: "period_ok S p r" and t: "on_time S r"
  shows "on_time S (period_next S r)"
proof -
  consider "WAIT r \<noteq> 0" | "WAIT r = 0" "EXPIRY r + 1 = PERIOD r" | "WAIT r = 0" "EXPIRY r + 1 \<noteq> PERIOD r" by blast
  then show ?thesis
  proof cases
    case 3
    have e: "EXPIRY (period_next S r) = EXPIRY r + 1" using 3 by (simp add: period_next_def)
    have "EXPIRY r < PERIOD r" if "x \<in> set (after_ptr (TIMER_PTR r) (TIMERS r))" for x
      using that ok period_ok_zero [OF ok] by (auto simp: period_ok_def after_ptr_def)
    then show ?thesis using period_next_moves [OF ok 3] Suc_below(3) by (fastforce simp: on_time_def e list_all_iff)
  qed (use t in \<open>simp_all add: on_time_def period_next_def list_all_iff\<close>)
qed

lemma period_iterate:
  assumes "period_ok S p r" and "on_time S r" and "PERIOD r \<noteq> 0"
  defines "rn \<equiv> \<lambda>n. (period_next S ^^ n) r"
  shows "period_ok S p (rn n)" "on_time S (rn n)" "TIMERS (rn n) = TIMERS r" "PERIOD (rn n) = PERIOD r"
    "unat (WAIT (rn n)) = unat (WAIT r) - n"
    "unat (EXPIRY (rn n)) = (unat (EXPIRY r) + (n - unat (WAIT r))) mod unat (PERIOD r)"
proof (induction n)
  case (Suc n)
  note ih = Suc
  have s: "rn (Suc n) = period_next S (rn n)" by (simp add: rn_def)
  { case 1 show ?case using period_next_ok ih(1) by (simp add: s)
  next case 2 show ?case using period_next_on_time ih(1,2) by (simp add: s)
  next case 3 show ?case using ih(3) by (simp add: s)
  next case 4 show ?case using ih(4) by (simp add: s)
  next
    case 5
    have "unat (WAIT (rn n) - 1) = unat (WAIT (rn n)) - 1" if "WAIT (rn n) \<noteq> 0"
      using that by (simp add: unat_minus_one)
    then show ?case using ih(5) by (auto simp: s period_next_def unat_eq_0 [symmetric] simp del: unat_eq_0)
  next
    case 6
    let ?x = "unat (EXPIRY r) + (n - unat (WAIT r))"
    have l: "EXPIRY (rn n) < PERIOD r" using ih(1,4) assms(3) by (simp add: period_ok_def)
    show ?case
    proof (cases "WAIT (rn n) = 0")
      case True
      then have n: "unat (WAIT r) \<le> n" using ih(5) by simp
      then have "unat (EXPIRY r) + (Suc n - unat (WAIT r)) = Suc ?x" by simp
      moreover have "EXPIRY (rn n) + 1 = PERIOD r \<longleftrightarrow> Suc (?x mod unat (PERIOD r)) = unat (PERIOD r)"
        using Suc_below(1) [OF l] ih(6) by (metis Suc_eq_plus1 word_unat_eq_iff)
      ultimately show ?thesis using True ih(4,6) Suc_below(1) [OF l]
        by (auto simp: s period_next_def mod_Suc)
    next
      case False
      then have "0 < unat (WAIT r) - n" unfolding ih(5) [symmetric] by (simp add: unat_gt_0)
      then have "Suc n \<le> unat (WAIT r)" by simp
      then show ?thesis using False ih(6) by (simp add: s period_next_def)
    qed }
qed (use assms in \<open>simp_all add: rn_def period_ok_def word_less_nat_alt\<close>)

subsection \<open>The schedule of all periodic queues\<close>

text \<open>The timers of a periodic queue that are to run at the \<open>i\<close>-th tick from now.\<close>

definition timers_at :: "(addr \<Rightarrow> lwtimer) \<Rightarrow> lwtimer_period \<Rightarrow> nat \<Rightarrow> addr list" where
  "timers_at S r i =
     (if i < unat (WAIT r) then []
      else filter (\<lambda>t. unat (RELATIVE_TICKS (S t)) = (unat (EXPIRY r) + (i - unat (WAIT r))) mod unat (PERIOD r)) (TIMERS r))"

lemma period_due_at:
  assumes "period_ok S p r" and "on_time S r"
  shows "period_due S ((period_next S ^^ i) r) = timers_at S r i"
proof (cases "PERIOD r = 0")
  case True
  have "TIMERS ((period_next S ^^ i) r) = [] \<and> TIMER_PTR ((period_next S ^^ i) r) = None"
    using period_ok_zero [OF assms(1) True]
    by (induction i) (simp_all add: period_next_def period_due_def after_ptr_def)
  then show ?thesis using period_ok_zero [OF assms(1) True] by (simp add: timers_at_def period_due_def after_ptr_def)
next
  case False
  note it = period_iterate [OF assms False, of i]
  show ?thesis
  proof (cases "i < unat (WAIT r)")
    case True
    then have "WAIT ((period_next S ^^ i) r) \<noteq> 0" using it(5) by auto
    then show ?thesis using True by (simp add: timers_at_def period_due_def)
  next
    case False
    then have "WAIT ((period_next S ^^ i) r) = 0" using it(5) by (simp add: unat_eq_0)
    from period_due_on_time [OF it(1,2) this] show ?thesis
      using False it(3,6) by (simp add: timers_at_def word_unat_eq_iff)
  qed
qed

lemma isr_iterate:
  assumes "LWTIMERS ob = Some ps" and "distinct ps"
  defines "obn \<equiv> \<lambda>n. (lwtimer_isr_internal ^^ n) ob" and "S \<equiv> LWTIMER_STRUCTS ob"
  shows "LWTIMERS (obn n) = Some ps" "LWTIMER_STRUCTS (obn n) = S"
    "q \<in> set ps \<Longrightarrow> LWTIMER_PERIODS (obn n) q = (period_next S ^^ n) (LWTIMER_PERIODS ob q)"
    "LWTIMER_CALLS (obn n) = LWTIMER_CALLS ob @ concat (map (\<lambda>i. concat (map (\<lambda>q. map (call_of S)
       (period_due S ((period_next S ^^ i) (LWTIMER_PERIODS ob q)))) ps)) [0 ..< n])"
proof (induction n arbitrary: q)
  case (Suc n)
  note ih = Suc
  have s: "obn (Suc n) = fold period_step ps (obn n)" using ih(1) by (simp add: obn_def lwtimer_isr_internal_def)
  note f = fold_period_step [OF assms(2), of "obn n"]
  { case 1 show ?case using ih(1) by (simp add: s f)
  next case 2 show ?case using ih(2) by (simp add: s f)
  next case 3 then show ?case using ih(2,3) by (simp add: s f)
  next
    case 4
    have m: "map (\<lambda>q. map (call_of S) (period_due S (LWTIMER_PERIODS (obn n) q))) ps
        = map (\<lambda>q. map (call_of S) (period_due S ((period_next S ^^ n) (LWTIMER_PERIODS ob q)))) ps"
      using ih(3) by simp
    show ?case using f(2) ih(4) unfolding s ih(2) m by simp }
qed (use assms in \<open>simp_all add: obn_def S_def\<close>)

lemma isr_schedule:
  assumes "LWTIMERS ob = Some ps" and "lwtimers_ok ob"
    and "list_all (\<lambda>p. on_time (LWTIMER_STRUCTS ob) (LWTIMER_PERIODS ob p)) ps"
  shows "LWTIMER_CALLS ((lwtimer_isr_internal ^^ n) ob) = LWTIMER_CALLS ob @ concat (map (\<lambda>i. concat (map (\<lambda>p.
      map (call_of (LWTIMER_STRUCTS ob)) (timers_at (LWTIMER_STRUCTS ob) (LWTIMER_PERIODS ob p) i)) ps)) [0 ..< n])"
proof -
  let ?S = "LWTIMER_STRUCTS ob"
  have d: "distinct ps" and ok: "p \<in> set ps \<Longrightarrow> period_ok ?S p (LWTIMER_PERIODS ob p)" for p
    using assms(1,2) by (simp_all add: lwtimers_ok_def list_all_iff)
  have m: "map (\<lambda>p. map (call_of ?S) (period_due ?S ((period_next ?S ^^ i) (LWTIMER_PERIODS ob p)))) ps
      = map (\<lambda>p. map (call_of ?S) (timers_at ?S (LWTIMER_PERIODS ob p) i)) ps" for i
    using assms(3) period_due_at [OF ok] by (simp add: list_all_iff)
  show ?thesis unfolding isr_iterate(4) [OF assms(1) d] m ..
qed

lemma isr_ok:
  assumes "lwtimers_ok ob"
  shows "lwtimers_ok (lwtimer_isr_internal ob)"
  using assms by (auto simp: lwtimers_ok_def lwtimer_isr_internal_def fold_period_step list_all_iff period_next_ok split: option.splits)

subsection \<open>Changes of a periodic queue\<close>

lemma passed_below:
  fixes f :: "addr \<Rightarrow> u32"
  assumes "sorted (map f ts)" and "set_option q \<subseteq> set ts"
  shows "list_all (\<lambda>t. f t < e) (passed_ptr q ts) \<longleftrightarrow> (\<forall>u \<in> set_option q. f u < e)"
proof (cases q)
  case (Some u)
  have b: "takeWhile (\<lambda>x. x \<noteq> u) ts @ u # after_ptr q ts = ts"
    using passed_after [OF assms(2)] Some by (simp add: passed_ptr_def)
  have "sorted (map f (takeWhile (\<lambda>x. x \<noteq> u) ts @ u # after_ptr q ts))" by (simp only: b assms(1))
  then have "\<forall>x \<in> set (takeWhile (\<lambda>x. x \<noteq> u) ts). f x \<le> f u" by (simp add: sorted_append)
  then show ?thesis using Some by (auto simp: passed_ptr_def list_all_iff intro: le_less_trans)
qed (simp add: passed_ptr_def)

lemma period_ok_alt:
  "period_ok S p r \<longleftrightarrow> PER_VALID r = LWTIMER_VALID \<and> distinct (TIMERS r) \<and>
     sorted (map (\<lambda>t. RELATIVE_TICKS (S t)) (TIMERS r)) \<and>
     list_all (\<lambda>t. RELATIVE_TICKS (S t) < PERIOD r \<and> TMR_VALID (S t) = LWTIMER_VALID \<and> PERIOD_PTR (S t) = p) (TIMERS r) \<and>
     set_option (TIMER_PTR r) \<subseteq> set (TIMERS r) \<and> (\<forall>u \<in> set_option (TIMER_PTR r). RELATIVE_TICKS (S u) < EXPIRY r) \<and>
     (PERIOD r = 0 \<or> EXPIRY r < PERIOD r)"
  unfolding period_ok_def using passed_below [of "\<lambda>t. RELATIVE_TICKS (S t)" "TIMERS r" "TIMER_PTR r" "EXPIRY r"] by blast

lemma period_ok_cong:
  assumes "\<And>t. t \<in> set (TIMERS r) \<Longrightarrow> S' t = S t"
  shows "period_ok S' p r = period_ok S p r"
proof -
  have "map (\<lambda>t. RELATIVE_TICKS (S' t)) (TIMERS r) = map (\<lambda>t. RELATIVE_TICKS (S t)) (TIMERS r)" using assms by simp
  then show ?thesis unfolding period_ok_alt by (auto simp: assms list_all_iff subset_iff simp del: map_eq_conv)
qed

lemma timer_insert_set [simp]: "set (timer_insert f t n ts) = insert t (set ts)"
  by (induction ts) auto

lemma timer_insert_distinct: "distinct ts \<Longrightarrow> t \<notin> set ts \<Longrightarrow> distinct (timer_insert f t n ts)"
  by (induction ts) auto

lemma timer_insert_sorted: "sorted (map f ts) \<Longrightarrow> f t = n \<Longrightarrow> sorted (map f (timer_insert f t n ts))"
  by (induction ts) (auto intro: order_trans)

lemma after_insert:
  assumes "set_option q \<subseteq> set ts" and "t \<notin> set ts"
  shows "set (after_ptr q (timer_insert f t n ts)) \<subseteq> insert t (set (after_ptr q ts))"
proof (cases q)
  case (Some u)
  then have "u \<in> set ts" "u \<noteq> t" using assms by auto
  then have "set (tl (dropWhile (\<lambda>x. x \<noteq> u) (timer_insert f t n ts))) \<subseteq> insert t (set (tl (dropWhile (\<lambda>x. x \<noteq> u) ts)))"
    by (induction ts) auto
  then show ?thesis using Some by (simp add: after_ptr_def)
qed (simp add: after_ptr_def)

lemma remove_ptr:
  assumes "distinct ts" and "t \<in> set ts" and "set_option q \<subseteq> set ts"
  defines "q' \<equiv> if q = Some t then prev_ptr t ts else q"
  shows "set_option q' \<subseteq> set (remove1 t ts)" "set (after_ptr q' (remove1 t ts)) \<subseteq> set (after_ptr q ts)"
    "\<And>f :: addr \<Rightarrow> u32. sorted (map f ts) \<Longrightarrow> \<forall>u \<in> set_option q. f u < e \<Longrightarrow> \<forall>u \<in> set_option q'. f u < e"
proof -
  obtain a b where ts: "ts = a @ t # b" using split_list [OF assms(2)] by blast
  then have n: "t \<notin> set a" "t \<notin> set b" "distinct a" "distinct b" "set a \<inter> set b = {}" using assms(1) by auto
  have r: "remove1 t (a @ t # b) = a @ b" using n by (simp add: remove1_append)
  have p: "prev_ptr t (a @ t # b) = (if a = [] then None else Some (last a))"
    using n by (auto simp: prev_ptr_def takeWhile_append split: list.splits)
  have m: "dropWhile (\<lambda>x. x \<noteq> last a) (a @ b) = last a # b" if "a \<noteq> []"
  proof -
    have a: "a = butlast a @ [last a]" using that by simp
    then have "last a \<notin> set (butlast a)" using n(3) by (metis distinct_append disjoint_iff list.set_intros(1))
    then show ?thesis by (subst a) (simp add: dropWhile_append)
  qed
  have aft: "after_ptr (Some t) (a @ t # b) = b" using n by (simp add: after_ptr_def dropWhile_append)
  show "set_option q' \<subseteq> set (remove1 t ts)" using assms(3) r
    by (auto simp: q'_def p r ts split: list.splits if_splits)
  show "set (after_ptr q' (remove1 t ts)) \<subseteq> set (after_ptr q ts)"
  proof (cases "q = Some t")
    case True
    then have q': "q' = (if a = [] then None else Some (last a))" by (simp add: q'_def p ts)
    have "after_ptr q' (a @ b) = b" using m by (simp add: q' after_ptr_def)
    then show ?thesis using True aft by (simp add: ts r)
  next
    case False
    have "set (tl (dropWhile (\<lambda>x. x \<noteq> u) (a @ b))) \<subseteq> set (tl (dropWhile (\<lambda>x. x \<noteq> u) (a @ t # b)))" if "u \<noteq> t" for u
      using that by (induction a) auto
    then show ?thesis using False by (cases q) (auto simp: q'_def r after_ptr_def ts)
  qed
  show "\<And>f :: addr \<Rightarrow> u32. sorted (map f ts) \<Longrightarrow> \<forall>u \<in> set_option q. f u < e \<Longrightarrow> \<forall>u \<in> set_option q'. f u < e"
    by (auto simp: q'_def p ts sorted_append split: if_splits) (meson last_in_set le_less_trans)+
qed

text \<open>The state of the other queues does not change when a timer of none of them does.\<close>

definition queued :: "addr \<Rightarrow> objects \<Rightarrow> bool" where
  "queued t ob \<longleftrightarrow> list_ex (\<lambda>p. t \<in> set (TIMERS (LWTIMER_PERIODS ob p))) (case LWTIMERS ob of None \<Rightarrow> [] | Some ps \<Rightarrow> ps)"

definition all_on_time :: "objects \<Rightarrow> bool" where
  "all_on_time ob \<longleftrightarrow> list_all (\<lambda>p. on_time (LWTIMER_STRUCTS ob) (LWTIMER_PERIODS ob p))
     (case LWTIMERS ob of None \<Rightarrow> [] | Some ps \<Rightarrow> ps)"

lemma lwtimers_okI:
  "(\<And>ps. LWTIMERS ob = Some ps \<Longrightarrow> distinct ps) \<Longrightarrow>
   (\<And>ps p. LWTIMERS ob = Some ps \<Longrightarrow> p \<in> set ps \<Longrightarrow> period_ok (LWTIMER_STRUCTS ob) p (LWTIMER_PERIODS ob p)) \<Longrightarrow> lwtimers_ok ob"
  by (auto simp: lwtimers_ok_def list_all_iff split: option.splits)

lemma lwtimers_okD:
  assumes "lwtimers_ok ob" and "LWTIMERS ob = Some ps"
  shows "distinct ps" and "p \<in> set ps \<Longrightarrow> period_ok (LWTIMER_STRUCTS ob) p (LWTIMER_PERIODS ob p)"
  using assms by (auto simp: lwtimers_ok_def list_all_iff)

lemma period_insert_ok:
  assumes ok: "period_ok S p r" and t: "t \<notin> set (TIMERS r)" and d: "RELATIVE_TICKS d < PERIOD r"
    "TMR_VALID d = LWTIMER_VALID" "PERIOD_PTR d = p"
  shows "period_ok (S(t := d)) p (r\<lparr>TIMERS := timer_insert (\<lambda>x. RELATIVE_TICKS ((S(t := d)) x)) t (RELATIVE_TICKS d) (TIMERS r)\<rparr>)"
proof -
  have ok': "period_ok (S(t := d)) p r" using ok t by (subst period_ok_cong [of r _ S]) auto
  then have "sorted (map (\<lambda>x. RELATIVE_TICKS ((S(t := d)) x)) (TIMERS r))" by (simp add: period_ok_alt)
  from timer_insert_sorted [OF this, of t] show ?thesis
    using ok' t d timer_insert_distinct by (auto simp: period_ok_alt list_all_iff)
qed

lemma period_remove_ok:
  assumes ok: "period_ok S p r" and t: "t \<in> set (TIMERS r)"
  shows "period_ok (S(t := d)) p (r\<lparr>TIMER_PTR := (if TIMER_PTR r = Some t then prev_ptr t (TIMERS r) else TIMER_PTR r),
    TIMERS := remove1 t (TIMERS r)\<rparr>)" (is "period_ok _ p ?r")
proof -
  have ds: "distinct (TIMERS r)" "sorted (map (\<lambda>t. RELATIVE_TICKS (S t)) (TIMERS r))" "set_option (TIMER_PTR r) \<subseteq> set (TIMERS r)"
    "\<forall>u \<in> set_option (TIMER_PTR r). RELATIVE_TICKS (S u) < EXPIRY r"
    using ok by (simp_all add: period_ok_alt)
  note q = remove_ptr [OF ds(1) t ds(3)]
  have "sorted (map (\<lambda>t. RELATIVE_TICKS (S t)) (remove1 t (TIMERS r)))" by (rule sorted_map_remove1 [OF ds(2)])
  then have "period_ok S p ?r"
    using ok q(1) q(3) [OF ds(2,4)] ds(1) by (auto simp: period_ok_alt list_all_iff dest: notin_set_remove1)
  then show ?thesis using ds(1) by (subst period_ok_cong [of _ _ S]) auto
qed

lemma add_timer_ok:
  assumes ok: "lwtimers_ok (OBJ k)" and t: "\<not> queued t (OBJ k)"
  shows "lwtimers_ok (OBJ (snd (lwtimer_add_timer_to_queue p t ticks f a k)))"
proof (rule lwtimers_okI)
  let ?ob = "OBJ k" let ?ob' = "OBJ (snd (lwtimer_add_timer_to_queue p t ticks f a k))"
  have l: "LWTIMERS ?ob' = LWTIMERS ?ob"
    by (simp add: lwtimer_add_timer_to_queue_def Let_def upd_timer_def upd_period_def)
  fix ps
  assume "LWTIMERS ?ob' = Some ps"
  then have ps: "LWTIMERS ?ob = Some ps" by (simp add: l)
  then show "distinct ps" using lwtimers_okD(1) [OF ok] by simp
  fix q
  assume q: "q \<in> set ps"
  then have okq: "period_ok (LWTIMER_STRUCTS ?ob) q (LWTIMER_PERIODS ?ob q)" and tq: "t \<notin> set (TIMERS (LWTIMER_PERIODS ?ob q))"
    using lwtimers_okD(2) [OF ok ps q] t ps by (auto simp: queued_def list_ex_iff)
  let ?d = "(LWTIMER_STRUCTS ?ob t)\<lparr>TIMER_FUNCTION := f, PARAMETER := a, PERIOD_PTR := p, RELATIVE_TICKS := ticks, TMR_VALID := LWTIMER_VALID\<rparr>"
  have c: "period_ok ((LWTIMER_STRUCTS ?ob)(t := ?d)) q (LWTIMER_PERIODS ?ob q)"
    using okq tq by (subst period_ok_cong [of _ _ "LWTIMER_STRUCTS ?ob"]) auto
  show "period_ok (LWTIMER_STRUCTS ?ob') q (LWTIMER_PERIODS ?ob' q)"
    using okq c period_insert_ok [OF okq tq, of ?d]
    by (auto simp: lwtimer_add_timer_to_queue_def Let_def upd_timer_def upd_period_def not_le cong: if_cong)
qed

lemma cancel_timer_ok:
  assumes ok: "lwtimers_ok (OBJ k)" and t: "queued t (OBJ k)"
  shows "lwtimers_ok (OBJ (snd (lwtimer_cancel_timer t k)))"
proof (rule lwtimers_okI)
  let ?ob = "OBJ k" let ?ob' = "OBJ (snd (lwtimer_cancel_timer t k))"
  obtain qs p where p: "LWTIMERS ?ob = Some qs" "p \<in> set qs" "t \<in> set (TIMERS (LWTIMER_PERIODS ?ob p))"
    using t by (cases "LWTIMERS ?ob") (auto simp: queued_def list_ex_iff)
  have l: "LWTIMERS ?ob' = LWTIMERS ?ob"
    by (simp add: lwtimer_cancel_timer_def Let_def upd_timer_def upd_period_def)
  fix ps
  assume "LWTIMERS ?ob' = Some ps"
  then have ps: "LWTIMERS ?ob = Some ps" by (simp add: l)
  then show "distinct ps" using lwtimers_okD(1) [OF ok] by simp
  note okp = lwtimers_okD(2) [OF ok p(1,2)]
  have pp: "PERIOD_PTR (LWTIMER_STRUCTS ?ob t) = p" "TMR_VALID (LWTIMER_STRUCTS ?ob t) = LWTIMER_VALID"
    "PER_VALID (LWTIMER_PERIODS ?ob p) = LWTIMER_VALID"
    using okp p(3) by (simp_all add: period_ok_def list_all_iff)
  fix q
  assume q: "q \<in> set ps"
  note okq = lwtimers_okD(2) [OF ok ps q]
  have "t \<notin> set (TIMERS (LWTIMER_PERIODS ?ob q))" if "q \<noteq> p" using that okq pp(1) by (auto simp: period_ok_def list_all_iff)
  then have "period_ok ((LWTIMER_STRUCTS ?ob)(t := d)) q (LWTIMER_PERIODS ?ob q)" if "q \<noteq> p" for d
    using that okq by (subst period_ok_cong [of _ _ "LWTIMER_STRUCTS ?ob"]) auto
  then show "period_ok (LWTIMER_STRUCTS ?ob') q (LWTIMER_PERIODS ?ob' q)"
    using okq pp p(3) period_remove_ok [OF okp p(3)]
    by (auto simp: lwtimer_cancel_timer_def Let_def upd_timer_def upd_period_def split: if_splits)
qed

lemma create_period_ok:
  assumes ok: "lwtimers_ok (OBJ k)" and p: "\<And>ps. LWTIMERS (OBJ k) = Some ps \<Longrightarrow> p \<notin> set ps"
  shows "lwtimers_ok (OBJ (snd (lwtimer_create_periodic_queue p n w k)))"
  using ok p word_neq_0_conv [of n]
  by (auto simp: lwtimers_ok_def lwtimer_create_periodic_queue_def Let_def upd_period_def list_all_iff split: option.splits)
    (auto simp: period_ok_def passed_ptr_def)

lemma cancel_period_ok:
  assumes ok: "lwtimers_ok (OBJ k)"
  shows "lwtimers_ok (OBJ (snd (lwtimer_cancel_period p k)))"
  using ok
  by (auto simp: lwtimers_ok_def lwtimer_cancel_period_def Let_def upd_period_def list_all_iff distinct_remove1 set_remove1_eq
      split: option.splits)

text \<open>
  Fact. Every operation keeps the periodic queues well formed: each queue holds distinct, valid
  timers of its own in the order of their offsets, all below the period, and those up to the mark have
  run in this period. A queue is created under a fresh address, a timer is added while it is in no
  queue and cancelled while it is in one. Adding succeeds exactly on a valid queue with an offset below
  its period and leaves everything unchanged otherwise.
\<close>

theorem lwtimer_operations_keep_ok:
  assumes "lwtimers_ok (OBJ k)"
  shows "lwtimers_ok (lwtimer_isr_internal (OBJ k)) \<and>
    (p \<notin> set (case LWTIMERS (OBJ k) of None \<Rightarrow> [] | Some ps \<Rightarrow> ps) \<longrightarrow>
       lwtimers_ok (OBJ (snd (lwtimer_create_periodic_queue p n w k)))) \<and>
    (\<not> queued t (OBJ k) \<longrightarrow> lwtimers_ok (OBJ (snd (lwtimer_add_timer_to_queue p t ticks f a k)))) \<and>
    (queued t (OBJ k) \<longrightarrow> lwtimers_ok (OBJ (snd (lwtimer_cancel_timer t k)))) \<and>
    lwtimers_ok (OBJ (snd (lwtimer_cancel_period p k))) \<and>
    (fst (lwtimer_add_timer_to_queue p t ticks f a k) = MQX_OK \<longleftrightarrow>
       PER_VALID (LWTIMER_PERIODS (OBJ k) p) = LWTIMER_VALID \<and> ticks < PERIOD (LWTIMER_PERIODS (OBJ k) p)) \<and>
    (fst (lwtimer_add_timer_to_queue p t ticks f a k) \<noteq> MQX_OK \<longrightarrow> snd (lwtimer_add_timer_to_queue p t ticks f a k) = k)"
proof (intro conjI impI)
  show "lwtimers_ok (OBJ (snd (lwtimer_create_periodic_queue p n w k)))"
    if "p \<notin> set (case LWTIMERS (OBJ k) of None \<Rightarrow> [] | Some ps \<Rightarrow> ps)"
    using that by (intro create_period_ok [OF assms]) auto
  show "fst (lwtimer_add_timer_to_queue p t ticks f a k) = MQX_OK \<longleftrightarrow>
       PER_VALID (LWTIMER_PERIODS (OBJ k) p) = LWTIMER_VALID \<and> ticks < PERIOD (LWTIMER_PERIODS (OBJ k) p)"
    by (auto simp: lwtimer_add_timer_to_queue_def Let_def not_le)
  show "fst (lwtimer_add_timer_to_queue p t ticks f a k) \<noteq> MQX_OK \<Longrightarrow> snd (lwtimer_add_timer_to_queue p t ticks f a k) = k"
    by (simp add: lwtimer_add_timer_to_queue_def Let_def split: if_splits)
qed (use assms in \<open>simp_all add: isr_ok add_timer_ok cancel_timer_ok cancel_period_ok\<close>)

text \<open>A queue of period 10 with timers at 3 and 7, and one that waits 2 ticks first.\<close>

definition demo_timers :: objects where
  "demo_timers = (OBJ demo)\<lparr>
     LWTIMER_STRUCTS := (\<lambda>t. \<lparr>TMR_VALID = LWTIMER_VALID, RELATIVE_TICKS = (if t = 20 then 3 else if t = 21 then 7 else 0),
       TIMER_FUNCTION = 900, PARAMETER = t, PERIOD_PTR = (if t = 22 then 11 else 10)\<rparr>),
     LWTIMER_PERIODS := (\<lambda>p. if p = 10 then \<lparr>PER_VALID = LWTIMER_VALID, PERIOD = 10, EXPIRY = 0, WAIT = 0, TIMERS = [20, 21], TIMER_PTR = None\<rparr>
       else \<lparr>PER_VALID = LWTIMER_VALID, PERIOD = 4, EXPIRY = 0, WAIT = 2, TIMERS = [22], TIMER_PTR = None\<rparr>),
     LWTIMERS := Some [10, 11]\<rparr>"

lemma demo_timers_ok: "lwtimers_ok demo_timers" "all_on_time demo_timers"
  by (simp_all add: lwtimers_ok_def all_on_time_def demo_timers_def period_ok_def on_time_def passed_ptr_def after_ptr_def)

theorem lwtimer_operations_keep_ok_witness:
  "lwtimers_ok (OBJ (snd (lwtimer_cancel_timer 20 (demo\<lparr>OBJ := demo_timers\<rparr>))))
   \<and> lwtimers_ok (OBJ (snd (lwtimer_add_timer_to_queue 10 30 5 901 0 (demo\<lparr>OBJ := demo_timers\<rparr>))))"
proof -
  have "queued 20 demo_timers" "\<not> queued 30 demo_timers" by (simp_all add: queued_def demo_timers_def)
  then show ?thesis
    using lwtimer_operations_keep_ok [of "demo\<lparr>OBJ := demo_timers\<rparr>" 10 1 1 20 5 901 0]
      lwtimer_operations_keep_ok [of "demo\<lparr>OBJ := demo_timers\<rparr>" 10 1 1 30 5 901 0] demo_timers_ok by simp
qed

text \<open>
  Fact. The consistency check of the timers succeeds on well-formed queues and leaves the interrupt
  level as it was, but when it finds an invalid timer in the first queue it returns with interrupts
  still disabled once more.
\<close>

theorem lwtimer_test_exits:
  "(lwtimers_ok (OBJ k) \<and> LWTIMERS (OBJ k) = Some qs \<longrightarrow>
      lwtimer_test k = ((MQX_OK, NULL, NULL), INT_ENABLE (INT_DISABLE k))) \<and>
   (LWTIMERS (OBJ k) = Some (p # ps) \<and> PER_VALID (LWTIMER_PERIODS (OBJ k) p) = LWTIMER_VALID \<and>
      List.find (\<lambda>t. TMR_VALID (LWTIMER_STRUCTS (OBJ k) t) \<noteq> LWTIMER_VALID) (TIMERS (LWTIMER_PERIODS (OBJ k) p)) = Some t \<longrightarrow>
      lwtimer_test k = ((MQX_LWTIMER_INVALID, p, t), INT_DISABLE k) \<and>
      DISABLED_LEVEL (active_td (snd (lwtimer_test k))) = DISABLED_LEVEL (active_td k) + 1)"
proof (intro conjI impI; (elim conjE)?)
  have l: "lwtimer_test_loop qs x = ((MQX_OK, NULL, NULL), INT_ENABLE x)"
    if "list_all (\<lambda>p. period_ok (LWTIMER_STRUCTS (OBJ x)) p (LWTIMER_PERIODS (OBJ x) p)) qs" for qs x
    using that
  proof (induction qs)
    case (Cons p qs)
    then have "List.find (\<lambda>t. TMR_VALID (LWTIMER_STRUCTS (OBJ x) t) \<noteq> LWTIMER_VALID) (TIMERS (LWTIMER_PERIODS (OBJ x) p)) = None"
      by (auto simp: find_None_iff period_ok_def list_all_iff)
    with Cons show ?case by (simp add: period_ok_def)
  qed simp
  show "lwtimer_test k = ((MQX_OK, NULL, NULL), INT_ENABLE (INT_DISABLE k))"
    if "lwtimers_ok (OBJ k)" "LWTIMERS (OBJ k) = Some qs"
    using that by (simp add: lwtimer_test_def lwtimers_ok_def l)
  assume e: "LWTIMERS (OBJ k) = Some (p # ps)" "PER_VALID (LWTIMER_PERIODS (OBJ k) p) = LWTIMER_VALID"
      "List.find (\<lambda>t. TMR_VALID (LWTIMER_STRUCTS (OBJ k) t) \<noteq> LWTIMER_VALID) (TIMERS (LWTIMER_PERIODS (OBJ k) p)) = Some t"
  then show "lwtimer_test k = ((MQX_LWTIMER_INVALID, p, t), INT_DISABLE k)" by (simp add: lwtimer_test_def)
  then show "DISABLED_LEVEL (active_td (snd (lwtimer_test k))) = DISABLED_LEVEL (active_td k) + 1"
    by (simp add: active_td_def) (simp add: INT_DISABLE_def upd_td_def)
qed

theorem lwtimer_test_exits_witness:
  "DISABLED_LEVEL (active_td (snd (lwtimer_test (demo\<lparr>OBJ := upd_timer 21 (\<lambda>d. d\<lparr>TMR_VALID := 0\<rparr>) demo_timers\<rparr>)))) = 1"
proof -
  let ?k = "demo\<lparr>OBJ := upd_timer 21 (\<lambda>d. d\<lparr>TMR_VALID := 0\<rparr>) demo_timers\<rparr>"
  have "LWTIMERS (OBJ ?k) = Some [10, 11]" "PER_VALID (LWTIMER_PERIODS (OBJ ?k) 10) = LWTIMER_VALID"
    "List.find (\<lambda>t. TMR_VALID (LWTIMER_STRUCTS (OBJ ?k) t) \<noteq> LWTIMER_VALID) (TIMERS (LWTIMER_PERIODS (OBJ ?k) 10)) = Some 21"
    "DISABLED_LEVEL (active_td ?k) = 0"
    by (simp_all add: upd_timer_def demo_timers_def active_td_def demo_def mk_td_def)
  then show ?thesis using conjunct2 [OF lwtimer_test_exits [of ?k "[]" 10 "[11]" 21]] by (metis add_0)
qed

end
