(* ===== verification/Kernel_Time.thy ===== *)
theory Kernel_Time
  imports Lwtimer
begin

unbundle bit_operations_syntax

text \<open>
  The kernel side of time (\<^verbatim>\<open>kernel/time.c\<close>): the timeout queue, delays and the tick handler
  \<^verbatim>\<open>_time_notify_kernel\<close>. The timeout queue is sorted; the default configuration inserts a task before
  the ones with the same expiry (\<^verbatim>\<open>MQX_DELAY_ENQUEUE_POLICY\<close> is \<^verbatim>\<open>result >= 0\<close>).
\<close>

subsection \<open>Delays\<close>

fun timeout_insert :: "(addr \<Rightarrow> psp_tick) \<Rightarrow> addr \<Rightarrow> addr list \<Rightarrow> addr list" where
  "timeout_insert expiry t [] = [t]"
| "timeout_insert expiry t (x # xs) =
     (if PSP_CMP_TICKS (expiry x) (expiry t) \<ge> 0 then t # x # xs else x # timeout_insert expiry t xs)"

definition timeout_of :: "kernel \<Rightarrow> addr \<Rightarrow> psp_tick" where
  "timeout_of k t = TIMEOUT (TDS k t)"

text \<open>The state changes of \<^verbatim>\<open>_time_delay_internal\<close> before it runs the scheduler.\<close>

definition timeout_enqueue :: "addr \<Rightarrow> kernel \<Rightarrow> kernel" where
  "timeout_enqueue t k =
     (let k1 = UNLINK_READY t k
      in upd_td t (\<lambda>d. d\<lparr>STATE := STATE d OR IS_ON_TIMEOUT_Q\<rparr>)
           (k1\<lparr>TIMEOUT_QUEUE := timeout_insert (timeout_of k1) t (TIMEOUT_QUEUE k1)\<rparr>))"

definition time_delay_internal :: "addr \<Rightarrow> kernel \<Rightarrow> (kernel, unit) prog" where
  "time_delay_internal t k = sched_execute_scheduler (timeout_enqueue t k)"

definition delay_active :: "psp_tick \<Rightarrow> kernel \<Rightarrow> (kernel, unit) prog" where
  "delay_active expiry k =
     andthen (time_delay_internal (ACTIVE_PTR k)
        (upd_td (ACTIVE_PTR k) (\<lambda>d. d\<lparr>TIMEOUT := expiry\<rparr>) (INT_DISABLE k)))
       (\<lambda>_ k1. Done () (INT_ENABLE k1))"

text \<open>\<^verbatim>\<open>_time_delay\<close>: one millisecond less, rounded, and two ticks more; the conversion keeps its static
  variables in \<open>QUICK\<close>.\<close>

definition time_delay :: "u32 \<Rightarrow> kernel \<Rightarrow> (kernel, unit) prog" where
  "time_delay milliseconds k =
     (if milliseconds = 0 then sched_yield k
      else let (ticks, q) = psp_msecs_to_ticks_quick k (QUICK k) (milliseconds - 1);
               k1 = k\<lparr>QUICK := q\<rparr>;
               timeout = PSP_ADD_TICKS_TO_TICK_STRUCT ticks 2 ticks
           in delay_active (psp_add_ticks k1 timeout (TIME k1)) k1)"

definition time_delay_for :: "psp_tick option \<Rightarrow> kernel \<Rightarrow> (kernel, unit) prog" where
  "time_delay_for ticks k =
     (case ticks of
        None \<Rightarrow> Done () (snd (task_set_error MQX_INVALID_PARAMETER k))
      | Some tk \<Rightarrow> delay_active (psp_add_ticks k tk (TIME k)) k)"

definition time_delay_ticks :: "u32 \<Rightarrow> kernel \<Rightarrow> (kernel, unit) prog" where
  "time_delay_ticks time_in_ticks k =
     (if time_in_ticks = 0 then sched_yield k
      else delay_active (PSP_ADD_TICKS_TO_TICK_STRUCT (TIME k) time_in_ticks (TIMEOUT (active_td k))) k)"

definition time_delay_until :: "psp_tick option \<Rightarrow> kernel \<Rightarrow> (kernel, unit) prog" where
  "time_delay_until ticks k =
     (case ticks of
        None \<Rightarrow> Done () (snd (task_set_error MQX_INVALID_PARAMETER k))
      | Some tk \<Rightarrow> delay_active tk k)"

definition time_dequeue :: "u32 \<Rightarrow> kernel \<Rightarrow> kernel" where
  "time_dequeue tid k =
     (let t = task_get_td tid k in if t = NULL then k else INT_ENABLE (TIME_DEQUEUE t (INT_DISABLE k)))"

subsection \<open>The tick handler\<close>

definition wake_timeout :: "addr \<Rightarrow> kernel \<Rightarrow> kernel" where
  "wake_timeout t k =
     (let k1 = k\<lparr>TIMEOUT_QUEUE := removeAll t (TIMEOUT_QUEUE k)\<rparr>;
          k2 = (if STATE (TDS k1 t) AND TD_IS_ON_AUX_QUEUE \<noteq> 0 then AUX_REMOVE (INFO (TDS k1 t)) t k1 else k1)
      in TASK_READY t k2)"

fun timeout_loop :: "addr list \<Rightarrow> kernel \<Rightarrow> kernel" where
  "timeout_loop [] k = k"
| "timeout_loop (t # ts) k =
     (if PSP_CMP_TICKS (TIME k) (timeout_of k t) \<ge> 0 then timeout_loop ts (wake_timeout t k) else k)"

definition time_slice_tick :: "kernel \<Rightarrow> kernel" where
  "time_slice_tick k =
     (let t = ACTIVE_PTR k
      in if FLAGS (TDS k t) AND MQX_TIME_SLICE_TASK \<noteq> 0
         then let k1 = upd_td t (\<lambda>d. d\<lparr>CURRENT_TIME_SLICE := PSP_INC_TICKS (CURRENT_TIME_SLICE d)\<rparr>) k
              in if FLAGS (TDS k1 t) AND TASK_PREEMPTION_DISABLED = 0 \<and>
                    PSP_CMP_TICKS (CURRENT_TIME_SLICE (TDS k1 t)) (TIME_SLICE (TDS k1 t)) \<ge> 0
                 then TASK_READY t (UNLINK_READY t k1) else k1
         else k)"

text \<open>\<^verbatim>\<open>_time_notify_kernel\<close>: \<open>hw\<close> is what the installed hardware tick function returns, \<open>None\<close> if none is
  installed. At the end it calls the interrupt function of the lightweight timers, if there are any; that of
  the timer component (\<^verbatim>\<open>timer.c\<close>) is not part of it.\<close>

definition run_lwtimers :: "kernel \<Rightarrow> kernel" where
  "run_lwtimers k = k\<lparr>OBJ := lwtimer_isr_internal (OBJ k)\<rparr>"

definition time_notify_kernel :: "u32 option \<Rightarrow> kernel \<Rightarrow> kernel" where
  "time_notify_kernel hw k =
     (let k1 = INT_DISABLE (k\<lparr>TIME := PSP_INC_TICKS (TIME k)\<rparr>);
          k2 = (case hw of None \<Rightarrow> k1 | Some h \<Rightarrow> k1\<lparr>TIME := (TIME k1)\<lparr>HW_TICKS := h\<rparr>\<rparr>);
          k3 = k2\<lparr>TIME := psp_normalize_ticks k2 (TIME k2)\<rparr>
      in run_lwtimers (INT_ENABLE (time_slice_tick (timeout_loop (TIMEOUT_QUEUE k3) k3))))"

lemma run_lwtimers_frame [simp]:
  "TDS (run_lwtimers k) = TDS k" "TD_LIST (run_lwtimers k) = TD_LIST k" "ACTIVE_PTR (run_lwtimers k) = ACTIVE_PTR k"
  "IN_ISR (run_lwtimers k) = IN_ISR k" "STUCK (run_lwtimers k) = STUCK k" "TIME (run_lwtimers k) = TIME k"
  "LWSEMS (run_lwtimers k) = LWSEMS k" "TIMEOUT_QUEUE (run_lwtimers k) = TIMEOUT_QUEUE k"
  "HW_TICKS_PER_TICK (run_lwtimers k) = HW_TICKS_PER_TICK k" "ready_tasks (run_lwtimers k) = ready_tasks k"
  "kinv (run_lwtimers k) = kinv k" "timeout_of (run_lwtimers k) = timeout_of k" "active_td (run_lwtimers k) = active_td k"
  by (simp_all add: run_lwtimers_def ready_tasks_def kinv_def shape_def placed_def priority_levels_def timeout_of_def
      active_td_def fun_eq_iff)

subsection \<open>The timeout queue\<close>

lemma timeout_insert_set [simp]: "set (timeout_insert e t xs) = insert t (set xs)"
  by (induction xs) auto

lemma timeout_insert_distinct [simp]: "distinct (timeout_insert e t xs) \<longleftrightarrow> t \<notin> set xs \<and> distinct xs"
  by (induction xs) auto

lemma PSP_CMP_ge: "PSP_CMP_TICKS a b \<ge> 0 \<longleftrightarrow> TICKS b \<le> TICKS a"
  by (auto simp: PSP_CMP_TICKS_def)

lemma timeout_insert_sorted:
  "sorted (map (\<lambda>t. TICKS (e t)) xs) \<Longrightarrow> sorted (map (\<lambda>t. TICKS (e t)) (timeout_insert e t xs))"
  by (induction xs) (auto simp: PSP_CMP_ge)

lemma timeout_bits:
  fixes s :: u32
  shows "(s OR IS_ON_TIMEOUT_Q) AND TD_IS_ON_AUX_QUEUE = s AND TD_IS_ON_AUX_QUEUE"
    and "(s OR IS_ON_TIMEOUT_Q) AND TD_IS_ON_QUEUE = s AND TD_IS_ON_QUEUE"
    and "(s OR IS_ON_TIMEOUT_Q) AND IS_ON_TIMEOUT_Q \<noteq> 0" and "s OR IS_ON_TIMEOUT_Q \<noteq> READY"
proof -
  show "(s OR IS_ON_TIMEOUT_Q) AND TD_IS_ON_AUX_QUEUE = s AND TD_IS_ON_AUX_QUEUE"
    "(s OR IS_ON_TIMEOUT_Q) AND TD_IS_ON_QUEUE = s AND TD_IS_ON_QUEUE"
    by (simp_all add: bit.conj_disj_distrib2)
  show a: "(s OR IS_ON_TIMEOUT_Q) AND IS_ON_TIMEOUT_Q \<noteq> 0"
    by (simp add: bit.conj_disj_distrib2)
  show "s OR IS_ON_TIMEOUT_Q \<noteq> READY"
  proof
    assume "s OR IS_ON_TIMEOUT_Q = READY"
    with a show False by simp
  qed
qed

lemma timeout_of_frame [simp]: "timeout_of (k\<lparr>READY_Q := r\<rparr>) = timeout_of k" "timeout_of (UNLINK_READY t k) = timeout_of k"
  by (simp_all add: timeout_of_def fun_eq_iff UNLINK_READY_def)

lemma timeout_enqueue_kinv:
  assumes k: "kinv k" and t: "t \<in> set (TD_LIST k)"
    and s: "STATE (TDS k t) AND IS_ON_TIMEOUT_Q = 0" "STATE (TDS k t) AND TD_IS_ON_QUEUE = 0"
  shows "kinv (timeout_enqueue t k)"
proof -
  have nt: "t \<notin> set (TIMEOUT_QUEUE k)" using k s by (simp add: kinv_def placed_def)
  have "shape (timeout_enqueue t k)"
    using k nt timeout_insert_sorted [of "timeout_of k" "TIMEOUT_QUEUE k" t]
    by (auto simp: kinv_def shape_def timeout_enqueue_def Let_def UNLINK_READY_def timeout_of_def distinct_removeAll)
  moreover have "placed (timeout_enqueue t k) t'" for t'
    using k t s timeout_bits [of "STATE (TDS k t)"]
    by (cases "t' = t") (auto simp: kinv_def placed_def timeout_enqueue_def Let_def UNLINK_READY_def timeout_of_def)
  ultimately show ?thesis by (simp add: kinv_def)
qed

lemma timeout_enqueue_frame [simp]:
  "TD_LIST (timeout_enqueue t k) = TD_LIST k" "ACTIVE_PTR (timeout_enqueue t k) = ACTIVE_PTR k"
  "IN_ISR (timeout_enqueue t k) = IN_ISR k" "STUCK (timeout_enqueue t k) = STUCK k"
  "LWSEMS (timeout_enqueue t k) = LWSEMS k" "OBJ (timeout_enqueue t k) = OBJ k" "AUX_QUEUES (timeout_enqueue t k) = AUX_QUEUES k"
  "x \<noteq> t \<Longrightarrow> TDS (timeout_enqueue t k) x = TDS k x" "TIME (timeout_enqueue t k) = TIME k"
  by (simp_all add: timeout_enqueue_def Let_def)

lemma delay_active_keeps:
  assumes r: "running idle k" and a: "ACTIVE_PTR k \<noteq> idle"
  shows "keeps (running idle) (running idle) R (delay_active expiry k)"
proof -
  let ?t = "ACTIVE_PTR k"
  let ?k1 = "upd_td ?t (\<lambda>d. d\<lparr>TIMEOUT := expiry\<rparr>) (INT_DISABLE k)"
  have k: "kinv (INT_DISABLE k)" and t: "?t \<in> set (TD_LIST k)" and st: "STATE (TDS k ?t) = READY"
    using r by (simp_all add: running_def top_active_def ready_tasks_def)
  have nt: "?t \<notin> set (TIMEOUT_QUEUE k)" using k st by (simp add: kinv_def placed_def)
  have k1: "kinv ?k1"
    using k nt by (auto simp: kinv_def shape_def placed_def)
  have "keeps (running idle) (running idle) R (sched_execute_scheduler (timeout_enqueue ?t ?k1))"
  proof (rule execute_keeps)
    show "kinv (timeout_enqueue ?t ?k1)" using k1 t st by (intro timeout_enqueue_kinv) simp_all
    show "idle \<in> ready_tasks (timeout_enqueue ?t ?k1)"
      by (rule ready_tasks_frame [of idle "INT_DISABLE k" ?t]) (use r a in \<open>simp_all add: running_unsettled\<close>)
  qed (use r in \<open>simp_all add: running_def top_active_def\<close>)
  then show ?thesis unfolding delay_active_def time_delay_internal_def by (rule keeps_andthen) simp
qed

lemma timeout_enqueue_unlinked: "timeout_enqueue t (UNLINK_READY t k) = timeout_enqueue t k"
  by (simp add: timeout_enqueue_def Let_def)

lemma kinv_set_timeout:
  "kinv k \<Longrightarrow> t \<notin> set (TIMEOUT_QUEUE k) \<Longrightarrow> kinv (upd_td t (\<lambda>d. d\<lparr>TIMEOUT := e\<rparr>) k)"
  by (auto simp: kinv_def shape_def placed_def)

text \<open>A task that has already joined a wait queue and delays itself: the functions that wait with a timeout.\<close>

lemma delay_blocked_keeps:
  assumes k: "kinv (UNLINK_READY (ACTIVE_PTR k) k)" and i: "idle \<in> ready_tasks k" "idle \<noteq> ACTIVE_PTR k"
    and t: "ACTIVE_PTR k \<in> set (TD_LIST k)" and s: "STATE (TDS k (ACTIVE_PTR k)) AND IS_ON_TIMEOUT_Q = 0"
      "STATE (TDS k (ACTIVE_PTR k)) AND TD_IS_ON_QUEUE = 0" and f: "\<not> STUCK k" "IN_ISR k = 0"
  shows "keeps (running idle) (running idle) R (delay_active expiry k)"
proof -
  let ?t = "ACTIVE_PTR k"
  let ?x = "upd_td ?t (\<lambda>d. d\<lparr>TIMEOUT := expiry\<rparr>) (INT_DISABLE k)"
  have n: "?t \<notin> set (TIMEOUT_QUEUE k)" using k s by (auto simp: kinv_def placed_def)
  have "kinv (UNLINK_READY ?t ?x)" unfolding UNLINK_READY_upd UNLINK_READY_commute
    using k n by (intro kinv_set_timeout) simp_all
  then have "kinv (timeout_enqueue ?t (UNLINK_READY ?t ?x))" using t s by (intro timeout_enqueue_kinv) simp_all
  then have "keeps (running idle) (running idle) R (sched_execute_scheduler (timeout_enqueue ?t ?x))"
    using i f by (intro execute_keeps) (simp_all add: timeout_enqueue_unlinked ready_tasks_def)
  then show ?thesis unfolding delay_active_def time_delay_internal_def by (rule keeps_andthen) simp
qed

subsection \<open>Expiry\<close>

lemma wake_timeout_kinv:
  assumes k: "kinv k" and t: "t \<in> set (TIMEOUT_QUEUE k)"
  shows "kinv (wake_timeout t k)"
proof -
  let ?k1 = "k\<lparr>TIMEOUT_QUEUE := removeAll t (TIMEOUT_QUEUE k)\<rparr>"
  let ?k2 = "if STATE (TDS ?k1 t) AND TD_IS_ON_AUX_QUEUE \<noteq> 0 then AUX_REMOVE (INFO (TDS ?k1 t)) t ?k1 else ?k1"
  have s: "t \<in> set (TD_LIST k)" "STATE (TDS k t) AND IS_ON_TIMEOUT_Q \<noteq> 0" "STATE (TDS k t) AND TD_IS_ON_QUEUE = 0"
    "STATE (TDS k t) \<noteq> READY" "MY_QUEUE (TDS k t) < priority_levels k"
    using k t by (auto simp: kinv_def placed_def)
  have "shape ?k2" using k by (auto simp: kinv_def shape_def distinct_removeAll sorted_removeAll AUX_REMOVE_def)
  moreover have "placed ?k2 t'" if "t' \<noteq> t" for t'
    using k that by (auto simp: kinv_def placed_def AUX_REMOVE_def)
  moreover have "nowhere t ?k2" using k s by (auto simp: kinv_def placed_def nowhere_def AUX_REMOVE_def)
  ultimately have "floating t ?k2" using s by (auto simp: floating_def AUX_REMOVE_def)
  then show ?thesis unfolding wake_timeout_def Let_def by (rule TASK_READY_kinv)
qed

lemma wake_timeout_frame [simp]:
  "TD_LIST (wake_timeout t k) = TD_LIST k" "ACTIVE_PTR (wake_timeout t k) = ACTIVE_PTR k"
  "IN_ISR (wake_timeout t k) = IN_ISR k" "STUCK (wake_timeout t k) = STUCK k" "TIME (wake_timeout t k) = TIME k"
  "LWSEMS (wake_timeout t k) = LWSEMS k"
  "TIMEOUT_QUEUE (wake_timeout t k) = removeAll t (TIMEOUT_QUEUE k)"
  "timeout_of (wake_timeout t k) = timeout_of k" "FLAGS (TDS (wake_timeout t k) x) = FLAGS (TDS k x)"
  "STATE (TDS (wake_timeout t k) x) = (if x = t then READY else STATE (TDS k x))"
  "MY_QUEUE (TDS (wake_timeout t k) x) = MY_QUEUE (TDS k x)"
  by (simp_all add: wake_timeout_def Let_def AUX_REMOVE_def timeout_of_def fun_eq_iff)

lemma ready_tasks_wake: "t \<in> set (TD_LIST k) \<Longrightarrow> ready_tasks (wake_timeout t k) = insert t (ready_tasks k)"
  by (auto simp: ready_tasks_def)

lemma timeout_loop_frame [simp]:
  "TIME (timeout_loop ts k) = TIME k" "ACTIVE_PTR (timeout_loop ts k) = ACTIVE_PTR k"
  "IN_ISR (timeout_loop ts k) = IN_ISR k" "STUCK (timeout_loop ts k) = STUCK k"
  "TD_LIST (timeout_loop ts k) = TD_LIST k" "timeout_of (timeout_loop ts k) = timeout_of k"
  "LWSEMS (timeout_loop ts k) = LWSEMS k" "FLAGS (TDS (timeout_loop ts k) x) = FLAGS (TDS k x)"
  by (induction ts arbitrary: k) simp_all

lemma timeout_loop_spec:
  "kinv k \<Longrightarrow> TIMEOUT_QUEUE k = ts \<Longrightarrow>
   kinv (timeout_loop ts k) \<and>
   TIMEOUT_QUEUE (timeout_loop ts k) = filter (\<lambda>t. TICKS (TIME k) < TICKS (timeout_of k t)) ts \<and>
   ready_tasks (timeout_loop ts k) = ready_tasks k \<union> {t \<in> set ts. TICKS (timeout_of k t) \<le> TICKS (TIME k)}"
proof (induction ts arbitrary: k)
  case Nil
  then show ?case by simp
next
  case (Cons t ts)
  from Cons.prems have d: "t \<notin> set ts" and so: "sorted (map (\<lambda>x. TICKS (timeout_of k x)) (t # ts))"
    by (auto simp: kinv_def shape_def timeout_of_def)
  show ?case
  proof (cases "TICKS (timeout_of k t) \<le> TICKS (TIME k)")
    case True
    let ?k = "wake_timeout t k"
    have w: "kinv ?k" "TIMEOUT_QUEUE ?k = ts" using Cons.prems d by (simp_all add: wake_timeout_kinv)
    have "t \<in> set (TD_LIST k)" using Cons.prems by (simp add: kinv_def placed_def) (metis list.set_intros(1))
    then show ?thesis
      using Cons.IH [OF w] True by (auto simp: PSP_CMP_ge ready_tasks_wake)
  next
    case False
    with so have late: "TICKS (TIME k) < TICKS (timeout_of k x)" if "x \<in> set (t # ts)" for x
      using that by (auto simp: not_le)
    then have "filter (\<lambda>x. TICKS (TIME k) < TICKS (timeout_of k x)) (t # ts) = t # ts"
      by (simp only: filter_id_conv) blast
    moreover have "{x \<in> set (t # ts). TICKS (timeout_of k x) \<le> TICKS (TIME k)} = {}"
      using late by (auto simp: not_le [symmetric])
    ultimately show ?thesis using Cons.prems False by (simp only: timeout_loop.simps PSP_CMP_ge) simp
  qed
qed

lemma time_slice_tick_frame [simp]:
  "TD_LIST (time_slice_tick k) = TD_LIST k" "ACTIVE_PTR (time_slice_tick k) = ACTIVE_PTR k"
  "IN_ISR (time_slice_tick k) = IN_ISR k" "STUCK (time_slice_tick k) = STUCK k" "TIME (time_slice_tick k) = TIME k"
  "TIMEOUT_QUEUE (time_slice_tick k) = TIMEOUT_QUEUE k" "timeout_of (time_slice_tick k) = timeout_of k"
  "FLAGS (TDS (time_slice_tick k) x) = FLAGS (TDS k x)" "LWSEMS (time_slice_tick k) = LWSEMS k"
  by (simp_all add: time_slice_tick_def Let_def timeout_of_def fun_eq_iff)

lemma time_slice_tick_spec:
  assumes k: "kinv k" and a: "ACTIVE_PTR k \<in> ready_tasks k"
  shows "kinv (time_slice_tick k)" "ready_tasks (time_slice_tick k) = ready_tasks k"
proof -
  let ?t = "ACTIVE_PTR k"
  let ?f = "\<lambda>d :: td. d\<lparr>CURRENT_TIME_SLICE := PSP_INC_TICKS (CURRENT_TIME_SLICE d)\<rparr>"
  have k1: "kinv (upd_td ?t ?f k)" using k kinv_same [of k "upd_td ?t ?f k"] same_upd [of ?f k ?t] by simp
  have "MY_QUEUE (TDS k ?t) < priority_levels k" using k a by (simp add: kinv_def placed_def ready_tasks_def)
  then have k2: "kinv (TASK_READY ?t (UNLINK_READY ?t (upd_td ?t ?f k)))"
    using k a by (intro requeue_kinv) simp_all
  from k k1 k2 show "kinv (time_slice_tick k)" by (simp add: time_slice_tick_def Let_def)
  show "ready_tasks (time_slice_tick k) = ready_tasks k"
    using a by (auto simp: time_slice_tick_def Let_def ready_tasks_def)
qed

lemma isr_exit_running:
  assumes "kinv k" "ACTIVE_PTR k \<in> ready_tasks k" "\<not> STUCK k" "IN_ISR k = 1" "idle \<in> ready_tasks k"
    and "FLAGS (active_td k) AND TASK_PREEMPTION_DISABLED = 0"
  shows "running idle (isr_exit k)"
proof -
  let ?k = "k\<lparr>IN_ISR := IN_ISR k - 1, INTERRUPT_CONTEXT := tl (INTERRUPT_CONTEXT k)\<rparr>"
  have k: "kinv ?k" "ready_tasks ?k = ready_tasks k"
    using assms(1) by (simp_all add: kinv_def shape_def placed_def ready_tasks_def)
  show ?thesis
  proof (cases "READY_Q k (CURRENT_READY_Q k) \<noteq> [] \<and> hd (READY_Q k (CURRENT_READY_Q k)) = ACTIVE_PTR k")
    case True
    then have "ACTIVE_PTR k \<in> set (READY_Q k (CURRENT_READY_Q k))" by (metis list.set_sel(1))
    then have "CURRENT_READY_Q k = MY_QUEUE (TDS k (ACTIVE_PTR k))" using assms(1) by (simp add: kinv_def placed_def)
    then show ?thesis
      using True assms k by (simp add: isr_exit_def Let_def running_def top_active_def active_td_def)
  next
    case False
    have "ready_tasks ?k \<noteq> {}" "\<not> STUCK ?k" using assms k by auto
    note s = switch_task_top [OF k(1) this]
    have "isr_exit k = switch_task ?k" using False assms by (auto simp: isr_exit_def Let_def active_td_def)
    then show ?thesis using s assms k by (simp add: running_def)
  qed
qed

lemma time_notify_spec:
  fixes hw :: "u32 option"
  assumes k: "kinv k" and a: "ACTIVE_PTR k \<in> ready_tasks k"
  defines "k' \<equiv> time_notify_kernel hw k"
  shows "kinv k' \<and> ACTIVE_PTR k' = ACTIVE_PTR k \<and> IN_ISR k' = IN_ISR k \<and> STUCK k' = STUCK k \<and>
    FLAGS (active_td k') = FLAGS (active_td k) \<and> timeout_of k' = timeout_of k \<and> LWSEMS k' = LWSEMS k \<and>
    TIMEOUT_QUEUE k' = filter (\<lambda>t. TICKS (TIME k') < TICKS (timeout_of k t)) (TIMEOUT_QUEUE k) \<and>
    ready_tasks k' = ready_tasks k \<union> {t \<in> set (TIMEOUT_QUEUE k). TICKS (timeout_of k t) \<le> TICKS (TIME k')}"
proof -
  let ?k1 = "INT_DISABLE (k\<lparr>TIME := PSP_INC_TICKS (TIME k)\<rparr>)"
  let ?k2 = "case hw of None \<Rightarrow> ?k1 | Some h \<Rightarrow> ?k1\<lparr>TIME := (TIME ?k1)\<lparr>HW_TICKS := h\<rparr>\<rparr>"
  define k3 where "k3 = ?k2\<lparr>TIME := psp_normalize_ticks ?k2 (TIME ?k2)\<rparr>"
  have same: "same_queues k k3"
    by (simp add: k3_def same_queues_def INT_DISABLE_def split: option.splits)
  then have k3: "kinv k3" "TIMEOUT_QUEUE k3 = TIMEOUT_QUEUE k" "ready_tasks k3 = ready_tasks k"
    using kinv_same [OF same] k by (simp_all add: same_queues_def ready_tasks_def)
  have t3: "timeout_of k3 = timeout_of k" using same by (simp add: same_queues_def timeout_of_def fun_eq_iff)
  have f3: "ACTIVE_PTR k3 = ACTIVE_PTR k" "IN_ISR k3 = IN_ISR k" "STUCK k3 = STUCK k" "LWSEMS k3 = LWSEMS k"
    "FLAGS (TDS k3 (ACTIVE_PTR k)) = FLAGS (TDS k (ACTIVE_PTR k))"
    by (simp_all add: k3_def INT_DISABLE_def split: option.splits)
  let ?k4 = "timeout_loop (TIMEOUT_QUEUE k3) k3"
  have e: "k' = run_lwtimers (INT_ENABLE (time_slice_tick ?k4))" by (simp add: k'_def time_notify_kernel_def Let_def k3_def)
  note l = timeout_loop_spec [OF k3(1) refl]
  have a4: "ACTIVE_PTR ?k4 \<in> ready_tasks ?k4" using l a k3 f3 by simp
  have tm: "timeout_of (INT_ENABLE x) = timeout_of x" for x by (simp add: timeout_of_def fun_eq_iff)
  show ?thesis
    using l time_slice_tick_spec [OF _ a4] k3 t3 f3 by (simp add: e tm active_td_def)
qed

lemma tick_spec:
  fixes hw :: "u32 option"
  assumes "running idle k" and "FLAGS (active_td k) AND TASK_PREEMPTION_DISABLED = 0"
    and k': "k' = isr_exit (time_notify_kernel hw (isr_enter k))"
  shows "running idle k' \<and>
    TIMEOUT_QUEUE k' = filter (\<lambda>t. TICKS (TIME k') < TICKS (timeout_of k t)) (TIMEOUT_QUEUE k) \<and>
    ready_tasks k' = ready_tasks k \<union> {t \<in> set (TIMEOUT_QUEUE k). TICKS (timeout_of k t) \<le> TICKS (TIME k')}"
proof -
  let ?e = "isr_enter k"
  have e: "kinv ?e" "ACTIVE_PTR ?e \<in> ready_tasks ?e" "ready_tasks ?e = ready_tasks k" "timeout_of ?e = timeout_of k"
    "TIMEOUT_QUEUE ?e = TIMEOUT_QUEUE k"
    using assms(1) by (simp_all add: isr_enter_def running_def top_active_def kinv_def shape_def placed_def
        ready_tasks_def timeout_of_def fun_eq_iff)
  note n = time_notify_spec [OF e(1,2), of hw]
  let ?n = "time_notify_kernel hw ?e"
  have r: "running idle k'" unfolding k'
    by (rule isr_exit_running)
      (use n e assms(1,2) in \<open>auto simp: isr_enter_def running_def top_active_def active_td_def\<close>)
  have fr: "TIMEOUT_QUEUE k' = TIMEOUT_QUEUE ?n" "TIME k' = TIME ?n" "ready_tasks k' = ready_tasks ?n"
    unfolding k' by (simp_all add: isr_exit_def Let_def ready_tasks_def switch_task_def split: option.splits)
  show ?thesis using r n e fr by simp
qed

lemma tick_running:
  "running idle k \<Longrightarrow> FLAGS (active_td k) AND TASK_PREEMPTION_DISABLED = 0 \<Longrightarrow>
   running idle (isr_exit (time_notify_kernel hw (isr_enter k)))"
  using tick_spec [of idle k _ hw] by blast

text \<open>
  C4 (functional). One timer interrupt: the clock advances, exactly the delayed and timed-waiting tasks
  whose expiry has been reached become ready, no expired task is left waiting, and when the
  interrupt returns the dispatcher has again picked a best ready task.
\<close>

theorem tick_interrupt_wakes_expired:
  fixes hw :: "u32 option"
  assumes "running idle k" and "FLAGS (active_td k) AND TASK_PREEMPTION_DISABLED = 0"
  defines "k' \<equiv> isr_exit (time_notify_kernel hw (isr_enter k))"
  shows "running idle k' \<and> (\<forall>t \<in> ready_tasks k'. MY_QUEUE (active_td k') \<le> MY_QUEUE (TDS k' t)) \<and>
    TIMEOUT_QUEUE k' = filter (\<lambda>t. TICKS (TIME k') < TICKS (timeout_of k t)) (TIMEOUT_QUEUE k) \<and>
    ready_tasks k' = ready_tasks k \<union> {t \<in> set (TIMEOUT_QUEUE k). TICKS (timeout_of k t) \<le> TICKS (TIME k')}"
proof -
  have "k' = isr_exit (time_notify_kernel hw (isr_enter k))" by (simp add: k'_def)
  note s = tick_spec [OF assms(1,2) this]
  then have "\<forall>t \<in> ready_tasks k'. MY_QUEUE (active_td k') \<le> MY_QUEUE (TDS k' t)"
    using top_active_best [of k'] by (simp add: running_def)
  with s show ?thesis by blast
qed

lemma isr_exit_TIME [simp]: "TIME (isr_exit k) = TIME k"
  by (simp add: isr_exit_def Let_def)

theorem tick_interrupt_wakes_expired_witness:
  "300 \<in> ready_tasks (isr_exit (time_notify_kernel None (isr_enter demo)))
   \<and> running 100 (isr_exit (time_notify_kernel None (isr_enter demo)))"
proof -
  let ?k = "isr_exit (time_notify_kernel None (isr_enter demo))"
  have f: "FLAGS (active_td demo) AND TASK_PREEMPTION_DISABLED = 0" by (simp add: active_td_def demo_def mk_td_def)
  note th = tick_interrupt_wakes_expired [OF demo_running f, of None]
  have q: "TIMEOUT_QUEUE demo = [300]" "TICKS (timeout_of demo 300) = 5" by (simp_all add: demo_def timeout_of_def mk_td_def)
  have "TIME demo = \<lparr>TICKS = 4, HW_TICKS = 0\<rparr>" "HW_TICKS_PER_TICK demo = 1000" by (simp_all add: demo_def)
  then have "TICKS (TIME ?k) = 5"
    by (simp add: isr_enter_def Let_def time_notify_kernel_def PSP_INC_TICKS_def psp_normalize_ticks_def INT_DISABLE_def upd_td_def)
  with th q show ?thesis by simp
qed

subsection \<open>Every delay ends\<close>

text \<open>A timer interrupt, and a run of them: one reading of the hardware tick counter for each, \<open>None\<close> where no
  hardware tick function is installed. A reading of a whole tick or more has an interrupt pending: the
  handler counts that tick too.\<close>

definition timer_interrupt :: "u32 option \<Rightarrow> kernel \<Rightarrow> kernel" where
  "timer_interrupt hw k = isr_exit (time_notify_kernel hw (isr_enter k))"

definition timer_interrupts :: "u32 option list \<Rightarrow> kernel \<Rightarrow> kernel" where
  "timer_interrupts hws k = fold timer_interrupt hws k"

definition ticks_passed :: "u32 \<Rightarrow> u32 option list \<Rightarrow> nat" where
  "ticks_passed per_tick hws = (\<Sum>hw \<leftarrow> hws. 1 + (case hw of None \<Rightarrow> 0 | Some h \<Rightarrow> unat h div unat per_tick))"

lemma ticks_passed_simps [simp]:
  "ticks_passed p [] = 0"
  "ticks_passed p (hws @ [hw]) = ticks_passed p hws + Suc (case hw of None \<Rightarrow> 0 | Some h \<Rightarrow> unat h div unat p)"
  by (simp_all add: ticks_passed_def)

lemma timer_interrupts_simps [simp]:
  "timer_interrupts [] k = k" "timer_interrupts (hws @ [hw]) k = timer_interrupt hw (timer_interrupts hws k)"
  by (simp_all add: timer_interrupts_def)

lemma ticks_passed_length:
  assumes "\<And>h. Some h \<in> set hws \<Longrightarrow> h < p"
  shows "ticks_passed p hws = length hws"
  using assms
proof (induction hws)
  case (Cons hw hws)
  then have "ticks_passed p hws = length hws" by simp
  then show ?case using Cons.prems by (cases hw) (auto simp: ticks_passed_def word_less_nat_alt)
qed simp

lemma clock_frame [simp]:
  "HW_TICKS_PER_TICK (upd_td t f k) = HW_TICKS_PER_TICK k" "HW_TICKS_PER_TICK (TASK_READY t k) = HW_TICKS_PER_TICK k"
  "HW_TICKS_PER_TICK (UNLINK_READY t k) = HW_TICKS_PER_TICK k" "HW_TICKS_PER_TICK (switch_task k) = HW_TICKS_PER_TICK k"
  "HW_TICKS_PER_TICK (wake_timeout t k) = HW_TICKS_PER_TICK k" "HW_TICKS_PER_TICK (INT_ENABLE k) = HW_TICKS_PER_TICK k"
  "HW_TICKS_PER_TICK (INT_DISABLE k) = HW_TICKS_PER_TICK k" "HW_TICKS_PER_TICK (time_slice_tick k) = HW_TICKS_PER_TICK k"
  "HW_TICKS_PER_TICK (isr_exit k) = HW_TICKS_PER_TICK k"
  by (simp_all add: upd_td_def TASK_READY_def UNLINK_READY_def switch_task_def wake_timeout_def AUX_REMOVE_def Let_def
      INT_ENABLE_def INT_DISABLE_def time_slice_tick_def isr_exit_def split: option.splits)

lemma timeout_loop_clock [simp]: "HW_TICKS_PER_TICK (timeout_loop ts k) = HW_TICKS_PER_TICK k"
  by (induction ts arbitrary: k) simp_all

lemma normalize_after_tick:
  fixes k :: kernel and c :: u64 and h :: u32
  assumes h: "h < HW_TICKS_PER_TICK k \<or> HW_TICKS_PER_TICK k \<noteq> 0"
  defines "t \<equiv> psp_normalize_ticks k \<lparr>TICKS = c, HW_TICKS = h\<rparr>"
  shows "HW_TICKS t < HW_TICKS_PER_TICK k"
    "unat c + unat h div unat (HW_TICKS_PER_TICK k) < 2 ^ 64 \<Longrightarrow>
     unat (TICKS t) = unat c + unat h div unat (HW_TICKS_PER_TICK k)"
proof -
  let ?p = "HW_TICKS_PER_TICK k"
  have p: "0 < unat ?p" using h by (auto simp: word_less_nat_alt unat_gt_0)
  have m: "h - h div ?p * ?p = h mod ?p" by (simp add: minus_div_mult_eq_mod)
  show "HW_TICKS t < ?p"
    using p by (auto simp: t_def psp_normalize_ticks_def Let_def m word_less_nat_alt word_le_nat_alt unat_mod)
  have "unat (ucast (h div ?p) :: u64) = unat h div unat ?p" by (simp add: word_nat unat_div)
  then show "unat (TICKS t) = unat c + unat h div unat ?p" if "unat c + unat h div unat ?p < 2 ^ 64"
    using that by (auto simp: t_def psp_normalize_ticks_def Let_def unat_add_small not_le word_less_nat_alt)
qed

lemma timer_interrupt_frame:
  "TD_LIST (timer_interrupt hw k) = TD_LIST k" "FLAGS (TDS (timer_interrupt hw k) x) = FLAGS (TDS k x)"
  "HW_TICKS_PER_TICK (timer_interrupt hw k) = HW_TICKS_PER_TICK k" "timeout_of (timer_interrupt hw k) = timeout_of k"
  "TIME (timer_interrupt hw k) = psp_normalize_ticks k
     \<lparr>TICKS = TICKS (TIME k) + 1, HW_TICKS = (case hw of None \<Rightarrow> HW_TICKS (TIME k) | Some h \<Rightarrow> h)\<rparr>"
proof -
  let ?n = "time_notify_kernel hw (isr_enter k)"
  have e: "TDS (isr_exit y) = TDS y" "TD_LIST (isr_exit y) = TD_LIST y" for y by (simp_all add: isr_exit_def Let_def)
  have t: "timeout_of (INT_ENABLE y) = timeout_of y" "timeout_of (INT_DISABLE y) = timeout_of y" for y
    by (simp_all add: timeout_of_def fun_eq_iff)
  show "TD_LIST (timer_interrupt hw k) = TD_LIST k" "FLAGS (TDS (timer_interrupt hw k) x) = FLAGS (TDS k x)"
    "HW_TICKS_PER_TICK (timer_interrupt hw k) = HW_TICKS_PER_TICK k"
    by (simp_all add: timer_interrupt_def e time_notify_kernel_def isr_enter_def Let_def split: option.splits)
  have "timeout_of (timer_interrupt hw k) = timeout_of ?n" by (simp add: timer_interrupt_def timeout_of_def fun_eq_iff e)
  also have "\<dots> = timeout_of k"
    by (simp add: time_notify_kernel_def isr_enter_def Let_def t) (simp add: timeout_of_def fun_eq_iff split: option.splits)
  finally show "timeout_of (timer_interrupt hw k) = timeout_of k" .
  show "TIME (timer_interrupt hw k) = psp_normalize_ticks k
     \<lparr>TICKS = TICKS (TIME k) + 1, HW_TICKS = (case hw of None \<Rightarrow> HW_TICKS (TIME k) | Some h \<Rightarrow> h)\<rparr>"
    by (simp add: timer_interrupt_def time_notify_kernel_def isr_enter_def Let_def psp_normalize_ticks_def PSP_INC_TICKS_def
        split: option.splits)
qed

lemma timeout_loop_INFO [simp]: "INFO (TDS (timeout_loop ts k) x) = INFO (TDS k x)"
  by (induction ts arbitrary: k) (simp_all add: wake_timeout_def AUX_REMOVE_def Let_def)

lemma timer_interrupt_INFO: "INFO (TDS (timer_interrupt hw k) x) = INFO (TDS k x)"
proof -
  have e: "TDS (isr_exit y) = TDS y" "INFO (TDS (time_slice_tick y) x) = INFO (TDS y x)" for y
    by (simp_all add: isr_exit_def time_slice_tick_def Let_def)
  show ?thesis by (simp add: timer_interrupt_def e time_notify_kernel_def isr_enter_def Let_def split: option.splits)
qed

text \<open>The clock after one interrupt.\<close>

lemma timer_interrupt_clock:
  assumes "HW_TICKS (TIME k) < HW_TICKS_PER_TICK k"
    and "unat (TICKS (TIME k)) + ticks_passed (HW_TICKS_PER_TICK k) [hw] < 2 ^ 64"
  shows "HW_TICKS (TIME (timer_interrupt hw k)) < HW_TICKS_PER_TICK k
    \<and> unat (TICKS (TIME (timer_interrupt hw k))) = unat (TICKS (TIME k)) + ticks_passed (HW_TICKS_PER_TICK k) [hw]"
proof -
  let ?p = "HW_TICKS_PER_TICK k" and ?c = "TICKS (TIME k)" and ?h = "case hw of None \<Rightarrow> HW_TICKS (TIME k) | Some h \<Rightarrow> h"
  have p: "?h < ?p \<or> ?p \<noteq> 0" using assms(1) by (metis word_not_simps(1))
  have d: "unat ?h div unat ?p = (case hw of None \<Rightarrow> 0 | Some h \<Rightarrow> unat h div unat ?p)"
    using assms(1) by (cases hw) (simp_all add: word_less_nat_alt)
  then have w: "unat ?c + 1 + unat ?h div unat ?p < 2 ^ 64" using assms(2) by (simp add: ticks_passed_def)
  then have "unat (?c + 1) = unat ?c + 1" using unat_add_small [of ?c 1] by simp
  then show ?thesis unfolding timer_interrupt_frame(5)
    using normalize_after_tick [OF p, of "?c + 1"] w d by (simp add: ticks_passed_def)
qed

lemma timer_interrupts_spec:
  assumes r: "running idle k" and f: "\<forall>t \<in> set (TD_LIST k). FLAGS (TDS k t) AND TASK_PREEMPTION_DISABLED = 0"
    and hw: "HW_TICKS (TIME k) < HW_TICKS_PER_TICK k"
    and w: "unat (TICKS (TIME k)) + ticks_passed (HW_TICKS_PER_TICK k) hws < 2 ^ 64"
  defines "k' \<equiv> timer_interrupts hws k"
  shows "running idle k' \<and> TD_LIST k' = TD_LIST k \<and> (\<forall>t. FLAGS (TDS k' t) = FLAGS (TDS k t)) \<and> timeout_of k' = timeout_of k \<and>
    HW_TICKS_PER_TICK k' = HW_TICKS_PER_TICK k \<and> HW_TICKS (TIME k') < HW_TICKS_PER_TICK k' \<and>
    unat (TICKS (TIME k')) = unat (TICKS (TIME k)) + ticks_passed (HW_TICKS_PER_TICK k) hws \<and>
    (hws \<noteq> [] \<longrightarrow> (\<forall>t \<in> set (TIMEOUT_QUEUE k).
       if unat (TICKS (timeout_of k t)) \<le> unat (TICKS (TIME k)) + ticks_passed (HW_TICKS_PER_TICK k) hws
       then t \<in> ready_tasks k' else t \<in> set (TIMEOUT_QUEUE k')))"
  using w unfolding k'_def
proof (induction hws rule: rev_induct)
  case Nil
  show ?case using r hw by simp
next
  case (snoc h hws)
  let ?p = "HW_TICKS_PER_TICK k"
  define k1 where "k1 = timer_interrupts hws k"
  define k2 where "k2 = timer_interrupt h k1"
  have step: "timer_interrupts (hws @ [h]) k = k2" by (simp add: k1_def k2_def)
  have "unat (TICKS (TIME k)) + ticks_passed ?p hws < 2 ^ 64" using snoc.prems by simp
  note IH = snoc.IH [OF this, folded k1_def]
  have a: "FLAGS (active_td k1) AND TASK_PREEMPTION_DISABLED = 0"
    using IH f by (auto simp: active_td_def running_def top_active_def ready_tasks_def)
  have "running idle k1" using IH by blast
  note s = tick_spec [OF this a k2_def [unfolded timer_interrupt_def]]
  have fr: "TD_LIST k2 = TD_LIST k" "FLAGS (TDS k2 t) = FLAGS (TDS k t)" "timeout_of k2 = timeout_of k"
    "HW_TICKS_PER_TICK k2 = ?p" for t
    using IH timer_interrupt_frame [of h k1] by (simp_all add: k2_def [symmetric])
  have one: "ticks_passed ?p (hws @ [h]) = ticks_passed ?p hws + ticks_passed ?p [h]" by (simp add: ticks_passed_def)
  have q: "HW_TICKS_PER_TICK k1 = ?p" "HW_TICKS (TIME k1) < ?p"
    "unat (TICKS (TIME k1)) = unat (TICKS (TIME k)) + ticks_passed ?p hws"
    using IH by metis+
  then have "unat (TICKS (TIME k1)) + ticks_passed ?p [h] < 2 ^ 64" using snoc.prems unfolding one by simp
  then have c: "HW_TICKS (TIME k2) < ?p" "unat (TICKS (TIME k2)) = unat (TICKS (TIME k)) + ticks_passed ?p (hws @ [h])"
    using timer_interrupt_clock [of k1 h] q unfolding one by (simp_all add: k2_def [symmetric])
  have "if unat (TICKS (timeout_of k t)) \<le> unat (TICKS (TIME k)) + ticks_passed ?p (hws @ [h])
      then t \<in> ready_tasks k2 else t \<in> set (TIMEOUT_QUEUE k2)"
    if t: "t \<in> set (TIMEOUT_QUEUE k)" for t
  proof (cases "t \<in> ready_tasks k1 \<and> hws \<noteq> [] \<and> unat (TICKS (timeout_of k t)) \<le> unat (TICKS (TIME k)) + ticks_passed ?p hws")
    case True
    then show ?thesis using s by auto
  next
    case False
    with IH t have "t \<in> set (TIMEOUT_QUEUE k1)" by (cases "hws = []") (auto simp: k1_def split: if_splits)
    then show ?thesis using s IH c by (auto simp: word_le_nat_alt word_less_nat_alt)
  qed
  moreover have "running idle k2" using s by blast
  ultimately show ?case using c fr unfolding step by simp
qed

text \<open>
  C23 (liveness). Every delay ends, and on time, with or without a hardware tick function and whatever it
  returns. From a running state in which all tasks are preemptible and the time is normalised, after any
  run of timer interrupts a task of the timeout queue is ready if its expiry is not later than the time
  now plus the ticks that have passed, and still waits otherwise. A tick passes with every interrupt, and
  one for every whole tick in a reading of the hardware counter, so exactly as many as interrupts when
  each reading is less than a tick. The tick counter must not overflow.
\<close>

theorem delayed_task_wakes:
  assumes "running idle k" and "\<forall>t \<in> set (TD_LIST k). FLAGS (TDS k t) AND TASK_PREEMPTION_DISABLED = 0"
    and "HW_TICKS (TIME k) < HW_TICKS_PER_TICK k" and "hws \<noteq> []"
    and "unat (TICKS (TIME k)) + ticks_passed (HW_TICKS_PER_TICK k) hws < 2 ^ 64"
    and "t \<in> set (TIMEOUT_QUEUE k)"
  shows "running idle (timer_interrupts hws k) \<and>
    (if unat (TICKS (timeout_of k t)) \<le> unat (TICKS (TIME k)) + ticks_passed (HW_TICKS_PER_TICK k) hws
     then t \<in> ready_tasks (timer_interrupts hws k) else t \<in> set (TIMEOUT_QUEUE (timer_interrupts hws k))) \<and>
    ((\<forall>h. Some h \<in> set hws \<longrightarrow> h < HW_TICKS_PER_TICK k) \<longrightarrow> ticks_passed (HW_TICKS_PER_TICK k) hws = length hws)"
  using timer_interrupts_spec [OF assms(1-3,5)] assms(4,6) ticks_passed_length [of hws "HW_TICKS_PER_TICK k"] by blast

theorem delayed_task_wakes_witness:
  "300 \<in> ready_tasks (timer_interrupts [Some 40, None, Some 2500] demo) \<and> ticks_passed 1000 [Some 40, None, Some 2500] = 5"
proof -
  let ?l = "[Some 40, None, Some 2500]"
  have "\<forall>t \<in> set (TD_LIST demo). FLAGS (TDS demo t) AND TASK_PREEMPTION_DISABLED = 0" by (simp add: demo_def mk_td_def)
  moreover have p: "ticks_passed 1000 ?l = 5" "HW_TICKS_PER_TICK demo = 1000" by (simp_all add: ticks_passed_def demo_def)
  moreover have "HW_TICKS (TIME demo) < 1000" "unat (TICKS (TIME demo)) + 5 < 2 ^ 64"
    "300 \<in> set (TIMEOUT_QUEUE demo)" "unat (TICKS (timeout_of demo 300)) \<le> unat (TICKS (TIME demo)) + 5"
    by (simp_all add: demo_def timeout_of_def mk_td_def)
  ultimately show ?thesis using delayed_task_wakes [OF demo_running, of ?l 300] by simp
qed

subsection \<open>Lightweight timers and the tick\<close>

lemma OBJ_ticks [simp]: "OBJ (time_slice_tick k) = OBJ k" "OBJ (timeout_loop ts k) = OBJ k" "OBJ (isr_exit k) = OBJ k"
proof -
  show "OBJ (timeout_loop ts k) = OBJ k"
    by (induction ts arbitrary: k) (simp_all add: wake_timeout_def AUX_REMOVE_def Let_def)
qed (simp_all add: time_slice_tick_def isr_exit_def Let_def)

lemma OBJ_timer_interrupts: "OBJ (timer_interrupts hws k) = (lwtimer_isr_internal ^^ length hws) (OBJ k)"
  by (induction hws rule: rev_induct)
    (simp_all add: timer_interrupt_def time_notify_kernel_def run_lwtimers_def isr_enter_def Let_def split: option.splits)

text \<open>
  C15 (functional). The schedule of the lightweight timers. From a state in which every periodic queue is well
  formed and no timer is late, the calls of timer functions made by the next timer interrupts, whatever the
  hardware tick counter reads, are exactly these, in this order: at the \<open>i\<close>-th interrupt each periodic queue, once its waiting time is over,
  calls the timers whose offset is the phase of the queue at that tick, its phase now plus the ticks
  since, modulo the period. So every timer runs once in each period, at its offset, for ever.
\<close>

theorem lwtimer_schedule:
  assumes "LWTIMERS (OBJ k) = Some ps" and "lwtimers_ok (OBJ k)" and "all_on_time (OBJ k)"
  defines "S \<equiv> LWTIMER_STRUCTS (OBJ k)"
  shows "LWTIMER_CALLS (OBJ (timer_interrupts hws k)) = LWTIMER_CALLS (OBJ k) @
    concat (map (\<lambda>i. concat (map (\<lambda>p. map (call_of S) (timers_at S (LWTIMER_PERIODS (OBJ k) p) i)) ps)) [0 ..< length hws])"
  unfolding OBJ_timer_interrupts S_def using assms(1,3) by (intro isr_schedule assms(1,2)) (simp add: all_on_time_def)

theorem lwtimer_schedule_witness:
  "LWTIMER_CALLS (OBJ (timer_interrupts (replicate 8 None) (demo\<lparr>OBJ := demo_timers\<rparr>))) = [(900, 22), (900, 20), (900, 22), (900, 21)]"
proof -
  let ?k = "demo\<lparr>OBJ := demo_timers\<rparr>"
  have k: "LWTIMERS (OBJ ?k) = Some [10, 11]" "lwtimers_ok (OBJ ?k)" "all_on_time (OBJ ?k)"
    using demo_timers_ok by (simp_all add: demo_timers_def)
  have "[0 ..< 8] = [0, 1, 2, 3, 4, 5, 6, 7 :: nat]" by (simp add: upt_conv_Cons)
  then show ?thesis unfolding lwtimer_schedule [OF k, of "replicate 8 None"] by (simp add: timers_at_def demo_timers_def demo_def)
qed

end
