(* ===== verification/Lwsem.thy ===== *)
theory Lwsem
  imports Kernel_Time
begin

unbundle bit_operations_syntax

text \<open>
  Lightweight semaphores (\<^verbatim>\<open>kernel/lwsem.c\<close>). The semaphore at address \<open>s\<close> has its wait queue at \<open>s + 8\<close>
  (\<^verbatim>\<open>NEXT\<close> and \<^verbatim>\<open>PREV\<close> come first). \<^verbatim>\<open>VALUE\<close> is a signed 32-bit counter. \<^verbatim>\<open>_lwsem_test\<close>, which checks the
  link structure of the queues, is in theory \<^verbatim>\<open>Object_Tests\<close>.
\<close>

abbreviation (input) LWSEM_VALID :: u32 where "LWSEM_VALID \<equiv> 0x6C77736D"

definition int32 :: "int \<Rightarrow> int" where "int32 x = signed_take_bit 31 x"

definition TD_QUEUE :: "addr \<Rightarrow> addr" where "TD_QUEUE sem_ptr = sem_ptr + 8"

definition sem_valid :: "addr \<Rightarrow> kernel \<Rightarrow> bool" where
  "sem_valid s k \<longleftrightarrow> LWSEM_VALID_FIELD (LWSEMS k s) = LWSEM_VALID"

definition upd_sem :: "addr \<Rightarrow> (lwsem \<Rightarrow> lwsem) \<Rightarrow> kernel \<Rightarrow> kernel" where
  "upd_sem s f k = k\<lparr>LWSEMS := (LWSEMS k)(s := f (LWSEMS k s))\<rparr>"

definition sem_value :: "addr \<Rightarrow> kernel \<Rightarrow> int" where
  "sem_value s k = VALUE (LWSEMS k s)"

definition sem_waiters :: "addr \<Rightarrow> kernel \<Rightarrow> addr list" where
  "sem_waiters s k = AUX_QUEUES k (TD_QUEUE s)"

subsection \<open>Creation and destruction\<close>

definition lwsem_create_internal :: "addr \<Rightarrow> int \<Rightarrow> bool \<Rightarrow> kernel \<Rightarrow> u32 \<times> kernel" where
  "lwsem_create_internal s initial_number hidden k =
     (let k1 = upd_sem s (\<lambda>l. l\<lparr>VALUE := initial_number\<rparr>) k;
          k2 = INT_DISABLE (k1\<lparr>AUX_QUEUES := (AUX_QUEUES k1)(TD_QUEUE s := [])\<rparr>)
      in if \<not> hidden \<and> s \<in> set (LWSEM_LIST k2) then (MQX_EINVAL, INT_ENABLE k2)
         else let k3 = (if \<not> hidden then k2\<lparr>LWSEM_LIST := LWSEM_LIST k2 @ [s]\<rparr> else k2)
              in (MQX_OK, INT_ENABLE (upd_sem s (\<lambda>l. l\<lparr>LWSEM_VALID_FIELD := LWSEM_VALID\<rparr>) k3)))"

definition lwsem_create :: "addr \<Rightarrow> int \<Rightarrow> kernel \<Rightarrow> u32 \<times> kernel" where
  "lwsem_create s initial_number k = lwsem_create_internal s initial_number False k"

definition lwsem_create_hidden :: "addr \<Rightarrow> int \<Rightarrow> kernel \<Rightarrow> u32 \<times> kernel" where
  "lwsem_create_hidden s initial_number k = lwsem_create_internal s initial_number True k"

definition lwsem_destroy :: "addr \<Rightarrow> kernel \<Rightarrow> (kernel, u32) prog" where
  "lwsem_destroy s k =
     (let k1 = INT_DISABLE k
      in if \<not> sem_valid s k1 then Done MQX_INVALID_LWSEM (INT_ENABLE k1)
         else let k2 = upd_sem s (\<lambda>l. l\<lparr>LWSEM_VALID_FIELD := 0\<rparr>) k1;
                  k3 = wake_all (TD_QUEUE s) (sem_waiters s k2) k2;
                  k4 = k3\<lparr>LWSEM_LIST := removeAll s (LWSEM_LIST k3)\<rparr>
              in andthen (sched_check_scheduler (INT_ENABLE k4)) (\<lambda>_ k5. Done MQX_OK k5))"

definition lwsem_is_valid :: "addr \<Rightarrow> kernel \<Rightarrow> bool" where
  "lwsem_is_valid s k = (if s = NULL then False else sem_valid s k)"

subsection \<open>Polling and posting\<close>

definition lwsem_poll :: "addr \<Rightarrow> kernel \<Rightarrow> bool \<times> kernel" where
  "lwsem_poll s k =
     (if \<not> sem_valid s k then (False, k)
      else let k1 = INT_DISABLE k
           in if sem_value s k1 \<le> 0 then (False, INT_ENABLE k1)
              else (True, INT_ENABLE (upd_sem s (\<lambda>l. l\<lparr>VALUE := VALUE l - 1\<rparr>) k1)))"

definition lwsem_post :: "addr \<Rightarrow> kernel \<Rightarrow> (kernel, u32) prog" where
  "lwsem_post s k =
     (if \<not> sem_valid s k then Done MQX_INVALID_LWSEM k
      else let k1 = INT_DISABLE k
           in andthen
                (if sem_value s k1 \<ge> 0 \<and> sem_waiters s k1 \<noteq> []
                 then sched_check_scheduler
                        (aux_wake (TD_QUEUE s) (\<lambda>d. d\<lparr>INFO := 0\<rparr>) (hd (sem_waiters s k1)) k1)
                 else Done () (upd_sem s (\<lambda>l. l\<lparr>VALUE := int32 (VALUE l + 1)\<rparr>) k1))
                (\<lambda>_ k2. Done MQX_OK (INT_ENABLE k2)))"

subsection \<open>Waiting\<close>

text \<open>The end of the waiting functions: the semaphore may have been destroyed in the meantime.\<close>

definition wait_end :: "addr \<Rightarrow> u32 \<Rightarrow> kernel \<Rightarrow> (kernel, u32) prog" where
  "wait_end s result k =
     (if \<not> sem_valid s k then Done MQX_INVALID_LWSEM (INT_ENABLE k) else Done result (INT_ENABLE k))"

definition wait_blocked :: "addr \<Rightarrow> kernel \<Rightarrow> (kernel, u32) prog" where
  "wait_blocked s k =
     andthen (sched_execute_scheduler (aux_block LWSEM_BLOCKED (TD_QUEUE s) (ACTIVE_PTR k) k)) (\<lambda>_ k1. Done MQX_OK k1)"

definition lwsem_wait_timed_internal :: "addr \<Rightarrow> addr \<Rightarrow> kernel \<Rightarrow> (kernel, u32) prog" where
  "lwsem_wait_timed_internal s t k =
     andthen (time_delay_internal t (aux_block LWSEM_BLOCKED (TD_QUEUE s) t k))
       (\<lambda>_ k1. Done (if INFO (TDS k1 t) \<noteq> 0 then MQX_LWSEM_WAIT_TIMEOUT else MQX_OK) k1)"

text \<open>\<^verbatim>\<open>lwsem_wait_with blocked\<close> is the shape \<^verbatim>\<open>_lwsem_wait\<close>, \<^verbatim>\<open>_lwsem_wait_for\<close>, \<^verbatim>\<open>_lwsem_wait_ticks\<close> and
  \<^verbatim>\<open>_lwsem_wait_until\<close> share; \<open>blocked\<close> is the code for a semaphore that is not available.\<close>

definition lwsem_wait_with :: "(kernel \<Rightarrow> (kernel, u32) prog) \<Rightarrow> addr \<Rightarrow> kernel \<Rightarrow> (kernel, u32) prog" where
  "lwsem_wait_with blocked s k =
     (if IN_ISR k \<noteq> 0 then Done MQX_CANNOT_CALL_FUNCTION_FROM_ISR k
      else if \<not> sem_valid s k then Done MQX_INVALID_LWSEM k
      else let k1 = INT_DISABLE k
           in andthen (if sem_value s k1 \<le> 0 then blocked k1
                       else Done MQX_OK (upd_sem s (\<lambda>l. l\<lparr>VALUE := VALUE l - 1\<rparr>) k1))
                (wait_end s))"

definition wait_until_timeout :: "addr \<Rightarrow> (kernel \<Rightarrow> psp_tick) \<Rightarrow> kernel \<Rightarrow> (kernel, u32) prog" where
  "wait_until_timeout s expiry k =
     lwsem_wait_timed_internal s (ACTIVE_PTR k) (upd_td (ACTIVE_PTR k) (\<lambda>d. d\<lparr>TIMEOUT := expiry k\<rparr>) k)"

definition lwsem_wait :: "addr \<Rightarrow> kernel \<Rightarrow> (kernel, u32) prog" where
  "lwsem_wait s k = lwsem_wait_with (wait_blocked s) s k"

definition lwsem_wait_for :: "addr \<Rightarrow> psp_tick \<Rightarrow> kernel \<Rightarrow> (kernel, u32) prog" where
  "lwsem_wait_for s ticks k = lwsem_wait_with (wait_until_timeout s (\<lambda>k1. psp_add_ticks k1 ticks (TIME k1))) s k"

definition lwsem_wait_ticks :: "addr \<Rightarrow> u32 \<Rightarrow> kernel \<Rightarrow> (kernel, u32) prog" where
  "lwsem_wait_ticks s time_in_ticks k =
     lwsem_wait_with
       (if time_in_ticks = 0 then wait_blocked s
        else wait_until_timeout s (\<lambda>k1. PSP_ADD_TICKS_TO_TICK_STRUCT (TIME k1) time_in_ticks (TIMEOUT (active_td k1)))) s k"

definition lwsem_wait_until :: "addr \<Rightarrow> psp_tick \<Rightarrow> kernel \<Rightarrow> (kernel, u32) prog" where
  "lwsem_wait_until s ticks k = lwsem_wait_with (wait_until_timeout s (\<lambda>_. ticks)) s k"

subsection \<open>Running states are kept\<close>

lemma upd_sem_simps [simp]:
  "TDS (upd_sem s f k) = TDS k" "TD_LIST (upd_sem s f k) = TD_LIST k" "READY_Q (upd_sem s f k) = READY_Q k"
  "CURRENT_READY_Q (upd_sem s f k) = CURRENT_READY_Q k" "ACTIVE_PTR (upd_sem s f k) = ACTIVE_PTR k"
  "TIMEOUT_QUEUE (upd_sem s f k) = TIMEOUT_QUEUE k" "TD_QUEUES (upd_sem s f k) = TD_QUEUES k"
  "AUX_QUEUES (upd_sem s f k) = AUX_QUEUES k" "TIME (upd_sem s f k) = TIME k" "IN_ISR (upd_sem s f k) = IN_ISR k"
  "STUCK (upd_sem s f k) = STUCK k" "LWSEMS (upd_sem s f k) = (LWSEMS k)(s := f (LWSEMS k s))"
  "LOWEST_TASK_PRIORITY (upd_sem s f k) = LOWEST_TASK_PRIORITY k" "LWSEM_LIST (upd_sem s f k) = LWSEM_LIST k"
  by (simp_all add: upd_sem_def)

lemma running_upd_sem [simp]:
  "running idle (upd_sem s f k) = running idle k" "unsettled idle (upd_sem s f k) = unsettled idle k"
proof -
  have "same_queues k (upd_sem s f k)" by (simp add: same_queues_def)
  then show "running idle (upd_sem s f k) = running idle k" "unsettled idle (upd_sem s f k) = unsettled idle k"
    by (simp_all add: running_same)
qed

lemma kinv_upd_sem [simp]: "kinv (upd_sem s f k) = kinv k"
  by (rule kinv_same) (simp add: same_queues_def)

lemma wait_end_keeps: "running idle k \<Longrightarrow> keeps (running idle) (running idle) R (wait_end s r k)"
  by (simp add: wait_end_def)

lemma wait_blocked_keeps:
  assumes "running idle k" "ACTIVE_PTR k \<noteq> idle"
  shows "keeps (running idle) (running idle) R (wait_blocked s k)"
  unfolding wait_blocked_def
  by (intro keeps_andthen [OF aux_block_keeps]) (use assms in simp_all)

lemma running_set_timeout:
  assumes "running idle k"
  shows "running idle (upd_td (ACTIVE_PTR k) (\<lambda>d. d\<lparr>TIMEOUT := e\<rparr>) k)"
proof -
  have t: "ACTIVE_PTR k \<notin> set (TIMEOUT_QUEUE k)"
    using assms by (simp add: running_def top_active_def ready_tasks_def kinv_def placed_def)
  then have "kinv (upd_td (ACTIVE_PTR k) (\<lambda>d. d\<lparr>TIMEOUT := e\<rparr>) k)"
    using assms by (auto simp: running_def kinv_def shape_def placed_def)
  then show ?thesis using assms by (auto simp: running_def top_active_def ready_tasks_def active_td_def)
qed

lemma timed_block_kinv:
  assumes "kinv k" "t \<in> ready_tasks k"
  shows "kinv (timeout_enqueue t (aux_block LWSEM_BLOCKED q t k))"
proof (rule timeout_enqueue_kinv)
  show "kinv (aux_block LWSEM_BLOCKED q t k)" by (rule aux_block_kinv [OF assms]) simp_all
qed (use assms in \<open>simp_all add: aux_block_def ready_tasks_def\<close>)

lemma wait_timed_keeps:
  assumes r: "running idle k" and a: "ACTIVE_PTR k \<noteq> idle"
  shows "keeps (running idle) (running idle) R (lwsem_wait_timed_internal s (ACTIVE_PTR k) k)"
proof -
  let ?k = "timeout_enqueue (ACTIVE_PTR k) (aux_block LWSEM_BLOCKED (TD_QUEUE s) (ACTIVE_PTR k) k)"
  have "keeps (running idle) (running idle) R (sched_execute_scheduler ?k)"
  proof (rule execute_keeps)
    show "kinv ?k" using r by (intro timed_block_kinv) (simp_all add: running_def top_active_def)
    show "idle \<in> ready_tasks ?k"
      by (rule ready_tasks_frame [OF running_unsettled [OF r] a]) (simp_all add: aux_block_def)
  qed (use r in \<open>simp_all add: aux_block_def running_def top_active_def\<close>)
  then show ?thesis unfolding lwsem_wait_timed_internal_def time_delay_internal_def by (rule keeps_andthen) simp
qed

lemma wait_until_timeout_keeps:
  assumes "running idle k" "ACTIVE_PTR k \<noteq> idle"
  shows "keeps (running idle) (running idle) R (wait_until_timeout s e k)"
  using wait_timed_keeps [of idle "upd_td (ACTIVE_PTR k) (\<lambda>d. d\<lparr>TIMEOUT := e k\<rparr>) k"] assms
  by (simp add: wait_until_timeout_def running_set_timeout)

lemma lwsem_wait_with_keeps:
  assumes r: "running idle k" and a: "ACTIVE_PTR k \<noteq> idle"
    and b: "\<And>k. running idle k \<Longrightarrow> ACTIVE_PTR k \<noteq> idle \<Longrightarrow> keeps (running idle) (running idle) R (blocked k)"
  shows "keeps (running idle) (running idle) R (lwsem_wait_with blocked s k)"
proof -
  have "keeps (running idle) (running idle) R
    (andthen (if sem_value s (INT_DISABLE k) \<le> 0 then blocked (INT_DISABLE k)
              else Done MQX_OK (upd_sem s (\<lambda>l. l\<lparr>VALUE := VALUE l - 1\<rparr>) (INT_DISABLE k))) (wait_end s))"
    by (rule keeps_andthen [where D = "running idle"]) (use r a b [of "INT_DISABLE k"] in \<open>simp_all add: wait_end_keeps\<close>)
  then show ?thesis using r by (simp add: lwsem_wait_with_def Let_def)
qed

lemma lwsem_post_keeps:
  assumes r: "running idle k"
  shows "keeps (running idle) (running idle) R (lwsem_post s k)"
proof -
  let ?k = "INT_DISABLE k"
  have u: "unsettled idle ?k" using r by (simp add: running_unsettled)
  have w: "sem_waiters s ?k \<noteq> [] \<Longrightarrow> hd (sem_waiters s ?k) \<in> set (AUX_QUEUES ?k (TD_QUEUE s))"
    by (simp add: sem_waiters_def)
  have "keeps (running idle) (running idle) R
     (andthen (if sem_value s ?k \<ge> 0 \<and> sem_waiters s ?k \<noteq> []
        then sched_check_scheduler (aux_wake (TD_QUEUE s) (\<lambda>d. d\<lparr>INFO := 0\<rparr>) (hd (sem_waiters s ?k)) ?k)
        else Done () (upd_sem s (\<lambda>l. l\<lparr>VALUE := int32 (VALUE l + 1)\<rparr>) ?k))
      (\<lambda>_ k2. Done MQX_OK (INT_ENABLE k2)))"
    by (rule keeps_andthen [where D = "running idle"])
      (use r w in \<open>auto intro!: check_keeps aux_wake_unsettled [OF u]\<close>)
  then show ?thesis using r by (simp add: lwsem_post_def Let_def)
qed

lemma lwsem_destroy_keeps:
  assumes r: "running idle k"
  shows "keeps (running idle) (running idle) R (lwsem_destroy s k)"
proof -
  let ?k = "upd_sem s (\<lambda>l. l\<lparr>LWSEM_VALID_FIELD := 0\<rparr>) (INT_DISABLE k)"
  let ?w = "wake_all (TD_QUEUE s) (sem_waiters s ?k) ?k"
  have "unsettled idle ?w" using r wake_all_unsettled [of idle ?k "TD_QUEUE s" "sem_waiters s ?k"]
    by (simp add: running_unsettled sem_waiters_def)
  then have "unsettled idle (?w\<lparr>LWSEM_LIST := l\<rparr>)" for l
    using running_same(2) [of ?w "?w\<lparr>LWSEM_LIST := l\<rparr>"] by (simp add: same_queues_def)
  then have "keeps (running idle) (running idle) R (sched_check_scheduler (INT_ENABLE (?w\<lparr>LWSEM_LIST := l\<rparr>)))" for l
    by (intro check_keeps) simp
  then have "keeps (running idle) (running idle) R
      (andthen (sched_check_scheduler (INT_ENABLE (?w\<lparr>LWSEM_LIST := l\<rparr>))) (\<lambda>_ k5. Done MQX_OK k5))" for l
    by (rule keeps_andthen) simp
  with r show ?thesis by (simp add: lwsem_destroy_def Let_def)
qed

lemma lwsem_create_running:
  assumes r: "running idle k" and n: "sem_waiters s k = []"
  shows "running idle (snd (lwsem_create_internal s count hidden k))"
proof -
  let ?k = "upd_sem s (\<lambda>l. l\<lparr>VALUE := count\<rparr>) k"
  have "?k\<lparr>AUX_QUEUES := (AUX_QUEUES ?k)(TD_QUEUE s := [])\<rparr> = ?k" using n by (simp add: sem_waiters_def fun_upd_idem)
  moreover have "running idle (INT_DISABLE ?k\<lparr>LWSEM_LIST := l\<rparr>)" for l
    using running_same(1) [of "INT_DISABLE ?k" "INT_DISABLE ?k\<lparr>LWSEM_LIST := l\<rparr>" idle] r by (simp add: same_queues_def)
  ultimately show ?thesis using r by (simp add: lwsem_create_internal_def Let_def del: upd_sem_simps)
qed

text \<open>
  C5 (invariant). The operations on a lightweight semaphore called by a task keep the kernel in a
  running state, at every point where the caller is switched out and when it returns: every task
  is in exactly the queues its state names, and the active task is a best ready task. They are post, poll
  and destroy; the four waiting operations, called by a task other than the idle task; and the two
  creations, of a semaphore that no task waits for.
\<close>

theorem lwsem_operations_keep_running:
  assumes "running idle k"
  shows "keeps (running idle) (running idle) (resumes t) (lwsem_post s k)
    \<and> keeps (running idle) (running idle) (resumes t) (lwsem_destroy s k)
    \<and> running idle (snd (lwsem_poll s k))
    \<and> (ACTIVE_PTR k \<noteq> idle \<longrightarrow>
        keeps (running idle) (running idle) (resumes t) (lwsem_wait s k)
      \<and> keeps (running idle) (running idle) (resumes t) (lwsem_wait_for s ticks k)
      \<and> keeps (running idle) (running idle) (resumes t) (lwsem_wait_ticks s n k)
      \<and> keeps (running idle) (running idle) (resumes t) (lwsem_wait_until s ticks k))
    \<and> (sem_waiters s k = [] \<longrightarrow>
        running idle (snd (lwsem_create s count k)) \<and> running idle (snd (lwsem_create_hidden s count k)))"
proof -
  have "running idle (snd (lwsem_poll s k))" using assms by (simp add: lwsem_poll_def Let_def)
  with assms show ?thesis
    by (simp add: lwsem_post_keeps lwsem_destroy_keeps lwsem_wait_def lwsem_wait_for_def lwsem_wait_ticks_def
        lwsem_wait_until_def lwsem_wait_with_keeps wait_blocked_keeps wait_until_timeout_keeps lwsem_create_def
        lwsem_create_hidden_def lwsem_create_running)
qed

theorem lwsem_operations_keep_running_witness:
  "keeps (running 100) (running 100) (resumes 200) (lwsem_wait 64 demo) \<and> running 100 (snd (lwsem_create 64 3 demo))"
  using lwsem_operations_keep_running [OF demo_running, of _ 64] by (simp add: demo_def sem_waiters_def)

subsection \<open>A counting semaphore\<close>

text \<open>
  The interface of a semaphore for its clients: a counter and a list of waiting tasks, a post that serves
  the first waiter or counts, a wait that takes a count or joins the list. \<open>Other\<close> stands for anything
  else that happens in the system without touching this semaphore.
\<close>

datatype ('t, 's) sem_op = Post | Wait 't | Other 's

fun sem_posts :: "('t, 's) sem_op list \<Rightarrow> nat" where
  "sem_posts [] = 0"
| "sem_posts (Post # ops) = Suc (sem_posts ops)"
| "sem_posts (_ # ops) = sem_posts ops"

fun sem_waits :: "('t, 's) sem_op list \<Rightarrow> 't list" where
  "sem_waits [] = []"
| "sem_waits (Wait t # ops) = t # sem_waits ops"
| "sem_waits (_ # ops) = sem_waits ops"

lemma sem_posts_append [simp]: "sem_posts (xs @ ys) = sem_posts xs + sem_posts ys"
  by (induction xs rule: sem_posts.induct) simp_all

lemma sem_waits_append [simp]: "sem_waits (xs @ ys) = sem_waits xs @ sem_waits ys"
  by (induction xs rule: sem_waits.induct) simp_all

fun sem_run :: "('s \<Rightarrow> 's) \<Rightarrow> ('t \<Rightarrow> 's \<Rightarrow> 's) \<Rightarrow> ('t, 's) sem_op list \<Rightarrow> 's \<Rightarrow> 's" where
  "sem_run post wait [] s = s"
| "sem_run post wait (Post # ops) s = sem_run post wait ops (post s)"
| "sem_run post wait (Wait t # ops) s = sem_run post wait ops (wait t s)"
| "sem_run post wait (Other s' # ops) s = sem_run post wait ops s'"

text \<open>Sequences of operations the system can perform: waits by tasks that may wait, other steps that keep
  the semaphore as it is.\<close>

fun sem_admissible :: "('s \<Rightarrow> bool) \<Rightarrow> ('s \<Rightarrow> int \<times> 't list) \<Rightarrow> ('t \<Rightarrow> 's \<Rightarrow> bool) \<Rightarrow> ('s \<Rightarrow> 's) \<Rightarrow> ('t \<Rightarrow> 's \<Rightarrow> 's) \<Rightarrow>
  ('t, 's) sem_op list \<Rightarrow> 's \<Rightarrow> bool" where
  "sem_admissible ok view may_wait post wait [] s = True"
| "sem_admissible ok view may_wait post wait (Post # ops) s = sem_admissible ok view may_wait post wait ops (post s)"
| "sem_admissible ok view may_wait post wait (Wait t # ops) s =
     (may_wait t s \<and> sem_admissible ok view may_wait post wait ops (wait t s))"
| "sem_admissible ok view may_wait post wait (Other s' # ops) s =
     (ok s' \<and> view s' = view s \<and> sem_admissible ok view may_wait post wait ops s')"

locale counting_semaphore =
  fixes ok :: "'s \<Rightarrow> bool" and count :: "'s \<Rightarrow> int" and queue :: "'s \<Rightarrow> 't list"
    and may_wait :: "'t \<Rightarrow> 's \<Rightarrow> bool" and post :: "'s \<Rightarrow> 's" and wait :: "'t \<Rightarrow> 's \<Rightarrow> 's" and bound :: int
  assumes post_ok: "ok s \<Longrightarrow> ok (post s)" and wait_ok: "ok s \<Longrightarrow> may_wait t s \<Longrightarrow> ok (wait t s)"
    and post_serve: "ok s \<Longrightarrow> 0 \<le> count s \<Longrightarrow> queue s = t # ts \<Longrightarrow> count (post s) = count s \<and> queue (post s) = ts"
    and post_count: "ok s \<Longrightarrow> 0 \<le> count s \<Longrightarrow> count s < bound \<Longrightarrow> queue s = [] \<Longrightarrow>
      count (post s) = count s + 1 \<and> queue (post s) = []"
    and wait_take: "ok s \<Longrightarrow> may_wait t s \<Longrightarrow> 0 < count s \<Longrightarrow> count (wait t s) = count s - 1 \<and> queue (wait t s) = queue s"
    and wait_join: "ok s \<Longrightarrow> may_wait t s \<Longrightarrow> count s \<le> 0 \<Longrightarrow> count (wait t s) = count s \<and> queue (wait t s) = queue s @ [t]"
begin

text \<open>The count and the queue as a function of what has happened: \<open>c\<close> the initial count and \<open>p\<close> the posts
  so far, \<open>ws\<close> the waits so far.\<close>

definition balanced :: "nat \<Rightarrow> 't list \<Rightarrow> 's \<Rightarrow> bool" where
  "balanced c ws s \<longleftrightarrow> ok s \<and> count s = int (c - length ws) \<and> queue s = drop c ws"

lemma balanced_post:
  assumes b: "balanced c ws s" and "int c < bound"
  shows "balanced (Suc c) ws (post s)"
proof (cases "length ws \<le> c")
  case True
  then have "queue s = []" "count s = int c - int (length ws)" using b by (simp_all add: balanced_def of_nat_diff)
  moreover have "ok s" using b by (simp add: balanced_def)
  moreover have "int (Suc c - length ws) = int c - int (length ws) + 1" using True by (simp add: of_nat_diff)
  ultimately show ?thesis using True assms(2) post_count [of s] post_ok [of s] by (simp add: balanced_def)
next
  case False
  then have "drop c ws = ws ! c # drop (Suc c) ws" by (simp add: Cons_nth_drop_Suc)
  then have t: "queue s = ws ! c # drop (Suc c) ws" and z: "count s = 0" and o: "ok s"
    using b False by (simp_all add: balanced_def)
  have "count (post s) = 0 \<and> queue (post s) = drop (Suc c) ws" using post_serve [OF o _ t] z by simp
  then show ?thesis using False post_ok [OF o] by (simp add: balanced_def)
qed

lemma balanced_wait:
  assumes b: "balanced c ws s" and m: "may_wait t s"
  shows "balanced c (ws @ [t]) (wait t s)"
proof (cases "length ws < c")
  case True
  then show ?thesis using b wait_take [OF _ m] wait_ok [OF _ m] by (auto simp: balanced_def)
next
  case False
  then show ?thesis using b wait_join [OF _ m] wait_ok [OF _ m] by (auto simp: balanced_def)
qed

lemma balanced_run:
  "balanced c ws s \<Longrightarrow> sem_admissible ok (\<lambda>s. (count s, queue s)) may_wait post wait ops s \<Longrightarrow> int (c + sem_posts ops) \<le> bound \<Longrightarrow>
   balanced (c + sem_posts ops) (ws @ sem_waits ops) (sem_run post wait ops s)"
proof (induction ops arbitrary: c ws s)
  case Nil
  then show ?case by simp
next
  case (Cons op ops)
  show ?case
  proof (cases op)
    case Post
    then have "balanced (Suc c) ws (post s)" using Cons.prems by (intro balanced_post) simp_all
    from Cons.IH [OF this] Cons.prems Post show ?thesis by simp
  next
    case (Wait t)
    then have "balanced c (ws @ [t]) (wait t s)" using Cons.prems by (intro balanced_wait) simp_all
    from Cons.IH [OF this] Cons.prems Wait show ?thesis by simp
  next
    case (Other s')
    then have "balanced c ws s'" using Cons.prems by (simp add: balanced_def)
    from Cons.IH [OF this] Cons.prems Other show ?thesis by simp
  qed
qed

lemma fair_service:
  assumes "ok s" "count s = int c" "queue s = []" "sem_admissible ok (\<lambda>s. (count s, queue s)) may_wait post wait ops s"
    "int (c + sem_posts ops) \<le> bound"
  shows "count (sem_run post wait ops s) = int ((c + sem_posts ops) - length (sem_waits ops))"
    and "queue (sem_run post wait ops s) = drop (c + sem_posts ops) (sem_waits ops)"
  using balanced_run [of c "[]" s ops] assms by (simp_all add: balanced_def)

end

subsection \<open>Lightweight semaphores are counting semaphores\<close>

lemma sched_check_frame:
  "LWSEMS (state_of (andthen (sched_check_scheduler k) (\<lambda>_ k2. Done r (INT_ENABLE k2)))) = LWSEMS k"
  "AUX_QUEUES (state_of (andthen (sched_check_scheduler k) (\<lambda>_ k2. Done r (INT_ENABLE k2)))) = AUX_QUEUES k"
  by (simp_all add: sched_check_scheduler_def sched_execute_scheduler_def Let_def)

lemma int32_id: "- 2147483648 \<le> x \<Longrightarrow> x \<le> 2147483647 \<Longrightarrow> int32 x = x"
  by (simp add: int32_def signed_take_bit_int_eq_self)

lemma sem_valid_INT [simp]: "sem_valid s (INT_DISABLE k) = sem_valid s k" "sem_value s (INT_DISABLE k) = sem_value s k"
  "sem_waiters s (INT_DISABLE k) = sem_waiters s k"
  by (simp_all add: sem_valid_def sem_value_def sem_waiters_def)

lemma lwsem_post_abs:
  assumes "sem_valid s k"
  shows "sem_valid s' (state_of (lwsem_post s k)) = sem_valid s' k"
    "0 \<le> sem_value s k \<Longrightarrow> distinct (t # ts) \<Longrightarrow> sem_waiters s k = t # ts \<Longrightarrow>
       sem_value s (state_of (lwsem_post s k)) = sem_value s k \<and> sem_waiters s (state_of (lwsem_post s k)) = ts"
    "0 \<le> sem_value s k \<Longrightarrow> sem_value s k < 2147483647 \<Longrightarrow> sem_waiters s k = [] \<Longrightarrow>
       sem_value s (state_of (lwsem_post s k)) = sem_value s k + 1 \<and> sem_waiters s (state_of (lwsem_post s k)) = []"
  using assms
  by (simp_all add: lwsem_post_def Let_def sem_valid_def sem_value_def sem_waiters_def sched_check_frame int32_id)

lemma execute_frame:
  "LWSEMS (state_of (andthen (andthen (sched_execute_scheduler k) (\<lambda>_ k1. Done r k1)) (wait_end s))) = LWSEMS k"
  "AUX_QUEUES (state_of (andthen (andthen (sched_execute_scheduler k) (\<lambda>_ k1. Done r k1)) (wait_end s))) = AUX_QUEUES k"
  by (simp_all add: sched_execute_scheduler_def Let_def wait_end_def)

lemma lwsem_wait_abs:
  assumes "sem_valid s k" "IN_ISR k = 0"
  shows "sem_valid s' (state_of (lwsem_wait s k)) = sem_valid s' k"
    "0 < sem_value s k \<Longrightarrow> sem_value s (state_of (lwsem_wait s k)) = sem_value s k - 1
       \<and> sem_waiters s (state_of (lwsem_wait s k)) = sem_waiters s k"
    "sem_value s k \<le> 0 \<Longrightarrow> sem_value s (state_of (lwsem_wait s k)) = sem_value s k
       \<and> sem_waiters s (state_of (lwsem_wait s k)) = sem_waiters s k @ [ACTIVE_PTR k]"
  using assms
  by (simp_all add: lwsem_wait_def lwsem_wait_with_def wait_blocked_def Let_def execute_frame wait_end_def
      sem_valid_def sem_value_def sem_waiters_def aux_block_def)

definition sem_ready :: "addr \<Rightarrow> addr \<Rightarrow> kernel \<Rightarrow> bool" where
  "sem_ready idle s k \<longleftrightarrow> running idle k \<and> sem_valid s k"

definition may_wait :: "addr \<Rightarrow> addr \<Rightarrow> kernel \<Rightarrow> bool" where
  "may_wait idle t k \<longleftrightarrow> ACTIVE_PTR k = t \<and> t \<noteq> idle"

definition after_post :: "addr \<Rightarrow> kernel \<Rightarrow> kernel" where
  "after_post s k = state_of (lwsem_post s k)"

definition after_wait :: "addr \<Rightarrow> addr \<Rightarrow> kernel \<Rightarrow> kernel" where
  "after_wait s t k = state_of (lwsem_wait s k)"

lemma running_distinct: "running idle k \<Longrightarrow> distinct (sem_waiters s k)"
  by (simp add: running_def kinv_def shape_def sem_waiters_def)

interpretation lws: counting_semaphore "sem_ready idle s" "sem_value s" "sem_waiters s" "may_wait idle" "after_post s"
  "after_wait s" 2147483647
  for idle s :: addr
proof
  fix k t ts
  assume k: "sem_ready idle s k"
  then have r: "running idle k" and v: "sem_valid s k" and i: "IN_ISR k = 0" by (simp_all add: sem_ready_def running_def)
  show "sem_ready idle s (after_post s k)"
    using keeps_state [OF lwsem_post_keeps [OF r]] lwsem_post_abs(1) [OF v] v by (simp add: sem_ready_def after_post_def)
  show "0 \<le> sem_value s k \<Longrightarrow> sem_waiters s k = t # ts \<Longrightarrow>
      sem_value s (after_post s k) = sem_value s k \<and> sem_waiters s (after_post s k) = ts"
    using lwsem_post_abs(2) [OF v, of t ts] running_distinct [OF r, of s] by (simp add: after_post_def)
  show "0 \<le> sem_value s k \<Longrightarrow> sem_value s k < 2147483647 \<Longrightarrow> sem_waiters s k = [] \<Longrightarrow>
      sem_value s (after_post s k) = sem_value s k + 1 \<and> sem_waiters s (after_post s k) = []"
    using lwsem_post_abs(3) [OF v] by (simp add: after_post_def)
  assume m: "may_wait idle t k"
  then have "keeps (running idle) (running idle) (resumes t) (lwsem_wait s k)"
    using r by (simp add: lwsem_wait_def lwsem_wait_with_keeps wait_blocked_keeps may_wait_def)
  then show "sem_ready idle s (after_wait s t k)"
    using keeps_state lwsem_wait_abs(1) [OF v i] v by (simp add: sem_ready_def after_wait_def)
  show "0 < sem_value s k \<Longrightarrow> sem_value s (after_wait s t k) = sem_value s k - 1 \<and> sem_waiters s (after_wait s t k) = sem_waiters s k"
    using lwsem_wait_abs(2) [OF v i] by (simp add: after_wait_def)
  show "sem_value s k \<le> 0 \<Longrightarrow> sem_value s (after_wait s t k) = sem_value s k \<and> sem_waiters s (after_wait s t k) = sem_waiters s k @ [t]"
    using lwsem_wait_abs(3) [OF v i] m by (simp add: after_wait_def may_wait_def)
qed

text \<open>
  C2 (refinement). A lightweight semaphore created with the count \<open>c\<close> is a fair counting semaphore: after
  any sequence of posts and waits, interleaved with anything else the system does elsewhere, the
  first \<open>c\<close> plus number-of-posts waits have been served and exactly the later ones are queued, in the
  order of their calls; nothing is lost and nobody overtakes.
\<close>

theorem lwsem_fair_service:
  assumes "running idle k" and "sem_valid s k" and "sem_value s k = int c" and "sem_waiters s k = []"
    and "sem_admissible (sem_ready idle s) (\<lambda>k. (sem_value s k, sem_waiters s k)) (may_wait idle) (after_post s)
      (after_wait s) ops k"
    and "int (c + sem_posts ops) \<le> 2147483647"
  shows "sem_value s (sem_run (after_post s) (after_wait s) ops k) = int ((c + sem_posts ops) - length (sem_waits ops))
    \<and> sem_waiters s (sem_run (after_post s) (after_wait s) ops k) = drop (c + sem_posts ops) (sem_waits ops)"
  using lws.fair_service [of idle s k c ops] assms by (simp add: sem_ready_def)

theorem lwsem_fair_service_witness:
  "sem_waiters 64 (sem_run (after_post 64) (after_wait 64) [Post, Wait 200, Wait 200] demo) = [200]"
proof -
  have v: "sem_valid 64 demo" "sem_value 64 demo = int 0" "sem_waiters 64 demo = []"
    by (simp_all add: sem_valid_def sem_value_def sem_waiters_def demo_def)
  have a: "ACTIVE_PTR demo = 200" by (simp add: demo_def)
  have a1: "ACTIVE_PTR (after_post 64 demo) = 200"
    by (simp add: after_post_def lwsem_post_def Let_def v a)
  have s1: "sem_ready 100 64 (after_post 64 demo)" "sem_value 64 (after_post 64 demo) = 1"
    using lws.post_ok [of 100 64 demo] lws.post_count [of 100 64 demo] v demo_running
    by (simp_all add: sem_ready_def)
  have a2: "ACTIVE_PTR (after_wait 64 200 (after_post 64 demo)) = 200"
    using s1 by (simp add: after_wait_def lwsem_wait_def lwsem_wait_with_def Let_def sem_ready_def running_def a1 wait_end_def)
  have "sem_admissible (sem_ready 100 64) (\<lambda>k. (sem_value 64 k, sem_waiters 64 k)) (may_wait 100) (after_post 64)
      (after_wait 64) [Post, Wait 200, Wait 200] demo"
    by (simp add: may_wait_def a1 a2)
  from lwsem_fair_service [OF demo_running v this] show ?thesis by simp
qed

subsection \<open>Timed waits\<close>

lemma timed_block_switches:
  assumes r: "running idle k" and a: "ACTIVE_PTR k \<noteq> idle" and t_def: "t = ACTIVE_PTR k"
    and b_def: "b = timeout_enqueue t (aux_block LWSEM_BLOCKED q t k)"
  shows "sched_execute_scheduler b = Susp (switch_task b) (Done ())"
proof -
  have k: "kinv b" unfolding b_def t_def using r by (intro timed_block_kinv) (simp_all add: running_def top_active_def)
  have i: "idle \<in> ready_tasks b" unfolding b_def t_def
    by (rule ready_tasks_frame [OF running_unsettled [OF r] a]) (simp_all add: aux_block_def)
  have "\<not> STUCK b" using r by (simp add: b_def aux_block_def running_def top_active_def)
  then have "top_active (switch_task b)" using switch_task_top(2) [OF k] i by auto
  then have "ACTIVE_PTR (switch_task b) \<in> ready_tasks b" by (simp add: top_active_def)
  moreover have "STATE (TDS b t) \<noteq> READY"
    using timeout_bits(4) [of LWSEM_BLOCKED] by (simp add: b_def timeout_enqueue_def Let_def aux_block_def)
  then have "t \<notin> ready_tasks b" by (simp add: ready_tasks_def)
  ultimately have "ACTIVE_PTR (switch_task b) \<noteq> t" by auto
  moreover have "ACTIVE_PTR b = t" by (simp add: b_def t_def aux_block_def)
  ultimately show ?thesis by (simp add: sched_execute_scheduler_def Let_def)
qed

lemma lwsem_wait_for_switches:
  assumes "running idle k" and "ACTIVE_PTR k \<noteq> idle" and "sem_valid s k" and "sem_value s k \<le> 0"
  shows "\<exists>k1 rest. lwsem_wait_for s ticks k = Susp k1 rest \<and> sem_waiters s k1 = sem_waiters s k @ [ACTIVE_PTR k] \<and>
    ACTIVE_PTR k \<in> set (TIMEOUT_QUEUE k1) \<and> timeout_of k1 (ACTIVE_PTR k) = psp_add_ticks (INT_DISABLE k) ticks (TIME k) \<and>
    (\<forall>k2. rest k2 = Done (if \<not> sem_valid s k2 then MQX_INVALID_LWSEM
        else if INFO (TDS k2 (ACTIVE_PTR k)) \<noteq> 0 then MQX_LWSEM_WAIT_TIMEOUT else MQX_OK) (INT_ENABLE k2))"
proof -
  let ?t = "ACTIVE_PTR k"
  let ?k = "upd_td ?t (\<lambda>d. d\<lparr>TIMEOUT := psp_add_ticks (INT_DISABLE k) ticks (TIME (INT_DISABLE k))\<rparr>) (INT_DISABLE k)"
  let ?b = "timeout_enqueue ?t (aux_block LWSEM_BLOCKED (TD_QUEUE s) ?t ?k)"
  have r: "running idle ?k" using running_set_timeout [of idle "INT_DISABLE k"] assms(1) by simp
  have x: "sched_execute_scheduler ?b = Susp (switch_task ?b) (Done ())"
  proof (rule timed_block_switches [OF r])
    show "ACTIVE_PTR ?k \<noteq> idle" using assms(2) by simp
    show "?t = ACTIVE_PTR ?k" by simp
  qed (rule refl)
  have "lwsem_wait_for s ticks k = Susp (switch_task ?b) (\<lambda>k2. wait_end s
      (if INFO (TDS k2 ?t) \<noteq> 0 then MQX_LWSEM_WAIT_TIMEOUT else MQX_OK) k2)"
  proof -
    have "wait_until_timeout s (\<lambda>k1. psp_add_ticks k1 ticks (TIME k1)) (INT_DISABLE k) =
        Susp (switch_task ?b) (\<lambda>k2. Done (if INFO (TDS k2 ?t) \<noteq> 0 then MQX_LWSEM_WAIT_TIMEOUT else MQX_OK) k2)"
      unfolding wait_until_timeout_def lwsem_wait_timed_internal_def time_delay_internal_def INT_simps(1) x andthen_simps ..
    with assms show ?thesis by (simp add: lwsem_wait_for_def lwsem_wait_with_def Let_def running_def)
  qed
  moreover have "sem_waiters s (switch_task ?b) = sem_waiters s k @ [?t]"
    by (simp add: sem_waiters_def aux_block_def)
  moreover have "?t \<in> set (TIMEOUT_QUEUE (switch_task ?b))" by (simp add: timeout_enqueue_def Let_def)
  moreover have "timeout_of (switch_task ?b) ?t = psp_add_ticks (INT_DISABLE k) ticks (TIME k)"
    by (simp add: timeout_of_def timeout_enqueue_def Let_def aux_block_def)
  moreover have "wait_end s (if INFO (TDS k2 ?t) \<noteq> 0 then MQX_LWSEM_WAIT_TIMEOUT else MQX_OK) k2 =
      Done (if \<not> sem_valid s k2 then MQX_INVALID_LWSEM
        else if INFO (TDS k2 ?t) \<noteq> 0 then MQX_LWSEM_WAIT_TIMEOUT else MQX_OK) (INT_ENABLE k2)" for k2
    by (simp add: wait_end_def)
  ultimately show ?thesis by blast
qed

lemma post_hands_over:
  assumes k: "kinv k" and v: "sem_valid s k" "0 \<le> sem_value s k" and w: "sem_waiters s k = t # ts"
  shows "t \<in> ready_tasks (state_of (lwsem_post s k)) \<and> INFO (TDS (state_of (lwsem_post s k)) t) = 0
    \<and> sem_waiters s (state_of (lwsem_post s k)) = ts \<and> sem_valid s (state_of (lwsem_post s k))"
proof -
  let ?k = "aux_wake (TD_QUEUE s) (\<lambda>d. d\<lparr>INFO := 0\<rparr>) t (INT_DISABLE k)"
  have c: "INFO (TDS (state_of (andthen (sched_check_scheduler x) (\<lambda>_ k2. Done r (INT_ENABLE k2)))) t) = INFO (TDS x t)"
    "STATE (TDS (state_of (andthen (sched_check_scheduler x) (\<lambda>_ k2. Done r (INT_ENABLE k2)))) t) = STATE (TDS x t)"
    "TD_LIST (state_of (andthen (sched_check_scheduler x) (\<lambda>_ k2. Done r (INT_ENABLE k2)))) = TD_LIST x" for x and r :: u32
    by (simp_all add: sched_check_scheduler_def sched_execute_scheduler_def Let_def)
  have p: "state_of (lwsem_post s k) = state_of (andthen (sched_check_scheduler ?k) (\<lambda>_ k2. Done MQX_OK (INT_ENABLE k2)))"
    using v w by (simp add: lwsem_post_def Let_def)
  have "t \<in> ready_tasks ?k" using aux_wake_ready [of "INT_DISABLE k" t "TD_QUEUE s"] k w by (simp add: sem_waiters_def)
  moreover have "INFO (TDS ?k t) = 0" by (simp add: aux_wake_def)
  moreover have "distinct (t # ts)" using k w by (metis kinv_def shape_def sem_waiters_def)
  ultimately show ?thesis using lwsem_post_abs(1,2) [of s k] v w unfolding p by (simp add: ready_tasks_def c)
qed

lemma expiry_leaves_info:
  assumes r: "running idle k" and f: "FLAGS (active_td k) AND TASK_PREEMPTION_DISABLED = 0"
    and w: "t \<in> set (sem_waiters s k)" "t \<in> set (TIMEOUT_QUEUE k)"
    and e: "TICKS (timeout_of k t) \<le> TICKS (TIME (timer_interrupt hw k))"
  shows "t \<in> ready_tasks (timer_interrupt hw k) \<and> INFO (TDS (timer_interrupt hw k) t) = TD_QUEUE s
    \<and> t \<notin> set (sem_waiters s (timer_interrupt hw k))"
proof -
  let ?k = "timer_interrupt hw k"
  note s = tick_spec [OF r f, of ?k hw]
  have i: "INFO (TDS k t) = TD_QUEUE s" using r w by (simp add: running_def kinv_def placed_def sem_waiters_def)
  have t: "t \<in> ready_tasks ?k" using s e w by (simp add: timer_interrupt_def)
  moreover have "kinv ?k" using s by (simp add: timer_interrupt_def running_def)
  ultimately have "t \<notin> set (sem_waiters s ?k)" by (auto simp: kinv_def placed_def ready_tasks_def sem_waiters_def)
  with t i show ?thesis by (simp add: timer_interrupt_INFO)
qed

text \<open>
  C3 (functional). A timed wait on an unavailable semaphore queues the caller both on the semaphore and on
  the timeout queue with the given relative expiry and gives up the processor. The result it reports when
  it runs again, with nobody having touched its wait information since it was made ready, is the truth. A
  post in a running state where it is the first waiter makes it ready and lets it report success; a timer
  interrupt that finds its expiry reached, while it waits for a semaphore whose queue is not at the null
  address, makes it ready and lets it report a timeout. It reports an invalid semaphore if the semaphore
  is invalid then.
\<close>

theorem lwsem_wait_for_result:
  assumes "running idle k" and "ACTIVE_PTR k \<noteq> idle" and "sem_valid s k" and "sem_value s k \<le> 0" and "t = ACTIVE_PTR k"
  shows "\<exists>k1 rest. lwsem_wait_for s ticks k = Susp k1 rest \<and> sem_waiters s k1 = sem_waiters s k @ [t] \<and>
    t \<in> set (TIMEOUT_QUEUE k1) \<and> timeout_of k1 t = psp_add_ticks (INT_DISABLE k) ticks (TIME k) \<and>
    (\<forall>k2. \<not> sem_valid s k2 \<longrightarrow> rest k2 = Done MQX_INVALID_LWSEM (INT_ENABLE k2)) \<and>
    (\<forall>k2 ts. running idle k2 \<and> sem_valid s k2 \<and> 0 \<le> sem_value s k2 \<and> sem_waiters s k2 = t # ts \<longrightarrow>
       t \<in> ready_tasks (state_of (lwsem_post s k2)) \<and> sem_waiters s (state_of (lwsem_post s k2)) = ts \<and>
       (\<forall>k3. sem_valid s k3 \<and> INFO (TDS k3 t) = INFO (TDS (state_of (lwsem_post s k2)) t) \<longrightarrow>
          rest k3 = Done MQX_OK (INT_ENABLE k3))) \<and>
    (\<forall>k2 hw. running idle k2 \<and> FLAGS (active_td k2) AND TASK_PREEMPTION_DISABLED = 0 \<and> TD_QUEUE s \<noteq> NULL \<and>
       t \<in> set (sem_waiters s k2) \<and> t \<in> set (TIMEOUT_QUEUE k2) \<and>
       TICKS (timeout_of k2 t) \<le> TICKS (TIME (timer_interrupt hw k2)) \<longrightarrow>
       t \<in> ready_tasks (timer_interrupt hw k2) \<and> t \<notin> set (sem_waiters s (timer_interrupt hw k2)) \<and>
       (\<forall>k3. sem_valid s k3 \<and> INFO (TDS k3 t) = INFO (TDS (timer_interrupt hw k2) t) \<longrightarrow>
          rest k3 = Done MQX_LWSEM_WAIT_TIMEOUT (INT_ENABLE k3)))"
proof -
  obtain k1 rest where w: "lwsem_wait_for s ticks k = Susp k1 rest" "sem_waiters s k1 = sem_waiters s k @ [t]"
    "t \<in> set (TIMEOUT_QUEUE k1)" "timeout_of k1 t = psp_add_ticks (INT_DISABLE k) ticks (TIME k)"
    and rest: "\<And>k2. rest k2 = Done (if \<not> sem_valid s k2 then MQX_INVALID_LWSEM
        else if INFO (TDS k2 t) \<noteq> 0 then MQX_LWSEM_WAIT_TIMEOUT else MQX_OK) (INT_ENABLE k2)"
    using lwsem_wait_for_switches [OF assms(1-4), of ticks] unfolding assms(5) by blast
  have "t \<in> ready_tasks (state_of (lwsem_post s k2)) \<and> sem_waiters s (state_of (lwsem_post s k2)) = ts \<and>
       (\<forall>k3. sem_valid s k3 \<and> INFO (TDS k3 t) = INFO (TDS (state_of (lwsem_post s k2)) t) \<longrightarrow>
          rest k3 = Done MQX_OK (INT_ENABLE k3))"
    if "running idle k2 \<and> sem_valid s k2 \<and> 0 \<le> sem_value s k2 \<and> sem_waiters s k2 = t # ts" for k2 ts
    using post_hands_over [of k2 s t ts] that rest by (simp add: running_def)
  moreover have "t \<in> ready_tasks (timer_interrupt hw k2) \<and> t \<notin> set (sem_waiters s (timer_interrupt hw k2)) \<and>
       (\<forall>k3. sem_valid s k3 \<and> INFO (TDS k3 t) = INFO (TDS (timer_interrupt hw k2) t) \<longrightarrow>
          rest k3 = Done MQX_LWSEM_WAIT_TIMEOUT (INT_ENABLE k3))"
    if "running idle k2 \<and> FLAGS (active_td k2) AND TASK_PREEMPTION_DISABLED = 0 \<and> TD_QUEUE s \<noteq> NULL \<and>
       t \<in> set (sem_waiters s k2) \<and> t \<in> set (TIMEOUT_QUEUE k2) \<and>
       TICKS (timeout_of k2 t) \<le> TICKS (TIME (timer_interrupt hw k2))" for k2 hw
    using expiry_leaves_info [of idle k2 t s hw] that rest by simp
  ultimately show ?thesis using w rest by (intro exI [of _ k1] exI [of _ rest]) simp
qed

theorem lwsem_wait_for_result_witness:
  "\<exists>k1 rest. lwsem_wait_for 64 \<lparr>TICKS = 3, HW_TICKS = 0\<rparr> demo = Susp k1 rest \<and> sem_waiters 64 k1 = [200]
    \<and> 200 \<in> ready_tasks (state_of (lwsem_post 64 (after_wait 64 200 demo)))"
proof -
  have v: "sem_valid 64 demo" "sem_value 64 demo \<le> 0" "ACTIVE_PTR demo \<noteq> 100" "200 = ACTIVE_PTR demo" "sem_waiters 64 demo = []"
    "sem_value 64 demo = 0"
    by (simp_all add: sem_valid_def sem_value_def sem_waiters_def demo_def)
  let ?k = "after_wait 64 200 demo"
  have ok: "sem_ready 100 64 demo" "may_wait 100 200 demo" using demo_running v by (simp_all add: sem_ready_def may_wait_def)
  have "running 100 ?k" "sem_valid 64 ?k" "sem_value 64 ?k = 0" "sem_waiters 64 ?k = [200]"
    using lws.wait_ok [OF ok] lws.wait_join [OF ok] v by (simp_all add: sem_ready_def)
  with lwsem_wait_for_result [OF demo_running v(3,1,2,4), of "\<lparr>TICKS = 3, HW_TICKS = 0\<rparr>"] v(5) show ?thesis by fastforce
qed

subsection \<open>Creating a semaphore that exists\<close>

text \<open>
  C31 (error). \<^verbatim>\<open>_lwsem_create\<close> on a semaphore that is already registered reports \<^verbatim>\<open>MQX_EINVAL\<close>, but only after
  it has overwritten the count and emptied the wait queue: the waiting tasks stay blocked in no queue,
  which breaks the kernel invariant.
\<close>

theorem lwsem_create_existing_drops_waiters:
  assumes "kinv k" and "s \<in> set (LWSEM_LIST k)" and "t \<in> set (sem_waiters s k)"
  shows "fst (lwsem_create s n k) = MQX_EINVAL \<and> sem_waiters s (snd (lwsem_create s n k)) = []
    \<and> STATE (TDS (snd (lwsem_create s n k)) t) = STATE (TDS k t) \<and> \<not> kinv (snd (lwsem_create s n k))"
proof -
  let ?k = "snd (lwsem_create s n k)"
  have t: "t \<in> set (TD_LIST k)" "STATE (TDS k t) AND TD_IS_ON_AUX_QUEUE \<noteq> 0" "INFO (TDS k t) = TD_QUEUE s"
    using assms by (auto simp: kinv_def placed_def sem_waiters_def)
  have f: "fst (lwsem_create s n k) = MQX_EINVAL" "AUX_QUEUES ?k (TD_QUEUE s) = []" "TD_LIST ?k = TD_LIST k"
    "STATE (TDS ?k t) = STATE (TDS k t)" "INFO (TDS ?k t) = INFO (TDS k t)"
    using assms(2) by (simp_all add: lwsem_create_def lwsem_create_internal_def Let_def)
  have "\<not> placed ?k t" unfolding placed_def using t f
    by (metis (no_types, lifting) empty_iff empty_set)
  then show ?thesis using f by (simp add: kinv_def sem_waiters_def) blast
qed

theorem lwsem_create_existing_drops_waiters_witness:
  "fst (lwsem_create 64 1 (after_wait 64 200 (demo\<lparr>LWSEM_LIST := [64]\<rparr>))) = MQX_EINVAL
   \<and> sem_waiters 64 (snd (lwsem_create 64 1 (after_wait 64 200 (demo\<lparr>LWSEM_LIST := [64]\<rparr>)))) = []"
proof -
  let ?d = "demo\<lparr>LWSEM_LIST := [64]\<rparr>"
  have r: "running 100 ?d" using running_same(1) [of demo ?d 100] demo_running by (simp add: same_queues_def)
  have v: "sem_valid 64 ?d" "sem_value 64 ?d = 0" "sem_waiters 64 ?d = []" "ACTIVE_PTR ?d = 200"
    by (simp_all add: sem_valid_def sem_value_def sem_waiters_def demo_def)
  have ok: "sem_ready 100 64 ?d" "may_wait 100 200 ?d" using r v by (simp_all add: sem_ready_def may_wait_def)
  have w: "sem_waiters 64 (after_wait 64 200 ?d) = [200]" using lws.wait_join [OF ok] v by simp
  have k: "kinv (after_wait 64 200 ?d)" using lws.wait_ok [OF ok] by (simp add: sem_ready_def running_def)
  have "LWSEM_LIST (after_wait 64 200 ?d) = [64]"
    using v r by (simp add: after_wait_def lwsem_wait_def lwsem_wait_with_def Let_def running_def wait_blocked_def
        sched_execute_scheduler_def aux_block_def wait_end_def)
  then show ?thesis using lwsem_create_existing_drops_waiters [OF k, of 64 200 1] w by simp
qed

end
