(* ===== verification/Task_Queue.thy ===== *)
theory Task_Queue
  imports Kernel_Time
begin

unbundle bit_operations_syntax

text \<open>
  Task queues (\<^verbatim>\<open>kernel/taskq.c\<close>): explicit suspension and resumption of tasks, first come first served or
  by priority. The queue at address \<open>q\<close> has its list of task descriptors at \<open>q + 16\<close>; the memory
  allocator's answer is an argument of \<^verbatim>\<open>_taskq_create\<close>, and the block that \<^verbatim>\<open>_taskq_destroy\<close> gives back
  (\<^verbatim>\<open>_mem_free\<close>, after its last access to the queue) concerns the allocator's state only. What happens while the loop
  of \<^verbatim>\<open>_taskq_destroy\<close> has interrupts enabled is an argument of that function. \<^verbatim>\<open>_taskq_test\<close>, a check of link
  structure, is in theory \<^verbatim>\<open>Object_Tests\<close>.
\<close>

abbreviation (input) TASK_QUEUE_VALID :: u32 where "TASK_QUEUE_VALID \<equiv> 0x74736b71"
abbreviation (input) MQX_TASK_QUEUE_FIFO :: u32 where "MQX_TASK_QUEUE_FIFO \<equiv> 0"

definition TASKQ_TDS :: "addr \<Rightarrow> addr" where "TASKQ_TDS tq = tq + 16"

definition taskq_valid :: "addr \<Rightarrow> kernel \<Rightarrow> bool" where
  "taskq_valid tq k \<longleftrightarrow> TASKQ_VALID_FIELD (TASK_QUEUES k tq) = TASK_QUEUE_VALID"

definition taskq_list :: "addr \<Rightarrow> kernel \<Rightarrow> addr list" where
  "taskq_list tq k = TD_QUEUES k (TASKQ_TDS tq)"

definition by_priority :: "addr \<Rightarrow> kernel \<Rightarrow> bool" where
  "by_priority tq k \<longleftrightarrow> POLICY (TASK_QUEUES k tq) AND MQX_TASK_QUEUE_BY_PRIORITY \<noteq> 0"

subsection \<open>Operations\<close>

definition taskq_create :: "u32 \<Rightarrow> addr \<Rightarrow> kernel \<Rightarrow> addr \<times> kernel" where
  "taskq_create policy allocated k =
     (if \<not> (policy = MQX_TASK_QUEUE_FIFO \<or> policy = MQX_TASK_QUEUE_BY_PRIORITY)
      then (NULL, snd (task_set_error MQX_INVALID_PARAMETER k))
      else if IN_ISR k \<noteq> 0 then (NULL, snd (task_set_error MQX_CANNOT_CALL_FUNCTION_FROM_ISR k))
      else if allocated = NULL then (NULL, k)
      else let k1 = TDQ_SET (TASKQ_TDS allocated) [] k;
               k2 = k1\<lparr>TASK_QUEUES := (TASK_QUEUES k1)(allocated := \<lparr>TASKQ_VALID_FIELD = TASK_QUEUE_VALID, POLICY = policy\<rparr>)\<rparr>
           in (allocated, INT_ENABLE ((INT_DISABLE k2)\<lparr>KERNEL_TASK_QUEUES := KERNEL_TASK_QUEUES k2 @ [allocated]\<rparr>)))"

text \<open>\<^verbatim>\<open>_QUEUE_DEQUEUE\<close> and \<^verbatim>\<open>_TASK_READY\<close>, once or until the queue is empty.\<close>

definition tdq_wake :: "addr \<Rightarrow> addr \<Rightarrow> kernel \<Rightarrow> kernel" where
  "tdq_wake q t k = TASK_READY t (TDQ_SET q (removeAll t (TD_QUEUES k q)) k)"

fun tdq_wake_all :: "addr \<Rightarrow> addr list \<Rightarrow> kernel \<Rightarrow> kernel" where
  "tdq_wake_all q [] k = k"
| "tdq_wake_all q (t # ts) k = tdq_wake_all q ts (tdq_wake q t k)"

text \<open>
  The loop of \<^verbatim>\<open>_taskq_destroy\<close>. Between two rounds interrupts are enabled: \<open>W\<close> is what interrupts, and the
  tasks they let run, do to the kernel there. A round is made for every task that the queue holds at the
  start at most; it ends earlier when the queue is empty.
\<close>

fun tdq_drain :: "(kernel \<Rightarrow> kernel) \<Rightarrow> addr \<Rightarrow> nat \<Rightarrow> kernel \<Rightarrow> kernel" where
  "tdq_drain W q 0 k = k"
| "tdq_drain W q (Suc n) k =
     (case TD_QUEUES k q of
        [] \<Rightarrow> k
      | t # ts \<Rightarrow> tdq_drain W q n (INT_DISABLE (W (INT_ENABLE (tdq_wake q t k)))))"

definition taskq_destroy :: "(kernel \<Rightarrow> kernel) \<Rightarrow> addr \<Rightarrow> kernel \<Rightarrow> (kernel, u32) prog" where
  "taskq_destroy W tq k =
     (if tq = NULL then Done MQX_INVALID_PARAMETER (INT_ENABLE k)
      else if IN_ISR k \<noteq> 0 then Done MQX_CANNOT_CALL_FUNCTION_FROM_ISR k
      else let k1 = INT_DISABLE k
           in if \<not> taskq_valid tq k1 then Done MQX_INVALID_TASK_QUEUE (INT_ENABLE k1)
              else let k2 = k1\<lparr>TASK_QUEUES := (TASK_QUEUES k1)(tq := (TASK_QUEUES k1 tq)\<lparr>TASKQ_VALID_FIELD := 0\<rparr>)\<rparr>;
                       k3 = tdq_drain W (TASKQ_TDS tq) (length (taskq_list tq k2)) k2;
                       k4 = k3\<lparr>KERNEL_TASK_QUEUES := removeAll tq (KERNEL_TASK_QUEUES k3)\<rparr>
                   in andthen (sched_check_scheduler (INT_ENABLE k4)) (\<lambda>_ k5. Done MQX_OK k5))"

text \<open>The common part of \<^verbatim>\<open>_taskq_suspend\<close> and \<^verbatim>\<open>_taskq_suspend_task\<close>.\<close>

definition tdq_block :: "addr \<Rightarrow> addr \<Rightarrow> kernel \<Rightarrow> kernel" where
  "tdq_block tq t k =
     (let q = TASKQ_TDS tq;
          k1 = upd_td t (\<lambda>d. d\<lparr>INFO := q\<rparr>) (UNLINK_READY t (upd_td t (\<lambda>d. d\<lparr>STATE := TASK_QUEUE_BLOCKED\<rparr>) k))
      in if by_priority tq k1 then sched_insert_priorityq q t k1
         else TDQ_SET q (TD_QUEUES k1 q @ [t]) k1)"

definition taskq_suspend :: "addr \<Rightarrow> kernel \<Rightarrow> (kernel, u32) prog" where
  "taskq_suspend tq k =
     (if tq = NULL then Done MQX_INVALID_PARAMETER k
      else if IN_ISR k \<noteq> 0 then Done MQX_CANNOT_CALL_FUNCTION_FROM_ISR k
      else let k1 = INT_DISABLE k
           in if \<not> taskq_valid tq k1 then Done MQX_INVALID_TASK_QUEUE (INT_ENABLE k1)
              else andthen (sched_execute_scheduler (tdq_block tq (ACTIVE_PTR k1) k1))
                     (\<lambda>_ k2. Done MQX_OK (INT_ENABLE k2)))"

definition taskq_suspend_task :: "u32 \<Rightarrow> addr \<Rightarrow> kernel \<Rightarrow> (kernel, u32) prog" where
  "taskq_suspend_task task_id tq k =
     (let t = task_get_td task_id k; me = (t = ACTIVE_PTR k)
      in if t = NULL then Done MQX_INVALID_TASK_ID k
         else if tq = NULL then Done MQX_INVALID_PARAMETER k
         else if me \<and> IN_ISR k \<noteq> 0 then Done MQX_CANNOT_CALL_FUNCTION_FROM_ISR k
         else let k1 = INT_DISABLE k
              in if \<not> taskq_valid tq k1 then Done MQX_INVALID_TASK_QUEUE (INT_ENABLE k1)
                 else if STATE (TDS k1 t) \<noteq> READY then Done MQX_INVALID_TASK_STATE (INT_ENABLE k1)
                 else andthen (if me \<and> IN_ISR k1 = 0 then sched_execute_scheduler (tdq_block tq t k1)
                               else Done () (tdq_block tq t k1))
                        (\<lambda>_ k2. Done MQX_OK (INT_ENABLE k2)))"

definition taskq_resume :: "addr \<Rightarrow> bool \<Rightarrow> kernel \<Rightarrow> (kernel, u32) prog" where
  "taskq_resume tq all_tasks k =
     (if tq = NULL then Done MQX_INVALID_TASK_QUEUE k
      else let k1 = INT_DISABLE k
           in if \<not> taskq_valid tq k1 then Done MQX_INVALID_TASK_QUEUE (INT_ENABLE k1)
              else case taskq_list tq k1 of
                [] \<Rightarrow> Done MQX_TASK_QUEUE_EMPTY (INT_ENABLE k1)
              | t # ts \<Rightarrow>
                  let k2 = (if all_tasks then tdq_wake_all (TASKQ_TDS tq) (t # ts) k1 else tdq_wake (TASKQ_TDS tq) t k1)
                  in andthen (sched_check_scheduler (INT_ENABLE k2)) (\<lambda>_ k3. Done MQX_OK k3))"

definition taskq_get_value :: "addr \<Rightarrow> kernel \<Rightarrow> u32 \<times> kernel" where
  "taskq_get_value tq k =
     (if tq = NULL then (MAX_UINT_32, snd (task_set_error MQX_INVALID_PARAMETER k))
      else if \<not> taskq_valid tq k then (MAX_UINT_32, snd (task_set_error MQX_INVALID_TASK_QUEUE k))
      else (of_nat (length (taskq_list tq k)), k))"

subsection \<open>Moving tasks through a task queue\<close>

lemma TDQ_SET_simps [simp]:
  "TDS (TDQ_SET q xs k) = TDS k" "TD_LIST (TDQ_SET q xs k) = TD_LIST k" "ACTIVE_PTR (TDQ_SET q xs k) = ACTIVE_PTR k"
  "IN_ISR (TDQ_SET q xs k) = IN_ISR k" "STUCK (TDQ_SET q xs k) = STUCK k"
  "ready_tasks (TDQ_SET q xs k) = ready_tasks k" "TD_QUEUES (TDQ_SET q xs k) = (TD_QUEUES k)(q := xs)"
  "TASK_QUEUES (TDQ_SET q xs k) = TASK_QUEUES k" "READY_Q (TDQ_SET q xs k) = READY_Q k"
  "priority_levels (TDQ_SET q xs k) = priority_levels k"
  by (simp_all add: TDQ_SET_def ready_tasks_def)

lemma TDQ_enqueue_kinv:
  assumes "floating t k" and "STATE (TDS k t) \<in> {TASK_QUEUE_BLOCKED, MUTEX_BLOCKED}" and "INFO (TDS k t) = q"
    and "set xs = insert t (set (TD_QUEUES k q))" and "distinct xs"
  shows "kinv (TDQ_SET q xs k)"
proof -
  have "shape (TDQ_SET q xs k)" using assms by (auto simp: floating_def shape_def TDQ_SET_def)
  moreover have "placed (TDQ_SET q xs k) t'" for t'
    using assms by (cases "t' = t") (auto simp: floating_def placed_def nowhere_def TDQ_SET_def)
  ultimately show ?thesis by (simp add: kinv_def)
qed

lemma TDQ_remove_floating:
  assumes "kinv k" "t \<in> set (TD_QUEUES k q)"
  shows "floating t (TDQ_SET q (removeAll t (TD_QUEUES k q)) k)"
proof -
  have s: "t \<in> set (TD_LIST k)" "INFO (TDS k t) = q" "STATE (TDS k t) AND TD_IS_ON_QUEUE \<noteq> 0" "STATE (TDS k t) \<noteq> READY"
    "STATE (TDS k t) AND IS_ON_TIMEOUT_Q = 0" "STATE (TDS k t) AND TD_IS_ON_AUX_QUEUE = 0" "MY_QUEUE (TDS k t) < priority_levels k"
    using assms by (auto simp: kinv_def placed_def)
  have "shape (TDQ_SET q (removeAll t (TD_QUEUES k q)) k)"
    using assms by (auto simp: kinv_def shape_def TDQ_SET_def distinct_removeAll)
  moreover have "placed (TDQ_SET q (removeAll t (TD_QUEUES k q)) k) t'" if "t' \<noteq> t" for t'
    using assms that by (auto simp: kinv_def placed_def TDQ_SET_def)
  moreover have "nowhere t (TDQ_SET q (removeAll t (TD_QUEUES k q)) k)"
    using assms s by (auto simp: kinv_def placed_def nowhere_def TDQ_SET_def)
  ultimately show ?thesis using s by (simp add: floating_def)
qed

lemma tdq_wake_unsettled:
  assumes "unsettled idle k" "t \<in> set (TD_QUEUES k q)"
  shows "unsettled idle (tdq_wake q t k)" "ready_tasks (tdq_wake q t k) = insert t (ready_tasks k)"
proof -
  have k: "kinv k" using assms by (simp add: unsettled_def)
  have t: "t \<in> set (TD_LIST k)" using k assms(2) by (auto simp: kinv_def placed_def)
  show r: "ready_tasks (tdq_wake q t k) = insert t (ready_tasks k)"
    using t by (simp add: tdq_wake_def ready_tasks_TASK_READY)
  have "kinv (tdq_wake q t k)"
    unfolding tdq_wake_def by (rule TASK_READY_kinv [OF TDQ_remove_floating [OF k assms(2)]])
  then show "unsettled idle (tdq_wake q t k)"
    using assms(1) r by (simp add: unsettled_def tdq_wake_def)
qed

lemma tdq_wake_all_unsettled:
  "unsettled idle k \<Longrightarrow> TD_QUEUES k q = ts \<Longrightarrow>
   unsettled idle (tdq_wake_all q ts k) \<and> ready_tasks (tdq_wake_all q ts k) = ready_tasks k \<union> set ts"
proof (induction ts arbitrary: k)
  case Nil
  then show ?case by simp
next
  case (Cons t ts)
  have "distinct (t # ts)" using Cons.prems by (metis unsettled_def kinv_def shape_def)
  then have "TD_QUEUES (tdq_wake q t k) q = ts" using Cons.prems by (simp add: tdq_wake_def)
  with Cons.IH [of "tdq_wake q t k"] tdq_wake_unsettled [of idle k t q] Cons.prems show ?case by auto
qed

lemma tdq_block_kinv:
  assumes k: "kinv k" and t: "t \<in> ready_tasks k"
  shows "kinv (tdq_block tq t k)"
proof -
  let ?q = "TASKQ_TDS tq"
  let ?k = "upd_td t (\<lambda>d. d\<lparr>INFO := ?q\<rparr>) (UNLINK_READY t (upd_td t (\<lambda>d. d\<lparr>STATE := TASK_QUEUE_BLOCKED\<rparr>) k))"
  have m: "MY_QUEUE (TDS k t) < priority_levels k" using k t by (simp add: kinv_def placed_def ready_tasks_def)
  have f: "floating t ?k" unfolding UNLINK_READY_upd
    using k t m by (intro floating_upd UNLINK_READY_floating) (simp_all add: ready_tasks_def)
  have n: "t \<notin> set (TD_QUEUES ?k ?q)" "distinct (TD_QUEUES ?k ?q)" using f by (simp_all add: floating_def nowhere_def shape_def)
  have "kinv (TDQ_SET ?q (TD_QUEUES ?k ?q @ [t]) ?k)"
    by (rule TDQ_enqueue_kinv [OF f]) (use n in simp_all)
  moreover have "kinv (sched_insert_priorityq ?q t ?k)" unfolding sched_insert_priorityq_def
    by (rule TDQ_enqueue_kinv [OF f]) (use n in simp_all)
  ultimately show ?thesis by (simp add: tdq_block_def Let_def)
qed

lemma tdq_block_frame [simp]:
  "TD_LIST (tdq_block tq t k) = TD_LIST k" "ACTIVE_PTR (tdq_block tq t k) = ACTIVE_PTR k"
  "IN_ISR (tdq_block tq t k) = IN_ISR k" "STUCK (tdq_block tq t k) = STUCK k"
  "x \<noteq> t \<Longrightarrow> TDS (tdq_block tq t k) x = TDS k x" "TASK_QUEUES (tdq_block tq t k) = TASK_QUEUES k"
  "MY_QUEUE (TDS (tdq_block tq t k) x) = MY_QUEUE (TDS k x)"
  by (simp_all add: tdq_block_def Let_def sched_insert_priorityq_def)

lemma running_task_queues [simp]:
  "running idle (k\<lparr>TASK_QUEUES := f\<rparr>) = running idle k" "running idle (k\<lparr>KERNEL_TASK_QUEUES := l\<rparr>) = running idle k"
  "unsettled idle (k\<lparr>TASK_QUEUES := f\<rparr>) = unsettled idle k" "unsettled idle (k\<lparr>KERNEL_TASK_QUEUES := l\<rparr>) = unsettled idle k"
  using running_same(1,2) [of k "k\<lparr>TASK_QUEUES := f\<rparr>" idle] running_same(1,2) [of k "k\<lparr>KERNEL_TASK_QUEUES := l\<rparr>" idle]
  by (simp_all add: same_queues_def)

subsection \<open>Running states are kept\<close>

lemma taskq_suspend_keeps:
  assumes r: "running idle k" and a: "ACTIVE_PTR k \<noteq> idle"
  shows "keeps (running idle) (running idle) R (taskq_suspend tq k)"
proof -
  let ?k = "INT_DISABLE k"
  have "keeps (running idle) (running idle) R (sched_execute_scheduler (tdq_block tq (ACTIVE_PTR k) ?k))"
  proof (rule execute_keeps)
    show "kinv (tdq_block tq (ACTIVE_PTR k) ?k)"
      using r by (intro tdq_block_kinv) (simp_all add: running_def top_active_def)
    show "idle \<in> ready_tasks (tdq_block tq (ACTIVE_PTR k) ?k)"
      by (rule ready_tasks_frame [of idle ?k "ACTIVE_PTR k"]) (use r a in \<open>simp_all add: running_unsettled\<close>)
  qed (use r in \<open>simp_all add: running_def top_active_def\<close>)
  then have "keeps (running idle) (running idle) R (andthen (sched_execute_scheduler (tdq_block tq (ACTIVE_PTR k) ?k))
      (\<lambda>_ k2. Done MQX_OK (INT_ENABLE k2)))" by (rule keeps_andthen) simp
  then show ?thesis using r by (simp add: taskq_suspend_def Let_def)
qed

lemma block_other_running:
  assumes r: "running idle k" and t: "t \<in> ready_tasks k" "t \<noteq> ACTIVE_PTR k" "t \<noteq> idle"
  shows "running idle (tdq_block tq t k)"
proof -
  have "kinv (tdq_block tq t k)" using r t by (intro tdq_block_kinv) (simp_all add: running_def)
  moreover have "CURRENT_READY_Q (tdq_block tq t k) = CURRENT_READY_Q k"
    by (simp add: tdq_block_def Let_def sched_insert_priorityq_def TDQ_SET_def)
  ultimately show ?thesis
    using r t by (simp add: running_def top_active_def ready_tasks_def active_td_def)
qed

lemma taskq_suspend_task_keeps:
  assumes r: "running idle k" and t: "task_get_td task_id k \<in> {NULL} \<union> (set (TD_LIST k) - {idle})"
  shows "keeps (running idle) (running idle) R (taskq_suspend_task task_id tq k)"
proof (cases "task_get_td task_id k = ACTIVE_PTR k")
  case True
  show ?thesis
  proof (cases "task_get_td task_id k = NULL")
    case False
    then have "ACTIVE_PTR k \<noteq> idle" using True t by auto
    moreover have "IN_ISR k = 0" using r by (simp add: running_def)
    ultimately show ?thesis using taskq_suspend_keeps [OF r, of R tq] False True r
      by (auto simp: taskq_suspend_task_def taskq_suspend_def Let_def split: if_splits)
  qed (use r in \<open>simp add: taskq_suspend_task_def\<close>)
next
  case False
  let ?t = "task_get_td task_id k"
  have "running idle (tdq_block tq ?t (INT_DISABLE k))" if "?t \<noteq> NULL" "STATE (TDS k ?t) = READY"
    using r t False that by (intro block_other_running) (auto simp: ready_tasks_def)
  then show ?thesis using r False by (simp add: taskq_suspend_task_def Let_def)
qed

lemma taskq_wake_keeps:
  assumes "unsettled idle k"
  shows "keeps (running idle) (running idle) R (andthen (sched_check_scheduler (INT_ENABLE k)) (\<lambda>_ k3. Done MQX_OK k3))"
  by (rule keeps_andthen [OF check_keeps [of idle]]) (use assms in simp_all)

lemma taskq_resume_keeps:
  assumes r: "running idle k"
  shows "keeps (running idle) (running idle) R (taskq_resume tq a k)"
proof (cases "taskq_list tq (INT_DISABLE k)")
  case Nil
  then show ?thesis using r by (simp add: taskq_resume_def Let_def)
next
  case (Cons t ts)
  let ?k = "INT_DISABLE k" and ?q = "TASKQ_TDS tq"
  have u: "unsettled idle ?k" using r by (simp add: running_unsettled)
  have q: "TD_QUEUES ?k ?q = t # ts" using Cons by (simp add: taskq_list_def)
  have "unsettled idle (tdq_wake_all ?q (t # ts) ?k)" using tdq_wake_all_unsettled [OF u q] by blast
  moreover have "unsettled idle (tdq_wake ?q t ?k)" using q by (intro tdq_wake_unsettled [OF u]) simp
  ultimately show ?thesis using r Cons taskq_wake_keeps [of idle _ R]
    by (simp add: taskq_resume_def Let_def)
qed

text \<open>
  What may happen in a window of a call: the kernel stays consistent, the caller is active again at its end,
  and nobody joins the queue, which \<^verbatim>\<open>_taskq_destroy\<close> has marked invalid. A window where nothing happens is one.
\<close>

definition window_ok :: "addr \<Rightarrow> addr \<Rightarrow> (kernel \<Rightarrow> kernel) \<Rightarrow> bool" where
  "window_ok idle q W \<longleftrightarrow> (\<forall>k. unsettled idle k \<longrightarrow>
     unsettled idle (W k) \<and> ACTIVE_PTR (W k) = ACTIVE_PTR k \<and> length (TD_QUEUES (W k) q) \<le> length (TD_QUEUES k q))"

lemma window_ok_id [simp]: "window_ok idle q (\<lambda>k. k)"
  by (simp add: window_ok_def)

lemma tdq_drain_unsettled:
  assumes w: "window_ok idle q W"
  shows "unsettled idle k \<Longrightarrow> length (TD_QUEUES k q) \<le> n \<Longrightarrow>
    unsettled idle (tdq_drain W q n k) \<and> TD_QUEUES (tdq_drain W q n k) q = []"
proof (induction n arbitrary: k)
  case (Suc n)
  show ?case
  proof (cases "TD_QUEUES k q")
    case (Cons t ts)
    let ?k = "INT_ENABLE (tdq_wake q t k)"
    have "distinct (t # ts)" using Suc.prems(1) Cons by (metis unsettled_def kinv_def shape_def)
    then have l: "length (TD_QUEUES ?k q) \<le> n" using Suc.prems(2) Cons by (simp add: tdq_wake_def)
    have "unsettled idle ?k" using tdq_wake_unsettled(1) [OF Suc.prems(1), of t q] Cons by simp
    then have "unsettled idle (W ?k)" "length (TD_QUEUES (W ?k) q) \<le> n"
      using w l le_trans unfolding window_ok_def by blast+
    then show ?thesis using Suc.IH [of "INT_DISABLE (W ?k)"] Cons by simp
  qed (use Suc.prems in simp)
qed simp

lemma taskq_destroy_keeps:
  assumes r: "running idle k" and w: "window_ok idle (TASKQ_TDS tq) W"
  shows "keeps (running idle) (running idle) R (taskq_destroy W tq k)"
proof -
  let ?k2 = "(INT_DISABLE k)\<lparr>TASK_QUEUES := (TASK_QUEUES (INT_DISABLE k))(tq := (TASK_QUEUES (INT_DISABLE k) tq)\<lparr>TASKQ_VALID_FIELD := 0\<rparr>)\<rparr>"
  have "unsettled idle (tdq_drain W (TASKQ_TDS tq) (length (taskq_list tq ?k2)) ?k2)"
    using tdq_drain_unsettled [OF w, of ?k2 "length (taskq_list tq ?k2)"] r
    by (simp add: running_unsettled taskq_list_def)
  with taskq_wake_keeps [of idle _ R] r show ?thesis by (simp add: taskq_destroy_def Let_def)
qed

text \<open>With nothing in the windows the loop readies the whole queue, as the loop of \<^verbatim>\<open>_taskq_resume\<close> does, but
  for the interrupt level.\<close>

lemma taskq_destroy_empties:
  assumes "unsettled idle k" "window_ok idle (TASKQ_TDS tq) W"
  shows "taskq_list tq (tdq_drain W (TASKQ_TDS tq) (length (taskq_list tq k)) k) = []"
  using tdq_drain_unsettled [OF assms(2,1)] by (simp add: taskq_list_def)

lemma taskq_create_running:
  assumes r: "running idle k" and n: "TD_QUEUES k (TASKQ_TDS allocated) = []"
  shows "running idle (snd (taskq_create policy allocated k))"
proof -
  have "running idle (TDQ_SET (TASKQ_TDS allocated) [] k)"
    using running_same(1) [of k "TDQ_SET (TASKQ_TDS allocated) [] k" idle] r n
    by (simp add: same_queues_def TDQ_SET_def fun_upd_idem)
  then show ?thesis using r by (simp add: taskq_create_def Let_def)
qed

text \<open>
  Fact. The task queue operations keep the kernel in a running state, at every switch and on
  return: \<^verbatim>\<open>_taskq_resume\<close>; \<^verbatim>\<open>_taskq_destroy\<close>, if what interrupts do between the rounds of its loop keeps the
  kernel consistent and lets nobody join the queue; \<^verbatim>\<open>_taskq_suspend\<close> and \<^verbatim>\<open>_taskq_suspend_task\<close> of a task
  other than the idle task; and \<^verbatim>\<open>_taskq_create\<close> in memory that is not the list of a queue with waiting tasks.
\<close>

theorem taskq_operations_keep_running:
  assumes "running idle k"
  shows "keeps (running idle) (running idle) (resumes t) (taskq_resume tq all_tasks k)
    \<and> (window_ok idle (TASKQ_TDS tq) W \<longrightarrow> keeps (running idle) (running idle) (resumes t) (taskq_destroy W tq k))
    \<and> (ACTIVE_PTR k \<noteq> idle \<longrightarrow> keeps (running idle) (running idle) (resumes t) (taskq_suspend tq k))
    \<and> (task_get_td task_id k \<in> {NULL} \<union> (set (TD_LIST k) - {idle}) \<longrightarrow>
        keeps (running idle) (running idle) (resumes t) (taskq_suspend_task task_id tq k))
    \<and> (TD_QUEUES k (TASKQ_TDS allocated) = [] \<longrightarrow> running idle (snd (taskq_create policy allocated k)))"
  using assms
  by (simp add: taskq_resume_keeps taskq_destroy_keeps taskq_suspend_keeps taskq_suspend_task_keeps taskq_create_running)

theorem taskq_operations_keep_running_witness:
  "keeps (running 100) (running 100) (resumes 200) (taskq_suspend 64 demo)
   \<and> keeps (running 100) (running 100) (resumes 200) (taskq_destroy (\<lambda>k. k) 64 demo)
   \<and> running 100 (snd (taskq_create 0 64 demo))"
  using taskq_operations_keep_running [OF demo_running, where W = "\<lambda>k. k" and allocated = 64 and policy = 0]
  by (simp add: demo_def)

subsection \<open>Service by priority\<close>

lemma execute_state_frame:
  "TD_QUEUES (state_of (andthen (sched_execute_scheduler k) (\<lambda>_ k2. Done r (INT_ENABLE k2)))) = TD_QUEUES k"
  "MY_QUEUE (TDS (state_of (andthen (sched_execute_scheduler k) (\<lambda>_ k2. Done r (INT_ENABLE k2)))) x) = MY_QUEUE (TDS k x)"
  by (simp_all add: sched_execute_scheduler_def Let_def)

lemma check_state_frame:
  "TD_QUEUES (state_of (andthen (sched_check_scheduler k) (\<lambda>_ k2. Done r k2))) = TD_QUEUES k"
  "ready_tasks (state_of (andthen (sched_check_scheduler k) (\<lambda>_ k2. Done r k2))) = ready_tasks k"
  by (simp_all add: sched_check_scheduler_def sched_execute_scheduler_def Let_def)

text \<open>
  C28 (functional). A task queue with the priority policy whose list is ordered by priority stays ordered when
  the active task suspends itself, the task being placed behind its equals, and a resume readies the
  task at its head, which no remaining task beats in priority.
\<close>

theorem taskq_priority_service:
  assumes r: "running idle k" and "tq \<noteq> NULL" and "taskq_valid tq k" and "by_priority tq k"
    and so: "sorted (map (prio_of k) (taskq_list tq k))"
  shows "sorted (map (prio_of k) (taskq_list tq (state_of (taskq_suspend tq k))))
    \<and> taskq_list tq (state_of (taskq_suspend tq k)) =
        filter (\<lambda>x. prio_of k x \<le> prio_of k (ACTIVE_PTR k)) (taskq_list tq k) @ ACTIVE_PTR k
        # filter (\<lambda>x. prio_of k x > prio_of k (ACTIVE_PTR k)) (taskq_list tq k)
    \<and> (taskq_list tq k = t # ts \<longrightarrow> t \<in> ready_tasks (state_of (taskq_resume tq False k))
        \<and> taskq_list tq (state_of (taskq_resume tq False k)) = ts \<and> (\<forall>x \<in> set ts. prio_of k t \<le> prio_of k x))"
proof -
  let ?k = "INT_DISABLE k" and ?q = "TASKQ_TDS tq" and ?t = "ACTIVE_PTR k"
  have v: "taskq_valid tq ?k" "by_priority tq ?k" "IN_ISR k = 0" using assms by (simp_all add: taskq_valid_def by_priority_def running_def)
  have "taskq_list tq (state_of (taskq_suspend tq k)) = insert_priorityq (prio_of k) ?t (taskq_list tq k)"
  proof -
    have "TD_QUEUES (tdq_block tq ?t ?k) ?q = insert_priorityq (prio_of k) ?t (TD_QUEUES k ?q)"
    proof -
      have "prio_of (upd_td ?t (\<lambda>d. d\<lparr>INFO := ?q\<rparr>) (UNLINK_READY ?t (upd_td ?t (\<lambda>d. d\<lparr>STATE := TASK_QUEUE_BLOCKED\<rparr>) ?k))) = prio_of k"
        by (simp add: prio_of_def fun_eq_iff)
      then show ?thesis using v by (simp add: tdq_block_def Let_def sched_insert_priorityq_def by_priority_def)
    qed
    then show ?thesis using v assms(2) by (simp add: taskq_suspend_def Let_def taskq_list_def execute_state_frame)
  qed
  moreover have "t \<in> ready_tasks (state_of (taskq_resume tq False k)) \<and> taskq_list tq (state_of (taskq_resume tq False k)) = ts"
    if l: "taskq_list tq k = t # ts"
  proof -
    have u: "unsettled idle ?k" using r by (simp add: running_unsettled)
    have q: "TD_QUEUES ?k ?q = t # ts" "taskq_list tq ?k = t # ts" using l by (simp_all add: taskq_list_def)
    have "distinct (TD_QUEUES ?k ?q)" using u by (simp add: unsettled_def kinv_def shape_def)
    then have "t \<notin> set ts" using q by simp
    then have "taskq_list tq (tdq_wake ?q t ?k) = ts" using q by (simp add: tdq_wake_def taskq_list_def)
    moreover have "t \<in> ready_tasks (tdq_wake ?q t ?k)" using tdq_wake_unsettled(2) [OF u, of t ?q] q by simp
    ultimately show ?thesis
      using v assms(2) q by (simp add: taskq_resume_def Let_def taskq_list_def check_state_frame)
  qed
  ultimately show ?thesis
    using insert_priorityq_eq [OF so, of ?t] insert_priorityq_sorted [OF so, of ?t] so by auto
qed

theorem taskq_priority_service_witness:
  "taskq_list 64 (state_of (taskq_suspend 64 (demo\<lparr>TASK_QUEUES := (\<lambda>_. \<lparr>TASKQ_VALID_FIELD = 0x74736b71, POLICY = 8\<rparr>)\<rparr>))) = [200]"
proof -
  let ?d = "demo\<lparr>TASK_QUEUES := (\<lambda>_. \<lparr>TASKQ_VALID_FIELD = 0x74736b71, POLICY = 8\<rparr>)\<rparr>"
  have r: "running 100 ?d" using demo_running by simp
  have "taskq_valid 64 ?d" "by_priority 64 ?d" "taskq_list 64 ?d = []" "ACTIVE_PTR ?d = 200"
    by (simp_all add: taskq_valid_def by_priority_def taskq_list_def demo_def)
  with taskq_priority_service [OF r, of 64] show ?thesis by simp
qed

end
