(* ===== verification/Lwevent.thy ===== *)
theory Lwevent
  imports Kernel_Time
begin

unbundle bit_operations_syntax

text \<open>
  Lightweight events (\<^verbatim>\<open>kernel/lwevent.c\<close>): groups of bits that tasks wait for, one or all of a mask, and
  that are cleared by hand or automatically for the bits of \<^verbatim>\<open>AUTO\<close>. The event group at address \<open>e\<close> has
  its wait queue at \<open>e + 8\<close>. The list of event groups is created empty on first use, which is the empty
  list here.
\<close>

abbreviation (input) LWEVENT_VALID :: u32 where "LWEVENT_VALID \<equiv> 0x6C65766E"
abbreviation (input) LWEVENT_AUTO_CLEAR :: u32 where "LWEVENT_AUTO_CLEAR \<equiv> 1"
abbreviation (input) LWEVENT_WAIT_TIMEOUT :: u32 where "LWEVENT_WAIT_TIMEOUT \<equiv> 0x310"
abbreviation (input) MQX_LWEVENT_INVALID :: u32 where "MQX_LWEVENT_INVALID \<equiv> 0x39"
abbreviation (input) TASK_LWEVENT_ALL_BITS_WANTED :: u32 where "TASK_LWEVENT_ALL_BITS_WANTED \<equiv> 0x80"

definition EV_WAITING_TASKS :: "addr \<Rightarrow> addr" where "EV_WAITING_TASKS e = e + 8"

definition event_at :: "addr \<Rightarrow> kernel \<Rightarrow> lwevent" where
  "event_at e k = LWEVENTS (OBJ k) e"

definition upd_event :: "addr \<Rightarrow> (lwevent \<Rightarrow> lwevent) \<Rightarrow> kernel \<Rightarrow> kernel" where
  "upd_event e f k = k\<lparr>OBJ := (OBJ k)\<lparr>LWEVENTS := (LWEVENTS (OBJ k))(e := f (LWEVENTS (OBJ k) e))\<rparr>\<rparr>"

definition ev_valid :: "addr \<Rightarrow> kernel \<Rightarrow> bool" where
  "ev_valid e k \<longleftrightarrow> EV_VALID (event_at e k) = LWEVENT_VALID"

definition ev_waiters :: "addr \<Rightarrow> kernel \<Rightarrow> addr list" where
  "ev_waiters e k = AUX_QUEUES k (EV_WAITING_TASKS e)"

subsection \<open>Creation, destruction, clearing\<close>

definition lwevent_create_internal :: "addr \<Rightarrow> u32 \<Rightarrow> kernel \<Rightarrow> u32 \<times> kernel" where
  "lwevent_create_internal e flags k =
     (let k1 = upd_event e (\<lambda>v. v\<lparr>EV_VALUE := 0, EV_FLAGS := flags,
                 EV_AUTO := (if flags AND LWEVENT_AUTO_CLEAR \<noteq> 0 then NOT 0 else 0)\<rparr>)
                 (k\<lparr>AUX_QUEUES := (AUX_QUEUES k)(EV_WAITING_TASKS e := [])\<rparr>);
          k2 = upd_event e (\<lambda>v. v\<lparr>EV_VALID := LWEVENT_VALID\<rparr>) (INT_DISABLE k1)
      in if e \<in> set (LWEVENT_LIST (OBJ k2)) then (MQX_EINVAL, INT_ENABLE k2)
         else (MQX_OK, INT_ENABLE (k2\<lparr>OBJ := (OBJ k2)\<lparr>LWEVENT_LIST := LWEVENT_LIST (OBJ k2) @ [e]\<rparr>\<rparr>)))"

definition lwevent_create :: "addr \<Rightarrow> u32 \<Rightarrow> kernel \<Rightarrow> u32 \<times> kernel" where
  "lwevent_create e flags k = lwevent_create_internal e flags k"

definition lwevent_destroy :: "addr \<Rightarrow> kernel \<Rightarrow> (kernel, u32) prog" where
  "lwevent_destroy e k =
     (if IN_ISR k \<noteq> 0 then Done MQX_CANNOT_CALL_FUNCTION_FROM_ISR k
      else let k1 = INT_DISABLE k
           in if \<not> ev_valid e k1 then Done MQX_LWEVENT_INVALID (INT_ENABLE k1)
              else let k2 = upd_event e (\<lambda>v. v\<lparr>EV_VALID := 0\<rparr>) k1;
                       k3 = wake_all (EV_WAITING_TASKS e) (ev_waiters e k2) k2;
                       k4 = k3\<lparr>OBJ := (OBJ k3)\<lparr>LWEVENT_LIST := removeAll e (LWEVENT_LIST (OBJ k3))\<rparr>\<rparr>
                   in andthen (sched_check_scheduler (INT_ENABLE k4)) (\<lambda>_ k5. Done MQX_OK k5))"

definition lwevent_clear :: "addr \<Rightarrow> u32 \<Rightarrow> kernel \<Rightarrow> u32 \<times> kernel" where
  "lwevent_clear e bit_mask k =
     (let k1 = INT_DISABLE k
      in if \<not> ev_valid e k1 then (MQX_LWEVENT_INVALID, INT_ENABLE k1)
         else (MQX_OK, INT_ENABLE (upd_event e (\<lambda>v. v\<lparr>EV_VALUE := EV_VALUE v AND NOT bit_mask\<rparr>) k1)))"

definition lwevent_get_signalled :: "kernel \<Rightarrow> u32" where
  "lwevent_get_signalled k = LWEVENT_BITS (active_td k)"

definition lwevent_set_auto_clear :: "addr \<Rightarrow> u32 \<Rightarrow> kernel \<Rightarrow> u32 \<times> kernel" where
  "lwevent_set_auto_clear e auto_mask k =
     (let k1 = INT_DISABLE k
      in if \<not> ev_valid e k1 then (MQX_LWEVENT_INVALID, INT_ENABLE k1)
         else (MQX_OK, INT_ENABLE (upd_event e (\<lambda>v. v\<lparr>EV_AUTO := auto_mask\<rparr>) k1)))"

subsection \<open>Setting\<close>

text \<open>The condition under which a waiting task is woken by the bits, and the walk over the wait queue.\<close>

definition ev_satisfied :: "td \<Rightarrow> u32 \<Rightarrow> bool" where
  "ev_satisfied d bits \<longleftrightarrow>
     (if FLAGS d AND TASK_LWEVENT_ALL_BITS_WANTED \<noteq> 0 then LWEVENT_BITS d AND bits = LWEVENT_BITS d
      else LWEVENT_BITS d AND bits \<noteq> 0)"

fun set_loop :: "addr \<Rightarrow> u32 \<Rightarrow> addr list \<Rightarrow> u32 \<Rightarrow> kernel \<Rightarrow> u32 \<times> kernel" where
  "set_loop q auto [] set_bits k = (set_bits, k)"
| "set_loop q auto (t # ts) set_bits k =
     (if ev_satisfied (TDS k t) set_bits
      then let k1 = aux_wake q (\<lambda>d. d\<lparr>INFO := 0\<rparr>) t k;
               k2 = upd_td t (\<lambda>d. d\<lparr>LWEVENT_BITS := LWEVENT_BITS d AND set_bits\<rparr>) k1
           in set_loop q auto ts (set_bits AND NOT (auto AND LWEVENT_BITS (TDS k2 t))) k2
      else set_loop q auto ts set_bits k)"

definition lwevent_set :: "addr \<Rightarrow> u32 \<Rightarrow> kernel \<Rightarrow> (kernel, u32) prog" where
  "lwevent_set e bit_mask k =
     (let k1 = INT_DISABLE k
      in if \<not> ev_valid e k1 then Done MQX_LWEVENT_INVALID (INT_ENABLE k1)
         else let (set_bits, k2) = set_loop (EV_WAITING_TASKS e) (EV_AUTO (event_at e k1)) (ev_waiters e k1)
                                     (EV_VALUE (event_at e k1) OR bit_mask) k1;
                  k3 = upd_event e (\<lambda>v. v\<lparr>EV_VALUE := set_bits\<rparr>) k2
              in andthen (sched_check_scheduler (INT_ENABLE k3)) (\<lambda>_ k4. Done MQX_OK k4))"

subsection \<open>Waiting\<close>

text \<open>The task joins the wait queue while it is still in its ready queue; the delay or the blocking takes
  it out.\<close>

definition ev_join :: "addr \<Rightarrow> u32 \<Rightarrow> bool \<Rightarrow> kernel \<Rightarrow> kernel" where
  "ev_join e bit_mask all k =
     (let t = ACTIVE_PTR k;
          k1 = upd_td t (\<lambda>d. d\<lparr>LWEVENT_BITS := bit_mask,
                 FLAGS := (if all then FLAGS d OR TASK_LWEVENT_ALL_BITS_WANTED
                           else FLAGS d AND NOT TASK_LWEVENT_ALL_BITS_WANTED)\<rparr>) k
      in upd_td t (\<lambda>d. d\<lparr>STATE := LWEVENT_BLOCKED, INFO := EV_WAITING_TASKS e\<rparr>)
           (AUX_ENQUEUE (EV_WAITING_TASKS e) t k1))"

definition ev_block :: "psp_tick option \<Rightarrow> bool \<Rightarrow> kernel \<Rightarrow> (kernel, u32) prog" where
  "ev_block tick_ptr ticks_are_absolute k =
     (let t = ACTIVE_PTR k
      in case tick_ptr of
           Some tick \<Rightarrow> andthen (if ticks_are_absolute then time_delay_until (Some tick) k else time_delay_for (Some tick) k)
             (\<lambda>_ k1. Done (if INFO (TDS k1 t) \<noteq> 0 then LWEVENT_WAIT_TIMEOUT else MQX_OK) k1)
         | None \<Rightarrow> andthen (task_block k) (\<lambda>_ k1. Done MQX_OK k1))"

definition lwevent_wait_internal ::
  "addr \<Rightarrow> u32 \<Rightarrow> bool \<Rightarrow> psp_tick option \<Rightarrow> bool \<Rightarrow> kernel \<Rightarrow> (kernel, u32) prog" where
  "lwevent_wait_internal e bit_mask all tick_ptr ticks_are_absolute k =
     (if IN_ISR k \<noteq> 0 then Done MQX_CANNOT_CALL_FUNCTION_FROM_ISR k
      else let k1 = INT_DISABLE k; v = EV_VALUE (event_at e k1)
           in if \<not> ev_valid e k1 then Done MQX_LWEVENT_INVALID (INT_ENABLE k1)
              else if all \<and> v AND bit_mask = bit_mask \<or> \<not> all \<and> v AND bit_mask \<noteq> 0
              then Done MQX_OK (INT_ENABLE
                     (upd_event e (\<lambda>x. x\<lparr>EV_VALUE := EV_VALUE x AND NOT (EV_AUTO x AND bit_mask)\<rparr>)
                       (upd_td (ACTIVE_PTR k1) (\<lambda>d. d\<lparr>LWEVENT_BITS := v AND bit_mask\<rparr>) k1)))
              else andthen (ev_block tick_ptr ticks_are_absolute (ev_join e bit_mask all k1))
                     (\<lambda>result k2. Done (if EV_VALID (event_at e k2) = 0 then MQX_LWEVENT_INVALID else result) (INT_ENABLE k2)))"

definition lwevent_wait_for :: "addr \<Rightarrow> u32 \<Rightarrow> bool \<Rightarrow> psp_tick option \<Rightarrow> kernel \<Rightarrow> (kernel, u32) prog" where
  "lwevent_wait_for e bit_mask all tick_ptr k = lwevent_wait_internal e bit_mask all tick_ptr False k"

definition lwevent_wait_until :: "addr \<Rightarrow> u32 \<Rightarrow> bool \<Rightarrow> psp_tick option \<Rightarrow> kernel \<Rightarrow> (kernel, u32) prog" where
  "lwevent_wait_until e bit_mask all tick_ptr k = lwevent_wait_internal e bit_mask all tick_ptr True k"

definition lwevent_wait_ticks :: "addr \<Rightarrow> u32 \<Rightarrow> bool \<Rightarrow> u32 \<Rightarrow> kernel \<Rightarrow> (kernel, u32) prog" where
  "lwevent_wait_ticks e bit_mask all timeout_in_ticks k =
     (if timeout_in_ticks \<noteq> 0
      then lwevent_wait_internal e bit_mask all
             (Some (PSP_ADD_TICKS_TO_TICK_STRUCT zero_tick_struct timeout_in_ticks zero_tick_struct)) False k
      else lwevent_wait_internal e bit_mask all None False k)"

subsection \<open>Running states are kept\<close>

lemma upd_event_simps [simp]:
  "TDS (upd_event e f k) = TDS k" "TD_LIST (upd_event e f k) = TD_LIST k" "AUX_QUEUES (upd_event e f k) = AUX_QUEUES k"
  "ACTIVE_PTR (upd_event e f k) = ACTIVE_PTR k" "IN_ISR (upd_event e f k) = IN_ISR k" "STUCK (upd_event e f k) = STUCK k"
  "running idle (upd_event e f k) = running idle k" "unsettled idle (upd_event e f k) = unsettled idle k"
  "ready_tasks (upd_event e f k) = ready_tasks k" "ev_waiters e' (upd_event e f k) = ev_waiters e' k"
  "event_at e' (upd_event e f k) = (if e' = e then f (event_at e k) else event_at e' k)"
  by (simp_all add: upd_event_def event_at_def ev_waiters_def)

lemma ev_simps [simp]:
  "event_at e (INT_DISABLE k) = event_at e k" "event_at e (INT_ENABLE k) = event_at e k"
  "ev_valid e (INT_DISABLE k) = ev_valid e k" "ev_valid e (INT_ENABLE k) = ev_valid e k"
  "ev_waiters e (INT_DISABLE k) = ev_waiters e k" "ev_waiters e (INT_ENABLE k) = ev_waiters e k"
  "event_at e (upd_td t f k) = event_at e k" "ev_valid e (upd_td t f k) = ev_valid e k"
  "ev_waiters e (upd_td t f k) = ev_waiters e k"
  by (simp_all add: event_at_def ev_valid_def ev_waiters_def)

lemma lwevent_destroy_keeps:
  assumes r: "running idle k"
  shows "keeps (running idle) (running idle) R (lwevent_destroy e k)"
proof -
  let ?k = "upd_event e (\<lambda>v. v\<lparr>EV_VALID := 0\<rparr>) (INT_DISABLE k)"
  let ?w = "wake_all (EV_WAITING_TASKS e) (ev_waiters e ?k) ?k"
  have "unsettled idle ?k" "AUX_QUEUES ?k (EV_WAITING_TASKS e) = ev_waiters e ?k"
    using r by (simp_all add: running_unsettled ev_waiters_def)
  then have "unsettled idle ?w" using wake_all_unsettled by blast
  then have "keeps (running idle) (running idle) R
    (andthen (sched_check_scheduler (INT_ENABLE (?w\<lparr>OBJ := x\<rparr>))) (\<lambda>_ k5. Done MQX_OK k5))" for x
    by (intro keeps_andthen [OF check_keeps [of idle]]) simp_all
  then show ?thesis using r unfolding lwevent_destroy_def Let_def by simp
qed

lemma ev_wake_unsettled:
  assumes "unsettled idle k" "t \<in> set (AUX_QUEUES k q)"
  shows "unsettled idle (upd_td t (\<lambda>d. d\<lparr>LWEVENT_BITS := b d\<rparr>) (aux_wake q (\<lambda>d. d\<lparr>INFO := 0\<rparr>) t k))"
proof -
  let ?w = "aux_wake q (\<lambda>d. d\<lparr>INFO := 0\<rparr>) t k"
  have "same_queues ?w (upd_td t (\<lambda>d. d\<lparr>LWEVENT_BITS := b d\<rparr>) ?w)" by (rule same_upd) simp
  then have "unsettled idle (upd_td t (\<lambda>d. d\<lparr>LWEVENT_BITS := b d\<rparr>) ?w) = unsettled idle ?w"
    by (rule running_same(2)) simp_all
  moreover have "unsettled idle ?w" using assms by (intro aux_wake_unsettled) simp_all
  ultimately show ?thesis by simp
qed

lemma set_loop_unsettled:
  "unsettled idle k \<Longrightarrow> distinct ts \<Longrightarrow> set ts \<subseteq> set (AUX_QUEUES k q) \<Longrightarrow>
   unsettled idle (snd (set_loop q auto ts bits k))"
proof (induction ts arbitrary: bits k)
  case Nil
  then show ?case by simp
next
  case (Cons t ts)
  let ?k = "upd_td t (\<lambda>d. d\<lparr>LWEVENT_BITS := LWEVENT_BITS d AND bits\<rparr>) (aux_wake q (\<lambda>d. d\<lparr>INFO := 0\<rparr>) t k)"
  have "unsettled idle ?k" using Cons.prems by (intro ev_wake_unsettled) auto
  moreover have "set ts \<subseteq> set (AUX_QUEUES ?k q)" using Cons.prems by auto
  ultimately show ?case using Cons by (simp add: Let_def)
qed

lemma waiters_distinct: "running idle k \<Longrightarrow> distinct (AUX_QUEUES k q)"
  by (simp add: running_def kinv_def shape_def)

lemma lwevent_set_keeps:
  assumes r: "running idle k"
  shows "keeps (running idle) (running idle) R (lwevent_set e bits k)"
proof -
  let ?k = "INT_DISABLE k"
  let ?l = "set_loop (EV_WAITING_TASKS e) (EV_AUTO (event_at e ?k)) (ev_waiters e ?k) (EV_VALUE (event_at e ?k) OR bits) ?k"
  have "unsettled idle (snd ?l)"
    using r waiters_distinct [of idle ?k] by (intro set_loop_unsettled) (simp_all add: running_unsettled ev_waiters_def)
  then have "keeps (running idle) (running idle) R
    (andthen (sched_check_scheduler (INT_ENABLE (upd_event e f (snd ?l)))) (\<lambda>_ k4. Done MQX_OK k4))" for f
    by (intro keeps_andthen [OF check_keeps [of idle]]) simp_all
  then show ?thesis using r by (simp add: lwevent_set_def Let_def split_beta)
qed

lemma ev_join_unlinked:
  "UNLINK_READY (ACTIVE_PTR k) (ev_join e m all k) =
   aux_block LWEVENT_BLOCKED (EV_WAITING_TASKS e) (ACTIVE_PTR k)
     (upd_td (ACTIVE_PTR k) (\<lambda>d. d\<lparr>LWEVENT_BITS := m,
        FLAGS := (if all then FLAGS d OR TASK_LWEVENT_ALL_BITS_WANTED else FLAGS d AND NOT TASK_LWEVENT_ALL_BITS_WANTED)\<rparr>) k)"
  by (simp add: ev_join_def aux_block_def Let_def UNLINK_READY_def AUX_ENQUEUE_def upd_td_def)

lemma ev_join_frame [simp]:
  "ACTIVE_PTR (ev_join e m all k) = ACTIVE_PTR k" "STUCK (ev_join e m all k) = STUCK k"
  "IN_ISR (ev_join e m all k) = IN_ISR k" "TD_LIST (ev_join e m all k) = TD_LIST k" "OBJ (ev_join e m all k) = OBJ k"
  "TIME (ev_join e m all k) = TIME k" "x \<noteq> ACTIVE_PTR k \<Longrightarrow> TDS (ev_join e m all k) x = TDS k x"
  by (simp_all add: ev_join_def Let_def)

lemma ev_join_kinv:
  assumes "running idle k"
  shows "kinv (UNLINK_READY (ACTIVE_PTR k) (ev_join e m all k))"
  unfolding ev_join_unlinked
proof (rule aux_block_kinv)
  let ?f = "\<lambda>d. d\<lparr>LWEVENT_BITS := m,
        FLAGS := (if all then FLAGS d OR TASK_LWEVENT_ALL_BITS_WANTED else FLAGS d AND NOT TASK_LWEVENT_ALL_BITS_WANTED)\<rparr>"
  have s: "same_queues k (upd_td (ACTIVE_PTR k) ?f k)" by (rule same_upd) simp
  show "kinv (upd_td (ACTIVE_PTR k) ?f k)" using assms kinv_same [OF s] by (simp add: running_def)
  show "ACTIVE_PTR k \<in> ready_tasks (upd_td (ACTIVE_PTR k) ?f k)"
    using assms by (simp add: running_def top_active_def ready_tasks_def)
qed simp_all

lemma ev_join_td: "STATE (TDS (ev_join e m all k) (ACTIVE_PTR k)) = LWEVENT_BLOCKED"
  "INFO (TDS (ev_join e m all k) (ACTIVE_PTR k)) = EV_WAITING_TASKS e"
  by (simp_all add: ev_join_def Let_def)

lemma ev_block_keeps:
  assumes r: "running idle k" and a: "ACTIVE_PTR k \<noteq> idle"
  shows "keeps (running idle) (running idle) R (ev_block tick_ptr ab (ev_join e m all k))"
proof -
  let ?t = "ACTIVE_PTR k" and ?j = "ev_join e m all k"
  have i: "idle \<in> ready_tasks ?j" using r a by (auto simp: running_def ready_tasks_def)
  have f: "\<not> STUCK ?j" "IN_ISR ?j = 0" "?t \<in> set (TD_LIST ?j)"
    using r by (simp_all add: running_def top_active_def ready_tasks_def)
  have "keeps (running idle) (running idle) R (delay_active x ?j)" for x
    by (rule delay_blocked_keeps) (use ev_join_kinv [OF r] i f a in \<open>simp_all add: ev_join_td\<close>)
  moreover have "keeps (running idle) (running idle) R (task_block ?j)"
  proof -
    have "upd_td ?t (\<lambda>d. d\<lparr>STATE := STATE d OR IS_BLOCKED\<rparr>) ?j = ?j"
      by (rule upd_td_id) (simp add: ev_join_def Let_def)
    then have "task_block ?j = sched_execute_scheduler (UNLINK_READY ?t ?j)" by (simp add: task_block_def)
    then show ?thesis using execute_keeps [of "UNLINK_READY ?t ?j" idle R] ev_join_kinv [OF r] i f by simp
  qed
  ultimately show ?thesis
    by (auto simp: ev_block_def Let_def time_delay_until_def time_delay_for_def intro!: keeps_andthen split: option.splits)
qed

lemma running_LWEVENT_BITS [simp]: "running idle (upd_td t (\<lambda>d. d\<lparr>LWEVENT_BITS := b d\<rparr>) k) = running idle k"
  by (rule running_same(1)) (simp_all add: same_upd)

lemma lwevent_wait_keeps:
  assumes r: "running idle k" and a: "ACTIVE_PTR k \<noteq> idle"
  shows "keeps (running idle) (running idle) R (lwevent_wait_internal e m all tick_ptr ab k)"
proof -
  have "keeps (running idle) (running idle) R (andthen (ev_block tick_ptr ab (ev_join e m all (INT_DISABLE k)))
     (\<lambda>result k2. Done (if EV_VALID (event_at e k2) = 0 then MQX_LWEVENT_INVALID else result) (INT_ENABLE k2)))"
    by (rule keeps_andthen [OF ev_block_keeps [of idle]]) (use r a in simp_all)
  then show ?thesis using r by (simp add: lwevent_wait_internal_def Let_def)
qed

lemma lwevent_create_running:
  assumes r: "running idle k" and n: "ev_waiters e k = []"
  shows "running idle (snd (lwevent_create e flags k))"
proof -
  have "k\<lparr>AUX_QUEUES := (AUX_QUEUES k)(EV_WAITING_TASKS e := [])\<rparr> = k" using n by (simp add: ev_waiters_def fun_upd_idem)
  then show ?thesis using r by (simp add: lwevent_create_def lwevent_create_internal_def Let_def)
qed

text \<open>
  C27 (invariant). The operations on event groups keep the kernel in a running state, at every switch and on
  return, whatever the bits, masks and timeouts: set, clear, change of the automatic bits and destroy; the
  three waiting operations, called by a task other than the idle task; and creation of a group that no
  task waits for.
\<close>

theorem lwevent_operations_keep_running:
  assumes "running idle k"
  shows "keeps (running idle) (running idle) (resumes t) (lwevent_set e bits k)
    \<and> keeps (running idle) (running idle) (resumes t) (lwevent_destroy e k)
    \<and> running idle (snd (lwevent_clear e bits k)) \<and> running idle (snd (lwevent_set_auto_clear e bits k))
    \<and> (ACTIVE_PTR k \<noteq> idle \<longrightarrow>
        keeps (running idle) (running idle) (resumes t) (lwevent_wait_for e bits all tick k)
      \<and> keeps (running idle) (running idle) (resumes t) (lwevent_wait_until e bits all tick k)
      \<and> keeps (running idle) (running idle) (resumes t) (lwevent_wait_ticks e bits all n k))
    \<and> (ev_waiters e k = [] \<longrightarrow> running idle (snd (lwevent_create e flags k)))"
proof -
  have "running idle (snd (lwevent_clear e bits k))" "running idle (snd (lwevent_set_auto_clear e bits k))"
    using assms by (simp_all add: lwevent_clear_def lwevent_set_auto_clear_def Let_def)
  with assms show ?thesis
    by (simp add: lwevent_set_keeps lwevent_destroy_keeps lwevent_wait_keeps lwevent_wait_for_def
        lwevent_wait_until_def lwevent_wait_ticks_def lwevent_create_running)
qed

theorem lwevent_operations_keep_running_witness:
  "keeps (running 100) (running 100) (resumes 200) (lwevent_wait_ticks 64 5 True 10 demo)
   \<and> running 100 (snd (lwevent_create 64 1 demo))"
  using lwevent_operations_keep_running [OF demo_running, of _ 64] by (simp add: demo_def ev_waiters_def)

subsection \<open>Delivery\<close>

text \<open>The tasks a set serves with the bits each receives, and the bits that are left, from the task
  descriptors before the set.\<close>

fun served :: "(addr \<Rightarrow> td) \<Rightarrow> u32 \<Rightarrow> addr list \<Rightarrow> u32 \<Rightarrow> (addr \<times> u32) list \<times> u32" where
  "served d auto [] bits = ([], bits)"
| "served d auto (t # ts) bits =
     (if ev_satisfied (d t) bits
      then let r = LWEVENT_BITS (d t) AND bits; (ss, left) = served d auto ts (bits AND NOT (auto AND r))
           in ((t, r) # ss, left)
      else served d auto ts bits)"

lemma and_subset:
  fixes x b c :: u32
  assumes "b AND c = b"
  shows "x AND b = x \<Longrightarrow> x AND c = x" and "x AND c = 0 \<Longrightarrow> x AND b = 0"
proof -
  have e: "x AND b = (x AND b) AND c" by (simp only: and.assoc assms)
  show "x AND b = x \<Longrightarrow> x AND c = x" using e by simp
  show "x AND b = 0" if "x AND c = 0"
  proof -
    have "x AND b = (x AND c) AND b" using e by (simp only: and.assoc and.commute [of b c])
    with that show ?thesis by simp
  qed
qed

lemma ev_satisfied_mono: "ev_satisfied d b \<Longrightarrow> b AND c = b \<Longrightarrow> ev_satisfied d c"
  using and_subset [of b c "LWEVENT_BITS d"] unfolding ev_satisfied_def by (auto split: if_splits)

lemma served_left_subset: "snd (served d auto ts bits) AND bits = snd (served d auto ts bits)"
proof (induction ts arbitrary: bits)
  case (Cons t ts)
  have "x AND (bits AND c) = x \<Longrightarrow> x AND bits = x" for x c :: u32
    by (rule and_subset(1) [of "bits AND c"]) (simp_all add: ac_simps)
  from this [OF Cons] Cons show ?case by (simp add: Let_def split_beta del: bit.de_Morgan_conj)
qed simp

lemma served_unserved:
  "t \<in> set ts \<Longrightarrow> t \<notin> fst ` set (fst (served d auto ts bits)) \<Longrightarrow> \<not> ev_satisfied (d t) (snd (served d auto ts bits))"
proof (induction ts arbitrary: bits)
  case (Cons x xs)
  then show ?case using ev_satisfied_mono [of "d t" _ bits] served_left_subset [of d auto xs bits]
    by (auto simp: Let_def split_beta split: if_splits)
qed simp

lemma served_subset: "fst ` set (fst (served d auto ts bits)) \<subseteq> set ts"
  by (induction ts arbitrary: bits) (auto simp: Let_def split_beta)

lemma served_cong: "(\<And>t. t \<in> set ts \<Longrightarrow> d t = d' t) \<Longrightarrow> served d auto ts bits = served d' auto ts bits"
  by (induction ts arbitrary: bits) simp_all

lemma served_left:
  "bit (snd (served d auto ts bits)) n \<longleftrightarrow>
   bit bits n \<and> \<not> (bit auto n \<and> (\<exists>(t, r) \<in> set (fst (served d auto ts bits)). bit r n))"
proof (induction ts arbitrary: bits)
  case (Cons t ts)
  show ?case
  proof (cases "ev_satisfied (d t) bits")
    case True
    let ?r = "LWEVENT_BITS (d t) AND bits"
    have "bit (snd (served d auto ts (bits AND NOT (auto AND ?r)))) n \<longleftrightarrow> bit bits n \<and> \<not> (bit auto n \<and> bit ?r n)
      \<and> \<not> (bit auto n \<and> (\<exists>(t, r) \<in> set (fst (served d auto ts (bits AND NOT (auto AND ?r)))). bit r n))"
      unfolding Cons by (auto simp: bit_simps dest: bit_imp_le_length)
    then show ?thesis using True by (auto simp: Let_def split_beta simp del: bit.de_Morgan_conj)
  qed (simp add: Cons)
qed simp

lemma served_received:
  "(t, r) \<in> set (fst (served d auto ts bits)) \<Longrightarrow>
   (\<forall>n. bit r n \<longrightarrow> bit bits n \<and> bit (LWEVENT_BITS (d t)) n) \<and>
   (if FLAGS (d t) AND TASK_LWEVENT_ALL_BITS_WANTED \<noteq> 0 then r = LWEVENT_BITS (d t) else r \<noteq> 0)"
proof (induction ts arbitrary: bits)
  case (Cons x xs)
  show ?case
  proof (cases "ev_satisfied (d x) bits")
    case sat: True
    show ?thesis
    proof (cases "(t, r) = (x, LWEVENT_BITS (d x) AND bits)")
      case True
      then have "\<forall>n. bit r n \<longrightarrow> bit bits n \<and> bit (LWEVENT_BITS (d t)) n" by (auto simp: bit_and_iff)
      with True sat show ?thesis by (auto simp: ev_satisfied_def split: if_splits)
    next
      case False
      then have "(t, r) \<in> set (fst (served d auto xs (bits AND NOT (auto AND (LWEVENT_BITS (d x) AND bits)))))"
        using Cons.prems sat by (auto simp: Let_def split_beta simp del: bit.de_Morgan_conj)
      from Cons.IH [OF this] show ?thesis by (auto simp: bit_simps)
    qed
  qed (use Cons in simp)
qed simp

lemma served_exclusive:
  "bit auto n \<Longrightarrow> (t, r) \<in> set (fst (served d auto ts bits)) \<Longrightarrow> (u, s) \<in> set (fst (served d auto ts bits)) \<Longrightarrow>
   bit r n \<Longrightarrow> bit s n \<Longrightarrow> distinct ts \<Longrightarrow> t = u"
proof (induction ts arbitrary: bits)
  case (Cons x xs)
  show ?case
  proof (cases "ev_satisfied (d x) bits")
    case True
    let ?b = "bits AND NOT (auto AND (LWEVENT_BITS (d x) AND bits))"
    let ?y = "(x, LWEVENT_BITS (d x) AND bits)"
    have m: "z = ?y \<or> z \<in> set (fst (served d auto xs ?b))" if "z \<in> set (fst (served d auto (x # xs) bits))" for z
      using that True by (auto simp: Let_def split_beta simp del: bit.de_Morgan_conj)
    have no: False if "(v, w) \<in> set (fst (served d auto xs ?b))" "bit w n" "bit (LWEVENT_BITS (d x) AND bits) n" for v w
      using served_received [OF that(1)] that(2,3) Cons.prems(1) by (auto simp: bit_simps)
    from m [OF Cons.prems(2)] m [OF Cons.prems(3)] Cons.prems(4,5) show ?thesis
      using no Cons.IH [OF Cons.prems(1)] Cons.prems(6) by auto
  qed (use Cons in auto)
qed simp

lemma ev_wake_td:
  "TDS (aux_wake q (\<lambda>d. d\<lparr>INFO := 0\<rparr>) t k) x =
   (if x = t then (TDS (TIME_DEQUEUE t (AUX_REMOVE q t k)) t)\<lparr>INFO := 0, STATE := READY, CURRENT_TIME_SLICE := zero_tick_struct\<rparr>
    else TDS k x)"
  by (simp add: aux_wake_def)

lemma TIME_DEQUEUE_bits [simp]: "LWEVENT_BITS (TDS (TIME_DEQUEUE t k) x) = LWEVENT_BITS (TDS k x)"
  by (simp add: TIME_DEQUEUE_def)

lemma set_loop_served:
  "distinct ts \<Longrightarrow>
   fst (set_loop q auto ts bits k) = snd (served (TDS k) auto ts bits) \<and>
   AUX_QUEUES (snd (set_loop q auto ts bits k)) q =
     filter (\<lambda>x. x \<notin> fst ` set (fst (served (TDS k) auto ts bits))) (AUX_QUEUES k q) \<and>
   (\<forall>(t, r) \<in> set (fst (served (TDS k) auto ts bits)).
     LWEVENT_BITS (TDS (snd (set_loop q auto ts bits k)) t) = r \<and> STATE (TDS (snd (set_loop q auto ts bits k)) t) = READY) \<and>
   (\<forall>t. t \<notin> fst ` set (fst (served (TDS k) auto ts bits)) \<longrightarrow> TDS (snd (set_loop q auto ts bits k)) t = TDS k t) \<and>
   OBJ (snd (set_loop q auto ts bits k)) = OBJ k \<and> TD_LIST (snd (set_loop q auto ts bits k)) = TD_LIST k"
proof (induction ts arbitrary: bits k)
  case Nil
  then show ?case by simp
next
  case (Cons t ts)
  show ?case
  proof (cases "ev_satisfied (TDS k t) bits")
    case True
    let ?r = "LWEVENT_BITS (TDS k t) AND bits"
    define k2 where "k2 = upd_td t (\<lambda>d. d\<lparr>LWEVENT_BITS := LWEVENT_BITS d AND bits\<rparr>) (aux_wake q (\<lambda>d. d\<lparr>INFO := 0\<rparr>) t k)"
    define b where "b = bits AND NOT (auto AND ?r)"
    have l: "set_loop q auto (t # ts) bits k = set_loop q auto ts b k2"
      using True by (simp add: Let_def ev_wake_td k2_def b_def del: bit.de_Morgan_conj)
    have "served (TDS k2) auto ts b = served (TDS k) auto ts b"
      by (rule served_cong) (use Cons.prems in \<open>auto simp: k2_def\<close>)
    then have c: "served (TDS k) auto (t # ts) bits = ((t, ?r) # fst (served (TDS k2) auto ts b), snd (served (TDS k2) auto ts b))"
      using True by (simp add: Let_def split_beta b_def del: bit.de_Morgan_conj)
    have t: "t \<notin> fst ` set (fst (served (TDS k2) auto ts b))"
      using served_subset [of "TDS k2" auto ts b] Cons.prems by auto
    have o: "AUX_QUEUES k2 q = removeAll t (AUX_QUEUES k q)" "LWEVENT_BITS (TDS k2 t) = ?r" "STATE (TDS k2 t) = READY"
      "OBJ k2 = OBJ k" "TD_LIST k2 = TD_LIST k" "\<And>x. x \<noteq> t \<Longrightarrow> TDS k2 x = TDS k x"
      by (simp_all add: ev_wake_td k2_def)
    have "filter P (removeAll t xs) = filter (\<lambda>x. x \<noteq> t \<and> P x) xs" for P xs
      by (induction xs) auto
    with Cons.IH [of b k2] Cons.prems t o show ?thesis unfolding l c by auto
  next
    case False
    with Cons show ?thesis by simp
  qed
qed

text \<open>The state after a set, in terms of what it serves.\<close>

lemma lwevent_set_state:
  fixes bits :: u32
  assumes r: "running idle k" and v: "ev_valid e k"
  defines "k' \<equiv> state_of (lwevent_set e bits k)"
  obtains ss where "fst ` set ss \<subseteq> set (ev_waiters e k)"
    and "ev_waiters e k' = filter (\<lambda>x. x \<notin> fst ` set ss) (ev_waiters e k)"
    and "\<And>t b. (t, b) \<in> set ss \<Longrightarrow> LWEVENT_BITS (TDS k' t) = b \<and> t \<in> ready_tasks k'"
    and "\<And>t. t \<notin> fst ` set ss \<Longrightarrow> LWEVENT_BITS (TDS k' t) = LWEVENT_BITS (TDS k t) \<and> FLAGS (TDS k' t) = FLAGS (TDS k t)"
    and "(ss, EV_VALUE (event_at e k')) = served (TDS (INT_DISABLE k)) (EV_AUTO (event_at e k)) (ev_waiters e k)
           (EV_VALUE (event_at e k) OR bits)"
proof -
  let ?k = "INT_DISABLE k" and ?q = "EV_WAITING_TASKS e"
  define l where "l = set_loop ?q (EV_AUTO (event_at e k)) (ev_waiters e k) (EV_VALUE (event_at e k) OR bits) ?k"
  define sv where "sv = served (TDS ?k) (EV_AUTO (event_at e k)) (ev_waiters e k) (EV_VALUE (event_at e k) OR bits)"
  let ?u = "INT_ENABLE (upd_event e (\<lambda>x. x\<lparr>EV_VALUE := fst l\<rparr>) (snd l))"
  have d: "distinct (ev_waiters e k)" using waiters_distinct [OF r] by (simp add: ev_waiters_def)
  note ls = set_loop_served [OF d, of ?q "EV_AUTO (event_at e k)" "EV_VALUE (event_at e k) OR bits" ?k,
      folded l_def, folded sv_def]
  have k': "k' = state_of (andthen (sched_check_scheduler ?u) (\<lambda>_. Done MQX_OK))"
    using v by (simp add: k'_def lwevent_set_def Let_def split_beta l_def)
  have w: "ev_waiters e k' = filter (\<lambda>x. x \<notin> fst ` set (fst sv)) (ev_waiters e k)"
    using ls by (simp add: k' ev_waiters_def)
  have sub: "fst ` set (fst sv) \<subseteq> set (ev_waiters e k)" unfolding sv_def by (rule served_subset)
  have "t \<in> set (TD_LIST k)" if "t \<in> set (ev_waiters e k)" for t
    using r that by (auto simp: running_def kinv_def placed_def ev_waiters_def)
  then have s: "LWEVENT_BITS (TDS k' t) = b \<and> t \<in> ready_tasks k'" if "(t, b) \<in> set (fst sv)" for t b
    using ls that sub by (force simp: k' ready_tasks_def)
  have u: "LWEVENT_BITS (TDS k' t) = LWEVENT_BITS (TDS k t) \<and> FLAGS (TDS k' t) = FLAGS (TDS k t)" if "t \<notin> fst ` set (fst sv)" for t
    using ls that by (simp add: k')
  have "EV_VALUE (event_at e k') = fst l" by (simp add: k' event_at_def upd_event_def)
  with that [of "fst sv"] sub w s u ls show thesis by (simp add: sv_def)
qed

definition ev_settled :: "addr \<Rightarrow> kernel \<Rightarrow> bool" where
  "ev_settled e k \<longleftrightarrow> (\<forall>t \<in> set (ev_waiters e k). \<not> ev_satisfied (TDS k t) (EV_VALUE (event_at e k)))"

lemma lwevent_set_settled:
  assumes "running idle k" and "ev_valid e k"
  shows "ev_settled e (state_of (lwevent_set e bits k))"
proof (rule lwevent_set_state [where bits = bits, OF assms])
  let ?k = "state_of (lwevent_set e bits k)"
  fix ss
  assume w: "ev_waiters e ?k = filter (\<lambda>x. x \<notin> fst ` set ss) (ev_waiters e k)"
    and u: "\<And>t. t \<notin> fst ` set ss \<Longrightarrow> LWEVENT_BITS (TDS ?k t) = LWEVENT_BITS (TDS k t) \<and> FLAGS (TDS ?k t) = FLAGS (TDS k t)"
    and sv: "(ss, EV_VALUE (event_at e ?k)) = served (TDS (INT_DISABLE k)) (EV_AUTO (event_at e k)) (ev_waiters e k)
           (EV_VALUE (event_at e k) OR bits)"
  show ?thesis unfolding ev_settled_def
  proof
    fix t assume "t \<in> set (ev_waiters e ?k)"
    then have t: "t \<in> set (ev_waiters e k)" "t \<notin> fst ` set ss" using w by auto
    have "\<not> ev_satisfied (TDS (INT_DISABLE k) t) (EV_VALUE (event_at e ?k))"
      using served_unserved [OF t(1), of "TDS (INT_DISABLE k)" "EV_AUTO (event_at e k)" "EV_VALUE (event_at e k) OR bits"] t(2)
      unfolding sv [symmetric] by simp
    then show "\<not> ev_satisfied (TDS ?k t) (EV_VALUE (event_at e ?k))"
      using u [OF t(2)] by (auto simp: ev_satisfied_def split: if_splits)
  qed
qed

text \<open>
  C8 (functional). \<^verbatim>\<open>_lwevent_set\<close> on a valid event group: the tasks it wakes become ready and each has received
  bits it waited for, all of them or at least one as it asked; no task left waiting is satisfied by
  the bits that remain; the remaining bits are the old and new ones without the automatically cleared
  bits somebody received; and an automatically cleared bit is received by at most one task.
\<close>

theorem lwevent_set_delivers:
  fixes bits :: u32
  assumes "running idle k" and "ev_valid e k"
  defines "k' \<equiv> state_of (lwevent_set e bits k)" and "v \<equiv> EV_VALUE (event_at e k) OR bits"
    and "woken \<equiv> set (ev_waiters e k) - set (ev_waiters e (state_of (lwevent_set e bits k)))"
  shows "(\<forall>t \<in> woken. t \<in> ready_tasks k' \<and>
      (\<forall>n. bit (LWEVENT_BITS (TDS k' t)) n \<longrightarrow> bit v n \<and> bit (LWEVENT_BITS (TDS k t)) n) \<and>
      (if FLAGS (TDS k t) AND TASK_LWEVENT_ALL_BITS_WANTED \<noteq> 0
       then LWEVENT_BITS (TDS k' t) = LWEVENT_BITS (TDS k t) else LWEVENT_BITS (TDS k' t) \<noteq> 0))
    \<and> (\<forall>t \<in> set (ev_waiters e k'). \<not> ev_satisfied (TDS k' t) (EV_VALUE (event_at e k')))
    \<and> (\<forall>n. bit (EV_VALUE (event_at e k')) n \<longleftrightarrow> bit v n \<and>
        \<not> (bit (EV_AUTO (event_at e k)) n \<and> (\<exists>t \<in> woken. bit (LWEVENT_BITS (TDS k' t)) n)))
    \<and> (\<forall>n. \<forall>t \<in> woken. \<forall>u \<in> woken. bit (EV_AUTO (event_at e k)) n \<longrightarrow> bit (LWEVENT_BITS (TDS k' t)) n \<longrightarrow>
        bit (LWEVENT_BITS (TDS k' u)) n \<longrightarrow> t = u)"
proof -
  obtain ss where sub: "fst ` set ss \<subseteq> set (ev_waiters e k)"
    and w: "ev_waiters e k' = filter (\<lambda>x. x \<notin> fst ` set ss) (ev_waiters e k)"
    and s: "\<And>t b. (t, b) \<in> set ss \<Longrightarrow> LWEVENT_BITS (TDS k' t) = b \<and> t \<in> ready_tasks k'"
    and u: "\<And>t. t \<notin> fst ` set ss \<Longrightarrow> LWEVENT_BITS (TDS k' t) = LWEVENT_BITS (TDS k t) \<and> FLAGS (TDS k' t) = FLAGS (TDS k t)"
    and sv: "(ss, EV_VALUE (event_at e k')) = served (TDS (INT_DISABLE k)) (EV_AUTO (event_at e k)) (ev_waiters e k) v"
    by (rule lwevent_set_state [where bits = bits, OF assms(1,2), folded k'_def v_def]) (rule that)
  have d: "distinct (ev_waiters e k)" using waiters_distinct [OF assms(1)] by (simp add: ev_waiters_def)
  have wk: "woken = fst ` set ss" using w sub by (auto simp: woken_def k'_def)
  have ss: "ss = fst (served (TDS (INT_DISABLE k)) (EV_AUTO (event_at e k)) (ev_waiters e k) v)"
    and left: "EV_VALUE (event_at e k') = snd (served (TDS (INT_DISABLE k)) (EV_AUTO (event_at e k)) (ev_waiters e k) v)"
    using sv by (metis fst_conv, metis snd_conv)
  have mem: "(t, LWEVENT_BITS (TDS k' t)) \<in> set ss" if "t \<in> woken" for t using that s unfolding wk by auto
  have "t \<in> ready_tasks k' \<and>
      (\<forall>n. bit (LWEVENT_BITS (TDS k' t)) n \<longrightarrow> bit v n \<and> bit (LWEVENT_BITS (TDS k t)) n) \<and>
      (if FLAGS (TDS k t) AND TASK_LWEVENT_ALL_BITS_WANTED \<noteq> 0
       then LWEVENT_BITS (TDS k' t) = LWEVENT_BITS (TDS k t) else LWEVENT_BITS (TDS k' t) \<noteq> 0)" if "t \<in> woken" for t
    using served_received [OF mem [OF that, unfolded ss]] s [OF mem [OF that]] by simp
  moreover have "\<forall>t \<in> set (ev_waiters e k'). \<not> ev_satisfied (TDS k' t) (EV_VALUE (event_at e k'))"
    using lwevent_set_settled [OF assms(1,2), of bits] by (simp add: ev_settled_def k'_def)
  moreover have "bit (EV_VALUE (event_at e k')) n \<longleftrightarrow> bit v n \<and>
        \<not> (bit (EV_AUTO (event_at e k)) n \<and> (\<exists>t \<in> woken. bit (LWEVENT_BITS (TDS k' t)) n))" for n
  proof -
    have "(\<exists>(t, r) \<in> set ss. bit r n) \<longleftrightarrow> (\<exists>t \<in> woken. bit (LWEVENT_BITS (TDS k' t)) n)"
      using mem s unfolding wk by force
    then show ?thesis using served_left [of "TDS (INT_DISABLE k)" "EV_AUTO (event_at e k)" "ev_waiters e k" v n]
      unfolding left [symmetric] ss [symmetric] by simp
  qed
  moreover have "t = t'" if "bit (EV_AUTO (event_at e k)) n" "t \<in> woken" "t' \<in> woken"
    "bit (LWEVENT_BITS (TDS k' t)) n" "bit (LWEVENT_BITS (TDS k' t')) n" for n t t'
    by (rule served_exclusive [OF that(1) mem [OF that(2), unfolded ss] mem [OF that(3), unfolded ss] that(4,5) d])
  ultimately show ?thesis by blast
qed

lemma ev_block_state:
  "AUX_QUEUES (state_of (ev_block tick ab k)) = AUX_QUEUES k" "OBJ (state_of (ev_block tick ab k)) = OBJ k"
  "LWEVENT_BITS (TDS (state_of (ev_block tick ab k)) t) = LWEVENT_BITS (TDS k t)"
  "FLAGS (TDS (state_of (ev_block tick ab k)) t) = FLAGS (TDS k t)"
  by (cases tick; simp add: ev_block_def Let_def time_delay_until_def time_delay_for_def delay_active_def
        time_delay_internal_def task_block_def sched_execute_scheduler_def timeout_enqueue_def)+

text \<open>The state in which a waiting task is switched out.\<close>

lemma lwevent_wait_state:
  fixes tick :: "psp_tick option" and ab :: bool
  assumes "IN_ISR k = 0" and "ev_valid e k"
    and "\<not> (all \<and> EV_VALUE (event_at e k) AND m = m \<or> \<not> all \<and> EV_VALUE (event_at e k) AND m \<noteq> 0)"
  defines "k' \<equiv> state_of (lwevent_wait_internal e m all tick ab k)"
  shows "ev_waiters e k' = ev_waiters e k @ [ACTIVE_PTR k]" "OBJ k' = OBJ k"
    "LWEVENT_BITS (TDS k' t) = (if t = ACTIVE_PTR k then m else LWEVENT_BITS (TDS k t))"
    "FLAGS (TDS k' t) = (if t \<noteq> ACTIVE_PTR k then FLAGS (TDS k t)
       else if all then FLAGS (TDS k t) OR TASK_LWEVENT_ALL_BITS_WANTED else FLAGS (TDS k t) AND NOT TASK_LWEVENT_ALL_BITS_WANTED)"
proof -
  let ?p = "ev_block tick ab (ev_join e m all (INT_DISABLE k))"
  have k': "k' = state_of (andthen ?p (\<lambda>result k2. Done (if EV_VALID (event_at e k2) = 0 then MQX_LWEVENT_INVALID else result) (INT_ENABLE k2)))"
    using assms(1-3) by (auto simp: k'_def lwevent_wait_internal_def Let_def)
  have f: "AUX_QUEUES k' = AUX_QUEUES (state_of ?p)" "OBJ k' = OBJ (state_of ?p)"
    "LWEVENT_BITS (TDS k' t) = LWEVENT_BITS (TDS (state_of ?p) t)" "FLAGS (TDS k' t) = FLAGS (TDS (state_of ?p) t)"
    unfolding k' by (cases ?p; simp)+
  show "ev_waiters e k' = ev_waiters e k @ [ACTIVE_PTR k]" "OBJ k' = OBJ k"
    "LWEVENT_BITS (TDS k' t) = (if t = ACTIVE_PTR k then m else LWEVENT_BITS (TDS k t))"
    "FLAGS (TDS k' t) = (if t \<noteq> ACTIVE_PTR k then FLAGS (TDS k t)
       else if all then FLAGS (TDS k t) OR TASK_LWEVENT_ALL_BITS_WANTED else FLAGS (TDS k t) AND NOT TASK_LWEVENT_ALL_BITS_WANTED)"
    by (simp_all add: ev_waiters_def f ev_block_state ev_join_def Let_def)
qed

text \<open>A system in which task 200 waits for bits 0 and 2 (mask 5) of the event group at 64 and bit 2 is set.\<close>

definition demo_event :: kernel where
  "demo_event = upd_event 64 (\<lambda>v. v\<lparr>EV_VALUE := 4, EV_AUTO := 5\<rparr>) (state_of (lwevent_wait_internal 64 5 True None False demo))"

lemma demo_event_running: "running 100 demo_event"
proof -
  have "keeps (running 100) (running 100) (resumes 200) (lwevent_wait_internal 64 5 True None False demo)"
    by (rule lwevent_wait_keeps [OF demo_running]) (simp add: demo_def)
  then have "running 100 (state_of (lwevent_wait_internal 64 5 True None False demo))"
    by (cases "lwevent_wait_internal 64 5 True None False demo") simp_all
  then show ?thesis by (simp add: demo_event_def)
qed

lemma demo_event_state:
  "ev_waiters 64 demo_event = [200]" "ev_valid 64 demo_event" "EV_VALUE (event_at 64 demo_event) = 4"
  "EV_AUTO (event_at 64 demo_event) = 5" "LWEVENT_BITS (TDS demo_event 200) = 5" "FLAGS (TDS demo_event 200) AND 0x80 \<noteq> 0"
proof -
  have d: "IN_ISR demo = 0" "ACTIVE_PTR demo = 200" "ev_valid 64 demo" "EV_VALUE (event_at 64 demo) = 0"
    "ev_waiters 64 demo = []" "FLAGS (TDS demo 200) = 0"
    by (simp_all add: demo_def mk_td_def ev_valid_def event_at_def ev_waiters_def)
  have n: "\<not> (True \<and> EV_VALUE (event_at 64 demo) AND 5 = 5 \<or> \<not> True \<and> EV_VALUE (event_at 64 demo) AND 5 \<noteq> 0)"
    using d by simp
  note w = lwevent_wait_state [OF d(1,3) n, of None False]
  have o: "event_at 64 (state_of (lwevent_wait_internal 64 5 True None False demo)) = event_at 64 demo"
    by (simp add: event_at_def w)
  show "ev_waiters 64 demo_event = [200]" "ev_valid 64 demo_event" "EV_VALUE (event_at 64 demo_event) = 4"
    "EV_AUTO (event_at 64 demo_event) = 5" "LWEVENT_BITS (TDS demo_event 200) = 5" "FLAGS (TDS demo_event 200) AND 0x80 \<noteq> 0"
    unfolding demo_event_def using d by (simp_all add: w o ev_valid_def)
qed

lemma demo_event_set: "ev_waiters 64 (state_of (lwevent_set 64 1 demo_event)) = []"
proof (rule lwevent_set_state [where bits = 1, OF demo_event_running demo_event_state(2)])
  fix ss
  assume w: "ev_waiters 64 (state_of (lwevent_set 64 1 demo_event)) = filter (\<lambda>x. x \<notin> fst ` set ss) (ev_waiters 64 demo_event)"
    and sv: "(ss, EV_VALUE (event_at 64 (state_of (lwevent_set 64 1 demo_event)))) =
      served (TDS (INT_DISABLE demo_event)) (EV_AUTO (event_at 64 demo_event)) (ev_waiters 64 demo_event)
        (EV_VALUE (event_at 64 demo_event) OR 1)"
  have "ss = [(200, 5)]" using sv demo_event_state by (simp add: ev_satisfied_def Let_def)
  then show ?thesis using w demo_event_state by simp
qed

theorem lwevent_set_delivers_witness:
  "200 \<in> ready_tasks (state_of (lwevent_set 64 1 demo_event)) \<and>
   LWEVENT_BITS (TDS (state_of (lwevent_set 64 1 demo_event)) 200) = 5"
  using lwevent_set_delivers [OF demo_event_running demo_event_state(2), of 1] demo_event_state demo_event_set
  by simp

subsection \<open>No lost wake-ups\<close>

lemma ev_settled_less:
  assumes "ev_settled e k" "ev_waiters e k' = ev_waiters e k" "EV_VALUE (event_at e k') AND EV_VALUE (event_at e k) = EV_VALUE (event_at e k')"
    "\<And>t. t \<in> set (ev_waiters e k) \<Longrightarrow> LWEVENT_BITS (TDS k' t) = LWEVENT_BITS (TDS k t) \<and> FLAGS (TDS k' t) = FLAGS (TDS k t)"
  shows "ev_settled e k'"
proof -
  have "ev_satisfied (TDS k t) (EV_VALUE (event_at e k))" if "t \<in> set (ev_waiters e k)" "ev_satisfied (TDS k' t) (EV_VALUE (event_at e k'))" for t
    using ev_satisfied_mono [OF that(2) assms(3)] assms(4) [OF that(1)] by (auto simp: ev_satisfied_def split: if_splits)
  then show ?thesis using assms(1,2) by (auto simp: ev_settled_def)
qed

lemma wanted_bits:
  fixes f :: u32
  shows "(f OR TASK_LWEVENT_ALL_BITS_WANTED) AND TASK_LWEVENT_ALL_BITS_WANTED \<noteq> 0"
    and "(f AND NOT TASK_LWEVENT_ALL_BITS_WANTED) AND TASK_LWEVENT_ALL_BITS_WANTED = 0"
proof -
  show "(f OR TASK_LWEVENT_ALL_BITS_WANTED) AND TASK_LWEVENT_ALL_BITS_WANTED \<noteq> 0" by (simp add: bit.conj_disj_distrib2)
  have "NOT c AND c = 0" for c :: u32 by simp
  then show "(f AND NOT TASK_LWEVENT_ALL_BITS_WANTED) AND TASK_LWEVENT_ALL_BITS_WANTED = 0" by (simp only: and.assoc and_zero_eq)
qed

text \<open>
  C9 (invariant). No wake-up is lost: if no task waiting on a valid event group is satisfied by its bits, the
  same holds after a set, a clear, a change of the automatic bits and a wait, whether the wait returns
  at once or is switched out.
\<close>

theorem lwevent_no_lost_wakeup:
  assumes "running idle k" and "ev_valid e k" and "ev_settled e k"
  shows "ev_settled e (state_of (lwevent_set e bits k)) \<and> ev_settled e (snd (lwevent_clear e bits k))
    \<and> ev_settled e (snd (lwevent_set_auto_clear e bits k)) \<and> ev_settled e (state_of (lwevent_wait_internal e bits all tick ab k))"
proof -
  have a: "ev_settled e (state_of (lwevent_set e bits k))"
    by (rule lwevent_set_settled [OF assms(1,2)])
  have c: "ev_settled e (snd (lwevent_clear e bits k))" "ev_settled e (snd (lwevent_set_auto_clear e bits k))"
    using assms(2,3) by (auto intro!: ev_settled_less [OF assms(3)] simp: lwevent_clear_def lwevent_set_auto_clear_def Let_def ac_simps)
  have "ev_settled e (state_of (lwevent_wait_internal e bits all tick ab k))"
  proof (cases "all \<and> EV_VALUE (event_at e k) AND bits = bits \<or> \<not> all \<and> EV_VALUE (event_at e k) AND bits \<noteq> 0")
    case True
    have "ACTIVE_PTR k \<notin> set (ev_waiters e k)"
      using assms(1) by (auto simp: running_def top_active_def ready_tasks_def kinv_def placed_def ev_waiters_def)
    then show ?thesis using True assms by (auto intro!: ev_settled_less [OF assms(3)] simp: lwevent_wait_internal_def Let_def ac_simps running_def)
  next
    case False
    have i: "IN_ISR k = 0" using assms(1) by (simp add: running_def)
    note w = lwevent_wait_state [OF i assms(2) False, of tick ab]
    let ?k = "state_of (lwevent_wait_internal e bits all tick ab k)"
    have v: "event_at e ?k = event_at e k" by (simp add: event_at_def w(2))
    have "\<not> ev_satisfied (TDS ?k t) (EV_VALUE (event_at e k))" if "t \<in> set (ev_waiters e k @ [ACTIVE_PTR k])" for t
    proof (cases "t = ACTIVE_PTR k")
      case True
      then show ?thesis using False unfolding ev_satisfied_def w(3,4) and.commute [of _ bits]
        by (cases all) (simp_all only: wanted_bits simp_thms if_True if_False)
    next
      case other: False
      then have "\<not> ev_satisfied (TDS k t) (EV_VALUE (event_at e k))" using that assms(3) by (simp add: ev_settled_def)
      then show ?thesis using other unfolding ev_satisfied_def w(3,4) by (auto split: if_splits)
    qed
    then show ?thesis by (simp add: ev_settled_def w(1) v)
  qed
  with a c show ?thesis by blast
qed

theorem lwevent_no_lost_wakeup_witness:
  "ev_settled 64 (state_of (lwevent_set 64 2 demo_event)) \<and> ev_settled 64 (snd (lwevent_clear 64 4 demo_event))"
proof -
  have "ev_settled 64 demo_event" using demo_event_state by (simp add: ev_settled_def ev_satisfied_def)
  from lwevent_no_lost_wakeup [OF demo_event_running demo_event_state(2) this, of 2]
    lwevent_no_lost_wakeup [OF demo_event_running demo_event_state(2) this, of 4]
  show ?thesis by blast
qed

end
