(* ===== verification/Lwmsgq.thy ===== *)
theory Lwmsgq
  imports Kernel_Time
begin

unbundle bit_operations_syntax

text \<open>
  Lightweight message queues (\<^verbatim>\<open>kernel/lwmsgq.c\<close>): a ring of fixed-size messages with a queue of waiting
  writers and one of waiting readers. The queue at address \<open>q\<close> has them at \<open>q + 8\<close> and \<open>q + 20\<close>. The waiting
  loops are corecursive: a task that was woken and finds the ring full or empty again waits another round.
  The message a sender passes is the memory at its pointer, the one a receiver gets is the list of words
  written to its buffer. Sizes and positions in the ring are natural numbers, counted in words from the start of
  the message memory: the code computes the end address in 32 bits (line 80), and the model is that of a
  ring that lies within the address space.
\<close>

abbreviation (input) LWMSGQ_VALID :: u32 where "LWMSGQ_VALID \<equiv> 0x6C776D73"
abbreviation (input) LWMSGQ_SEND_BLOCK_ON_FULL :: u32 where "LWMSGQ_SEND_BLOCK_ON_FULL \<equiv> 0x01"
abbreviation (input) LWMSGQ_SEND_BLOCK_ON_SEND :: u32 where "LWMSGQ_SEND_BLOCK_ON_SEND \<equiv> 0x02"
abbreviation (input) LWMSGQ_RECEIVE_BLOCK_ON_EMPTY :: u32 where "LWMSGQ_RECEIVE_BLOCK_ON_EMPTY \<equiv> 0x04"
abbreviation (input) LWMSGQ_TIMEOUT_UNTIL :: u32 where "LWMSGQ_TIMEOUT_UNTIL \<equiv> 0x08"
abbreviation (input) LWMSGQ_TIMEOUT_FOR :: u32 where "LWMSGQ_TIMEOUT_FOR \<equiv> 0x10"
abbreviation (input) LWMSGQ_INVALID :: u32 where "LWMSGQ_INVALID \<equiv> 0x780"
abbreviation (input) LWMSGQ_FULL :: u32 where "LWMSGQ_FULL \<equiv> 0x781"
abbreviation (input) LWMSGQ_EMPTY :: u32 where "LWMSGQ_EMPTY \<equiv> 0x782"
abbreviation (input) LWMSGQ_TIMEOUT :: u32 where "LWMSGQ_TIMEOUT \<equiv> 0x783"
abbreviation (input) LWMSGQ_DEINIT :: u32 where "LWMSGQ_DEINIT \<equiv> 0x784"
abbreviation (input) LWMSGQ_READ_BLOCKED :: u32 where "LWMSGQ_READ_BLOCKED \<equiv> 0x431"
abbreviation (input) LWMSGQ_WRITE_BLOCKED :: u32 where "LWMSGQ_WRITE_BLOCKED \<equiv> 0x433"
abbreviation (input) LWMSGQ_DEINIT_INFO :: addr where "LWMSGQ_DEINIT_INFO \<equiv> 4294967295"

definition WAITING_WRITERS :: "addr \<Rightarrow> addr" where "WAITING_WRITERS q = q + 8"

definition WAITING_READERS :: "addr \<Rightarrow> addr" where "WAITING_READERS q = q + 20"

definition msgq_at :: "addr \<Rightarrow> kernel \<Rightarrow> lwmsgq" where
  "msgq_at q k = LWMSGQS (OBJ k) q"

definition upd_msgq :: "addr \<Rightarrow> (lwmsgq \<Rightarrow> lwmsgq) \<Rightarrow> kernel \<Rightarrow> kernel" where
  "upd_msgq q f k = k\<lparr>OBJ := (OBJ k)\<lparr>LWMSGQS := (LWMSGQS (OBJ k))(q := f (LWMSGQS (OBJ k) q))\<rparr>\<rparr>"

definition msgq_valid :: "addr \<Rightarrow> kernel \<Rightarrow> bool" where
  "msgq_valid q k \<longleftrightarrow> MSGQ_VALID (msgq_at q k) = LWMSGQ_VALID"

definition LWMSGQ_IS_EMPTY :: "lwmsgq \<Rightarrow> bool" where
  "LWMSGQ_IS_EMPTY v \<longleftrightarrow> CURRENT_SIZE v = 0"

definition LWMSGQ_IS_FULL :: "lwmsgq \<Rightarrow> bool" where
  "LWMSGQ_IS_FULL v \<longleftrightarrow> CURRENT_SIZE v \<ge> MAX_SIZE v"

subsection \<open>Initialisation and removal\<close>

definition lwmsgq_init_internal :: "addr \<Rightarrow> nat \<Rightarrow> nat \<Rightarrow> kernel \<Rightarrow> u32 \<times> kernel" where
  "lwmsgq_init_internal q num_messages msg_size k =
     (let k1 = upd_msgq q (\<lambda>v. v\<lparr>MSG_SIZE := msg_size, MAX_SIZE := num_messages, CURRENT_SIZE := 0,
                  MSG_END_LOC := msg_size * num_messages, MSG_WRITE_LOC := 0, MSG_READ_LOC := 0,
                  MSGQ_VALID := LWMSGQ_VALID\<rparr>)
                 (k\<lparr>AUX_QUEUES := (AUX_QUEUES k)(WAITING_WRITERS q := [], WAITING_READERS q := [])\<rparr>)
      in if q \<in> set (LWMSGQ_LIST (OBJ k1)) then (MQX_EINVAL, k1)
         else (MQX_OK, k1\<lparr>OBJ := (OBJ k1)\<lparr>LWMSGQ_LIST := LWMSGQ_LIST (OBJ k1) @ [q]\<rparr>\<rparr>))"

definition lwmsgq_init :: "addr \<Rightarrow> nat \<Rightarrow> nat \<Rightarrow> kernel \<Rightarrow> u32 \<times> kernel" where
  "lwmsgq_init q num_messages msg_size k = lwmsgq_init_internal q num_messages msg_size k"

text \<open>A writer waits without a timeout, so it is made ready without a look at the timeout queue.\<close>

definition writer_wake :: "addr \<Rightarrow> addr \<Rightarrow> addr \<Rightarrow> kernel \<Rightarrow> kernel" where
  "writer_wake q info t k = TASK_READY t (upd_td t (\<lambda>d. d\<lparr>INFO := info\<rparr>) (AUX_REMOVE (WAITING_WRITERS q) t k))"

definition reader_wake :: "addr \<Rightarrow> addr \<Rightarrow> addr \<Rightarrow> kernel \<Rightarrow> kernel" where
  "reader_wake q info t k = aux_wake (WAITING_READERS q) (\<lambda>d. d\<lparr>INFO := info\<rparr>) t k"

fun deinit_writers :: "addr \<Rightarrow> addr list \<Rightarrow> kernel \<Rightarrow> kernel" where
  "deinit_writers q [] k = k"
| "deinit_writers q (t # ts) k = deinit_writers q ts (writer_wake q LWMSGQ_DEINIT_INFO t k)"

fun deinit_readers :: "addr \<Rightarrow> addr list \<Rightarrow> kernel \<Rightarrow> kernel" where
  "deinit_readers q [] k = k"
| "deinit_readers q (t # ts) k = deinit_readers q ts (reader_wake q LWMSGQ_DEINIT_INFO t k)"

definition lwmsgq_deinit_internal :: "addr \<Rightarrow> kernel \<Rightarrow> (kernel, u32) prog" where
  "lwmsgq_deinit_internal q k =
     (let k1 = INT_DISABLE k
      in if q \<notin> set (LWMSGQ_LIST (OBJ k1)) then Done MQX_EINVAL (INT_ENABLE k1)
         else let k2 = upd_msgq q (\<lambda>v. v\<lparr>MSGQ_VALID := LWMSGQ_VALID - 1\<rparr>) k1;
                  k3 = deinit_writers q (AUX_QUEUES k2 (WAITING_WRITERS q)) k2;
                  k4 = deinit_readers q (AUX_QUEUES k3 (WAITING_READERS q)) k3;
                  k5 = k4\<lparr>OBJ := (OBJ k4)\<lparr>LWMSGQ_LIST := removeAll q (LWMSGQ_LIST (OBJ k4))\<rparr>\<rparr>
              in andthen (sched_check_scheduler k5) (\<lambda>_ k6. Done MQX_OK (INT_ENABLE k6)))"

definition lwmsgq_deinit :: "addr \<Rightarrow> kernel \<Rightarrow> (kernel, u32) prog" where
  "lwmsgq_deinit q k = lwmsgq_deinit_internal q k"

subsection \<open>The ring\<close>

text \<open>The copy out of the ring, the read location and the count; the same for the way in.\<close>

definition ring_get :: "lwmsgq \<Rightarrow> u32 list \<times> lwmsgq" where
  "ring_get v =
     (let message = map (\<lambda>i. MSG_MEM v (MSG_READ_LOC v + i)) [0 ..< MSG_SIZE v];
          loc = MSG_READ_LOC v + MSG_SIZE v
      in (message, v\<lparr>MSG_READ_LOC := (if loc \<ge> MSG_END_LOC v then 0 else loc), CURRENT_SIZE := CURRENT_SIZE v - 1\<rparr>))"

definition ring_put :: "(nat \<Rightarrow> u32) \<Rightarrow> lwmsgq \<Rightarrow> lwmsgq" where
  "ring_put message v =
     (let w = MSG_WRITE_LOC v;
          mem = (\<lambda>a. if w \<le> a \<and> a < w + MSG_SIZE v then message (a - w) else MSG_MEM v a);
          loc = w + MSG_SIZE v
      in v\<lparr>MSG_MEM := mem, MSG_WRITE_LOC := (if loc \<ge> MSG_END_LOC v then 0 else loc),
           CURRENT_SIZE := CURRENT_SIZE v + 1\<rparr>)"

subsection \<open>Receiving\<close>

text \<open>One round of the wait: the task joins the readers and, with a timeout, the timeout queue.\<close>

definition receive_timed :: "u32 \<Rightarrow> u32 \<Rightarrow> bool" where
  "receive_timed flags ticks \<longleftrightarrow> ticks \<noteq> 0 \<or> flags AND (LWMSGQ_TIMEOUT_UNTIL OR LWMSGQ_TIMEOUT_FOR) \<noteq> 0"

definition receive_block :: "addr \<Rightarrow> u32 \<Rightarrow> u32 \<Rightarrow> psp_tick \<Rightarrow> addr \<Rightarrow> kernel \<Rightarrow> kernel" where
  "receive_block q flags ticks tick t k =
     (let k1 = aux_block LWMSGQ_READ_BLOCKED (WAITING_READERS q) t k;
          expiry = (if ticks \<noteq> 0 then PSP_ADD_TICKS_TO_TICK_STRUCT (TIME k1) ticks (TIMEOUT (TDS k1 t))
                    else if flags AND LWMSGQ_TIMEOUT_UNTIL \<noteq> 0 then tick
                    else psp_add_ticks k1 tick (TIME k1))
      in if receive_timed flags ticks
         then timeout_enqueue t (upd_td t (\<lambda>d. d\<lparr>TIMEOUT := expiry\<rparr>) k1) else k1)"

definition receive_woken :: "bool \<Rightarrow> addr \<Rightarrow> u32" where
  "receive_woken timed info =
     (if info = LWMSGQ_DEINIT_INFO then LWMSGQ_DEINIT else if timed \<and> info \<noteq> 0 then LWMSGQ_TIMEOUT else MQX_OK)"

primcorec receive_wait :: "addr \<Rightarrow> u32 \<Rightarrow> u32 \<Rightarrow> psp_tick \<Rightarrow> addr \<Rightarrow> kernel \<Rightarrow> (kernel, u32) prog" where
  "receive_wait q flags ticks tick t k =
     (if \<not> LWMSGQ_IS_EMPTY (msgq_at q k) then Done MQX_OK k
      else Susp (switch_task (receive_block q flags ticks tick t k))
        (\<lambda>k'. if receive_woken (receive_timed flags ticks) (INFO (TDS k' t)) \<noteq> MQX_OK
              then Done (receive_woken (receive_timed flags ticks) (INFO (TDS k' t))) k'
              else receive_wait q flags ticks tick t k'))"

definition receive_take :: "addr \<Rightarrow> kernel \<Rightarrow> (kernel, u32 \<times> u32 list) prog" where
  "receive_take q k =
     (let (message, v) = ring_get (msgq_at q k); k1 = upd_msgq q (\<lambda>_. v) k
      in case AUX_QUEUES k1 (WAITING_WRITERS q) of
           [] \<Rightarrow> Done (MQX_OK, message) (INT_ENABLE k1)
         | t # _ \<Rightarrow> andthen (sched_check_scheduler (writer_wake q 0 t k1))
                     (\<lambda>_ k2. Done (MQX_OK, message) (INT_ENABLE k2)))"

definition lwmsgq_receive :: "addr \<Rightarrow> u32 \<Rightarrow> u32 \<Rightarrow> psp_tick \<Rightarrow> kernel \<Rightarrow> (kernel, u32 \<times> u32 list) prog" where
  "lwmsgq_receive q flags ticks tick k =
     (if IN_ISR k \<noteq> 0 then Done (MQX_CANNOT_CALL_FUNCTION_FROM_ISR, []) k
      else let k1 = INT_DISABLE k
           in if \<not> msgq_valid q k1 then Done (LWMSGQ_INVALID, []) (INT_ENABLE k1)
              else if LWMSGQ_IS_EMPTY (msgq_at q k1)
              then if flags AND LWMSGQ_RECEIVE_BLOCK_ON_EMPTY \<noteq> 0
                   then andthen (receive_wait q flags ticks tick (ACTIVE_PTR k1) k1)
                          (\<lambda>r k2. if r \<noteq> MQX_OK then Done (r, []) (INT_ENABLE k2) else receive_take q k2)
                   else Done (LWMSGQ_EMPTY, []) (INT_ENABLE k1)
              else receive_take q k1)"

subsection \<open>Sending\<close>

text \<open>One round of the wait: the state of the task is not set here but once before the loop.\<close>

definition send_block :: "addr \<Rightarrow> addr \<Rightarrow> kernel \<Rightarrow> kernel" where
  "send_block q t k =
     AUX_ENQUEUE (WAITING_WRITERS q) t (UNLINK_READY t (upd_td t (\<lambda>d. d\<lparr>INFO := WAITING_WRITERS q\<rparr>) k))"

primcorec send_wait :: "addr \<Rightarrow> addr \<Rightarrow> kernel \<Rightarrow> (kernel, u32) prog" where
  "send_wait q t k =
     (if \<not> LWMSGQ_IS_FULL (msgq_at q k) then Done MQX_OK k
      else Susp (switch_task (send_block q t k))
        (\<lambda>k'. if INFO (TDS k' t) = LWMSGQ_DEINIT_INFO then Done LWMSGQ_DEINIT k' else send_wait q t k'))"

definition send_deliver :: "addr \<Rightarrow> (nat \<Rightarrow> u32) \<Rightarrow> u32 \<Rightarrow> kernel \<Rightarrow> (kernel, u32) prog" where
  "send_deliver q message flags k =
     (let k1 = upd_msgq q (ring_put message) k;
          after = (case AUX_QUEUES k1 (WAITING_READERS q) of
             [] \<Rightarrow> if flags AND LWMSGQ_SEND_BLOCK_ON_SEND \<noteq> 0 then task_block k1 else Done () k1
           | t # _ \<Rightarrow> if flags AND LWMSGQ_SEND_BLOCK_ON_SEND \<noteq> 0 then task_block (reader_wake q 0 t k1)
                       else sched_check_scheduler (reader_wake q 0 t k1))
      in andthen after (\<lambda>_ k2. Done MQX_OK (INT_ENABLE k2)))"

definition lwmsgq_send :: "addr \<Rightarrow> (nat \<Rightarrow> u32) \<Rightarrow> u32 \<Rightarrow> kernel \<Rightarrow> (kernel, u32) prog" where
  "lwmsgq_send q message flags k =
     (if IN_ISR k \<noteq> 0 \<and> flags AND (LWMSGQ_SEND_BLOCK_ON_FULL OR LWMSGQ_SEND_BLOCK_ON_SEND) \<noteq> 0
      then Done MQX_CANNOT_CALL_FUNCTION_FROM_ISR k
      else let k1 = INT_DISABLE k; t = ACTIVE_PTR k1
           in if \<not> msgq_valid q k1 then Done LWMSGQ_INVALID (INT_ENABLE k1)
              else if LWMSGQ_IS_FULL (msgq_at q k1)
              then if flags AND LWMSGQ_SEND_BLOCK_ON_FULL \<noteq> 0
                   then andthen (send_wait q t (upd_td t (\<lambda>d. d\<lparr>STATE := LWMSGQ_WRITE_BLOCKED\<rparr>) k1))
                          (\<lambda>r k2. if r \<noteq> MQX_OK then Done r (INT_ENABLE k2) else send_deliver q message flags k2)
                   else Done LWMSGQ_FULL (INT_ENABLE k1)
              else send_deliver q message flags k1)"

subsection \<open>The ring is a bounded list\<close>

text \<open>A ring for \<open>m\<close> messages of \<open>n\<close> words that holds the messages \<open>xs\<close>, the first in the slot \<open>r\<close> to be read next.\<close>

definition slot :: "nat \<Rightarrow> (nat \<Rightarrow> u32) \<Rightarrow> nat \<Rightarrow> u32 list" where
  "slot n mem i = map (\<lambda>j. mem (n * i + j)) [0 ..< n]"

definition ring_rep :: "nat \<Rightarrow> nat \<Rightarrow> lwmsgq \<Rightarrow> u32 list list \<Rightarrow> bool" where
  "ring_rep n m v xs \<longleftrightarrow> MSG_SIZE v = n \<and> MAX_SIZE v = m \<and> CURRENT_SIZE v = length xs \<and> length xs \<le> m \<and>
     MSG_END_LOC v = n * m \<and>
     (\<exists>r < m. MSG_READ_LOC v = n * r \<and> MSG_WRITE_LOC v = n * ((r + length xs) mod m) \<and>
        (\<forall>i < length xs. xs ! i = slot n (MSG_MEM v) ((r + i) mod m)))"

definition ring_room :: "nat \<Rightarrow> nat \<Rightarrow> u32 list \<Rightarrow> u32 list list \<Rightarrow> bool" where
  "ring_room n m x xs \<longleftrightarrow> length x = n \<and> length xs < m"

lemma next_loc:
  assumes "r < m"
  shows "(if n * r + n \<ge> n * m then 0 else n * r + n) = n * ((r + 1) mod (m :: nat))"
proof (cases "r + 1 = m")
  case True
  then have "n * m = n * r + n" by (simp add: algebra_simps flip: True)
  with True show ?thesis by simp
next
  case False
  with assms have l: "r + 1 < m" by simp
  show ?thesis
  proof (cases "n = 0")
    case pos: False
    with l have "n * (r + 1) < n * m" by (simp only: mult_less_cancel1) simp
    then have "n * r + n < n * m" by (simp only: distrib_left mult_1_right)
    with l show ?thesis by (simp add: not_le [symmetric])
  qed simp
qed

lemma slot_outside:
  assumes "i \<noteq> w"
  shows "slot n (\<lambda>a. if n * w \<le> a \<and> a < n * w + n then f (a - n * w) else mem a) i = slot n mem i"
proof -
  have "\<not> (n * w \<le> n * i + j \<and> n * i + j < n * w + n)" if "j < n" for j
  proof
    assume a: "n * w \<le> n * i + j \<and> n * i + j < n * w + n"
    have "(n * i + j) div n = i" using that by simp
    moreover obtain d where "n * i + j = n * w + d" "d < n" using a by (metis le_iff_add add_less_cancel_left)
    ultimately show False using assms by simp
  qed
  then show ?thesis by (auto simp: slot_def)
qed

lemma slot_inside: "slot n (\<lambda>a. if n * w \<le> a \<and> a < n * w + n then f (a - n * w) else mem a) w = map f [0 ..< n]"
  by (simp add: slot_def)

lemma ring_put_rep:
  assumes "ring_rep n m v xs" and "ring_room n m x xs"
  shows "ring_rep n m (ring_put (nth x) v) (xs @ [x])"
proof -
  from assms obtain r where r: "r < m" "MSG_READ_LOC v = n * r" "MSG_WRITE_LOC v = n * ((r + length xs) mod m)"
    "\<And>i. i < length xs \<Longrightarrow> xs ! i = slot n (MSG_MEM v) ((r + i) mod m)"
    and f: "MSG_SIZE v = n" "MAX_SIZE v = m" "CURRENT_SIZE v = length xs" "MSG_END_LOC v = n * m"
    and x: "length x = n" "length xs < m"
    unfolding ring_rep_def ring_room_def by blast
  define w where "w = (r + length xs) mod m"
  have w: "w < m" using r by (simp add: w_def)
  have other: "(r + i) mod m \<noteq> w" if "i < length xs" for i
  proof
    assume "(r + i) mod m = w"
    then have "m dvd length xs - i" using that unfolding w_def by (subst (asm) eq_commute, subst (asm) mod_eq_dvd_iff_nat) simp_all
    with that x show False by (auto dest: dvd_imp_le)
  qed
  have loc: "(if n * w + n \<ge> n * m then 0 else n * w + n) = n * ((r + length (xs @ [x])) mod m)"
    unfolding next_loc [OF w] by (simp add: w_def mod_Suc_eq)
  have "(xs @ [x]) ! i = slot n (MSG_MEM (ring_put (nth x) v)) ((r + i) mod m)" if "i < length (xs @ [x])" for i
  proof (cases "i = length xs")
    case True
    have "map (nth x) [0 ..< n] = x" using x(1) map_nth by blast
    then show ?thesis using True by (simp add: ring_put_def Let_def f r(3) w_def slot_inside)
  next
    case False
    with that have "i < length xs" by simp
    then show ?thesis using r(4) other by (simp add: ring_put_def Let_def f r(3) w_def [symmetric] slot_outside nth_append)
  qed
  then show ?thesis using r(1,2) f x loc unfolding ring_rep_def
    by (auto simp: ring_put_def Let_def r(3) w_def [symmetric] intro!: exI [of _ r])
qed

lemma ring_get_rep:
  assumes "ring_rep n m v (x # xs)"
  shows "fst (ring_get v) = x" and "ring_rep n m (snd (ring_get v)) xs"
proof -
  from assms obtain r where r: "r < m" "MSG_READ_LOC v = n * r" "MSG_WRITE_LOC v = n * ((r + Suc (length xs)) mod m)"
    "\<And>i. i < Suc (length xs) \<Longrightarrow> (x # xs) ! i = slot n (MSG_MEM v) ((r + i) mod m)"
    and f: "MSG_SIZE v = n" "MAX_SIZE v = m" "CURRENT_SIZE v = Suc (length xs)" "MSG_END_LOC v = n * m" "Suc (length xs) \<le> m"
    unfolding ring_rep_def by auto
  show "fst (ring_get v) = x" using r(4) [of 0] r(1,2) f(1) by (simp add: ring_get_def Let_def slot_def)
  let ?r = "(r + 1) mod m"
  have "xs ! i = slot n (MSG_MEM v) ((?r + i) mod m)" if "i < length xs" for i
    using r(4) [of "Suc i"] that by (simp add: mod_simps)
  moreover have "(?r + length xs) mod m = (r + Suc (length xs)) mod m" by (simp add: mod_simps)
  ultimately show "ring_rep n m (snd (ring_get v)) xs"
    using r(1,3) f next_loc [OF r(1), of n] unfolding ring_rep_def
    by (auto simp: ring_get_def Let_def r(2) intro!: exI [of _ ?r])
qed

interpretation ring: fifo_queue "ring_rep n m" "\<lambda>x. ring_put (nth x)" ring_get "ring_room n m"
  for n m :: nat
  by unfold_locales (auto intro: ring_put_rep ring_get_rep)

subsection \<open>Running states are kept\<close>

lemma upd_msgq_simps [simp]:
  "TDS (upd_msgq q f k) = TDS k" "TD_LIST (upd_msgq q f k) = TD_LIST k" "AUX_QUEUES (upd_msgq q f k) = AUX_QUEUES k"
  "ACTIVE_PTR (upd_msgq q f k) = ACTIVE_PTR k" "IN_ISR (upd_msgq q f k) = IN_ISR k" "STUCK (upd_msgq q f k) = STUCK k"
  "running idle (upd_msgq q f k) = running idle k" "unsettled idle (upd_msgq q f k) = unsettled idle k"
  "ready_tasks (upd_msgq q f k) = ready_tasks k" "kinv (upd_msgq q f k) = kinv k"
  "msgq_at q' (upd_msgq q f k) = (if q' = q then f (msgq_at q k) else msgq_at q' k)"
  by (simp_all add: upd_msgq_def msgq_at_def)

lemma msgq_simps [simp]:
  "msgq_at q (INT_DISABLE k) = msgq_at q k" "msgq_at q (INT_ENABLE k) = msgq_at q k"
  "msgq_valid q (INT_DISABLE k) = msgq_valid q k" "msgq_at q (upd_td t f k) = msgq_at q k"
  by (simp_all add: msgq_at_def msgq_valid_def)

text \<open>The writers of a queue wait without a timeout; \<open>msgq_running\<close> adds this to the running states.\<close>

definition untimed :: "addr \<Rightarrow> kernel \<Rightarrow> bool" where
  "untimed q k \<longleftrightarrow> (\<forall>t \<in> set (AUX_QUEUES k (WAITING_WRITERS q)). STATE (TDS k t) AND IS_ON_TIMEOUT_Q = 0)"

definition msgq_running :: "addr \<Rightarrow> addr \<Rightarrow> kernel \<Rightarrow> bool" where
  "msgq_running idle q k \<longleftrightarrow> running idle k \<and> untimed q k"

lemma untimed_simps [simp]:
  "untimed q (INT_DISABLE k) = untimed q k" "untimed q (INT_ENABLE k) = untimed q k"
  "untimed q (upd_msgq q' f k) = untimed q k" "untimed q (k\<lparr>OBJ := ob\<rparr>) = untimed q k"
  "untimed q (switch_task k) = untimed q k"
  by (simp_all add: untimed_def)

lemma waiting_queues_differ [simp]: "WAITING_WRITERS q \<noteq> WAITING_READERS q" "WAITING_READERS q \<noteq> WAITING_WRITERS q"
  by (simp_all add: WAITING_WRITERS_def WAITING_READERS_def)

lemma writer_wake_aux:
  "untimed q k \<Longrightarrow> t \<in> set (AUX_QUEUES k (WAITING_WRITERS q)) \<Longrightarrow>
   writer_wake q info t k = aux_wake (WAITING_WRITERS q) (\<lambda>d. d\<lparr>INFO := info\<rparr>) t k"
  by (simp add: writer_wake_def aux_wake_def TIME_DEQUEUE_def untimed_def)

lemma aux_wake_untimed:
  assumes "unsettled idle k" "t \<in> set (AUX_QUEUES k q')" "untimed q k"
  shows "untimed q (aux_wake q' f t k)"
  using assms by (auto simp: untimed_def aux_wake_def TIME_DEQUEUE_def)

lemma deinit_writers_unsettled:
  "unsettled idle k \<Longrightarrow> untimed q k \<Longrightarrow> AUX_QUEUES k (WAITING_WRITERS q) = ts \<Longrightarrow>
   unsettled idle (deinit_writers q ts k) \<and> AUX_QUEUES (deinit_writers q ts k) (WAITING_WRITERS q) = [] \<and>
   AUX_QUEUES (deinit_writers q ts k) (WAITING_READERS q) = AUX_QUEUES k (WAITING_READERS q) \<and>
   OBJ (deinit_writers q ts k) = OBJ k \<and> ready_tasks (deinit_writers q ts k) = ready_tasks k \<union> set ts"
proof (induction ts arbitrary: k)
  case (Cons t ts)
  let ?w = "aux_wake (WAITING_WRITERS q) (\<lambda>d. d\<lparr>INFO := LWMSGQ_DEINIT_INFO\<rparr>) t k"
  have e: "writer_wake q LWMSGQ_DEINIT_INFO t k = ?w" using Cons.prems by (simp add: writer_wake_aux)
  have "distinct (t # ts)" using Cons.prems by (metis unsettled_def kinv_def shape_def)
  then have "AUX_QUEUES ?w (WAITING_WRITERS q) = ts" using Cons.prems by simp
  moreover have "unsettled idle ?w" using Cons.prems by (intro aux_wake_unsettled) simp_all
  moreover have "untimed q ?w" using Cons.prems by (intro aux_wake_untimed) simp_all
  moreover have "ready_tasks ?w = insert t (ready_tasks k)"
    using Cons.prems by (intro aux_wake_ready) (simp_all add: unsettled_def)
  ultimately show ?case using Cons.IH [of ?w] by (auto simp: e)
qed simp

lemma deinit_readers_unsettled:
  "unsettled idle k \<Longrightarrow> AUX_QUEUES k (WAITING_READERS q) = ts \<Longrightarrow> AUX_QUEUES k (WAITING_WRITERS q) = [] \<Longrightarrow>
   unsettled idle (deinit_readers q ts k) \<and> AUX_QUEUES (deinit_readers q ts k) (WAITING_READERS q) = [] \<and>
   AUX_QUEUES (deinit_readers q ts k) (WAITING_WRITERS q) = [] \<and>
   ready_tasks (deinit_readers q ts k) = ready_tasks k \<union> set ts"
proof (induction ts arbitrary: k)
  case (Cons t ts)
  let ?w = "aux_wake (WAITING_READERS q) (\<lambda>d. d\<lparr>INFO := LWMSGQ_DEINIT_INFO\<rparr>) t k"
  have "distinct (t # ts)" using Cons.prems by (metis unsettled_def kinv_def shape_def)
  then have "AUX_QUEUES ?w (WAITING_READERS q) = ts" using Cons.prems by simp
  moreover have "unsettled idle ?w" using Cons.prems by (intro aux_wake_unsettled) simp_all
  moreover have "ready_tasks ?w = insert t (ready_tasks k)"
    using Cons.prems by (intro aux_wake_ready) (simp_all add: unsettled_def)
  ultimately show ?case using Cons.IH [of ?w] Cons.prems by (auto simp: reader_wake_def)
qed simp

text \<open>Sending with room is also safe without the condition on the writers: some lemmas are for a set \<open>Q\<close> of queues
  whose writers wait without a timeout.\<close>

definition untimed_running :: "addr \<Rightarrow> addr set \<Rightarrow> kernel \<Rightarrow> bool" where
  "untimed_running idle Q k \<longleftrightarrow> running idle k \<and> (\<forall>q \<in> Q. untimed q k)"

lemma untimed_running_simps: "untimed_running idle {q} = msgq_running idle q" "untimed_running idle {} = running idle"
  by (simp_all add: untimed_running_def msgq_running_def fun_eq_iff)

lemma untimed_check_keeps:
  assumes "unsettled idle k" "\<forall>q \<in> Q. untimed q k"
  shows "keeps (untimed_running idle Q) (untimed_running idle Q) R (sched_check_scheduler k)"
proof -
  have "keeps (\<lambda>k. \<forall>q \<in> Q. untimed q k) (\<lambda>k. \<forall>q \<in> Q. untimed q k) R (sched_check_scheduler k)"
    using assms(2) by (simp add: sched_check_scheduler_def sched_execute_scheduler_def Let_def)
  from keeps_conj [OF check_keeps [OF assms(1)] this] show ?thesis by (simp add: untimed_running_def [abs_def])
qed

lemma msgq_check_keeps:
  "unsettled idle k \<Longrightarrow> untimed q k \<Longrightarrow> keeps (msgq_running idle q) (msgq_running idle q) R (sched_check_scheduler k)"
  using untimed_check_keeps [of idle k "{q}"] by (simp add: untimed_running_simps)

lemma lwmsgq_deinit_keeps:
  assumes "msgq_running idle q k"
  shows "keeps (msgq_running idle q) (msgq_running idle q) R (lwmsgq_deinit q k)"
proof -
  let ?k = "upd_msgq q (\<lambda>v. v\<lparr>MSGQ_VALID := LWMSGQ_VALID - 1\<rparr>) (INT_DISABLE k)"
  let ?w = "deinit_writers q (AUX_QUEUES ?k (WAITING_WRITERS q)) ?k"
  let ?r = "deinit_readers q (AUX_QUEUES ?w (WAITING_READERS q)) ?w"
  have "unsettled idle ?k" "untimed q ?k" using assms by (simp_all add: msgq_running_def running_unsettled)
  then have "unsettled idle ?w \<and> AUX_QUEUES ?w (WAITING_WRITERS q) = []" using deinit_writers_unsettled by blast
  then have "unsettled idle ?r \<and> AUX_QUEUES ?r (WAITING_WRITERS q) = []" using deinit_readers_unsettled by blast
  then have "keeps (msgq_running idle q) (msgq_running idle q) R (sched_check_scheduler (?r\<lparr>OBJ := x\<rparr>))" for x
    by (intro msgq_check_keeps) (simp_all add: untimed_def)
  then have "keeps (msgq_running idle q) (msgq_running idle q) R
      (andthen (sched_check_scheduler (?r\<lparr>OBJ := x\<rparr>)) (\<lambda>_ k6. Done MQX_OK (INT_ENABLE k6)))" for x
    by (rule keeps_andthen) (simp add: msgq_running_def)
  then show ?thesis using assms by (simp add: lwmsgq_deinit_def lwmsgq_deinit_internal_def Let_def msgq_running_def)
qed

lemma receive_take_keeps:
  assumes "msgq_running idle q k"
  shows "keeps (msgq_running idle q) (msgq_running idle q) R (receive_take q k)"
proof (cases "AUX_QUEUES k (WAITING_WRITERS q)")
  case Nil
  then show ?thesis using assms by (simp add: receive_take_def split_beta Let_def msgq_running_def)
next
  case (Cons t ts)
  let ?k = "upd_msgq q (\<lambda>_. snd (ring_get (msgq_at q k))) k"
  let ?w = "aux_wake (WAITING_WRITERS q) (\<lambda>d. d\<lparr>INFO := 0\<rparr>) t ?k"
  have u: "unsettled idle ?k" "untimed q ?k" "t \<in> set (AUX_QUEUES ?k (WAITING_WRITERS q))"
    using assms Cons by (simp_all add: msgq_running_def running_unsettled)
  have "unsettled idle ?w" "untimed q ?w"
    using aux_wake_unsettled [OF u(1,3)] aux_wake_untimed [OF u(1,3,2)] by simp_all
  then have "keeps (msgq_running idle q) (msgq_running idle q) R
      (andthen (sched_check_scheduler ?w) (\<lambda>_ k2. Done (MQX_OK, fst (ring_get (msgq_at q k))) (INT_ENABLE k2)))"
    by (intro keeps_andthen [OF msgq_check_keeps]) (simp_all add: msgq_running_def)
  then show ?thesis using Cons u writer_wake_aux [OF u(2,3)] by (simp add: receive_take_def split_beta Let_def)
qed

lemma receive_block_switch:
  assumes r: "msgq_running idle q k" and a: "ACTIVE_PTR k \<noteq> idle"
  shows "msgq_running idle q (switch_task (receive_block q flags ticks tick (ACTIVE_PTR k) k))"
proof -
  let ?t = "ACTIVE_PTR k"
  let ?b = "aux_block LWMSGQ_READ_BLOCKED (WAITING_READERS q) ?t k"
  have t: "?t \<in> ready_tasks k" "kinv k" "\<not> STUCK k" "IN_ISR k = 0" "untimed q k"
    using r by (simp_all add: msgq_running_def running_def top_active_def)
  have b: "kinv ?b" by (rule aux_block_kinv) (use t in simp_all)
  have s: "STATE (TDS ?b ?t) = LWMSGQ_READ_BLOCKED" "?t \<in> set (TD_LIST ?b)" "?t \<notin> set (AUX_QUEUES k (WAITING_WRITERS q))"
    using t by (auto simp: aux_block_def ready_tasks_def kinv_def placed_def)
  have n: "?t \<notin> set (TIMEOUT_QUEUE ?b)" using b s by (auto simp: kinv_def placed_def)
  let ?x = "\<lambda>e. upd_td ?t (\<lambda>d. d\<lparr>TIMEOUT := e\<rparr>) ?b"
  have "kinv (timeout_enqueue ?t (?x e))" for e
    by (rule timeout_enqueue_kinv) (use kinv_set_timeout [OF b n] s in simp_all)
  then have kv: "kinv (receive_block q flags ticks tick ?t k)" using b by (simp add: receive_block_def Let_def)
  have u: "untimed q (receive_block q flags ticks tick ?t k)"
    using t(5) s(3) by (auto simp: untimed_def receive_block_def Let_def aux_block_def timeout_enqueue_def)
  have i: "idle \<in> ready_tasks k" using r by (simp add: msgq_running_def running_def)
  have "running idle (switch_task (receive_block q flags ticks tick ?t k))"
    by (rule switch_running [OF kv])
      (use t i a in \<open>auto simp: receive_block_def Let_def aux_block_def timeout_enqueue_def ready_tasks_def\<close>)
  with u show ?thesis by (simp add: msgq_running_def)
qed

lemma receive_wait_keeps:
  assumes "msgq_running idle q k" "ACTIVE_PTR k = t" "t \<noteq> idle"
  shows "keeps (msgq_running idle q) (msgq_running idle q) (resumes t) (receive_wait q flags ticks tick t k)"
  using assms
proof (coinduction arbitrary: k)
  case keeps
  show ?case
  proof (cases "LWMSGQ_IS_EMPTY (msgq_at q k)")
    case True
    then show ?thesis using keeps receive_block_switch [OF keeps(1), of flags ticks tick]
      by (subst receive_wait.code) (auto simp: resumes_def)
  qed (use keeps in \<open>subst receive_wait.code, simp\<close>)
qed

lemma lwmsgq_receive_keeps:
  assumes r: "msgq_running idle q k" and a: "ACTIVE_PTR k \<noteq> idle"
  shows "keeps (msgq_running idle q) (msgq_running idle q) (resumes (ACTIVE_PTR k)) (lwmsgq_receive q flags ticks tick k)"
proof -
  have d: "msgq_running idle q (INT_DISABLE k)" using r by (simp add: msgq_running_def)
  let ?P = "msgq_running idle q" and ?R = "resumes (ACTIVE_PTR k)"
  have w: "keeps ?P ?P ?R (receive_wait q flags ticks tick (ACTIVE_PTR k) (INT_DISABLE k))"
    by (rule receive_wait_keeps [OF d]) (use a in simp_all)
  have "keeps ?P ?P ?R (andthen (receive_wait q flags ticks tick (ACTIVE_PTR k) (INT_DISABLE k))
     (\<lambda>r k2. if r \<noteq> MQX_OK then Done (r, []) (INT_ENABLE k2) else receive_take q k2))"
    by (rule keeps_andthen [OF w]) (auto intro: receive_take_keeps simp: msgq_running_def)
  then show ?thesis using r receive_take_keeps [OF d] by (auto simp: lwmsgq_receive_def Let_def msgq_running_def)
qed

lemma task_block_keeps:
  assumes "unsettled idle k" "\<forall>q \<in> Q. untimed q k" "ACTIVE_PTR k \<noteq> idle"
  shows "keeps (untimed_running idle Q) (untimed_running idle Q) R (task_block k)"
proof -
  let ?t = "ACTIVE_PTR k"
  let ?b = "UNLINK_READY ?t (upd_td ?t (\<lambda>d. d\<lparr>STATE := STATE d OR IS_BLOCKED\<rparr>) k)"
  have s: "STATE (TDS k ?t) = READY" "kinv k" using assms by (simp_all add: unsettled_def ready_tasks_def)
  have "kinv ?b" using s by (auto simp: kinv_def shape_def placed_def UNLINK_READY_def distinct_removeAll)
  moreover have "idle \<in> ready_tasks ?b" by (rule ready_tasks_frame [OF assms(1,3)]) simp_all
  ultimately have "running idle (switch_task ?b)" using assms(1) by (intro switch_running) (simp_all add: unsettled_def)
  moreover have "untimed q ?b" if "q \<in> Q" for q using assms(2) that s by (auto simp: untimed_def kinv_def placed_def)
  ultimately show ?thesis
    by (simp add: task_block_def sched_execute_scheduler_def Let_def untimed_running_def)
qed

lemma send_deliver_keeps:
  assumes r: "untimed_running idle Q k" and a: "flags AND LWMSGQ_SEND_BLOCK_ON_SEND \<noteq> 0 \<longrightarrow> ACTIVE_PTR k \<noteq> idle"
  shows "keeps (untimed_running idle Q) (untimed_running idle Q) R (send_deliver q message flags k)"
proof -
  let ?k = "upd_msgq q (ring_put message) k"
  have u: "unsettled idle ?k" "\<forall>q \<in> Q. untimed q ?k" using r by (simp_all add: untimed_running_def running_unsettled)
  have w: "unsettled idle (reader_wake q 0 t ?k)" "\<forall>x \<in> Q. untimed x (reader_wake q 0 t ?k)"
    if "AUX_QUEUES ?k (WAITING_READERS q) = t # ts" for t ts
  proof -
    have t: "t \<in> set (AUX_QUEUES ?k (WAITING_READERS q))" using that by simp
    show "unsettled idle (reader_wake q 0 t ?k)" "\<forall>x \<in> Q. untimed x (reader_wake q 0 t ?k)"
      unfolding reader_wake_def using aux_wake_unsettled [OF u(1) t] aux_wake_untimed [OF u(1) t] u(2) by simp_all
  qed
  have f: "ACTIVE_PTR (reader_wake q 0 t ?k) = ACTIVE_PTR k" for t by (simp add: reader_wake_def)
  show ?thesis unfolding send_deliver_def Let_def
  proof (rule keeps_andthen)
    show "keeps (untimed_running idle Q) (untimed_running idle Q) R (case AUX_QUEUES ?k (WAITING_READERS q) of
             [] \<Rightarrow> if flags AND LWMSGQ_SEND_BLOCK_ON_SEND \<noteq> 0 then task_block ?k else Done () ?k
           | t # _ \<Rightarrow> if flags AND LWMSGQ_SEND_BLOCK_ON_SEND \<noteq> 0 then task_block (reader_wake q 0 t ?k)
                       else sched_check_scheduler (reader_wake q 0 t ?k))"
      using r u w f a by (cases "AUX_QUEUES ?k (WAITING_READERS q)")
        (auto intro!: task_block_keeps untimed_check_keeps simp: untimed_running_def simp del: upd_msgq_simps(3))
  qed (simp add: untimed_running_def)
qed

text \<open>A send that does not wait for room.\<close>

lemma lwmsgq_send_running:
  assumes r: "running idle k" and f: "flags AND LWMSGQ_SEND_BLOCK_ON_FULL = 0"
    and a: "flags AND LWMSGQ_SEND_BLOCK_ON_SEND \<noteq> 0 \<longrightarrow> ACTIVE_PTR k \<noteq> idle"
  shows "keeps (running idle) (running idle) R (lwmsgq_send q message flags k)"
proof -
  have "keeps (running idle) (running idle) R (send_deliver q message flags (INT_DISABLE k))"
    using send_deliver_keeps [of idle "{}" "INT_DISABLE k" flags R q message] r a by (simp add: untimed_running_simps)
  moreover have "IN_ISR k = 0" using r by (simp add: running_def)
  ultimately show ?thesis using r f by (simp add: lwmsgq_send_def Let_def)
qed

text \<open>A blocked writer that finds room when it runs again.\<close>

definition resumes_with_room :: "addr \<Rightarrow> addr \<Rightarrow> kernel \<Rightarrow> bool" where
  "resumes_with_room q t k \<longleftrightarrow> resumes t k \<and> \<not> LWMSGQ_IS_FULL (msgq_at q k)"

lemma send_wait_first:
  "LWMSGQ_IS_FULL (msgq_at q k) \<Longrightarrow>
   send_wait q t (upd_td t (\<lambda>d. d\<lparr>STATE := LWMSGQ_WRITE_BLOCKED\<rparr>) k) =
     Susp (switch_task (aux_block LWMSGQ_WRITE_BLOCKED (WAITING_WRITERS q) t k))
       (\<lambda>k'. if INFO (TDS k' t) = LWMSGQ_DEINIT_INFO then Done LWMSGQ_DEINIT k' else send_wait q t k')"
  by (subst send_wait.code) (simp add: send_block_def aux_block_def upd_td_def msgq_at_def)

lemma send_block_switch:
  assumes r: "msgq_running idle q k" and a: "ACTIVE_PTR k \<noteq> idle"
  shows "msgq_running idle q (switch_task (aux_block LWMSGQ_WRITE_BLOCKED (WAITING_WRITERS q) (ACTIVE_PTR k) k))"
proof -
  let ?t = "ACTIVE_PTR k"
  let ?b = "aux_block LWMSGQ_WRITE_BLOCKED (WAITING_WRITERS q) ?t k"
  have t: "?t \<in> ready_tasks k" "kinv k" "\<not> STUCK k" "IN_ISR k = 0" "untimed q k" "idle \<in> ready_tasks k"
    using r by (simp_all add: msgq_running_def running_def top_active_def)
  have "kinv ?b" by (rule aux_block_kinv) (use t in simp_all)
  then have "running idle (switch_task ?b)"
    by (rule switch_running) (use t a in \<open>auto simp: aux_block_def ready_tasks_def\<close>)
  moreover have "untimed q ?b" using t(5) by (auto simp: untimed_def aux_block_def)
  ultimately show ?thesis by (simp add: msgq_running_def)
qed

lemma send_wait_keeps:
  assumes "msgq_running idle q k" "ACTIVE_PTR k = t" "t \<noteq> idle" "LWMSGQ_IS_FULL (msgq_at q k)"
  shows "keeps (msgq_running idle q) (\<lambda>k'. msgq_running idle q k' \<and> ACTIVE_PTR k' = t) (resumes_with_room q t)
    (send_wait q t (upd_td t (\<lambda>d. d\<lparr>STATE := LWMSGQ_WRITE_BLOCKED\<rparr>) k))"
proof -
  have "send_wait q t k' = Done MQX_OK k'" if "resumes_with_room q t k'" for k'
    using that by (subst send_wait.code) (simp add: resumes_with_room_def)
  then show ?thesis using send_block_switch [OF assms(1)] assms unfolding send_wait_first [OF assms(4)]
    by (simp add: resumes_with_room_def resumes_def)
qed

lemma lwmsgq_send_keeps:
  assumes r: "msgq_running idle q k" and a: "flags AND 3 \<noteq> 0 \<longrightarrow> ACTIVE_PTR k \<noteq> idle"
  shows "keeps (msgq_running idle q) (msgq_running idle q) (resumes_with_room q (ACTIVE_PTR k)) (lwmsgq_send q message flags k)"
proof -
  have d: "msgq_running idle q (INT_DISABLE k)" using r by (simp add: msgq_running_def)
  let ?P = "msgq_running idle q" and ?R = "resumes_with_room q (ACTIVE_PTR k)" and ?t = "ACTIVE_PTR k"
  have b: "?t \<noteq> idle" if "flags AND LWMSGQ_SEND_BLOCK_ON_SEND \<noteq> 0 \<or> flags AND LWMSGQ_SEND_BLOCK_ON_FULL \<noteq> 0"
    using that a no_low_bits [of flags] by auto
  have sd: "keeps ?P ?P ?R (send_deliver q message flags k')"
    if "?P k'" "flags AND LWMSGQ_SEND_BLOCK_ON_SEND \<noteq> 0 \<longrightarrow> ACTIVE_PTR k' \<noteq> idle" for k'
    using send_deliver_keeps [of idle "{q}" k' flags] that by (simp add: untimed_running_simps)
  have w: "keeps ?P ?P ?R (andthen (send_wait q ?t (upd_td ?t (\<lambda>d. d\<lparr>STATE := LWMSGQ_WRITE_BLOCKED\<rparr>) (INT_DISABLE k)))
     (\<lambda>r k2. if r \<noteq> MQX_OK then Done r (INT_ENABLE k2) else send_deliver q message flags k2))"
    if "flags AND LWMSGQ_SEND_BLOCK_ON_FULL \<noteq> 0" "LWMSGQ_IS_FULL (msgq_at q k)"
    by (rule keeps_andthen [OF send_wait_keeps [OF d]])
      (use that b sd in \<open>auto simp: msgq_running_def\<close>)
  have "keeps ?P ?P ?R (send_deliver q message flags (INT_DISABLE k))"
    by (rule sd [OF d]) (use b in simp)
  moreover have "IN_ISR k = 0" using r by (simp add: msgq_running_def running_def)
  ultimately show ?thesis using w r by (auto simp: lwmsgq_send_def Let_def msgq_running_def)
qed

lemma lwmsgq_init_running:
  assumes r: "msgq_running idle q k" and n: "AUX_QUEUES k (WAITING_WRITERS q) = []" "AUX_QUEUES k (WAITING_READERS q) = []"
  shows "msgq_running idle q (snd (lwmsgq_init q num_messages msg_size k))"
proof -
  have "k\<lparr>AUX_QUEUES := (AUX_QUEUES k)(WAITING_WRITERS q := [], WAITING_READERS q := [])\<rparr> = k"
    using n by (simp add: fun_upd_idem)
  then show ?thesis using r
    by (simp add: lwmsgq_init_def lwmsgq_init_internal_def Let_def msgq_running_def untimed_def upd_msgq_def)
qed

text \<open>
  C26 (invariant). Message queue operations keep the kernel in running states in which writers wait without a
  timeout, at every switch and on return: removal; initialisation of a queue that no task waits for;
  receiving with any flags and timeouts, however often the receiver is switched out and resumed, by a task
  other than the idle task; sending without the flag that waits for room; and sending with it under a
  condition, that a writer which blocked on a full queue finds room when it runs again. Without that
  condition the invariant can be lost: a second wait is shown below to break it.
\<close>

theorem lwmsgq_operations_keep_running:
  assumes "msgq_running idle q k"
  shows "keeps (msgq_running idle q) (msgq_running idle q) (resumes (ACTIVE_PTR k)) (lwmsgq_deinit q k)
    \<and> (AUX_QUEUES k (WAITING_WRITERS q) = [] \<and> AUX_QUEUES k (WAITING_READERS q) = [] \<longrightarrow>
       msgq_running idle q (snd (lwmsgq_init q num_messages msg_size k)))
    \<and> (ACTIVE_PTR k \<noteq> idle \<longrightarrow>
       keeps (msgq_running idle q) (msgq_running idle q) (resumes (ACTIVE_PTR k)) (lwmsgq_receive q flags ticks tick k)
     \<and> (flags AND LWMSGQ_SEND_BLOCK_ON_FULL = 0 \<longrightarrow>
        keeps (running idle) (running idle) (resumes (ACTIVE_PTR k)) (lwmsgq_send q message flags k))
     \<and> keeps (msgq_running idle q) (msgq_running idle q) (resumes_with_room q (ACTIVE_PTR k)) (lwmsgq_send q message flags k))"
  using assms lwmsgq_send_running [of idle k flags]
  by (simp add: lwmsgq_deinit_keeps lwmsgq_receive_keeps lwmsgq_send_keeps lwmsgq_init_running msgq_running_def [of idle q k])

lemma demo_msgq: "msgq_running 100 64 demo" "msgq_valid 64 demo" "ACTIVE_PTR demo = 200" "IN_ISR demo = 0"
  "ring_rep 1 2 (msgq_at 64 demo) []"
  using demo_running by (auto simp: msgq_running_def untimed_def msgq_valid_def msgq_at_def ring_rep_def demo_def)

theorem lwmsgq_operations_keep_running_witness:
  "keeps (msgq_running 100 64) (msgq_running 100 64) (resumes 200)
     (lwmsgq_receive 64 0x14 0 \<lparr>TICKS = 3, HW_TICKS = 0\<rparr> demo)"
  using lwmsgq_operations_keep_running [OF demo_msgq(1)] demo_msgq(3) by simp

subsection \<open>Transfer of messages\<close>

text \<open>
  Fact. The ring is first in, first out: sending the messages \<open>ys\<close> to a ring that holds \<open>xs\<close>, and
  reading as many messages, returns \<open>xs\<close> and then \<open>ys\<close>, word by word and in order, wherever the ring wraps
  around, and leaves the ring empty.
\<close>

theorem lwmsgq_ring_fifo:
  assumes "ring_rep n m v xs" and "length (xs @ ys) \<le> m" and "\<forall>y \<in> set ys. length y = n"
  shows "fst (deq_many ring_get (length (xs @ ys)) (fold (\<lambda>y. ring_put (nth y)) ys v)) = xs @ ys
    \<and> ring_rep n m (snd (deq_many ring_get (length (xs @ ys)) (fold (\<lambda>y. ring_put (nth y)) ys v))) []"
proof -
  have "admissible_all (ring_room n m) xs ys" using assms(2,3)
    by (induction ys arbitrary: xs) (auto simp: ring_room_def)
  from ring.fifo_order [OF assms(1) this] show ?thesis by blast
qed

theorem lwmsgq_ring_fifo_witness:
  "fst (deq_many ring_get 2 (fold (\<lambda>y. ring_put (nth y)) [[7], [9]] (msgq_at 64 demo))) = [[7], [9]]"
  using lwmsgq_ring_fifo [OF demo_msgq(5), of "[[7], [9]]"] by (simp add: numeral_2_eq_2)

lemma msgq_at_andthen_check [simp]:
  "msgq_at q (state_of (andthen (sched_check_scheduler k) (\<lambda>a k'. Done (r a) (INT_ENABLE k')))) = msgq_at q k"
  "ready_tasks (state_of (andthen (sched_check_scheduler k) (\<lambda>a k'. Done (r a) (INT_ENABLE k')))) = ready_tasks k"
  "AUX_QUEUES (state_of (andthen (sched_check_scheduler k) (\<lambda>a k'. Done (r a) (INT_ENABLE k')))) = AUX_QUEUES k"
  by (auto simp: sched_check_scheduler_def sched_execute_scheduler_def Let_def msgq_at_def)

lemma wake_msgq_at [simp]: "msgq_at q (writer_wake q' i t k) = msgq_at q k" "msgq_at q (reader_wake q' i t k) = msgq_at q k"
  by (simp_all add: msgq_at_def writer_wake_def reader_wake_def)

lemma receive_take_result: "yields (\<lambda>r. r = (MQX_OK, fst (ring_get (msgq_at q k)))) (receive_take q k)"
  by (auto simp: receive_take_def split_beta Let_def intro: yields_andthen split: list.splits)

lemma receive_take_state:
  assumes "msgq_running idle q k"
  shows "msgq_at q (state_of (receive_take q k)) = snd (ring_get (msgq_at q k))"
    "AUX_QUEUES (state_of (receive_take q k)) (WAITING_WRITERS q) = tl (AUX_QUEUES k (WAITING_WRITERS q))"
    "AUX_QUEUES k (WAITING_WRITERS q) = t # ts \<Longrightarrow> t \<in> ready_tasks (state_of (receive_take q k))"
proof -
  have d: "distinct (AUX_QUEUES k (WAITING_WRITERS q))" "kinv k" "untimed q k"
    using assms by (simp_all add: msgq_running_def running_def kinv_def shape_def)
  show "msgq_at q (state_of (receive_take q k)) = snd (ring_get (msgq_at q k))"
    by (simp add: receive_take_def split_beta Let_def split: list.splits)
  let ?k = "upd_msgq q (\<lambda>_. snd (ring_get (msgq_at q k))) k"
  have w: "writer_wake q 0 t ?k = aux_wake (WAITING_WRITERS q) (\<lambda>d. d\<lparr>INFO := 0\<rparr>) t ?k"
    if "AUX_QUEUES k (WAITING_WRITERS q) = t # ts" for t ts
    by (rule writer_wake_aux) (use d that in simp_all)
  show "AUX_QUEUES (state_of (receive_take q k)) (WAITING_WRITERS q) = tl (AUX_QUEUES k (WAITING_WRITERS q))"
    using d(1) w by (cases "AUX_QUEUES k (WAITING_WRITERS q)") (simp_all add: receive_take_def split_beta Let_def)
  show "t \<in> ready_tasks (state_of (receive_take q k))" if "AUX_QUEUES k (WAITING_WRITERS q) = t # ts"
    using that d(2) w [OF that] aux_wake_ready [of ?k t "WAITING_WRITERS q"]
    by (simp add: receive_take_def split_beta Let_def)
qed

lemma send_deliver_state:
  assumes "running idle k"
  shows "msgq_at q (state_of (send_deliver q m flags k)) = ring_put m (msgq_at q k)"
    "AUX_QUEUES (state_of (send_deliver q m flags k)) (WAITING_READERS q) = tl (AUX_QUEUES k (WAITING_READERS q))"
    "AUX_QUEUES k (WAITING_READERS q) = t # ts \<Longrightarrow> t \<in> ready_tasks (state_of (send_deliver q m flags k))"
    "yields (\<lambda>r. r = MQX_OK) (send_deliver q m flags k)"
proof -
  have d: "distinct (AUX_QUEUES k (WAITING_READERS q))" "kinv k" "STATE (TDS k (ACTIVE_PTR k)) = READY"
    using assms by (simp_all add: running_def kinv_def shape_def top_active_def ready_tasks_def)
  have b: "msgq_at q (state_of (andthen (task_block x) (\<lambda>_ k2. Done MQX_OK (INT_ENABLE k2)))) = msgq_at q x"
    "AUX_QUEUES (state_of (andthen (task_block x) (\<lambda>_ k2. Done MQX_OK (INT_ENABLE k2)))) = AUX_QUEUES x"
    "ready_tasks (state_of (andthen (task_block x) (\<lambda>_ k2. Done MQX_OK (INT_ENABLE k2)))) - {ACTIVE_PTR x} = ready_tasks x - {ACTIVE_PTR x}" for x
    by (auto simp: task_block_def sched_execute_scheduler_def Let_def msgq_at_def ready_tasks_def)
  show "yields (\<lambda>r. r = MQX_OK) (send_deliver q m flags k)"
    unfolding send_deliver_def Let_def by (rule yields_andthen) simp
  show "msgq_at q (state_of (send_deliver q m flags k)) = ring_put m (msgq_at q k)"
    by (simp add: send_deliver_def Let_def b split: list.splits)
  show "AUX_QUEUES (state_of (send_deliver q m flags k)) (WAITING_READERS q) = tl (AUX_QUEUES k (WAITING_READERS q))"
    using d(1) by (cases "AUX_QUEUES k (WAITING_READERS q)") (simp_all add: send_deliver_def Let_def b reader_wake_def)
  show "t \<in> ready_tasks (state_of (send_deliver q m flags k))" if a: "AUX_QUEUES k (WAITING_READERS q) = t # ts"
  proof -
    let ?w = "reader_wake q 0 t (upd_msgq q (ring_put m) k)"
    have "t \<noteq> ACTIVE_PTR ?w" using ready_not_waiting [OF d(2,3), of "WAITING_READERS q"] a by (auto simp: reader_wake_def)
    moreover have "t \<in> ready_tasks ?w" using a d(2) aux_wake_ready [of "upd_msgq q (ring_put m) k" t] by (simp add: reader_wake_def)
    ultimately show ?thesis using a b(3) [of ?w] by (auto simp: send_deliver_def Let_def)
  qed
qed

text \<open>
  C7 (functional). What a valid queue that holds the messages \<open>xs\<close> does, called from a task. A send to a queue
  with room appends the message, returns \<^verbatim>\<open>MQX_OK\<close> and makes the first waiting reader ready; a send to a
  full queue without the blocking flag reports \<^verbatim>\<open>LWMSGQ_FULL\<close>. A receive from a non-empty queue hands out
  the oldest message, whatever happens while the receiver is switched out, and makes the first waiting
  writer ready; a receive from an empty queue without the blocking flag reports \<^verbatim>\<open>LWMSGQ_EMPTY\<close>.
\<close>

theorem lwmsgq_transfer:
  fixes flags ticks :: u32 and tick :: psp_tick and y :: "u32 list"
  assumes r: "msgq_running idle q k" and v: "msgq_valid q k" and x: "ring_rep n m (msgq_at q k) xs"
  defines "sent \<equiv> lwmsgq_send q (nth y) flags k" and "got \<equiv> lwmsgq_receive q flags ticks tick k"
  shows "(length xs < m \<and> length y = n \<longrightarrow>
      yields (\<lambda>c. c = MQX_OK) sent \<and> ring_rep n m (msgq_at q (state_of sent)) (xs @ [y]) \<and>
      (\<forall>t ts. AUX_QUEUES k (WAITING_READERS q) = t # ts \<longrightarrow>
         t \<in> ready_tasks (state_of sent) \<and> AUX_QUEUES (state_of sent) (WAITING_READERS q) = ts))
    \<and> (length xs = m \<and> flags AND LWMSGQ_SEND_BLOCK_ON_FULL = 0 \<longrightarrow>
      yields (\<lambda>c. c = LWMSGQ_FULL) sent \<and> ring_rep n m (msgq_at q (state_of sent)) xs)
    \<and> (\<forall>z zs. xs = z # zs \<longrightarrow>
      yields (\<lambda>c. c = (MQX_OK, z)) got \<and> ring_rep n m (msgq_at q (state_of got)) zs \<and>
      (\<forall>t ts. AUX_QUEUES k (WAITING_WRITERS q) = t # ts \<longrightarrow>
         t \<in> ready_tasks (state_of got) \<and> AUX_QUEUES (state_of got) (WAITING_WRITERS q) = ts))
    \<and> (xs = [] \<and> flags AND LWMSGQ_RECEIVE_BLOCK_ON_EMPTY = 0 \<longrightarrow>
      yields (\<lambda>c. c = (LWMSGQ_EMPTY, [])) got \<and> ring_rep n m (msgq_at q (state_of got)) [])"
    (is "?A \<and> ?B \<and> ?C \<and> ?D")
proof -
  let ?k = "INT_DISABLE k"
  have d: "msgq_running idle q ?k" "running idle ?k" "IN_ISR k = 0"
    using r by (simp_all add: msgq_running_def) (simp add: running_def)
  have c: "LWMSGQ_IS_FULL (msgq_at q k) \<longleftrightarrow> length xs = m" "LWMSGQ_IS_EMPTY (msgq_at q k) \<longleftrightarrow> xs = []"
    using x by (auto simp: LWMSGQ_IS_FULL_def LWMSGQ_IS_EMPTY_def ring_rep_def)
  have ?A
  proof (intro impI)
    assume a: "length xs < m \<and> length y = n"
    then have "sent = send_deliver q (nth y) flags ?k" using c v d by (simp add: sent_def lwmsgq_send_def Let_def)
    with a send_deliver_state [OF d(2), of q] ring_put_rep [OF x, of y]
    show "yields (\<lambda>c. c = MQX_OK) sent \<and> ring_rep n m (msgq_at q (state_of sent)) (xs @ [y]) \<and>
      (\<forall>t ts. AUX_QUEUES k (WAITING_READERS q) = t # ts \<longrightarrow>
         t \<in> ready_tasks (state_of sent) \<and> AUX_QUEUES (state_of sent) (WAITING_READERS q) = ts)"
      by (simp add: ring_room_def)
  qed
  moreover have ?B using x c v d by (auto simp: sent_def lwmsgq_send_def Let_def)
  moreover have ?C
  proof (intro allI impI)
    fix z zs assume a: "xs = z # zs"
    then have e: "got = receive_take q ?k" using c v d by (simp add: got_def lwmsgq_receive_def Let_def)
    have "yields (\<lambda>c. c = (MQX_OK, z)) got"
      using receive_take_result [of q ?k] ring_get_rep(1) x a unfolding e by (metis msgq_simps(1))
    then show "yields (\<lambda>c. c = (MQX_OK, z)) got \<and> ring_rep n m (msgq_at q (state_of got)) zs \<and>
      (\<forall>t ts. AUX_QUEUES k (WAITING_WRITERS q) = t # ts \<longrightarrow>
         t \<in> ready_tasks (state_of got) \<and> AUX_QUEUES (state_of got) (WAITING_WRITERS q) = ts)"
      using receive_take_state [OF d(1)] ring_get_rep(2) [of n m "msgq_at q k" z zs] x a unfolding e by simp
  qed
  moreover have ?D using x c v d by (auto simp: got_def lwmsgq_receive_def Let_def)
  ultimately show ?thesis by blast
qed

theorem lwmsgq_transfer_witness:
  "ring_rep 1 2 (msgq_at 64 (state_of (lwmsgq_send 64 (nth [7]) 0 demo))) [[7]]"
  using lwmsgq_transfer [OF demo_msgq(1,2,5), of "[7]" 0] by simp

subsection \<open>Removal\<close>

lemma deinit_writers_info:
  "distinct ts \<Longrightarrow> INFO (TDS (deinit_writers q ts k) t) = (if t \<in> set ts then LWMSGQ_DEINIT_INFO else INFO (TDS k t))"
proof (induction ts arbitrary: k)
  case (Cons x ts)
  then show ?case by (auto simp: writer_wake_def)
qed simp

lemma deinit_readers_info:
  "distinct ts \<Longrightarrow> INFO (TDS (deinit_readers q ts k) t) = (if t \<in> set ts then LWMSGQ_DEINIT_INFO else INFO (TDS k t))"
proof (induction ts arbitrary: k)
  case (Cons x ts)
  then show ?case by (auto simp: reader_wake_def aux_wake_def)
qed simp

lemma receive_wait_deinit:
  assumes "LWMSGQ_IS_EMPTY (msgq_at q k)" "lwmsgq_receive q flags ticks tick k = Susp k1 c"
    "INFO (TDS k2 (ACTIVE_PTR k)) = LWMSGQ_DEINIT_INFO"
  shows "c k2 = Done (LWMSGQ_DEINIT, []) (INT_ENABLE k2)"
  using assms by (auto simp: lwmsgq_receive_def Let_def receive_wait.code [of q flags ticks tick "ACTIVE_PTR k" "INT_DISABLE k"]
      receive_woken_def split: if_splits)

lemma send_wait_deinit:
  assumes "LWMSGQ_IS_FULL (msgq_at q k)" "lwmsgq_send q message flags k = Susp k1 c"
    "INFO (TDS k2 (ACTIVE_PTR k)) = LWMSGQ_DEINIT_INFO"
  shows "c k2 = Done LWMSGQ_DEINIT (INT_ENABLE k2)"
  using assms by (auto simp: lwmsgq_send_def Let_def send_wait_first split: if_splits)

text \<open>
  Fact. Removing a queue releases everybody: it becomes invalid and leaves the kernel's list, every task
  that waited to read or to write is ready and marked, and a call that was switched out on an
  empty or a full queue returns \<^verbatim>\<open>LWMSGQ_DEINIT\<close> if its task is marked so when it runs again.
\<close>

theorem lwmsgq_deinit_releases:
  assumes r: "msgq_running idle q k" and l: "q \<in> set (LWMSGQ_LIST (OBJ k))"
  defines "k' \<equiv> state_of (lwmsgq_deinit q k)"
  shows "\<not> msgq_valid q k' \<and> q \<notin> set (LWMSGQ_LIST (OBJ k'))
    \<and> AUX_QUEUES k' (WAITING_READERS q) = [] \<and> AUX_QUEUES k' (WAITING_WRITERS q) = []
    \<and> (\<forall>t \<in> set (AUX_QUEUES k (WAITING_READERS q)) \<union> set (AUX_QUEUES k (WAITING_WRITERS q)).
         t \<in> ready_tasks k' \<and> INFO (TDS k' t) = LWMSGQ_DEINIT_INFO)
    \<and> (\<forall>k1 k2 c. LWMSGQ_IS_EMPTY (msgq_at q k1) \<and> lwmsgq_receive q flags ticks tick k1 = Susp k2 c \<longrightarrow>
         (\<forall>k3. INFO (TDS k3 (ACTIVE_PTR k1)) = LWMSGQ_DEINIT_INFO \<longrightarrow> c k3 = Done (LWMSGQ_DEINIT, []) (INT_ENABLE k3)))
    \<and> (\<forall>k1 k2 c. LWMSGQ_IS_FULL (msgq_at q k1) \<and> lwmsgq_send q message flags k1 = Susp k2 c \<longrightarrow>
         (\<forall>k3. INFO (TDS k3 (ACTIVE_PTR k1)) = LWMSGQ_DEINIT_INFO \<longrightarrow> c k3 = Done LWMSGQ_DEINIT (INT_ENABLE k3)))"
proof -
  let ?k = "upd_msgq q (\<lambda>v. v\<lparr>MSGQ_VALID := LWMSGQ_VALID - 1\<rparr>) (INT_DISABLE k)"
  let ?w = "deinit_writers q (AUX_QUEUES ?k (WAITING_WRITERS q)) ?k"
  let ?r = "deinit_readers q (AUX_QUEUES ?w (WAITING_READERS q)) ?w"
  have u: "unsettled idle ?k" "untimed q ?k" "distinct (AUX_QUEUES k q')" for q'
    using r by (simp_all add: msgq_running_def running_unsettled) (simp add: running_def kinv_def shape_def)
  note w = deinit_writers_unsettled [OF u(1,2) refl]
  then have "unsettled idle ?w" "AUX_QUEUES ?w (WAITING_WRITERS q) = []" by blast+
  note d = deinit_readers_unsettled [OF this(1) refl this(2)]
  have o: "OBJ ?r = OBJ ?k"
  proof -
    have "OBJ (deinit_readers q ts x) = OBJ x" for ts x by (induction ts arbitrary: x) (simp_all add: reader_wake_def)
    with w show ?thesis by simp
  qed
  let ?e = "?r\<lparr>OBJ := (OBJ ?r)\<lparr>LWMSGQ_LIST := removeAll q (LWMSGQ_LIST (OBJ ?r))\<rparr>\<rparr>"
  have k': "k' = state_of (andthen (sched_check_scheduler ?e) (\<lambda>_ k6. Done MQX_OK (INT_ENABLE k6)))"
    using l by (simp add: k'_def lwmsgq_deinit_def lwmsgq_deinit_internal_def Let_def)
  have f: "OBJ k' = OBJ ?e" "AUX_QUEUES k' = AUX_QUEUES ?e" "ready_tasks k' = ready_tasks ?r" "INFO (TDS k' t) = INFO (TDS ?r t)" for t
    unfolding k' by (simp_all add: sched_check_scheduler_def sched_execute_scheduler_def Let_def)
  have "\<not> msgq_valid q k' \<and> q \<notin> set (LWMSGQ_LIST (OBJ k'))"
    using o by (simp add: f msgq_valid_def msgq_at_def upd_msgq_def)
  moreover have "t \<in> ready_tasks k' \<and> INFO (TDS k' t) = LWMSGQ_DEINIT_INFO"
    if "t \<in> set (AUX_QUEUES k (WAITING_READERS q)) \<union> set (AUX_QUEUES k (WAITING_WRITERS q))" for t
    using that w d u(3) by (auto simp: f deinit_writers_info deinit_readers_info)
  moreover have "AUX_QUEUES k' (WAITING_READERS q) = []" "AUX_QUEUES k' (WAITING_WRITERS q) = []" using d by (simp_all add: f)
  moreover have "c k3 = Done (LWMSGQ_DEINIT, []) (INT_ENABLE k3)" if "LWMSGQ_IS_EMPTY (msgq_at q k1)"
    "lwmsgq_receive q flags ticks tick k1 = Susp k2 c" "INFO (TDS k3 (ACTIVE_PTR k1)) = LWMSGQ_DEINIT_INFO" for k1 k2 k3 c
    by (rule receive_wait_deinit) (use that in auto)
  moreover have "c k3 = Done LWMSGQ_DEINIT (INT_ENABLE k3)" if "LWMSGQ_IS_FULL (msgq_at q k1)"
    "lwmsgq_send q message flags k1 = Susp k2 c" "INFO (TDS k3 (ACTIVE_PTR k1)) = LWMSGQ_DEINIT_INFO" for k1 k2 k3 c
    by (rule send_wait_deinit) (use that in auto)
  ultimately show ?thesis by blast
qed

definition demo_msgqs :: kernel where
  "demo_msgqs = demo\<lparr>OBJ := (OBJ demo)\<lparr>LWMSGQ_LIST := [64]\<rparr>\<rparr>"

theorem lwmsgq_deinit_releases_witness:
  "\<not> msgq_valid 64 (state_of (lwmsgq_deinit 64 demo_msgqs))"
proof -
  have "msgq_running 100 64 demo_msgqs" "64 \<in> set (LWMSGQ_LIST (OBJ demo_msgqs))"
    using demo_msgq by (simp_all add: demo_msgqs_def msgq_running_def)
  from lwmsgq_deinit_releases [OF this] show ?thesis by blast
qed

subsection \<open>A second wait of a sender\<close>

text \<open>
  C30 (safety). A sender that blocks on a full queue is switched out in a running state. If it is woken and the
  queue is full again by the time it runs (a task of higher priority refilled it), it waits a second
  time with the task state still \<^verbatim>\<open>READY\<close>: \<^verbatim>\<open>STATE\<close> is assigned before the loop only. The kernel then has a
  task that is marked ready, sits in the queue of waiting writers and is in no ready queue, so the task
  state no longer tells where the task is.
\<close>

theorem lwmsgq_send_second_wait:
  fixes message :: "nat \<Rightarrow> u32"
  assumes r: "msgq_running idle q k" and v: "msgq_valid q k" and f: "LWMSGQ_IS_FULL (msgq_at q k)"
    and b: "flags AND LWMSGQ_SEND_BLOCK_ON_FULL \<noteq> 0" and a: "ACTIVE_PTR k = t" "t \<noteq> idle"
    and k2: "msgq_running idle q k2" "ACTIVE_PTR k2 = t" "LWMSGQ_IS_FULL (msgq_at q k2)" "INFO (TDS k2 t) \<noteq> LWMSGQ_DEINIT_INFO"
  shows "\<exists>k1 c k3 c'. lwmsgq_send q message flags k = Susp k1 c \<and> msgq_running idle q k1 \<and>
    c k2 = Susp k3 c' \<and> STATE (TDS k3 t) = READY \<and> t \<in> set (AUX_QUEUES k3 (WAITING_WRITERS q)) \<and>
    (\<forall>p. t \<notin> set (READY_Q k3 p)) \<and> \<not> kinv k3"
proof -
  let ?k1 = "switch_task (aux_block LWMSGQ_WRITE_BLOCKED (WAITING_WRITERS q) t (INT_DISABLE k))"
  let ?c = "\<lambda>k'. andthen (if INFO (TDS k' t) = LWMSGQ_DEINIT_INFO then Done LWMSGQ_DEINIT k' else send_wait q t k')
     (\<lambda>r k2. if r \<noteq> MQX_OK then Done r (INT_ENABLE k2) else send_deliver q message flags k2)"
  have i: "IN_ISR k = 0" using r by (simp add: msgq_running_def running_def)
  have "lwmsgq_send q message flags k = Susp ?k1 ?c"
    using a f v b i by (simp add: lwmsgq_send_def Let_def send_wait_first)
  moreover have "msgq_running idle q ?k1"
    using send_block_switch [of idle q "INT_DISABLE k"] r a by (simp add: msgq_running_def)
  moreover obtain c' where "?c k2 = Susp (switch_task (send_block q t k2)) c'"
    using k2(3,4) by (simp add: send_wait.code [of q t k2])
  moreover have "STATE (TDS k2 t) = READY" using k2(1,2) by (simp add: msgq_running_def running_def top_active_def ready_tasks_def)
  moreover from this have "\<not> kinv (switch_task (send_block q t k2))"
    using ready_not_waiting [of "switch_task (send_block q t k2)" t "WAITING_WRITERS q"] by (auto simp: send_block_def)
  ultimately show ?thesis
    by (intro exI [of _ ?k1] exI [of _ ?c] exI [of _ "switch_task (send_block q t k2)"] exI [of _ c'])
      (simp add: send_block_def UNLINK_READY_def AUX_ENQUEUE_def)
qed

definition demo_msgq_full :: kernel where
  "demo_msgq_full = upd_msgq 64 (\<lambda>v. v\<lparr>CURRENT_SIZE := 2\<rparr>) demo"

theorem lwmsgq_send_second_wait_witness:
  "\<exists>k1 c k3 c'. lwmsgq_send 64 (nth [7]) 1 demo_msgq_full = Susp k1 c \<and> c demo_msgq_full = Susp k3 c' \<and> \<not> kinv k3"
proof -
  have d: "msgq_running 100 64 demo_msgq_full" "ACTIVE_PTR demo_msgq_full = 200"
    using demo_msgq by (simp_all add: demo_msgq_full_def msgq_running_def)
  moreover have "msgq_valid 64 demo_msgq_full" "LWMSGQ_IS_FULL (msgq_at 64 demo_msgq_full)"
    "INFO (TDS demo_msgq_full 200) \<noteq> LWMSGQ_DEINIT_INFO"
    using demo_msgq by (simp_all add: demo_msgq_full_def msgq_valid_def LWMSGQ_IS_FULL_def ring_rep_def)
      (simp add: demo_def mk_td_def)
  ultimately show ?thesis
    using lwmsgq_send_second_wait [of 100 64 demo_msgq_full 1 200 demo_msgq_full "nth [7]"] by auto
qed

end
