(* ===== verification/Kernel_System.thy ===== *)
theory Kernel_System
  imports Lwsem Task_Queue Lwevent Lwmsgq
begin

unbundle bit_operations_syntax

text \<open>
  The kernel as a system: tasks call kernel functions, are switched out in the middle of them and go on
  later, timer interrupts and interrupts that post semaphores come in between. Every reachable
  state satisfies the kernel invariant and has a best ready task active. The calls are those of \<open>kcall\<close> under
  the conditions of \<open>allowed\<close>: mutexes, sends that wait for room, receives, creation of objects that tasks wait
  for and disabling of preemption are not among them.
\<close>

subsection \<open>Priority changes\<close>

lemma requeue_unsettled:
  assumes u: "unsettled idle k" and t: "t \<in> set (TD_LIST k)"
  shows "unsettled idle (requeue_by_priority t k)"
proof (cases "STATE (TDS k t) = TASK_QUEUE_BLOCKED")
  case True
  let ?q = "INFO (TDS k t)"
  let ?k = "TDQ_SET ?q (removeAll t (TD_QUEUES k ?q)) k"
  have k: "kinv k" using u by (simp add: unsettled_def)
  have "placed k t" using k by (simp add: kinv_def)
  then have "t \<in> set (TD_QUEUES k ?q)" unfolding placed_def using True t by auto
  then have f: "floating t ?k" by (rule TDQ_remove_floating [OF k])
  then have n: "t \<notin> set (TD_QUEUES ?k ?q)" "distinct (TD_QUEUES ?k ?q)"
    unfolding floating_def nowhere_def shape_def by blast+
  have "kinv (sched_insert_priorityq ?q t ?k)" unfolding sched_insert_priorityq_def
    by (rule TDQ_enqueue_kinv [OF f]) (use n True in simp_all)
  then have "unsettled idle (sched_insert_priorityq ?q t ?k)" using u by (simp add: unsettled_def sched_insert_priorityq_def)
  then show ?thesis using u by (simp add: requeue_by_priority_def Let_def)
next
  case False
  then show ?thesis using u by (simp add: requeue_by_priority_def Let_def)
qed

lemma sched_set_priority_keeps_td:
  assumes u: "unsettled idle k" and t: "t \<in> set (TD_LIST k)" and p: "new_priority < priority_levels k"
  shows "keeps (running idle) (\<lambda>k'. unsettled idle k' \<and> t \<in> set (TD_LIST k')) (resumes (ACTIVE_PTR k))
    (sched_set_priority t new_priority k)"
proof -
  let ?k2 = "TASK_READY t (UNLINK_READY t (upd_td t (\<lambda>d. d\<lparr>MY_QUEUE := new_priority\<rparr>) k))"
  have act: "running idle k' \<Longrightarrow> ACTIVE_PTR k' \<in> set (TD_LIST k')" for k'
    by (simp add: running_def top_active_def ready_tasks_def)
  have "keeps (running idle) (unsettled idle) (resumes (ACTIVE_PTR k)) (sched_set_priority t new_priority k)"
    by (rule sched_set_priority_keeps [OF u t p])
  then show ?thesis
    using t by (auto simp: sched_set_priority_def Let_def sched_execute_scheduler_def resumes_def dest: act split: if_splits)
qed

lemma task_set_priority_keeps:
  assumes r: "running idle k" and t: "task_get_td task_id k \<in> {NULL} \<union> set (TD_LIST k)"
  shows "keeps (running idle) (running idle) (resumes (ACTIVE_PTR k)) (task_set_priority task_id new_priority k)"
proof (cases "new_priority > LOWEST_TASK_PRIORITY k \<or> task_get_td task_id k = NULL")
  case True
  then show ?thesis using r by (auto simp: task_set_priority_def)
next
  case False
  let ?t = "task_get_td task_id k"
  let ?k = "upd_td ?t (\<lambda>d. d\<lparr>HOME_QUEUE := new_priority\<rparr>) (INT_DISABLE k)"
  let ?D = "\<lambda>k'. unsettled idle k' \<and> ?t \<in> set (TD_LIST k')"
  have pl: "new_priority < priority_levels k" using False by (simp add: priority_levels_def)
  have u: "unsettled idle ?k" and tl: "?t \<in> set (TD_LIST ?k)" and p: "new_priority < priority_levels ?k"
    using r t False pl by (auto simp: running_upd running_unsettled)
  have a: "ACTIVE_PTR ?k = ACTIVE_PTR k" by simp
  have "keeps (running idle) ?D (resumes (ACTIVE_PTR k))
      (if BOOSTED (TDS ?k ?t) \<noteq> 0
       then if new_priority < MY_QUEUE (TDS ?k ?t) then sched_set_priority ?t new_priority ?k else Done () ?k
       else sched_set_priority ?t new_priority ?k)"
    using sched_set_priority_keeps_td [OF u tl p] u tl unfolding a by simp
  then have "keeps (running idle) (running idle) (resumes (ACTIVE_PTR k))
     (andthen (if BOOSTED (TDS ?k ?t) \<noteq> 0
       then if new_priority < MY_QUEUE (TDS ?k ?t) then sched_set_priority ?t new_priority ?k else Done () ?k
       else sched_set_priority ?t new_priority ?k)
      (\<lambda>_ k3. andthen (sched_check_scheduler (requeue_by_priority ?t k3))
                (\<lambda>_ k4. Done (MQX_OK, Some (HOME_QUEUE (TDS (INT_DISABLE k) ?t))) (INT_ENABLE k4))))"
    by (rule keeps_andthen) (intro keeps_andthen [OF check_keeps], auto simp: requeue_unsettled)
  then show ?thesis using False by (simp add: task_set_priority_def Let_def)
qed

lemma task_ready_keeps:
  assumes r: "running idle k" and t: "t \<in> set (TD_LIST k)"
    and s: "STATE (TDS k t) \<noteq> READY \<Longrightarrow> STATE (TDS k t) AND IS_ON_TIMEOUT_Q = 0 \<and>
      STATE (TDS k t) AND TD_IS_ON_QUEUE = 0 \<and> STATE (TDS k t) AND TD_IS_ON_AUX_QUEUE = 0"
  shows "keeps (running idle) (running idle) R (task_ready t k)"
proof (cases "STATE (TDS k t) = READY")
  case True
  then show ?thesis using r by (simp add: task_ready_def Let_def)
next
  case False
  let ?k = "INT_DISABLE k"
  have "nowhere t ?k" using False s r by (simp add: running_def kinv_def placed_def nowhere_def)
  then have "kinv (TASK_READY t ?k)" using r t by (intro TASK_READY_kinv kinv_upd_floating) (simp_all add: running_def)
  then have "unsettled idle (TASK_READY t ?k)"
    using r t by (simp add: unsettled_def running_def top_active_def ready_tasks_TASK_READY)
  then show ?thesis using False r by (auto simp: task_ready_def Let_def intro: check_keeps)
qed

lemma time_delay_keeps:
  assumes r: "running idle k" and a: "ACTIVE_PTR k \<noteq> idle"
  shows "keeps (running idle) (running idle) R (time_delay ms k)"
    "keeps (running idle) (running idle) R (time_delay_ticks n k)"
    "keeps (running idle) (running idle) R (time_delay_for tk k)"
    "keeps (running idle) (running idle) R (time_delay_until tk k)"
proof -
  have q: "running idle (k\<lparr>QUICK := x\<rparr>)" for x
    using running_same(1) [of k "k\<lparr>QUICK := x\<rparr>" idle] r by (simp add: same_queues_def)
  show "keeps (running idle) (running idle) R (time_delay ms k)"
    using r q a by (simp add: time_delay_def sched_yield_keeps delay_active_keeps Let_def split: prod.splits)
  show "keeps (running idle) (running idle) R (time_delay_ticks n k)"
    using r a by (simp add: time_delay_ticks_def sched_yield_keeps delay_active_keeps)
  show "keeps (running idle) (running idle) R (time_delay_for tk k)"
    using r a by (simp add: time_delay_for_def delay_active_keeps split: option.splits)
  show "keeps (running idle) (running idle) R (time_delay_until tk k)"
    using r a by (simp add: time_delay_until_def delay_active_keeps split: option.splits)
qed

subsection \<open>The system\<close>

datatype kcall =
    LwsemCreate addr int | LwsemCreateHidden addr int | LwsemPost addr | LwsemPoll addr | LwsemDestroy addr
  | LwsemWait addr | LwsemWaitFor addr psp_tick | LwsemWaitTicks addr u32 | LwsemWaitUntil addr psp_tick
  | TaskqCreate u32 addr | TaskqSuspend addr | TaskqSuspendTask u32 addr | TaskqResume addr bool
  | TaskqDestroy "kernel \<Rightarrow> kernel" addr
  | Yield | Delay u32 | DelayTicks u32 | DelayFor "psp_tick option" | DelayUntil "psp_tick option"
  | SetPriority u32 nat
  | LweventCreate addr u32 | LweventSet addr u32 | LweventClear addr u32 | LweventSetAutoClear addr u32 | LweventDestroy addr | LweventWaitTicks addr u32 bool u32
  | LweventWaitFor addr u32 bool "psp_tick option" | LweventWaitUntil addr u32 bool "psp_tick option"
  | LwmsgqSend addr "nat \<Rightarrow> u32" u32

definition code_of :: "('k, 'a) prog \<Rightarrow> ('a \<Rightarrow> u32) \<Rightarrow> ('k, u32) prog" where
  "code_of p f = andthen p (\<lambda>a k. Done (f a) k)"

fun exec :: "kcall \<Rightarrow> kernel \<Rightarrow> (kernel, u32) prog" where
  "exec (LwsemCreate s n) k = (let (r, k') = lwsem_create s n k in Done r k')"
| "exec (LwsemCreateHidden s n) k = (let (r, k') = lwsem_create_hidden s n k in Done r k')"
| "exec (LwsemPost s) k = lwsem_post s k"
| "exec (LwsemPoll s) k = (let (b, k') = lwsem_poll s k in Done (of_bool b) k')"
| "exec (LwsemDestroy s) k = lwsem_destroy s k"
| "exec (LwsemWait s) k = lwsem_wait s k"
| "exec (LwsemWaitFor s tk) k = lwsem_wait_for s tk k"
| "exec (LwsemWaitTicks s n) k = lwsem_wait_ticks s n k"
| "exec (LwsemWaitUntil s tk) k = lwsem_wait_until s tk k"
| "exec (TaskqCreate p q) k = (let (r, k') = taskq_create p q k in Done (of_nat r) k')"
| "exec (TaskqSuspend q) k = taskq_suspend q k"
| "exec (TaskqSuspendTask i q) k = taskq_suspend_task i q k"
| "exec (TaskqResume q a) k = taskq_resume q a k"
| "exec (TaskqDestroy W q) k = taskq_destroy W q k"
| "exec Yield k = code_of (sched_yield k) (\<lambda>_. 0)"
| "exec (Delay ms) k = code_of (time_delay ms k) (\<lambda>_. 0)"
| "exec (DelayTicks n) k = code_of (time_delay_ticks n k) (\<lambda>_. 0)"
| "exec (DelayFor tk) k = code_of (time_delay_for tk k) (\<lambda>_. 0)"
| "exec (DelayUntil tk) k = code_of (time_delay_until tk k) (\<lambda>_. 0)"
| "exec (SetPriority i p) k = code_of (task_set_priority i p k) fst"
| "exec (LweventCreate e f) k = (let (r, k') = lwevent_create e f k in Done r k')"
| "exec (LweventSetAutoClear e m) k = (let (r, k') = lwevent_set_auto_clear e m k in Done r k')"
| "exec (LweventSet e m) k = lwevent_set e m k"
| "exec (LweventClear e m) k = (let (r, k') = lwevent_clear e m k in Done r k')"
| "exec (LweventDestroy e) k = lwevent_destroy e k"
| "exec (LweventWaitTicks e m all n) k = lwevent_wait_ticks e m all n k"
| "exec (LweventWaitFor e m all tk) k = lwevent_wait_for e m all tk k"
| "exec (LweventWaitUntil e m all tk) k = lwevent_wait_until e m all tk k"
| "exec (LwmsgqSend q msg flags) k = lwmsgq_send q msg flags k"

text \<open>What the callers respect: the idle task is never blocked, the task numbers used name tasks of the
  system or nothing, messages are sent without waiting for room, an object is created where no task
  waits, and what happens between the rounds of \<^verbatim>\<open>_taskq_destroy\<close> is a proper window.\<close>

fun allowed :: "addr \<Rightarrow> kcall \<Rightarrow> kernel \<Rightarrow> bool" where
  "allowed idle (LwsemCreate s n) k = (sem_waiters s k = [])"
| "allowed idle (LwsemCreateHidden s n) k = (sem_waiters s k = [])"
| "allowed idle (TaskqCreate p q) k = (TD_QUEUES k (TASKQ_TDS q) = [])"
| "allowed idle (LweventCreate e f) k = (ev_waiters e k = [])"
| "allowed idle (LweventSetAutoClear e m) k = True"
| "allowed idle (LwsemPost s) k = True"
| "allowed idle (LwsemPoll s) k = True"
| "allowed idle (LwsemDestroy s) k = True"
| "allowed idle (TaskqResume q a) k = True"
| "allowed idle (TaskqDestroy W q) k = window_ok idle (TASKQ_TDS q) W"
| "allowed idle Yield k = True"
| "allowed idle (TaskqSuspendTask i q) k = (task_get_td i k \<in> {NULL} \<union> (set (TD_LIST k) - {idle}))"
| "allowed idle (SetPriority i p) k = (task_get_td i k \<in> {NULL} \<union> set (TD_LIST k))"
| "allowed idle (LweventSet e m) k = True"
| "allowed idle (LweventClear e m) k = True"
| "allowed idle (LweventDestroy e) k = True"
| "allowed idle (LwmsgqSend q msg flags) k =
     (flags AND LWMSGQ_SEND_BLOCK_ON_FULL = 0 \<and> (flags AND LWMSGQ_SEND_BLOCK_ON_SEND \<noteq> 0 \<longrightarrow> ACTIVE_PTR k \<noteq> idle))"
| "allowed idle c k = (ACTIVE_PTR k \<noteq> idle)"

record system =
  KERNEL :: kernel
  RESTS :: "addr \<Rightarrow> (kernel \<Rightarrow> (kernel, u32) prog) option"

text \<open>The active task runs a stretch of code: it ends or is switched out with the rest of its call.\<close>

definition run_stretch :: "addr \<Rightarrow> (kernel, u32) prog \<Rightarrow> system \<Rightarrow> system" where
  "run_stretch t p \<sigma> =
     (case p of Done r k \<Rightarrow> \<sigma>\<lparr>KERNEL := k, RESTS := (RESTS \<sigma>)(t := None)\<rparr>
      | Susp k c \<Rightarrow> \<sigma>\<lparr>KERNEL := k, RESTS := (RESTS \<sigma>)(t := Some c)\<rparr>)"

inductive sys_step :: "addr \<Rightarrow> system \<Rightarrow> system \<Rightarrow> bool" for idle :: addr where
  call: "RESTS \<sigma> t = None \<Longrightarrow> t = ACTIVE_PTR (KERNEL \<sigma>) \<Longrightarrow> allowed idle c (KERNEL \<sigma>) \<Longrightarrow>
         sys_step idle \<sigma> (run_stretch t (exec c (KERNEL \<sigma>)) \<sigma>)"
| continue: "RESTS \<sigma> t = Some rest \<Longrightarrow> t = ACTIVE_PTR (KERNEL \<sigma>) \<Longrightarrow>
         sys_step idle \<sigma> (run_stretch t (rest (KERNEL \<sigma>)) \<sigma>)"
| tick: "FLAGS (active_td (KERNEL \<sigma>)) AND TASK_PREEMPTION_DISABLED = 0 \<Longrightarrow>
         sys_step idle \<sigma> (\<sigma>\<lparr>KERNEL := isr_exit (time_notify_kernel hw (isr_enter (KERNEL \<sigma>)))\<rparr>)"
| isr_post: "FLAGS (active_td (KERNEL \<sigma>)) AND TASK_PREEMPTION_DISABLED = 0 \<Longrightarrow>
         sys_step idle \<sigma> (\<sigma>\<lparr>KERNEL := isr_exit (state_of (lwsem_post s (isr_enter (KERNEL \<sigma>))))\<rparr>)"

inductive reachable :: "addr \<Rightarrow> system \<Rightarrow> system \<Rightarrow> bool" for idle :: addr and \<sigma>0 :: system where
  start: "reachable idle \<sigma>0 \<sigma>0"
| step: "reachable idle \<sigma>0 \<sigma> \<Longrightarrow> sys_step idle \<sigma> \<sigma>' \<Longrightarrow> reachable idle \<sigma>0 \<sigma>'"

subsection \<open>The system invariant\<close>

definition sys_inv :: "addr \<Rightarrow> system \<Rightarrow> bool" where
  "sys_inv idle \<sigma> \<longleftrightarrow> running idle (KERNEL \<sigma>) \<and>
     (\<forall>t rest k. RESTS \<sigma> t = Some rest \<longrightarrow> running idle k \<longrightarrow> ACTIVE_PTR k = t \<longrightarrow>
        keeps (running idle) (running idle) (resumes t) (rest k))"

lemma code_of_keeps:
  "keeps (running idle) (running idle) R p \<Longrightarrow> keeps (running idle) (running idle) R (code_of p f)"
  unfolding code_of_def by (rule keeps_andthen) simp_all

lemma exec_keeps:
  assumes "running idle k" "allowed idle c k"
  shows "keeps (running idle) (running idle) (resumes (ACTIVE_PTR k)) (exec c k)"
proof (cases c)
  case (LwsemCreate s n)
  then show ?thesis using assms lwsem_create_running [of idle k s n False] by (simp add: split_beta Let_def lwsem_create_def)
next
  case (LwsemCreateHidden s n)
  then show ?thesis using assms lwsem_create_running [of idle k s n True]
    by (simp add: split_beta Let_def lwsem_create_hidden_def)
next
  case (TaskqCreate p q)
  then show ?thesis using assms taskq_create_running [of idle k q p] by (simp add: split_beta Let_def)
next
  case (LweventCreate e f)
  then show ?thesis using assms lwevent_create_running [of idle k e f] by (simp add: split_beta Let_def)
next
  case (LweventSetAutoClear e m)
  have "running idle (snd (lwevent_set_auto_clear e m k))" using assms by (simp add: lwevent_set_auto_clear_def Let_def)
  then show ?thesis using LweventSetAutoClear by (simp add: split_beta Let_def)
next
  case (LwsemPoll s)
  have "running idle (snd (lwsem_poll s k))" using assms by (simp add: lwsem_poll_def Let_def)
  then show ?thesis using LwsemPoll by (simp add: split_beta Let_def)
next
  case (LweventClear e m)
  have "running idle (snd (lwevent_clear e m k))" using assms by (simp add: lwevent_clear_def Let_def)
  then show ?thesis using LweventClear by (simp add: split_beta Let_def)
qed (use assms in \<open>simp_all add: lwsem_post_keeps lwsem_destroy_keeps lwsem_wait_def lwsem_wait_for_def lwsem_wait_ticks_def
        lwsem_wait_until_def lwsem_wait_with_keeps wait_blocked_keeps wait_until_timeout_keeps taskq_resume_keeps
        taskq_destroy_keeps taskq_suspend_keeps taskq_suspend_task_keeps code_of_keeps sched_yield_keeps
        time_delay_keeps task_set_priority_keeps lwevent_set_keeps lwevent_destroy_keeps lwevent_wait_for_def
        lwevent_wait_until_def lwevent_wait_ticks_def lwevent_wait_keeps lwmsgq_send_running\<close>)

lemma run_stretch_inv:
  assumes "sys_inv idle \<sigma>" "keeps (running idle) (running idle) (resumes t) p"
  shows "sys_inv idle (run_stretch t p \<sigma>)"
  using assms by (cases p) (auto simp: sys_inv_def run_stretch_def resumes_def)

lemma isr_post_inv:
  assumes r: "running idle k" and f: "FLAGS (active_td k) AND TASK_PREEMPTION_DISABLED = 0"
  shows "running idle (isr_exit (state_of (lwsem_post s (isr_enter k))))"
proof -
  let ?e = "isr_enter k"
  have e: "kinv ?e" "ACTIVE_PTR ?e \<in> ready_tasks ?e" "\<not> STUCK ?e" "IN_ISR ?e = 1" "idle \<in> ready_tasks ?e"
    "FLAGS (active_td ?e) AND TASK_PREEMPTION_DISABLED = 0"
    using r f by (simp_all add: isr_enter_def running_def top_active_def kinv_def shape_def placed_def ready_tasks_def active_td_def)
  let ?h = "hd (sem_waiters s ?e)"
  let ?w = "aux_wake (TD_QUEUE s) (\<lambda>d. d\<lparr>INFO := 0\<rparr>) ?h (INT_DISABLE ?e)"
  let ?P = "\<lambda>x. kinv x \<and> ACTIVE_PTR x \<in> ready_tasks x \<and> \<not> STUCK x \<and> IN_ISR x = 1 \<and> idle \<in> ready_tasks x
    \<and> FLAGS (active_td x) AND TASK_PREEMPTION_DISABLED = 0"
  have w: "?P ?w" if "sem_waiters s ?e \<noteq> []"
  proof -
    have h: "?h \<in> set (AUX_QUEUES (INT_DISABLE ?e) (TD_QUEUE s))" using that by (simp add: sem_waiters_def)
    have "kinv ?w" using aux_wake_kinv [OF _ h] e by simp
    moreover have "ready_tasks ?w = insert ?h (ready_tasks ?e)" using aux_wake_ready [OF _ h] e by simp
    moreover have "FLAGS (TDS ?w x) = FLAGS (TDS ?e x)" for x
      by (simp add: aux_wake_def TIME_DEQUEUE_def)
    ultimately show ?thesis using e by (simp add: active_td_def)
  qed
  have "?P (state_of (lwsem_post s ?e))"
  proof (cases "sem_valid s ?e \<and> sem_value s ?e \<ge> 0 \<and> sem_waiters s ?e \<noteq> []")
    case True
    then have "state_of (lwsem_post s ?e) = INT_ENABLE ?w"
      using w by (simp add: lwsem_post_def Let_def sched_check_scheduler_def)
    then show ?thesis using w True by (simp add: active_td_def)
  next
    case False
    then show ?thesis using e
      by (auto simp: lwsem_post_def Let_def active_td_def ready_tasks_def)
  qed
  then show ?thesis by (intro isr_exit_running) simp_all
qed

lemma sys_step_inv:
  assumes inv: "sys_inv idle \<sigma>" and step: "sys_step idle \<sigma> \<sigma>'"
  shows "sys_inv idle \<sigma>'"
proof -
  have r: "running idle (KERNEL \<sigma>)" using inv by (simp add: sys_inv_def)
  from step show ?thesis
  proof (cases rule: sys_step.cases)
    case (call t c)
    then show ?thesis using run_stretch_inv [OF inv, of t] exec_keeps [OF r, of c] by simp
  next
    case (continue t rest)
    then show ?thesis using run_stretch_inv [OF inv, of t] inv r by (simp add: sys_inv_def [of _ \<sigma>])
  next
    case (tick hw)
    from tick_running [OF r tick(2)] tick(1) inv show ?thesis by (simp add: sys_inv_def)
  next
    case (isr_post s)
    from isr_post_inv [OF r isr_post(2)] isr_post(1) inv show ?thesis by (simp add: sys_inv_def)
  qed
qed

lemma reachable_inv: "reachable idle \<sigma>0 \<sigma> \<Longrightarrow> sys_inv idle \<sigma>0 \<Longrightarrow> sys_inv idle \<sigma>"
  by (induction rule: reachable.induct) (simp_all add: sys_step_inv)

text \<open>
  C1 (safety). The scheduler's guarantee for a system of tasks that make the calls of \<open>kcall\<close>, in any order and
  with any arguments that \<open>allowed\<close> admits: post, poll, the four waits and destroy of lightweight semaphores;
  suspend, suspend task, resume and destroy of task queues; set, clear, change of the automatic bits, the
  three waits and destroy of event groups; creation of these objects where no task waits; yield, the delays and
  change of priority; and sends that do not wait for room. The idle task does not wait and is not suspended, and
  the windows of \<^verbatim>\<open>_taskq_destroy\<close> are proper. Timer interrupts and interrupts that post a semaphore occur between
  the stretches of code that the calls run, while the active task has preemption enabled. From any running state with
  no call in progress, wherever the tasks are switched out and resumed, the active task is ready and no
  ready task has a better priority, and every task is in exactly the queues its state says.
\<close>

theorem best_ready_task_runs:
  assumes "running idle (KERNEL \<sigma>0)" and "RESTS \<sigma>0 = (\<lambda>_. None)" and "reachable idle \<sigma>0 \<sigma>"
  shows "ACTIVE_PTR (KERNEL \<sigma>) \<in> ready_tasks (KERNEL \<sigma>)
    \<and> (\<forall>t \<in> ready_tasks (KERNEL \<sigma>). MY_QUEUE (active_td (KERNEL \<sigma>)) \<le> MY_QUEUE (TDS (KERNEL \<sigma>) t))
    \<and> kinv (KERNEL \<sigma>)"
proof -
  have "sys_inv idle \<sigma>0" using assms(1,2) by (simp add: sys_inv_def)
  with reachable_inv [OF assms(3)] have r: "running idle (KERNEL \<sigma>)" by (simp add: sys_inv_def)
  then show ?thesis using top_active_best [of "KERNEL \<sigma>"] by (simp add: running_def top_active_def)
qed

theorem best_ready_task_runs_witness:
  "let k = KERNEL (run_stretch 200 (exec (Delay 10) demo) \<lparr>KERNEL = demo, RESTS = \<lambda>_. None\<rparr>)
   in ACTIVE_PTR k \<in> ready_tasks k \<and> kinv k \<and> MY_QUEUE (active_td k) \<le> MY_QUEUE (TDS k 100)"
proof -
  let ?s = "\<lparr>KERNEL = demo, RESTS = \<lambda>_. None\<rparr>"
  have "sys_step 100 ?s (run_stretch 200 (exec (Delay 10) (KERNEL ?s)) ?s)"
    by (rule sys_step.call) (simp_all add: demo_def)
  then have "reachable 100 ?s (run_stretch 200 (exec (Delay 10) demo) ?s)"
    using reachable.step [OF reachable.start] by simp
  note b = best_ready_task_runs [OF _ _ this]
  have "100 \<in> ready_tasks (KERNEL (run_stretch 200 (exec (Delay 10) demo) ?s))"
    using sys_step_inv [of 100 ?s] \<open>sys_step 100 ?s _\<close> demo_running
    by (simp add: sys_inv_def running_def)
  with b demo_running show ?thesis by (simp add: Let_def)
qed

end
