(* ===== verification/Mutex.thy ===== *)
theory Mutex
  imports Task_Queue
begin

unbundle bit_operations_syntax

text \<open>
  Mutexes (\<^verbatim>\<open>kernel/mutex.c\<close>): attributes, creation, locking with the four waiting protocols (spinning with and
  without a limit, queueing first come first served and by priority) and the two scheduling protocols
  (priority inheritance and priority ceiling). The mutex at address \<open>m\<close> has its wait queue at \<open>m + 28\<close>.
  The spinning loops give up the processor once a round, the queueing protocols block the task.
  Where interrupts are enabled in the middle of a change, before a spinning task becomes the owner of the
  mutex it has locked and while the waiters of a destroyed mutex are on their way to the ready queues, what
  interrupts and the tasks they let run do there is an argument \<open>W\<close> of the function.
  \<^verbatim>\<open>_mutex_cleanup\<close>, called when a task is destroyed, is in theory \<^verbatim>\<open>Mutex_Cleanup\<close> and \<^verbatim>\<open>_mutex_test\<close>, a check of
  link structure, in theory \<^verbatim>\<open>Object_Tests\<close>.
\<close>

abbreviation (input) MUTEX_VALID :: u32 where "MUTEX_VALID \<equiv> 0x6d757478"
abbreviation (input) MUTEX_SPIN_ONLY :: u32 where "MUTEX_SPIN_ONLY \<equiv> 0x01"
abbreviation (input) MUTEX_LIMITED_SPIN :: u32 where "MUTEX_LIMITED_SPIN \<equiv> 0x02"
abbreviation (input) MUTEX_QUEUEING :: u32 where "MUTEX_QUEUEING \<equiv> 0x04"
abbreviation (input) MUTEX_PRIORITY_QUEUEING :: u32 where "MUTEX_PRIORITY_QUEUEING \<equiv> 0x08"
abbreviation (input) MUTEX_NO_PRIO_INHERIT :: u32 where "MUTEX_NO_PRIO_INHERIT \<equiv> 0"
abbreviation (input) MUTEX_PRIO_INHERIT :: u32 where "MUTEX_PRIO_INHERIT \<equiv> 0x100"
abbreviation (input) MUTEX_PRIO_PROTECT :: u32 where "MUTEX_PRIO_PROTECT \<equiv> 0x200"
abbreviation (input) MQX_EOK :: u32 where "MQX_EOK \<equiv> 0"
abbreviation (input) MQX_EBUSY :: u32 where "MQX_EBUSY \<equiv> 0x406"
abbreviation (input) MQX_EDEADLK :: u32 where "MQX_EDEADLK \<equiv> 0x409"
abbreviation (input) MQX_OUT_OF_MEMORY :: u32 where "MQX_OUT_OF_MEMORY \<equiv> 0x04"
abbreviation (input) MQX_COMPONENT_DOES_NOT_EXIST :: u32 where "MQX_COMPONENT_DOES_NOT_EXIST \<equiv> 0x18"
abbreviation (input) MQX_INVALID_COMPONENT_BASE :: u32 where "MQX_INVALID_COMPONENT_BASE \<equiv> 0x1A"
abbreviation (input) MQX_TEST_AND_SET_VALUE :: u8 where "MQX_TEST_AND_SET_VALUE \<equiv> 0x80"

definition MTX_WAITING_TASKS :: "addr \<Rightarrow> addr" where "MTX_WAITING_TASKS m = m + 28"

definition mutex_at :: "addr \<Rightarrow> kernel \<Rightarrow> mutex" where
  "mutex_at m k = MUTEXES (OBJ k) m"

definition upd_mutex :: "addr \<Rightarrow> (mutex \<Rightarrow> mutex) \<Rightarrow> kernel \<Rightarrow> kernel" where
  "upd_mutex m f k = k\<lparr>OBJ := (OBJ k)\<lparr>MUTEXES := (MUTEXES (OBJ k))(m := f (MUTEXES (OBJ k) m))\<rparr>\<rparr>"

definition mutex_valid :: "addr \<Rightarrow> kernel \<Rightarrow> bool" where
  "mutex_valid m k \<longleftrightarrow> MTX_VALID (mutex_at m k) = MUTEX_VALID"

definition mutex_has :: "u32 \<Rightarrow> addr \<Rightarrow> kernel \<Rightarrow> bool" where
  "mutex_has protocol m k \<longleftrightarrow> PROTOCOLS (mutex_at m k) AND protocol \<noteq> 0"

definition mutex_waiters :: "addr \<Rightarrow> kernel \<Rightarrow> addr list" where
  "mutex_waiters m k = TD_QUEUES k (MTX_WAITING_TASKS m)"

subsection \<open>Attributes\<close>

record mutex_attr =
  SCHED_PROTOCOL :: u32
  ATTR_VALID :: u32
  ATTR_CEILING :: nat
  ATTR_COUNT :: u32
  WAIT_PROTOCOL :: u32

text \<open>A null pointer is \<open>None\<close>; a getter returns the value it stores, if any.\<close>

definition mutatr_init :: "mutex_attr option \<Rightarrow> u32 \<times> mutex_attr option" where
  "mutatr_init attr =
     (case attr of
        None \<Rightarrow> (MQX_EINVAL, None)
      | Some a \<Rightarrow> (MQX_EOK, Some \<lparr>SCHED_PROTOCOL = MUTEX_NO_PRIO_INHERIT, ATTR_VALID = MUTEX_VALID, ATTR_CEILING = 0,
                            ATTR_COUNT = 0, WAIT_PROTOCOL = MUTEX_QUEUEING\<rparr>))"

definition mutatr_change :: "(mutex_attr \<Rightarrow> mutex_attr) \<Rightarrow> (mutex_attr \<Rightarrow> bool) \<Rightarrow> mutex_attr option \<Rightarrow> u32 \<times> mutex_attr option" where
  "mutatr_change f check attr =
     (case attr of
        None \<Rightarrow> (MQX_EINVAL, None)
      | Some a \<Rightarrow> if ATTR_VALID a \<noteq> MUTEX_VALID then (MQX_EINVAL, Some a)
                  else if \<not> check a then (MQX_EINVAL, Some a) else (MQX_EOK, Some (f a)))"

definition mutatr_destroy :: "mutex_attr option \<Rightarrow> u32 \<times> mutex_attr option" where
  "mutatr_destroy attr = mutatr_change (\<lambda>a. a\<lparr>ATTR_VALID := 0\<rparr>) (\<lambda>_. True) attr"

definition mutatr_set_wait_protocol :: "u32 \<Rightarrow> mutex_attr option \<Rightarrow> u32 \<times> mutex_attr option" where
  "mutatr_set_wait_protocol waiting_protocol attr =
     mutatr_change (\<lambda>a. a\<lparr>WAIT_PROTOCOL := waiting_protocol\<rparr>)
       (\<lambda>_. waiting_protocol = MUTEX_SPIN_ONLY \<or> waiting_protocol = MUTEX_LIMITED_SPIN \<or>
            waiting_protocol = MUTEX_QUEUEING \<or> waiting_protocol = MUTEX_PRIORITY_QUEUEING) attr"

definition mutatr_set_priority_ceiling :: "kernel \<Rightarrow> nat \<Rightarrow> mutex_attr option \<Rightarrow> u32 \<times> mutex_attr option" where
  "mutatr_set_priority_ceiling k ceiling attr =
     mutatr_change (\<lambda>a. a\<lparr>ATTR_CEILING := ceiling\<rparr>) (\<lambda>_. ceiling \<le> LOWEST_TASK_PRIORITY k) attr"

definition mutatr_set_sched_protocol :: "u32 \<Rightarrow> mutex_attr option \<Rightarrow> u32 \<times> mutex_attr option" where
  "mutatr_set_sched_protocol protocol attr =
     mutatr_change (\<lambda>a. a\<lparr>SCHED_PROTOCOL := protocol\<rparr>)
       (\<lambda>_. protocol = MUTEX_PRIO_INHERIT \<or> protocol = MUTEX_PRIO_PROTECT \<or> protocol = MUTEX_NO_PRIO_INHERIT) attr"

definition mutatr_set_spin_limit :: "u32 \<Rightarrow> mutex_attr option \<Rightarrow> u32 \<times> mutex_attr option" where
  "mutatr_set_spin_limit spin_count attr = mutatr_change (\<lambda>a. a\<lparr>ATTR_COUNT := spin_count\<rparr>) (\<lambda>_. True) attr"

definition mutatr_get :: "(mutex_attr \<Rightarrow> 'a) \<Rightarrow> bool \<Rightarrow> mutex_attr option \<Rightarrow> u32 \<times> 'a option" where
  "mutatr_get f result_null attr =
     (case attr of
        None \<Rightarrow> (MQX_EINVAL, None)
      | Some a \<Rightarrow> if result_null \<or> ATTR_VALID a \<noteq> MUTEX_VALID then (MQX_EINVAL, None) else (MQX_EOK, Some (f a)))"

definition mutatr_get_wait_protocol :: "bool \<Rightarrow> mutex_attr option \<Rightarrow> u32 \<times> u32 option" where
  "mutatr_get_wait_protocol result_null attr = mutatr_get WAIT_PROTOCOL result_null attr"

definition mutatr_get_priority_ceiling :: "bool \<Rightarrow> mutex_attr option \<Rightarrow> u32 \<times> nat option" where
  "mutatr_get_priority_ceiling result_null attr = mutatr_get ATTR_CEILING result_null attr"

definition mutatr_get_sched_protocol :: "bool \<Rightarrow> mutex_attr option \<Rightarrow> u32 \<times> u32 option" where
  "mutatr_get_sched_protocol result_null attr = mutatr_get SCHED_PROTOCOL result_null attr"

definition mutatr_get_spin_limit :: "bool \<Rightarrow> mutex_attr option \<Rightarrow> u32 \<times> u32 option" where
  "mutatr_get_spin_limit result_null attr = mutatr_get ATTR_COUNT result_null attr"

subsection \<open>Creation\<close>

text \<open>The component is \<open>KERNEL_MUTEXES\<close>, its \<^verbatim>\<open>VALID\<close> field if it exists. \<open>allocated\<close> is the allocator's answer.\<close>

definition mutex_create_component :: "bool \<Rightarrow> kernel \<Rightarrow> u32 \<times> kernel" where
  "mutex_create_component allocated k =
     (if KERNEL_MUTEXES (OBJ k) \<noteq> None then (MQX_OK, k)
      else if \<not> allocated then (MQX_OUT_OF_MEMORY, k)
      else (MQX_OK, INT_ENABLE ((INT_DISABLE k)\<lparr>OBJ := (OBJ k)\<lparr>MUTEX_LIST := [], KERNEL_MUTEXES := Some MUTEX_VALID\<rparr>\<rparr>)))"

definition mutex_init :: "addr \<Rightarrow> mutex_attr option \<Rightarrow> bool \<Rightarrow> kernel \<Rightarrow> u32 \<times> kernel" where
  "mutex_init m attr allocated k =
     (let a = (case attr of Some a \<Rightarrow> a
               | None \<Rightarrow> \<lparr>SCHED_PROTOCOL = MUTEX_NO_PRIO_INHERIT, ATTR_VALID = MUTEX_VALID, ATTR_CEILING = 0,
                          ATTR_COUNT = 0, WAIT_PROTOCOL = MUTEX_QUEUEING\<rparr>)
      in if m = NULL then (MQX_EINVAL, k)
         else if ATTR_VALID a \<noteq> MUTEX_VALID then (MQX_EINVAL, k)
         else let (result, k1) = (if KERNEL_MUTEXES (OBJ k) = None then mutex_create_component allocated k else (MQX_OK, k))
              in case KERNEL_MUTEXES (OBJ k1) of
                   None \<Rightarrow> (result, k1)
                 | Some valid \<Rightarrow>
                     if valid \<noteq> MUTEX_VALID then (MQX_INVALID_COMPONENT_BASE, k1)
                     else if m \<in> set (MUTEX_LIST (OBJ k1)) then (MQX_EINVAL, INT_ENABLE (INT_DISABLE k1))
                     else let k2 = TDQ_SET (MTX_WAITING_TASKS m) [] (upd_mutex m (\<lambda>_.
                                \<lparr>MTX_VALID = MUTEX_VALID, PROTOCOLS = SCHED_PROTOCOL a OR WAIT_PROTOCOL a,
                                 PRIORITY_CEILING = ATTR_CEILING a, MTX_COUNT = ATTR_COUNT a, LOCK = 0, OWNER_TD = NULL,
                                 MTX_BOOSTED = 0\<rparr>) (INT_DISABLE k1))
                          in (MQX_EOK, INT_ENABLE (k2\<lparr>OBJ := (OBJ k2)\<lparr>MUTEX_LIST := MUTEX_LIST (OBJ k2) @ [m]\<rparr>\<rparr>)))"

subsection \<open>Locking\<close>

text \<open>Raising the holder of a mutex to a priority: the priority changes only if it is an improvement, but the
  mutex counts every attempt on a task whose own priority is worse.\<close>

definition mutex_boost :: "addr \<Rightarrow> addr \<Rightarrow> nat \<Rightarrow> kernel \<Rightarrow> (kernel, unit) prog" where
  "mutex_boost m t priority k =
     (if HOME_QUEUE (TDS k t) > priority
      then andthen (if MY_QUEUE (TDS k t) > priority then sched_boost_priority t priority k else Done () k)
             (\<lambda>_ k1. Done () (upd_mutex m (\<lambda>v. v\<lparr>MTX_BOOSTED := MTX_BOOSTED v + 1\<rparr>) k1))
      else Done () k)"

text \<open>\<^verbatim>\<open>_sched_yield\<close> up to the switch; the rest of it, \<^verbatim>\<open>_INT_ENABLE\<close>, is the start of the next round.\<close>

definition yield_switch :: "addr \<Rightarrow> kernel \<Rightarrow> kernel" where
  "yield_switch t k = switch_task (TASK_READY t (UNLINK_READY t (INT_DISABLE k)))"

text \<open>A round that finds the mutex free also does what follows the loop: it takes the mutex and becomes its owner.
  Between the two interrupts are enabled: \<open>W\<close> is what interrupts, and the tasks they let run, do to the kernel
  there, with the mutex locked and no new owner yet.\<close>

definition inherit_round :: "(kernel \<Rightarrow> kernel) \<Rightarrow> addr \<Rightarrow> addr \<Rightarrow> nat \<Rightarrow> u32 \<Rightarrow> u32 \<Rightarrow> kernel \<Rightarrow> (kernel, u32 + u32) prog" where
  "inherit_round W m t priority limited count k =
     (if count \<noteq> 0 \<and> LOCK (mutex_at m k) \<noteq> 0
      then andthen (mutex_boost m (OWNER_TD (mutex_at m k)) priority k)
             (\<lambda>_ k1. Done (Inr (count - limited)) (INT_ENABLE k1))
      else if count = 0 then Done (Inl MQX_EBUSY) (INT_ENABLE k)
      else Done (Inl MQX_EOK) (upd_mutex m (\<lambda>v. v\<lparr>OWNER_TD := t\<rparr>)
             (W (INT_ENABLE (upd_mutex m (\<lambda>v. v\<lparr>LOCK := MQX_TEST_AND_SET_VALUE\<rparr>) k)))))"

definition inherit_resumed :: "(kernel \<Rightarrow> kernel) \<Rightarrow> addr \<Rightarrow> addr \<Rightarrow> nat \<Rightarrow> u32 \<Rightarrow> u32 \<Rightarrow> kernel \<Rightarrow> (kernel, u32 + u32) prog" where
  "inherit_resumed W m t priority limited count k =
     (let k1 = INT_DISABLE (INT_ENABLE k)
      in if \<not> mutex_valid m k1 then Done (Inl MQX_EINVAL) (INT_ENABLE k1)
         else inherit_round W m t priority limited count k1)"

text \<open>\<^verbatim>\<open>_mem_test_and_set\<close>: the old value; the byte is written only if it was zero.\<close>

definition mem_test_and_set :: "addr \<Rightarrow> kernel \<Rightarrow> u8 \<times> kernel" where
  "mem_test_and_set m k =
     (let old = LOCK (mutex_at m k)
      in (old, if old = 0 then upd_mutex m (\<lambda>v. v\<lparr>LOCK := MQX_TEST_AND_SET_VALUE\<rparr>) k else k))"

definition poll_round :: "(kernel \<Rightarrow> kernel) \<Rightarrow> addr \<Rightarrow> addr \<Rightarrow> u32 \<Rightarrow> u32 \<Rightarrow> kernel \<Rightarrow> (kernel, u32 + u32) prog" where
  "poll_round W m t limited count k =
     (if count = 0 then Done (Inl MQX_EBUSY) k
      else let (old, k1) = mem_test_and_set m k
           in if old \<noteq> 0 then Done (Inr (count - limited)) k1
              else Done (Inl MQX_EOK) (upd_mutex m (\<lambda>v. v\<lparr>OWNER_TD := t\<rparr>) (W k1)))"

definition poll_resumed :: "(kernel \<Rightarrow> kernel) \<Rightarrow> addr \<Rightarrow> addr \<Rightarrow> u32 \<Rightarrow> u32 \<Rightarrow> kernel \<Rightarrow> (kernel, u32 + u32) prog" where
  "poll_resumed W m t limited count k =
     (let k1 = INT_ENABLE k
      in if \<not> mutex_valid m k1 then Done (Inl MQX_EINVAL) k1 else poll_round W m t limited count k1)"

definition lock_spin :: "(kernel \<Rightarrow> kernel) \<Rightarrow> addr \<Rightarrow> addr \<Rightarrow> nat \<Rightarrow> kernel \<Rightarrow> (kernel, u32) prog" where
  "lock_spin W m t priority k =
     (let only = mutex_has MUTEX_SPIN_ONLY m k;
          count = (if only then 1 else MTX_COUNT (mutex_at m k));
          limited = (if only then 0 else 1)
      in if mutex_has MUTEX_PRIO_INHERIT m k
         then spin (yield_switch t) (inherit_resumed W m t priority limited) (inherit_round W m t priority limited count (INT_DISABLE k))
         else spin (yield_switch t) (poll_resumed W m t limited) (poll_round W m t limited count k))"

definition mutex_join :: "addr \<Rightarrow> addr \<Rightarrow> kernel \<Rightarrow> kernel" where
  "mutex_join m t k =
     (let q = MTX_WAITING_TASKS m;
          k1 = upd_td t (\<lambda>d. d\<lparr>INFO := q\<rparr>) (UNLINK_READY t k);
          k2 = (if mutex_has MUTEX_PRIORITY_QUEUEING m k1 then sched_insert_priorityq q t k1
                else TDQ_SET q (TD_QUEUES k1 q @ [t]) k1)
      in upd_td t (\<lambda>d. d\<lparr>STATE := MUTEX_BLOCKED\<rparr>) k2)"

definition lock_wait :: "addr \<Rightarrow> addr \<Rightarrow> nat \<Rightarrow> kernel \<Rightarrow> (kernel, u32) prog" where
  "lock_wait m t priority k =
     andthen (if mutex_has MUTEX_PRIO_INHERIT m k then mutex_boost m (OWNER_TD (mutex_at m k)) priority k else Done () k)
       (\<lambda>_ k1. andthen (sched_execute_scheduler (mutex_join m t k1))
         (\<lambda>_ k2. if \<not> mutex_valid m k2 then Done MQX_EINVAL (INT_ENABLE k2) else Done MQX_EOK k2))"

definition lock_inherit :: "addr \<Rightarrow> addr \<Rightarrow> kernel \<Rightarrow> (kernel, u32) prog" where
  "lock_inherit m t k =
     andthen (if mutex_has MUTEX_PRIO_INHERIT m k \<and> \<not> mutex_has MUTEX_PRIORITY_QUEUEING m k
              then mutex_boost m t (sched_get_max_priority_on_q (MTX_WAITING_TASKS m) k) k else Done () k)
       (\<lambda>_ k1. Done MQX_EOK (INT_ENABLE k1))"

definition lock_queue :: "addr \<Rightarrow> addr \<Rightarrow> nat \<Rightarrow> kernel \<Rightarrow> (kernel, u32) prog" where
  "lock_queue m t priority k =
     (let k1 = INT_DISABLE k
      in andthen (if LOCK (mutex_at m k1) \<noteq> 0 then lock_wait m t priority k1
                  else Done MQX_EOK (upd_mutex m (\<lambda>v. v\<lparr>LOCK := MQX_TEST_AND_SET_VALUE, OWNER_TD := t\<rparr>) k1))
           (\<lambda>result k2. if result \<noteq> MQX_EOK then Done result k2 else lock_inherit m t k2))"

definition lock_protect :: "addr \<Rightarrow> addr \<Rightarrow> kernel \<Rightarrow> (kernel, u32) prog" where
  "lock_protect m t k =
     (if mutex_has MUTEX_PRIO_PROTECT m k
      then andthen (mutex_boost m t (PRIORITY_CEILING (mutex_at m k)) (INT_DISABLE k)) (\<lambda>_ k1. Done MQX_EOK (INT_ENABLE k1))
      else Done MQX_EOK k)"

definition mutex_lock :: "(kernel \<Rightarrow> kernel) \<Rightarrow> addr \<Rightarrow> kernel \<Rightarrow> (kernel, u32) prog" where
  "mutex_lock W m k =
     (let t = ACTIVE_PTR k
      in if IN_ISR k \<noteq> 0 then Done MQX_CANNOT_CALL_FUNCTION_FROM_ISR k
         else if m = NULL then Done MQX_EINVAL k
         else if \<not> mutex_valid m k then Done MQX_EINVAL k
         else if OWNER_TD (mutex_at m k) = t then Done MQX_EDEADLK k
         else let priority = MY_QUEUE (TDS k t)
              in andthen (if mutex_has MUTEX_SPIN_ONLY m k \<or> mutex_has MUTEX_LIMITED_SPIN m k
                          then lock_spin W m t priority k else lock_queue m t priority k)
                   (\<lambda>result k1. if result \<noteq> MQX_EOK then Done result k1 else lock_protect m t k1))"

definition mutex_try_lock :: "addr \<Rightarrow> kernel \<Rightarrow> (kernel, u32) prog" where
  "mutex_try_lock m k =
     (if m = NULL then Done MQX_EINVAL k
      else if \<not> mutex_valid m k then Done MQX_EINVAL k
      else let (old, k1) = mem_test_and_set m (INT_DISABLE k)
           in if old \<noteq> 0
              then let k2 = INT_ENABLE k1
                   in Done (if OWNER_TD (mutex_at m k2) = ACTIVE_PTR k2 then MQX_EDEADLK else MQX_EBUSY) k2
              else let k2 = INT_ENABLE (upd_mutex m (\<lambda>v. v\<lparr>OWNER_TD := ACTIVE_PTR k1\<rparr>) k1)
                   in lock_protect m (ACTIVE_PTR k2) k2)"

subsection \<open>Unlocking\<close>

definition unlock_handover :: "addr \<Rightarrow> addr \<Rightarrow> kernel \<Rightarrow> (kernel, unit) prog" where
  "unlock_handover m t k =
     (let k1 = tdq_wake (MTX_WAITING_TASKS m) t (upd_mutex m (\<lambda>v. v\<lparr>OWNER_TD := t\<rparr>) k)
      in andthen (if mutex_has MUTEX_PRIO_PROTECT m k1 then mutex_boost m t (PRIORITY_CEILING (mutex_at m k1)) k1 else Done () k1)
           (\<lambda>_ k2. sched_check_scheduler k2))"

definition mutex_unlock :: "addr \<Rightarrow> kernel \<Rightarrow> (kernel, u32) prog" where
  "mutex_unlock m k =
     (if m = NULL then Done MQX_EINVAL k
      else if \<not> mutex_valid m k then Done MQX_EINVAL k
      else if LOCK (mutex_at m k) \<noteq> MQX_TEST_AND_SET_VALUE then Done MQX_EINVAL k
      else if OWNER_TD (mutex_at m k) \<noteq> ACTIVE_PTR k then Done MQX_EINVAL k
      else let k1 = INT_DISABLE k;
               boosted = MTX_BOOSTED (mutex_at m k1);
               k2 = upd_mutex m (\<lambda>v. v\<lparr>MTX_BOOSTED := 0\<rparr>) k1
           in andthen (if mutex_has (MUTEX_SPIN_ONLY OR MUTEX_LIMITED_SPIN) m k2
                       then Done () (upd_mutex m (\<lambda>v. v\<lparr>OWNER_TD := NULL, LOCK := 0\<rparr>) k2)
                       else case mutex_waiters m k2 of
                              t # _ \<Rightarrow> unlock_handover m t k2
                            | [] \<Rightarrow> Done () (upd_mutex m (\<lambda>v. v\<lparr>LOCK := 0, OWNER_TD := NULL\<rparr>) k2))
                (\<lambda>_ k3. andthen (if boosted \<noteq> 0 then sched_unboost_priority (ACTIVE_PTR k3) boosted k3 else Done () k3)
                  (\<lambda>_ k4. Done MQX_EOK (INT_ENABLE k4))))"

subsection \<open>Destruction, ceiling, wait count\<close>

text \<open>
  The loop of \<^verbatim>\<open>_mutex_destroy\<close> takes a waiter off the queue with interrupts enabled and disables them only to make
  it ready: \<open>W\<close> is what happens in between, while the waiter is in no queue, and after each round. There is
  a round for every task that the queue holds at the start at most.
\<close>

fun destroy_waiters :: "(kernel \<Rightarrow> kernel) \<Rightarrow> addr \<Rightarrow> nat \<Rightarrow> kernel \<Rightarrow> kernel" where
  "destroy_waiters W q 0 k = k"
| "destroy_waiters W q (Suc n) k =
     (case TD_QUEUES k q of
        [] \<Rightarrow> k
      | t # ts \<Rightarrow>
          let k1 = W (snd (task_set_error_td t MQX_EINVAL (TDQ_SET q (removeAll t (TD_QUEUES k q)) k)))
          in destroy_waiters W q n (W (INT_ENABLE (TASK_READY t (INT_DISABLE k1)))))"

definition destroy_locked :: "(kernel \<Rightarrow> kernel) \<Rightarrow> addr \<Rightarrow> kernel \<Rightarrow> (kernel, u32) prog" where
  "destroy_locked W m k =
     (let k2 = upd_mutex m (\<lambda>v. v\<lparr>MTX_VALID := 0\<rparr>) k;
          k3 = (if m \<in> set (MUTEX_LIST (OBJ k2))
                then INT_ENABLE ((INT_DISABLE k2)\<lparr>OBJ := (OBJ k2)\<lparr>MUTEX_LIST := removeAll m (MUTEX_LIST (OBJ k2))\<rparr>\<rparr>)
                else k2);
          k4 = INT_DISABLE (destroy_waiters W (MTX_WAITING_TASKS m) (length (mutex_waiters m k3)) k3)
      in andthen (if MTX_BOOSTED (mutex_at m k4) \<noteq> 0
                  then sched_unboost_priority (ACTIVE_PTR k4) (MTX_BOOSTED (mutex_at m k4)) k4 else Done () k4)
           (\<lambda>_ k5. andthen (sched_check_scheduler (INT_ENABLE k5)) (\<lambda>_ k6. Done MQX_EOK k6)))"

definition mutex_destroy :: "(kernel \<Rightarrow> kernel) \<Rightarrow> addr \<Rightarrow> kernel \<Rightarrow> (kernel, u32) prog" where
  "mutex_destroy W m k =
     (case KERNEL_MUTEXES (OBJ k) of
        None \<Rightarrow> Done MQX_COMPONENT_DOES_NOT_EXIST k
      | Some valid \<Rightarrow>
          if valid \<noteq> MUTEX_VALID then Done MQX_INVALID_COMPONENT_BASE k
          else andthen (if OWNER_TD (mutex_at m k) \<noteq> ACTIVE_PTR k then mutex_lock W m k else Done MQX_EOK k)
            (\<lambda>result k1. if result \<noteq> MQX_EOK then Done result k1 else destroy_locked W m k1))"

definition mutex_set_priority_ceiling :: "addr \<Rightarrow> nat \<Rightarrow> bool \<Rightarrow> kernel \<Rightarrow> (u32 \<times> nat option) \<times> kernel" where
  "mutex_set_priority_ceiling m ceiling result_null k =
     (if ceiling > LOWEST_TASK_PRIORITY k then ((MQX_EINVAL, None), k)
      else let k1 = INT_DISABLE k
           in if m = NULL \<or> result_null then ((MQX_EINVAL, None), INT_ENABLE k1)
              else if \<not> mutex_valid m k1 then ((MQX_EINVAL, None), INT_ENABLE k1)
              else ((MQX_EOK, Some (PRIORITY_CEILING (mutex_at m k1))),
                    INT_ENABLE (upd_mutex m (\<lambda>v. v\<lparr>PRIORITY_CEILING := ceiling\<rparr>) k1)))"

definition mutex_get_priority_ceiling :: "addr \<Rightarrow> bool \<Rightarrow> kernel \<Rightarrow> u32 \<times> nat option" where
  "mutex_get_priority_ceiling m result_null k =
     (if m = NULL \<or> result_null then (MQX_EINVAL, None)
      else if \<not> mutex_valid m k then (MQX_EINVAL, None)
      else (MQX_EOK, Some (PRIORITY_CEILING (mutex_at m k))))"

definition mutex_get_wait_count :: "addr \<Rightarrow> kernel \<Rightarrow> u32 \<times> kernel" where
  "mutex_get_wait_count m k =
     (if m = NULL then (MAX_UINT_32, snd (task_set_error MQX_EINVAL k))
      else if \<not> mutex_valid m k then (MAX_UINT_32, snd (task_set_error MQX_EINVAL k))
      else (of_nat (length (mutex_waiters m k)), k))"

subsection \<open>What the scheduler leaves alone\<close>

text \<open>Conditions that depend on the task list, the number of priorities, the objects, the wait queues linked
  through the task descriptors and the tasks' own priorities only: they hold at every switch inside a scheduler function, and when it returns its caller
  is active again.\<close>

definition frame_eq :: "kernel \<Rightarrow> kernel \<Rightarrow> bool" where
  "frame_eq k k' \<longleftrightarrow> TD_LIST k' = TD_LIST k \<and> priority_levels k' = priority_levels k \<and> OBJ k' = OBJ k \<and>
     (\<forall>t. HOME_QUEUE (TDS k' t) = HOME_QUEUE (TDS k t))"

definition stable :: "(kernel \<Rightarrow> bool) \<Rightarrow> bool" where
  "stable E \<longleftrightarrow> (\<forall>k k'. frame_eq k k' \<and> TD_QUEUES k' = TD_QUEUES k \<longrightarrow> E k \<longrightarrow> E k')"

definition back_at :: "addr \<Rightarrow> (kernel \<Rightarrow> bool) \<Rightarrow> kernel \<Rightarrow> bool" where
  "back_at t E k \<longleftrightarrow> E k \<and> ACTIVE_PTR k = t"

lemma frame_eq_simps [simp]:
  "frame_eq k (switch_task k)" "frame_eq k (INT_ENABLE k)" "frame_eq k (INT_DISABLE k)" "frame_eq k (UNLINK_READY t k)"
  "frame_eq k (TASK_READY t k)" "frame_eq k (TDQ_SET q xs k)"
  "(\<And>d. HOME_QUEUE (f d) = HOME_QUEUE d) \<Longrightarrow> frame_eq k (upd_td t f k)"
  by (simp_all add: frame_eq_def) (simp add: TDQ_SET_def)

lemma frame_eq_trans: "frame_eq k k' \<Longrightarrow> frame_eq k' k'' \<Longrightarrow> frame_eq k k''"
  by (simp add: frame_eq_def)

lemma stableD: "stable E \<Longrightarrow> E k \<Longrightarrow> frame_eq k k' \<Longrightarrow> TD_QUEUES k' = TD_QUEUES k \<Longrightarrow> E k'"
  by (auto simp: stable_def)

lemma execute_stable:
  assumes "stable E" "back_at t E k"
  shows "keeps E (back_at t E) (resumes t) (sched_execute_scheduler k)"
  using assms stableD [OF assms(1), of k "switch_task k"]
  by (auto simp: sched_execute_scheduler_def Let_def back_at_def resumes_def)

lemma check_stable: "stable E \<Longrightarrow> back_at t E k \<Longrightarrow> keeps E (back_at t E) (resumes t) (sched_check_scheduler k)"
  by (simp add: sched_check_scheduler_def execute_stable)

lemma set_priority_stable:
  assumes "stable E" "back_at t E k"
  shows "keeps E (back_at t E) (resumes t) (sched_set_priority x p k)"
proof -
  let ?u = "upd_td x (\<lambda>d. d\<lparr>MY_QUEUE := p\<rparr>) k"
  let ?r = "TASK_READY x (UNLINK_READY x ?u)"
  have u: "frame_eq k ?u" by simp
  then have r: "frame_eq k ?r" by (meson frame_eq_simps(4,5) frame_eq_trans)
  have "back_at t E ?u" "back_at t E ?r"
    using assms stableD [OF assms(1) _ u] stableD [OF assms(1) _ r] by (simp_all add: back_at_def)
  then show ?thesis using execute_stable [OF assms(1), of t ?r] by (simp add: sched_set_priority_def Let_def)
qed

lemma boost_stable:
  assumes "stable E" "back_at t E k"
  shows "keeps E (back_at t E) (resumes t) (sched_boost_priority x p k)"
proof -
  let ?u = "upd_td x (\<lambda>d. d\<lparr>FLAGS := FLAGS d OR TASK_PRIORITY_BOOSTED, BOOSTED := BOOSTED d + 1\<rparr>) k"
  have "back_at t E ?u" using assms stableD [OF assms(1), of k ?u] by (simp add: back_at_def)
  then show ?thesis unfolding sched_boost_priority_def
    by (intro keeps_andthen [OF set_priority_stable] check_stable assms(1))
qed

lemma unboost_stable:
  assumes "stable E" "back_at t E k"
  shows "keeps E (back_at t E) (resumes t) (sched_unboost_priority x n k)"
proof -
  have f: "back_at t E (upd_td x f k)" if "\<And>d. HOME_QUEUE (f d) = HOME_QUEUE d" for f
    using assms stableD [OF assms(1), of k "upd_td x f k"] that by (simp add: back_at_def)
  have "keeps E (back_at t E) (resumes t) (andthen (sched_set_priority x q (upd_td x f k)) (\<lambda>_ k2. sched_check_scheduler k2))"
    if "\<And>d. HOME_QUEUE (f d) = HOME_QUEUE d" for f q
    by (intro keeps_andthen [OF set_priority_stable] check_stable assms(1) f that)
  then show ?thesis using f assms by (auto simp: sched_unboost_priority_def Let_def)
qed

subsection \<open>Running states are kept\<close>

text \<open>The states the mutex functions rely on: tasks have proper priorities of their own, and a locked mutex is
  owned by an existing task.\<close>

definition mutex_env :: "addr \<Rightarrow> kernel \<Rightarrow> bool" where
  "mutex_env m k \<longleftrightarrow> (\<forall>t \<in> set (TD_LIST k). HOME_QUEUE (TDS k t) < priority_levels k) \<and>
     (LOCK (mutex_at m k) \<noteq> 0 \<longrightarrow> OWNER_TD (mutex_at m k) \<in> set (TD_LIST k))"

definition mutex_running :: "addr \<Rightarrow> addr \<Rightarrow> kernel \<Rightarrow> bool" where
  "mutex_running idle m k \<longleftrightarrow> running idle k \<and> mutex_env m k"

lemma mutex_env_frame: "mutex_env m k \<Longrightarrow> frame_eq k k' \<Longrightarrow> mutex_env m k'"
  by (simp add: mutex_env_def frame_eq_def mutex_at_def)

lemma mutex_env_stable: "stable (mutex_env m)"
  by (simp add: stable_def mutex_env_frame)

lemma mutex_keepsI:
  assumes "keeps (running idle) (running idle) (resumes t) p" "keeps (mutex_env m) (back_at t (mutex_env m)) (resumes t) p"
  shows "keeps (mutex_running idle m) (back_at t (mutex_running idle m)) (resumes t) p"
proof -
  have "mutex_running idle m = (\<lambda>k. running idle k \<and> mutex_env m k)"
    "back_at t (mutex_running idle m) = (\<lambda>k. running idle k \<and> back_at t (mutex_env m) k)"
    by (auto simp: mutex_running_def back_at_def fun_eq_iff)
  then show ?thesis using keeps_conj [OF assms] by simp
qed

lemma upd_mutex_simps [simp]:
  "TDS (upd_mutex m f k) = TDS k" "TD_LIST (upd_mutex m f k) = TD_LIST k" "TD_QUEUES (upd_mutex m f k) = TD_QUEUES k"
  "ACTIVE_PTR (upd_mutex m f k) = ACTIVE_PTR k" "IN_ISR (upd_mutex m f k) = IN_ISR k" "STUCK (upd_mutex m f k) = STUCK k"
  "running idle (upd_mutex m f k) = running idle k" "unsettled idle (upd_mutex m f k) = unsettled idle k"
  "ready_tasks (upd_mutex m f k) = ready_tasks k" "kinv (upd_mutex m f k) = kinv k"
  "priority_levels (upd_mutex m f k) = priority_levels k" "mutex_waiters m' (upd_mutex m f k) = mutex_waiters m' k"
  "mutex_at m' (upd_mutex m f k) = (if m' = m then f (mutex_at m k) else mutex_at m' k)"
  by (simp_all add: upd_mutex_def mutex_at_def mutex_waiters_def)

lemma mutex_simps [simp]:
  "mutex_at m (INT_DISABLE k) = mutex_at m k" "mutex_at m (INT_ENABLE k) = mutex_at m k"
  "mutex_at m (upd_td t f k) = mutex_at m k" "mutex_at m (UNLINK_READY t k) = mutex_at m k"
  "mutex_at m (TASK_READY t k) = mutex_at m k" "mutex_at m (switch_task k) = mutex_at m k"
  "mutex_valid m (INT_DISABLE k) = mutex_valid m k" "mutex_valid m (INT_ENABLE k) = mutex_valid m k"
  "mutex_has p m (INT_DISABLE k) = mutex_has p m k"
  "mutex_waiters m (INT_DISABLE k) = mutex_waiters m k" "mutex_waiters m (INT_ENABLE k) = mutex_waiters m k"
  by (simp_all add: mutex_at_def mutex_valid_def mutex_has_def mutex_waiters_def)

lemma mutex_env_INT [simp]: "mutex_env m (INT_DISABLE k) = mutex_env m k" "mutex_env m (INT_ENABLE k) = mutex_env m k"
  by (simp_all add: mutex_env_def)

lemma mutex_running_INT [simp]:
  "mutex_running idle m (INT_DISABLE k) = mutex_running idle m k" "mutex_running idle m (INT_ENABLE k) = mutex_running idle m k"
  by (simp_all add: mutex_running_def)

lemma back_at_INT [simp]:
  "back_at t (mutex_running idle m) (INT_DISABLE k) = back_at t (mutex_running idle m) k"
  "back_at t (mutex_running idle m) (INT_ENABLE k) = back_at t (mutex_running idle m) k"
  by (simp_all add: back_at_def)

lemma mutex_boost_keeps:
  assumes k: "back_at t (mutex_running idle m) k" and x: "x \<in> set (TD_LIST k)"
  shows "keeps (mutex_running idle m) (back_at t (mutex_running idle m)) (resumes t) (mutex_boost m x p k)"
proof (cases "HOME_QUEUE (TDS k x) > p")
  case True
  let ?S = "mutex_running idle m" and ?D = "back_at t (mutex_running idle m)"
  have e: "running idle k" "back_at t (mutex_env m) k" "p < priority_levels k"
    using k x True by (auto simp: mutex_running_def back_at_def mutex_env_def intro: less_trans)
  have "keeps ?S ?D (resumes t) (if MY_QUEUE (TDS k x) > p then sched_boost_priority x p k else Done () k)"
    using mutex_keepsI [OF sched_boost_priority_keeps [OF running_unsettled [OF e(1)] x e(3)] boost_stable [OF mutex_env_stable e(2)]] k by simp
  then have "keeps ?S ?D (resumes t) (andthen (if MY_QUEUE (TDS k x) > p then sched_boost_priority x p k else Done () k)
      (\<lambda>_ k1. Done () (upd_mutex m (\<lambda>v. v\<lparr>MTX_BOOSTED := MTX_BOOSTED v + 1\<rparr>) k1)))"
    by (rule keeps_andthen) (simp add: back_at_def mutex_running_def mutex_env_def)
  then show ?thesis using True by (simp add: mutex_boost_def)
qed (use k in \<open>simp add: mutex_boost_def\<close>)

lemma active_known: "back_at t (mutex_running idle m) k \<Longrightarrow> t \<in> set (TD_LIST k)"
  by (auto simp: back_at_def mutex_running_def running_def top_active_def ready_tasks_def)

lemma mutex_join_eq:
  "mutex_join m t k =
     TDQ_SET (MTX_WAITING_TASKS m)
       (if mutex_has MUTEX_PRIORITY_QUEUEING m k
        then insert_priorityq (prio_of k) t (mutex_waiters m k) else mutex_waiters m k @ [t])
       (UNLINK_READY t (upd_td t (\<lambda>d. d\<lparr>INFO := MTX_WAITING_TASKS m, STATE := MUTEX_BLOCKED\<rparr>) k))"
proof -
  have "prio_of (upd_td t (\<lambda>d. d\<lparr>INFO := i\<rparr>) (UNLINK_READY t k)) = prio_of k" for i by (simp add: prio_of_def fun_eq_iff)
  then show ?thesis
    by (simp add: mutex_join_def Let_def mutex_has_def mutex_at_def sched_insert_priorityq_def mutex_waiters_def
        TDQ_SET_def UNLINK_READY_def upd_td_def)
qed

lemma mutex_join_kinv:
  assumes "kinv k" "t \<in> ready_tasks k"
  shows "kinv (mutex_join m t k)"
proof -
  let ?k = "UNLINK_READY t (upd_td t (\<lambda>d. d\<lparr>INFO := MTX_WAITING_TASKS m, STATE := MUTEX_BLOCKED\<rparr>) k)"
  have "MY_QUEUE (TDS k t) < priority_levels k" using assms by (simp add: kinv_def placed_def ready_tasks_def)
  then have f: "floating t ?k" unfolding UNLINK_READY_upd
    using assms by (intro floating_upd UNLINK_READY_floating) (simp_all add: ready_tasks_def)
  then have "t \<notin> set (mutex_waiters m k)" "distinct (mutex_waiters m k)"
    by (simp_all add: floating_def nowhere_def shape_def mutex_waiters_def)
  then show ?thesis unfolding mutex_join_eq by (intro TDQ_enqueue_kinv [OF f]) (simp_all add: mutex_waiters_def)
qed

lemma mutex_join_frame [simp]:
  "TD_LIST (mutex_join m t k) = TD_LIST k" "ACTIVE_PTR (mutex_join m t k) = ACTIVE_PTR k" "OBJ (mutex_join m t k) = OBJ k"
  "IN_ISR (mutex_join m t k) = IN_ISR k" "STUCK (mutex_join m t k) = STUCK k" "x \<noteq> t \<Longrightarrow> TDS (mutex_join m t k) x = TDS k x"
  "frame_eq k (mutex_join m t k)"
  by (simp_all add: mutex_join_eq frame_eq_def) (simp_all add: TDQ_SET_def)

lemma mutex_join_keeps:
  assumes k: "back_at t (mutex_running idle m) k" and t: "t \<noteq> idle"
  shows "keeps (mutex_running idle m) (back_at t (mutex_running idle m)) (resumes t) (sched_execute_scheduler (mutex_join m t k))"
proof (rule mutex_keepsI)
  have r: "running idle k" "ACTIVE_PTR k = t" "mutex_env m k" using k by (simp_all add: back_at_def mutex_running_def)
  have "idle \<in> ready_tasks (mutex_join m t k)"
    by (rule ready_tasks_frame [OF running_unsettled [OF r(1)] t]) simp_all
  moreover have "kinv (mutex_join m t k)" using r by (intro mutex_join_kinv) (auto simp: running_def top_active_def)
  ultimately show "keeps (running idle) (running idle) (resumes t) (sched_execute_scheduler (mutex_join m t k))"
    using r by (intro execute_keeps) (simp_all add: running_def top_active_def)
  have "mutex_env m (mutex_join m t k)" using mutex_env_frame [OF r(3)] by simp
  then show "keeps (mutex_env m) (back_at t (mutex_env m)) (resumes t) (sched_execute_scheduler (mutex_join m t k))"
    using r by (intro execute_stable [OF mutex_env_stable]) (simp add: back_at_def)
qed

lemma lock_wait_keeps:
  assumes k: "back_at t (mutex_running idle m) k" and t: "t \<noteq> idle" and l: "LOCK (mutex_at m k) \<noteq> 0"
  shows "keeps (mutex_running idle m) (back_at t (mutex_running idle m)) (resumes t) (lock_wait m t p k)"
proof -
  have "OWNER_TD (mutex_at m k) \<in> set (TD_LIST k)" using k l by (simp add: back_at_def mutex_running_def mutex_env_def)
  then have "keeps (mutex_running idle m) (back_at t (mutex_running idle m)) (resumes t)
    (if mutex_has MUTEX_PRIO_INHERIT m k then mutex_boost m (OWNER_TD (mutex_at m k)) p k else Done () k)"
    using mutex_boost_keeps [OF k] k by simp
  then show ?thesis unfolding lock_wait_def
    by (rule keeps_andthen) (rule keeps_andthen [OF mutex_join_keeps], use t in \<open>auto\<close>)
qed

lemma lock_inherit_keeps:
  assumes k: "back_at t (mutex_running idle m) k"
  shows "keeps (mutex_running idle m) (back_at t (mutex_running idle m)) (resumes t) (lock_inherit m t k)"
proof -
  have "keeps (mutex_running idle m) (back_at t (mutex_running idle m)) (resumes t)
    (if b then mutex_boost m t p k else Done () k)" for b p
    using mutex_boost_keeps [OF k active_known [OF k]] k by simp
  then show ?thesis unfolding lock_inherit_def by (rule keeps_andthen) simp
qed

lemma lock_protect_keeps:
  assumes k: "back_at t (mutex_running idle m) k"
  shows "keeps (mutex_running idle m) (back_at t (mutex_running idle m)) (resumes t) (lock_protect m t k)"
proof -
  have d: "back_at t (mutex_running idle m) (INT_DISABLE k)" using k by simp
  have "keeps (mutex_running idle m) (back_at t (mutex_running idle m)) (resumes t)
    (andthen (mutex_boost m t p (INT_DISABLE k)) (\<lambda>_ k1. Done MQX_EOK (INT_ENABLE k1)))" for p
    by (rule keeps_andthen [OF mutex_boost_keeps [OF d active_known [OF d]]]) simp
  then show ?thesis using k by (simp add: lock_protect_def)
qed

lemma mutex_take_keeps:
  assumes "back_at t (mutex_running idle m) k" "\<And>v. OWNER_TD (f v) = t"
  shows "back_at t (mutex_running idle m) (upd_mutex m f k)"
  using assms active_known [OF assms(1)] by (simp add: back_at_def mutex_running_def mutex_env_def)

lemma lock_queue_keeps:
  assumes k: "back_at t (mutex_running idle m) k" and t: "t \<noteq> idle"
  shows "keeps (mutex_running idle m) (back_at t (mutex_running idle m)) (resumes t) (lock_queue m t p k)"
proof -
  let ?k = "INT_DISABLE k"
  have d: "back_at t (mutex_running idle m) ?k" using k by simp
  have "keeps (mutex_running idle m) (back_at t (mutex_running idle m)) (resumes t)
    (if LOCK (mutex_at m ?k) \<noteq> 0 then lock_wait m t p ?k
     else Done MQX_EOK (upd_mutex m (\<lambda>v. v\<lparr>LOCK := MQX_TEST_AND_SET_VALUE, OWNER_TD := t\<rparr>) ?k))"
    using lock_wait_keeps [OF d t] mutex_take_keeps [OF d] by simp
  then show ?thesis unfolding lock_queue_def Let_def by (rule keeps_andthen) (simp add: lock_inherit_keeps)
qed

lemma yield_switch_keeps:
  assumes "back_at t (mutex_running idle m) k"
  shows "mutex_running idle m (yield_switch t k)"
proof -
  have r: "running idle k" "ACTIVE_PTR k = t" "mutex_env m k" using assms by (simp_all add: back_at_def mutex_running_def)
  have "running idle (yield_switch t k)"
    using switch_running [OF yield_requeue [OF r(1)]] r(2) by (simp add: yield_switch_def)
  moreover have "frame_eq k (yield_switch t k)" unfolding yield_switch_def by (meson frame_eq_simps frame_eq_trans)
  then have "mutex_env m (yield_switch t k)" using mutex_env_frame [OF r(3)] by blast
  ultimately show ?thesis by (simp add: mutex_running_def)
qed

lemma mem_test_and_set_simps [simp]:
  "fst (mem_test_and_set m k) = LOCK (mutex_at m k)" "ACTIVE_PTR (snd (mem_test_and_set m k)) = ACTIVE_PTR k"
  "LOCK (mutex_at m k) \<noteq> 0 \<Longrightarrow> snd (mem_test_and_set m k) = k"
  "LOCK (mutex_at m k) = 0 \<Longrightarrow> snd (mem_test_and_set m k) = upd_mutex m (\<lambda>v. v\<lparr>LOCK := MQX_TEST_AND_SET_VALUE\<rparr>) k"
  by (simp_all add: mem_test_and_set_def Let_def)

lemma upd_mutex_twice: "upd_mutex m f (upd_mutex m g k) = upd_mutex m (\<lambda>v. f (g v)) k"
  "upd_mutex m f (INT_ENABLE k) = INT_ENABLE (upd_mutex m f k)"
  by (simp_all add: upd_mutex_def INT_ENABLE_def upd_td_def)

text \<open>What may happen in the window of a spinning lock: the kernel keeps running, tasks keep proper priorities of
  their own and the caller is active again at the end.\<close>

definition homes_ok :: "kernel \<Rightarrow> bool" where
  "homes_ok k \<longleftrightarrow> (\<forall>t \<in> set (TD_LIST k). HOME_QUEUE (TDS k t) < priority_levels k)"

definition spin_window :: "addr \<Rightarrow> addr \<Rightarrow> (kernel \<Rightarrow> kernel) \<Rightarrow> bool" where
  "spin_window idle t W \<longleftrightarrow> (\<forall>k. running idle k \<and> homes_ok k \<and> ACTIVE_PTR k = t \<longrightarrow>
     running idle (W k) \<and> homes_ok (W k) \<and> ACTIVE_PTR (W k) = t)"

lemma spin_take_keeps:
  assumes k: "back_at t (mutex_running idle m) k" and w: "spin_window idle t W"
  shows "back_at t (mutex_running idle m) (upd_mutex m (\<lambda>v. v\<lparr>OWNER_TD := t\<rparr>) (W (upd_mutex m (\<lambda>v. v\<lparr>LOCK := MQX_TEST_AND_SET_VALUE\<rparr>) k)))"
    "back_at t (mutex_running idle m)
       (upd_mutex m (\<lambda>v. v\<lparr>OWNER_TD := t\<rparr>) (W (INT_ENABLE (upd_mutex m (\<lambda>v. v\<lparr>LOCK := MQX_TEST_AND_SET_VALUE\<rparr>) k))))"
proof -
  have t: "back_at t (mutex_running idle m) (upd_mutex m (\<lambda>v. v\<lparr>OWNER_TD := t\<rparr>) (W x))"
    if "running idle x \<and> homes_ok x \<and> ACTIVE_PTR x = t" for x
  proof -
    have "running idle (W x)" "homes_ok (W x)" "ACTIVE_PTR (W x) = t" using w that unfolding spin_window_def by blast+
    moreover from this have "t \<in> set (TD_LIST (W x))" by (auto simp: running_def top_active_def ready_tasks_def)
    ultimately show ?thesis by (simp add: back_at_def mutex_running_def mutex_env_def homes_ok_def)
  qed
  show "back_at t (mutex_running idle m) (upd_mutex m (\<lambda>v. v\<lparr>OWNER_TD := t\<rparr>) (W (upd_mutex m (\<lambda>v. v\<lparr>LOCK := MQX_TEST_AND_SET_VALUE\<rparr>) k)))"
    "back_at t (mutex_running idle m)
       (upd_mutex m (\<lambda>v. v\<lparr>OWNER_TD := t\<rparr>) (W (INT_ENABLE (upd_mutex m (\<lambda>v. v\<lparr>LOCK := MQX_TEST_AND_SET_VALUE\<rparr>) k))))"
    by (rule t; use k in \<open>simp add: back_at_def mutex_running_def mutex_env_def homes_ok_def\<close>)+
qed

text \<open>In that window a mutex that was free is locked without an owner.\<close>

lemma spin_window_without_owner:
  assumes "OWNER_TD (mutex_at m k) = NULL" "NULL \<notin> set (TD_LIST k)"
  shows "\<not> mutex_env m (upd_mutex m (\<lambda>v. v\<lparr>LOCK := MQX_TEST_AND_SET_VALUE\<rparr>) k)"
  using assms by (simp add: mutex_env_def)

lemma poll_round_keeps:
  assumes k: "back_at t (mutex_running idle m) k" and w: "spin_window idle t W"
  shows "keeps (mutex_running idle m) (back_at t (mutex_running idle m)) (resumes t) (poll_round W m t limited count k)"
  using k spin_take_keeps [OF k w]
  by (cases "LOCK (mutex_at m k) = 0") (simp_all add: poll_round_def split_beta Let_def)

lemma inherit_round_keeps:
  assumes k: "back_at t (mutex_running idle m) k" and w: "spin_window idle t W"
  shows "keeps (mutex_running idle m) (back_at t (mutex_running idle m)) (resumes t) (inherit_round W m t p limited count k)"
proof (cases "count \<noteq> 0 \<and> LOCK (mutex_at m k) \<noteq> 0")
  case True
  then have "OWNER_TD (mutex_at m k) \<in> set (TD_LIST k)" using k by (simp add: back_at_def mutex_running_def mutex_env_def)
  then have "keeps (mutex_running idle m) (back_at t (mutex_running idle m)) (resumes t)
    (andthen (mutex_boost m (OWNER_TD (mutex_at m k)) p k) (\<lambda>_ k1. Done (Inr (count - limited) :: u32 + u32) (INT_ENABLE k1)))"
    by (intro keeps_andthen [OF mutex_boost_keeps [OF k]]) simp_all
  then show ?thesis using True by (simp add: inherit_round_def)
next
  case False
  then show ?thesis using k spin_take_keeps [OF k w] by (auto simp: inherit_round_def Let_def)
qed

lemma lock_spin_keeps:
  assumes k: "back_at t (mutex_running idle m) k" and w: "spin_window idle t W"
  shows "keeps (mutex_running idle m) (back_at t (mutex_running idle m)) (resumes t) (lock_spin W m t p k)"
proof -
  have d: "back_at t (mutex_running idle m) (INT_DISABLE k)" using k by simp
  have b: "back_at t (mutex_running idle m) (INT_ENABLE k')" "back_at t (mutex_running idle m) (INT_DISABLE (INT_ENABLE k'))"
    if "mutex_running idle m k'" "resumes t k'" for k'
    using that by (simp_all add: back_at_def resumes_def)
  have "keeps (mutex_running idle m) (back_at t (mutex_running idle m)) (resumes t)
      (spin (yield_switch t) (inherit_resumed W m t p l) (inherit_round W m t p l c (INT_DISABLE k)))" for l c
    by (rule keeps_spin [OF inherit_round_keeps [OF d w]])
      (use b w in \<open>auto simp: yield_switch_keeps inherit_resumed_def Let_def inherit_round_keeps\<close>)
  moreover have "keeps (mutex_running idle m) (back_at t (mutex_running idle m)) (resumes t)
      (spin (yield_switch t) (poll_resumed W m t l) (poll_round W m t l c k))" for l c
    by (rule keeps_spin [OF poll_round_keeps [OF k w]])
      (use b w in \<open>auto simp: yield_switch_keeps poll_resumed_def Let_def poll_round_keeps\<close>)
  ultimately show ?thesis by (simp add: lock_spin_def Let_def)
qed

lemma mutex_lock_keeps:
  assumes k: "mutex_running idle m k" and a: "ACTIVE_PTR k \<noteq> idle"
    and w: "mutex_has MUTEX_SPIN_ONLY m k \<or> mutex_has MUTEX_LIMITED_SPIN m k \<longrightarrow> spin_window idle (ACTIVE_PTR k) W"
  shows "keeps (mutex_running idle m) (back_at (ACTIVE_PTR k) (mutex_running idle m)) (resumes (ACTIVE_PTR k)) (mutex_lock W m k)"
proof -
  have d: "back_at (ACTIVE_PTR k) (mutex_running idle m) k" using k by (simp add: back_at_def)
  let ?b = "mutex_has MUTEX_SPIN_ONLY m k \<or> mutex_has MUTEX_LIMITED_SPIN m k"
  have "keeps (mutex_running idle m) (back_at (ACTIVE_PTR k) (mutex_running idle m)) (resumes (ACTIVE_PTR k))
    (andthen (if ?b then lock_spin W m (ACTIVE_PTR k) p k else lock_queue m (ACTIVE_PTR k) p k)
      (\<lambda>result k1. if result \<noteq> MQX_EOK then Done result k1 else lock_protect m (ACTIVE_PTR k) k1))" for p
  proof (rule keeps_andthen)
    show "keeps (mutex_running idle m) (back_at (ACTIVE_PTR k) (mutex_running idle m)) (resumes (ACTIVE_PTR k))
      (if ?b then lock_spin W m (ACTIVE_PTR k) p k else lock_queue m (ACTIVE_PTR k) p k)"
      using lock_spin_keeps [OF d, of W] w lock_queue_keeps [OF d a] by simp
  qed (simp add: lock_protect_keeps)
  then show ?thesis using d by (auto simp: mutex_lock_def Let_def)
qed

lemma mutex_try_lock_keeps:
  assumes k: "mutex_running idle m k"
  shows "keeps (mutex_running idle m) (back_at (ACTIVE_PTR k) (mutex_running idle m)) (resumes (ACTIVE_PTR k)) (mutex_try_lock m k)"
proof -
  have d: "back_at (ACTIVE_PTR k) (mutex_running idle m) (INT_DISABLE k)" using k by (simp add: back_at_def)
  let ?k = "INT_ENABLE (upd_mutex m (\<lambda>v. v\<lparr>LOCK := MQX_TEST_AND_SET_VALUE, OWNER_TD := ACTIVE_PTR k\<rparr>) (INT_DISABLE k))"
  have "back_at (ACTIVE_PTR k) (mutex_running idle m) ?k" using mutex_take_keeps [OF d] by simp
  from lock_protect_keeps [OF this] show ?thesis
    using k by (cases "LOCK (mutex_at m k) = 0")
      (auto simp: mutex_try_lock_def split_beta Let_def upd_mutex_twice back_at_def)
qed

text \<open>A better task may just have become ready.\<close>

definition mutex_unsettled :: "addr \<Rightarrow> addr \<Rightarrow> kernel \<Rightarrow> bool" where
  "mutex_unsettled idle m k \<longleftrightarrow> unsettled idle k \<and> mutex_env m k"

lemma mutex_check_keeps:
  assumes "back_at t (mutex_unsettled idle m) k"
  shows "keeps (mutex_running idle m) (back_at t (mutex_running idle m)) (resumes t) (sched_check_scheduler k)"
  using assms by (intro mutex_keepsI check_keeps check_stable mutex_env_stable) (auto simp: back_at_def mutex_unsettled_def)

lemma mutex_boost_check_keeps:
  assumes k: "back_at t (mutex_unsettled idle m) k" and x: "x \<in> set (TD_LIST k)"
  shows "keeps (mutex_running idle m) (back_at t (mutex_running idle m)) (resumes t)
    (andthen (if b then mutex_boost m x p k else Done () k) (\<lambda>_ k1. sched_check_scheduler k1))"
proof (cases "b \<and> HOME_QUEUE (TDS k x) > p")
  case True
  let ?S = "mutex_running idle m" and ?D = "back_at t (mutex_running idle m)" and ?U = "back_at t (mutex_unsettled idle m)"
  let ?c = "\<lambda>k. sched_check_scheduler (upd_mutex m (\<lambda>v. v\<lparr>MTX_BOOSTED := MTX_BOOSTED v + 1\<rparr>) k)"
  have c: "keeps ?S ?D (resumes t) (?c k1)" if "?U k1" for k1
    by (rule mutex_check_keeps) (use that in \<open>simp add: back_at_def mutex_unsettled_def mutex_env_def\<close>)
  have e: "unsettled idle k" "back_at t (mutex_env m) k" "p < priority_levels k"
    using k x True by (auto simp: mutex_unsettled_def back_at_def mutex_env_def intro: less_trans)
  have "keeps ?S ?D (resumes t) (sched_boost_priority x p k)"
    by (rule mutex_keepsI [OF sched_boost_priority_keeps [OF e(1) x e(3)] boost_stable [OF mutex_env_stable e(2)]])
  then have "keeps ?S ?D (resumes t) (andthen (sched_boost_priority x p k) (\<lambda>_ k1. ?c k1))"
    by (rule keeps_andthen) (auto intro!: c simp: back_at_def mutex_running_def mutex_unsettled_def running_unsettled)
  then show ?thesis using True c [OF k] by (simp add: mutex_boost_def andthen_assoc)
next
  case False
  then show ?thesis using mutex_check_keeps [OF k] by (auto simp: mutex_boost_def)
qed

lemma unlock_handover_keeps:
  assumes k: "back_at a (mutex_running idle m) k" and t: "mutex_waiters m k = t # ts"
  shows "keeps (mutex_running idle m) (back_at a (mutex_running idle m)) (resumes a) (unlock_handover m t k)"
proof -
  let ?u = "upd_mutex m (\<lambda>v. v\<lparr>OWNER_TD := t\<rparr>) k"
  let ?w = "tdq_wake (MTX_WAITING_TASKS m) t ?u"
  have w: "t \<in> set (TD_QUEUES ?u (MTX_WAITING_TASKS m))" using t by (simp add: mutex_waiters_def)
  have "running idle k" using k by (simp add: back_at_def mutex_running_def)
  then have u: "unsettled idle ?u" and l: "t \<in> set (TD_LIST k)"
    using w by (auto simp: running_unsettled running_def kinv_def placed_def)
  have "mutex_env m ?u" using k l by (simp add: back_at_def mutex_running_def mutex_env_def)
  moreover have "frame_eq ?u ?w" unfolding tdq_wake_def by (meson frame_eq_simps frame_eq_trans)
  ultimately have "mutex_env m ?w" using mutex_env_frame by blast
  then have b: "back_at a (mutex_unsettled idle m) ?w"
    using k tdq_wake_unsettled(1) [OF u w] by (simp add: back_at_def mutex_unsettled_def tdq_wake_def)
  have "t \<in> set (TD_LIST ?w)" using l by (simp add: tdq_wake_def)
  from mutex_boost_check_keeps [OF b this] show ?thesis by (simp add: unlock_handover_def Let_def)
qed

lemma mutex_unboost_keeps:
  assumes k: "back_at a (mutex_running idle m) k"
  shows "keeps (mutex_running idle m) (back_at a (mutex_running idle m)) (resumes a)
    (if b then sched_unboost_priority a n k else Done () k)"
proof -
  have "running idle k" "back_at a (mutex_env m) k" "HOME_QUEUE (TDS k a) < priority_levels k"
    using k active_known [OF k] by (auto simp: back_at_def mutex_running_def mutex_env_def)
  from mutex_keepsI [OF sched_unboost_priority_keeps [OF this(1) active_known [OF k] this(3)] unboost_stable [OF mutex_env_stable this(2)]]
  show ?thesis using k by simp
qed

lemma mutex_free_keeps:
  assumes "back_at a (mutex_running idle m) k" "\<And>v. LOCK (f v) = 0"
  shows "back_at a (mutex_running idle m) (upd_mutex m f k)"
  using assms by (simp add: back_at_def mutex_running_def mutex_env_def)

lemma mutex_unlock_keeps:
  assumes k: "mutex_running idle m k"
  shows "keeps (mutex_running idle m) (back_at (ACTIVE_PTR k) (mutex_running idle m)) (resumes (ACTIVE_PTR k)) (mutex_unlock m k)"
proof -
  let ?a = "ACTIVE_PTR k"
  let ?S = "mutex_running idle m" and ?D = "back_at (ACTIVE_PTR k) (mutex_running idle m)"
  let ?k = "upd_mutex m (\<lambda>v. v\<lparr>MTX_BOOSTED := 0\<rparr>) (INT_DISABLE k)"
  let ?f = "\<lambda>v. v\<lparr>LOCK := 0, OWNER_TD := NULL\<rparr>"
  have d: "?D ?k" using k by (simp add: back_at_def mutex_running_def mutex_env_def)
  have "keeps ?S ?D (resumes ?a) (if mutex_has (MUTEX_SPIN_ONLY OR MUTEX_LIMITED_SPIN) m ?k
       then Done () (upd_mutex m (\<lambda>v. v\<lparr>OWNER_TD := NULL, LOCK := 0\<rparr>) ?k)
       else case mutex_waiters m ?k of t # _ \<Rightarrow> unlock_handover m t ?k | [] \<Rightarrow> Done () (upd_mutex m ?f ?k))"
    using mutex_free_keeps [OF d] unlock_handover_keeps [OF d] by (simp split: list.splits)
  then have "keeps ?S ?D (resumes ?a) (andthen (if mutex_has (MUTEX_SPIN_ONLY OR MUTEX_LIMITED_SPIN) m ?k
       then Done () (upd_mutex m (\<lambda>v. v\<lparr>OWNER_TD := NULL, LOCK := 0\<rparr>) ?k)
       else case mutex_waiters m ?k of t # _ \<Rightarrow> unlock_handover m t ?k | [] \<Rightarrow> Done () (upd_mutex m ?f ?k))
      (\<lambda>_ k3. andthen (if b then sched_unboost_priority (ACTIVE_PTR k3) n k3 else Done () k3) (\<lambda>_ k4. Done MQX_EOK (INT_ENABLE k4))))" for b n
  proof (rule keeps_andthen)
    fix k3 assume "?D k3"
    then have "keeps ?S ?D (resumes ?a) (if b then sched_unboost_priority (ACTIVE_PTR k3) n k3 else Done () k3)"
      using mutex_unboost_keeps [of ?a idle m k3 b n] by (auto simp: back_at_def split: if_splits)
    then show "keeps ?S ?D (resumes ?a) (andthen (if b then sched_unboost_priority (ACTIVE_PTR k3) n k3 else Done () k3)
        (\<lambda>_ k4. Done MQX_EOK (INT_ENABLE k4)))" by (rule keeps_andthen) simp
  qed
  then show ?thesis using k unfolding mutex_unlock_def Let_def by (auto simp: back_at_def)
qed

lemma frame_eq_error [simp]: "frame_eq k (snd (task_set_error_td t e k))"
  by (simp add: task_set_error_td_def Let_def frame_eq_def)

text \<open>A task taken off a wait queue and not yet ready, in a kernel that is consistent otherwise.\<close>

definition in_transit :: "addr \<Rightarrow> addr \<Rightarrow> kernel \<Rightarrow> bool" where
  "in_transit idle t k \<longleftrightarrow> floating t k \<and> ACTIVE_PTR k \<in> ready_tasks k \<and> idle \<in> ready_tasks k \<and> \<not> STUCK k \<and> IN_ISR k = 0"

text \<open>What may happen in the windows of the loop: the kernel stays consistent, a waiter that has been taken off the
  queue stays where it is, the caller is active again at the end, and nobody joins the queue of the invalid mutex.\<close>

definition destroy_window :: "addr \<Rightarrow> addr \<Rightarrow> addr \<Rightarrow> (kernel \<Rightarrow> kernel) \<Rightarrow> bool" where
  "destroy_window idle m a W \<longleftrightarrow>
     (\<forall>k. back_at a (mutex_env m) k \<longrightarrow>
        (unsettled idle k \<longrightarrow> unsettled idle (W k) \<and> back_at a (mutex_env m) (W k)) \<and>
        (\<forall>t. in_transit idle t k \<longrightarrow> in_transit idle t (W k) \<and> back_at a (mutex_env m) (W k)) \<and>
        length (mutex_waiters m (W k)) \<le> length (mutex_waiters m k))"

lemma windows_id [simp]: "spin_window idle t (\<lambda>k. k)" "destroy_window idle m a (\<lambda>k. k)"
  by (simp_all add: spin_window_def destroy_window_def)

lemma dequeue_in_transit:
  fixes e :: u32
  assumes u: "unsettled idle k" and t: "t \<in> set (TD_QUEUES k q)"
  defines "k' \<equiv> snd (task_set_error_td t e (TDQ_SET q (removeAll t (TD_QUEUES k q)) k))"
  shows "in_transit idle t k'" "TD_QUEUES k' q = removeAll t (TD_QUEUES k q)" "frame_eq k k'" "ACTIVE_PTR k' = ACTIVE_PTR k"
proof -
  let ?r = "TDQ_SET q (removeAll t (TD_QUEUES k q)) k"
  have "floating t ?r" using u by (intro TDQ_remove_floating [OF _ t]) (simp add: unsettled_def)
  moreover have "same_queues ?r k'" by (auto simp: k'_def task_set_error_td_def Let_def intro: same_upd)
      (simp add: same_queues_def)
  ultimately have "floating t k'" using floating_same by blast
  moreover have f: "ACTIVE_PTR k' = ACTIVE_PTR k" "STUCK k' = STUCK k" "IN_ISR k' = IN_ISR k" "ready_tasks k' = ready_tasks k"
    "TD_QUEUES k' q = removeAll t (TD_QUEUES k q)"
    by (auto simp: k'_def task_set_error_td_def Let_def ready_tasks_def)
  ultimately show "in_transit idle t k'" using u by (simp add: in_transit_def unsettled_def)
  show "TD_QUEUES k' q = removeAll t (TD_QUEUES k q)" "ACTIVE_PTR k' = ACTIVE_PTR k" by (fact f)+
  show "frame_eq k k'" unfolding k'_def by (meson frame_eq_simps frame_eq_error frame_eq_trans)
qed

lemma in_transit_ready:
  assumes "in_transit idle t k"
  shows "unsettled idle (INT_ENABLE (TASK_READY t (INT_DISABLE k)))"
proof -
  have l: "floating t (INT_DISABLE k)" using assms floating_same [of k "INT_DISABLE k"] by (simp add: in_transit_def)
  then have "kinv (TASK_READY t (INT_DISABLE k))" by (rule TASK_READY_kinv)
  moreover have "t \<in> set (TD_LIST k)" using assms by (simp add: in_transit_def floating_def)
  ultimately show ?thesis using assms by (simp add: unsettled_def in_transit_def ready_tasks_TASK_READY)
qed

lemma destroy_waiters_unsettled:
  assumes w: "destroy_window idle m a W"
  shows "unsettled idle k \<Longrightarrow> back_at a (mutex_env m) k \<Longrightarrow> length (mutex_waiters m k) \<le> n \<Longrightarrow>
    unsettled idle (destroy_waiters W (MTX_WAITING_TASKS m) n k) \<and> back_at a (mutex_env m) (destroy_waiters W (MTX_WAITING_TASKS m) n k)
    \<and> mutex_waiters m (destroy_waiters W (MTX_WAITING_TASKS m) n k) = []"
proof (induction n arbitrary: k)
  case (Suc n)
  let ?q = "MTX_WAITING_TASKS m"
  show ?case
  proof (cases "TD_QUEUES k ?q")
    case (Cons t ts)
    define k1 where "k1 = snd (task_set_error_td t MQX_EINVAL (TDQ_SET ?q (removeAll t (TD_QUEUES k ?q)) k))"
    define k2 where "k2 = INT_ENABLE (TASK_READY t (INT_DISABLE (W k1)))"
    have "t \<in> set (TD_QUEUES k ?q)" using Cons by simp
    note d = dequeue_in_transit [OF Suc.prems(1) this, of MQX_EINVAL, folded k1_def]
    have "length (removeAll t ts) \<le> length ts" by (simp add: removeAll_filter_not_eq)
    also have "length ts \<le> n" using Cons Suc.prems(3) by (simp add: mutex_waiters_def)
    finally have "length (mutex_waiters m k1) \<le> n" using d(2) Cons by (simp add: mutex_waiters_def)
    moreover have e1: "back_at a (mutex_env m) k1" using Suc.prems(2) d(3,4) mutex_env_frame [of m k k1] by (simp add: back_at_def)
    ultimately have k1: "in_transit idle t (W k1)" "back_at a (mutex_env m) (W k1)" "length (mutex_waiters m (W k1)) \<le> n"
      using w d(1) le_trans unfolding destroy_window_def by blast+
    then have "unsettled idle k2" "back_at a (mutex_env m) k2" "length (mutex_waiters m k2) \<le> n"
      using in_transit_ready [of idle t "W k1"] by (simp_all add: k2_def back_at_def mutex_env_def mutex_waiters_def)
    then have "unsettled idle (W k2)" "back_at a (mutex_env m) (W k2)" "length (mutex_waiters m (W k2)) \<le> n"
      using w le_trans unfolding destroy_window_def by blast+
    then show ?thesis using Suc.IH [of "W k2"] Cons by (simp add: Let_def k1_def k2_def)
  qed (use Suc.prems in \<open>simp add: mutex_waiters_def\<close>)
qed simp

lemma unboost_unsettled_keeps:
  assumes u: "back_at a (mutex_unsettled idle m) k"
  shows "keeps (mutex_running idle m) (back_at a (mutex_unsettled idle m)) (resumes a)
    (if b then sched_unboost_priority (ACTIVE_PTR k) n k else Done () k)"
proof -
  have e: "unsettled idle k" "back_at a (mutex_env m) k" "a \<in> set (TD_LIST k)" "ACTIVE_PTR k = a"
    using u by (auto simp: back_at_def mutex_unsettled_def unsettled_def ready_tasks_def)
  then have "HOME_QUEUE (TDS k a) < priority_levels k" by (simp add: back_at_def mutex_env_def)
  from keeps_conj [OF sched_unboost_priority_unsettled [OF e(1,3) this] unboost_stable [OF mutex_env_stable e(2)]]
  have "keeps (mutex_running idle m) (back_at a (mutex_unsettled idle m)) (resumes a) (sched_unboost_priority a n k)"
    by (simp add: mutex_running_def [abs_def] mutex_unsettled_def [abs_def] back_at_def [abs_def])
  with u e(4) show ?thesis by simp
qed

lemma destroy_locked_keeps:
  assumes k: "back_at a (mutex_running idle m) k" and w: "destroy_window idle m a W"
  shows "keeps (mutex_running idle m) (back_at a (mutex_running idle m)) (resumes a) (destroy_locked W m k)"
proof -
  let ?S = "mutex_running idle m" and ?D = "back_at a (mutex_running idle m)" and ?U = "back_at a (mutex_unsettled idle m)"
  define k2 where "k2 = upd_mutex m (\<lambda>v. v\<lparr>MTX_VALID := 0\<rparr>) k"
  define k3 where "k3 = (if m \<in> set (MUTEX_LIST (OBJ k2))
                then INT_ENABLE ((INT_DISABLE k2)\<lparr>OBJ := (OBJ k2)\<lparr>MUTEX_LIST := removeAll m (MUTEX_LIST (OBJ k2))\<rparr>\<rparr>)
                else k2)"
  define k4 where "k4 = INT_DISABLE (destroy_waiters W (MTX_WAITING_TASKS m) (length (mutex_waiters m k3)) k3)"
  have "?D k2" using k by (simp add: k2_def back_at_def mutex_running_def mutex_env_def)
  then have "?D k3" by (auto simp: k3_def back_at_def mutex_running_def mutex_env_def mutex_at_def)
  then have "?U k4"
    using destroy_waiters_unsettled [OF w, of k3 "length (mutex_waiters m k3)"]
    by (simp add: k4_def back_at_def mutex_unsettled_def mutex_running_def running_unsettled)
  then have "keeps ?S ?D (resumes a)
     (andthen (if b then sched_unboost_priority (ACTIVE_PTR k4) n k4 else Done () k4)
        (\<lambda>_ k5. andthen (sched_check_scheduler (INT_ENABLE k5)) (\<lambda>_ k6. Done MQX_EOK k6)))" for b n
    by (rule keeps_andthen [OF unboost_unsettled_keeps], intro keeps_andthen [OF mutex_check_keeps])
      (simp_all add: back_at_def mutex_unsettled_def)
  then show ?thesis unfolding destroy_locked_def Let_def k2_def [symmetric] k3_def [symmetric] k4_def [symmetric] .
qed

lemma mutex_destroy_keeps:
  assumes k: "mutex_running idle m k" and a: "ACTIVE_PTR k \<noteq> idle" and d: "destroy_window idle m (ACTIVE_PTR k) W"
    and w: "mutex_has MUTEX_SPIN_ONLY m k \<or> mutex_has MUTEX_LIMITED_SPIN m k \<longrightarrow> spin_window idle (ACTIVE_PTR k) W"
  shows "keeps (mutex_running idle m) (back_at (ACTIVE_PTR k) (mutex_running idle m)) (resumes (ACTIVE_PTR k)) (mutex_destroy W m k)"
proof -
  let ?S = "mutex_running idle m" and ?D = "back_at (ACTIVE_PTR k) (mutex_running idle m)"
  have "keeps ?S ?D (resumes (ACTIVE_PTR k)) (if OWNER_TD (mutex_at m k) \<noteq> ACTIVE_PTR k then mutex_lock W m k else Done MQX_EOK k)"
    using mutex_lock_keeps [OF k a w] k by (simp add: back_at_def)
  then have "keeps ?S ?D (resumes (ACTIVE_PTR k))
      (andthen (if OWNER_TD (mutex_at m k) \<noteq> ACTIVE_PTR k then mutex_lock W m k else Done MQX_EOK k)
        (\<lambda>result k1. if result \<noteq> MQX_EOK then Done result k1 else destroy_locked W m k1))"
    by (rule keeps_andthen) (simp add: destroy_locked_keeps d)
  then show ?thesis using k unfolding mutex_destroy_def by (auto simp: back_at_def split: option.splits)
qed

text \<open>
  C24 (invariant). Mutex operations keep the kernel in running states in which a locked mutex has an existing
  owner, at every switch, however often waiting, spinning or a change of priorities causes one, and they
  return to their caller in one. Unlocking and trying do so unconditionally, and so does locking a
  queueing mutex. A spinning lock locks the mutex, enables interrupts and only then becomes its owner;
  destroying takes waiters off the queue with interrupts enabled. They do so under these conditions on what
  happens in those windows: the kernel stays running there, respectively consistent but for the waiter in
  transit, the caller is active again, and nobody joins the queue that is emptied.
\<close>

theorem mutex_operations_keep_running:
  assumes "mutex_running idle m k"
  shows "keeps (mutex_running idle m) (back_at (ACTIVE_PTR k) (mutex_running idle m)) (resumes (ACTIVE_PTR k)) (mutex_unlock m k)
    \<and> keeps (mutex_running idle m) (back_at (ACTIVE_PTR k) (mutex_running idle m)) (resumes (ACTIVE_PTR k)) (mutex_try_lock m k)
    \<and> (ACTIVE_PTR k \<noteq> idle \<and>
        (mutex_has MUTEX_SPIN_ONLY m k \<or> mutex_has MUTEX_LIMITED_SPIN m k \<longrightarrow> spin_window idle (ACTIVE_PTR k) W) \<longrightarrow>
       keeps (mutex_running idle m) (back_at (ACTIVE_PTR k) (mutex_running idle m)) (resumes (ACTIVE_PTR k)) (mutex_lock W m k)
     \<and> (destroy_window idle m (ACTIVE_PTR k) W \<longrightarrow>
       keeps (mutex_running idle m) (back_at (ACTIVE_PTR k) (mutex_running idle m)) (resumes (ACTIVE_PTR k)) (mutex_destroy W m k)))"
  using assms by (simp add: mutex_unlock_keeps mutex_try_lock_keeps mutex_lock_keeps mutex_destroy_keeps)

lemma demo_mutex: "mutex_running 100 64 demo" "ACTIVE_PTR demo = 200" "mutex_valid 64 demo"
  "LOCK (mutex_at 64 demo) = 0" "PROTOCOLS (mutex_at 64 demo) = 4" "mutex_waiters 64 demo = []"
  using demo_running
  by (auto simp: mutex_running_def mutex_env_def mutex_valid_def mutex_at_def mutex_waiters_def demo_def mk_td_def priority_levels_def)

theorem mutex_operations_keep_running_witness:
  "keeps (mutex_running 100 64) (back_at 200 (mutex_running 100 64)) (resumes 200) (mutex_lock (\<lambda>k. k) 64 demo)
   \<and> keeps (mutex_running 100 64) (back_at 200 (mutex_running 100 64)) (resumes 200) (mutex_destroy (\<lambda>k. k) 64 demo)"
  using mutex_operations_keep_running [OF demo_mutex(1), of "\<lambda>k. k"] demo_mutex(2) by simp

subsection \<open>Ownership\<close>

text \<open>
  The contract of a lock with a queue of waiters: who owns it, who waits and in which order they were put.
  Each operation is called by \<open>self\<close>; the laws say what it does to the owner and the waiters by the time
  it returns or its caller is switched out.
\<close>

definition wf_lock :: "'a option \<Rightarrow> 'a list \<Rightarrow> bool" where
  "wf_lock owner waiting \<longleftrightarrow> distinct waiting \<and> (case owner of None \<Rightarrow> waiting = [] | Some x \<Rightarrow> x \<notin> set waiting)"

locale exclusive_lock =
  fixes ok :: "'s \<Rightarrow> bool" and self :: "'s \<Rightarrow> 'a" and owner :: "'s \<Rightarrow> 'a option" and waiting :: "'s \<Rightarrow> 'a list"
    and put :: "'s \<Rightarrow> 'a \<Rightarrow> 'a list \<Rightarrow> 'a list" and lock :: "'s \<Rightarrow> 's" and try_lock :: "'s \<Rightarrow> 's" and unlock :: "'s \<Rightarrow> 's"
  assumes ok_wf: "ok s \<Longrightarrow> wf_lock (owner s) (waiting s)" and self_runs: "ok s \<Longrightarrow> self s \<notin> set (waiting s)"
    and put_set: "set (put s t ws) = insert t (set ws)" and put_distinct: "distinct (put s t ws) \<longleftrightarrow> t \<notin> set ws \<and> distinct ws"
    and lock_free: "ok s \<Longrightarrow> owner s = None \<Longrightarrow> owner (lock s) = Some (self s) \<and> waiting (lock s) = []"
    and lock_held: "ok s \<Longrightarrow> owner s = Some x \<Longrightarrow> x \<noteq> self s \<Longrightarrow>
      owner (lock s) = Some x \<and> waiting (lock s) = put s (self s) (waiting s)"
    and lock_own: "ok s \<Longrightarrow> owner s = Some (self s) \<Longrightarrow> owner (lock s) = owner s \<and> waiting (lock s) = waiting s"
    and try_free: "ok s \<Longrightarrow> owner s = None \<Longrightarrow> owner (try_lock s) = Some (self s) \<and> waiting (try_lock s) = []"
    and try_held: "ok s \<Longrightarrow> owner s = Some x \<Longrightarrow> owner (try_lock s) = Some x \<and> waiting (try_lock s) = waiting s"
    and unlock_last: "ok s \<Longrightarrow> owner s = Some (self s) \<Longrightarrow> waiting s = [] \<Longrightarrow> owner (unlock s) = None \<and> waiting (unlock s) = []"
    and unlock_next: "ok s \<Longrightarrow> owner s = Some (self s) \<Longrightarrow> waiting s = t # ts \<Longrightarrow>
      owner (unlock s) = Some t \<and> waiting (unlock s) = ts"
    and unlock_foreign: "ok s \<Longrightarrow> owner s \<noteq> Some (self s) \<Longrightarrow> owner (unlock s) = owner s \<and> waiting (unlock s) = waiting s"
begin

lemma lock_wf: "ok s \<Longrightarrow> wf_lock (owner (lock s)) (waiting (lock s))"
proof (cases "owner s")
  case (Some x)
  assume o: "ok s"
  with Some show ?thesis using lock_held [OF o Some] lock_own [OF o] ok_wf [OF o] self_runs [OF o]
    by (cases "x = self s") (auto simp: wf_lock_def put_set put_distinct)
qed (auto simp: wf_lock_def dest: lock_free)

lemma try_wf: "ok s \<Longrightarrow> wf_lock (owner (try_lock s)) (waiting (try_lock s))"
  using ok_wf [of s] try_held [of s] try_free [of s] by (cases "owner s") (auto simp: wf_lock_def)

lemma unlock_wf: "ok s \<Longrightarrow> wf_lock (owner (unlock s)) (waiting (unlock s))"
proof (cases "owner s = Some (self s)")
  case True
  assume o: "ok s"
  then show ?thesis using True unlock_last [OF o True] unlock_next [OF o True] ok_wf [OF o]
    by (cases "waiting s") (auto simp: wf_lock_def)
next
  case False
  assume o: "ok s"
  then show ?thesis using unlock_foreign [OF o False] ok_wf [OF o] by simp
qed

text \<open>The owner changes only by a call on a free lock, in favour of the caller, or by its own unlock, in favour
  of the first waiter.\<close>

lemma owner_changes:
  assumes "ok s" "s' \<in> {lock s, try_lock s, unlock s}" "owner s' \<noteq> owner s"
  shows "owner s = None \<and> owner s' = Some (self s) \<or>
    owner s = Some (self s) \<and> owner s' = (case waiting s of [] \<Rightarrow> None | t # ts \<Rightarrow> Some t)"
proof (cases "owner s")
  case None
  then show ?thesis using assms lock_free try_free unlock_foreign by fastforce
next
  case (Some x)
  then show ?thesis using assms lock_held lock_own try_held unlock_last unlock_next unlock_foreign
    by (cases "x = self s"; cases "waiting s") auto
qed

end

text \<open>The model of a queueing mutex provides it.\<close>

definition mutex_owner :: "addr \<Rightarrow> kernel \<Rightarrow> addr option" where
  "mutex_owner m k = (if LOCK (mutex_at m k) = 0 then None else Some (OWNER_TD (mutex_at m k)))"

definition mutex_ok :: "addr \<Rightarrow> addr \<Rightarrow> kernel \<Rightarrow> bool" where
  "mutex_ok idle m k \<longleftrightarrow> mutex_running idle m k \<and> m \<noteq> NULL \<and> mutex_valid m k \<and> \<not> mutex_has 3 m k \<and>
     (LOCK (mutex_at m k) = 0 \<and> OWNER_TD (mutex_at m k) = NULL \<or> LOCK (mutex_at m k) = MQX_TEST_AND_SET_VALUE) \<and>
     NULL \<notin> set (TD_LIST k) \<and> wf_lock (mutex_owner m k) (mutex_waiters m k)"

definition mutex_put :: "addr \<Rightarrow> kernel \<Rightarrow> addr \<Rightarrow> addr list \<Rightarrow> addr list" where
  "mutex_put m k t ws = (if mutex_has MUTEX_PRIORITY_QUEUEING m k then insert_priorityq (prio_of k) t ws else ws @ [t])"

definition lock_view :: "addr \<Rightarrow> kernel \<Rightarrow> addr option \<times> addr list" where
  "lock_view m k = (mutex_owner m k, mutex_waiters m k)"

lemma not_spin: "\<not> mutex_has 3 m k \<Longrightarrow> \<not> mutex_has MUTEX_SPIN_ONLY m k \<and> \<not> mutex_has MUTEX_LIMITED_SPIN m k"
  by (simp add: mutex_has_def no_low_bits)

lemma view_stable: "stable (\<lambda>k. lock_view m k = v)"
  by (simp add: stable_def lock_view_def mutex_owner_def mutex_waiters_def mutex_at_def frame_eq_def)

lemma view_simps [simp]:
  "lock_view m (INT_ENABLE k) = lock_view m k" "lock_view m (INT_DISABLE k) = lock_view m k"
  "lock_view m (upd_mutex m (\<lambda>v. v\<lparr>MTX_BOOSTED := b v\<rparr>) k) = lock_view m k" "lock_view m (switch_task k) = lock_view m k"
  by (simp_all add: lock_view_def mutex_owner_def mutex_waiters_def)

text \<open>The view at the first switch or at the end of a program that keeps it.\<close>

abbreviation (input) shows_view :: "addr \<Rightarrow> addr \<Rightarrow> addr option \<times> addr list \<Rightarrow> (kernel, 'a) prog \<Rightarrow> bool" where
  "shows_view m t v p \<equiv> keeps (\<lambda>k. lock_view m k = v) (back_at t (\<lambda>k. lock_view m k = v)) (resumes t) p"

lemma shows_view_state: "shows_view m t v p \<Longrightarrow> lock_view m (state_of p) = v"
  by (erule keeps_state) (simp add: back_at_def)

lemma boost_view:
  assumes "back_at t (\<lambda>k. lock_view m k = v) k"
  shows "shows_view m t v (mutex_boost m x p k)"
proof -
  have "shows_view m t v (if b then sched_boost_priority x p k else Done () k)" for b
    using boost_stable [OF view_stable assms] assms by simp
  then have "shows_view m t v (andthen (if b then sched_boost_priority x p k else Done () k)
      (\<lambda>_ k1. Done () (upd_mutex m (\<lambda>v. v\<lparr>MTX_BOOSTED := MTX_BOOSTED v + 1\<rparr>) k1)))" for b
    by (rule keeps_andthen) (simp add: back_at_def)
  then show ?thesis using assms by (simp add: mutex_boost_def)
qed

lemma lock_inherit_view:
  assumes "back_at t (\<lambda>k. lock_view m k = v) k"
  shows "shows_view m t v (lock_inherit m t k)"
proof -
  have "shows_view m t v (if b then mutex_boost m t p k else Done () k)" for b p using boost_view [OF assms] assms by simp
  then show ?thesis unfolding lock_inherit_def by (rule keeps_andthen) (simp add: back_at_def)
qed

lemma lock_protect_view:
  assumes "back_at t (\<lambda>k. lock_view m k = v) k"
  shows "shows_view m t v (lock_protect m t k)"
proof -
  have d: "back_at t (\<lambda>k. lock_view m k = v) (INT_DISABLE k)" using assms by (simp add: back_at_def)
  have "shows_view m t v (andthen (mutex_boost m t p (INT_DISABLE k)) (\<lambda>_ k1. Done MQX_EOK (INT_ENABLE k1)))" for p
    by (rule keeps_andthen [OF boost_view [OF d]]) (simp add: back_at_def)
  then show ?thesis using assms by (simp add: lock_protect_def)
qed

lemma lock_free_view:
  assumes k: "mutex_ok idle m k" and f: "mutex_owner m k = None"
  shows "shows_view m (ACTIVE_PTR k) (Some (ACTIVE_PTR k), []) (mutex_lock W m k)"
proof -
  let ?t = "ACTIVE_PTR k" and ?v = "(Some (ACTIVE_PTR k), []) :: addr option \<times> addr list"
  let ?k = "upd_mutex m (\<lambda>v. v\<lparr>LOCK := MQX_TEST_AND_SET_VALUE, OWNER_TD := ?t\<rparr>) (INT_DISABLE k)"
  have l: "LOCK (mutex_at m k) = 0" "mutex_waiters m k = []" "OWNER_TD (mutex_at m k) = NULL"
    using f k by (auto simp: mutex_ok_def mutex_owner_def wf_lock_def split: if_splits)
  have t: "?t \<in> set (TD_LIST k)" "IN_ISR k = 0"
    using k by (simp_all add: mutex_ok_def mutex_running_def running_def top_active_def ready_tasks_def)
  then have n: "OWNER_TD (mutex_at m k) \<noteq> ?t" using l(3) k unfolding mutex_ok_def by metis
  have "back_at ?t (\<lambda>k. lock_view m k = ?v) ?k" using l by (simp add: back_at_def lock_view_def mutex_owner_def)
  from lock_inherit_view [OF this]
  have "shows_view m ?t ?v (andthen (lock_inherit m ?t ?k)
      (\<lambda>result k1. if result \<noteq> MQX_EOK then Done result k1 else lock_protect m ?t k1))"
    by (rule keeps_andthen) (simp add: lock_protect_view)
  then show ?thesis using k l t n not_spin [of m k]
    by (simp add: mutex_lock_def Let_def lock_queue_def mutex_ok_def)
qed

lemma try_lock_view:
  assumes k: "mutex_ok idle m k"
  shows "shows_view m (ACTIVE_PTR k)
    (case mutex_owner m k of None \<Rightarrow> (Some (ACTIVE_PTR k), []) | Some x \<Rightarrow> (Some x, mutex_waiters m k)) (mutex_try_lock m k)"
proof (cases "LOCK (mutex_at m k) = 0")
  case True
  let ?t = "ACTIVE_PTR k" and ?v = "(Some (ACTIVE_PTR k), []) :: addr option \<times> addr list"
  let ?k = "upd_mutex m (\<lambda>v. v\<lparr>LOCK := MQX_TEST_AND_SET_VALUE, OWNER_TD := ?t\<rparr>) (INT_DISABLE k)"
  have "mutex_waiters m k = []" using True k by (auto simp: mutex_ok_def mutex_owner_def wf_lock_def)
  then have "back_at ?t (\<lambda>k. lock_view m k = ?v) (INT_ENABLE ?k)" by (simp add: back_at_def lock_view_def mutex_owner_def)
  from lock_protect_view [OF this] show ?thesis
    using True k by (simp add: mutex_try_lock_def split_beta Let_def upd_mutex_twice mutex_ok_def mutex_owner_def)
next
  case False
  then show ?thesis using k
    by (simp add: mutex_try_lock_def split_beta Let_def mutex_ok_def mutex_owner_def lock_view_def back_at_def)
qed

lemma lock_own_view:
  assumes "mutex_ok idle m k" "mutex_owner m k = Some (ACTIVE_PTR k)"
  shows "mutex_lock W m k = Done MQX_EDEADLK k"
  using assms by (auto simp: mutex_lock_def Let_def mutex_ok_def mutex_owner_def mutex_running_def running_def split: if_splits)

text \<open>Raising another task to the priority of the active one does not switch.\<close>

lemma boost_other:
  assumes r: "running idle k" and x: "x \<noteq> ACTIVE_PTR k"
  shows "\<exists>k'. mutex_boost m x (MY_QUEUE (active_td k)) k = Done () k' \<and> lock_view m k' = lock_view m k \<and>
    ACTIVE_PTR k' = ACTIVE_PTR k \<and> mutex_has p m k' = mutex_has p m k \<and> (\<forall>y. y \<noteq> x \<longrightarrow> prio_of k' y = prio_of k y)"
proof -
  let ?p = "MY_QUEUE (active_td k)"
  have c: "CURRENT_READY_Q k = ?p" using r by (simp add: running_def top_active_def)
  have "\<exists>k'. sched_boost_priority x ?p k = Done () k' \<and> OBJ k' = OBJ k \<and> TD_QUEUES k' = TD_QUEUES k \<and>
    ACTIVE_PTR k' = ACTIVE_PTR k \<and> (\<forall>y. y \<noteq> x \<longrightarrow> prio_of k' y = prio_of k y)"
    using x c by (simp add: sched_boost_priority_def sched_set_priority_def sched_check_scheduler_def Let_def prio_of_def active_td_def)
  then obtain k' where k': "sched_boost_priority x ?p k = Done () k'" "OBJ k' = OBJ k" "TD_QUEUES k' = TD_QUEUES k"
    "ACTIVE_PTR k' = ACTIVE_PTR k" "\<forall>y. y \<noteq> x \<longrightarrow> prio_of k' y = prio_of k y" by blast
  then have v: "lock_view m k' = lock_view m k" "mutex_has p m k' = mutex_has p m k"
    by (simp_all add: lock_view_def mutex_owner_def mutex_waiters_def mutex_has_def mutex_at_def)
  let ?w = "if MY_QUEUE (TDS k x) > ?p then k' else k"
  have "mutex_boost m x ?p k = Done () (if HOME_QUEUE (TDS k x) > ?p
      then upd_mutex m (\<lambda>v. v\<lparr>MTX_BOOSTED := MTX_BOOSTED v + 1\<rparr>) ?w else k)" by (simp add: mutex_boost_def k')
  then show ?thesis using k' v by (simp add: mutex_has_def prio_of_def)
qed

lemma lock_held_view:
  assumes k: "mutex_ok idle m k" and o: "mutex_owner m k = Some x" and x: "x \<noteq> ACTIVE_PTR k"
  shows "lock_view m (state_of (mutex_lock W m k)) = (Some x, mutex_put m k (ACTIVE_PTR k) (mutex_waiters m k))"
proof -
  let ?t = "ACTIVE_PTR k" and ?p = "MY_QUEUE (TDS k (ACTIVE_PTR k))"
  have l: "LOCK (mutex_at m k) \<noteq> 0" "OWNER_TD (mutex_at m k) = x" using o by (auto simp: mutex_owner_def split: if_splits)
  have r: "running idle (INT_DISABLE k)" "IN_ISR k = 0"
    using k by (simp_all add: mutex_ok_def mutex_running_def) (simp add: running_def)
  have w: "x \<notin> set (mutex_waiters m k)" using k o by (simp add: mutex_ok_def wf_lock_def)
  obtain k1 where b: "(if mutex_has MUTEX_PRIO_INHERIT m (INT_DISABLE k) then mutex_boost m x ?p (INT_DISABLE k) else Done () (INT_DISABLE k))
      = Done () k1" and v: "lock_view m k1 = lock_view m k" and a: "ACTIVE_PTR k1 = ?t"
    and h: "mutex_has MUTEX_PRIORITY_QUEUEING m k1 = mutex_has MUTEX_PRIORITY_QUEUEING m k"
    and q: "\<And>y. y \<noteq> x \<Longrightarrow> prio_of k1 y = prio_of k y"
  proof (cases "mutex_has MUTEX_PRIO_INHERIT m k")
    case True
    with boost_other [OF r(1), of x m MUTEX_PRIORITY_QUEUEING] x that show ?thesis
      by (auto simp: active_td_def prio_of_def)
  qed (use that in \<open>simp add: prio_of_def\<close>)
  let ?j = "mutex_join m ?t k1"
  have ins: "insert_priorityq (prio_of k1) ?t ws = insert_priorityq (prio_of k) ?t ws" if "x \<notin> set ws" for ws
    using that q x by (induction ws) auto
  have "mutex_owner m ?j = Some x" using v o by (simp add: lock_view_def mutex_owner_def mutex_at_def split: if_splits)
  moreover have "mutex_waiters m ?j = mutex_put m k ?t (mutex_waiters m k)"
    using v h ins [OF w] by (simp add: mutex_join_eq mutex_put_def lock_view_def mutex_waiters_def)
  ultimately have j: "lock_view m ?j = (Some x, mutex_put m k ?t (mutex_waiters m k))" by (simp add: lock_view_def)
  have t: "back_at ?t (\<lambda>k'. lock_view m k' = (Some x, mutex_put m k ?t (mutex_waiters m k))) ?j" using j a by (simp add: back_at_def)
  have "shows_view m ?t (Some x, mutex_put m k ?t (mutex_waiters m k)) (lock_wait m ?t ?p (INT_DISABLE k))"
    unfolding lock_wait_def mutex_simps(1) l(2) b andthen_simps
    by (rule keeps_andthen [OF execute_stable [OF view_stable t]]) (simp add: back_at_def)
  then have "shows_view m ?t (Some x, mutex_put m k ?t (mutex_waiters m k)) (lock_queue m ?t ?p k)"
    unfolding lock_queue_def using l by (auto intro!: keeps_andthen lock_inherit_view simp: Let_def)
  then have "shows_view m ?t (Some x, mutex_put m k ?t (mutex_waiters m k)) (andthen (lock_queue m ?t ?p k)
      (\<lambda>result k1. if result \<noteq> MQX_EOK then Done result k1 else lock_protect m ?t k1))"
    by (rule keeps_andthen) (simp add: lock_protect_view)
  then have "shows_view m ?t (Some x, mutex_put m k ?t (mutex_waiters m k)) (mutex_lock W m k)"
    using k l x r(2) not_spin [of m k] by (simp add: mutex_lock_def Let_def mutex_ok_def)
  then show ?thesis by (rule shows_view_state)
qed

lemma unlock_view:
  assumes k: "mutex_ok idle m k" and o: "mutex_owner m k = Some (ACTIVE_PTR k)"
  shows "shows_view m (ACTIVE_PTR k)
    (case mutex_waiters m k of [] \<Rightarrow> (None, []) | t # ts \<Rightarrow> (Some t, ts)) (mutex_unlock m k)"
proof -
  let ?a = "ACTIVE_PTR k" and ?v = "case mutex_waiters m k of [] \<Rightarrow> (None, []) | t # ts \<Rightarrow> (Some t, ts)"
  let ?k = "upd_mutex m (\<lambda>v. v\<lparr>MTX_BOOSTED := 0\<rparr>) (INT_DISABLE k)"
  let ?p = "case mutex_waiters m k of t # _ \<Rightarrow> unlock_handover m t ?k
     | [] \<Rightarrow> Done () (upd_mutex m (\<lambda>v. v\<lparr>LOCK := 0, OWNER_TD := NULL\<rparr>) ?k)"
  have l: "LOCK (mutex_at m k) = MQX_TEST_AND_SET_VALUE" "OWNER_TD (mutex_at m k) = ?a"
    using k o by (auto simp: mutex_ok_def mutex_owner_def split: if_splits)
  have "shows_view m ?a ?v ?p"
  proof (cases "mutex_waiters m k")
    case Nil
    then show ?thesis by (simp add: back_at_def lock_view_def mutex_owner_def)
  next
    case (Cons t ts)
    let ?w = "tdq_wake (MTX_WAITING_TASKS m) t (upd_mutex m (\<lambda>v. v\<lparr>OWNER_TD := t\<rparr>) ?k)"
    have "t \<notin> set ts" using k Cons by (simp add: mutex_ok_def wf_lock_def)
    then have "mutex_waiters m ?w = ts" using Cons by (simp add: tdq_wake_def mutex_waiters_def)
    moreover have "mutex_at m ?w = mutex_at m (upd_mutex m (\<lambda>v. v\<lparr>OWNER_TD := t\<rparr>) ?k)"
      by (simp add: mutex_at_def tdq_wake_def TDQ_SET_def)
    ultimately have w: "back_at ?a (\<lambda>k. lock_view m k = (Some t, ts)) ?w"
      using l by (simp add: back_at_def lock_view_def mutex_owner_def tdq_wake_def)
    have "shows_view m ?a (Some t, ts) (if b then mutex_boost m t p ?w else Done () ?w)" for b p
      using boost_view [OF w] w by simp
    then have "shows_view m ?a (Some t, ts) (unlock_handover m t ?k)" unfolding unlock_handover_def Let_def
      by (rule keeps_andthen) (rule check_stable [OF view_stable])
    then show ?thesis using Cons by simp
  qed
  then have "shows_view m ?a ?v (andthen ?p (\<lambda>_ k3. andthen (if b then sched_unboost_priority (ACTIVE_PTR k3) n k3 else Done () k3)
      (\<lambda>_ k4. Done MQX_EOK (INT_ENABLE k4))))" for b n
  proof (rule keeps_andthen)
    fix k3 assume "back_at ?a (\<lambda>k. lock_view m k = ?v) k3"
    then have "shows_view m ?a ?v (if b then sched_unboost_priority (ACTIVE_PTR k3) n k3 else Done () k3)"
      using unboost_stable [OF view_stable] by simp
    then show "shows_view m ?a ?v (andthen (if b then sched_unboost_priority (ACTIVE_PTR k3) n k3 else Done () k3)
        (\<lambda>_ k4. Done MQX_EOK (INT_ENABLE k4)))" by (rule keeps_andthen) (simp add: back_at_def)
  qed
  then show ?thesis using k l by (simp add: mutex_unlock_def Let_def mutex_ok_def mutex_has_def)
qed

lemma unlock_foreign_view:
  assumes "mutex_ok idle m k" "mutex_owner m k \<noteq> Some (ACTIVE_PTR k)"
  shows "mutex_unlock m k = Done MQX_EINVAL k"
  using assms by (auto simp: mutex_unlock_def mutex_ok_def mutex_owner_def split: if_splits)

interpretation mtx: exclusive_lock "mutex_ok idle m" ACTIVE_PTR "mutex_owner m" "mutex_waiters m" "mutex_put m"
  "\<lambda>k. state_of (mutex_lock W m k)" "\<lambda>k. state_of (mutex_try_lock m k)" "\<lambda>k. state_of (mutex_unlock m k)"
  for idle m :: addr and W :: "kernel \<Rightarrow> kernel"
proof
  fix s t ts x and ws :: "addr list"
  show "set (mutex_put m s t ws) = insert t (set ws)" "distinct (mutex_put m s t ws) \<longleftrightarrow> t \<notin> set ws \<and> distinct ws"
    by (auto simp: mutex_put_def)
  assume s: "mutex_ok idle m s"
  show "wf_lock (mutex_owner m s) (mutex_waiters m s)" using s by (simp add: mutex_ok_def)
  have "STATE (TDS s (ACTIVE_PTR s)) = READY" "kinv s"
    using s by (simp_all add: mutex_ok_def mutex_running_def running_def top_active_def ready_tasks_def)
  then show "ACTIVE_PTR s \<notin> set (mutex_waiters m s)" by (simp add: mutex_waiters_def kinv_def placed_def)
  show "mutex_owner m (state_of (mutex_lock W m s)) = Some (ACTIVE_PTR s) \<and> mutex_waiters m (state_of (mutex_lock W m s)) = []"
    if "mutex_owner m s = None" using shows_view_state [OF lock_free_view [OF s that]] by (simp add: lock_view_def)
  show "mutex_owner m (state_of (mutex_lock W m s)) = Some x \<and>
      mutex_waiters m (state_of (mutex_lock W m s)) = mutex_put m s (ACTIVE_PTR s) (mutex_waiters m s)"
    if "mutex_owner m s = Some x" "x \<noteq> ACTIVE_PTR s" using lock_held_view [OF s that] by (simp add: lock_view_def)
  show "mutex_owner m (state_of (mutex_lock W m s)) = mutex_owner m s \<and> mutex_waiters m (state_of (mutex_lock W m s)) = mutex_waiters m s"
    if "mutex_owner m s = Some (ACTIVE_PTR s)" using lock_own_view [OF s that] by simp
  show "mutex_owner m (state_of (mutex_try_lock m s)) = Some (ACTIVE_PTR s) \<and> mutex_waiters m (state_of (mutex_try_lock m s)) = []"
    if "mutex_owner m s = None" using shows_view_state [OF try_lock_view [OF s]] that by (simp add: lock_view_def)
  show "mutex_owner m (state_of (mutex_try_lock m s)) = Some x \<and> mutex_waiters m (state_of (mutex_try_lock m s)) = mutex_waiters m s"
    if "mutex_owner m s = Some x" using shows_view_state [OF try_lock_view [OF s]] that by (simp add: lock_view_def)
  show "mutex_owner m (state_of (mutex_unlock m s)) = None \<and> mutex_waiters m (state_of (mutex_unlock m s)) = []"
    if "mutex_owner m s = Some (ACTIVE_PTR s)" "mutex_waiters m s = []"
    using shows_view_state [OF unlock_view [OF s that(1)]] that by (simp add: lock_view_def)
  show "mutex_owner m (state_of (mutex_unlock m s)) = Some t \<and> mutex_waiters m (state_of (mutex_unlock m s)) = ts"
    if "mutex_owner m s = Some (ACTIVE_PTR s)" "mutex_waiters m s = t # ts"
    using shows_view_state [OF unlock_view [OF s that(1)]] that by (simp add: lock_view_def)
  show "mutex_owner m (state_of (mutex_unlock m s)) = mutex_owner m s \<and> mutex_waiters m (state_of (mutex_unlock m s)) = mutex_waiters m s"
    if "mutex_owner m s \<noteq> Some (ACTIVE_PTR s)" using unlock_foreign_view [OF s that] by simp
qed

text \<open>
  C6 (refinement). A queueing mutex is an exclusive lock, described by its owner and the queue of its waiters as
  they are when the call returns or its caller is switched out. On a free mutex, lock and try make the
  caller the owner, with nobody waiting, and unlock is refused. On a mutex that another task owns, lock puts
  the caller into the queue, behind all waiters or, with priority queueing, behind those of its priority
  or better, and leaves the owner alone; try changes nothing and unlock is refused. On the caller's own
  mutex, lock is refused as a deadlock, try changes nothing, and unlock makes the first waiter the owner and
  takes it off the queue, or frees the mutex when nobody waits. In every case the owner is not among the
  waiters, no task waits twice and a free mutex has no waiters.
\<close>

theorem mutex_refines_lock:
  assumes "mutex_ok idle m k" and "a = ACTIVE_PTR k"
  shows "(mutex_owner m k = None \<longrightarrow>
      lock_view m (state_of (mutex_lock W m k)) = (Some a, []) \<and> lock_view m (state_of (mutex_try_lock m k)) = (Some a, []) \<and>
      mutex_unlock m k = Done MQX_EINVAL k) \<and>
    (\<forall>x. mutex_owner m k = Some x \<and> x \<noteq> a \<longrightarrow>
      lock_view m (state_of (mutex_lock W m k)) = (Some x,
        if mutex_has MUTEX_PRIORITY_QUEUEING m k then insert_priorityq (prio_of k) a (mutex_waiters m k)
        else mutex_waiters m k @ [a]) \<and>
      lock_view m (state_of (mutex_try_lock m k)) = lock_view m k \<and> mutex_unlock m k = Done MQX_EINVAL k) \<and>
    (mutex_owner m k = Some a \<longrightarrow>
      mutex_lock W m k = Done MQX_EDEADLK k \<and> lock_view m (state_of (mutex_try_lock m k)) = lock_view m k \<and>
      lock_view m (state_of (mutex_unlock m k)) = (case mutex_waiters m k of [] \<Rightarrow> (None, []) | t # ts \<Rightarrow> (Some t, ts))) \<and>
    (\<forall>k' \<in> {state_of (mutex_lock W m k), state_of (mutex_try_lock m k), state_of (mutex_unlock m k)}.
      wf_lock (mutex_owner m k') (mutex_waiters m k'))"
proof (intro conjI allI impI)
  note ok = assms(1)
  show "\<forall>k' \<in> {state_of (mutex_lock W m k), state_of (mutex_try_lock m k), state_of (mutex_unlock m k)}.
      wf_lock (mutex_owner m k') (mutex_waiters m k')"
    using mtx.lock_wf [OF ok] mtx.try_wf [OF ok] mtx.unlock_wf [OF ok] by blast
  have tr: "lock_view m (state_of (mutex_try_lock m k)) =
    (case mutex_owner m k of None \<Rightarrow> (Some a, []) | Some x \<Rightarrow> (Some x, mutex_waiters m k))"
    unfolding assms(2) by (rule shows_view_state [OF try_lock_view [OF ok]])
  show "lock_view m (state_of (mutex_lock W m k)) = (Some a, [])" "mutex_unlock m k = Done MQX_EINVAL k"
    "lock_view m (state_of (mutex_try_lock m k)) = (Some a, [])" if "mutex_owner m k = None"
    using mtx.lock_free [OF ok] unlock_foreign_view [OF ok] tr that assms(2) by (simp_all add: lock_view_def)
  show "mutex_unlock m k = Done MQX_EINVAL k" "lock_view m (state_of (mutex_try_lock m k)) = lock_view m k"
    "lock_view m (state_of (mutex_lock W m k)) = (Some x,
        if mutex_has MUTEX_PRIORITY_QUEUEING m k then insert_priorityq (prio_of k) a (mutex_waiters m k)
        else mutex_waiters m k @ [a])" if "mutex_owner m k = Some x \<and> x \<noteq> a" for x
    using mtx.lock_held [OF ok] unlock_foreign_view [OF ok] tr that assms(2) by (simp_all add: lock_view_def mutex_put_def)
  show "mutex_lock W m k = Done MQX_EDEADLK k" "lock_view m (state_of (mutex_try_lock m k)) = lock_view m k"
    "lock_view m (state_of (mutex_unlock m k)) = (case mutex_waiters m k of [] \<Rightarrow> (None, []) | t # ts \<Rightarrow> (Some t, ts))"
    if "mutex_owner m k = Some a"
    using lock_own_view [OF ok] shows_view_state [OF unlock_view [OF ok]] tr that assms(2) by (simp_all add: lock_view_def)
qed

lemma demo_mutex_ok: "mutex_ok 100 64 demo"
  using demo_mutex
  by (auto simp: mutex_ok_def mutex_has_def mutex_owner_def wf_lock_def) (simp_all add: mutex_at_def demo_def)

theorem mutex_refines_lock_witness:
  "lock_view 64 (state_of (mutex_lock (\<lambda>k. k) 64 demo)) = (Some 200, [])
   \<and> wf_lock (mutex_owner 64 (state_of (mutex_lock (\<lambda>k. k) 64 demo))) (mutex_waiters 64 (state_of (mutex_lock (\<lambda>k. k) 64 demo)))"
  using mutex_refines_lock [OF demo_mutex_ok, of 200 "\<lambda>k. k"] demo_mutex(2,4) by (simp add: mutex_owner_def)

subsection \<open>Counting of priority boosts\<close>

text \<open>A waiter for a mutex whose owner runs at the waiter's priority or better, but not by its own priority.\<close>

lemma lock_counts_on_mutex:
  assumes r: "running idle k" "ACTIVE_PTR k \<noteq> idle" and v: "mutex_valid m k" "m \<noteq> NULL" "LOCK (mutex_at m k) \<noteq> 0"
    and p: "\<not> mutex_has 3 m k" "mutex_has MUTEX_PRIO_INHERIT m k" and t: "OWNER_TD (mutex_at m k) = t" "t \<noteq> ACTIVE_PTR k"
    and h: "MY_QUEUE (TDS k t) \<le> MY_QUEUE (active_td k)" "MY_QUEUE (active_td k) < HOME_QUEUE (TDS k t)"
  defines "j \<equiv> mutex_join m (ACTIVE_PTR k) (upd_mutex m (\<lambda>v. v\<lparr>MTX_BOOSTED := MTX_BOOSTED v + 1\<rparr>) (INT_DISABLE k))"
  shows "state_of (mutex_lock W m k) = switch_task j" "running idle (switch_task j)"
proof -
  let ?a = "ACTIVE_PTR k" and ?d = "INT_DISABLE k"
  define k1 where "k1 = upd_mutex m (\<lambda>v. v\<lparr>MTX_BOOSTED := MTX_BOOSTED v + 1\<rparr>) ?d"
  have b: "mutex_boost m t (MY_QUEUE (TDS k ?a)) ?d = Done () k1" using h by (simp add: mutex_boost_def k1_def active_td_def)
  have k: "running idle k1" "ACTIVE_PTR k1 = ?a" using r by (simp_all add: k1_def)
  have j: "kinv j" "idle \<in> ready_tasks j" "\<not> STUCK j" "IN_ISR j = 0"
    using k r ready_tasks_frame [OF running_unsettled [OF k(1)] r(2), of j]
    by (auto simp: j_def k1_def [symmetric] running_def top_active_def intro: mutex_join_kinv)
  then show "running idle (switch_task j)" by (rule switch_running)
  have n: "ACTIVE_PTR j \<notin> ready_tasks j" by (simp add: j_def mutex_join_eq ready_tasks_def)
  have x: "sched_execute_scheduler j = Susp (switch_task j) (Done ())" by (rule execute_suspends [OF j(1-3) n])
  have i: "IN_ISR k = 0" using r by (simp add: running_def)
  show "state_of (mutex_lock W m k) = switch_task j"
    using v p t h i b x not_spin [of m k]
    by (simp add: mutex_lock_def Let_def lock_queue_def lock_wait_def active_td_def k1_def [symmetric] j_def)
qed

lemma handover_stays:
  assumes r: "running idle k" and p: "\<not> mutex_has MUTEX_PRIO_PROTECT m k" and h: "MY_QUEUE (active_td k) \<le> MY_QUEUE (TDS k x)"
  shows "unlock_handover m x k = Done () (tdq_wake (MTX_WAITING_TASKS m) x (upd_mutex m (\<lambda>v. v\<lparr>OWNER_TD := x\<rparr>) k))"
proof -
  let ?w = "tdq_wake (MTX_WAITING_TASKS m) x (upd_mutex m (\<lambda>v. v\<lparr>OWNER_TD := x\<rparr>) k)"
  have "mutex_at m ?w = mutex_at m (upd_mutex m (\<lambda>v. v\<lparr>OWNER_TD := x\<rparr>) k)" by (simp add: mutex_at_def tdq_wake_def TDQ_SET_def)
  then have w: "\<not> mutex_has MUTEX_PRIO_PROTECT m ?w" using p by (simp add: mutex_has_def)
  have "CURRENT_READY_Q k = MY_QUEUE (active_td k)" using r by (simp add: running_def top_active_def)
  then have "CURRENT_READY_Q ?w = MY_QUEUE (active_td ?w)"
    using h by (simp add: tdq_wake_def TASK_READY_def Let_def TDQ_SET_def active_td_def upd_mutex_def)
  then show ?thesis using w by (simp add: unlock_handover_def Let_def sched_check_scheduler_def)
qed

lemma unboost_falls_home:
  assumes "FLAGS (TDS k t) AND TASK_PRIORITY_BOOSTED \<noteq> 0" "BOOSTED (TDS k t) \<le> n"
  shows "keeps (\<lambda>k'. MY_QUEUE (TDS k' t) = HOME_QUEUE (TDS k t)) (\<lambda>k'. MY_QUEUE (TDS k' t) = HOME_QUEUE (TDS k t)) R
    (sched_unboost_priority t n k)"
proof -
  let ?P = "\<lambda>k'. MY_QUEUE (TDS k' t) = HOME_QUEUE (TDS k t)"
  have e: "keeps ?P ?P R (sched_execute_scheduler x)" if "?P x" for x using that by (simp add: sched_execute_scheduler_def Let_def)
  then have c: "keeps ?P ?P R (sched_check_scheduler x)" if "?P x" for x using that by (simp add: sched_check_scheduler_def)
  have "keeps ?P ?P R (sched_set_priority t (HOME_QUEUE (TDS k t)) x)" for x using e by (simp add: sched_set_priority_def Let_def)
  then have "keeps ?P ?P R (andthen (sched_set_priority t (HOME_QUEUE (TDS k t)) x) (\<lambda>_ k2. sched_check_scheduler k2))" for x
    by (rule keeps_andthen) (rule c)
  moreover have "\<not> n < BOOSTED (TDS k t)" using assms(2) by simp
  ultimately show ?thesis using assms(1) by (simp add: sched_unboost_priority_def Let_def)
qed

lemma unboost_keeps_other:
  assumes "x \<noteq> t" "MY_QUEUE (TDS k x) = p"
  shows "keeps (\<lambda>k'. MY_QUEUE (TDS k' x) = p) (\<lambda>k'. MY_QUEUE (TDS k' x) = p) R (sched_unboost_priority t n k)"
proof -
  let ?P = "\<lambda>k'. MY_QUEUE (TDS k' x) = p"
  have e: "keeps ?P ?P R (sched_execute_scheduler y)" if "?P y" for y using that by (simp add: sched_execute_scheduler_def Let_def)
  then have c: "keeps ?P ?P R (sched_check_scheduler y)" if "?P y" for y using that by (simp add: sched_check_scheduler_def)
  have "keeps ?P ?P R (sched_set_priority t q y)" if "?P y" for y q
    using e that assms(1) by (simp add: sched_set_priority_def Let_def)
  then have "keeps ?P ?P R (andthen (sched_set_priority t q y) (\<lambda>_ k2. sched_check_scheduler k2))" if "?P y" for y q
    by (rule keeps_andthen [where D = ?P]) (use that c in simp_all)
  then show ?thesis using assms by (simp add: sched_unboost_priority_def Let_def)
qed

text \<open>The owner of two mutexes hands one to its only waiter, which does not beat the priority the owner runs at.\<close>

lemma unlock_falls_home:
  assumes r: "running idle k" and v: "mutex_valid m k" "m \<noteq> NULL" "LOCK (mutex_at m k) = MQX_TEST_AND_SET_VALUE"
    and p: "\<not> mutex_has 3 m k" "\<not> mutex_has MUTEX_PRIO_PROTECT m k" and o: "OWNER_TD (mutex_at m k) = ACTIVE_PTR k"
    and w: "mutex_waiters m k = [y]" "MY_QUEUE (active_td k) \<le> MY_QUEUE (TDS k y)"
    and b: "FLAGS (active_td k) AND TASK_PRIORITY_BOOSTED \<noteq> 0" "MTX_BOOSTED (mutex_at m k) \<noteq> 0"
      "BOOSTED (active_td k) \<le> MTX_BOOSTED (mutex_at m k)"
    and n: "m \<noteq> m'" "x \<noteq> ACTIVE_PTR k" "y \<noteq> ACTIVE_PTR k"
  defines "k' \<equiv> state_of (mutex_unlock m k)"
  shows "MY_QUEUE (TDS k' (ACTIVE_PTR k)) = HOME_QUEUE (active_td k)" "MY_QUEUE (TDS k' x) = MY_QUEUE (TDS k x)"
    "lock_view m' k' = lock_view m' k"
proof -
  let ?a = "ACTIVE_PTR k" and ?b = "MTX_BOOSTED (mutex_at m k)"
  let ?k = "upd_mutex m (\<lambda>v. v\<lparr>MTX_BOOSTED := 0\<rparr>) (INT_DISABLE k)"
  define u where "u = tdq_wake (MTX_WAITING_TASKS m) y (upd_mutex m (\<lambda>v. v\<lparr>OWNER_TD := y\<rparr>) ?k)"
  have h: "unlock_handover m y ?k = Done () u" unfolding u_def
    by (rule handover_stays [of idle]) (use r p w in \<open>simp_all add: mutex_has_def active_td_def\<close>)
  have a: "ACTIVE_PTR u = ?a" by (simp add: u_def tdq_wake_def)
  have e: "mutex_unlock m k = andthen (sched_unboost_priority ?a ?b u) (\<lambda>_ k4. Done MQX_EOK (INT_ENABLE k4))"
    using v p o w b h a by (simp add: mutex_unlock_def Let_def mutex_has_def)
  let ?P = "\<lambda>k'. MY_QUEUE (TDS k' ?a) = HOME_QUEUE (active_td k) \<and> MY_QUEUE (TDS k' x) = MY_QUEUE (TDS k x)"
  have f: "MY_QUEUE (TDS u x) = MY_QUEUE (TDS k x)" "HOME_QUEUE (TDS u ?a) = HOME_QUEUE (active_td k)"
    "FLAGS (TDS u ?a) = FLAGS (active_td k)" "BOOSTED (TDS u ?a) = BOOSTED (active_td k)"
    by (simp_all add: u_def tdq_wake_def active_td_def)
  have "keeps ?P ?P (resumes ?a) (sched_unboost_priority ?a ?b u)"
    using keeps_conj [OF unboost_falls_home [of u ?a ?b "resumes ?a"] unboost_keeps_other [of x ?a u _ "resumes ?a" ?b]] b n(2) f
    by simp
  then have "keeps ?P ?P (resumes ?a) (mutex_unlock m k)" unfolding e by (rule keeps_andthen) simp
  then show "MY_QUEUE (TDS k' ?a) = HOME_QUEUE (active_td k)" "MY_QUEUE (TDS k' x) = MY_QUEUE (TDS k x)"
    unfolding k'_def using keeps_state by blast+
  have "lock_view m' u = lock_view m' k"
    using n by (simp add: u_def tdq_wake_def lock_view_def mutex_owner_def mutex_waiters_def mutex_at_def TDQ_SET_def
        MTX_WAITING_TASKS_def upd_mutex_def)
  then have "shows_view m' ?a (lock_view m' k) (sched_unboost_priority ?a ?b u)"
    using a by (intro unboost_stable [OF view_stable]) (simp add: back_at_def)
  then have "shows_view m' ?a (lock_view m' k) (mutex_unlock m k)" unfolding e by (rule keeps_andthen) (simp add: back_at_def)
  then show "lock_view m' k' = lock_view m' k" unfolding k'_def by (rule shows_view_state)
qed

text \<open>
  C29 (safety). The boosts counted on a mutex and on its owner disagree, and the owner of two mutexes loses the
  priority it inherited through the one when it unlocks the other. The task \<open>t\<close> owns \<open>m1\<close> and \<open>m2\<close>, mutexes with
  priority inheritance; \<open>h\<close>, of a better priority than \<open>t\<close>'s own, waits for \<open>m2\<close>, and its boost is counted
  once on \<open>m2\<close>, once on \<open>t\<close> and not on \<open>m1\<close>, for which nobody waits. Now the active task, of a priority that
  does not beat the one \<open>t\<close> has inherited but beats its own, locks \<open>m1\<close>: a boost is counted on \<open>m1\<close> and none
  on \<open>t\<close>. If \<open>t\<close> runs next and unlocks \<open>m1\<close>, that count cancels the boost that came from \<open>h\<close>: \<open>t\<close> runs at its
  own priority while it owns \<open>m2\<close> and \<open>h\<close>, whose priority is better, waits for it.
\<close>

theorem mutex_boost_counts_disagree:
  fixes W :: "kernel \<Rightarrow> kernel"
  assumes r: "running idle k" "ACTIVE_PTR k \<noteq> idle" and v: "mutex_valid m1 k" "m1 \<noteq> NULL" "m1 \<noteq> m2"
    and p: "\<not> mutex_has 3 m1 k" "mutex_has MUTEX_PRIO_INHERIT m1 k" "\<not> mutex_has MUTEX_PRIO_PROTECT m1 k"
    and t: "t \<noteq> ACTIVE_PTR k" "LOCK (mutex_at m1 k) = MQX_TEST_AND_SET_VALUE" "OWNER_TD (mutex_at m1 k) = t" "mutex_owner m2 k = Some t"
    and w: "mutex_waiters m1 k = []" "h \<in> set (mutex_waiters m2 k)" "h \<noteq> t"
    and b: "MTX_BOOSTED (mutex_at m1 k) = 0" "MTX_BOOSTED (mutex_at m2 k) = 1" "BOOSTED (TDS k t) = 1"
      "FLAGS (TDS k t) AND TASK_PRIORITY_BOOSTED \<noteq> 0"
    and q: "MY_QUEUE (TDS k t) = MY_QUEUE (TDS k h)" "MY_QUEUE (TDS k h) \<le> MY_QUEUE (active_td k)"
      "MY_QUEUE (active_td k) < HOME_QUEUE (TDS k t)"
  defines "k1 \<equiv> state_of (mutex_lock W m1 k)"
  shows "MTX_BOOSTED (mutex_at m1 k1) = 1 \<and> MTX_BOOSTED (mutex_at m2 k1) = 1 \<and> BOOSTED (TDS k1 t) = 1 \<and>
    (ACTIVE_PTR k1 = t \<longrightarrow>
      (let k2 = state_of (mutex_unlock m1 k1)
       in mutex_owner m2 k2 = Some t \<and> h \<in> set (mutex_waiters m2 k2) \<and>
          MY_QUEUE (TDS k2 t) = HOME_QUEUE (TDS k t) \<and> MY_QUEUE (TDS k2 h) < MY_QUEUE (TDS k2 t)))"
proof -
  let ?a = "ACTIVE_PTR k"
  let ?j = "mutex_join m1 ?a (upd_mutex m1 (\<lambda>v. v\<lparr>MTX_BOOSTED := MTX_BOOSTED v + 1\<rparr>) (INT_DISABLE k))"
  have l: "LOCK (mutex_at m1 k) \<noteq> 0" and pq: "MY_QUEUE (TDS k t) \<le> MY_QUEUE (active_td k)" using t q by simp_all
  note c = lock_counts_on_mutex [OF r v(1,2) l p(1,2) t(3,1) pq q(3)]
  have k1: "k1 = switch_task ?j" "running idle k1" using c(1) [of W] c(2) by (simp_all add: k1_def)
  have m: "mutex_at x k1 = (if x = m1 then (mutex_at m1 k)\<lparr>MTX_BOOSTED := 1\<rparr> else mutex_at x k)" for x
    using b(1) by (simp add: k1(1) mutex_at_def) (simp add: mutex_at_def [symmetric])
  have "kinv k" using r by (simp add: running_def)
  then have h: "STATE (TDS k h) \<noteq> READY" using w by (auto simp: kinv_def placed_def mutex_waiters_def)
  then have ha: "h \<noteq> ?a" using r by (auto simp: running_def top_active_def ready_tasks_def)
  have d: "TDS k1 x = TDS k x" if "x \<noteq> ?a" for x
    using that by (simp add: k1(1)) (simp add: INT_DISABLE_def)
  have wq: "mutex_waiters m1 k1 = [?a]" "mutex_waiters m2 k1 = mutex_waiters m2 k"
    using w(1) v(3) by (simp_all add: k1(1) mutex_join_eq mutex_waiters_def TDQ_SET_def MTX_WAITING_TASKS_def)
  have ma: "MY_QUEUE (TDS k1 ?a) = MY_QUEUE (active_td k)" by (simp add: k1(1) mutex_join_eq active_td_def)
  have dt: "TDS k1 t = TDS k t" "TDS k1 h = TDS k h" using d t(1) ha by simp_all
  have u: "mutex_owner m2 k2 = Some t \<and> h \<in> set (mutex_waiters m2 k2) \<and> MY_QUEUE (TDS k2 t) = HOME_QUEUE (TDS k t)
      \<and> MY_QUEUE (TDS k2 h) < MY_QUEUE (TDS k2 t)"
    if a: "ACTIVE_PTR k1 = t" and k2: "k2 = state_of (mutex_unlock m1 k1)" for k2
  proof -
    have "MY_QUEUE (TDS k2 t) = HOME_QUEUE (TDS k t)" "MY_QUEUE (TDS k2 h) = MY_QUEUE (TDS k h)" "lock_view m2 k2 = lock_view m2 k1"
      using unlock_falls_home [of idle k1 m1 ?a m2 h] k1(2) v p t b(3,4) w(3) wq m ma dt pq a
      by (simp_all add: k2 mutex_valid_def mutex_has_def active_td_def)
    moreover have "mutex_owner m2 k1 = Some t" using t(4) v(3) m by (simp add: mutex_owner_def split: if_splits)
    ultimately show ?thesis using w(2) wq q by (simp add: lock_view_def)
  qed
  have "MTX_BOOSTED (mutex_at m1 k1) = 1" "MTX_BOOSTED (mutex_at m2 k1) = 1" "BOOSTED (TDS k1 t) = 1"
    using m dt(1) b(2,3) v(3) by simp_all
  with u [OF _ refl] show ?thesis unfolding Let_def by blast
qed

definition demo_boost :: kernel where
  "demo_boost = upd_mutex 128 (\<lambda>v. v\<lparr>PROTOCOLS := 0x104, LOCK := 0x80, OWNER_TD := 200, MTX_BOOSTED := 1\<rparr>)
     (upd_mutex 64 (\<lambda>v. v\<lparr>PROTOCOLS := 0x104, LOCK := 0x80, OWNER_TD := 200\<rparr>)
       (demo\<lparr>TDS := (\<lambda>t. if t = 200 then (mk_td 2 READY 2)\<lparr>HOME_QUEUE := 5, BOOSTED := 1, FLAGS := 0x8000\<rparr>
               else if t = 300 then (mk_td 3 MUTEX_BLOCKED 2)\<lparr>INFO := 156\<rparr>
               else if t = 400 then mk_td 4 READY 2 else mk_td 1 READY 9),
             TD_LIST := [100, 200, 300, 400], READY_Q := (\<lambda>p. if p = 2 then [400, 200] else if p = 9 then [100] else []),
             CURRENT_READY_Q := 2, ACTIVE_PTR := 400, TIMEOUT_QUEUE := [], TD_QUEUES := (\<lambda>q. if q = 156 then [300] else [])\<rparr>))"

lemma demo_boost_running: "running 100 demo_boost"
proof -
  let ?k = "demo\<lparr>TDS := (\<lambda>t. if t = 200 then (mk_td 2 READY 2)\<lparr>HOME_QUEUE := 5, BOOSTED := 1, FLAGS := 0x8000\<rparr>
               else if t = 300 then (mk_td 3 MUTEX_BLOCKED 2)\<lparr>INFO := 156\<rparr>
               else if t = 400 then mk_td 4 READY 2 else mk_td 1 READY 9),
             TD_LIST := [100, 200, 300, 400], READY_Q := (\<lambda>p. if p = 2 then [400, 200] else if p = 9 then [100] else []),
             CURRENT_READY_Q := 2, ACTIVE_PTR := 400, TIMEOUT_QUEUE := [], TD_QUEUES := (\<lambda>q. if q = 156 then [300] else [])\<rparr>"
  have "shape ?k" by (simp add: shape_def demo_def priority_levels_def)
  moreover have "placed ?k t" for t by (auto simp: placed_def demo_def mk_td_def priority_levels_def)
  ultimately have "running 100 ?k"
    by (simp add: running_def kinv_def top_active_def ready_tasks_def active_td_def) (simp add: demo_def mk_td_def)
  then show ?thesis by (simp add: demo_boost_def)
qed

lemma demo_boost_tasks:
  "ACTIVE_PTR demo_boost = 400" "TD_LIST demo_boost = [100, 200, 300, 400]" "TDS demo_boost 100 = mk_td 1 READY 9"
  "TDS demo_boost 200 = (mk_td 2 READY 2)\<lparr>HOME_QUEUE := 5, BOOSTED := 1, FLAGS := 0x8000\<rparr>"
  "TDS demo_boost 300 = (mk_td 3 MUTEX_BLOCKED 2)\<lparr>INFO := 156\<rparr>" "TDS demo_boost 400 = mk_td 4 READY 2"
  "mutex_waiters 64 demo_boost = []" "mutex_waiters 128 demo_boost = [300]"
  by (simp_all add: demo_boost_def) (simp_all add: mutex_waiters_def MTX_WAITING_TASKS_def)

lemma demo_boost_mutexes:
  "mutex_at 64 demo_boost = \<lparr>MTX_VALID = 0x6d757478, PROTOCOLS = 0x104, PRIORITY_CEILING = 0, MTX_COUNT = 0, LOCK = 0x80,
     OWNER_TD = 200, MTX_BOOSTED = 0\<rparr>"
  "mutex_at 128 demo_boost = \<lparr>MTX_VALID = 0x6d757478, PROTOCOLS = 0x104, PRIORITY_CEILING = 0, MTX_COUNT = 0, LOCK = 0x80,
     OWNER_TD = 200, MTX_BOOSTED = 1\<rparr>"
proof -
  have "mutex_at m demo = \<lparr>MTX_VALID = 0x6d757478, PROTOCOLS = 4, PRIORITY_CEILING = 0, MTX_COUNT = 0, LOCK = 0,
         OWNER_TD = 0, MTX_BOOSTED = 0\<rparr>" for m by (simp add: mutex_at_def demo_def)
  moreover have "mutex_at m (demo\<lparr>TDS := d, TD_LIST := l, READY_Q := q, CURRENT_READY_Q := c, ACTIVE_PTR := a,
      TIMEOUT_QUEUE := x, TD_QUEUES := y\<rparr>) = mutex_at m demo" for m d l q c a x y by (simp add: mutex_at_def)
  ultimately show
    "mutex_at 64 demo_boost = \<lparr>MTX_VALID = 0x6d757478, PROTOCOLS = 0x104, PRIORITY_CEILING = 0, MTX_COUNT = 0, LOCK = 0x80,
     OWNER_TD = 200, MTX_BOOSTED = 0\<rparr>"
    "mutex_at 128 demo_boost = \<lparr>MTX_VALID = 0x6d757478, PROTOCOLS = 0x104, PRIORITY_CEILING = 0, MTX_COUNT = 0, LOCK = 0x80,
     OWNER_TD = 200, MTX_BOOSTED = 1\<rparr>"
    by (simp_all add: demo_boost_def)
qed

lemma demo_boost_protocols:
  "mutex_valid 64 demo_boost" "\<not> mutex_has 3 64 demo_boost" "mutex_has MUTEX_PRIO_INHERIT 64 demo_boost"
  "\<not> mutex_has MUTEX_PRIO_PROTECT 64 demo_boost" "mutex_owner 128 demo_boost = Some 200"
  by (simp_all add: mutex_valid_def mutex_has_def mutex_owner_def demo_boost_mutexes)

lemma demo_boost_switch: "ACTIVE_PTR (state_of (mutex_lock W 64 demo_boost)) = 200"
proof -
  let ?k = demo_boost
  define j where "j = mutex_join 64 (ACTIVE_PTR ?k) (upd_mutex 64 (\<lambda>v. v\<lparr>MTX_BOOSTED := MTX_BOOSTED v + 1\<rparr>) (INT_DISABLE ?k))"
  have e: "state_of (mutex_lock W 64 ?k) = switch_task j" and r: "running 100 (switch_task j)" unfolding j_def
    by (rule lock_counts_on_mutex [OF demo_boost_running, where t = 200];
        use demo_boost_protocols in \<open>simp add: demo_boost_tasks demo_boost_mutexes active_td_def mk_td_def\<close>)+
  have d: "STATE (TDS j 400) \<noteq> READY" "STATE (TDS j 300) \<noteq> READY" "MY_QUEUE (TDS j 100) = 9" "MY_QUEUE (TDS j 200) = 2"
    "STATE (TDS j 200) = READY" "TD_LIST j = [100, 200, 300, 400]"
    by (simp_all add: j_def mutex_join_eq demo_boost_tasks mk_td_def)
  have a: "ACTIVE_PTR (switch_task j) \<in> ready_tasks j" using r by (simp add: running_def top_active_def)
  have "ready_tasks j \<subseteq> {100, 200}" using d by (auto simp: ready_tasks_def)
  moreover have "200 \<in> ready_tasks j" using d by (simp add: ready_tasks_def)
  then have "MY_QUEUE (TDS j (ACTIVE_PTR (switch_task j))) \<le> MY_QUEUE (TDS j 200)"
    using r top_active_best [of "switch_task j"] by (simp add: running_def active_td_def)
  then have "ACTIVE_PTR (switch_task j) \<noteq> 100" using d by auto
  ultimately show ?thesis using a e by auto
qed

theorem mutex_boost_counts_disagree_witness:
  "let k1 = state_of (mutex_lock (\<lambda>k. k) 64 demo_boost); k2 = state_of (mutex_unlock 64 k1)
   in MTX_BOOSTED (mutex_at 64 k1) = 1 \<and> BOOSTED (TDS k1 200) = 1 \<and> mutex_owner 128 k2 = Some 200 \<and>
      300 \<in> set (mutex_waiters 128 k2) \<and> MY_QUEUE (TDS k2 200) = HOME_QUEUE (TDS demo_boost 200) \<and>
      MY_QUEUE (TDS k2 300) < MY_QUEUE (TDS k2 200)"
proof -
  let ?k = demo_boost and ?k1 = "state_of (mutex_lock (\<lambda>k. k) 64 demo_boost)"
  have "MTX_BOOSTED (mutex_at 64 ?k1) = 1 \<and> MTX_BOOSTED (mutex_at 128 ?k1) = 1 \<and> BOOSTED (TDS ?k1 200) = 1 \<and>
    (ACTIVE_PTR ?k1 = 200 \<longrightarrow>
      (let k2 = state_of (mutex_unlock 64 ?k1)
       in mutex_owner 128 k2 = Some 200 \<and> 300 \<in> set (mutex_waiters 128 k2) \<and>
          MY_QUEUE (TDS k2 200) = HOME_QUEUE (TDS ?k 200) \<and> MY_QUEUE (TDS k2 300) < MY_QUEUE (TDS k2 200)))"
    by (rule mutex_boost_counts_disagree [OF demo_boost_running])
      (use demo_boost_protocols in \<open>simp_all add: demo_boost_tasks demo_boost_mutexes active_td_def mk_td_def\<close>)
  then show ?thesis using demo_boost_switch [of "\<lambda>k. k"] unfolding Let_def by blast
qed

subsection \<open>Attributes\<close>

text \<open>
  Fact. Attributes and creation. A setter of valid attributes stores the value, which the getter then
  returns and no other field sees, or rejects it with \<^verbatim>\<open>MQX_EINVAL\<close> and changes nothing; exactly the four
  waiting protocols, the three single scheduling protocols and ceilings that are task priorities are
  accepted. After \<^verbatim>\<open>_mutatr_destroy\<close> every function rejects the attributes. A mutex created from valid
  attributes is free, without waiters, and has both protocols.
\<close>

theorem mutex_attributes:
  assumes v: "ATTR_VALID a = MUTEX_VALID"
  shows "mutatr_set_wait_protocol w (Some a) =
      (if w \<in> {1, 2, 4, 8} then (MQX_EOK, Some (a\<lparr>WAIT_PROTOCOL := w\<rparr>)) else (MQX_EINVAL, Some a))
    \<and> mutatr_set_sched_protocol s (Some a) =
      (if s \<in> {0, 0x100, 0x200} then (MQX_EOK, Some (a\<lparr>SCHED_PROTOCOL := s\<rparr>)) else (MQX_EINVAL, Some a))
    \<and> mutatr_set_priority_ceiling k c (Some a) =
      (if c \<le> LOWEST_TASK_PRIORITY k then (MQX_EOK, Some (a\<lparr>ATTR_CEILING := c\<rparr>)) else (MQX_EINVAL, Some a))
    \<and> (w \<in> {1, 2, 4, 8} \<longrightarrow> mutatr_get_wait_protocol False (snd (mutatr_set_wait_protocol w (Some a))) = (MQX_EOK, Some w))
    \<and> mutatr_get_spin_limit False (snd (mutatr_set_spin_limit n (Some a))) = (MQX_EOK, Some n)
    \<and> fst (mutatr_set_spin_limit n (snd (mutatr_destroy (Some a)))) = MQX_EINVAL
    \<and> fst (mutex_init m (snd (mutatr_destroy (Some a))) al k) = MQX_EINVAL
    \<and> (m \<noteq> NULL \<and> KERNEL_MUTEXES (OBJ k) = Some MUTEX_VALID \<and> m \<notin> set (MUTEX_LIST (OBJ k)) \<longrightarrow>
        fst (mutex_init m (Some a) al k) = MQX_EOK
      \<and> mutex_owner m (snd (mutex_init m (Some a) al k)) = None \<and> mutex_waiters m (snd (mutex_init m (Some a) al k)) = []
      \<and> PROTOCOLS (mutex_at m (snd (mutex_init m (Some a) al k))) = SCHED_PROTOCOL a OR WAIT_PROTOCOL a)"
proof -
  have "fst (mutex_init m (Some a) al k) = MQX_EOK
      \<and> mutex_owner m (snd (mutex_init m (Some a) al k)) = None \<and> mutex_waiters m (snd (mutex_init m (Some a) al k)) = []
      \<and> PROTOCOLS (mutex_at m (snd (mutex_init m (Some a) al k))) = SCHED_PROTOCOL a OR WAIT_PROTOCOL a"
    if "m \<noteq> NULL \<and> KERNEL_MUTEXES (OBJ k) = Some MUTEX_VALID \<and> m \<notin> set (MUTEX_LIST (OBJ k))"
    using that v by (simp add: mutex_init_def Let_def mutex_owner_def mutex_waiters_def mutex_at_def upd_mutex_def TDQ_SET_def)
  moreover have "fst (mutex_init m (snd (mutatr_destroy (Some a))) al k) = MQX_EINVAL"
    using v by (simp add: mutatr_destroy_def mutatr_change_def mutex_init_def Let_def)
  ultimately show ?thesis using v
    by (simp add: mutatr_set_wait_protocol_def mutatr_set_sched_protocol_def mutatr_set_priority_ceiling_def
        mutatr_change_def mutatr_get_wait_protocol_def mutatr_get_def mutatr_get_spin_limit_def mutatr_set_spin_limit_def
        mutatr_destroy_def not_le)
qed

theorem mutex_attributes_witness:
  "fst (mutatr_set_sched_protocol 0x300 (snd (mutatr_init (Some \<lparr>SCHED_PROTOCOL = 7, ATTR_VALID = 0, ATTR_CEILING = 9, ATTR_COUNT = 5, WAIT_PROTOCOL = 1\<rparr>)))) = MQX_EINVAL"
  using mutex_attributes [of "\<lparr>SCHED_PROTOCOL = 0, ATTR_VALID = 0x6d757478, ATTR_CEILING = 0, ATTR_COUNT = 0, WAIT_PROTOCOL = 4\<rparr>" 4 "0x300"]
  by (simp add: mutatr_init_def)

end
