(* ===== verification/Mutex_Cleanup.thy ===== *)
theory Mutex_Cleanup
  imports Mutex
begin

text \<open>
  \<^verbatim>\<open>_mutex_cleanup\<close>, called when a task is destroyed: the active task takes over every mutex the task owns and
  unlocks it. An unlock may switch to the next owner, so other tasks can run between the rounds; the rounds
  are counted by a number that the theorem shows to be large enough. The result says whether the loop ended.
\<close>

subsection \<open>The function\<close>

definition owned_by :: "addr \<Rightarrow> addr \<Rightarrow> kernel \<Rightarrow> bool" where
  "owned_by t m k \<longleftrightarrow> LOCK (mutex_at m k) \<noteq> 0 \<and> OWNER_TD (mutex_at m k) = t"

text \<open>The loop goes through the list to the first mutex of the task, and after the unlock starts again at the
  head of the list.\<close>

fun cleanup_loop :: "nat \<Rightarrow> addr \<Rightarrow> kernel \<Rightarrow> (kernel, bool) prog" where
  "cleanup_loop 0 t k = Done False k"
| "cleanup_loop (Suc n) t k =
     (case find (\<lambda>m. owned_by t m k) (MUTEX_LIST (OBJ k)) of
        None \<Rightarrow> Done True k
      | Some m \<Rightarrow> andthen (mutex_unlock m (upd_mutex m (\<lambda>v. v\<lparr>OWNER_TD := ACTIVE_PTR k\<rparr>) k)) (\<lambda>_. cleanup_loop n t))"

definition mutex_cleanup :: "nat \<Rightarrow> addr \<Rightarrow> kernel \<Rightarrow> (kernel, bool) prog" where
  "mutex_cleanup n t k =
     (case KERNEL_MUTEXES (OBJ k) of
        None \<Rightarrow> Done True k
      | Some valid \<Rightarrow>
          if valid \<noteq> MUTEX_VALID then Done True k
          else andthen (cleanup_loop n t (INT_DISABLE k)) (\<lambda>b k1. Done b (INT_ENABLE k1)))"

subsection \<open>Results of programs that are switched out\<close>

text \<open>\<open>ensures G Q p\<close>: whenever \<open>p\<close> ends, its result and final state satisfy \<open>Q\<close>, if what happens while it is
  switched out in \<open>k\<close> and until it is resumed in \<open>k'\<close> respects \<open>G k k'\<close>. \<open>halts p\<close>: it ends after finitely many
  switches, whatever happens at them.\<close>

coinductive ensures :: "('k \<Rightarrow> 'k \<Rightarrow> bool) \<Rightarrow> ('a \<Rightarrow> 'k \<Rightarrow> bool) \<Rightarrow> ('k, 'a) prog \<Rightarrow> bool" for G Q where
  ended: "Q a k \<Longrightarrow> ensures G Q (Done a k)"
| waits: "(\<And>k'. G k k' \<Longrightarrow> ensures G Q (c k')) \<Longrightarrow> ensures G Q (Susp k c)"

inductive halts :: "('k, 'a) prog \<Rightarrow> bool" where
  halted: "halts (Done a k)"
| switches: "(\<And>k'. halts (c k')) \<Longrightarrow> halts (Susp k c)"

inductive_simps ensures_simps [simp]: "ensures G Q (Done a k)" "ensures G Q (Susp k c)"
inductive_simps halts_simps [simp]: "halts (Done a k)" "halts (Susp k c)"

lemma ensures_andthen:
  assumes "keeps S D R p" and "\<And>a k. D k \<Longrightarrow> ensures G Q (f a k)" and "\<And>k k'. G k k' \<Longrightarrow> S k \<Longrightarrow> S k' \<and> R k'"
  shows "ensures G Q (andthen p f)"
  using assms(1)
proof (coinduction arbitrary: p)
  case ensures
  then show ?case
  proof cases
    case (finished k a)
    with assms(2) [of k a] have "ensures G Q (f a k)" by simp
    then show ?thesis using finished by (cases "f a k") auto
  next
    case (switched k c)
    then show ?thesis using assms(3) [of k] by auto
  qed
qed

lemma ensures_Done:
  assumes "ensures G Q p" and "\<And>a k. Q a k \<Longrightarrow> Q' (g a) (h k)"
  shows "ensures G Q' (andthen p (\<lambda>a k. Done (g a) (h k)))"
  using assms(1)
proof (coinduction arbitrary: p)
  case ensures
  then show ?case by (cases p) (auto intro: assms(2))
qed

lemma halts_andthen:
  assumes "halts p" and "\<And>a k. halts (f a k)"
  shows "halts (andthen p f)"
  using assms(1) by induction (simp_all add: assms(2))

lemma halts_scheduler [simp]:
  "halts (sched_execute_scheduler k)" "halts (sched_check_scheduler k)" "halts (sched_set_priority t p k)"
  "halts (sched_boost_priority t p k)" "halts (sched_unboost_priority t n k)"
proof -
  show e: "halts (sched_execute_scheduler k)" for k by (simp add: sched_execute_scheduler_def Let_def)
  show c: "halts (sched_check_scheduler k)" for k by (simp add: sched_check_scheduler_def e)
  show p: "halts (sched_set_priority t p k)" for t p k by (simp add: sched_set_priority_def Let_def e)
  show "halts (sched_boost_priority t p k)" unfolding sched_boost_priority_def by (intro halts_andthen p c)
  have "halts (andthen (sched_set_priority t q x) (\<lambda>_ k2. sched_check_scheduler k2))" for q x by (intro halts_andthen p c)
  then show "halts (sched_unboost_priority t n k)" by (simp add: sched_unboost_priority_def Let_def)
qed

lemma halts_mutex_unlock [simp]: "halts (mutex_unlock m k)"
proof -
  have b: "halts (mutex_boost m t p k)" for t p k
  proof -
    have "halts (if b then sched_boost_priority t p k else Done () k)" for b by simp
    then show ?thesis by (simp add: mutex_boost_def halts_andthen)
  qed
  have i: "halts (if b then mutex_boost m t p k else Done () k)" for b t p k by (simp add: b)
  have h: "halts (unlock_handover m t k)" for t k by (simp add: unlock_handover_def Let_def halts_andthen i)
  have u: "halts (if b then sched_unboost_priority t n k else Done () k)" for b t n k by simp
  have "halts (if b then Done () x else case ts of t # _ \<Rightarrow> unlock_handover m t y | [] \<Rightarrow> Done () z)" for b x y z ts
    by (simp add: h split: list.splits)
  then show ?thesis by (simp add: mutex_unlock_def Let_def halts_andthen u)
qed

subsection \<open>One round\<close>

text \<open>The mutexes of the list are valid, the task waits for none of them, and it owns at most those in \<open>X\<close>.\<close>

definition cleanup_env :: "addr \<Rightarrow> addr set \<Rightarrow> kernel \<Rightarrow> bool" where
  "cleanup_env t X k \<longleftrightarrow> (\<forall>m \<in> set (MUTEX_LIST (OBJ k)).
      m \<noteq> NULL \<and> mutex_valid m k \<and> LOCK (mutex_at m k) \<in> {0, MQX_TEST_AND_SET_VALUE} \<and> t \<notin> set (mutex_waiters m k) \<and>
      (owned_by t m k \<longrightarrow> m \<in> X))"

lemma cleanup_env_stable: "stable (cleanup_env t X)"
  by (simp add: stable_def cleanup_env_def owned_by_def mutex_valid_def mutex_waiters_def mutex_at_def frame_eq_def)

lemma cleanup_env_INT [simp]:
  "cleanup_env t X (INT_DISABLE k) = cleanup_env t X k" "cleanup_env t X (INT_ENABLE k) = cleanup_env t X k"
  by (simp_all add: cleanup_env_def owned_by_def mutex_valid_def mutex_waiters_def mutex_at_def)

lemma MUTEX_LIST_upd_mutex [simp]: "MUTEX_LIST (OBJ (upd_mutex m f k)) = MUTEX_LIST (OBJ k)"
  by (simp add: upd_mutex_def)

lemma mutex_at_upd: "mutex_at x (upd_mutex m f k) = (if x = m then f (mutex_at m k) else mutex_at x k)"
  by (simp add: mutex_at_def upd_mutex_def)

lemma cleanup_env_upd:
  assumes "cleanup_env t X k" "MTX_VALID (f (mutex_at m k)) = MTX_VALID (mutex_at m k)"
    and "LOCK (f (mutex_at m k)) \<in> {0, LOCK (mutex_at m k)}"
    and "LOCK (f (mutex_at m k)) \<noteq> 0 \<and> OWNER_TD (f (mutex_at m k)) = t \<Longrightarrow> m \<in> Y" and "X - {m} \<subseteq> Y"
  shows "cleanup_env t Y (upd_mutex m f k)"
  unfolding cleanup_env_def
proof
  fix x assume "x \<in> set (MUTEX_LIST (OBJ (upd_mutex m f k)))"
  then have x: "x \<noteq> NULL" "mutex_valid x k" "LOCK (mutex_at x k) \<in> {0, MQX_TEST_AND_SET_VALUE}" "t \<notin> set (mutex_waiters x k)"
    "owned_by t x k \<longrightarrow> x \<in> X"
    using assms(1) by (auto simp: cleanup_env_def)
  show "x \<noteq> NULL \<and> mutex_valid x (upd_mutex m f k) \<and> LOCK (mutex_at x (upd_mutex m f k)) \<in> {0, MQX_TEST_AND_SET_VALUE} \<and>
      t \<notin> set (mutex_waiters x (upd_mutex m f k)) \<and> (owned_by t x (upd_mutex m f k) \<longrightarrow> x \<in> Y)"
    using x assms(2-) by (cases "x = m") (auto simp: owned_by_def mutex_valid_def mutex_waiters_def mutex_at_upd)
qed

lemma cleanup_env_boosted [simp]:
  assumes "cleanup_env t X k"
  shows "cleanup_env t X (upd_mutex m (\<lambda>v. v\<lparr>MTX_BOOSTED := b v\<rparr>) k)"
  unfolding cleanup_env_def
proof
  fix x assume "x \<in> set (MUTEX_LIST (OBJ (upd_mutex m (\<lambda>v. v\<lparr>MTX_BOOSTED := b v\<rparr>) k)))"
  then show "x \<noteq> NULL \<and> mutex_valid x (upd_mutex m (\<lambda>v. v\<lparr>MTX_BOOSTED := b v\<rparr>) k) \<and>
      LOCK (mutex_at x (upd_mutex m (\<lambda>v. v\<lparr>MTX_BOOSTED := b v\<rparr>) k)) \<in> {0, MQX_TEST_AND_SET_VALUE} \<and>
      t \<notin> set (mutex_waiters x (upd_mutex m (\<lambda>v. v\<lparr>MTX_BOOSTED := b v\<rparr>) k)) \<and>
      (owned_by t x (upd_mutex m (\<lambda>v. v\<lparr>MTX_BOOSTED := b v\<rparr>) k) \<longrightarrow> x \<in> X)"
    using assms by (cases "x = m") (auto simp: cleanup_env_def owned_by_def mutex_valid_def mutex_waiters_def mutex_at_upd)
qed

lemma cleanup_env_wake:
  "cleanup_env t X k \<Longrightarrow> cleanup_env t X (tdq_wake q x k)"
  by (auto simp: cleanup_env_def owned_by_def mutex_valid_def mutex_waiters_def mutex_at_def tdq_wake_def TDQ_SET_def)

lemma boost_cleanup_env:
  assumes "back_at a (cleanup_env t X) k"
  shows "keeps (cleanup_env t X) (back_at a (cleanup_env t X)) (resumes a) (mutex_boost m x p k)"
proof -
  let ?K = "keeps (cleanup_env t X) (back_at a (cleanup_env t X)) (resumes a)"
  have "?K (if b then sched_boost_priority x p k else Done () k)" for b
    using boost_stable [OF cleanup_env_stable assms] assms by simp
  then have "?K (andthen (if b then sched_boost_priority x p k else Done () k)
      (\<lambda>_ k1. Done () (upd_mutex m (\<lambda>v. v\<lparr>MTX_BOOSTED := MTX_BOOSTED v + 1\<rparr>) k1)))" for b
    by (rule keeps_andthen) (simp add: back_at_def)
  then show ?thesis using assms by (simp add: mutex_boost_def)
qed

lemma cleanup_round:
  assumes e: "cleanup_env t X k" and m: "m \<in> set (MUTEX_LIST (OBJ k))" "owned_by t m k"
  defines "a \<equiv> ACTIVE_PTR k"
  shows "keeps (cleanup_env t (X - {m})) (back_at a (cleanup_env t (X - {m}))) (resumes a)
    (mutex_unlock m (upd_mutex m (\<lambda>v. v\<lparr>OWNER_TD := a\<rparr>) k))"
proof -
  let ?K = "keeps (cleanup_env t (X - {m})) (back_at a (cleanup_env t (X - {m}))) (resumes a)"
  define k0 where "k0 = upd_mutex m (\<lambda>v. v\<lparr>OWNER_TD := a\<rparr>) k"
  define k2 where "k2 = upd_mutex m (\<lambda>v. v\<lparr>MTX_BOOSTED := 0\<rparr>) (INT_DISABLE k0)"
  have v: "m \<noteq> NULL" "mutex_valid m k" "LOCK (mutex_at m k) = MQX_TEST_AND_SET_VALUE" "t \<notin> set (mutex_waiters m k)"
    using e m by (auto simp: cleanup_env_def owned_by_def)
  have u: "mutex_valid m k0" "LOCK (mutex_at m k0) = MQX_TEST_AND_SET_VALUE" "OWNER_TD (mutex_at m k0) = a" "ACTIVE_PTR k0 = a"
    using v by (simp_all add: k0_def mutex_valid_def mutex_at_upd a_def)
  have "cleanup_env t X k0" unfolding k0_def
    by (rule cleanup_env_upd [OF e]) (use m e in \<open>auto simp: cleanup_env_def\<close>)
  then have e2: "cleanup_env t X k2" by (simp add: k2_def)
  have w2: "mutex_waiters m k2 = mutex_waiters m k" by (simp add: k2_def k0_def mutex_waiters_def)
  have a2: "ACTIVE_PTR k2 = a" using u(4) by (simp add: k2_def)
  have freed: "back_at a (cleanup_env t (X - {m})) (upd_mutex m f k2)" if "\<And>v. LOCK (f v) = 0" "\<And>v. MTX_VALID (f v) = MTX_VALID v" for f
    unfolding back_at_def by (intro conjI cleanup_env_upd [OF e2]) (use that a2 in auto)
  have handed: "?K (unlock_handover m x k2)" if "x \<in> set (mutex_waiters m k2)" for x
  proof -
    let ?w = "tdq_wake (MTX_WAITING_TASKS m) x (upd_mutex m (\<lambda>v. v\<lparr>OWNER_TD := x\<rparr>) k2)"
    have "x \<noteq> t" using that v(4) w2 by auto
    then have "cleanup_env t (X - {m}) (upd_mutex m (\<lambda>v. v\<lparr>OWNER_TD := x\<rparr>) k2)"
      by (intro cleanup_env_upd [OF e2]) auto
    then have w: "back_at a (cleanup_env t (X - {m})) ?w"
      using a2 by (simp add: back_at_def cleanup_env_wake) (simp add: tdq_wake_def)
    have "?K (if b then mutex_boost m x p ?w else Done () ?w)" for b p using boost_cleanup_env [OF w] w by simp
    then show ?thesis unfolding unlock_handover_def Let_def
      by (rule keeps_andthen) (rule check_stable [OF cleanup_env_stable])
  qed
  have "?K (if mutex_has (MUTEX_SPIN_ONLY OR MUTEX_LIMITED_SPIN) m k2
            then Done () (upd_mutex m (\<lambda>v. v\<lparr>OWNER_TD := NULL, LOCK := 0\<rparr>) k2)
            else case mutex_waiters m k2 of
                   x # _ \<Rightarrow> unlock_handover m x k2
                 | [] \<Rightarrow> Done () (upd_mutex m (\<lambda>v. v\<lparr>LOCK := 0, OWNER_TD := NULL\<rparr>) k2))" (is "keeps _ _ _ ?p")
    using freed handed by (simp split: list.splits)
  then have "?K (andthen ?p (\<lambda>_ k3. andthen (if b then sched_unboost_priority (ACTIVE_PTR k3) n k3 else Done () k3)
      (\<lambda>_ k4. Done MQX_EOK (INT_ENABLE k4))))" for b n
  proof (rule keeps_andthen)
    fix k3 assume "back_at a (cleanup_env t (X - {m})) k3"
    then have "?K (if b then sched_unboost_priority (ACTIVE_PTR k3) n k3 else Done () k3)"
      using unboost_stable [OF cleanup_env_stable] by simp
    then show "?K (andthen (if b then sched_unboost_priority (ACTIVE_PTR k3) n k3 else Done () k3)
        (\<lambda>_ k4. Done MQX_EOK (INT_ENABLE k4)))" by (rule keeps_andthen) (simp add: back_at_def)
  qed
  then have "?K (mutex_unlock m k0)"
    by (simp only: mutex_unlock_def Let_def v(1) u k2_def [symmetric] simp_thms if_False)
  then show ?thesis by (simp only: k0_def)
qed

subsection \<open>The loop\<close>

lemma cleanup_env_mono: "cleanup_env t X k \<Longrightarrow> X \<subseteq> Y \<Longrightarrow> cleanup_env t Y k"
  by (auto simp: cleanup_env_def)

lemma cleanup_env_none: "cleanup_env t {} k \<Longrightarrow> find (\<lambda>m. owned_by t m k) (MUTEX_LIST (OBJ k)) = None"
  by (auto simp: cleanup_env_def find_None_iff)

text \<open>What the other tasks may do while the clearing task \<open>a\<close> is switched out: mutexes stay valid, and the task
  that is destroyed neither waits for one nor becomes the owner of one.\<close>

definition leaves_alone :: "addr \<Rightarrow> addr \<Rightarrow> kernel \<Rightarrow> kernel \<Rightarrow> bool" where
  "leaves_alone t a k k' \<longleftrightarrow> resumes a k' \<and> (\<forall>X. cleanup_env t X k \<longrightarrow> cleanup_env t X k')"

lemma cleanup_loop_releases:
  assumes "finite X" "card X < n" "back_at a (cleanup_env t X) k"
  shows "ensures (leaves_alone t a) (\<lambda>ended k'. ended \<and> cleanup_env t {} k') (cleanup_loop n t k)"
  using assms
proof (induction n arbitrary: X k)
  case 0
  then show ?case by simp
next
  case (Suc n)
  have e: "cleanup_env t X k" "ACTIVE_PTR k = a" using Suc.prems(3) by (simp_all add: back_at_def)
  show ?case
  proof (cases "find (\<lambda>m. owned_by t m k) (MUTEX_LIST (OBJ k))")
    case None
    then have "cleanup_env t {} k" using e(1) by (auto simp: cleanup_env_def find_None_iff)
    then show ?thesis using None by simp
  next
    case (Some m)
    then have m: "m \<in> set (MUTEX_LIST (OBJ k))" "owned_by t m k" by (auto simp: find_Some_iff)
    then have "m \<in> X" using e(1) by (auto simp: cleanup_env_def)
    then have "card (X - {m}) < card X" using Suc.prems(1) by (intro card_Diff1_less)
    then have c: "finite (X - {m})" "card (X - {m}) < n" using Suc.prems(1,2) by simp_all
    have "ensures (leaves_alone t a) (\<lambda>ended k'. ended \<and> cleanup_env t {} k')
        (andthen (mutex_unlock m (upd_mutex m (\<lambda>v. v\<lparr>OWNER_TD := a\<rparr>) k)) (\<lambda>_. cleanup_loop n t))"
      by (rule ensures_andthen [OF cleanup_round [OF e(1) m, unfolded e(2)] Suc.IH [OF c]])
        (auto simp: leaves_alone_def)
    then show ?thesis using Some e(2) by simp
  qed
qed

lemma halts_cleanup_loop: "halts (cleanup_loop n t k)"
  by (induction n arbitrary: k) (auto simp: halts_andthen split: option.splits)

text \<open>
  C25 (termination). \<^verbatim>\<open>_mutex_cleanup\<close>, which starts again at the head of the list of mutexes after every unlock, ends:
  as many rounds as there are mutexes, and one to find that none is left, are enough, although other tasks
  run between the rounds. Afterwards the task that is destroyed owns none of the mutexes. The mutexes
  are valid at the start and the task waits for none of them; the others leave it alone meanwhile.
\<close>

theorem mutex_cleanup_releases:
  assumes "KERNEL_MUTEXES (OBJ k) = Some MUTEX_VALID" "length (MUTEX_LIST (OBJ k)) < n"
    and "cleanup_env t (set (MUTEX_LIST (OBJ k))) k"
  shows "halts (mutex_cleanup n t k) \<and>
    ensures (leaves_alone t (ACTIVE_PTR k))
      (\<lambda>ended k'. ended \<and> list_all (\<lambda>m. \<not> owned_by t m k') (MUTEX_LIST (OBJ k'))) (mutex_cleanup n t k)"
proof
  have c: "card (set (MUTEX_LIST (OBJ k))) < n" using assms(2) card_length [of "MUTEX_LIST (OBJ k)"] by simp
  have "ensures (leaves_alone t (ACTIVE_PTR k)) (\<lambda>ended k'. ended \<and> cleanup_env t {} k') (cleanup_loop n t (INT_DISABLE k))"
    by (rule cleanup_loop_releases [OF _ c]) (use assms(3) in \<open>simp_all add: back_at_def\<close>)
  then have "ensures (leaves_alone t (ACTIVE_PTR k)) (\<lambda>ended k'. ended \<and> list_all (\<lambda>m. \<not> owned_by t m k') (MUTEX_LIST (OBJ k')))
      (andthen (cleanup_loop n t (INT_DISABLE k)) (\<lambda>b k1. Done b (INT_ENABLE k1)))"
    by (rule ensures_Done) (auto simp: cleanup_env_def owned_by_def mutex_at_def list_all_iff)
  then show "ensures (leaves_alone t (ACTIVE_PTR k))
      (\<lambda>ended k'. ended \<and> list_all (\<lambda>m. \<not> owned_by t m k') (MUTEX_LIST (OBJ k'))) (mutex_cleanup n t k)"
    using assms(1) by (simp add: mutex_cleanup_def)
  show "halts (mutex_cleanup n t k)"
    using assms(1) by (simp add: mutex_cleanup_def halts_andthen halts_cleanup_loop)
qed

text \<open>The task 300 owns the mutex 64.\<close>

definition demo_owner :: kernel where
  "demo_owner = upd_mutex 64 (\<lambda>v. v\<lparr>LOCK := 0x80, OWNER_TD := 300, MTX_BOOSTED := 1\<rparr>)
     (upd_td 200 (\<lambda>d. d\<lparr>HOME_QUEUE := 5, BOOSTED := 1, FLAGS := 0x8000\<rparr>) (demo\<lparr>OBJ := (OBJ demo)\<lparr>MUTEX_LIST := [64]\<rparr>\<rparr>))"

lemma demo_owner_facts:
  "MUTEX_LIST (OBJ demo_owner) = [64]" "KERNEL_MUTEXES (OBJ demo_owner) = Some MUTEX_VALID" "ACTIVE_PTR demo_owner = 200"
  "mutex_valid 64 demo_owner" "LOCK (mutex_at 64 demo_owner) = 0x80" "OWNER_TD (mutex_at 64 demo_owner) = 300"
  "mutex_waiters 64 demo_owner = []" "MTX_BOOSTED (mutex_at 64 demo_owner) = 1" "\<not> mutex_has 3 64 demo_owner"
  "MY_QUEUE (TDS demo_owner 200) = 3" "HOME_QUEUE (TDS demo_owner 200) = 5" "BOOSTED (TDS demo_owner 200) = 1"
  "FLAGS (TDS demo_owner 200) = 0x8000"
  by (simp_all add: demo_owner_def mutex_valid_def mutex_has_def mutex_waiters_def)
    (simp_all add: demo_def mk_td_def mutex_at_def upd_mutex_def upd_td_def)

theorem mutex_cleanup_releases_witness:
  "halts (mutex_cleanup 2 300 demo_owner) \<and>
   ensures (leaves_alone 300 200) (\<lambda>ended k'. ended \<and> list_all (\<lambda>m. \<not> owned_by 300 m k') (MUTEX_LIST (OBJ k'))) (mutex_cleanup 2 300 demo_owner)"
proof -
  have "cleanup_env 300 (set (MUTEX_LIST (OBJ demo_owner))) demo_owner"
    by (simp add: cleanup_env_def demo_owner_facts)
  then show ?thesis
    using mutex_cleanup_releases [of demo_owner 2 300] by (simp add: demo_owner_facts)
qed

subsection \<open>Whose priority an unlock lowers\<close>

text \<open>The boosts counted on the mutex were given to the task that is destroyed; the unlock takes them from the
  clearing task. If that one is boosted for another reason, it falls back to its own priority.\<close>

lemma unlock_last_falls_home:
  assumes v: "mutex_valid m k" "m \<noteq> NULL" and l: "LOCK (mutex_at m k) = MQX_TEST_AND_SET_VALUE" "\<not> mutex_has 3 m k"
    and h: "OWNER_TD (mutex_at m k) = ACTIVE_PTR k" "mutex_waiters m k = []" "FLAGS (active_td k) AND TASK_PRIORITY_BOOSTED \<noteq> 0"
      "MTX_BOOSTED (mutex_at m k) \<noteq> 0" "BOOSTED (active_td k) \<le> MTX_BOOSTED (mutex_at m k)"
  shows "keeps (\<lambda>k'. MY_QUEUE (TDS k' (ACTIVE_PTR k)) = HOME_QUEUE (active_td k))
    (\<lambda>k'. MY_QUEUE (TDS k' (ACTIVE_PTR k)) = HOME_QUEUE (active_td k)) R (mutex_unlock m k)"
proof -
  let ?a = "ACTIVE_PTR k" and ?P = "\<lambda>k'. MY_QUEUE (TDS k' (ACTIVE_PTR k)) = HOME_QUEUE (active_td k)"
  let ?k = "upd_mutex m (\<lambda>v. v\<lparr>LOCK := 0, OWNER_TD := NULL\<rparr>) (upd_mutex m (\<lambda>v. v\<lparr>MTX_BOOSTED := 0\<rparr>) (INT_DISABLE k))"
  have "mutex_unlock m k = andthen (sched_unboost_priority ?a (MTX_BOOSTED (mutex_at m k)) ?k) (\<lambda>_ k4. Done MQX_EOK (INT_ENABLE k4))"
    using h v l by (simp add: mutex_unlock_def Let_def mutex_has_def)
  moreover have "keeps ?P ?P R (sched_unboost_priority ?a (MTX_BOOSTED (mutex_at m k)) ?k)"
    using unboost_falls_home [of ?k ?a "MTX_BOOSTED (mutex_at m k)" R] h by (auto simp: active_td_def)
  then have "keeps ?P ?P R (andthen (sched_unboost_priority ?a (MTX_BOOSTED (mutex_at m k)) ?k) (\<lambda>_ k4. Done MQX_EOK (INT_ENABLE k4)))"
    by (rule keeps_andthen) simp
  ultimately show ?thesis by simp
qed

lemma mutex_cleanup_lowers_active:
  assumes "KERNEL_MUTEXES (OBJ k) = Some MUTEX_VALID" "MUTEX_LIST (OBJ k) = [m]" "m \<noteq> NULL" "mutex_valid m k"
    and "LOCK (mutex_at m k) = MQX_TEST_AND_SET_VALUE" "\<not> mutex_has 3 m k" "OWNER_TD (mutex_at m k) = t" "t \<noteq> ACTIVE_PTR k"
    and "mutex_waiters m k = []" "FLAGS (active_td k) AND TASK_PRIORITY_BOOSTED \<noteq> 0"
    and "MTX_BOOSTED (mutex_at m k) \<noteq> 0" "BOOSTED (active_td k) \<le> MTX_BOOSTED (mutex_at m k)"
  shows "MY_QUEUE (TDS (state_of (mutex_cleanup (Suc 0) t k)) (ACTIVE_PTR k)) = HOME_QUEUE (active_td k)"
proof -
  let ?a = "ACTIVE_PTR k"
  define k0 where "k0 = upd_mutex m (\<lambda>v. v\<lparr>OWNER_TD := ?a\<rparr>) (INT_DISABLE k)"
  let ?P = "\<lambda>k'. MY_QUEUE (TDS k' ?a) = HOME_QUEUE (active_td k)"
  have a: "ACTIVE_PTR k0 = ?a" "active_td k0 = (active_td k)\<lparr>DISABLED_LEVEL := DISABLED_LEVEL (active_td k) + 1\<rparr>"
    by (simp_all add: k0_def active_td_def) (simp add: INT_DISABLE_def)
  have "keeps ?P ?P (\<lambda>_. True) (mutex_unlock m k0)"
    using unlock_last_falls_home [of m k0 "\<lambda>_. True"] assms a
    by (simp add: k0_def mutex_valid_def mutex_has_def mutex_waiters_def)
  then have "keeps ?P ?P (\<lambda>_. True) (andthen (mutex_unlock m k0) (\<lambda>_ k1. Done False (INT_ENABLE k1)))"
    by (rule keeps_andthen) simp
  then have "?P (state_of (andthen (mutex_unlock m k0) (\<lambda>_ k1. Done False (INT_ENABLE k1))))" by (rule keeps_state)
  moreover have "find (\<lambda>m. owned_by t m (INT_DISABLE k)) (MUTEX_LIST (OBJ (INT_DISABLE k))) = Some m"
    using assms(2,5,7) by (simp add: owned_by_def)
  ultimately show ?thesis using assms(1) by (simp add: mutex_cleanup_def k0_def andthen_assoc)
qed

end
