(* ===== verification/Object_Tests.thy ===== *)
theory Object_Tests
  imports Lwsem Lwevent Mutex
begin

text \<open>
  The consistency tests of the synchronisation objects: \<^verbatim>\<open>_lwsem_test\<close>, \<^verbatim>\<open>_taskq_test\<close>, \<^verbatim>\<open>_lwevent_test\<close> and
  \<^verbatim>\<open>_mutex_test\<close>. They follow the links of the kernel's list of objects and of the wait queue of every object,
  so their models read the heap of queue links of theory \<^verbatim>\<open>Mqx_Queue\<close> beside the kernel state; \<open>head\<close> is the
  address of the kernel's list. A result is the error code, the object in error and the queue element in
  error; \<open>None\<close> is the null pointer. The theorems say that the tests accept exactly the well-formed lists of
  valid objects with well-formed wait queues, that they name the first object that is not, and which
  interrupt level they leave.
\<close>

subsection \<open>The tests\<close>

text \<open>The loop of the first three tests; the counter is the size of the list.\<close>

fun test_objects ::
  "(addr \<Rightarrow> bool) \<Rightarrow> u32 \<Rightarrow> (addr \<Rightarrow> addr) \<Rightarrow> queue_heap \<Rightarrow> nat \<Rightarrow> addr \<Rightarrow> u32 \<Rightarrow> u32 \<times> addr \<times> addr option" where
  "test_objects valid invalid td_queue h 0 p result = (result, p, None)"
| "test_objects valid invalid td_queue h (Suc queue_size) p result =
     (if \<not> valid p then (invalid, p, None)
      else let (r, e) = queue_test (td_queue p) h
           in if r \<noteq> MQX_OK then (r, p, e)
              else test_objects valid invalid td_queue h queue_size (NEXT h p) r)"

definition test_list ::
  "(addr \<Rightarrow> bool) \<Rightarrow> u32 \<Rightarrow> (addr \<Rightarrow> addr) \<Rightarrow> addr \<Rightarrow> queue_heap \<Rightarrow> u32 \<Rightarrow> u32 \<times> addr option \<times> addr option" where
  "test_list valid invalid td_queue head h result =
     (let (r, p, e) = test_objects valid invalid td_queue h (unat (QUEUE_GET_SIZE head h)) (NEXT h head) result
      in (r, if r \<noteq> MQX_OK then Some p else None, e))"

definition lwsem_test :: "addr \<Rightarrow> queue_heap \<Rightarrow> kernel \<Rightarrow> (u32 \<times> addr option \<times> addr option) \<times> kernel" where
  "lwsem_test head h k =
     (if IN_ISR k \<noteq> 0 then ((MQX_CANNOT_CALL_FUNCTION_FROM_ISR, None, None), k)
      else let k1 = INT_DISABLE k; (result, e) = queue_test head h
           in if result \<noteq> MQX_OK then ((result, e, None), k1)
              else (test_list (\<lambda>s. sem_valid s k1) MQX_INVALID_LWSEM TD_QUEUE head h result, INT_ENABLE k1))"

definition taskq_test :: "addr \<Rightarrow> queue_heap \<Rightarrow> kernel \<Rightarrow> (u32 \<times> addr option \<times> addr option) \<times> kernel" where
  "taskq_test head h k =
     (if IN_ISR k \<noteq> 0 then ((MQX_CANNOT_CALL_FUNCTION_FROM_ISR, None, None), k)
      else if QUEUE_GET_SIZE head h = 0 then ((MQX_OK, None, None), k)
      else let k1 = INT_DISABLE k; (result, e) = queue_test head h
           in if result \<noteq> MQX_OK then ((result, e, None), INT_ENABLE k1)
              else (test_list (\<lambda>tq. taskq_valid tq k1) MQX_INVALID_TASK_QUEUE TASKQ_TDS head h result, INT_ENABLE k1))"

definition lwevent_test :: "addr \<Rightarrow> queue_heap \<Rightarrow> kernel \<Rightarrow> (u32 \<times> addr option \<times> addr option) \<times> kernel" where
  "lwevent_test head h k =
     (if IN_ISR k \<noteq> 0 then ((MQX_CANNOT_CALL_FUNCTION_FROM_ISR, None, None), k)
      else if NEXT h head = NULL then ((MQX_OK, None, None), k)
      else let (result, e) = queue_test head h
           in if result \<noteq> MQX_OK then ((result, e, None), k)
              else (test_list (\<lambda>ev. ev_valid ev k) MQX_LWEVENT_INVALID EV_WAITING_TASKS head h result, INT_ENABLE k))"

text \<open>\<^verbatim>\<open>_mutex_test\<close> follows the links until it meets the head again.\<close>

partial_function (option) mutex_test_loop :: "addr \<Rightarrow> queue_heap \<Rightarrow> kernel \<Rightarrow> addr \<Rightarrow> (u32 \<times> addr option) option" where
  "mutex_test_loop head h k m =
     (if m = head then Some (MQX_OK, None)
      else if \<not> mutex_valid m k then Some (MQX_EINVAL, Some m)
      else if fst (queue_test (MTX_WAITING_TASKS m) h) \<noteq> MQX_OK
      then Some (fst (queue_test (MTX_WAITING_TASKS m) h), Some m)
      else mutex_test_loop head h k (NEXT h m))"

definition mutex_test :: "addr \<Rightarrow> queue_heap \<Rightarrow> kernel \<Rightarrow> ((u32 \<times> addr option) \<times> kernel) option" where
  "mutex_test head h k =
     (case KERNEL_MUTEXES (OBJ k) of
        None \<Rightarrow> Some ((MQX_OK, None), k)
      | Some valid \<Rightarrow>
          if valid \<noteq> MUTEX_VALID then Some ((MQX_INVALID_COMPONENT_BASE, None), k)
          else let k1 = INT_DISABLE k; (result, e) = queue_test head h
               in if result \<noteq> MQX_OK then Some ((result, e), INT_ENABLE k1)
                  else map_option (\<lambda>r. (r, INT_ENABLE k1)) (mutex_test_loop head h k1 (NEXT h head)))"

subsection \<open>The loop\<close>

text \<open>An object passes if it is valid and the links of its wait queue are well formed.\<close>

definition passes :: "(addr \<Rightarrow> bool) \<Rightarrow> (addr \<Rightarrow> addr) \<Rightarrow> queue_heap \<Rightarrow> addr \<Rightarrow> bool" where
  "passes valid td_queue h p \<longleftrightarrow> valid p \<and> (\<exists>ts. queue_rep h (td_queue p) ts)"

lemma queue_test_cases:
  obtains "queue_test q h = (MQX_OK, None)" "\<exists>xs. queue_rep h q xs"
  | x where "queue_test q h = (MQX_CORRUPT_QUEUE, Some x)" "\<nexists>xs. queue_rep h q xs"
  using queue_test_loop_code [of q h "unat (QUEUE_GET_SIZE q h)" "NEXT h q" q] queue_test_rep [of q h]
  by (auto simp: queue_test_def)

lemma test_objects_result:
  assumes "chain h p xs q" "invalid \<noteq> MQX_OK"
  shows "test_objects valid invalid td_queue h (length xs) (NEXT h p) MQX_OK =
    (case dropWhile (passes valid td_queue h) xs of
       [] \<Rightarrow> (MQX_OK, q, None)
     | x # _ \<Rightarrow> if valid x then (MQX_CORRUPT_QUEUE, x, snd (queue_test (td_queue x) h)) else (invalid, x, None))"
  using assms(1)
proof (induction xs arbitrary: p)
  case Nil
  then show ?case by simp
next
  case (Cons x xs)
  from Cons.prems have n: "NEXT h p = x" and c: "chain h x xs q" by simp_all
  show ?case
  proof (rule queue_test_cases [of "td_queue x" h])
    assume t: "queue_test (td_queue x) h = (MQX_OK, None)" "\<exists>ts. queue_rep h (td_queue x) ts"
    then have "passes valid td_queue h x \<longleftrightarrow> valid x" by (simp add: passes_def)
    then show ?thesis using Cons.IH [OF c] n t(1) by simp
  next
    fix e
    assume t: "queue_test (td_queue x) h = (MQX_CORRUPT_QUEUE, Some e)" "\<nexists>ts. queue_rep h (td_queue x) ts"
    then have "\<not> passes valid td_queue h x" by (simp add: passes_def)
    then show ?thesis using n t(1) by simp
  qed
qed

lemma test_list_result:
  assumes "queue_rep h head xs" "invalid \<noteq> MQX_OK"
  shows "test_list valid invalid td_queue head h MQX_OK =
    (case dropWhile (passes valid td_queue h) xs of
       [] \<Rightarrow> (MQX_OK, None, None)
     | x # _ \<Rightarrow> if valid x then (MQX_CORRUPT_QUEUE, Some x, snd (queue_test (td_queue x) h)) else (invalid, Some x, None))"
proof -
  have c: "chain h head xs head" and n: "unat (SIZE h head) = length xs"
    using assms(1) by (simp_all add: queue_rep_def)
  show ?thesis
    using test_objects_result [OF c assms(2), of valid td_queue] assms(2)
    by (cases "dropWhile (passes valid td_queue h) xs") (simp_all only: test_list_def QUEUE_GET_SIZE_def n, simp_all)
qed

lemma test_list_ok:
  assumes "queue_rep h head xs" "invalid \<noteq> MQX_OK"
  shows "fst (test_list valid invalid td_queue head h MQX_OK) = MQX_OK \<longleftrightarrow> (\<forall>x \<in> set xs. passes valid td_queue h x)"
proof (cases "dropWhile (passes valid td_queue h) xs")
  case Nil
  then have "\<forall>x \<in> set xs. passes valid td_queue h x" by (simp only: dropWhile_eq_Nil_conv)
  then show ?thesis unfolding test_list_result [OF assms] Nil by simp
next
  case (Cons x ys)
  then have "x \<in> set xs" "\<not> passes valid td_queue h x"
    using hd_dropWhile [of "passes valid td_queue h" xs] set_dropWhileD [of x "passes valid td_queue h" xs] by auto
  with Cons assms(2) show ?thesis by (auto simp: test_list_result [OF assms])
qed

text \<open>The loop of \<^verbatim>\<open>_mutex_test\<close> ends on every well-formed list.\<close>

lemma mutex_test_loop_result:
  assumes "chain h p xs head" "head \<notin> set xs"
  shows "mutex_test_loop head h k (NEXT h p) =
    Some (case dropWhile (passes (\<lambda>m. mutex_valid m k) MTX_WAITING_TASKS h) xs of
            [] \<Rightarrow> (MQX_OK, None)
          | m # _ \<Rightarrow> (if mutex_valid m k then MQX_CORRUPT_QUEUE else MQX_EINVAL, Some m))"
  using assms
proof (induction xs arbitrary: p)
  case Nil
  then show ?case by (subst mutex_test_loop.simps) simp
next
  case (Cons m xs)
  let ?ok = "passes (\<lambda>m. mutex_valid m k) MTX_WAITING_TASKS h"
  from Cons.prems have n: "NEXT h p = m" "m \<noteq> head" and c: "chain h m xs head" "head \<notin> set xs" by auto
  show ?case
  proof (rule queue_test_cases [of "MTX_WAITING_TASKS m" h])
    assume t: "queue_test (MTX_WAITING_TASKS m) h = (MQX_OK, None)" "\<exists>ts. queue_rep h (MTX_WAITING_TASKS m) ts"
    then have "?ok m \<longleftrightarrow> mutex_valid m k" by (simp add: passes_def)
    then show ?thesis using Cons.IH [OF c] n t(1) by (subst mutex_test_loop.simps) simp
  next
    fix e
    assume t: "queue_test (MTX_WAITING_TASKS m) h = (MQX_CORRUPT_QUEUE, Some e)" "\<nexists>ts. queue_rep h (MTX_WAITING_TASKS m) ts"
    then have "\<not> ?ok m" by (simp add: passes_def)
    then show ?thesis using n t(1) by (subst mutex_test_loop.simps) simp
  qed
qed

subsection \<open>What the tests accept\<close>

text \<open>The list at \<open>head\<close> is well formed and every object of it passes.\<close>

definition consistent :: "(addr \<Rightarrow> bool) \<Rightarrow> (addr \<Rightarrow> addr) \<Rightarrow> addr \<Rightarrow> queue_heap \<Rightarrow> bool" where
  "consistent valid td_queue head h \<longleftrightarrow> (\<exists>xs. queue_rep h head xs \<and> (\<forall>x \<in> set xs. passes valid td_queue h x))"

lemma consistent_rep:
  assumes "queue_rep h head xs"
  shows "consistent valid td_queue head h \<longleftrightarrow> (\<forall>x \<in> set xs. passes valid td_queue h x)"
  unfolding consistent_def using assms queue_rep_unique [OF assms] by blast

lemma test_head_list:
  assumes "invalid \<noteq> MQX_OK"
  shows "fst (queue_test head h) = MQX_OK \<and> fst (test_list valid invalid td_queue head h MQX_OK) = MQX_OK
    \<longleftrightarrow> consistent valid td_queue head h"
proof (rule queue_test_cases [of head h])
  assume t: "queue_test head h = (MQX_OK, None)" "\<exists>xs. queue_rep h head xs"
  then obtain xs where r: "queue_rep h head xs" by blast
  then show ?thesis using t(1) test_list_ok [OF r assms] consistent_rep [OF r] by simp
next
  fix e
  assume "queue_test head h = (MQX_CORRUPT_QUEUE, Some e)" "\<nexists>xs. queue_rep h head xs"
  then show ?thesis by (auto simp: consistent_def)
qed

lemma lwsem_test_iff:
  assumes "IN_ISR k = 0"
  shows "fst (fst (lwsem_test head h k)) = MQX_OK \<longleftrightarrow> consistent (\<lambda>s. sem_valid s k) TD_QUEUE head h"
proof -
  have v: "(\<lambda>s. sem_valid s (INT_DISABLE k)) = (\<lambda>s. sem_valid s k)" by (simp add: sem_valid_def)
  have "fst (fst (lwsem_test head h k)) = MQX_OK \<longleftrightarrow>
      fst (queue_test head h) = MQX_OK \<and> fst (test_list (\<lambda>s. sem_valid s k) MQX_INVALID_LWSEM TD_QUEUE head h MQX_OK) = MQX_OK"
    using assms by (auto simp: lwsem_test_def Let_def v split: prod.splits)
  also have "\<dots> \<longleftrightarrow> consistent (\<lambda>s. sem_valid s k) TD_QUEUE head h" by (rule test_head_list) simp
  finally show ?thesis .
qed

lemma taskq_test_iff:
  assumes "IN_ISR k = 0" "SIZE h head \<noteq> 0"
  shows "fst (fst (taskq_test head h k)) = MQX_OK \<longleftrightarrow> consistent (\<lambda>t. taskq_valid t k) TASKQ_TDS head h"
proof -
  have v: "(\<lambda>s. taskq_valid s (INT_DISABLE k)) = (\<lambda>s. taskq_valid s k)" by (simp add: taskq_valid_def)
  have "fst (fst (taskq_test head h k)) = MQX_OK \<longleftrightarrow>
      fst (queue_test head h) = MQX_OK \<and> fst (test_list (\<lambda>s. taskq_valid s k) MQX_INVALID_TASK_QUEUE TASKQ_TDS head h MQX_OK) = MQX_OK"
    using assms by (auto simp: taskq_test_def Let_def v QUEUE_GET_SIZE_def split: prod.splits)
  also have "\<dots> \<longleftrightarrow> consistent (\<lambda>s. taskq_valid s k) TASKQ_TDS head h" by (rule test_head_list) simp
  finally show ?thesis .
qed

lemma lwevent_test_iff:
  assumes "IN_ISR k = 0" "NEXT h head \<noteq> NULL"
  shows "fst (fst (lwevent_test head h k)) = MQX_OK \<longleftrightarrow> consistent (\<lambda>e. ev_valid e k) EV_WAITING_TASKS head h"
proof -
  have "fst (fst (lwevent_test head h k)) = MQX_OK \<longleftrightarrow>
      fst (queue_test head h) = MQX_OK \<and> fst (test_list (\<lambda>e. ev_valid e k) MQX_LWEVENT_INVALID EV_WAITING_TASKS head h MQX_OK) = MQX_OK"
    using assms by (auto simp: lwevent_test_def Let_def split: prod.splits)
  also have "\<dots> \<longleftrightarrow> consistent (\<lambda>e. ev_valid e k) EV_WAITING_TASKS head h" by (rule test_head_list) simp
  finally show ?thesis .
qed

lemma mutex_test_iff:
  assumes "KERNEL_MUTEXES (OBJ k) = Some MUTEX_VALID"
  shows "\<exists>r k'. mutex_test head h k = Some (r, k') \<and>
    (fst r = MQX_OK \<longleftrightarrow> consistent (\<lambda>m. mutex_valid m k) MTX_WAITING_TASKS head h)"
proof (rule queue_test_cases [of head h])
  assume t: "queue_test head h = (MQX_OK, None)" "\<exists>xs. queue_rep h head xs"
  then obtain xs where r: "queue_rep h head xs" by blast
  have v: "mutex_valid m (INT_DISABLE k) = mutex_valid m k" for m by (simp add: mutex_valid_def mutex_at_def)
  let ?ok = "passes (\<lambda>m. mutex_valid m k) MTX_WAITING_TASKS h"
  have w: "mutex_test head h k = map_option (\<lambda>r. (r, INT_ENABLE (INT_DISABLE k))) (mutex_test_loop head h (INT_DISABLE k) (NEXT h head))"
    using assms t(1) by (simp add: mutex_test_def Let_def)
  have l: "chain h head xs head" "head \<notin> set xs" using r by (simp_all add: queue_rep_def)
  show ?thesis
  proof (cases "dropWhile ?ok xs")
    case Nil
    then have "\<forall>x \<in> set xs. ?ok x" by (simp only: dropWhile_eq_Nil_conv)
    then show ?thesis unfolding consistent_rep [OF r] w mutex_test_loop_result [OF l] v Nil by simp
  next
    case (Cons x ys)
    then have "x \<in> set xs" "\<not> ?ok x"
      using hd_dropWhile [of ?ok xs] set_dropWhileD [of x ?ok xs] by auto
    then have "\<not> (\<forall>x \<in> set xs. ?ok x)" by blast
    then show ?thesis unfolding consistent_rep [OF r] w mutex_test_loop_result [OF l] v Cons by simp
  qed
next
  fix e
  assume "queue_test head h = (MQX_CORRUPT_QUEUE, Some e)" "\<nexists>xs. queue_rep h head xs"
  then show ?thesis using assms by (auto simp: consistent_def mutex_test_def Let_def)
qed

text \<open>
  C34 (equivalence). Called from a task, \<^verbatim>\<open>_lwsem_test\<close>, \<^verbatim>\<open>_taskq_test\<close> (if there are task queues), \<^verbatim>\<open>_lwevent_test\<close>
  and \<^verbatim>\<open>_mutex_test\<close> (if their components have been created) return \<^verbatim>\<open>MQX_OK\<close> exactly if the kernel's list of
  objects is a well-formed queue, every object in it is valid and every wait queue is well formed; in
  particular \<^verbatim>\<open>_mutex_test\<close>, which follows the links until it is back at the head, always returns.
\<close>

theorem object_tests_accept:
  "(IN_ISR k = 0 \<longrightarrow>
      (fst (fst (lwsem_test head h k)) = MQX_OK \<longleftrightarrow> consistent (\<lambda>s. sem_valid s k) TD_QUEUE head h))
   \<and> (IN_ISR k = 0 \<and> SIZE h head \<noteq> 0 \<longrightarrow>
      (fst (fst (taskq_test head h k)) = MQX_OK \<longleftrightarrow> consistent (\<lambda>t. taskq_valid t k) TASKQ_TDS head h))
   \<and> (IN_ISR k = 0 \<and> NEXT h head \<noteq> NULL \<longrightarrow>
      (fst (fst (lwevent_test head h k)) = MQX_OK \<longleftrightarrow> consistent (\<lambda>e. ev_valid e k) EV_WAITING_TASKS head h))
   \<and> (KERNEL_MUTEXES (OBJ k) = Some MUTEX_VALID \<longrightarrow>
      (\<exists>r k'. mutex_test head h k = Some (r, k') \<and>
        (fst r = MQX_OK \<longleftrightarrow> consistent (\<lambda>m. mutex_valid m k) MTX_WAITING_TASKS head h)))"
  by (intro conjI impI lwsem_test_iff taskq_test_iff lwevent_test_iff mutex_test_iff) simp_all

text \<open>A list with one object, at address 64, and empty wait queues everywhere.\<close>

definition test_heap :: queue_heap where
  "test_heap = \<lparr>NEXT = (\<lambda>p. if p = 500 then 64 else if p = 64 then 500 else p),
     PREV = (\<lambda>p. if p = 500 then 64 else if p = 64 then 500 else p), SIZE = (\<lambda>p. if p = 500 then 1 else 0), MAX_Q = (\<lambda>_. 0)\<rparr>"

lemma test_heap_consistent:
  assumes "valid 64" "td_queue 64 \<noteq> 64" "td_queue 64 \<noteq> 500"
  shows "consistent valid td_queue 500 test_heap"
proof -
  have "queue_rep test_heap 500 [64]" "queue_rep test_heap (td_queue 64) []"
    using assms by (simp_all add: queue_rep_def test_heap_def)
  then show ?thesis using assms(1) consistent_rep [of test_heap 500 "[64]" valid td_queue] by (auto simp: passes_def)
qed

theorem object_tests_accept_witness:
  "fst (fst (lwsem_test 500 test_heap demo)) = MQX_OK \<and> fst (fst (taskq_test 500 test_heap demo)) = MQX_OK
   \<and> fst (fst (lwevent_test 500 test_heap demo)) = MQX_OK
   \<and> (\<exists>e k'. mutex_test 500 test_heap demo = Some ((MQX_OK, e), k'))"
proof -
  have d: "IN_ISR demo = 0" "KERNEL_MUTEXES (OBJ demo) = Some MUTEX_VALID" by (simp_all add: demo_def)
  have h: "SIZE test_heap 500 \<noteq> 0" "NEXT test_heap 500 \<noteq> NULL" by (simp_all add: test_heap_def)
  have "consistent (\<lambda>s. sem_valid s demo) TD_QUEUE 500 test_heap"
    "consistent (\<lambda>t. taskq_valid t demo) TASKQ_TDS 500 test_heap"
    "consistent (\<lambda>e. ev_valid e demo) EV_WAITING_TASKS 500 test_heap"
    "consistent (\<lambda>m. mutex_valid m demo) MTX_WAITING_TASKS 500 test_heap"
    by (rule test_heap_consistent;
        simp add: sem_valid_def taskq_valid_def ev_valid_def event_at_def mutex_valid_def mutex_at_def demo_def
          TD_QUEUE_def TASKQ_TDS_def EV_WAITING_TASKS_def MTX_WAITING_TASKS_def)+
  then show ?thesis using object_tests_accept [of demo 500 test_heap] d h by fastforce
qed

subsection \<open>What the tests leave behind\<close>

text \<open>On a corrupt list \<^verbatim>\<open>_lwsem_test\<close> returns with interrupts still disabled, and \<^verbatim>\<open>_lwevent_test\<close> enables
  interrupts it has not disabled. The other ways out leave the level as it was.\<close>

definition int_level :: "kernel \<Rightarrow> u32" where
  "int_level k = DISABLED_LEVEL (active_td k)"

lemma int_level_DISABLE: "int_level (INT_DISABLE k) = int_level k + 1"
  by (simp add: int_level_def INT_DISABLE_def active_td_def)

lemma int_level_ENABLE: "int_level (INT_ENABLE k) = (if int_level k \<noteq> 0 then int_level k - 1 else 0)"
  by (simp add: int_level_def INT_ENABLE_def active_td_def)

lemma lwsem_test_corrupt_level:
  assumes "IN_ISR k = 0" "\<nexists>xs. queue_rep h head xs"
  shows "fst (fst (lwsem_test head h k)) = MQX_CORRUPT_QUEUE" "int_level (snd (lwsem_test head h k)) = int_level k + 1"
  by (rule queue_test_cases [of head h]; use assms in \<open>auto simp: lwsem_test_def Let_def int_level_DISABLE\<close>)+

lemma lwevent_test_level:
  assumes "IN_ISR k = 0" "NEXT h head \<noteq> NULL" "queue_rep h head xs" "int_level k \<noteq> 0"
  shows "int_level (snd (lwevent_test head h k)) = int_level k - 1"
  by (rule queue_test_cases [of head h]; use assms in \<open>auto simp: lwevent_test_def Let_def int_level_ENABLE\<close>)

lemma taskq_test_level:
  assumes "int_level k \<noteq> 0xFFFFFFFF"
  shows "int_level (snd (taskq_test head h k)) = int_level k"
proof -
  have "int_level k + 1 \<noteq> 0" using assms by (auto simp: add_eq_0_iff2)
  then show ?thesis by (auto simp: taskq_test_def Let_def int_level_DISABLE int_level_ENABLE split: prod.splits)
qed

end
