(* ===== verification/Names.thy ===== *)
theory Names
  imports Object_Tests
begin

text \<open>
  The name component (\<^verbatim>\<open>kernel/name.c\<close>). A name table is a chain of blocks, here a list whose first block is the
  base at the handle; a block is an array of entries, of which those with an empty string are free. The
  semaphore of the base, at \<open>handle + 20\<close>, protects the table. Strings contain no zero characters; an entry
  keeps the first 31 characters. \<^verbatim>\<open>_mem_alloc_system_zero\<close> is the argument \<open>allocated\<close>: the address it returns, or
  \<^verbatim>\<open>NULL\<close>. The theorems show that a table is a finite map from names to numbers.
\<close>

abbreviation (input) NAME_VALID :: u32 where "NAME_VALID \<equiv> 0x6E616D65"
abbreviation (input) NAME_TABLE_FULL :: u32 where "NAME_TABLE_FULL \<equiv> 0xF00"
abbreviation (input) NAME_EXISTS :: u32 where "NAME_EXISTS \<equiv> 0xF01"
abbreviation (input) NAME_NOT_FOUND :: u32 where "NAME_NOT_FOUND \<equiv> 0xF02"
abbreviation (input) NAME_TOO_LONG :: u32 where "NAME_TOO_LONG \<equiv> 0xF03"
abbreviation (input) NAME_TOO_SHORT :: u32 where "NAME_TOO_SHORT \<equiv> 0xF04"
abbreviation (input) NAME_MAX_NAME_SIZE :: nat where "NAME_MAX_NAME_SIZE \<equiv> 32"

definition NAME_SEM :: "addr \<Rightarrow> addr" where "NAME_SEM handle = handle + 20"

definition name_table :: "addr \<Rightarrow> kernel \<Rightarrow> name_block list" where
  "name_table handle k = NAME_TABLES (OBJ k) handle"

definition set_table :: "addr \<Rightarrow> name_block list \<Rightarrow> kernel \<Rightarrow> kernel" where
  "set_table handle bs k = k\<lparr>OBJ := (OBJ k)\<lparr>NAME_TABLES := (NAME_TABLES (OBJ k))(handle := bs)\<rparr>\<rparr>"

text \<open>The \<^verbatim>\<open>VALID\<close> field at a handle; memory that is not a table does not hold \<^verbatim>\<open>NAME_VALID\<close>.\<close>

definition table_valid :: "addr \<Rightarrow> kernel \<Rightarrow> bool" where
  "table_valid handle k \<longleftrightarrow> (case name_table handle k of [] \<Rightarrow> False | b # _ \<Rightarrow> NM_VALID b = NAME_VALID)"

subsection \<open>Blocks and entries\<close>

text \<open>\<^verbatim>\<open>strncmp(a, b, NAME_MAX_NAME_SIZE - 1) == 0\<close>, and \<^verbatim>\<open>strncpy\<close> with the terminating zero.\<close>

definition strncmp_eq :: "string \<Rightarrow> string \<Rightarrow> bool" where
  "strncmp_eq a b \<longleftrightarrow> take (NAME_MAX_NAME_SIZE - 1) a = take (NAME_MAX_NAME_SIZE - 1) b"

definition strncpy :: "string \<Rightarrow> string" where
  "strncpy name = take (NAME_MAX_NAME_SIZE - 1) name"

definition new_block :: "u32 \<Rightarrow> u32 \<Rightarrow> u32 \<Rightarrow> u32 \<Rightarrow> name_block" where
  "new_block initial_number grow_number maximum_number total_so_far =
     \<lparr>MAX_NUMBER = (if maximum_number = 0 then - 1 else if maximum_number < initial_number then initial_number else maximum_number),
      TOTAL_NUMBER = total_so_far, GROW_NUMBER = grow_number, NM_NUMBER = 0, NM_VALID = NAME_VALID,
      NAMES = replicate (unat initial_number) \<lparr>NAME_NUMBER = 0, NAME = []\<rparr>\<rparr>"

text \<open>The caller links the new block.\<close>

definition name_create_handle_internal :: "addr \<Rightarrow> u32 \<Rightarrow> u32 \<Rightarrow> u32 \<Rightarrow> u32 \<Rightarrow> kernel \<Rightarrow> (u32 + name_block) \<times> kernel" where
  "name_create_handle_internal allocated initial_number grow_number maximum_number total_so_far k =
     (if allocated = NULL then (Inl MQX_OUT_OF_MEMORY, k)
      else (Inr (new_block initial_number grow_number maximum_number total_so_far),
            if initial_number = total_so_far then snd (lwsem_create (NAME_SEM allocated) 1 k) else k))"

fun set_entry :: "nat \<Rightarrow> name_struct \<Rightarrow> name_block list \<Rightarrow> name_block list" where
  "set_entry i e [] = []"
| "set_entry i e (b # bs) =
     (if i < length (NAMES b) then b\<lparr>NAMES := (NAMES b)[i := e]\<rparr> # bs else b # set_entry (i - length (NAMES b)) e bs)"

definition upd_base :: "(name_block \<Rightarrow> name_block) \<Rightarrow> name_block list \<Rightarrow> name_block list" where
  "upd_base f bs = (case bs of [] \<Rightarrow> [] | b # bs' \<Rightarrow> f b # bs')"

definition entries :: "name_block list \<Rightarrow> name_struct list" where
  "entries bs = concat (map NAMES bs)"

subsection \<open>Adding a name\<close>

text \<open>The search of \<^verbatim>\<open>_name_add_internal\<close>: whether the name exists, and the first free entry met before that.\<close>

fun scan_names :: "string \<Rightarrow> name_struct list \<Rightarrow> nat \<Rightarrow> nat option \<Rightarrow> bool \<times> nat option" where
  "scan_names name [] i saved = (False, saved)"
| "scan_names name (e # es) i saved =
     (if NAME e = [] then scan_names name es (Suc i) (if saved = None then Some i else saved)
      else if strncmp_eq (NAME e) name then (True, saved)
      else scan_names name es (Suc i) saved)"

fun scan_tables :: "string \<Rightarrow> name_block list \<Rightarrow> nat \<Rightarrow> nat option \<Rightarrow> bool \<times> nat option" where
  "scan_tables name [] i saved = (False, saved)"
| "scan_tables name (b # bs) i saved =
     (let (exists, saved1) = scan_names name (NAMES b) i saved
      in if exists then (True, saved1) else scan_tables name bs (i + length (NAMES b)) saved1)"

definition put_name :: "string \<Rightarrow> u32 \<Rightarrow> nat \<Rightarrow> name_block list \<Rightarrow> name_block list" where
  "put_name name number i bs =
     upd_base (\<lambda>b. b\<lparr>NM_NUMBER := NM_NUMBER b + 1\<rparr>) (set_entry i \<lparr>NAME_NUMBER = number, NAME = strncpy name\<rparr> bs)"

definition name_insert :: "addr \<Rightarrow> string \<Rightarrow> u32 \<Rightarrow> name_block list \<Rightarrow> kernel \<Rightarrow> u32 \<times> name_block list \<times> kernel" where
  "name_insert allocated name number bs k =
     (case scan_tables name bs 0 None of
        (True, _) \<Rightarrow> (NAME_EXISTS, bs, k)
      | (False, Some i) \<Rightarrow> (MQX_OK, put_name name number i bs, k)
      | (False, None) \<Rightarrow>
          let base = hd bs; name_manager = last bs; total = TOTAL_NUMBER name_manager + GROW_NUMBER base
          in if GROW_NUMBER base \<noteq> 0 \<and> total \<le> MAX_NUMBER base
             then case name_create_handle_internal allocated (GROW_NUMBER base) (GROW_NUMBER base) (MAX_NUMBER base) total k of
                    (Inl result, k1) \<Rightarrow> (result, bs, k1)
                  | (Inr b, k1) \<Rightarrow> (MQX_OK, put_name name number (length (entries bs)) (bs @ [b]), k1)
             else (NAME_TABLE_FULL, bs, k))"

definition name_add_internal :: "addr \<Rightarrow> addr \<Rightarrow> string \<Rightarrow> u32 \<Rightarrow> kernel \<Rightarrow> (kernel, u32) prog" where
  "name_add_internal allocated handle name number k =
     (if name = [] then Done NAME_TOO_SHORT k
      else if length name \<ge> NAME_MAX_NAME_SIZE then Done NAME_TOO_LONG k
      else if handle = NULL then Done MQX_COMPONENT_DOES_NOT_EXIST k
      else let k1 = INT_DISABLE k
           in if \<not> table_valid handle k1 then Done MQX_INVALID_COMPONENT_BASE (INT_ENABLE k1)
              else andthen (lwsem_wait (NAME_SEM handle) k1)
                (\<lambda>_ k2. let (result, bs, k3) = name_insert allocated name number (name_table handle k2) (INT_ENABLE k2)
                        in andthen (lwsem_post (NAME_SEM handle) (set_table handle bs k3)) (\<lambda>_ k4. Done result k4)))"

text \<open>The walk of the functions by index over the blocks: an invalid block, the end of the table with the number of
  entries still to go, or the entry.\<close>

fun walk_index :: "nat \<Rightarrow> name_block list \<Rightarrow> (u32 + nat) + unit" where
  "walk_index index [] = Inl (Inr index)"
| "walk_index index (b # bs) =
     (if index < length (NAMES b) then Inr ()
      else case bs of
             [] \<Rightarrow> Inl (Inr (index - length (NAMES b)))
           | b' # _ \<Rightarrow> if NM_VALID b' \<noteq> NAME_VALID then Inl (Inl MQX_INVALID_COMPONENT_BASE)
                      else walk_index (index - length (NAMES b)) bs)"

text \<open>\<^verbatim>\<open>_name_add_internal_by_index\<close> adds blocks until the index is inside; \<open>allocs n\<close> is the allocator's answer for block
  \<open>n\<close> of the table. It reads the limits of the last block.\<close>

function grow_to :: "(nat \<Rightarrow> addr) \<Rightarrow> nat \<Rightarrow> name_block list \<Rightarrow> kernel \<Rightarrow> u32 \<times> name_block list \<times> kernel" where
  "grow_to allocs index bs k =
     (let m = last bs
      in if GROW_NUMBER m \<noteq> 0 \<and> TOTAL_NUMBER m + GROW_NUMBER m \<le> MAX_NUMBER m
         then case name_create_handle_internal (allocs (length bs)) (GROW_NUMBER m) (GROW_NUMBER m) (MAX_NUMBER m)
                     (TOTAL_NUMBER m + GROW_NUMBER m) k of
                (Inl result, k1) \<Rightarrow> (result, bs, k1)
              | (Inr b, k1) \<Rightarrow>
                  if index < length (NAMES b) then (MQX_OK, bs @ [b], k1)
                  else grow_to allocs (index - length (NAMES b)) (bs @ [b]) k1
         else (NAME_TABLE_FULL, bs, k))"
  by pat_completeness auto
termination
proof (relation "measure (\<lambda>(_, index, _, _). index)")
  have "index - unat g < index" if "g \<noteq> 0" "\<not> index < unat g" for index and g :: u32
    using that by (simp add: unat_gt_0 [symmetric])
  then show "((allocs, index - length (NAMES b), bs @ [b], k1), allocs, index, bs, k) \<in> measure (\<lambda>(_, index, _, _). index)"
    if "m = last bs" "GROW_NUMBER m \<noteq> 0 \<and> TOTAL_NUMBER m + GROW_NUMBER m \<le> MAX_NUMBER m"
      "(r, k1) = name_create_handle_internal (allocs (length bs)) (GROW_NUMBER m) (GROW_NUMBER m) (MAX_NUMBER m)
         (TOTAL_NUMBER m + GROW_NUMBER m) k" "r = Inr b" "\<not> index < length (NAMES b)" for allocs index bs k m r k1 b
    using that by (simp add: name_create_handle_internal_def new_block_def split: if_splits)
qed simp

definition add_at_index :: "(nat \<Rightarrow> addr) \<Rightarrow> string \<Rightarrow> u32 \<Rightarrow> nat \<Rightarrow> name_block list \<Rightarrow> kernel \<Rightarrow> u32 \<times> name_block list \<times> kernel" where
  "add_at_index allocs name number index bs k =
     (let (result, bs1, k1) =
        (case walk_index index bs of
           Inr _ \<Rightarrow> (MQX_OK, bs, k)
         | Inl (Inl e) \<Rightarrow> (e, bs, k)
         | Inl (Inr rest) \<Rightarrow> grow_to allocs rest bs k)
      in if result \<noteq> MQX_OK then (result, bs1, k1)
         else if NAME (entries bs1 ! index) = [] then (MQX_OK, put_name name number index bs1, k1)
         else (NAME_EXISTS, bs1, k1))"

definition name_add_internal_by_index :: "(nat \<Rightarrow> addr) \<Rightarrow> addr \<Rightarrow> string \<Rightarrow> u32 \<Rightarrow> u32 \<Rightarrow> kernel \<Rightarrow> (kernel, u32) prog" where
  "name_add_internal_by_index allocs handle name number index k =
     (if handle = NULL then Done MQX_COMPONENT_DOES_NOT_EXIST k
      else if \<not> table_valid handle k then Done MQX_INVALID_COMPONENT_BASE k
      else andthen (lwsem_wait (NAME_SEM handle) (INT_DISABLE k))
        (\<lambda>_ k2. let (result, bs, k3) = add_at_index allocs name number (unat index) (name_table handle k2) (INT_ENABLE k2)
                in andthen (lwsem_post (NAME_SEM handle) (set_table handle bs k3)) (\<lambda>_ k4. Done result k4)))"

subsection \<open>Finding a name\<close>

fun first_index :: "('a \<Rightarrow> bool) \<Rightarrow> 'a list \<Rightarrow> nat option" where
  "first_index P [] = None"
| "first_index P (x # xs) = (if P x then Some 0 else map_option Suc (first_index P xs))"

text \<open>The loop over blocks and entries of \<^verbatim>\<open>_name_find_internal\<close>, \<^verbatim>\<open>_name_find_name_internal\<close> and
  \<^verbatim>\<open>_name_delete_internal\<close>: an error or the index of the first entry in use that satisfies \<open>P\<close>.\<close>

fun search :: "(name_struct \<Rightarrow> bool) \<Rightarrow> nat \<Rightarrow> name_block list \<Rightarrow> u32 + nat" where
  "search P i [] = Inl NAME_NOT_FOUND"
| "search P i (b # bs) =
     (case first_index (\<lambda>e. NAME e \<noteq> [] \<and> P e) (NAMES b) of
        Some j \<Rightarrow> Inr (i + j)
      | None \<Rightarrow> (case bs of
                   [] \<Rightarrow> Inl NAME_NOT_FOUND
                 | b' # _ \<Rightarrow> if NM_VALID b' \<noteq> NAME_VALID then Inl MQX_INVALID_COMPONENT_BASE
                            else search P (i + length (NAMES b)) bs))"

text \<open>A result is the code and the value stored through the pointer of the caller.\<close>

definition name_find_internal :: "addr \<Rightarrow> string \<Rightarrow> kernel \<Rightarrow> u32 \<times> u32 option" where
  "name_find_internal handle name k =
     (if handle = NULL then (MQX_COMPONENT_DOES_NOT_EXIST, None)
      else if name = [] then (NAME_TOO_SHORT, None)
      else if length name \<ge> NAME_MAX_NAME_SIZE then (NAME_TOO_LONG, None)
      else if \<not> table_valid handle k then (MQX_INVALID_COMPONENT_BASE, None)
      else case search (\<lambda>e. strncmp_eq (NAME e) name) 0 (name_table handle k) of
             Inl e \<Rightarrow> (e, None)
           | Inr i \<Rightarrow> (MQX_OK, Some (NAME_NUMBER (entries (name_table handle k) ! i))))"

definition name_find_name_internal :: "addr \<Rightarrow> u32 \<Rightarrow> kernel \<Rightarrow> u32 \<times> string option" where
  "name_find_name_internal handle number k =
     (if handle = NULL then (MQX_COMPONENT_DOES_NOT_EXIST, None)
      else if \<not> table_valid handle k then (MQX_INVALID_COMPONENT_BASE, None)
      else case search (\<lambda>e. number = NAME_NUMBER e) 0 (name_table handle k) of
             Inl e \<Rightarrow> (e, None)
           | Inr i \<Rightarrow> (MQX_OK, Some (strncpy (NAME (entries (name_table handle k) ! i)))))"

definition name_find_internal_by_index :: "addr \<Rightarrow> u32 \<Rightarrow> kernel \<Rightarrow> u32 \<times> u32 option" where
  "name_find_internal_by_index handle index k =
     (if handle = NULL then (MQX_COMPONENT_DOES_NOT_EXIST, None)
      else if \<not> table_valid handle k then (MQX_INVALID_COMPONENT_BASE, None)
      else case walk_index (unat index) (name_table handle k) of
             Inl (Inl e) \<Rightarrow> (e, None)
           | Inl (Inr _) \<Rightarrow> (NAME_NOT_FOUND, None)
           | Inr _ \<Rightarrow> let e = entries (name_table handle k) ! unat index
                     in if NAME e = [] then (NAME_NOT_FOUND, None) else (MQX_OK, Some (NAME_NUMBER e)))"

definition name_find :: "string \<Rightarrow> kernel \<Rightarrow> u32 \<times> u32 option" where
  "name_find name k =
     (let handle = KERNEL_NAME_MANAGEMENT (OBJ k)
      in if handle = NULL then (MQX_COMPONENT_DOES_NOT_EXIST, None) else name_find_internal handle name k)"

definition name_find_by_number :: "u32 \<Rightarrow> kernel \<Rightarrow> u32 \<times> string option" where
  "name_find_by_number number k =
     (let handle = KERNEL_NAME_MANAGEMENT (OBJ k)
      in if handle = NULL then (MQX_COMPONENT_DOES_NOT_EXIST, None) else name_find_name_internal handle number k)"

subsection \<open>Deleting a name\<close>

definition drop_name :: "nat \<Rightarrow> name_block list \<Rightarrow> name_block list" where
  "drop_name i bs = upd_base (\<lambda>b. b\<lparr>NM_NUMBER := NM_NUMBER b - 1\<rparr>) (set_entry i \<lparr>NAME_NUMBER = 0, NAME = []\<rparr> bs)"

definition name_remove :: "string \<Rightarrow> name_block list \<Rightarrow> u32 \<times> name_block list" where
  "name_remove name bs =
     (case search (\<lambda>e. strncmp_eq (NAME e) name) 0 bs of Inl e \<Rightarrow> (e, bs) | Inr i \<Rightarrow> (MQX_OK, drop_name i bs))"

definition name_delete_internal :: "addr \<Rightarrow> string \<Rightarrow> kernel \<Rightarrow> (kernel, u32) prog" where
  "name_delete_internal handle name k =
     (if handle = NULL then Done MQX_COMPONENT_DOES_NOT_EXIST k
      else let k1 = INT_DISABLE k
           in if \<not> table_valid handle k1 then Done MQX_INVALID_COMPONENT_BASE (INT_ENABLE k1)
              else if name = [] then Done NAME_TOO_SHORT (INT_ENABLE k1)
              else if length name \<ge> NAME_MAX_NAME_SIZE then Done NAME_TOO_LONG (INT_ENABLE k1)
              else andthen (lwsem_wait (NAME_SEM handle) k1)
                (\<lambda>_ k2. let (result, bs) = name_remove name (name_table handle k2)
                        in andthen (lwsem_post (NAME_SEM handle) (set_table handle bs (INT_ENABLE k2))) (\<lambda>_ k4. Done result k4)))"

text \<open>The result of the walk is lost: the function returns \<^verbatim>\<open>MQX_OK\<close>.\<close>

definition name_delete_internal_by_index :: "addr \<Rightarrow> u32 \<Rightarrow> kernel \<Rightarrow> (kernel, u32) prog" where
  "name_delete_internal_by_index handle index k =
     (if handle = NULL then Done MQX_COMPONENT_DOES_NOT_EXIST k
      else let k1 = INT_DISABLE k
           in if \<not> table_valid handle k1 then Done MQX_INVALID_COMPONENT_BASE (INT_ENABLE k1)
              else andthen (lwsem_wait (NAME_SEM handle) k1)
                (\<lambda>_ k2. let bs = name_table handle k2;
                            bs1 = (case walk_index (unat index) bs of Inr _ \<Rightarrow> drop_name (unat index) bs | Inl _ \<Rightarrow> bs)
                        in andthen (lwsem_post (NAME_SEM handle) (set_table handle bs1 (INT_ENABLE k2))) (\<lambda>_ k4. Done MQX_OK k4)))"

definition name_delete :: "string \<Rightarrow> kernel \<Rightarrow> (kernel, u32) prog" where
  "name_delete name k =
     (if IN_ISR k \<noteq> 0 then Done MQX_CANNOT_CALL_FUNCTION_FROM_ISR k
      else let handle = KERNEL_NAME_MANAGEMENT (OBJ k)
           in if handle = NULL then Done MQX_COMPONENT_DOES_NOT_EXIST k else name_delete_internal handle name k)"

subsection \<open>Creation and destruction of tables\<close>

definition name_destroy_handle_internal :: "addr \<Rightarrow> kernel \<Rightarrow> (kernel, u32) prog" where
  "name_destroy_handle_internal handle k =
     (if handle = NULL then Done MQX_COMPONENT_DOES_NOT_EXIST k
      else let k1 = INT_DISABLE k
           in if \<not> table_valid handle k1 then Done MQX_INVALID_COMPONENT_BASE (INT_ENABLE k1)
              else andthen (lwsem_wait (NAME_SEM handle) k1)
                (\<lambda>_ k2. let k3 = INT_ENABLE (set_table handle (upd_base (\<lambda>b. b\<lparr>NM_VALID := 0\<rparr>) (name_table handle k2)) k2)
                        in andthen (lwsem_destroy (NAME_SEM handle) k3) (\<lambda>_ k4. Done MQX_OK (set_table handle [] k4))))"

definition raise_maximum :: "u32 \<Rightarrow> kernel \<Rightarrow> kernel" where
  "raise_maximum maximum_number k =
     (let h = KERNEL_NAME_MANAGEMENT (OBJ k)
      in set_table h (upd_base (\<lambda>b. if maximum_number > MAX_NUMBER b then b\<lparr>MAX_NUMBER := maximum_number\<rparr> else b) (name_table h k)) k)"

text \<open>Between the creation of the table and its installation other tasks may run: \<open>W\<close> is what they do.\<close>

definition name_create_component ::
  "(kernel \<Rightarrow> kernel) \<Rightarrow> addr \<Rightarrow> u32 \<Rightarrow> u32 \<Rightarrow> u32 \<Rightarrow> kernel \<Rightarrow> (kernel, u32) prog" where
  "name_create_component W allocated initial_number grow_number maximum_number k =
     (if KERNEL_NAME_MANAGEMENT (OBJ k) \<noteq> NULL then Done MQX_OK (raise_maximum maximum_number k)
      else case name_create_handle_internal allocated initial_number grow_number maximum_number initial_number k of
             (Inl result, k1) \<Rightarrow> Done result k1
           | (Inr b, k1) \<Rightarrow>
               let k2 = INT_DISABLE (W (set_table allocated [b] k1))
               in if KERNEL_NAME_MANAGEMENT (OBJ k2) \<noteq> NULL
                  then andthen (name_destroy_handle_internal allocated (INT_ENABLE k2))
                         (\<lambda>_ k3. Done MQX_OK (raise_maximum maximum_number k3))
                  else Done MQX_OK (INT_ENABLE (k2\<lparr>OBJ := (OBJ k2)\<lparr>KERNEL_NAME_MANAGEMENT := allocated\<rparr>\<rparr>)))"

definition name_add :: "(kernel \<Rightarrow> kernel) \<Rightarrow> addr \<Rightarrow> addr \<Rightarrow> string \<Rightarrow> u32 \<Rightarrow> kernel \<Rightarrow> (kernel, u32) prog" where
  "name_add W allocated allocated2 name number k =
     (if IN_ISR k \<noteq> 0 then Done MQX_CANNOT_CALL_FUNCTION_FROM_ISR k
      else andthen (if KERNEL_NAME_MANAGEMENT (OBJ k) = NULL then name_create_component W allocated 8 8 0 k else Done MQX_OK k)
             (\<lambda>result k1. let handle = KERNEL_NAME_MANAGEMENT (OBJ k1)
                          in if handle = NULL then Done result k1 else name_add_internal allocated2 handle name number k1))"

subsection \<open>The test\<close>

text \<open>The count of the blocks up to one that is not valid.\<close>

fun count_names :: "name_block list \<Rightarrow> nat \<Rightarrow> nat \<Rightarrow> nat + nat" where
  "count_names [] i n = Inr n"
| "count_names (b # bs) i n =
     (if NM_VALID b \<noteq> NAME_VALID then Inl i
      else count_names bs (Suc i) (n + length (filter (\<lambda>e. NAME e \<noteq> []) (NAMES b))))"

text \<open>The result is the code, whether the error pointer is the base (and not \<^verbatim>\<open>NULL\<close>), and the number of the extension
  in error; when the count is wrong, the extension pointer is \<^verbatim>\<open>NULL\<close>, at the end of the chain.\<close>

definition name_test_internal :: "addr \<Rightarrow> queue_heap \<Rightarrow> addr \<Rightarrow> kernel \<Rightarrow> (u32 \<times> bool \<times> nat option) \<times> kernel" where
  "name_test_internal head h handle k =
     (if handle = NULL then ((MQX_OK, False, None), k)
      else if \<not> table_valid handle k then ((MQX_INVALID_COMPONENT_BASE, True, None), k)
      else let ((result, _, _), k1) = lwsem_test head h k
           in if result \<noteq> MQX_OK then ((result, True, None), k1)
              else let k2 = INT_ENABLE (INT_DISABLE k1); bs = name_table handle k1
                   in case count_names bs 0 0 of
                        Inl i \<Rightarrow> ((MQX_INVALID_COMPONENT_BASE, True, Some i), k2)
                      | Inr n \<Rightarrow> if (of_nat n :: u32) \<noteq> NM_NUMBER (hd bs)
                                    then ((MQX_INVALID_COMPONENT_BASE, True, None), k2)
                                    else ((MQX_OK, True, None), k2))"

definition name_test :: "addr \<Rightarrow> queue_heap \<Rightarrow> kernel \<Rightarrow> (u32 \<times> bool \<times> nat option) \<times> kernel" where
  "name_test head h k =
     (let handle = KERNEL_NAME_MANAGEMENT (OBJ k)
      in if handle = NULL then ((MQX_OK, False, None), k) else name_test_internal head h handle k)"

subsection \<open>Search\<close>

lemma first_index_None: "first_index P xs = None \<longleftrightarrow> (\<forall>x \<in> set xs. \<not> P x)"
  by (induction xs) auto

lemma first_index_Some: "first_index P xs = Some j \<Longrightarrow> j < length xs \<and> P (xs ! j)"
  by (induction xs arbitrary: j) (auto split: if_splits)

lemma first_index_append:
  "first_index P (xs @ ys) = (case first_index P xs of Some j \<Rightarrow> Some j | None \<Rightarrow> map_option (\<lambda>j. j + length xs) (first_index P ys))"
  by (induction xs) (auto simp: option.map_comp comp_def option.map_ident split: option.splits)

lemma entries_simps [simp]: "entries [] = []" "entries (b # bs) = NAMES b @ entries bs" "entries (bs @ cs) = entries bs @ entries cs"
  by (simp_all add: entries_def)

lemma entries_set_entry: "i < length (entries bs) \<Longrightarrow> entries (set_entry i e bs) = (entries bs)[i := e]"
  by (induction bs arbitrary: i) (auto simp: list_update_append)

lemma length_set_entry [simp]: "length (set_entry i e bs) = length bs"
  by (induction bs arbitrary: i) auto

lemma set_entry_Nil [simp]: "set_entry i e bs = [] \<longleftrightarrow> bs = []"
  by (cases bs) simp_all

lemma set_entry_valid: "(\<forall>b \<in> set (set_entry i e bs). NM_VALID b = v) \<longleftrightarrow> (\<forall>b \<in> set bs. NM_VALID b = v)"
  by (induction bs arbitrary: i) auto

lemma hd_set_entry: "bs \<noteq> [] \<Longrightarrow> NM_NUMBER (hd (set_entry i e bs)) = NM_NUMBER (hd bs)"
  by (cases bs) auto

lemma upd_base_simps:
  "(\<And>b. NAMES (f b) = NAMES b) \<Longrightarrow> entries (upd_base f bs) = entries bs"
  "(\<And>b. NM_VALID (f b) = NM_VALID b) \<Longrightarrow> (\<forall>b \<in> set (upd_base f bs). NM_VALID b = v) \<longleftrightarrow> (\<forall>b \<in> set bs. NM_VALID b = v)"
  "upd_base f bs = [] \<longleftrightarrow> bs = []" "bs \<noteq> [] \<Longrightarrow> hd (upd_base f bs) = f (hd bs)"
  by (cases bs; simp add: upd_base_def)+

lemma scan_tables_flat: "scan_tables name bs i saved = scan_names name (entries bs) i saved"
proof (induction bs arbitrary: i saved)
  case (Cons b bs)
  have "scan_names name (es @ fs) i saved =
      (let (x, s) = scan_names name es i saved in if x then (True, s) else scan_names name fs (i + length es) s)" for es fs
    by (induction es arbitrary: i saved) (auto simp: split_beta)
  then show ?case using Cons.IH by (simp add: split_beta)
qed simp

lemma scan_names_result:
  "scan_names name es i saved =
     (let free = (\<lambda>xs. case saved of Some s \<Rightarrow> Some s | None \<Rightarrow> map_option (\<lambda>j. j + i) (first_index (\<lambda>e. NAME e = []) xs))
      in case first_index (\<lambda>e. NAME e \<noteq> [] \<and> strncmp_eq (NAME e) name) es of
           None \<Rightarrow> (False, free es)
         | Some j \<Rightarrow> (True, free (take j es)))"
proof (induction es arbitrary: i saved)
  case Nil
  then show ?case by (cases saved) simp_all
next
  case (Cons e es)
  show ?case
    by (cases saved; cases "first_index (\<lambda>e. NAME e \<noteq> [] \<and> strncmp_eq (NAME e) name) es"; cases "NAME e = []")
      (simp_all add: Cons.IH Let_def option.map_comp comp_def)
qed

lemma search_result:
  assumes "\<forall>b \<in> set bs. NM_VALID b = NAME_VALID"
  shows "search P i bs = (case first_index (\<lambda>e. NAME e \<noteq> [] \<and> P e) (entries bs) of None \<Rightarrow> Inl NAME_NOT_FOUND | Some j \<Rightarrow> Inr (i + j))"
  using assms
proof (induction bs arbitrary: i)
  case (Cons b bs)
  show ?case
  proof (cases bs)
    case Nil
    then show ?thesis by (simp split: option.splits)
  next
    case (Cons b' bs')
    have "search P (i + length (NAMES b)) bs =
        (case first_index (\<lambda>e. NAME e \<noteq> [] \<and> P e) (entries bs) of None \<Rightarrow> Inl NAME_NOT_FOUND | Some j \<Rightarrow> Inr (i + length (NAMES b) + j))"
      using Cons.IH Cons.prems by simp
    then show ?thesis using Cons Cons.prems by (simp add: first_index_append ac_simps split: option.splits)
  qed
qed simp

subsection \<open>A table is a finite map\<close>

definition pairs :: "name_struct list \<Rightarrow> (string \<times> u32) list" where
  "pairs es = map (\<lambda>e. (NAME e, NAME_NUMBER e)) (filter (\<lambda>e. NAME e \<noteq> []) es)"

definition names_map :: "name_block list \<Rightarrow> string \<rightharpoonup> u32" where
  "names_map bs = map_of (pairs (entries bs))"

text \<open>Well-formed tables: valid blocks, no name twice, no name too long, and the right count.\<close>

definition names_ok :: "name_block list \<Rightarrow> bool" where
  "names_ok bs \<longleftrightarrow> bs \<noteq> [] \<and> (\<forall>b \<in> set bs. NM_VALID b = NAME_VALID) \<and> distinct (map fst (pairs (entries bs)))
     \<and> (\<forall>n \<in> set (map fst (pairs (entries bs))). length n < NAME_MAX_NAME_SIZE)
     \<and> NM_NUMBER (hd bs) = of_nat (length (pairs (entries bs)))"

text \<open>Names that \<^verbatim>\<open>_name_add\<close> accepts.\<close>

definition good_name :: "string \<Rightarrow> bool" where
  "good_name n \<longleftrightarrow> n \<noteq> [] \<and> length n < NAME_MAX_NAME_SIZE"

lemma pairs_simps [simp]: "pairs [] = []" "pairs (e # es) = (if NAME e \<noteq> [] then [(NAME e, NAME_NUMBER e)] else []) @ pairs es"
  "pairs (es @ fs) = pairs es @ pairs fs" "pairs (replicate n \<lparr>NAME_NUMBER = 0, NAME = []\<rparr>) = []"
  by (simp_all add: pairs_def)

lemma pairs_update:
  assumes "i < length es"
  obtains us vs where "pairs es = us @ pairs [es ! i] @ vs" "\<And>e. pairs (es[i := e]) = us @ pairs [e] @ vs"
proof
  show "pairs es = pairs (take i es) @ pairs [es ! i] @ pairs (drop (Suc i) es)"
    using id_take_nth_drop [OF assms] by (metis append_Cons append_Nil pairs_simps(3))
  show "pairs (es[i := e]) = pairs (take i es) @ pairs [e] @ pairs (drop (Suc i) es)" for e
    using assms by (metis append_Cons append_Nil pairs_simps(3) upd_conv_take_nth_drop)
qed

lemma good_name_eq:
  "good_name n \<Longrightarrow> strncpy n = n" "good_name n \<Longrightarrow> length m < NAME_MAX_NAME_SIZE \<Longrightarrow> strncmp_eq m n \<longleftrightarrow> m = n"
  by (auto simp: good_name_def strncpy_def strncmp_eq_def)

lemma names_ok_entry: "names_ok bs \<Longrightarrow> e \<in> set (entries bs) \<Longrightarrow> NAME e \<noteq> [] \<Longrightarrow> length (NAME e) < NAME_MAX_NAME_SIZE"
  by (auto simp: names_ok_def pairs_def)

lemma match_iff:
  assumes "names_ok bs" "good_name n" "e \<in> set (entries bs)"
  shows "NAME e \<noteq> [] \<and> strncmp_eq (NAME e) n \<longleftrightarrow> NAME e = n"
  using names_ok_entry [OF assms(1,3)] good_name_eq(2) [OF assms(2)] assms(2) by (auto simp: good_name_def)

lemma first_index_cong: "(\<And>x. x \<in> set xs \<Longrightarrow> P x = Q x) \<Longrightarrow> first_index P xs = first_index Q xs"
  by (induction xs) auto

text \<open>The search for a name finds the entry of the map.\<close>

lemma first_index_map:
  assumes "names_ok bs" "good_name n"
  shows "first_index (\<lambda>e. NAME e \<noteq> [] \<and> strncmp_eq (NAME e) n) (entries bs) = first_index (\<lambda>e. NAME e = n) (entries bs)"
  by (rule first_index_cong) (rule match_iff [OF assms])

lemma map_of_first_index:
  "n \<noteq> [] \<Longrightarrow> map_of (pairs es) n = map_option (\<lambda>i. NAME_NUMBER (es ! i)) (first_index (\<lambda>e. NAME e = n) es)"
  by (induction es) (auto simp: option.map_comp comp_def)

lemma names_map_first_index:
  "good_name n \<Longrightarrow> names_map bs n = map_option (\<lambda>i. NAME_NUMBER (entries bs ! i)) (first_index (\<lambda>e. NAME e = n) (entries bs))"
  by (simp add: names_map_def map_of_first_index good_name_def)

lemma search_name:
  assumes "names_ok bs" "good_name n"
  shows "search (\<lambda>e. strncmp_eq (NAME e) n) 0 bs =
    (case first_index (\<lambda>e. NAME e = n) (entries bs) of None \<Rightarrow> Inl NAME_NOT_FOUND | Some j \<Rightarrow> Inr j)"
  using assms(1) by (simp add: search_result names_ok_def first_index_map [OF assms] split: option.split)

lemma scan_name:
  assumes "names_ok bs" "good_name n"
  shows "names_map bs n \<noteq> None \<Longrightarrow> \<exists>s. scan_tables n bs 0 None = (True, s)"
    "names_map bs n = None \<Longrightarrow> scan_tables n bs 0 None = (False, first_index (\<lambda>e. NAME e = []) (entries bs))"
  by (auto simp: scan_tables_flat scan_names_result first_index_map [OF assms] names_map_first_index [OF assms(2)]
      option.map_ident split: option.splits)

text \<open>Writing a name into a free entry.\<close>

lemma put_name_ok:
  assumes ok: "names_ok bs" and n: "good_name n" "names_map bs n = None" and i: "i < length (entries bs)" "NAME (entries bs ! i) = []"
  shows "names_ok (put_name n v i bs) \<and> names_map (put_name n v i bs) = (names_map bs)(n \<mapsto> v)"
proof -
  obtain us vs where u: "pairs (entries bs) = us @ pairs [entries bs ! i] @ vs" "\<And>e. pairs ((entries bs)[i := e]) = us @ pairs [e] @ vs"
    using pairs_update [OF i(1)] by blast
  let ?bs = "put_name n v i bs"
  have e: "entries ?bs = (entries bs)[i := \<lparr>NAME_NUMBER = v, NAME = n\<rparr>]"
    by (simp add: put_name_def upd_base_simps entries_set_entry [OF i(1)] good_name_eq [OF n(1)])
  have p: "pairs (entries bs) = us @ vs" "pairs (entries ?bs) = us @ (n, v) # vs"
    using u i(2) n(1) by (simp_all add: e good_name_def)
  have new: "n \<notin> fst ` set us" "n \<notin> fst ` set vs"
    using n(2) by (auto simp: names_map_def p map_of_eq_None_iff)
  have b: "bs \<noteq> []" "?bs \<noteq> []" using ok by (simp_all add: names_ok_def put_name_def upd_base_simps(3))
  have hd: "NM_NUMBER (hd ?bs) = NM_NUMBER (hd bs) + 1"
    using b(1) by (simp add: put_name_def upd_base_simps(4) hd_set_entry)
  have v: "\<forall>b \<in> set ?bs. NM_VALID b = NAME_VALID"
    using ok by (simp add: put_name_def upd_base_simps(2) set_entry_valid names_ok_def)
  have "names_ok ?bs"
    using ok n(1) new b hd v by (auto simp: names_ok_def p good_name_def)
  moreover have "names_map ?bs = (names_map bs)(n \<mapsto> v)"
    using new [folded map_of_eq_None_iff] by (auto simp: names_map_def p fun_eq_iff map_add_def split: option.split)
  ultimately show ?thesis by blast
qed

lemma drop_name_ok:
  assumes ok: "names_ok bs" and i: "i < length (entries bs)" "NAME (entries bs ! i) = n" "n \<noteq> []"
  shows "names_ok (drop_name i bs) \<and> names_map (drop_name i bs) = (names_map bs)(n := None)"
proof -
  obtain us vs where u: "pairs (entries bs) = us @ pairs [entries bs ! i] @ vs" "\<And>e. pairs ((entries bs)[i := e]) = us @ pairs [e] @ vs"
    using pairs_update [OF i(1)] by blast
  let ?bs = "drop_name i bs"
  have e: "entries ?bs = (entries bs)[i := \<lparr>NAME_NUMBER = 0, NAME = []\<rparr>]"
    by (simp add: drop_name_def upd_base_simps entries_set_entry [OF i(1)])
  have p: "pairs (entries bs) = us @ (n, NAME_NUMBER (entries bs ! i)) # vs" "pairs (entries ?bs) = us @ vs"
    using u i(2,3) by (simp_all add: e)
  have b: "bs \<noteq> []" "?bs \<noteq> []" using ok by (simp_all add: names_ok_def drop_name_def upd_base_simps(3))
  have hd: "NM_NUMBER (hd ?bs) = NM_NUMBER (hd bs) - 1"
    using b(1) by (simp add: drop_name_def upd_base_simps(4) hd_set_entry)
  have v: "\<forall>b \<in> set ?bs. NM_VALID b = NAME_VALID"
    using ok by (simp add: drop_name_def upd_base_simps(2) set_entry_valid names_ok_def)
  have d: "n \<notin> fst ` set us" "n \<notin> fst ` set vs" using ok by (auto simp: names_ok_def p)
  have "names_ok ?bs" using ok b hd v by (auto simp: names_ok_def p)
  moreover have "names_map ?bs = (names_map bs)(n := None)"
    using d [folded map_of_eq_None_iff] by (auto simp: names_map_def p fun_eq_iff map_add_def split: option.split)
  ultimately show ?thesis by blast
qed

text \<open>A table with one more block.\<close>

lemma names_append:
  assumes "names_ok bs" "pairs (NAMES b) = []" "NM_VALID b = NAME_VALID"
  shows "names_ok (bs @ [b]) \<and> names_map (bs @ [b]) = names_map bs"
  using assms by (auto simp: names_ok_def names_map_def)

text \<open>Insertion: an existing name is refused; otherwise the name is added, or there is no free entry and the table
  cannot grow.\<close>

lemma name_insert_result:
  assumes ok: "names_ok bs" and n: "good_name n"
  shows "case name_insert a n v bs k of (r, bs', k') \<Rightarrow> names_ok bs' \<and>
     (if names_map bs n \<noteq> None then r = NAME_EXISTS \<and> bs' = bs
      else r = MQX_OK \<and> names_map bs' = (names_map bs)(n \<mapsto> v)
         \<or> r \<in> {NAME_TABLE_FULL, MQX_OUT_OF_MEMORY} \<and> bs' = bs \<and> (\<forall>e \<in> set (entries bs). NAME e \<noteq> []))"
proof (cases "names_map bs n = None")
  case False
  then obtain s where "scan_tables n bs 0 None = (True, s)" using scan_name(1) [OF ok n] by blast
  then show ?thesis using False ok by (simp add: name_insert_def)
next
  case True
  note sc = scan_name(2) [OF ok n True]
  show ?thesis
  proof (cases "first_index (\<lambda>e. NAME e = []) (entries bs)")
    case (Some i)
    then have "i < length (entries bs)" "NAME (entries bs ! i) = []" using first_index_Some by blast+
    then show ?thesis using Some True sc put_name_ok [OF ok n True, of i v] by (simp add: name_insert_def)
  next
    case None
    then have full: "\<forall>e \<in> set (entries bs). NAME e \<noteq> []" by (simp only: first_index_None)
    let ?g = "GROW_NUMBER (hd bs)" and ?t = "TOTAL_NUMBER (last bs) + GROW_NUMBER (hd bs)"
    show ?thesis
    proof (cases "?g \<noteq> 0 \<and> ?t \<le> MAX_NUMBER (hd bs) \<and> a \<noteq> NULL")
      case False
      then show ?thesis using None True sc ok full by (auto simp: name_insert_def name_create_handle_internal_def Let_def)
    next
      case grow: True
      let ?b = "new_block ?g ?g (MAX_NUMBER (hd bs)) ?t"
      have b: "names_ok (bs @ [?b])" "names_map (bs @ [?b]) = names_map bs"
        using names_append [OF ok, of ?b] by (simp_all add: new_block_def)
      have "0 < unat ?g" using grow by (simp add: unat_gt_0)
      then have i: "length (entries bs) < length (entries (bs @ [?b]))" "NAME (entries (bs @ [?b]) ! length (entries bs)) = []"
        by (simp_all add: new_block_def nth_append)
      then have "names_ok (put_name n v (length (entries bs)) (bs @ [?b])) \<and>
          names_map (put_name n v (length (entries bs)) (bs @ [?b])) = (names_map bs)(n \<mapsto> v)"
        using put_name_ok [OF b(1) n] True b(2) by simp
      then show ?thesis using None True sc grow by (simp add: name_insert_def name_create_handle_internal_def Let_def)
    qed
  qed
qed

lemma name_remove_result:
  assumes ok: "names_ok bs" and n: "good_name n"
  shows "case name_remove n bs of (r, bs') \<Rightarrow> names_ok bs' \<and> names_map bs' = (names_map bs)(n := None) \<and>
     r = (if names_map bs n \<noteq> None then MQX_OK else NAME_NOT_FOUND)"
proof (cases "first_index (\<lambda>e. NAME e = n) (entries bs)")
  case None
  then have "names_map bs n = None" by (simp add: names_map_first_index [OF n])
  then have "(names_map bs)(n := None) = names_map bs" by auto
  then show ?thesis using None ok search_name [OF ok n] \<open>names_map bs n = None\<close> by (simp add: name_remove_def)
next
  case (Some i)
  then have i: "i < length (entries bs)" "NAME (entries bs ! i) = n" using first_index_Some by blast+
  have "names_map bs n \<noteq> None" using Some by (simp add: names_map_first_index [OF n])
  then show ?thesis
    using Some drop_name_ok [OF ok i] n search_name [OF ok n] by (simp add: name_remove_def good_name_def)
qed

lemma name_find_result:
  assumes "names_ok (name_table h k)" "good_name n" "h \<noteq> NULL"
  shows "name_find_internal h n k = (case names_map (name_table h k) n of None \<Rightarrow> (NAME_NOT_FOUND, None) | Some v \<Rightarrow> (MQX_OK, Some v))"
proof -
  have "table_valid h k" using assms(1) by (auto simp: table_valid_def names_ok_def split: list.splits)
  then show ?thesis
    using assms(2,3) search_name [OF assms(1,2)] names_map_first_index [OF assms(2), of "name_table h k"]
    by (simp add: name_find_internal_def good_name_def split: option.split)
qed

text \<open>The count is what the test computes.\<close>

lemma count_names_ok:
  "\<forall>b \<in> set bs. NM_VALID b = NAME_VALID \<Longrightarrow> count_names bs i n = Inr (n + length (pairs (entries bs)))"
  by (induction bs arbitrary: i n) (auto simp: pairs_def)

subsection \<open>Calls that find the table free\<close>

text \<open>A table nobody uses at the moment: its semaphore is available and nobody waits for it.\<close>

definition sem_free :: "addr \<Rightarrow> kernel \<Rightarrow> bool" where
  "sem_free s k \<longleftrightarrow> sem_valid s k \<and> sem_value s k = 1 \<and> sem_waiters s k = [] \<and> IN_ISR k = 0"

definition sem_held :: "addr \<Rightarrow> kernel \<Rightarrow> bool" where
  "sem_held s k \<longleftrightarrow> sem_valid s k \<and> sem_value s k = 0 \<and> sem_waiters s k = [] \<and> IN_ISR k = 0"

definition names_ready :: "addr \<Rightarrow> kernel \<Rightarrow> bool" where
  "names_ready h k \<longleftrightarrow> h \<noteq> NULL \<and> names_ok (name_table h k) \<and> sem_free (NAME_SEM h) k"

lemma set_table_simps [simp]:
  "LWSEMS (set_table h bs k) = LWSEMS k" "AUX_QUEUES (set_table h bs k) = AUX_QUEUES k" "IN_ISR (set_table h bs k) = IN_ISR k"
  "name_table h (set_table h bs k) = bs"
  by (simp_all add: set_table_def name_table_def)

lemma name_table_INT [simp]: "name_table h (INT_DISABLE k) = name_table h k" "name_table h (INT_ENABLE k) = name_table h k"
  by (simp_all add: name_table_def)

lemma lwsem_wait_free:
  assumes "sem_free s k"
  obtains k' where "lwsem_wait s k = Done MQX_OK k'" "sem_valid s k'" "sem_value s k' = 0" "sem_waiters s k' = []" "IN_ISR k' = 0" "OBJ k' = OBJ k"
proof -
  let ?k = "INT_ENABLE (upd_sem s (\<lambda>l. l\<lparr>VALUE := VALUE l - 1\<rparr>) (INT_DISABLE k))"
  have "lwsem_wait s k = Done MQX_OK ?k"
    using assms by (simp add: lwsem_wait_def lwsem_wait_with_def wait_end_def Let_def sem_free_def sem_valid_def sem_value_def)
  then show ?thesis
    using assms by (intro that [of ?k]) (simp_all add: sem_free_def sem_valid_def sem_value_def sem_waiters_def, simp add: upd_sem_def)
qed

lemma lwsem_post_free:
  assumes "sem_valid s k" "sem_value s k = 0" "sem_waiters s k = []" "IN_ISR k = 0"
  obtains k' where "lwsem_post s k = Done MQX_OK k'" "sem_free s k'" "OBJ k' = OBJ k"
proof -
  let ?k = "INT_ENABLE (upd_sem s (\<lambda>l. l\<lparr>VALUE := int32 (VALUE l + 1)\<rparr>) (INT_DISABLE k))"
  have "lwsem_post s k = Done MQX_OK ?k"
    using assms by (simp add: lwsem_post_def Let_def sem_valid_def sem_value_def sem_waiters_def)
  then show ?thesis
    using assms
    by (intro that [of ?k]) (simp_all add: sem_free_def sem_valid_def sem_value_def sem_waiters_def int32_def, simp add: upd_sem_def)
qed

text \<open>Growing leaves the semaphore of the table alone.\<close>

lemma name_insert_frame:
  assumes "a \<noteq> h" "name_insert a n v bs k = (r, bs', k')"
  shows "sem_valid (NAME_SEM h) k' = sem_valid (NAME_SEM h) k" "sem_value (NAME_SEM h) k' = sem_value (NAME_SEM h) k"
    "sem_waiters (NAME_SEM h) k' = sem_waiters (NAME_SEM h) k" "IN_ISR k' = IN_ISR k" "OBJ k' = OBJ k"
proof -
  have c: "k' = k \<or> k' = snd (lwsem_create (NAME_SEM a) 1 k)"
    using assms(2)
    by (auto simp: name_insert_def name_create_handle_internal_def Let_def split: prod.splits bool.splits option.splits if_splits)
  have d: "NAME_SEM a \<noteq> NAME_SEM h" "TD_QUEUE (NAME_SEM a) \<noteq> TD_QUEUE (NAME_SEM h)" using assms(1) by (simp_all add: NAME_SEM_def TD_QUEUE_def)
  let ?c = "snd (lwsem_create (NAME_SEM a) 1 k)"
  have "sem_valid (NAME_SEM h) ?c = sem_valid (NAME_SEM h) k" "sem_value (NAME_SEM h) ?c = sem_value (NAME_SEM h) k"
    "sem_waiters (NAME_SEM h) ?c = sem_waiters (NAME_SEM h) k" "IN_ISR ?c = IN_ISR k" "OBJ ?c = OBJ k"
    using d by (simp_all add: lwsem_create_def lwsem_create_internal_def Let_def sem_valid_def sem_value_def sem_waiters_def)
      (auto simp: upd_sem_def INT_DISABLE_def INT_ENABLE_def upd_td_def)
  then show "sem_valid (NAME_SEM h) k' = sem_valid (NAME_SEM h) k" "sem_value (NAME_SEM h) k' = sem_value (NAME_SEM h) k"
    "sem_waiters (NAME_SEM h) k' = sem_waiters (NAME_SEM h) k" "IN_ISR k' = IN_ISR k" "OBJ k' = OBJ k"
    using c by auto
qed

lemma names_ready_valid: "names_ready h k \<Longrightarrow> table_valid h k"
  by (auto simp: table_valid_def names_ok_def names_ready_def split: list.splits)

text \<open>The first part of the functions: the semaphore is taken.\<close>

lemma names_open:
  assumes "names_ready h k"
  obtains k1 where "lwsem_wait (NAME_SEM h) (INT_DISABLE k) = Done MQX_OK k1" "sem_held (NAME_SEM h) k1" "name_table h k1 = name_table h k"
proof -
  have s: "sem_free (NAME_SEM h) (INT_DISABLE k)"
    using assms by (simp add: names_ready_def sem_free_def sem_valid_def sem_value_def sem_waiters_def)
  obtain k1 where "lwsem_wait (NAME_SEM h) (INT_DISABLE k) = Done MQX_OK k1" "sem_valid (NAME_SEM h) k1" "sem_value (NAME_SEM h) k1 = 0"
    "sem_waiters (NAME_SEM h) k1 = []" "IN_ISR k1 = 0" "OBJ k1 = OBJ (INT_DISABLE k)"
    by (rule lwsem_wait_free [OF s])
  then show ?thesis by (intro that [of k1]) (simp_all add: name_table_def sem_held_def)
qed

text \<open>The last part of the functions: the new table is stored and the semaphore posted.\<close>

lemma names_store:
  assumes "names_ok bs" "h \<noteq> NULL" "sem_held (NAME_SEM h) k"
  shows "\<exists>k'. andthen (lwsem_post (NAME_SEM h) (set_table h bs k)) (\<lambda>_ k4. Done r k4) = Done r k' \<and> names_ready h k' \<and> name_table h k' = bs"
proof -
  let ?k = "set_table h bs k"
  have "sem_valid (NAME_SEM h) ?k" "sem_value (NAME_SEM h) ?k = 0" "sem_waiters (NAME_SEM h) ?k = []" "IN_ISR ?k = 0"
    using assms by (simp_all add: sem_held_def sem_valid_def sem_value_def sem_waiters_def)
  then obtain k' where k: "lwsem_post (NAME_SEM h) ?k = Done MQX_OK k'" "sem_free (NAME_SEM h) k'" "OBJ k' = OBJ ?k"
    by (rule lwsem_post_free)
  have "name_table h k' = bs" using k(3) by (simp add: name_table_def set_table_def)
  then show ?thesis using k assms(1,2) by (simp add: names_ready_def)
qed

lemma name_add_free:
  assumes r: "names_ready h k" and n: "good_name n" and a: "a \<noteq> h"
  defines "m \<equiv> names_map (name_table h k)"
  shows "\<exists>r k'. name_add_internal a h n v k = Done r k' \<and> names_ready h k' \<and>
    (if m n \<noteq> None then r = NAME_EXISTS \<and> names_map (name_table h k') = m
     else r = MQX_OK \<and> names_map (name_table h k') = m(n \<mapsto> v)
       \<or> r \<in> {NAME_TABLE_FULL, MQX_OUT_OF_MEMORY} \<and> names_map (name_table h k') = m)"
proof -
  obtain k1 where k1: "lwsem_wait (NAME_SEM h) (INT_DISABLE k) = Done MQX_OK k1" "sem_held (NAME_SEM h) k1" and t: "name_table h k1 = name_table h k"
    by (rule names_open [OF r])
  have o: "h \<noteq> NULL" "names_ok (name_table h k)" "table_valid h k" using r names_ready_valid [OF r] by (simp_all add: names_ready_def)
  obtain res bs k2 where i: "name_insert a n v (name_table h k) (INT_ENABLE k1) = (res, bs, k2)" by (cases "name_insert a n v (name_table h k) (INT_ENABLE k1)")
  note f = name_insert_frame [OF a i]
  have ok: "names_ok bs" and sp: "if m n \<noteq> None then res = NAME_EXISTS \<and> bs = name_table h k
      else res = MQX_OK \<and> names_map bs = m(n \<mapsto> v) \<or> res \<in> {NAME_TABLE_FULL, MQX_OUT_OF_MEMORY} \<and> bs = name_table h k"
    using name_insert_result [OF o(2) n, where a = a and v = v and k = "INT_ENABLE k1"] i by (auto simp: m_def split: if_splits)
  have k2: "sem_held (NAME_SEM h) k2"
    using f k1(2) by (simp add: sem_held_def sem_valid_def sem_value_def sem_waiters_def)
  obtain k' where k': "andthen (lwsem_post (NAME_SEM h) (set_table h bs k2)) (\<lambda>_ k4. Done res k4) = Done res k'"
    "names_ready h k'" "name_table h k' = bs"
    using names_store [OF ok o(1) k2, of res] by blast
  have "name_add_internal a h n v k = Done res k'"
    using n o k1(1) t i k'(1) by (simp add: name_add_internal_def Let_def good_name_def table_valid_def)
  then show ?thesis using k' sp by (auto simp: m_def split: if_splits)
qed

lemma name_delete_free:
  assumes r: "names_ready h k" and n: "good_name n"
  defines "m \<equiv> names_map (name_table h k)"
  shows "\<exists>k'. name_delete_internal h n k = Done (if m n \<noteq> None then MQX_OK else NAME_NOT_FOUND) k' \<and> names_ready h k' \<and>
    names_map (name_table h k') = m(n := None)"
proof -
  obtain k1 where k1: "lwsem_wait (NAME_SEM h) (INT_DISABLE k) = Done MQX_OK k1" "sem_held (NAME_SEM h) k1" and t: "name_table h k1 = name_table h k"
    by (rule names_open [OF r])
  have o: "h \<noteq> NULL" "names_ok (name_table h k)" "table_valid h k" using r names_ready_valid [OF r] by (simp_all add: names_ready_def)
  obtain res bs where i: "name_remove n (name_table h k) = (res, bs)" by (cases "name_remove n (name_table h k)")
  have ok: "names_ok bs" and sp: "names_map bs = m(n := None)" "res = (if m n \<noteq> None then MQX_OK else NAME_NOT_FOUND)"
    using name_remove_result [OF o(2) n] i by (simp_all add: m_def)
  have k2: "sem_held (NAME_SEM h) (INT_ENABLE k1)"
    using k1(2) by (simp add: sem_held_def sem_valid_def sem_value_def sem_waiters_def)
  obtain k' where k': "andthen (lwsem_post (NAME_SEM h) (set_table h bs (INT_ENABLE k1))) (\<lambda>_ k4. Done res k4) = Done res k'"
    "names_ready h k'" "name_table h k' = bs"
    using names_store [OF ok o(1) k2, of res] by blast
  have "name_delete_internal h n k = Done res k'"
    using n o k1(1) t i k'(1) by (simp add: name_delete_internal_def Let_def good_name_def table_valid_def)
  then show ?thesis using k' sp by (auto simp: m_def)
qed

subsection \<open>Sequences of calls\<close>

text \<open>Calls of a table in sequence, with their success, and what they mean for a map: a successful insertion binds the
  name and a deletion unbinds it. An insertion comes with the answer \<open>x\<close> of the environment.\<close>

primrec run_table :: "('x \<Rightarrow> 'n \<Rightarrow> 'v \<Rightarrow> 's \<Rightarrow> bool \<times> 's) \<Rightarrow> ('n \<Rightarrow> 's \<Rightarrow> bool \<times> 's) \<Rightarrow> (('x \<times> 'n \<times> 'v) + 'n) list \<Rightarrow> 's \<Rightarrow> bool list \<times> 's" where
  "run_table ins del [] s = ([], s)"
| "run_table ins del (c # cs) s =
     (let (b, s1) = (case c of Inl (x, n, v) \<Rightarrow> ins x n v s | Inr n \<Rightarrow> del n s); (bs, s2) = run_table ins del cs s1
      in (b # bs, s2))"

fun replay :: "(('x \<times> 'n \<times> 'v) + 'n) list \<Rightarrow> bool list \<Rightarrow> ('n \<rightharpoonup> 'v) \<Rightarrow> ('n \<rightharpoonup> 'v)" where
  "replay (Inl (x, n, v) # cs) (b # bs) m = replay cs bs (if b then m(n \<mapsto> v) else m)"
| "replay (Inr n # cs) (b # bs) m = replay cs bs (m(n := None))"
| "replay _ _ m = m"

definition name_of_call :: "('x \<times> 'n \<times> 'v) + 'n \<Rightarrow> 'n" where
  "name_of_call c = (case c of Inl (x, n, v) \<Rightarrow> n | Inr n \<Rightarrow> n)"

text \<open>The contract of a table of symbols.\<close>

locale symbol_table =
  fixes ok :: "'s \<Rightarrow> bool" and look :: "'s \<Rightarrow> 'n \<rightharpoonup> 'v" and good :: "'n \<Rightarrow> bool" and env :: "'x \<Rightarrow> bool"
    and ins :: "'x \<Rightarrow> 'n \<Rightarrow> 'v \<Rightarrow> 's \<Rightarrow> bool \<times> 's" and del :: "'n \<Rightarrow> 's \<Rightarrow> bool \<times> 's"
  assumes ins_ok: "ok s \<Longrightarrow> good n \<Longrightarrow> env x \<Longrightarrow> ok (snd (ins x n v s))"
    and ins_look: "ok s \<Longrightarrow> good n \<Longrightarrow> env x \<Longrightarrow> look (snd (ins x n v s)) = (if fst (ins x n v s) then (look s)(n \<mapsto> v) else look s)"
    and ins_new: "ok s \<Longrightarrow> good n \<Longrightarrow> env x \<Longrightarrow> fst (ins x n v s) \<Longrightarrow> look s n = None"
    and del_ok: "ok s \<Longrightarrow> good n \<Longrightarrow> ok (snd (del n s))"
    and del_look: "ok s \<Longrightarrow> good n \<Longrightarrow> look (snd (del n s)) = (look s)(n := None)"
    and del_old: "ok s \<Longrightarrow> good n \<Longrightarrow> fst (del n s) \<longleftrightarrow> look s n \<noteq> None"
begin

definition allowed_call :: "('x \<times> 'n \<times> 'v) + 'n \<Rightarrow> bool" where
  "allowed_call c \<longleftrightarrow> good (name_of_call c) \<and> (case c of Inl (x, _, _) \<Rightarrow> env x | Inr _ \<Rightarrow> True)"

lemma run_replay:
  assumes "ok s" "list_all allowed_call cs"
  shows "ok (snd (run_table ins del cs s)) \<and> look (snd (run_table ins del cs s)) = replay cs (fst (run_table ins del cs s)) (look s)"
  using assms
proof (induction cs arbitrary: s)
  case (Cons c cs)
  show ?case
  proof (cases c)
    case (Inl a)
    obtain x n v where a: "a = (x, n, v)" by (cases a)
    have g: "good n" "env x" using Cons.prems Inl a by (simp_all add: allowed_call_def name_of_call_def)
    show ?thesis
      using Cons.IH [OF ins_ok [OF Cons.prems(1) g]] Cons.prems ins_look [OF Cons.prems(1) g, of v] Inl a by (simp add: split_beta)
  next
    case (Inr n)
    have g: "good n" using Cons.prems Inr by (simp add: allowed_call_def name_of_call_def)
    show ?thesis
      using Cons.IH [OF del_ok [OF Cons.prems(1) g]] Cons.prems del_look [OF Cons.prems(1) g] Inr by (simp add: split_beta fun_upd_def)
  qed
qed simp

lemma deleted_can_be_found_no_more: "ok s \<Longrightarrow> good n \<Longrightarrow> look (snd (del n s)) n = None"
  by (simp add: del_look)

end

definition names_ins :: "addr \<Rightarrow> addr \<Rightarrow> string \<Rightarrow> u32 \<Rightarrow> kernel \<Rightarrow> bool \<times> kernel" where
  "names_ins h a n v k = (result_of (name_add_internal a h n v k) = Some MQX_OK, state_of (name_add_internal a h n v k))"

definition names_del :: "addr \<Rightarrow> string \<Rightarrow> kernel \<Rightarrow> bool \<times> kernel" where
  "names_del h n k = (result_of (name_delete_internal h n k) = Some MQX_OK, state_of (name_delete_internal h n k))"

lemma names_ins_result:
  assumes "names_ready h k" "good_name n" "a \<noteq> h"
  shows "names_ready h (snd (names_ins h a n v k)) \<and>
    names_map (name_table h (snd (names_ins h a n v k))) =
      (if fst (names_ins h a n v k) then (names_map (name_table h k))(n \<mapsto> v) else names_map (name_table h k)) \<and>
    (fst (names_ins h a n v k) \<longrightarrow> names_map (name_table h k) n = None)"
proof -
  obtain r k' where "name_add_internal a h n v k = Done r k'" "names_ready h k'"
    "if names_map (name_table h k) n \<noteq> None then r = NAME_EXISTS \<and> names_map (name_table h k') = names_map (name_table h k)
     else r = MQX_OK \<and> names_map (name_table h k') = (names_map (name_table h k))(n \<mapsto> v)
       \<or> r \<in> {NAME_TABLE_FULL, MQX_OUT_OF_MEMORY} \<and> names_map (name_table h k') = names_map (name_table h k)"
    using name_add_free [OF assms, of v] by (elim exE conjE) (rule that)
  then show ?thesis by (auto simp: names_ins_def split: if_splits)
qed

lemma names_del_result:
  assumes "names_ready h k" "good_name n"
  shows "names_ready h (snd (names_del h n k)) \<and> names_map (name_table h (snd (names_del h n k))) = (names_map (name_table h k))(n := None) \<and>
    (fst (names_del h n k) \<longleftrightarrow> names_map (name_table h k) n \<noteq> None)"
proof -
  obtain k' where "name_delete_internal h n k = Done (if names_map (name_table h k) n \<noteq> None then MQX_OK else NAME_NOT_FOUND) k'"
    "names_ready h k'" "names_map (name_table h k') = (names_map (name_table h k))(n := None)"
    using name_delete_free [OF assms] by (elim exE conjE) (rule that)
  then show ?thesis by (simp add: names_del_def)
qed

interpretation nametab: symbol_table "names_ready h" "\<lambda>k. names_map (name_table h k)" good_name "\<lambda>a. a \<noteq> h" "names_ins h" "names_del h" for h
  by unfold_locales (use names_ins_result names_del_result in blast)+

text \<open>
  C16 (refinement). A name table is a finite map. Over any sequence of additions and deletions of names of 1 to 31
  characters by tasks that find the table free, growth of the table included, the table holds exactly the
  names that were added successfully and not deleted since, with their numbers; an existing name is not
  added again, and \<^verbatim>\<open>_name_find_internal\<close> returns the number of every name in the table and
  \<^verbatim>\<open>NAME_NOT_FOUND\<close> for the others.
\<close>

theorem names_refine_map:
  assumes "names_ready h k" "list_all (\<lambda>c. good_name (name_of_call c) \<and> (case c of Inl (a, _, _) \<Rightarrow> a \<noteq> h | Inr _ \<Rightarrow> True)) cs" "good_name n"
  shows "case run_table (names_ins h) (names_del h) cs k of (bs, k') \<Rightarrow>
    names_ready h k' \<and> names_map (name_table h k') = replay cs bs (names_map (name_table h k))
    \<and> name_find_internal h n k' = (case replay cs bs (names_map (name_table h k)) n of None \<Rightarrow> (NAME_NOT_FOUND, None) | Some v \<Rightarrow> (MQX_OK, Some v))
    \<and> (a \<noteq> h \<and> fst (names_ins h a n v k') \<longrightarrow> replay cs bs (names_map (name_table h k)) n = None)"
proof -
  have "list_all (nametab.allowed_call h) cs" using assms(2) by (auto simp: list_all_iff nametab.allowed_call_def)
  note r = nametab.run_replay [OF assms(1) this]
  let ?k = "snd (run_table (names_ins h) (names_del h) cs k)"
  have o: "names_ready h ?k" and m: "names_map (name_table h ?k) = replay cs (fst (run_table (names_ins h) (names_del h) cs k)) (names_map (name_table h k))"
    using r by blast+
  have "names_ok (name_table h ?k)" "h \<noteq> NULL" using o by (simp_all add: names_ready_def)
  then have "name_find_internal h n ?k = (case names_map (name_table h ?k) n of None \<Rightarrow> (NAME_NOT_FOUND, None) | Some v \<Rightarrow> (MQX_OK, Some v))"
    using name_find_result assms(3) by blast
  moreover have "a \<noteq> h \<and> fst (names_ins h a n v ?k) \<longrightarrow> names_map (name_table h ?k) n = None"
    using nametab.ins_new [OF o assms(3), of a v] by blast
  ultimately show ?thesis using o m by (simp add: split_beta)
qed

text \<open>A table of two entries at address 1000.\<close>

definition demo_names :: kernel where
  "demo_names = set_table 1000 [new_block 2 2 0 2] (upd_sem 1020 (\<lambda>l. l\<lparr>VALUE := 1\<rparr>) demo)"

lemma demo_names_ready: "names_ready 1000 demo_names"
proof -
  have e: "entries [new_block 2 2 0 2] = replicate 2 \<lparr>NAME_NUMBER = 0, NAME = []\<rparr>" by (simp add: new_block_def)
  have "names_ok [new_block 2 2 0 2]" unfolding names_ok_def e by (simp add: new_block_def)
  moreover have "sem_free 1020 demo_names"
    by (simp add: sem_free_def demo_names_def sem_valid_def sem_value_def sem_waiters_def) (simp add: demo_def)
  ultimately show ?thesis by (simp add: names_ready_def NAME_SEM_def) (simp add: demo_names_def)
qed

theorem names_refine_map_witness:
  "case run_table (names_ins 1000) (names_del 1000) [Inl (2000, ''mail'', 5), Inl (2000, ''log'', 6), Inr ''mail''] demo_names of
     (bs, k') \<Rightarrow> names_map (name_table 1000 k')
       = replay [Inl (2000, ''mail'', 5), Inl (2000, ''log'', 6), Inr ''mail''] bs (names_map (name_table 1000 demo_names))"
  using names_refine_map [OF demo_names_ready, of "[Inl (2000, ''mail'', 5), Inl (2000, ''log'', 6), Inr ''mail'']" "''log''"]
  by (simp add: good_name_def name_of_call_def split_beta)

subsection \<open>Deletion by index\<close>

text \<open>\<^verbatim>\<open>_name_delete_internal_by_index\<close> succeeds outside the table, and on a free entry it lowers the count of the table,
  which \<^verbatim>\<open>_name_test\<close> then reports as an error.\<close>

lemma walk_index_outside:
  assumes "\<forall>b \<in> set bs. NM_VALID b = NAME_VALID" "bs \<noteq> []"
  shows "walk_index i bs = (if i < length (entries bs) then Inr () else Inl (Inr (i - length (entries bs))))"
  using assms
proof (induction bs arbitrary: i)
  case (Cons b bs)
  then show ?case by (cases bs) auto
qed simp

lemma name_delete_by_index_free:
  assumes r: "names_ready h k"
  shows "\<exists>k'. name_delete_internal_by_index h i k = Done MQX_OK k' \<and> h \<noteq> NULL \<and>
    name_table h k' = (if unat i < length (entries (name_table h k)) then drop_name (unat i) (name_table h k) else name_table h k)"
proof -
  obtain k1 where k1: "lwsem_wait (NAME_SEM h) (INT_DISABLE k) = Done MQX_OK k1" "sem_held (NAME_SEM h) k1" and t: "name_table h k1 = name_table h k"
    by (rule names_open [OF r])
  have o: "h \<noteq> NULL" "names_ok (name_table h k)" "table_valid h k" using r names_ready_valid [OF r] by (simp_all add: names_ready_def)
  let ?bs = "if unat i < length (entries (name_table h k)) then drop_name (unat i) (name_table h k) else name_table h k"
  have w: "(case walk_index (unat i) (name_table h k1) of Inr _ \<Rightarrow> drop_name (unat i) (name_table h k1) | Inl _ \<Rightarrow> name_table h k1) = ?bs"
    unfolding t using o(2) by (simp add: walk_index_outside names_ok_def)
  have "sem_held (NAME_SEM h) (set_table h ?bs (INT_ENABLE k1))"
    using k1(2) by (simp add: sem_held_def sem_valid_def sem_value_def sem_waiters_def)
  then obtain k' where "lwsem_post (NAME_SEM h) (set_table h ?bs (INT_ENABLE k1)) = Done MQX_OK k'" "OBJ k' = OBJ (set_table h ?bs (INT_ENABLE k1))"
    unfolding sem_held_def by (elim conjE) (erule (3) lwsem_post_free, rule that)
  moreover have "name_delete_internal_by_index h i k =
      andthen (lwsem_post (NAME_SEM h) (set_table h ?bs (INT_ENABLE k1))) (\<lambda>_ k4. Done MQX_OK k4)"
    using o(1,3) k1(1) by (simp only: name_delete_internal_by_index_def Let_def table_valid_def name_table_INT if_False andthen_simps w simp_thms)
  ultimately show ?thesis using o(1) by (simp add: name_table_def) (simp add: set_table_def)
qed

lemma name_delete_by_index_miscounts:
  assumes r: "names_ready h k" and i: "unat i < length (entries (name_table h k))" "NAME (entries (name_table h k) ! unat i) = []"
  shows "\<exists>k'. name_delete_internal_by_index h i k = Done MQX_OK k' \<and>
    NM_NUMBER (hd (name_table h k')) = of_nat (length (pairs (entries (name_table h k')))) - 1"
proof -
  let ?bs = "name_table h k"
  have ok: "names_ok ?bs" using r by (simp add: names_ready_def)
  then have b: "?bs \<noteq> []" "NM_NUMBER (hd ?bs) = of_nat (length (pairs (entries ?bs)))" by (simp_all add: names_ok_def)
  obtain us vs where u: "pairs (entries ?bs) = us @ pairs [entries ?bs ! unat i] @ vs" "\<And>e. pairs ((entries ?bs)[unat i := e]) = us @ pairs [e] @ vs"
    using pairs_update [OF i(1)] by blast
  have "entries (drop_name (unat i) ?bs) = (entries ?bs)[unat i := \<lparr>NAME_NUMBER = 0, NAME = []\<rparr>]"
    by (simp add: drop_name_def upd_base_simps entries_set_entry [OF i(1)])
  then have "pairs (entries (drop_name (unat i) ?bs)) = pairs (entries ?bs)" using u i(2) by simp
  moreover have "NM_NUMBER (hd (drop_name (unat i) ?bs)) = NM_NUMBER (hd ?bs) - 1"
    using b(1) by (simp add: drop_name_def upd_base_simps(4) hd_set_entry)
  ultimately show ?thesis using name_delete_by_index_free [OF r, of i] i(1) b(2) by auto
qed

end
