(* ===== verification/Time_Services.thy ===== *)
theory Time_Services
  imports Kernel_Time
begin

text \<open>
  The time services of \<^verbatim>\<open>kernel/time.c\<close> beside delays and the calendar: arithmetic on tick structures, the elapsed
  time, the time of day as an offset from it, and the settings of the clock. The answer of the hardware
  tick function is an argument \<open>hw\<close>, \<open>None\<close> if none is installed. Pointers that the code compares with \<^verbatim>\<open>NULL\<close> are
  options.
\<close>

subsection \<open>Adding time units\<close>

definition time_add_units :: "(u32 \<Rightarrow> psp_tick) \<Rightarrow> 'a clock_scheme \<Rightarrow> psp_tick \<Rightarrow> u32 \<Rightarrow> psp_tick" where
  "time_add_units to_ticks kd t n = (if n \<noteq> 0 then psp_add_ticks kd t (to_ticks n) else t)"

definition time_add_day_to_ticks :: "'a clock_scheme \<Rightarrow> psp_tick \<Rightarrow> u32 \<Rightarrow> psp_tick" where
  "time_add_day_to_ticks kd t days = time_add_units (psp_days_to_ticks kd) kd t days"

definition time_add_hour_to_ticks :: "'a clock_scheme \<Rightarrow> psp_tick \<Rightarrow> u32 \<Rightarrow> psp_tick" where
  "time_add_hour_to_ticks kd t hours = time_add_units (psp_hours_to_ticks kd) kd t hours"

definition time_add_min_to_ticks :: "'a clock_scheme \<Rightarrow> psp_tick \<Rightarrow> u32 \<Rightarrow> psp_tick" where
  "time_add_min_to_ticks kd t minutes = time_add_units (psp_minutes_to_ticks kd) kd t minutes"

definition time_add_msec_to_ticks :: "'a clock_scheme \<Rightarrow> psp_tick \<Rightarrow> u32 \<Rightarrow> psp_tick" where
  "time_add_msec_to_ticks kd t msecs = time_add_units (psp_msecs_to_ticks kd) kd t msecs"

definition time_add_nsec_to_ticks :: "'a clock_scheme \<Rightarrow> psp_tick \<Rightarrow> u32 \<Rightarrow> psp_tick" where
  "time_add_nsec_to_ticks kd t nsecs = time_add_units (psp_nsecs_to_ticks kd) kd t nsecs"

definition time_add_psec_to_ticks :: "'a clock_scheme \<Rightarrow> psp_tick \<Rightarrow> u32 \<Rightarrow> psp_tick" where
  "time_add_psec_to_ticks kd t psecs = time_add_units (psp_psecs_to_ticks kd) kd t psecs"

definition time_add_sec_to_ticks :: "'a clock_scheme \<Rightarrow> psp_tick \<Rightarrow> u32 \<Rightarrow> psp_tick" where
  "time_add_sec_to_ticks kd t secs = time_add_units (psp_seconds_to_ticks kd) kd t secs"

definition time_add_usec_to_ticks :: "'a clock_scheme \<Rightarrow> psp_tick \<Rightarrow> u32 \<Rightarrow> psp_tick" where
  "time_add_usec_to_ticks kd t usecs = time_add_units (psp_usecs_to_ticks kd) kd t usecs"

subsection \<open>Differences\<close>

definition time_diff_ticks ::
  "'a clock_scheme \<Rightarrow> psp_tick option \<Rightarrow> psp_tick option \<Rightarrow> psp_tick option \<Rightarrow> u32 \<times> psp_tick option" where
  "time_diff_ticks kd end_tick start_tick diff_tick =
     (case (end_tick, start_tick, diff_tick) of
        (Some e, Some s, Some _) \<Rightarrow> (MQX_OK, Some (psp_subtract_ticks kd e s))
      | _ \<Rightarrow> (MQX_INVALID_PARAMETER, diff_tick))"

text \<open>The result and the overflow flag; \<open>wants\<close> says whether the pointer to the flag is not \<^verbatim>\<open>NULL\<close>.\<close>

definition time_diff_ticks_int32 ::
  "'a clock_scheme \<Rightarrow> psp_tick option \<Rightarrow> psp_tick option \<Rightarrow> bool \<Rightarrow> u32 \<times> bool option" where
  "time_diff_ticks_int32 kd end_tick start_tick wants =
     (case (end_tick, start_tick) of
        (Some e, Some s) \<Rightarrow> map_prod id (\<lambda>over. if wants then Some over else None) (psp_subtract_ticks_int32 kd e s)
      | _ \<Rightarrow> (0x7FFFFFFF, if wants then Some True else None))"

text \<open>\<^verbatim>\<open>_time_diff_days\<close> checks its pointers; the other differences in units do not.\<close>

definition time_diff_days :: "'a clock_scheme \<Rightarrow> psp_tick option \<Rightarrow> psp_tick option \<Rightarrow> bool \<Rightarrow> u32 \<times> bool option" where
  "time_diff_days kd end_tick start_tick wants =
     (if \<not> wants then (0x7FFFFFFF, None)
      else let (result, diff) = time_diff_ticks kd end_tick start_tick (Some zero_tick_struct)
           in if result \<noteq> MQX_OK then (0x7FFFFFFF, None)
              else map_prod id Some (psp_ticks_to_days kd (the diff)))"

definition time_diff_hours :: "'a clock_scheme \<Rightarrow> psp_tick \<Rightarrow> psp_tick \<Rightarrow> u32 \<times> bool" where
  "time_diff_hours kd end_tick start_tick = psp_ticks_to_hours kd (psp_subtract_ticks kd end_tick start_tick)"

definition time_diff_minutes :: "'a clock_scheme \<Rightarrow> psp_tick \<Rightarrow> psp_tick \<Rightarrow> u32 \<times> bool" where
  "time_diff_minutes kd end_tick start_tick = psp_ticks_to_minutes kd (psp_subtract_ticks kd end_tick start_tick)"

definition time_diff_seconds :: "'a clock_scheme \<Rightarrow> psp_tick \<Rightarrow> psp_tick \<Rightarrow> u32 \<times> bool" where
  "time_diff_seconds kd end_tick start_tick = psp_ticks_to_seconds kd (psp_subtract_ticks kd end_tick start_tick)"

definition time_diff_milliseconds :: "'a clock_scheme \<Rightarrow> psp_tick \<Rightarrow> psp_tick \<Rightarrow> u32 \<times> bool" where
  "time_diff_milliseconds kd end_tick start_tick = psp_ticks_to_milliseconds kd (psp_subtract_ticks kd end_tick start_tick)"

definition time_diff_microseconds :: "'a clock_scheme \<Rightarrow> psp_tick \<Rightarrow> psp_tick \<Rightarrow> u32 \<times> bool" where
  "time_diff_microseconds kd end_tick start_tick = psp_ticks_to_microseconds kd (psp_subtract_ticks kd end_tick start_tick)"

definition time_diff_nanoseconds :: "'a clock_scheme \<Rightarrow> psp_tick \<Rightarrow> psp_tick \<Rightarrow> u32 \<times> bool" where
  "time_diff_nanoseconds kd end_tick start_tick = psp_ticks_to_nanoseconds kd (psp_subtract_ticks kd end_tick start_tick)"

definition time_diff_picoseconds :: "'a clock_scheme \<Rightarrow> psp_tick \<Rightarrow> psp_tick \<Rightarrow> u32 \<times> bool" where
  "time_diff_picoseconds kd end_tick start_tick = psp_ticks_to_picoseconds kd (psp_subtract_ticks kd end_tick start_tick)"

subsection \<open>Reading the clock\<close>

definition raw_time :: "u32 option \<Rightarrow> kernel \<Rightarrow> psp_tick" where
  "raw_time hw k = (case hw of Some h \<Rightarrow> (TIME k)\<lparr>HW_TICKS := h\<rparr> | None \<Rightarrow> TIME k)"

definition time_get_elapsed_ticks :: "u32 option \<Rightarrow> kernel \<Rightarrow> psp_tick" where
  "time_get_elapsed_ticks hw k = psp_normalize_ticks k (raw_time hw k)"

definition time_get_elapsed_ticks_fast :: "u32 option \<Rightarrow> kernel \<Rightarrow> psp_tick" where
  "time_get_elapsed_ticks_fast hw k = psp_normalize_ticks k (raw_time hw k)"

definition time_get_elapsed :: "u32 option \<Rightarrow> kernel \<Rightarrow> time_struct" where
  "time_get_elapsed hw k = snd (psp_ticks_to_time k (time_get_elapsed_ticks hw k))"

definition time_get_ticks :: "u32 option \<Rightarrow> kernel \<Rightarrow> psp_tick" where
  "time_get_ticks hw k = psp_normalize_ticks k (psp_add_ticks k (raw_time hw k) (TIME_OFFSET (OBJ k)))"

definition time_get :: "u32 option \<Rightarrow> kernel \<Rightarrow> time_struct" where
  "time_get hw k = snd (psp_ticks_to_time k (time_get_ticks hw k))"

definition time_get_hwticks :: "u32 option \<Rightarrow> u32" where
  "time_get_hwticks hw = (case hw of Some h \<Rightarrow> h | None \<Rightarrow> 0)"

text \<open>The product is computed in 64 bits for nanoseconds and in 32 bits for microseconds.\<close>

definition time_get_nanoseconds :: "u32 option \<Rightarrow> 'a clock_scheme \<Rightarrow> u32" where
  "time_get_nanoseconds hw kd =
     (case hw of
        None \<Rightarrow> 0
      | Some h \<Rightarrow> ucast ((ucast h * ucast (1000000000 div TICKS_PER_SECOND kd) :: u64) div ucast (HW_TICKS_PER_TICK kd)))"

definition time_get_microseconds :: "u32 option \<Rightarrow> 'a clock_scheme \<Rightarrow> u16" where
  "time_get_microseconds hw kd =
     (case hw of
        None \<Rightarrow> 0
      | Some h \<Rightarrow> ucast ((h * (1000000 div TICKS_PER_SECOND kd)) div HW_TICKS_PER_TICK kd))"

definition time_get_ticks_per_sec :: "'a clock_scheme \<Rightarrow> u32" where
  "time_get_ticks_per_sec kd = TICKS_PER_SECOND kd"

definition time_get_resolution :: "'a clock_scheme \<Rightarrow> u32" where
  "time_get_resolution kd = 1000 div TICKS_PER_SECOND kd"

definition time_get_hwticks_per_tick :: "'a clock_scheme \<Rightarrow> u32" where
  "time_get_hwticks_per_tick kd = HW_TICKS_PER_TICK kd"

subsection \<open>Setting the clock\<close>

definition time_init_ticks :: "psp_tick option \<Rightarrow> u32 \<Rightarrow> u32 \<times> psp_tick option" where
  "time_init_ticks tick ticks =
     (case tick of
        None \<Rightarrow> (MQX_INVALID_PARAMETER, None)
      | Some t \<Rightarrow> (MQX_OK, Some (if ticks \<noteq> 0 then PSP_ADD_TICKS_TO_TICK_STRUCT zero_tick_struct ticks (t\<lparr>HW_TICKS := 0\<rparr>)
                                else zero_tick_struct)))"

definition MQX_NORMALIZE_TIME_STRUCT :: "time_struct \<Rightarrow> time_struct" where
  "MQX_NORMALIZE_TIME_STRUCT ts =
     (if MILLISECONDS ts \<ge> 1000
      then \<lparr>SECONDS = SECONDS ts + MILLISECONDS ts div 1000, MILLISECONDS = MILLISECONDS ts mod 1000\<rparr>
      else ts)"

definition time_set_ticks :: "psp_tick \<Rightarrow> kernel \<Rightarrow> kernel" where
  "time_set_ticks ticks k =
     (let k1 = INT_DISABLE k
      in INT_ENABLE (k1\<lparr>OBJ := (OBJ k1)\<lparr>TIME_OFFSET := psp_subtract_ticks k1 ticks (TIME k1)\<rparr>\<rparr>))"

text \<open>\<^verbatim>\<open>_time_set\<close> also normalises the caller's structure.\<close>

definition time_set :: "time_struct \<Rightarrow> kernel \<Rightarrow> time_struct \<times> kernel" where
  "time_set ts k =
     (let ts1 = MQX_NORMALIZE_TIME_STRUCT ts; ticks = psp_time_to_ticks k ts1; k1 = INT_DISABLE k
      in (ts1, INT_ENABLE (k1\<lparr>OBJ := (OBJ k1)\<lparr>TIME_OFFSET := psp_subtract_ticks k1 ticks (TIME k1)\<rparr>\<rparr>)))"

definition time_set_resolution :: "u32 \<Rightarrow> kernel \<Rightarrow> u32 \<times> kernel" where
  "time_set_resolution resolution k =
     (if resolution = 0 \<or> resolution > 1000 then (MQX_INVALID_PARAMETER, k)
      else (MQX_OK, k\<lparr>TICKS_PER_SECOND := 1000 div resolution, HW_TICKS_PER_TICK := resolution * 1000\<rparr>))"

definition time_set_ticks_per_sec :: "u32 \<Rightarrow> kernel \<Rightarrow> kernel" where
  "time_set_ticks_per_sec ticks_per_sec k = k\<lparr>TICKS_PER_SECOND := ticks_per_sec\<rparr>"

definition time_set_hwticks_per_tick :: "u32 \<Rightarrow> kernel \<Rightarrow> kernel" where
  "time_set_hwticks_per_tick new_val k = k\<lparr>HW_TICKS_PER_TICK := new_val\<rparr>"

definition time_dequeue_td :: "addr \<Rightarrow> kernel \<Rightarrow> kernel" where
  "time_dequeue_td t k = (if t = NULL then k else INT_ENABLE (TIME_DEQUEUE t (INT_DISABLE k)))"

subsection \<open>Conversions with checks\<close>

definition time_to_ticks :: "'a clock_scheme \<Rightarrow> time_struct option \<Rightarrow> psp_tick option \<Rightarrow> bool \<times> psp_tick option" where
  "time_to_ticks kd ts tick =
     (case (ts, tick) of
        (Some t, Some _) \<Rightarrow>
          if SECONDS t > 4102444799 \<or> MILLISECONDS t > 999 then (False, tick) else (True, Some (psp_time_to_ticks kd t))
      | _ \<Rightarrow> (False, tick))"

definition ticks_to_time :: "'a clock_scheme \<Rightarrow> psp_tick option \<Rightarrow> time_struct option \<Rightarrow> bool \<times> time_struct option" where
  "ticks_to_time kd tick ts =
     (case (tick, ts) of
        (Some t, Some _) \<Rightarrow> map_prod id Some (psp_ticks_to_time kd t)
      | _ \<Rightarrow> (False, ts))"

subsection \<open>The time of day\<close>

text \<open>Adding a difference to a time that has advanced by \<open>n\<close> ticks since.\<close>

lemma add_subtract_advanced:
  assumes "tick_normal kd a" "tick_normal kd b"
  shows "psp_add_ticks kd (b\<lparr>TICKS := TICKS b + n\<rparr>) (psp_subtract_ticks kd a b) = a\<lparr>TICKS := TICKS a + n\<rparr>"
proof (cases "HW_TICKS a < HW_TICKS b")
  case True
  then have "HW_TICKS b - HW_TICKS a \<le> HW_TICKS b" by (intro word_sub_le) simp
  then show ?thesis using True by (simp add: psp_add_ticks_def psp_subtract_ticks_def Let_def)
next
  case False
  let ?h = "HW_TICKS_PER_TICK kd"
  have ha: "HW_TICKS b \<le> HW_TICKS a" "HW_TICKS a < ?h" using False assms by (simp_all add: tick_normal_def)
  then have "unat (HW_TICKS a - HW_TICKS b) = unat (HW_TICKS a) - unat (HW_TICKS b)" by (simp add: unat_sub)
  moreover have le: "HW_TICKS a - HW_TICKS b \<le> ?h" using ha by (meson order_le_less_trans less_imp_le word_sub_le)
  ultimately have "unat (?h - (HW_TICKS a - HW_TICKS b)) = unat ?h - (unat (HW_TICKS a) - unat (HW_TICKS b))"
    by (simp add: unat_sub)
  then have "\<not> ?h - (HW_TICKS a - HW_TICKS b) \<le> HW_TICKS b"
    using ha by (simp add: word_le_nat_alt word_less_nat_alt)
  then show ?thesis using False by (simp add: psp_add_ticks_def psp_subtract_ticks_def Let_def)
qed

lemma ticks_normalize_id: "tick_normal kd t \<Longrightarrow> psp_normalize_ticks kd t = t"
  by (simp add: tick_normal_def psp_normalize_ticks_def)

lemma raw_time_same: "hw \<in> {None, Some (HW_TICKS (TIME k))} \<Longrightarrow> raw_time hw k = TIME k"
  by (auto simp: raw_time_def)

lemma clock_set_ticks [simp]:
  "TIME (time_set_ticks t k) = TIME k" "TICKS_PER_SECOND (time_set_ticks t k) = TICKS_PER_SECOND k"
  "HW_TICKS_PER_TICK (time_set_ticks t k) = HW_TICKS_PER_TICK k"
  "TIME_OFFSET (OBJ (time_set_ticks t k)) = psp_subtract_ticks k t (TIME k)"
  by (simp_all add: time_set_ticks_def Let_def INT_DISABLE_def INT_ENABLE_def upd_td_def psp_subtract_ticks_def)

text \<open>A time as a number of hardware ticks; the tick counter wraps after \<open>clock_period\<close> of them.\<close>

definition hwint :: "'a clock_scheme \<Rightarrow> psp_tick \<Rightarrow> int" where
  "hwint kd t = uint (TICKS t) * uint (HW_TICKS_PER_TICK kd) + uint (HW_TICKS t)"

abbreviation (input) clock_period :: "'a clock_scheme \<Rightarrow> int" where
  "clock_period kd \<equiv> 2 ^ 64 * uint (HW_TICKS_PER_TICK kd)"

lemma hwint_wrap:
  assumes "uint (TICKS r) = x mod 2 ^ 64" "x * uint (HW_TICKS_PER_TICK kd) + uint (HW_TICKS r) = v"
  shows "hwint kd r mod clock_period kd = v mod clock_period kd"
proof -
  let ?p = "uint (HW_TICKS_PER_TICK kd)"
  have "x mod 2 ^ 64 * ?p = x * ?p mod clock_period kd" by (rule mod_mult_mult2 [symmetric])
  then have "hwint kd r mod clock_period kd = (x * ?p mod clock_period kd + uint (HW_TICKS r)) mod clock_period kd"
    unfolding hwint_def assms(1) by (simp only:)
  then show ?thesis unfolding mod_add_left_eq assms(2) .
qed

lemma hwint_add:
  assumes "tick_normal kd b"
  shows "hwint kd (psp_add_ticks kd a b) mod clock_period kd = (hwint kd a + hwint kd b) mod clock_period kd"
proof -
  let ?h = "HW_TICKS_PER_TICK kd" and ?T = "uint (TICKS a) + uint (TICKS b)"
  have b: "uint (HW_TICKS b) < uint ?h" using assms by (simp add: tick_normal_def word_less_def)
  then have d: "uint (?h - HW_TICKS b) = uint ?h - uint (HW_TICKS b)" by (simp add: uint_sub_if')
  show ?thesis
  proof (cases "?h - HW_TICKS b \<le> HW_TICKS a")
    case True
    have "uint (HW_TICKS a - (?h - HW_TICKS b)) = uint (HW_TICKS a) - uint (?h - HW_TICKS b)"
      using True by (simp add: uint_sub_if' word_le_def)
    moreover have "HW_TICKS a + (HW_TICKS b - ?h) = HW_TICKS a - (?h - HW_TICKS b)" by simp
    ultimately have h: "uint (HW_TICKS a + (HW_TICKS b - ?h)) = uint (HW_TICKS a) + uint (HW_TICKS b) - uint ?h"
      by (simp only: d)
    have "uint (TICKS a + TICKS b + 1) = (?T + 1) mod 2 ^ 64" by (simp add: uint_word_ariths mod_add_left_eq)
    then show ?thesis using True h
      by (intro hwint_wrap [where x = "?T + 1"]) (simp_all add: psp_add_ticks_def Let_def hwint_def distrib_right)
  next
    case False
    then have "uint (HW_TICKS a) + uint (HW_TICKS b) < uint ?h" using d by (simp add: word_le_def)
    then have h: "uint (HW_TICKS a + HW_TICKS b) = uint (HW_TICKS a) + uint (HW_TICKS b)"
      using uint_bounded [of ?h] uint_add_lem [of "HW_TICKS a" "HW_TICKS b"] by simp
    have "uint (TICKS a + TICKS b) = ?T mod 2 ^ 64" by (simp add: uint_word_ariths)
    then show ?thesis using False h
      by (intro hwint_wrap [where x = ?T]) (simp_all add: psp_add_ticks_def Let_def hwint_def distrib_right)
  qed
qed

lemma hwint_subtract:
  assumes "tick_normal kd a" "tick_normal kd b"
  shows "hwint kd (psp_subtract_ticks kd a b) mod clock_period kd = (hwint kd a - hwint kd b) mod clock_period kd"
    "tick_normal kd (psp_subtract_ticks kd a b)"
proof -
  let ?h = "HW_TICKS_PER_TICK kd" and ?T = "uint (TICKS a) - uint (TICKS b)" and ?s = "psp_subtract_ticks kd a b"
  have n: "uint (HW_TICKS a) < uint ?h" "uint (HW_TICKS b) < uint ?h" "0 \<le> uint (HW_TICKS a)" "0 \<le> uint (HW_TICKS b)"
    using assms by (simp_all add: tick_normal_def word_less_def)
  have "hwint kd ?s mod clock_period kd = (hwint kd a - hwint kd b) mod clock_period kd \<and> tick_normal kd ?s"
  proof (cases "HW_TICKS a < HW_TICKS b")
    case True
    then have l: "uint (HW_TICKS a) < uint (HW_TICKS b)" by (simp add: word_less_def)
    then have s: "uint (HW_TICKS b - HW_TICKS a) = uint (HW_TICKS b) - uint (HW_TICKS a)" by (simp add: uint_sub_if')
    then have "HW_TICKS b - HW_TICKS a \<le> ?h" using n(2,3) unfolding word_le_def by linarith
    then have "uint (?h - (HW_TICKS b - HW_TICKS a)) = uint ?h - uint (HW_TICKS b - HW_TICKS a)" by (simp only: uint_sub_if' word_le_def if_True)
    moreover have "HW_TICKS a + ?h - HW_TICKS b = ?h - (HW_TICKS b - HW_TICKS a)" by simp
    ultimately have h: "uint (HW_TICKS a + ?h - HW_TICKS b) = uint ?h - (uint (HW_TICKS b) - uint (HW_TICKS a))"
      by (simp only: s)
    have t: "uint (TICKS a - TICKS b - 1) = (?T - 1) mod 2 ^ 64" by (simp add: uint_word_ariths mod_diff_left_eq)
    have "hwint kd ?s mod clock_period kd = (hwint kd a - hwint kd b) mod clock_period kd"
      by (rule hwint_wrap [where x = "?T - 1"])
        (use True t h in \<open>simp_all add: psp_subtract_ticks_def Let_def hwint_def left_diff_distrib\<close>)
    moreover have "tick_normal kd ?s" unfolding tick_normal_def word_less_def
      using True h l by (simp add: psp_subtract_ticks_def Let_def)
    ultimately show ?thesis ..
  next
    case False
    then have h: "uint (HW_TICKS a - HW_TICKS b) = uint (HW_TICKS a) - uint (HW_TICKS b)"
      by (simp add: uint_sub_if' word_less_def)
    have t: "uint (TICKS a - TICKS b) = ?T mod 2 ^ 64" by (simp add: uint_word_ariths)
    have "hwint kd ?s mod clock_period kd = (hwint kd a - hwint kd b) mod clock_period kd"
      by (rule hwint_wrap [where x = ?T])
        (use False t h in \<open>simp_all add: psp_subtract_ticks_def Let_def hwint_def left_diff_distrib\<close>)
    moreover have "uint (HW_TICKS ?s) = uint (HW_TICKS a) - uint (HW_TICKS b)"
      using False h by (simp add: psp_subtract_ticks_def Let_def)
    then have "tick_normal kd ?s" unfolding tick_normal_def word_less_def using n by linarith
    ultimately show ?thesis ..
  qed
  then show "hwint kd ?s mod clock_period kd = (hwint kd a - hwint kd b) mod clock_period kd" "tick_normal kd ?s" by blast+
qed

lemma hwint_normalize: "hwint kd (psp_normalize_ticks kd t) mod clock_period kd = hwint kd t mod clock_period kd"
proof (cases "HW_TICKS_PER_TICK kd \<le> HW_TICKS t")
  case True
  let ?h = "HW_TICKS_PER_TICK kd" and ?w = "HW_TICKS t"
  have "?w - ?w div ?h * ?h = ?w mod ?h" by (simp add: minus_div_mult_eq_mod)
  then have m: "uint (?w - ?w div ?h * ?h) = uint ?w mod uint ?h" by (simp only: uint_mod)
  have t: "uint (TICKS t + ucast (?w div ?h)) = (uint (TICKS t) + uint ?w div uint ?h) mod 2 ^ 64"
    by (simp add: uint_word_ariths uint_div uint_up_ucast is_up)
  have d: "uint ?w div uint ?h * uint ?h + uint ?w mod uint ?h = uint ?w" by simp
  show ?thesis
    by (rule hwint_wrap [where x = "uint (TICKS t) + uint ?w div uint ?h"])
      (use True t m d in \<open>simp_all add: psp_normalize_ticks_def Let_def hwint_def distrib_right del: div_mult_mod_eq\<close>)
qed (simp add: psp_normalize_ticks_def)

lemma psp_clock_cong:
  assumes "HW_TICKS_PER_TICK k' = HW_TICKS_PER_TICK k"
  shows "psp_add_ticks k' = psp_add_ticks k" "psp_normalize_ticks k' = psp_normalize_ticks k"
  using assms by (simp_all add: fun_eq_iff psp_add_ticks_def psp_normalize_ticks_def)

text \<open>Timer interrupts leave the offset alone.\<close>

lemma period_step_offset: "TIME_OFFSET (period_step p ob) = TIME_OFFSET ob"
proof -
  have u: "TIME_OFFSET (upd_period p f ob) = TIME_OFFSET ob" for f ob by (simp add: upd_period_def)
  have "TIME_OFFSET (timer_loop p ts ob) = TIME_OFFSET ob" for ts
    by (induction ts arbitrary: ob) (simp_all add: Let_def u)
  then show ?thesis by (simp add: period_step_def Let_def u)
qed

lemma timer_interrupts_offset:
  "TIME_OFFSET (OBJ (timer_interrupts hws k)) = TIME_OFFSET (OBJ k)"
  "HW_TICKS_PER_TICK (timer_interrupts hws k) = HW_TICKS_PER_TICK k"
proof -
  have f: "TIME_OFFSET (fold period_step ps ob) = TIME_OFFSET ob" for ps ob
    by (induction ps arbitrary: ob) (simp_all add: period_step_offset)
  have "TIME_OFFSET ((lwtimer_isr_internal ^^ n) ob) = TIME_OFFSET ob" for n ob
    by (induction n) (simp_all add: lwtimer_isr_internal_def f split: option.splits)
  then show "TIME_OFFSET (OBJ (timer_interrupts hws k)) = TIME_OFFSET (OBJ k)" by (simp add: OBJ_timer_interrupts)
  show "HW_TICKS_PER_TICK (timer_interrupts hws k) = HW_TICKS_PER_TICK k"
    by (induction hws rule: rev_induct) (simp_all add: timer_interrupt_frame)
qed

text \<open>Without a hardware tick function an interrupt adds one tick.\<close>

lemma timer_interrupts_plain:
  assumes "tick_normal k (TIME k)"
  shows "TIME (timer_interrupts (replicate n None) k) = (TIME k)\<lparr>TICKS := TICKS (TIME k) + of_nat n\<rparr>"
proof (induction n)
  case (Suc n)
  have r: "replicate (Suc n) None = replicate n None @ [None]" by (simp add: replicate_append_same)
  show ?case unfolding r using Suc assms timer_interrupts_offset(2) [of "replicate n None" k]
    by (simp add: timer_interrupt_frame psp_normalize_ticks_def tick_normal_def)
qed simp

text \<open>
  C38 (roundtrip). The time of day that \<^verbatim>\<open>_time_set_ticks\<close> sets runs on with the elapsed time. After any run of timer
  interrupts, whatever the hardware tick counter returns to them and to the reader, \<^verbatim>\<open>_time_get_ticks\<close> gives a
  normalised time that counts, in hardware ticks and up to the wrap of the 64-bit tick counter, the time set
  plus the elapsed time that \<^verbatim>\<open>_time_get_elapsed_ticks\<close> gives at that moment minus the kernel's time at the
  setting, which is that of the last tick. Without a hardware tick function that is the time set plus one tick for
  every interrupt. Setting it changes neither the elapsed time nor the timeout queue. The time set and the
  kernel's time are normalised.
\<close>

theorem time_of_day_runs:
  fixes hws :: "u32 option list"
  assumes "tick_normal k t" "tick_normal k (TIME k)"
  defines "k1 \<equiv> timer_interrupts hws (time_set_ticks t k)"
  shows "tick_normal k (time_get_ticks hw k1)
    \<and> hwint k (time_get_ticks hw k1) mod clock_period k =
        (hwint k t + hwint k (time_get_elapsed_ticks hw k1) - hwint k (TIME k)) mod clock_period k
    \<and> time_get_ticks None (timer_interrupts (replicate n None) (time_set_ticks t k)) = t\<lparr>TICKS := TICKS t + of_nat n\<rparr>
    \<and> time_get_elapsed_ticks hw (time_set_ticks t k) = time_get_elapsed_ticks hw k
    \<and> TIMEOUT_QUEUE (time_set_ticks t k) = TIMEOUT_QUEUE k"
proof (intro conjI)
  let ?d = "psp_subtract_ticks k t (TIME k)"
  have p: "HW_TICKS_PER_TICK k \<noteq> 0" using assms(1) by (auto simp: tick_normal_def)
  have q: "HW_TICKS_PER_TICK (timer_interrupts l (time_set_ticks t k)) = HW_TICKS_PER_TICK k"
    "TIME_OFFSET (OBJ (timer_interrupts l (time_set_ticks t k))) = ?d" for l
    by (simp_all add: timer_interrupts_offset)
  note c = psp_clock_cong [OF q(1)]
  have g: "time_get_ticks hw (timer_interrupts l (time_set_ticks t k)) =
      psp_normalize_ticks k (psp_add_ticks k (raw_time hw (timer_interrupts l (time_set_ticks t k))) ?d)" for l hw
    by (simp add: time_get_ticks_def c q)
  show "tick_normal k (time_get_ticks hw k1)" unfolding k1_def g by (rule psp_normalize_normal [OF p])
  have "hwint k (time_get_ticks hw k1) mod clock_period k = (hwint k (raw_time hw k1) + hwint k ?d) mod clock_period k"
    unfolding k1_def g hwint_normalize by (rule hwint_add [OF hwint_subtract(2) [OF assms(1,2)]])
  also have "\<dots> = (hwint k (time_get_elapsed_ticks hw k1) + (hwint k t - hwint k (TIME k))) mod clock_period k"
    unfolding time_get_elapsed_ticks_def k1_def c
    by (rule mod_add_cong [OF hwint_normalize [symmetric] hwint_subtract(1) [OF assms(1,2)]])
  finally show "hwint k (time_get_ticks hw k1) mod clock_period k =
      (hwint k t + hwint k (time_get_elapsed_ticks hw k1) - hwint k (TIME k)) mod clock_period k" by (simp add: algebra_simps)
  have "TIME (timer_interrupts (replicate n None) (time_set_ticks t k)) = (TIME k)\<lparr>TICKS := TICKS (TIME k) + of_nat n\<rparr>"
    using timer_interrupts_plain [of "time_set_ticks t k" n] assms(2) by (simp add: tick_normal_def)
  then show "time_get_ticks None (timer_interrupts (replicate n None) (time_set_ticks t k)) = t\<lparr>TICKS := TICKS t + of_nat n\<rparr>"
    using add_subtract_advanced [OF assms(1,2), of "of_nat n"] assms(1)
    by (simp add: g raw_time_def ticks_normalize_id tick_normal_def)
  show "time_get_elapsed_ticks hw (time_set_ticks t k) = time_get_elapsed_ticks hw k"
    unfolding time_get_elapsed_ticks_def raw_time_def by (subst psp_clock_cong(2) [of _ k]) (cases hw; simp)+
  show "TIMEOUT_QUEUE (time_set_ticks t k) = TIMEOUT_QUEUE k"
    by (simp add: time_set_ticks_def Let_def INT_DISABLE_def INT_ENABLE_def upd_td_def)
qed

theorem time_of_day_runs_witness:
  "time_get_ticks None (timer_interrupts [None, None] (time_set_ticks \<lparr>TICKS = 1, HW_TICKS = 999\<rparr> demo)) = \<lparr>TICKS = 3, HW_TICKS = 999\<rparr>
   \<and> tick_normal demo (time_get_ticks (Some 2500) (timer_interrupts [Some 40, Some 1700] (time_set_ticks \<lparr>TICKS = 1, HW_TICKS = 999\<rparr> demo)))"
proof -
  have n: "tick_normal demo \<lparr>TICKS = 1, HW_TICKS = 999\<rparr>" "tick_normal demo (TIME demo)" by (simp_all add: demo_def tick_normal_def)
  have r: "replicate 2 None = [None, None :: u32 option]" by (simp add: numeral_2_eq_2)
  show ?thesis using time_of_day_runs [OF n, of "Some 2500" "[Some 40, Some 1700]" 2] by (simp add: r)
qed

subsection \<open>Parts of a tick\<close>

text \<open>The nanoseconds since the last tick are exact; the microseconds are not if the 32-bit product overflows.\<close>

lemma part_of_whole: "a < c \<Longrightarrow> a * b div c \<le> (b :: nat)"
  using div_le_mono [of "a * b" "c * b" c] by simp

lemma time_get_nanoseconds_exact:
  assumes "h < HW_TICKS_PER_TICK kd"
  shows "unat (time_get_nanoseconds (Some h) kd)
    = unat h * (1000000000 div unat (TICKS_PER_SECOND kd)) div unat (HW_TICKS_PER_TICK kd)"
proof -
  let ?p = "1000000000 div TICKS_PER_SECOND kd" and ?H = "unat (HW_TICKS_PER_TICK kd)"
  have p: "unat ?p = 1000000000 div unat (TICKS_PER_SECOND kd)" by (simp add: unat_div)
  have "unat h * unat ?p div ?H \<le> unat ?p" using assms by (intro part_of_whole) (simp add: word_less_nat_alt)
  then have "unat h * unat ?p div ?H < 2 ^ 32" using unat_u32_bound [of ?p] by simp
  then show ?thesis using p by (simp add: time_get_nanoseconds_def word_nat unat_div)
qed

lemma time_get_microseconds_exact:
  assumes "h < HW_TICKS_PER_TICK kd" "unat h * (1000000 div unat (TICKS_PER_SECOND kd)) < 2 ^ 32" "15 < TICKS_PER_SECOND kd"
  shows "unat (time_get_microseconds (Some h) kd)
    = unat h * (1000000 div unat (TICKS_PER_SECOND kd)) div unat (HW_TICKS_PER_TICK kd)"
proof -
  let ?p = "1000000 div TICKS_PER_SECOND kd" and ?H = "unat (HW_TICKS_PER_TICK kd)"
  have p: "unat ?p = 1000000 div unat (TICKS_PER_SECOND kd)" by (simp add: unat_div)
  have m: "unat (h * ?p) = unat h * unat ?p" using assms(2) p by (intro unat_mult_small) simp
  have "16 \<le> unat (TICKS_PER_SECOND kd)" using assms(3) by (simp add: word_less_nat_alt)
  then have "unat ?p \<le> 62500" unfolding p using div_le_mono2 [of 16 "unat (TICKS_PER_SECOND kd)" 1000000] by simp
  moreover have "unat h * unat ?p div ?H \<le> unat ?p" using assms by (intro part_of_whole) (simp add: word_less_nat_alt)
  ultimately have "unat h * unat ?p div ?H < 2 ^ 16" by simp
  then show ?thesis using p by (simp add: time_get_microseconds_def unat_div m unsigned_ucast_eq take_bit_nat_eq_self)
qed

lemma time_get_microseconds_overflow:
  defines "kd \<equiv> \<lparr>TICKS_PER_SECOND = 100, HW_TICKS_PER_TICK = 1200000\<rparr>"
  shows "time_get_microseconds (Some 600000) kd = 1420" and "time_get_nanoseconds (Some 600000) kd = 5000000"
  by (simp_all add: kd_def time_get_microseconds_def time_get_nanoseconds_def)

end
