(* ===== verification/Logs.thy ===== *)
theory Logs
  imports Time_Services
begin

unbundle bit_operations_syntax

text \<open>
  Logs (\<^verbatim>\<open>kernel/log.c\<close>). A log is a ring of words that holds entries of different lengths; the first word of an
  entry is its length, the next are a sequence number, the seconds, and milli- and microseconds in one
  word, then the data. Pointers into the ring are indices, sizes are natural numbers, and the entry handed
  to a reader is the list of its words. The answers of the allocator and the hardware ticks are arguments;
  so is the initial content of allocated memory. The theorems show that a log is a queue of entries, of which
  writing appends one, at the expense of the oldest ones if it may overwrite.
\<close>

abbreviation (input) LOG_VALID :: u32 where "LOG_VALID \<equiv> 0x6C6F6720"
abbreviation (input) LOG_ENABLED :: u32 where "LOG_ENABLED \<equiv> 0x1000"
abbreviation (input) LOG_OVERWRITE :: u32 where "LOG_OVERWRITE \<equiv> 1"
abbreviation (input) LOG_MAXIMUM_NUMBER :: u32 where "LOG_MAXIMUM_NUMBER \<equiv> 16"
abbreviation (input) LOG_READ_NEWEST :: u32 where "LOG_READ_NEWEST \<equiv> 1"
abbreviation (input) LOG_READ_OLDEST :: u32 where "LOG_READ_OLDEST \<equiv> 2"
abbreviation (input) LOG_READ_NEXT :: u32 where "LOG_READ_NEXT \<equiv> 3"
abbreviation (input) LOG_READ_OLDEST_AND_DELETE :: u32 where "LOG_READ_OLDEST_AND_DELETE \<equiv> 4"
abbreviation (input) LOG_INVALID :: u32 where "LOG_INVALID \<equiv> 0x500"
abbreviation (input) LOG_EXISTS :: u32 where "LOG_EXISTS \<equiv> 0x501"
abbreviation (input) LOG_DOES_NOT_EXIST :: u32 where "LOG_DOES_NOT_EXIST \<equiv> 0x502"
abbreviation (input) LOG_FULL :: u32 where "LOG_FULL \<equiv> 0x503"
abbreviation (input) LOG_ENTRY_NOT_AVAILABLE :: u32 where "LOG_ENTRY_NOT_AVAILABLE \<equiv> 0x504"
abbreviation (input) LOG_DISABLED :: u32 where "LOG_DISABLED \<equiv> 0x505"
abbreviation (input) LOG_INVALID_READ_TYPE :: u32 where "LOG_INVALID_READ_TYPE \<equiv> 0x506"
abbreviation (input) LOG_INVALID_SIZE :: u32 where "LOG_INVALID_SIZE \<equiv> 0x507"
abbreviation (input) MQX_INVALID_POINTER :: u32 where "MQX_INVALID_POINTER \<equiv> 0x01"
abbreviation (input) MQX_OUT_OF_MEMORY :: u32 where "MQX_OUT_OF_MEMORY \<equiv> 0x04"
abbreviation (input) MQX_COMPONENT_DOES_NOT_EXIST :: u32 where "MQX_COMPONENT_DOES_NOT_EXIST \<equiv> 0x18"
abbreviation (input) MQX_INVALID_COMPONENT_HANDLE :: u32 where "MQX_INVALID_COMPONENT_HANDLE \<equiv> 0x19"
abbreviation (input) MQX_INVALID_COMPONENT_BASE :: u32 where "MQX_INVALID_COMPONENT_BASE \<equiv> 0x1A"

text \<open>The size of \<^verbatim>\<open>LOG_ENTRY_STRUCT\<close> in words.\<close>

abbreviation (input) ENTRY_WORDS :: nat where "ENTRY_WORDS \<equiv> 4"

definition log_at :: "u32 \<Rightarrow> kernel \<Rightarrow> log_header option" where
  "log_at n k = LOGS (OBJ k) (unat n)"

definition set_log :: "u32 \<Rightarrow> log_header option \<Rightarrow> kernel \<Rightarrow> kernel" where
  "set_log n l k = k\<lparr>OBJ := (OBJ k)\<lparr>LOGS := (LOGS (OBJ k))(unat n := l)\<rparr>\<rparr>"

subsection \<open>Creation, destruction and control\<close>

definition log_create_component :: "bool \<Rightarrow> kernel \<Rightarrow> u32 \<times> kernel" where
  "log_create_component allocated k =
     (if \<not> allocated then (MQX_OUT_OF_MEMORY, k)
      else let k1 = INT_DISABLE k
           in if KERNEL_LOG (OBJ k1) \<noteq> None then (MQX_OK, INT_ENABLE k1)
              else (MQX_OK, INT_ENABLE (k1\<lparr>OBJ := (OBJ k1)\<lparr>KERNEL_LOG := Some LOG_VALID, LOGS := (\<lambda>_. None)\<rparr>\<rparr>)))"

definition new_log :: "nat \<Rightarrow> u32 \<Rightarrow> (nat \<Rightarrow> u32) \<Rightarrow> log_header" where
  "new_log max_size flags mem = \<lparr>LOG_FLAGS = flags OR LOG_ENABLED, LOG_NUMBER = 1, LOG_WRITE = 0, LOG_READ = 0, LAST_LOG = 0,
     LOG_NEXT = None, LOG_SIZE = 0, LOG_MAX = max_size, LOG_DATA = mem\<rparr>"

definition log_create :: "bool \<Rightarrow> (nat \<Rightarrow> u32) option \<Rightarrow> u32 \<Rightarrow> u32 \<Rightarrow> u32 \<Rightarrow> kernel \<Rightarrow> u32 \<times> kernel" where
  "log_create component_allocated allocated log_number max_size flags k =
     (if log_number \<ge> LOG_MAXIMUM_NUMBER then (LOG_INVALID, k)
      else let (result, k1) = (if KERNEL_LOG (OBJ k) = None then log_create_component component_allocated k else (MQX_OK, k))
           in case KERNEL_LOG (OBJ k1) of
                None \<Rightarrow> (result, k1)
              | Some valid \<Rightarrow>
                  if valid \<noteq> LOG_VALID then (MQX_INVALID_COMPONENT_BASE, k1)
                  else case allocated of
                         None \<Rightarrow> (MQX_OUT_OF_MEMORY, k1)
                       | Some mem \<Rightarrow>
                           let k2 = INT_DISABLE k1
                           in if log_at log_number k2 \<noteq> None then (LOG_EXISTS, INT_ENABLE k2)
                              else (MQX_OK, INT_ENABLE (set_log log_number (Some (new_log (unat max_size) flags mem)) k2)))"

text \<open>The checks that \<^verbatim>\<open>_log_destroy\<close>, \<^verbatim>\<open>_log_disable\<close>, \<^verbatim>\<open>_log_enable\<close> and \<^verbatim>\<open>_log_reset\<close> share, around a change of the log.\<close>

definition change_log :: "(log_header \<Rightarrow> log_header option) \<Rightarrow> u32 \<Rightarrow> kernel \<Rightarrow> u32 \<times> kernel" where
  "change_log f log_number k =
     (if log_number \<ge> LOG_MAXIMUM_NUMBER then (LOG_INVALID, k)
      else case KERNEL_LOG (OBJ k) of
             None \<Rightarrow> (MQX_COMPONENT_DOES_NOT_EXIST, k)
           | Some valid \<Rightarrow>
               if valid \<noteq> LOG_VALID then (MQX_INVALID_COMPONENT_HANDLE, k)
               else let k1 = INT_DISABLE k
                    in case log_at log_number k1 of
                         None \<Rightarrow> (LOG_DOES_NOT_EXIST, INT_ENABLE k1)
                       | Some l \<Rightarrow> (MQX_OK, INT_ENABLE (set_log log_number (f l) k1)))"

definition log_destroy :: "u32 \<Rightarrow> kernel \<Rightarrow> u32 \<times> kernel" where
  "log_destroy log_number k = change_log (\<lambda>_. None) log_number k"

definition log_disable :: "u32 \<Rightarrow> kernel \<Rightarrow> u32 \<times> kernel" where
  "log_disable log_number k = change_log (\<lambda>l. Some (l\<lparr>LOG_FLAGS := LOG_FLAGS l AND NOT LOG_ENABLED\<rparr>)) log_number k"

definition log_enable :: "u32 \<Rightarrow> kernel \<Rightarrow> u32 \<times> kernel" where
  "log_enable log_number k = change_log (\<lambda>l. Some (l\<lparr>LOG_FLAGS := LOG_FLAGS l OR LOG_ENABLED\<rparr>)) log_number k"

definition reset_log :: "log_header \<Rightarrow> log_header" where
  "reset_log l = l\<lparr>LOG_SIZE := 0, LOG_NUMBER := 1, LOG_WRITE := 0, LOG_READ := 0, LAST_LOG := 0\<rparr>"

definition log_reset :: "u32 \<Rightarrow> kernel \<Rightarrow> u32 \<times> kernel" where
  "log_reset log_number k = change_log (\<lambda>l. Some (reset_log l)) log_number k"

subsection \<open>Writing\<close>

definition ring_step :: "nat \<Rightarrow> nat \<Rightarrow> nat" where
  "ring_step m i = (if Suc i = m then 0 else Suc i)"

fun write_words :: "u32 list \<Rightarrow> nat \<Rightarrow> log_header \<Rightarrow> nat \<times> log_header" where
  "write_words [] i l = (i, l)"
| "write_words (w # ws) i l = write_words ws (ring_step (LOG_MAX l) i) (l\<lparr>LOG_DATA := (LOG_DATA l)(i := w)\<rparr>)"

text \<open>A pointer advanced by the length of an entry.\<close>

definition ring_add :: "nat \<Rightarrow> nat \<Rightarrow> nat \<Rightarrow> nat" where
  "ring_add m i n = (if i + n \<ge> m then i + n - m else i + n)"

text \<open>The loop that drops the oldest entries until there is room; it does not end if it meets a length of zero.\<close>

partial_function (option) evict :: "nat \<Rightarrow> log_header \<Rightarrow> log_header option" where
  "evict sz l =
     (if LOG_SIZE l + sz > LOG_MAX l
      then let old_size = unat (LOG_DATA l (LOG_READ l)); data = ring_add (LOG_MAX l) (LOG_READ l) old_size
           in evict sz (l\<lparr>LOG_SIZE := LOG_SIZE l - old_size,
                LOG_NEXT := (if LOG_NEXT l = Some (LOG_READ l) then Some data else LOG_NEXT l), LOG_READ := data\<rparr>)
      else Some l)"

text \<open>\<open>stamp\<close> is the pair of time words.\<close>

definition put_entry :: "u32 \<times> u32 \<Rightarrow> u32 list \<Rightarrow> log_header \<Rightarrow> log_header" where
  "put_entry stamp params l =
     (let sz = ENTRY_WORDS + length params; data = LOG_WRITE l;
          (i, l1) = write_words (of_nat sz # LOG_NUMBER l # fst stamp # snd stamp # params) data
                      (l\<lparr>LOG_SIZE := LOG_SIZE l + sz, LAST_LOG := data, LOG_NUMBER := LOG_NUMBER l + 1\<rparr>)
      in l1\<lparr>LOG_WRITE := i\<rparr>)"

definition write_log :: "u32 \<times> u32 \<Rightarrow> u32 list \<Rightarrow> log_header \<Rightarrow> (u32 \<times> log_header) option" where
  "write_log stamp params l =
     (let sz = ENTRY_WORDS + length params
      in if LOG_SIZE l + sz > LOG_MAX l
         then if LOG_FLAGS l AND LOG_OVERWRITE \<noteq> 0
              then map_option (\<lambda>l1. (MQX_OK, put_entry stamp params l1)) (evict sz l)
              else Some (LOG_FULL, l)
         else Some (MQX_OK, put_entry stamp params l))"

text \<open>The time words: seconds of the time of day, and milliseconds and microseconds in the halves of a word.\<close>

definition log_stamp :: "u32 option \<Rightarrow> kernel \<Rightarrow> u32 \<times> u32" where
  "log_stamp hw k =
     (let us = (ucast (time_get_microseconds hw k) :: u32);
          time = snd (psp_ticks_to_time k (psp_add_ticks k (TIME k) (TIME_OFFSET (OBJ k))))
      in (SECONDS time, MILLISECONDS time OR push_bit 16 us))"

definition log_write :: "u32 option \<Rightarrow> u32 \<Rightarrow> u32 list \<Rightarrow> kernel \<Rightarrow> (u32 \<times> kernel) option" where
  "log_write hw log_number params k =
     (case KERNEL_LOG (OBJ k) of
        None \<Rightarrow> Some (MQX_COMPONENT_DOES_NOT_EXIST, k)
      | Some valid \<Rightarrow>
          if valid \<noteq> LOG_VALID then Some (MQX_INVALID_COMPONENT_HANDLE, k)
          else if log_number \<ge> LOG_MAXIMUM_NUMBER then Some (LOG_INVALID, k)
          else case log_at log_number k of
                 None \<Rightarrow> Some (LOG_DOES_NOT_EXIST, k)
               | Some l \<Rightarrow>
                   if LOG_FLAGS l AND LOG_ENABLED = 0 then Some (LOG_DISABLED, k)
                   else if ENTRY_WORDS + length params > LOG_MAX l then Some (LOG_FULL, k)
                   else let k1 = INT_DISABLE k
                        in map_option (\<lambda>(r, l1). (r, INT_ENABLE (set_log log_number (Some l1) k1)))
                             (write_log (log_stamp hw k1) params l))"

subsection \<open>Reading\<close>

fun read_words :: "nat \<Rightarrow> nat \<Rightarrow> log_header \<Rightarrow> u32 list" where
  "read_words 0 i l = []"
| "read_words (Suc n) i l = LOG_DATA l i # read_words n (ring_step (LOG_MAX l) i) l"

text \<open>\<^verbatim>\<open>MILLISECONDS\<close> and \<^verbatim>\<open>MICROSECONDS\<close> are the halves of the fourth word; whole milliseconds are moved from the second to
  the first.\<close>

definition carry_micro :: "u32 \<Rightarrow> u32" where
  "carry_micro w =
     (let ms = (ucast w :: u16); us = (ucast (drop_bit 16 w) :: u16)
      in if us > 1000 then ucast (ms + us div 1000) OR push_bit 16 (ucast (us - (us div 1000) * 1000)) else w)"

definition next_entry :: "nat \<Rightarrow> nat \<Rightarrow> log_header \<Rightarrow> nat" where
  "next_entry data sz l =
     (if LOG_READ l < LOG_WRITE l then if data + sz \<ge> LOG_WRITE l then LOG_READ l else data + sz
      else let p = ring_add (LOG_MAX l) data sz in if p = LOG_WRITE l then LOG_READ l else p)"

definition deliver :: "nat \<Rightarrow> u32 \<Rightarrow> log_header \<Rightarrow> u32 list" where
  "deliver data size_to_read l =
     (let sz = unat (LOG_DATA l data); n = min sz (unat (size_to_read + of_nat ENTRY_WORDS));
          ws = read_words n data l
      in ws[3 := carry_micro (ws ! 3)])"

definition read_log :: "u32 \<Rightarrow> u32 \<Rightarrow> log_header \<Rightarrow> (u32 \<times> u32 list option) \<times> log_header" where
  "read_log read_type size_to_read l =
     (if LOG_SIZE l = 0 then ((LOG_ENTRY_NOT_AVAILABLE, None), l)
      else let start = (if read_type = LOG_READ_OLDEST_AND_DELETE then Inr (LOG_READ l)
                        else if read_type = LOG_READ_NEXT then (case LOG_NEXT l of None \<Rightarrow> Inl LOG_ENTRY_NOT_AVAILABLE | Some p \<Rightarrow> Inr p)
                        else if read_type = LOG_READ_OLDEST then Inr (LOG_READ l)
                        else if read_type = LOG_READ_NEWEST then Inr (LAST_LOG l)
                        else Inl LOG_INVALID_READ_TYPE)
           in case start of
                Inl e \<Rightarrow> ((e, None), l)
              | Inr data \<Rightarrow>
                  let sz = unat (LOG_DATA l data); nxt = next_entry data sz l; entry = deliver data size_to_read l;
                      l1 = (if read_type = LOG_READ_OLDEST_AND_DELETE
                            then l\<lparr>LOG_READ := ring_add (LOG_MAX l) (LOG_READ l) sz, LOG_SIZE := LOG_SIZE l - sz\<rparr> else l)
                  in ((MQX_OK, Some entry),
                      l1\<lparr>LOG_NEXT := (if read_type = LOG_READ_NEXT \<or> read_type = LOG_READ_OLDEST then Some nxt else None)\<rparr>))"

definition log_read :: "u32 \<Rightarrow> u32 \<Rightarrow> u32 \<Rightarrow> bool \<Rightarrow> kernel \<Rightarrow> (u32 \<times> u32 list option) \<times> kernel" where
  "log_read log_number read_type size_to_read has_entry k =
     (if log_number \<ge> LOG_MAXIMUM_NUMBER then ((LOG_INVALID, None), k)
      else case KERNEL_LOG (OBJ k) of
             None \<Rightarrow> ((MQX_COMPONENT_DOES_NOT_EXIST, None), k)
           | Some valid \<Rightarrow>
               if \<not> has_entry then ((MQX_INVALID_POINTER, None), k)
               else if valid \<noteq> LOG_VALID then ((MQX_INVALID_COMPONENT_HANDLE, None), k)
               else let k1 = INT_DISABLE k
                    in case log_at log_number k1 of
                         None \<Rightarrow> ((LOG_DOES_NOT_EXIST, None), INT_ENABLE k1)
                       | Some l \<Rightarrow> let (r, l1) = read_log read_type size_to_read l
                                  in (r, INT_ENABLE (set_log log_number (Some l1) k1)))"

subsection \<open>The test\<close>

text \<open>The pointers of a log are inside its data area; the data area is where the indices point by construction.\<close>

definition log_pointers_ok :: "log_header \<Rightarrow> bool" where
  "log_pointers_ok l \<longleftrightarrow> LOG_WRITE l \<le> LOG_MAX l \<and> LOG_READ l \<le> LOG_MAX l \<and> LAST_LOG l \<le> LOG_MAX l
     \<and> (case LOG_NEXT l of None \<Rightarrow> True | Some p \<Rightarrow> p \<le> LOG_MAX l)"

definition log_test :: "kernel \<Rightarrow> u32 \<times> nat" where
  "log_test k =
     (case KERNEL_LOG (OBJ k) of
        None \<Rightarrow> (MQX_OK, 0)
      | Some valid \<Rightarrow>
          if valid \<noteq> LOG_VALID then (MQX_INVALID_COMPONENT_BASE, 0)
          else case filter (\<lambda>i. case LOGS (OBJ k) i of None \<Rightarrow> False | Some l \<Rightarrow> \<not> log_pointers_ok l) [0..<16] of
                 [] \<Rightarrow> (MQX_OK, 0)
               | i # _ \<Rightarrow> (LOG_INVALID, i))"

section \<open>Words in the ring\<close>

lemma ring_step_mod: "i < m \<Longrightarrow> ring_step m i = Suc i mod m"
  by (auto simp: ring_step_def)

lemma ring_add_mod: "i < m \<Longrightarrow> n \<le> m \<Longrightarrow> ring_add m i n = (i + n) mod m"
  by (auto simp: ring_add_def mod_if)

lemma ring_step_less [simp]: "i < m \<Longrightarrow> ring_step m i < m"
  by (auto simp: ring_step_def)

text \<open>The words of the ring from a position on.\<close>

definition ring :: "log_header \<Rightarrow> nat \<Rightarrow> nat \<Rightarrow> u32 list" where
  "ring l i n = map (\<lambda>j. LOG_DATA l ((i + j) mod LOG_MAX l)) [0..<n]"

lemma ring_simps [simp]: "length (ring l i n) = n" "ring l i 0 = []"
  by (simp_all add: ring_def)

lemma ring_nth: "j < n \<Longrightarrow> ring l i n ! j = LOG_DATA l ((i + j) mod LOG_MAX l)"
  by (simp add: ring_def)

lemma ring_add: "ring l i (a + b) = ring l i a @ ring l ((i + a) mod LOG_MAX l) b"
proof (rule nth_equalityI)
  fix j assume "j < length (ring l i (a + b))"
  then show "ring l i (a + b) ! j = (ring l i a @ ring l ((i + a) mod LOG_MAX l) b) ! j"
    by (cases "j < a") (auto simp: ring_nth nth_append mod_simps not_less le_iff_add ac_simps)
qed simp

lemma ring_split: "ring l i n = xs @ ys \<Longrightarrow> ring l i (length xs) = xs \<and> ring l ((i + length xs) mod LOG_MAX l) (length ys) = ys"
proof -
  assume eq: "ring l i n = xs @ ys"
  then have "n = length xs + length ys" by (metis length_append ring_simps(1))
  with eq ring_add [of l i "length xs" "length ys"] show ?thesis by simp
qed

lemma ring_mod [simp]: "ring l (i mod LOG_MAX l) n = ring l i n"
  by (simp add: ring_def mod_simps)

lemma read_words_ring: "i < LOG_MAX l \<Longrightarrow> read_words n i l = ring l i n"
proof (induction n arbitrary: i)
  case (Suc n)
  have "ring l i (Suc n) = ring l i 1 @ ring l (Suc i mod LOG_MAX l) n" using ring_add [of l i 1 n] by simp
  with Suc show ?case by (simp add: ring_step_mod) (simp add: ring_def)
qed simp

lemma write_words_frame:
  "LOG_FLAGS (snd (write_words ws i l)) = LOG_FLAGS l" "LOG_NUMBER (snd (write_words ws i l)) = LOG_NUMBER l"
  "LOG_READ (snd (write_words ws i l)) = LOG_READ l" "LAST_LOG (snd (write_words ws i l)) = LAST_LOG l"
  "LOG_NEXT (snd (write_words ws i l)) = LOG_NEXT l" "LOG_SIZE (snd (write_words ws i l)) = LOG_SIZE l"
  "LOG_MAX (snd (write_words ws i l)) = LOG_MAX l"
  by (induction ws i l rule: write_words.induct) simp_all

lemma write_words_next: "i < LOG_MAX l \<Longrightarrow> fst (write_words ws i l) = (i + length ws) mod LOG_MAX l"
  by (induction ws i l rule: write_words.induct) (simp_all add: ring_step_mod mod_simps)

lemma write_words_data:
  assumes "i < LOG_MAX l" "length ws \<le> LOG_MAX l" "j < LOG_MAX l"
  shows "LOG_DATA (snd (write_words ws i l)) ((i + j) mod LOG_MAX l)
           = (if j < length ws then ws ! j else LOG_DATA l ((i + j) mod LOG_MAX l))"
  using assms
proof (induction ws arbitrary: i j l)
  case (Cons w ws)
  let ?m = "LOG_MAX l" and ?l = "l\<lparr>LOG_DATA := (LOG_DATA l)(i := w)\<rparr>"
  have IH: "j < ?m \<Longrightarrow> LOG_DATA (snd (write_words ws (Suc i mod ?m) ?l)) ((Suc i mod ?m + j) mod ?m)
              = (if j < length ws then ws ! j else LOG_DATA ?l ((Suc i mod ?m + j) mod ?m))" for j
    using Cons.IH [of "Suc i mod ?m" ?l j] Cons.prems by simp
  show ?case
  proof (cases j)
    case 0
    have "(Suc i mod ?m + (?m - 1)) mod ?m = i" using Cons.prems by (cases "Suc i = ?m") auto
    moreover have "\<not> ?m - 1 < length ws" using Cons.prems by simp
    ultimately show ?thesis using IH [of "?m - 1"] Cons.prems 0 by (simp add: ring_step_mod)
  next
    case (Suc j')
    have e: "(Suc i mod ?m + j') mod ?m = (i + j) mod ?m" using Suc by (simp add: mod_simps)
    have "(i + j) mod ?m \<noteq> i" using Suc Cons.prems by (auto simp: mod_if)
    with IH [of j', unfolded e] Cons.prems Suc show ?thesis by (simp add: ring_step_mod)
  qed
qed simp

section \<open>A log is a queue of entries\<close>

text \<open>The state of a log for its users: the entries, oldest first, and the entry the next \<^verbatim>\<open>LOG_READ_NEXT\<close> delivers.\<close>

type_synonym log_queue = "u32 list list \<times> nat option"

abbreviation position :: "log_header \<Rightarrow> u32 list list \<Rightarrow> nat" where
  "position l rs \<equiv> (LOG_READ l + length (concat rs)) mod LOG_MAX l"

definition rep :: "log_header \<Rightarrow> log_queue \<Rightarrow> bool" where
  "rep l q \<longleftrightarrow> (let (rs, c) = q in
     LOG_READ l < LOG_MAX l \<and> LOG_MAX l < 2 ^ 32 \<and> LOG_SIZE l \<le> LOG_MAX l
     \<and> ring l (LOG_READ l) (LOG_SIZE l) = concat rs \<and> LOG_WRITE l = position l rs
     \<and> (\<forall>r \<in> set rs. ENTRY_WORDS \<le> length r \<and> unat (hd r) = length r)
     \<and> (rs \<noteq> [] \<longrightarrow> LAST_LOG l = position l (butlast rs))
     \<and> LOG_NEXT l = map_option (\<lambda>j. position l (take j rs)) c \<and> (\<forall>j. c = Some j \<longrightarrow> j < max 1 (length rs)))"

text \<open>Room for \<open>n\<close> words is made by dropping oldest entries; a reader that is at a dropped entry goes on with the oldest one
  left.\<close>

fun make_room :: "nat \<Rightarrow> nat \<Rightarrow> log_queue \<Rightarrow> log_queue" where
  "make_room m n ([], c) = ([], c)"
| "make_room m n (r # rs, c) =
     (if length (concat (r # rs)) + n \<le> m then (r # rs, c) else make_room m n (rs, map_option (\<lambda>j. j - 1) c))"

definition entry :: "u32 \<Rightarrow> u32 \<times> u32 \<Rightarrow> u32 list \<Rightarrow> u32 list" where
  "entry number stamp params = of_nat (ENTRY_WORDS + length params) # number # fst stamp # snd stamp # params"

lemma entry_length [simp]: "length (entry number stamp params) = ENTRY_WORDS + length params"
  by (simp add: entry_def)

lemma rep_size: "rep l (rs, c) \<Longrightarrow> LOG_SIZE l = length (concat rs)"
proof -
  assume "rep l (rs, c)"
  then have "length (ring l (LOG_READ l) (LOG_SIZE l)) = length (concat rs)" by (simp add: rep_def)
  then show ?thesis by (simp only: ring_simps)
qed

lemma rep_at:
  assumes "rep l (as @ r # bs, c)"
  shows "ring l (position l as) (length r) = r" "unat (LOG_DATA l (position l as)) = length r" "ENTRY_WORDS \<le> length r"
    "position l as < LOG_MAX l" "length (concat as) + length r \<le> LOG_MAX l"
proof -
  have cs: "ring l (LOG_READ l) (LOG_SIZE l) = concat as @ r @ concat bs" and r: "ENTRY_WORDS \<le> length r" "unat (hd r) = length r"
    and m: "LOG_READ l < LOG_MAX l" "LOG_SIZE l \<le> LOG_MAX l"
    using assms by (simp_all add: rep_def)
  show rr: "ring l (position l as) (length r) = r" using ring_split [OF conjunct2 [OF ring_split [OF cs]]] by simp
  have "hd r = LOG_DATA l (position l as)"
  proof -
    have "ring l (position l as) (length r) ! 0 = LOG_DATA l (position l as)" using r(1) by (subst ring_nth) auto
    with rr r(1) show ?thesis by (cases r) auto
  qed
  with r show "unat (LOG_DATA l (position l as)) = length r" "ENTRY_WORDS \<le> length r" by simp_all
  show "position l as < LOG_MAX l" using m by simp
  show "length (concat as) + length r \<le> LOG_MAX l" using rep_size [OF assms] m by simp
qed

lemma rep_drop:
  assumes rep: "rep l (r # rs, c)"
  shows "rep (l\<lparr>LOG_SIZE := LOG_SIZE l - length r, LOG_NEXT := map_option (\<lambda>j. position l (take (max 1 j) (r # rs))) c,
               LOG_READ := position l [r]\<rparr>) (rs, map_option (\<lambda>j. j - 1) c)"
proof -
  have sz: "LOG_SIZE l = length r + length (concat rs)" using rep_size [OF rep] by simp
  have cs: "ring l (LOG_READ l) (LOG_SIZE l) = r @ concat rs" using rep by (simp add: rep_def)
  have "ring l (position l [r]) (LOG_SIZE l - length r) = concat rs" using ring_split [OF cs] sz by simp
  then have r: "ring (l\<lparr>LOG_SIZE := LOG_SIZE l - length r, LOG_NEXT := x, LOG_READ := position l [r]\<rparr>)
      (position l [r]) (LOG_SIZE l - length r) = concat rs" for x
    by (simp add: ring_def)
  show ?thesis
    using rep r sz
    by (cases c; cases "the c") (auto simp: rep_def mod_simps ac_simps)
qed

lemma put_entry_simps [simp]:
  "LOG_FLAGS (put_entry stamp params l) = LOG_FLAGS l" "LOG_MAX (put_entry stamp params l) = LOG_MAX l"
  "LOG_READ (put_entry stamp params l) = LOG_READ l" "LOG_NEXT (put_entry stamp params l) = LOG_NEXT l"
  "LAST_LOG (put_entry stamp params l) = LOG_WRITE l" "LOG_NUMBER (put_entry stamp params l) = LOG_NUMBER l + 1"
  "LOG_SIZE (put_entry stamp params l) = LOG_SIZE l + (ENTRY_WORDS + length params)"
  by (simp_all add: put_entry_def Let_def split_beta write_words_frame del: write_words.simps)

lemma put_entry_data:
  assumes "LOG_WRITE l < LOG_MAX l" "ENTRY_WORDS + length params \<le> LOG_MAX l"
  shows "LOG_WRITE (put_entry stamp params l) = (LOG_WRITE l + (ENTRY_WORDS + length params)) mod LOG_MAX l"
    "j < LOG_MAX l \<Longrightarrow> LOG_DATA (put_entry stamp params l) ((LOG_WRITE l + j) mod LOG_MAX l)
       = (if j < ENTRY_WORDS + length params then entry (LOG_NUMBER l) stamp params ! j
          else LOG_DATA l ((LOG_WRITE l + j) mod LOG_MAX l))"
proof -
  define l0 where "l0 = l\<lparr>LOG_SIZE := LOG_SIZE l + (ENTRY_WORDS + length params), LAST_LOG := LOG_WRITE l, LOG_NUMBER := LOG_NUMBER l + 1\<rparr>"
  let ?w = "write_words (entry (LOG_NUMBER l) stamp params) (LOG_WRITE l) l0"
  have p: "put_entry stamp params l = (snd ?w)\<lparr>LOG_WRITE := fst ?w\<rparr>"
    by (simp add: put_entry_def entry_def Let_def split_beta l0_def del: write_words.simps)
  have l0: "LOG_MAX l0 = LOG_MAX l" "LOG_DATA l0 = LOG_DATA l" by (simp_all add: l0_def)
  show "LOG_WRITE (put_entry stamp params l) = (LOG_WRITE l + (ENTRY_WORDS + length params)) mod LOG_MAX l"
    using write_words_next [of "LOG_WRITE l" l0] assms by (simp add: p l0)
  show "j < LOG_MAX l \<Longrightarrow> LOG_DATA (put_entry stamp params l) ((LOG_WRITE l + j) mod LOG_MAX l)
       = (if j < ENTRY_WORDS + length params then entry (LOG_NUMBER l) stamp params ! j
          else LOG_DATA l ((LOG_WRITE l + j) mod LOG_MAX l))"
    using write_words_data [of "LOG_WRITE l" l0 "entry (LOG_NUMBER l) stamp params" j] assms by (simp add: p l0)
qed

lemma rep_put:
  assumes rep: "rep l (rs, c)" and fits: "LOG_SIZE l + (ENTRY_WORDS + length params) \<le> LOG_MAX l"
  shows "rep (put_entry stamp params l) (rs @ [entry (LOG_NUMBER l) stamp params], c)"
proof -
  let ?e = "entry (LOG_NUMBER l) stamp params" and ?l = "put_entry stamp params l"
  have R: "LOG_READ l < LOG_MAX l" and W: "LOG_WRITE l = (LOG_READ l + LOG_SIZE l) mod LOG_MAX l"
    and cs: "ring l (LOG_READ l) (LOG_SIZE l) = concat rs"
    using rep rep_size [OF rep] by (simp_all add: rep_def)
  have w: "LOG_WRITE l < LOG_MAX l" "ENTRY_WORDS + length params \<le> LOG_MAX l" using R W fits by simp_all
  have new: "ring ?l (LOG_WRITE l) (ENTRY_WORDS + length params) = ?e"
    using put_entry_data(2) [OF w, of _ stamp] w(2) by (intro nth_equalityI) (auto simp: ring_nth)
  have old: "ring ?l (LOG_READ l) (LOG_SIZE l) = concat rs"
  proof -
    have "LOG_DATA ?l ((LOG_READ l + j) mod LOG_MAX l) = LOG_DATA l ((LOG_READ l + j) mod LOG_MAX l)" if j: "j < LOG_SIZE l" for j
    proof -
      let ?j = "LOG_MAX l - LOG_SIZE l + j"
      have "(LOG_WRITE l + ?j) mod LOG_MAX l = (LOG_READ l + j) mod LOG_MAX l"
      proof -
        have "(LOG_WRITE l + ?j) mod LOG_MAX l = (LOG_READ l + LOG_SIZE l + ?j) mod LOG_MAX l" unfolding W by (rule mod_add_left_eq)
        also have "LOG_READ l + LOG_SIZE l + ?j = LOG_READ l + j + LOG_MAX l" using fits by simp
        finally show ?thesis by simp
      qed
      moreover have "?j < LOG_MAX l" "\<not> ?j < ENTRY_WORDS + length params" using j fits by simp_all
      ultimately show ?thesis using put_entry_data(2) [OF w, of ?j stamp] by (simp only: if_False)
    qed
    then have "ring ?l (LOG_READ l) (LOG_SIZE l) = ring l (LOG_READ l) (LOG_SIZE l)" by (simp add: ring_def)
    with cs show ?thesis by simp
  qed
  have all: "ring ?l (LOG_READ l) (LOG_SIZE l + (ENTRY_WORDS + length params)) = concat rs @ ?e"
    using old new by (simp add: ring_add W)
  have "unat (hd ?e) = length ?e" using rep fits
    by (simp add: rep_def entry_def unat_of_nat del: of_nat_add)
  moreover have "LOG_WRITE ?l = (LOG_READ l + (length (concat rs) + (ENTRY_WORDS + length params))) mod LOG_MAX l"
    using put_entry_data(1) [OF w, of stamp] rep_size [OF rep] W by (simp add: mod_add_left_eq add.assoc del: length_concat)
  ultimately show ?thesis using rep all fits W rep_size [OF rep]
    by (cases c) (auto simp: rep_def mod_simps ac_simps)
qed

lemma take_words_less:
  assumes rep: "rep l (rs, c)" and j: "j < length rs"
  shows "length (concat (take j rs)) + ENTRY_WORDS \<le> LOG_SIZE l" "LOG_SIZE l \<le> LOG_MAX l" "0 < j \<Longrightarrow> 0 < length (concat (take j rs))"
proof -
  have "length (concat rs) = length (concat (take j rs)) + length (rs ! j) + length (concat (drop (Suc j) rs))"
    by (subst id_take_nth_drop [OF j]) simp
  moreover have rl: "r \<in> set rs \<Longrightarrow> ENTRY_WORDS \<le> length r" for r using rep by (simp add: rep_def)
  ultimately show "length (concat (take j rs)) + ENTRY_WORDS \<le> LOG_SIZE l"
    using rep_size [OF rep] rl [OF nth_mem [OF j]] by simp
  show "LOG_SIZE l \<le> LOG_MAX l" using rep by (simp add: rep_def)
  assume "0 < j"
  then obtain r rs' where "rs = r # rs'" "take j rs = r # take (j - 1) rs'" using j by (cases rs; cases j) auto
  with rl [of r] show "0 < length (concat (take j rs))" by auto
qed

lemma position_inj:
  assumes rep: "rep l (rs, c)" and j: "j < length rs"
  shows "position l (take j rs) = LOG_READ l \<longleftrightarrow> j = 0"
  using take_words_less [OF rep j] rep by (cases j) (auto simp: rep_def mod_if)

lemma evict_step:
  assumes rep: "rep l (r # rs, c)"
  shows "evict sz l = (if LOG_SIZE l + sz > LOG_MAX l
     then evict sz (l\<lparr>LOG_SIZE := LOG_SIZE l - length r, LOG_NEXT := map_option (\<lambda>j. position l (take (max 1 j) (r # rs))) c,
                      LOG_READ := position l [r]\<rparr>) else Some l)"
proof -
  have at: "unat (LOG_DATA l (LOG_READ l)) = length r" and le: "length r \<le> LOG_MAX l" and R: "LOG_READ l < LOG_MAX l"
    using rep_at(2,5) [of l "[]" r rs c] rep by (simp_all add: rep_def del: length_concat)
  have nxt: "(if LOG_NEXT l = Some (LOG_READ l) then Some (position l [r]) else LOG_NEXT l)
      = map_option (\<lambda>j. position l (take (max 1 j) (r # rs))) c"
  proof (cases c)
    case (Some j)
    then have "j < length (r # rs)" "LOG_NEXT l = Some (position l (take j (r # rs)))" using rep by (simp_all add: rep_def)
    then show ?thesis using position_inj [OF rep, of j] Some by (cases j) (simp_all del: length_concat)
  qed (use rep in \<open>simp add: rep_def\<close>)
  have d: "ring_add (LOG_MAX l) (LOG_READ l) (length r) = position l [r]" using R le by (simp add: ring_add_mod)
  show ?thesis by (subst evict.simps) (simp only: at Let_def d nxt)
qed

lemma evict_rep:
  assumes "rep l (rs, c)" "sz \<le> LOG_MAX l"
  shows "\<exists>l'. evict sz l = Some l' \<and> rep l' (make_room (LOG_MAX l) sz (rs, c)) \<and> LOG_SIZE l' + sz \<le> LOG_MAX l'
            \<and> LOG_MAX l' = LOG_MAX l \<and> LOG_FLAGS l' = LOG_FLAGS l \<and> LOG_NUMBER l' = LOG_NUMBER l"
  using assms
proof (induction rs arbitrary: l c)
  case Nil
  then show ?case using rep_size [OF Nil(1)] by (simp add: evict.simps)
next
  case (Cons r rs)
  let ?l = "l\<lparr>LOG_SIZE := LOG_SIZE l - length r, LOG_NEXT := map_option (\<lambda>j. position l (take (max 1 j) (r # rs))) c,
              LOG_READ := position l [r]\<rparr>"
  show ?case
  proof (cases "LOG_SIZE l + sz > LOG_MAX l")
    case True
    with Cons.IH [OF rep_drop [OF Cons.prems(1)]] Cons.prems(2) rep_size [OF Cons.prems(1)]
    show ?thesis by (simp add: evict_step [OF Cons.prems(1)])
  next
    case False
    with Cons.prems rep_size [OF Cons.prems(1)] show ?thesis by (simp add: evict_step [OF Cons.prems(1)])
  qed
qed

text \<open>What a reader sees of an entry.\<close>

definition clip :: "u32 \<Rightarrow> u32 list \<Rightarrow> u32 list" where
  "clip n r = (let e = take (unat n + ENTRY_WORDS) r in e[3 := carry_micro (e ! 3)])"

text \<open>The entry a read is for, or why there is none.\<close>

definition wanted :: "u32 \<Rightarrow> log_queue \<Rightarrow> u32 + nat" where
  "wanted t q = (let (rs, c) = q in
     if t = LOG_READ_OLDEST_AND_DELETE \<or> t = LOG_READ_OLDEST then Inr 0
     else if t = LOG_READ_NEXT then (case c of None \<Rightarrow> Inl LOG_ENTRY_NOT_AVAILABLE | Some j \<Rightarrow> Inr j)
     else if t = LOG_READ_NEWEST then Inr (length rs - 1) else Inl LOG_INVALID_READ_TYPE)"

definition queue_read :: "u32 \<Rightarrow> u32 \<Rightarrow> log_queue \<Rightarrow> (u32 \<times> u32 list option) \<times> log_queue" where
  "queue_read t n q = (let (rs, c) = q in
     if rs = [] then ((LOG_ENTRY_NOT_AVAILABLE, None), q)
     else case wanted t q of
            Inl e \<Rightarrow> ((e, None), q)
          | Inr j \<Rightarrow> ((MQX_OK, Some (clip n (rs ! j))),
                     (if t = LOG_READ_OLDEST_AND_DELETE then tl rs else rs,
                      if t = LOG_READ_NEXT \<or> t = LOG_READ_OLDEST then Some (Suc j mod length rs) else None)))"

definition queue_write :: "nat \<Rightarrow> bool \<Rightarrow> u32 list \<Rightarrow> log_queue \<Rightarrow> u32 \<times> log_queue" where
  "queue_write m overwrite e q =
     (if length e > m \<or> length (concat (fst q)) + length e > m \<and> \<not> overwrite then (LOG_FULL, q)
      else (MQX_OK, let (rs, c) = make_room m (length e) q in (rs @ [e], c)))"

lemma ring_eq_iff: "R < M \<Longrightarrow> 0 < t \<Longrightarrow> t \<le> S \<Longrightarrow> S \<le> M \<Longrightarrow> (R + t) mod M = (R + S) mod M \<longleftrightarrow> t = S" for R M t S :: nat
  by (auto simp: mod_if split: if_splits)

lemma next_entry_rep:
  assumes rep: "rep l (rs, c)" and j: "j < length rs"
  shows "next_entry (position l (take j rs)) (length (rs ! j)) l = position l (take (Suc j mod length rs) rs)"
proof -
  define a s t where "a = length (concat (take j rs))" and "s = length (rs ! j)" and "t = length (concat (take (Suc j) rs))"
  have t: "t = a + s" using j by (simp add: a_def s_def t_def take_Suc_conv_app_nth)
  have R: "LOG_READ l < LOG_MAX l" "LOG_WRITE l = (LOG_READ l + LOG_SIZE l) mod LOG_MAX l"
    using rep rep_size [OF rep] by (simp_all add: rep_def del: length_concat)
  have s: "ENTRY_WORDS \<le> s" "t \<le> LOG_SIZE l" "LOG_SIZE l \<le> LOG_MAX l"
    using rep_at(3) [of l "take j rs" "rs ! j" "drop (Suc j) rs" c] rep j take_words_less [OF rep] rep_size [OF rep]
    by (simp_all add: s_def t_def id_take_nth_drop [OF j, symmetric] del: length_concat)
       (metis append_take_drop_id concat_append le_add1 length_append)
  have last: "t = LOG_SIZE l \<longleftrightarrow> Suc j = length rs"
    using take_words_less(1) [OF rep, of "Suc j"] j rep_size [OF rep] by (cases "Suc j = length rs") (auto simp: t_def simp del: length_concat)
  have "next_entry ((LOG_READ l + a) mod LOG_MAX l) s l = (if t = LOG_SIZE l then LOG_READ l else (LOG_READ l + t) mod LOG_MAX l)"
  proof (cases "LOG_READ l < LOG_WRITE l")
    case True
    then have "LOG_READ l + LOG_SIZE l < LOG_MAX l" using R s by (auto simp: mod_if split: if_splits)
    then show ?thesis using True R s t by (auto simp: next_entry_def)
  next
    case False
    have "ring_add (LOG_MAX l) ((LOG_READ l + a) mod LOG_MAX l) s = (LOG_READ l + t) mod LOG_MAX l"
      using R s t by (subst ring_add_mod) (auto simp: mod_simps ac_simps)
    with False R s t ring_eq_iff [of "LOG_READ l" "LOG_MAX l" t "LOG_SIZE l"] show ?thesis by (simp add: next_entry_def Let_def)
  qed
  then show ?thesis using last R j by (auto simp: a_def s_def t_def simp del: length_concat)
qed

lemma rep_cursor:
  assumes "rep l (rs, c)" "\<forall>j. c' = Some j \<longrightarrow> j < max 1 (length rs)"
  shows "rep (l\<lparr>LOG_NEXT := map_option (\<lambda>j. position l (take j rs)) c'\<rparr>) (rs, c')"
  using assms by (simp add: rep_def ring_def)

lemma rep_entry:
  assumes rep: "rep l (rs, c)" and j: "j < length rs"
  shows "unat (LOG_DATA l (position l (take j rs))) = length (rs ! j)" "position l (take j rs) < LOG_MAX l"
    "unat n + ENTRY_WORDS < 2 ^ 32 \<Longrightarrow> deliver (position l (take j rs)) n l = clip n (rs ! j)"
proof -
  let ?p = "position l (take j rs)"
  have "rep l (take j rs @ rs ! j # drop (Suc j) rs, c)" using rep id_take_nth_drop [OF j] by simp
  note at = rep_at [OF this]
  then show "unat (LOG_DATA l ?p) = length (rs ! j)" "?p < LOG_MAX l" by blast+
  have r: "ring l ?p (min (length (rs ! j)) k) = take k (rs ! j)" for k
    using ring_split [of l ?p "length (rs ! j)" "take k (rs ! j)" "drop k (rs ! j)"] at(1) by (simp add: min.commute)
  assume "unat n + ENTRY_WORDS < 2 ^ 32"
  then have "unat (n + 4) = unat n + ENTRY_WORDS" using unat_add_lem [of n 4] by simp
  then show "deliver ?p n l = clip n (rs ! j)"
    using at(2) by (simp only: deliver_def clip_def read_words_ring [OF at(4)] Let_def r of_nat_numeral)
qed

lemma wanted_entry:
  assumes rep: "rep l (rs, c)" and ne: "rs \<noteq> []" and w: "wanted t (rs, c) = Inr j"
  shows "j < length rs" "t = LOG_READ_OLDEST_AND_DELETE \<Longrightarrow> j = 0"
    "(if t = LOG_READ_OLDEST_AND_DELETE then Inr (LOG_READ l)
      else if t = LOG_READ_NEXT then (case LOG_NEXT l of None \<Rightarrow> Inl LOG_ENTRY_NOT_AVAILABLE | Some p \<Rightarrow> Inr p)
      else if t = LOG_READ_OLDEST then Inr (LOG_READ l)
      else if t = LOG_READ_NEWEST then Inr (LAST_LOG l)
      else Inl LOG_INVALID_READ_TYPE) = (Inr (position l (take j rs)) :: u32 + nat)"
proof -
  have "max 1 (length rs) = length rs" using ne by (cases rs) auto
  then show "j < length rs" using rep ne w by (auto simp: wanted_def rep_def split: if_splits option.splits)
  show "t = LOG_READ_OLDEST_AND_DELETE \<Longrightarrow> j = 0" using w by (simp add: wanted_def)
  show "(if t = LOG_READ_OLDEST_AND_DELETE then Inr (LOG_READ l)
      else if t = LOG_READ_NEXT then (case LOG_NEXT l of None \<Rightarrow> Inl LOG_ENTRY_NOT_AVAILABLE | Some p \<Rightarrow> Inr p)
      else if t = LOG_READ_OLDEST then Inr (LOG_READ l)
      else if t = LOG_READ_NEWEST then Inr (LAST_LOG l)
      else Inl LOG_INVALID_READ_TYPE) = (Inr (position l (take j rs)) :: u32 + nat)"
    using rep ne w by (auto simp: wanted_def rep_def butlast_conv_take split: if_splits option.splits)
qed

lemma read_deletes:
  assumes rep: "rep l (r # rs, c)"
  shows "rep (l\<lparr>LOG_READ := ring_add (LOG_MAX l) (LOG_READ l) (length r), LOG_SIZE := LOG_SIZE l - length r, LOG_NEXT := None\<rparr>) (rs, None)"
proof -
  have "ring_add (LOG_MAX l) (LOG_READ l) (length r) = position l [r]"
    using rep rep_at(5) [of l "[]" r rs c] by (simp add: rep_def ring_add_mod)
  with rep_cursor [OF rep_drop [OF rep], of None] show ?thesis by (cases l) simp
qed

lemma read_rep:
  assumes rep: "rep l (rs, c)" and n: "unat n + ENTRY_WORDS < 2 ^ 32"
  shows "\<exists>l'. read_log t n l = (fst (queue_read t n (rs, c)), l') \<and> rep l' (snd (queue_read t n (rs, c)))
            \<and> LOG_MAX l' = LOG_MAX l \<and> LOG_FLAGS l' = LOG_FLAGS l \<and> LOG_NUMBER l' = LOG_NUMBER l"
proof (cases "rs = []")
  case True
  with rep rep_size [OF rep] show ?thesis by (simp add: read_log_def queue_read_def)
next
  case False
  have sz: "LOG_SIZE l \<noteq> 0" using False take_words_less(1) [OF rep, of 0] by auto
  show ?thesis
  proof (cases "wanted t (rs, c)")
    case (Inl e)
    with rep sz False show ?thesis
      by (auto simp: wanted_def read_log_def queue_read_def rep_def split: if_splits option.splits)
  next
    case (Inr j)
    note w = wanted_entry [OF rep False Inr]
    let ?del = "t = LOG_READ_OLDEST_AND_DELETE" and ?nxt = "t = LOG_READ_NEXT \<or> t = LOG_READ_OLDEST"
    let ?l = "if ?del then l\<lparr>LOG_READ := ring_add (LOG_MAX l) (LOG_READ l) (length (rs ! j)), LOG_SIZE := LOG_SIZE l - length (rs ! j)\<rparr> else l"
    let ?c = "if ?nxt then Some (Suc j mod length rs) else None"
    have "read_log t n l = ((MQX_OK, Some (clip n (rs ! j))), ?l\<lparr>LOG_NEXT := map_option (\<lambda>j. position l (take j rs)) ?c\<rparr>)"
      by (simp add: read_log_def w(3) sz rep_entry(1,2) [OF rep w(1)] rep_entry(3) [OF rep w(1) n] Let_def next_entry_rep [OF rep w(1)] del: length_concat)
    moreover have "rep (?l\<lparr>LOG_NEXT := map_option (\<lambda>j. position l (take j rs)) ?c\<rparr>) (if ?del then tl rs else rs, ?c)"
    proof (cases ?del)
      case True
      obtain r rs' where "rs = r # rs'" using False by (cases rs) auto
      with True w(2) read_deletes [of l r rs' c] rep show ?thesis by simp
    next
      case F: False
      with rep_cursor [OF rep, of ?c] False show ?thesis by (simp add: mod_less_divisor less_max_iff_disj)
    qed
    ultimately show ?thesis using Inr False by (simp add: queue_read_def del: length_concat)
  qed
qed

lemma make_room_drops_oldest:
  "\<exists>ds. rs = ds @ fst (make_room m n (rs, c)) \<and> (ds \<noteq> [] \<longrightarrow> m < length (concat (last ds # fst (make_room m n (rs, c)))) + n)"
proof (induction rs arbitrary: c)
  case (Cons r rs)
  show ?case
  proof (cases "length (concat (r # rs)) + n \<le> m")
    case False
    obtain ds where ds: "rs = ds @ fst (make_room m n (rs, map_option (\<lambda>j. j - 1) c))"
      "ds \<noteq> [] \<longrightarrow> m < length (concat (last ds # fst (make_room m n (rs, map_option (\<lambda>j. j - 1) c)))) + n"
      using Cons by blast
    with False show ?thesis by (intro exI [of _ "r # ds"]) (cases "ds = []"; simp)
  qed simp
qed simp

lemma write_rep:
  fixes stamp
  assumes rep: "rep l (rs, c)" and fits: "ENTRY_WORDS + length params \<le> LOG_MAX l"
  defines "w \<equiv> queue_write (LOG_MAX l) (LOG_FLAGS l AND LOG_OVERWRITE \<noteq> 0) (entry (LOG_NUMBER l) stamp params) (rs, c)"
  shows "\<exists>l'. write_log stamp params l = Some (fst w, l') \<and> rep l' (snd w) \<and> LOG_MAX l' = LOG_MAX l \<and> LOG_FLAGS l' = LOG_FLAGS l
            \<and> LOG_NUMBER l' = (if fst w = MQX_OK then LOG_NUMBER l + 1 else LOG_NUMBER l)"
proof (cases "LOG_SIZE l + (ENTRY_WORDS + length params) \<le> LOG_MAX l")
  case True
  then have "make_room (LOG_MAX l) (ENTRY_WORDS + length params) (rs, c) = (rs, c)"
    using rep_size [OF rep] by (cases rs) simp_all
  with True rep_put [OF rep True, of stamp] fits rep_size [OF rep] show ?thesis
    by (simp add: w_def write_log_def queue_write_def Let_def del: length_concat)
next
  case False
  show ?thesis
  proof (cases "LOG_FLAGS l AND LOG_OVERWRITE = 0")
    case True
    with False fits rep rep_size [OF rep] show ?thesis by (simp add: w_def write_log_def queue_write_def Let_def del: length_concat)
  next
    case ow: False
    obtain l' where l': "evict (ENTRY_WORDS + length params) l = Some l'"
      "rep l' (make_room (LOG_MAX l) (ENTRY_WORDS + length params) (rs, c))" "LOG_SIZE l' + (ENTRY_WORDS + length params) \<le> LOG_MAX l'"
      "LOG_MAX l' = LOG_MAX l" "LOG_FLAGS l' = LOG_FLAGS l" "LOG_NUMBER l' = LOG_NUMBER l"
      using evict_rep [OF rep fits] by blast
    obtain rs' c' where q: "make_room (LOG_MAX l) (ENTRY_WORDS + length params) (rs, c) = (rs', c')" by fastforce
    have "rep (put_entry stamp params l') (rs' @ [entry (LOG_NUMBER l) stamp params], c')"
      using rep_put [OF l'(2) [unfolded q] l'(3), of stamp] l'(6) by simp
    with False ow fits l' q rep_size [OF rep] show ?thesis
      by (simp add: w_def write_log_def queue_write_def Let_def del: length_concat)
  qed
qed

section \<open>The calls\<close>

text \<open>Log \<open>n\<close> exists, holds at most \<open>m\<close> words, has flags \<open>fl\<close>, numbers its next entry \<open>num\<close> and represents the queue \<open>q\<close>.\<close>

definition represents :: "kernel \<Rightarrow> u32 \<Rightarrow> nat \<Rightarrow> u32 \<Rightarrow> u32 \<Rightarrow> log_queue \<Rightarrow> bool" where
  "represents k n m fl num q \<longleftrightarrow> KERNEL_LOG (OBJ k) = Some LOG_VALID \<and> n < LOG_MAXIMUM_NUMBER
     \<and> (\<exists>l. log_at n k = Some l \<and> LOG_MAX l = m \<and> LOG_FLAGS l = fl \<and> LOG_NUMBER l = num \<and> rep l q)"

lemma log_simps [simp]:
  "log_at n (INT_DISABLE k) = log_at n k" "log_at n (INT_ENABLE k) = log_at n k" "log_at n (set_log n x k) = x"
  "KERNEL_LOG (OBJ (set_log n x k)) = KERNEL_LOG (OBJ k)"
  by (simp_all add: log_at_def set_log_def)

lemma log_stamp_INT [simp]: "log_stamp hw (INT_DISABLE k) = log_stamp hw k"
proof -
  have frame: "TICKS_PER_SECOND (INT_DISABLE k) = TICKS_PER_SECOND k" "HW_TICKS_PER_TICK (INT_DISABLE k) = HW_TICKS_PER_TICK k"
    "TIME (INT_DISABLE k) = TIME k" "OBJ (INT_DISABLE k) = OBJ k"
    by (simp_all add: INT_DISABLE_def upd_td_def)
  show ?thesis unfolding log_stamp_def psp_ticks_to_time_def psp_add_ticks_def time_get_microseconds_def frame ..
qed

lemma represents_new:
  "0 < max_size \<Longrightarrow> n < LOG_MAXIMUM_NUMBER \<Longrightarrow> KERNEL_LOG (OBJ k) = None \<or> KERNEL_LOG (OBJ k) = Some LOG_VALID \<and> log_at n k = None \<Longrightarrow>
     let (r, k') = log_create True (Some mem) n max_size flags k
     in r = MQX_OK \<and> represents k' n (unat max_size) (flags OR LOG_ENABLED) 1 ([], None)"
  using unsigned_less [of max_size, where ?'a = nat] by (auto simp: represents_def log_create_def log_create_component_def Let_def new_log_def rep_def log_at_def word_less_nat_alt not_le
      set_log_def)

text \<open>C17 (refinement). A log behaves as a bounded queue of entries with a reading position. A write to an enabled log ends; it
  appends the entry with the next sequence number, after dropping just as many of the oldest entries as needed if the log may
  overwrite, and answers \<^verbatim>\<open>LOG_FULL\<close> and changes nothing otherwise. A read delivers the oldest, the newest or the next entry, clipped
  to the size asked for, removes the oldest one if told to, and moves the reading position cyclically. All of this holds
  wherever in the ring the entries lie and however they wrap.\<close>

theorem logs_refine_queues:
  assumes "represents k n m fl num q"
  shows "(fl AND LOG_ENABLED \<noteq> 0 \<longrightarrow>
           (let (r, q') = queue_write m (fl AND LOG_OVERWRITE \<noteq> 0) (entry num (log_stamp hw k) params) q
            in \<exists>k'. log_write hw n params k = Some (r, k') \<and> represents k' n m fl (if r = MQX_OK then num + 1 else num) q'))
       \<and> (unat size_to_read + ENTRY_WORDS < 2 ^ 32 \<longrightarrow>
           (let (r, q') = queue_read t size_to_read q; (r', k') = log_read n t size_to_read True k
            in r' = r \<and> represents k' n m fl num q'))"
proof (intro conjI impI)
  obtain rs c where q: "q = (rs, c)" by (cases q)
  obtain l where K: "KERNEL_LOG (OBJ k) = Some LOG_VALID" "\<not> LOG_MAXIMUM_NUMBER \<le> n" "n < LOG_MAXIMUM_NUMBER"
    and l: "log_at n k = Some l" "LOG_MAX l = m" "LOG_FLAGS l = fl" "LOG_NUMBER l = num" "rep l (rs, c)"
    using assms unfolding represents_def q by auto
  let ?w = "queue_write m (fl AND LOG_OVERWRITE \<noteq> 0) (entry num (log_stamp hw k) params) q"
  assume en: "fl AND LOG_ENABLED \<noteq> 0"
  show "let (r, q') = ?w in \<exists>k'. log_write hw n params k = Some (r, k') \<and> represents k' n m fl (if r = MQX_OK then num + 1 else num) q'"
  proof (cases "ENTRY_WORDS + length params \<le> m")
    case True
    with write_rep [OF l(5), of params "log_stamp hw k"] l obtain l' where
      "write_log (log_stamp hw k) params l = Some (fst ?w, l')" "rep l' (snd ?w)" "LOG_MAX l' = m" "LOG_FLAGS l' = fl"
      "LOG_NUMBER l' = (if fst ?w = MQX_OK then num + 1 else num)" unfolding q by auto
    with True K l en show ?thesis by (auto simp: log_write_def Let_def represents_def split_beta)
  next
    case False
    with K l en assms show ?thesis by (auto simp: log_write_def queue_write_def)
  qed
next
  obtain rs c where q: "q = (rs, c)" by (cases q)
  obtain l where K: "KERNEL_LOG (OBJ k) = Some LOG_VALID" "\<not> LOG_MAXIMUM_NUMBER \<le> n" "n < LOG_MAXIMUM_NUMBER"
    and l: "log_at n k = Some l" "LOG_MAX l = m" "LOG_FLAGS l = fl" "LOG_NUMBER l = num" "rep l (rs, c)"
    using assms unfolding represents_def q by auto
  assume "unat size_to_read + ENTRY_WORDS < 2 ^ 32"
  from read_rep [OF l(5) this, of t] K l
  show "let (r, q') = queue_read t size_to_read q; (r', k') = log_read n t size_to_read True k in r' = r \<and> represents k' n m fl num q'"
    unfolding q by (auto simp: log_read_def Let_def represents_def split_beta)
qed

theorem logs_refine_queues_witness:
  "let k = set_log 3 (Some (new_log 10 LOG_OVERWRITE (\<lambda>_. 0))) (demo\<lparr>OBJ := (OBJ demo)\<lparr>KERNEL_LOG := Some LOG_VALID\<rparr>\<rparr>)
   in represents k 3 10 (LOG_OVERWRITE OR LOG_ENABLED) 1 ([], None)
      \<and> (\<exists>k'. log_write None 3 [9] k = Some (MQX_OK, k') \<and> represents k' 3 10 (LOG_OVERWRITE OR LOG_ENABLED) 2 ([entry 1 (log_stamp None k) [9]], None))
      \<and> fst (log_read 3 LOG_READ_NEXT 0 True k) = (LOG_ENTRY_NOT_AVAILABLE, None)"
proof -
  define k where "k = set_log 3 (Some (new_log 10 LOG_OVERWRITE (\<lambda>_. 0))) (demo\<lparr>OBJ := (OBJ demo)\<lparr>KERNEL_LOG := Some LOG_VALID\<rparr>\<rparr>)"
  have r: "represents k 3 10 (LOG_OVERWRITE OR LOG_ENABLED) 1 ([], None)"
    by (simp add: k_def represents_def rep_def new_log_def)
  from logs_refine_queues [OF r, of None "[9]" 0 LOG_READ_NEXT]
  have "(\<exists>k'. log_write None 3 [9] k = Some (MQX_OK, k') \<and> represents k' 3 10 (LOG_OVERWRITE OR LOG_ENABLED) 2 ([entry 1 (log_stamp None k) [9]], None))
      \<and> fst (log_read 3 LOG_READ_NEXT 0 True k) = (LOG_ENTRY_NOT_AVAILABLE, None)"
    by (simp add: queue_write_def queue_read_def Let_def split_beta)
  with r show ?thesis by (simp add: k_def)
qed

text \<open>Fact. \<^verbatim>\<open>_log_reset\<close> leaves the reading position where it was: a reader that goes on with \<^verbatim>\<open>LOG_READ_NEXT\<close> after a reset and a write is
  given words from the middle of an entry. Here the third parameter of the only entry is taken for the length of an entry.\<close>

lemma log_reset_keeps_next:
  defines "l \<equiv> snd (read_log LOG_READ_OLDEST 9 (put_entry (0, 0) [] (put_entry (0, 0) [] (new_log 10 0 (\<lambda>_. 0)))))"
  shows "fst (read_log LOG_READ_NEXT 9 (put_entry (7, 8) [1, 2, 3] (reset_log l))) = (MQX_OK, Some [1])"
  by (simp add: l_def put_entry_def read_log_def new_log_def reset_log_def ring_step_def ring_add_def next_entry_def deliver_def Let_def)

end
