(* ===== verification/Lwlog.thy ===== *)
theory Lwlog
  imports Logs Lwsem
begin

unbundle bit_operations_syntax

text \<open>
  Lightweight logs (\<^verbatim>\<open>kernel/lwlog.c\<close>), with time stamps in ticks. A log is an array of entries of one size, linked to a
  ring by their \<^verbatim>\<open>NEXT_PTR\<close>; pointers to entries are indices of the array. \<^verbatim>\<open>_lwlog_create_at\<close> and \<^verbatim>\<open>_lwlog_create\<close> differ
  in where the header comes from. The theorems show that a log is a bounded queue of entries, that a scan with
  \<^verbatim>\<open>LOG_READ_OLDEST\<close> and \<^verbatim>\<open>LOG_READ_NEXT\<close> delivers all of them in order and ends, and that a scan can lose entries when others
  are overwritten meanwhile.
\<close>

abbreviation (input) LWLOG_VALID :: u32 where "LWLOG_VALID \<equiv> 0x6C776C67"
abbreviation (input) LWLOG_ENABLED :: u32 where "LWLOG_ENABLED \<equiv> 0x1000"
abbreviation (input) LWLOG_STATIC :: u32 where "LWLOG_STATIC \<equiv> 1"
abbreviation (input) LWLOG_DYNAMIC :: u32 where "LWLOG_DYNAMIC \<equiv> 2"
abbreviation (input) LWLOG_HEADER_SIZE :: nat where "LWLOG_HEADER_SIZE \<equiv> 84"
abbreviation (input) LWLOG_ENTRY_SIZE :: nat where "LWLOG_ENTRY_SIZE \<equiv> 48"

definition lwlog_at :: "u32 \<Rightarrow> kernel \<Rightarrow> lwlog_header option" where
  "lwlog_at n k = LWLOGS (OBJ k) (unat n)"

definition set_lwlog :: "u32 \<Rightarrow> lwlog_header option \<Rightarrow> kernel \<Rightarrow> kernel" where
  "set_lwlog n l k = k\<lparr>OBJ := (OBJ k)\<lparr>LWLOGS := (LWLOGS (OBJ k))(unat n := l)\<rparr>\<rparr>"

subsection \<open>Creation\<close>

definition lwlog_create_component :: "bool \<Rightarrow> kernel \<Rightarrow> (kernel, u32) prog" where
  "lwlog_create_component allocated k =
     (if IN_ISR k \<noteq> 0 then Done MQX_CANNOT_CALL_FUNCTION_FROM_ISR k
      else let s = COMPONENT_CREATE_LWSEM (OBJ k)
           in andthen (lwsem_wait s k) (\<lambda>_ k1.
                if KERNEL_LWLOG (OBJ k1) \<noteq> None then andthen (lwsem_post s k1) (\<lambda>_ k2. Done MQX_OK k2)
                else if \<not> allocated then andthen (lwsem_post s k1) (\<lambda>_ k2. Done MQX_OUT_OF_MEMORY k2)
                else andthen (lwsem_post s (k1\<lparr>OBJ := (OBJ k1)\<lparr>KERNEL_LWLOG := Some LWLOG_VALID, LWLOGS := (\<lambda>_. None)\<rparr>\<rparr>))
                       (\<lambda>_ k2. Done MQX_OK k2)))"

text \<open>The entries of a log are linked in the order of the array; the first one has been cleared with the header.\<close>

definition zero_entry :: lwlog_entry where
  "zero_entry = \<lparr>SEQUENCE_NUMBER = 0, TIMESTAMP = \<lparr>TICKS = 0, HW_TICKS = 0\<rparr>, ENTRY_DATA = replicate 7 0, NEXT_PTR = 0\<rparr>"

primrec link_entries :: "nat \<Rightarrow> nat \<Rightarrow> (nat \<Rightarrow> lwlog_entry) \<Rightarrow> nat \<times> (nat \<Rightarrow> lwlog_entry)" where
  "link_entries 0 i E = (i, E)"
| "link_entries (Suc n) i E = link_entries n (Suc i) (E(i := (E i)\<lparr>NEXT_PTR := Suc i\<rparr>))"

definition new_lwlog :: "(nat \<Rightarrow> lwlog_entry) \<Rightarrow> u32 \<Rightarrow> u32 \<Rightarrow> lwlog_header" where
  "new_lwlog mem max_size flags =
     (let (i, E) = link_entries (unat (max_size - 1)) 0 (mem(0 := zero_entry))
      in \<lparr>LWLOG_FLAGS = flags OR LWLOG_ENABLED, LWLOG_NUMBER = 1, CURRENT_ENTRIES = 0, MAX_ENTRIES = max_size, READS = 0, LWLOG_TYPE = 0,
          WRITE_PTR = i, READ_PTR = 0, OLDEST_PTR = 0, ENTRIES = E(i := (E i)\<lparr>NEXT_PTR := 0\<rparr>)\<rparr>)"

definition lwlog_create_internal :: "bool \<Rightarrow> u32 \<Rightarrow> u32 \<Rightarrow> u32 \<Rightarrow> (nat \<Rightarrow> lwlog_entry) \<Rightarrow> kernel \<Rightarrow> (kernel, u32) prog" where
  "lwlog_create_internal allocated log_number max_size flags mem k =
     (if log_number \<ge> LOG_MAXIMUM_NUMBER then Done LOG_INVALID k
      else if KERNEL_LWLOG (OBJ k) \<noteq> None \<and> lwlog_at log_number k \<noteq> None then Done LOG_EXISTS k
      else andthen (if KERNEL_LWLOG (OBJ k) = None then lwlog_create_component allocated k else Done MQX_OK k) (\<lambda>result k1.
             case KERNEL_LWLOG (OBJ k1) of
               None \<Rightarrow> Done result k1
             | Some valid \<Rightarrow>
                 if valid \<noteq> LWLOG_VALID then Done MQX_INVALID_COMPONENT_BASE k1
                 else let k2 = INT_DISABLE k1
                      in if lwlog_at log_number k2 \<noteq> None then Done LOG_EXISTS (INT_ENABLE k2)
                         else Done result (INT_ENABLE (set_lwlog log_number (Some (new_lwlog mem max_size flags)) k2))))"

definition set_lwlog_type :: "u32 \<Rightarrow> u32 \<Rightarrow> kernel \<Rightarrow> kernel" where
  "set_lwlog_type n t k = set_lwlog n (map_option (\<lambda>l. l\<lparr>LWLOG_TYPE := t\<rparr>) (lwlog_at n k)) k"

text \<open>\<open>location\<close> is the memory the caller passes, or \<open>None\<close> for \<^verbatim>\<open>NULL\<close>.\<close>

definition lwlog_create_at :: "bool \<Rightarrow> u32 \<Rightarrow> u32 \<Rightarrow> u32 \<Rightarrow> (nat \<Rightarrow> lwlog_entry) option \<Rightarrow> kernel \<Rightarrow> (kernel, u32) prog" where
  "lwlog_create_at allocated log_number max_size flags location k =
     (if max_size = 0 then Done LOG_INVALID_SIZE k
      else case location of
             None \<Rightarrow> Done MQX_INVALID_POINTER k
           | Some mem \<Rightarrow>
               andthen (lwlog_create_internal allocated log_number max_size flags mem k)
                 (\<lambda>result k1. Done result (if result = MQX_OK then set_lwlog_type log_number LWLOG_STATIC k1 else k1)))"

text \<open>Memory from the allocator is cleared.\<close>

definition lwlog_create :: "bool \<Rightarrow> bool \<Rightarrow> u32 \<Rightarrow> u32 \<Rightarrow> u32 \<Rightarrow> kernel \<Rightarrow> (kernel, u32) prog" where
  "lwlog_create allocated log_allocated log_number max_size flags k =
     (if max_size = 0 then Done LOG_INVALID_SIZE k
      else if \<not> log_allocated then Done MQX_OUT_OF_MEMORY k
      else andthen (lwlog_create_internal allocated log_number max_size flags (\<lambda>_. zero_entry) k)
             (\<lambda>result k1. Done result (if result = MQX_OK then set_lwlog_type log_number LWLOG_DYNAMIC k1 else k1)))"

definition lwlog_calculate_size :: "u32 \<Rightarrow> u32" where
  "lwlog_calculate_size entries = (if entries = 0 then 0 else of_nat LWLOG_HEADER_SIZE + (entries - 1) * of_nat LWLOG_ENTRY_SIZE)"

subsection \<open>Control\<close>

definition change_lwlog :: "(lwlog_header \<Rightarrow> lwlog_header option) \<Rightarrow> u32 \<Rightarrow> kernel \<Rightarrow> u32 \<times> kernel" where
  "change_lwlog f log_number k =
     (if log_number \<ge> LOG_MAXIMUM_NUMBER then (LOG_INVALID, k)
      else case KERNEL_LWLOG (OBJ k) of
             None \<Rightarrow> (MQX_COMPONENT_DOES_NOT_EXIST, k)
           | Some valid \<Rightarrow>
               if valid \<noteq> LWLOG_VALID then (MQX_INVALID_COMPONENT_HANDLE, k)
               else let k1 = INT_DISABLE k
                    in case lwlog_at log_number k1 of
                         None \<Rightarrow> (LOG_DOES_NOT_EXIST, INT_ENABLE k1)
                       | Some l \<Rightarrow> (MQX_OK, INT_ENABLE (set_lwlog log_number (f l) k1)))"

definition lwlog_destroy :: "u32 \<Rightarrow> kernel \<Rightarrow> u32 \<times> kernel" where
  "lwlog_destroy log_number k = change_lwlog (\<lambda>_. None) log_number k"

definition lwlog_disable :: "u32 \<Rightarrow> kernel \<Rightarrow> u32 \<times> kernel" where
  "lwlog_disable log_number k = change_lwlog (\<lambda>l. Some (l\<lparr>LWLOG_FLAGS := LWLOG_FLAGS l AND NOT LWLOG_ENABLED\<rparr>)) log_number k"

definition lwlog_enable :: "u32 \<Rightarrow> kernel \<Rightarrow> u32 \<times> kernel" where
  "lwlog_enable log_number k = change_lwlog (\<lambda>l. Some (l\<lparr>LWLOG_FLAGS := LWLOG_FLAGS l OR LWLOG_ENABLED\<rparr>)) log_number k"

definition reset_lwlog :: "lwlog_header \<Rightarrow> lwlog_header" where
  "reset_lwlog l = l\<lparr>READS := 0, CURRENT_ENTRIES := 0, LWLOG_NUMBER := 1, WRITE_PTR := unat (MAX_ENTRIES l - 1), READ_PTR := 0, OLDEST_PTR := 0\<rparr>"

text \<open>\<^verbatim>\<open>_lwlog_reset\<close> returns with interrupts disabled if the component is not valid.\<close>

definition lwlog_reset :: "u32 \<Rightarrow> kernel \<Rightarrow> u32 \<times> kernel" where
  "lwlog_reset log_number k =
     (if log_number \<ge> LOG_MAXIMUM_NUMBER then (LOG_INVALID, k)
      else case KERNEL_LWLOG (OBJ k) of
             None \<Rightarrow> (MQX_COMPONENT_DOES_NOT_EXIST, k)
           | Some valid \<Rightarrow>
               let k1 = INT_DISABLE k
               in if valid \<noteq> LWLOG_VALID then (MQX_INVALID_COMPONENT_HANDLE, k1)
                  else case lwlog_at log_number k1 of
                         None \<Rightarrow> (LOG_DOES_NOT_EXIST, INT_ENABLE k1)
                       | Some l \<Rightarrow> (MQX_OK, INT_ENABLE (set_lwlog log_number (Some (reset_lwlog l)) k1)))"

subsection \<open>Writing and reading\<close>

definition fill_entry :: "psp_tick \<Rightarrow> u32 list \<Rightarrow> lwlog_header \<Rightarrow> lwlog_header" where
  "fill_entry stamp data l =
     (let p = NEXT_PTR (ENTRIES l (WRITE_PTR l))
      in l\<lparr>ENTRIES := (ENTRIES l)(p := (ENTRIES l p)\<lparr>TIMESTAMP := stamp, SEQUENCE_NUMBER := LWLOG_NUMBER l, ENTRY_DATA := data\<rparr>),
           LWLOG_NUMBER := LWLOG_NUMBER l + 1, WRITE_PTR := p\<rparr>)"

definition write_lwlog :: "psp_tick \<Rightarrow> u32 list \<Rightarrow> lwlog_header \<Rightarrow> u32 \<times> lwlog_header" where
  "write_lwlog stamp data l =
     (let p = NEXT_PTR (ENTRIES l (WRITE_PTR l)); next = NEXT_PTR (ENTRIES l p)
      in if CURRENT_ENTRIES l \<ge> MAX_ENTRIES l
         then if LWLOG_FLAGS l AND LOG_OVERWRITE \<noteq> 0
              then (MQX_OK, fill_entry stamp data (l\<lparr>READ_PTR := (if p = READ_PTR l then next else READ_PTR l), OLDEST_PTR := next\<rparr>))
              else (LOG_FULL, l)
         else (MQX_OK, fill_entry stamp data (l\<lparr>CURRENT_ENTRIES := CURRENT_ENTRIES l + 1\<rparr>)))"

definition lwlog_stamp :: "u32 option \<Rightarrow> kernel \<Rightarrow> psp_tick" where
  "lwlog_stamp hw k = psp_add_ticks k ((TIME k)\<lparr>HW_TICKS := time_get_hwticks hw\<rparr>) (TIME_OFFSET (OBJ k))"

text \<open>\<^verbatim>\<open>_lwlog_write_internal\<close> does not test the component for \<^verbatim>\<open>NULL\<close>; there is no valid stamp at address zero.\<close>

definition lwlog_write_internal :: "u32 option \<Rightarrow> u32 \<Rightarrow> u32 list \<Rightarrow> kernel \<Rightarrow> u32 \<times> kernel" where
  "lwlog_write_internal hw log_number data k =
     (if KERNEL_LWLOG (OBJ k) \<noteq> Some LWLOG_VALID then (MQX_INVALID_COMPONENT_HANDLE, k)
      else case lwlog_at log_number k of
             None \<Rightarrow> (LOG_DOES_NOT_EXIST, k)
           | Some l \<Rightarrow>
               if LWLOG_FLAGS l AND LWLOG_ENABLED = 0 then (LOG_DISABLED, k)
               else let (result, l1) = write_lwlog (lwlog_stamp hw k) data l in (result, set_lwlog log_number (Some l1) k))"

definition lwlog_write :: "u32 option \<Rightarrow> u32 \<Rightarrow> u32 list \<Rightarrow> kernel \<Rightarrow> u32 \<times> kernel" where
  "lwlog_write hw log_number data k =
     (if log_number \<ge> LOG_MAXIMUM_NUMBER then (LOG_INVALID, k)
      else if KERNEL_LWLOG (OBJ k) = None then (MQX_COMPONENT_DOES_NOT_EXIST, k)
      else let (result, k1) = lwlog_write_internal hw log_number data (INT_DISABLE k) in (result, INT_ENABLE k1))"

definition read_lwlog :: "u32 \<Rightarrow> lwlog_header \<Rightarrow> (u32 + lwlog_entry) \<times> lwlog_header" where
  "read_lwlog read_type l =
     (let E = ENTRIES l
      in if CURRENT_ENTRIES l = 0 then (Inl LOG_ENTRY_NOT_AVAILABLE, l)
         else if read_type = LOG_READ_OLDEST_AND_DELETE
         then let p = OLDEST_PTR l
              in (Inr (E p), l\<lparr>CURRENT_ENTRIES := CURRENT_ENTRIES l - 1, OLDEST_PTR := NEXT_PTR (E p), READ_PTR := NEXT_PTR (E p), READS := 0\<rparr>)
         else if read_type = LOG_READ_OLDEST
         then let p = OLDEST_PTR l in (Inr (E p), l\<lparr>READ_PTR := NEXT_PTR (E p), READS := 1\<rparr>)
         else if read_type = LOG_READ_NEXT
         then let p = READ_PTR l
              in if p = NEXT_PTR (E (WRITE_PTR l)) \<and> READS l \<ge> CURRENT_ENTRIES l then (Inl LOG_ENTRY_NOT_AVAILABLE, l)
                 else (Inr (E p), l\<lparr>READ_PTR := NEXT_PTR (E p), READS := READS l + 1\<rparr>)
         else if read_type = LOG_READ_NEWEST then (Inr (E (WRITE_PTR l)), l\<lparr>READS := CURRENT_ENTRIES l\<rparr>)
         else (Inl LOG_INVALID_READ_TYPE, l))"

definition lwlog_read :: "u32 \<Rightarrow> u32 \<Rightarrow> bool \<Rightarrow> kernel \<Rightarrow> (u32 + lwlog_entry) \<times> kernel" where
  "lwlog_read log_number read_type has_entry k =
     (if log_number \<ge> LOG_MAXIMUM_NUMBER then (Inl LOG_INVALID, k)
      else if \<not> has_entry then (Inl MQX_INVALID_POINTER, k)
      else case KERNEL_LWLOG (OBJ k) of
             None \<Rightarrow> (Inl MQX_COMPONENT_DOES_NOT_EXIST, k)
           | Some valid \<Rightarrow>
               let k1 = INT_DISABLE k
               in if valid \<noteq> LWLOG_VALID then (Inl MQX_INVALID_COMPONENT_HANDLE, INT_ENABLE k1)
                  else case lwlog_at log_number k1 of
                         None \<Rightarrow> (Inl LOG_DOES_NOT_EXIST, INT_ENABLE k1)
                       | Some l \<Rightarrow> let (r, l1) = read_lwlog read_type l
                                  in (r, INT_ENABLE (set_lwlog log_number (Some l1) k1)))"

subsection \<open>The test\<close>

text \<open>Entry \<open>i\<close> lies \<open>LWLOG_HEADER_SIZE - LWLOG_ENTRY_SIZE + LWLOG_ENTRY_SIZE * i\<close> bytes behind the header. The range the code
  allows starts 4 bytes behind the header, the size of a pointer to it.\<close>

definition entry_in_range :: "lwlog_header \<Rightarrow> nat \<Rightarrow> bool" where
  "entry_in_range l i \<longleftrightarrow> (let a = LWLOG_HEADER_SIZE - LWLOG_ENTRY_SIZE + LWLOG_ENTRY_SIZE * i
     in 4 \<le> a \<and> a < 4 + LWLOG_ENTRY_SIZE * unat (MAX_ENTRIES l))"

fun walk_in_range :: "nat \<Rightarrow> nat \<Rightarrow> lwlog_header \<Rightarrow> bool" where
  "walk_in_range 0 i l = True"
| "walk_in_range (Suc j) i l = (let p = NEXT_PTR (ENTRIES l i) in entry_in_range l p \<and> walk_in_range j p l)"

definition lwlog_fine :: "lwlog_header \<Rightarrow> bool" where
  "lwlog_fine l \<longleftrightarrow> entry_in_range l (READ_PTR l) \<and> entry_in_range l (WRITE_PTR l) \<and> entry_in_range l (OLDEST_PTR l)
     \<and> walk_in_range (unat (MAX_ENTRIES l)) 0 l"

definition lwlog_test :: "bool \<Rightarrow> kernel \<Rightarrow> (u32 \<times> nat) \<times> kernel" where
  "lwlog_test has_error_ptr k =
     (if \<not> has_error_ptr then ((MQX_INVALID_POINTER, 0), k)
      else case KERNEL_LWLOG (OBJ k) of
             None \<Rightarrow> ((MQX_OK, 0), k)
           | Some valid \<Rightarrow>
               let k1 = INT_ENABLE (INT_DISABLE k)
               in if valid \<noteq> LWLOG_VALID then ((MQX_INVALID_COMPONENT_BASE, 0), k1)
                  else case find (\<lambda>i. case LWLOGS (OBJ k) i of None \<Rightarrow> False | Some l \<Rightarrow> \<not> lwlog_fine l) [0..<16] of
                         None \<Rightarrow> ((MQX_OK, 0), k1)
                       | Some i \<Rightarrow> ((LOG_INVALID, i), k1))"

section \<open>A lightweight log is a bounded queue\<close>

text \<open>The state of a log for its users: the entries, oldest first, and how many of them the scan has delivered, unless it was
  disturbed.\<close>

type_synonym lw_entry = "u32 \<times> psp_tick \<times> u32 list"
type_synonym lw_queue = "lw_entry list \<times> nat option"

definition content :: "lwlog_entry \<Rightarrow> lw_entry" where
  "content e = (SEQUENCE_NUMBER e, TIMESTAMP e, ENTRY_DATA e)"

abbreviation lw_size :: "lwlog_header \<Rightarrow> nat" where "lw_size l \<equiv> unat (MAX_ENTRIES l)"

definition holds :: "lwlog_header \<Rightarrow> lw_entry list \<Rightarrow> bool" where
  "holds l es \<longleftrightarrow> unat (CURRENT_ENTRIES l) = length es \<and> length es \<le> lw_size l \<and> OLDEST_PTR l < lw_size l \<and> WRITE_PTR l < lw_size l
     \<and> READ_PTR l < lw_size l \<and> (\<forall>i < lw_size l. NEXT_PTR (ENTRIES l i) = Suc i mod lw_size l)
     \<and> Suc (WRITE_PTR l) mod lw_size l = (OLDEST_PTR l + length es) mod lw_size l
     \<and> (\<forall>j < length es. content (ENTRIES l ((OLDEST_PTR l + j) mod lw_size l)) = es ! j)"

definition scans :: "lwlog_header \<Rightarrow> lw_entry list \<Rightarrow> nat option \<Rightarrow> bool" where
  "scans l es c \<longleftrightarrow> (\<forall>j. c = Some j \<longrightarrow> j \<le> length es \<and> READ_PTR l = (OLDEST_PTR l + j) mod lw_size l \<and> unat (READS l) = j)"

definition lw_rep :: "lwlog_header \<Rightarrow> lw_queue \<Rightarrow> bool" where
  "lw_rep l q \<longleftrightarrow> holds l (fst q) \<and> scans l (fst q) (snd q)"

text \<open>A scan is disturbed by an entry that is overwritten.\<close>

definition lw_queue_write :: "nat \<Rightarrow> bool \<Rightarrow> lw_entry \<Rightarrow> lw_queue \<Rightarrow> u32 \<times> lw_queue" where
  "lw_queue_write m overwrite e q = (let (es, c) = q in
     if length es < m then (MQX_OK, es @ [e], c)
     else if overwrite then (MQX_OK, tl es @ [e], None)
     else (LOG_FULL, q))"

definition lw_queue_read :: "u32 \<Rightarrow> lw_queue \<Rightarrow> (u32 + lw_entry) \<times> lw_queue" where
  "lw_queue_read t q = (let (es, c) = q in
     if es = [] then (Inl LOG_ENTRY_NOT_AVAILABLE, q)
     else if t = LOG_READ_OLDEST_AND_DELETE then (Inr (hd es), tl es, Some 0)
     else if t = LOG_READ_OLDEST then (Inr (hd es), es, Some 1)
     else if t = LOG_READ_NEXT
     then (if the c < length es then (Inr (es ! the c), es, Some (Suc (the c))) else (Inl LOG_ENTRY_NOT_AVAILABLE, q))
     else if t = LOG_READ_NEWEST then (Inr (last es), es, None)
     else (Inl LOG_INVALID_READ_TYPE, q))"

lemma mod_inj: "(a + i) mod m = (a + j) mod m \<Longrightarrow> i < m \<Longrightarrow> j < m \<Longrightarrow> i = j" for a i j m :: nat
proof (induction i j rule: linorder_wlog)
  case (le i j)
  have "m dvd (a + j) - (a + i)" using le mod_eq_dvd_iff_nat [of "a + i" "a + j" m] by simp
  moreover have "j - i < m" using le by simp
  ultimately show ?case using le nat_dvd_not_less [of "j - i" m] by (cases "j - i = 0") auto
qed simp

lemma link_entries_props:
  "fst (link_entries n i E) = i + n"
  "content (snd (link_entries n i E) j) = content (E j)"
  "NEXT_PTR (snd (link_entries n i E) j) = (if i \<le> j \<and> j < i + n then Suc j else NEXT_PTR (E j))"
  by (induction n arbitrary: i E) (auto simp: content_def)

lemma holds_new:
  assumes "max_size \<noteq> 0"
  shows "lw_rep (new_lwlog mem max_size flags) ([], Some 0)" "MAX_ENTRIES (new_lwlog mem max_size flags) = max_size"
    "LWLOG_FLAGS (new_lwlog mem max_size flags) = flags OR LWLOG_ENABLED" "LWLOG_NUMBER (new_lwlog mem max_size flags) = 1"
proof -
  have m: "unat (max_size - 1) = unat max_size - 1" "0 < unat max_size"
    using assms by (simp_all add: unat_minus_one unat_gt_0)
  then show "lw_rep (new_lwlog mem max_size flags) ([], Some 0)"
    by (auto simp: lw_rep_def holds_def scans_def new_lwlog_def split_beta link_entries_props Let_def)
  show "MAX_ENTRIES (new_lwlog mem max_size flags) = max_size"
    "LWLOG_FLAGS (new_lwlog mem max_size flags) = flags OR LWLOG_ENABLED" "LWLOG_NUMBER (new_lwlog mem max_size flags) = 1"
    by (simp_all add: new_lwlog_def split_beta Let_def)
qed

lemma holds_reset:
  assumes "holds l es"
  shows "lw_rep (reset_lwlog l) ([], Some 0)"
proof -
  have "0 < lw_size l" using assms by (auto simp: holds_def)
  then have "unat (MAX_ENTRIES l - 1) = lw_size l - 1" by (intro unat_minus_one) auto
  with \<open>0 < lw_size l\<close> assms show ?thesis by (auto simp: lw_rep_def holds_def scans_def reset_lwlog_def)
qed

lemma holds_newest:
  assumes "holds l es" "es \<noteq> []"
  shows "content (ENTRIES l (WRITE_PTR l)) = last es"
proof -
  let ?m = "lw_size l"
  obtain n where n: "length es = Suc n" using assms by (cases es) auto
  have h: "Suc (WRITE_PTR l) mod ?m = (OLDEST_PTR l + length es) mod ?m" "WRITE_PTR l < ?m"
    using assms by (auto simp: holds_def)
  have "(1 + WRITE_PTR l) mod ?m = (1 + (OLDEST_PTR l + n) mod ?m) mod ?m" using h(1) n by (simp add: mod_simps)
  then have "WRITE_PTR l = (OLDEST_PTR l + n) mod ?m" using h(2) by (intro mod_inj [of 1 "WRITE_PTR l" ?m]) auto
  with assms n show ?thesis by (simp add: holds_def last_conv_nth)
qed

lemma fill_entry_holds:
  assumes h: "holds l es" and room: "length es < lw_size l"
  shows "lw_rep (fill_entry stamp data (l\<lparr>CURRENT_ENTRIES := CURRENT_ENTRIES l + 1\<rparr>)) (es @ [(LWLOG_NUMBER l, stamp, data)], None)"
    (is "lw_rep ?l _")
proof -
  let ?m = "lw_size l" and ?p = "(OLDEST_PTR l + length es) mod lw_size l"
  have p: "NEXT_PTR (ENTRIES l (WRITE_PTR l)) = ?p" using h by (simp add: holds_def)
  have "unat (CURRENT_ENTRIES l + 1) = length es + 1"
    using h room unat_add_small [of "CURRENT_ENTRIES l" 1] unat_u32_bound [of "MAX_ENTRIES l"] by (simp add: holds_def)
  moreover have "(OLDEST_PTR l + j) mod ?m \<noteq> ?p" if "j < length es" for j
    using mod_inj [of "OLDEST_PTR l" j ?m "length es"] that room by auto
  ultimately show ?thesis using h room
    by (auto simp: lw_rep_def holds_def scans_def fill_entry_def p Let_def content_def nth_append less_Suc_eq mod_simps)
qed

lemma fill_entry_frame:
  "MAX_ENTRIES (fill_entry stamp data l) = MAX_ENTRIES l" "LWLOG_FLAGS (fill_entry stamp data l) = LWLOG_FLAGS l"
  "LWLOG_NUMBER (fill_entry stamp data l) = LWLOG_NUMBER l + 1" "OLDEST_PTR (fill_entry stamp data l) = OLDEST_PTR l"
  "READ_PTR (fill_entry stamp data l) = READ_PTR l" "READS (fill_entry stamp data l) = READS l"
  by (simp_all add: fill_entry_def Let_def)

lemma holds_drop:
  assumes h: "holds l es" and ne: "es \<noteq> []" and r: "r < lw_size l"
  shows "holds (l\<lparr>CURRENT_ENTRIES := CURRENT_ENTRIES l - 1, OLDEST_PTR := Suc (OLDEST_PTR l) mod lw_size l, READ_PTR := r, READS := x\<rparr>) (tl es)"
proof -
  have "unat (CURRENT_ENTRIES l - 1) = length es - 1"
    using h ne by (subst unat_minus_one) (auto simp: holds_def)
  with h ne r show ?thesis by (cases es) (auto simp: holds_def mod_simps nth_Cons' split: if_splits)
qed

lemma write_lw_rep:
  fixes stamp data
  assumes rep: "lw_rep l (es, c)"
  defines "w \<equiv> lw_queue_write (lw_size l) (LWLOG_FLAGS l AND LOG_OVERWRITE \<noteq> 0) (LWLOG_NUMBER l, stamp, data) (es, c)"
  shows "\<exists>l'. write_lwlog stamp data l = (fst w, l') \<and> lw_rep l' (snd w) \<and> MAX_ENTRIES l' = MAX_ENTRIES l \<and> LWLOG_FLAGS l' = LWLOG_FLAGS l
     \<and> LWLOG_NUMBER l' = (if fst w = MQX_OK then LWLOG_NUMBER l + 1 else LWLOG_NUMBER l)"
proof (cases "length es < lw_size l")
  case True
  have h: "holds l es" "scans l es c" using rep by (simp_all add: lw_rep_def)
  then have "\<not> CURRENT_ENTRIES l \<ge> MAX_ENTRIES l" using True by (simp add: holds_def word_le_nat_alt)
  moreover have "scans (fill_entry stamp data (l\<lparr>CURRENT_ENTRIES := CURRENT_ENTRIES l + 1\<rparr>)) (es @ [e]) c" for e
    using h(2) by (auto simp: scans_def fill_entry_frame)
  ultimately show ?thesis using fill_entry_holds [OF h(1) True, of stamp data] True
    by (simp add: w_def write_lwlog_def Let_def lw_queue_write_def fill_entry_frame lw_rep_def)
next
  case False
  have h: "holds l es" using rep by (simp add: lw_rep_def)
  then have full: "CURRENT_ENTRIES l \<ge> MAX_ENTRIES l" "length es = lw_size l" "es \<noteq> []"
    using False by (auto simp: holds_def word_le_nat_alt)
  let ?p = "OLDEST_PTR l" and ?next = "Suc (OLDEST_PTR l) mod lw_size l"
  let ?r = "if ?p = READ_PTR l then ?next else READ_PTR l"
  have p: "NEXT_PTR (ENTRIES l (WRITE_PTR l)) = ?p" "NEXT_PTR (ENTRIES l ?p) = ?next" using h full by (simp_all add: holds_def)
  show ?thesis
  proof (cases "LWLOG_FLAGS l AND LOG_OVERWRITE = 0")
    case True
    with full rep False show ?thesis by (simp add: w_def write_lwlog_def lw_queue_write_def Let_def)
  next
    case ow: False
    let ?l = "l\<lparr>CURRENT_ENTRIES := CURRENT_ENTRIES l - 1, OLDEST_PTR := ?next, READ_PTR := ?r, READS := READS l\<rparr>"
    have "?r < lw_size l" using h by (auto simp: holds_def)
    note d = holds_drop [OF h full(3) this, of "READS l"]
    have eq: "?l\<lparr>CURRENT_ENTRIES := CURRENT_ENTRIES ?l + 1\<rparr> = l\<lparr>READ_PTR := ?r, OLDEST_PTR := ?next\<rparr>" "LWLOG_NUMBER ?l = LWLOG_NUMBER l"
      by (cases l, simp)+
    have "length (tl es) < lw_size ?l" using full by (cases es) simp_all
    from fill_entry_holds [OF d this, of stamp data, unfolded eq]
    have "lw_rep (fill_entry stamp data (l\<lparr>READ_PTR := ?r, OLDEST_PTR := ?next\<rparr>)) (tl es @ [(LWLOG_NUMBER l, stamp, data)], None)" .
    moreover have "write_lwlog stamp data l = (MQX_OK, fill_entry stamp data (l\<lparr>READ_PTR := ?r, OLDEST_PTR := ?next\<rparr>))"
      unfolding write_lwlog_def Let_def p if_P [OF full(1)] using ow by simp
    ultimately show ?thesis using ow False by (simp add: w_def lw_queue_write_def fill_entry_frame)
  qed
qed

lemma read_lw_rep:
  assumes rep: "lw_rep l (es, c)" and c: "t = LOG_READ_NEXT \<longrightarrow> c \<noteq> None"
  shows "\<exists>l'. (map_sum id content (fst (read_lwlog t l)), snd (read_lwlog t l)) = (fst (lw_queue_read t (es, c)), l')
     \<and> lw_rep l' (snd (lw_queue_read t (es, c))) \<and> MAX_ENTRIES l' = MAX_ENTRIES l \<and> LWLOG_FLAGS l' = LWLOG_FLAGS l \<and> LWLOG_NUMBER l' = LWLOG_NUMBER l"
proof (cases "es = []")
  case True
  then have "CURRENT_ENTRIES l = 0" using rep by (simp add: lw_rep_def holds_def unat_eq_zero)
  with True rep show ?thesis by (simp add: read_lwlog_def lw_queue_read_def)
next
  case False
  have h: "holds l es" and s: "scans l es c" using rep by (simp_all add: lw_rep_def)
  have n: "CURRENT_ENTRIES l \<noteq> 0" "NEXT_PTR (ENTRIES l (OLDEST_PTR l)) = Suc (OLDEST_PTR l) mod lw_size l"
    "content (ENTRIES l (OLDEST_PTR l)) = hd es" "lw_size l > 0"
    using h False by (auto simp: holds_def hd_conv_nth)
  consider "t = LOG_READ_OLDEST_AND_DELETE" | "t = LOG_READ_OLDEST" | "t = LOG_READ_NEXT" | "t = LOG_READ_NEWEST"
    | "t \<notin> {LOG_READ_OLDEST_AND_DELETE, LOG_READ_OLDEST, LOG_READ_NEXT, LOG_READ_NEWEST}" by blast
  then show ?thesis
  proof cases
    case 1
    with holds_drop [OF h False, of "Suc (OLDEST_PTR l) mod lw_size l" 0] n False show ?thesis
      by (simp add: read_lwlog_def lw_queue_read_def lw_rep_def scans_def Let_def)
  next
    case 2
    with h n False show ?thesis
      by (cases es) (auto simp: read_lwlog_def lw_queue_read_def lw_rep_def scans_def holds_def Let_def)
  next
    case 3
    with c obtain j where j: "c = Some j" by auto
    then have r: "j \<le> length es" "READ_PTR l = (OLDEST_PTR l + j) mod lw_size l" "unat (READS l) = j" using s by (simp_all add: scans_def)
    have w: "NEXT_PTR (ENTRIES l (WRITE_PTR l)) = (OLDEST_PTR l + length es) mod lw_size l" using h by (simp add: holds_def)
    show ?thesis
    proof (cases "j < length es")
      case True
      then have "\<not> READS l \<ge> CURRENT_ENTRIES l" "content (ENTRIES l (READ_PTR l)) = es ! j"
        "NEXT_PTR (ENTRIES l (READ_PTR l)) = (OLDEST_PTR l + Suc j) mod lw_size l"
        using h r n by (auto simp: holds_def word_le_nat_alt mod_simps)
      moreover have "unat (READS l + 1) = Suc j"
        using r True h unat_add_small [of "READS l" 1] unat_u32_bound [of "MAX_ENTRIES l"] by (simp add: holds_def)
      ultimately show ?thesis using 3 h n False True j
        by (simp add: read_lwlog_def lw_queue_read_def lw_rep_def scans_def Let_def) (auto simp: holds_def)
    next
      case F: False
      then have "READS l \<ge> CURRENT_ENTRIES l" "j = length es" using h r by (simp_all add: holds_def word_le_nat_alt)
      with 3 rep n False F j r w show ?thesis by (simp add: read_lwlog_def lw_queue_read_def)
    qed
  next
    case 4
    with h n False holds_newest [OF h False] show ?thesis
      by (auto simp: read_lwlog_def lw_queue_read_def lw_rep_def scans_def holds_def)
  next
    case 5
    with rep n False show ?thesis by (simp add: read_lwlog_def lw_queue_read_def)
  qed
qed

section \<open>The calls\<close>

definition lw_represents :: "kernel \<Rightarrow> u32 \<Rightarrow> u32 \<Rightarrow> u32 \<Rightarrow> u32 \<Rightarrow> lw_queue \<Rightarrow> bool" where
  "lw_represents k n m fl num q \<longleftrightarrow> KERNEL_LWLOG (OBJ k) = Some LWLOG_VALID \<and> n < LOG_MAXIMUM_NUMBER
     \<and> (\<exists>l. lwlog_at n k = Some l \<and> MAX_ENTRIES l = m \<and> LWLOG_FLAGS l = fl \<and> LWLOG_NUMBER l = num \<and> lw_rep l q)"

lemma lwlog_simps [simp]:
  "lwlog_at n (INT_DISABLE k) = lwlog_at n k" "lwlog_at n (INT_ENABLE k) = lwlog_at n k" "lwlog_at n (set_lwlog n x k) = x"
  "KERNEL_LWLOG (OBJ (set_lwlog n x k)) = KERNEL_LWLOG (OBJ k)"
  by (simp_all add: lwlog_at_def set_lwlog_def)

lemma lwlog_stamp_INT [simp]: "lwlog_stamp hw (INT_DISABLE k) = lwlog_stamp hw k"
proof -
  have frame: "HW_TICKS_PER_TICK (INT_DISABLE k) = HW_TICKS_PER_TICK k" "TIME (INT_DISABLE k) = TIME k" "OBJ (INT_DISABLE k) = OBJ k"
    by (simp_all add: INT_DISABLE_def upd_td_def)
  show ?thesis unfolding lwlog_stamp_def psp_add_ticks_def frame ..
qed

lemma lwlog_write_call:
  assumes "lw_represents k n m fl num q" and en: "fl AND LWLOG_ENABLED \<noteq> 0"
  shows "let (r, q') = lw_queue_write (unat m) (fl AND LOG_OVERWRITE \<noteq> 0) (num, lwlog_stamp hw k, data) q; (r', k') = lwlog_write hw n data k
         in r' = r \<and> lw_represents k' n m fl (if r = MQX_OK then num + 1 else num) q'"
proof -
  obtain es c where q: "q = (es, c)" by (cases q)
  obtain l where K: "KERNEL_LWLOG (OBJ k) = Some LWLOG_VALID" "\<not> LOG_MAXIMUM_NUMBER \<le> n" "n < LOG_MAXIMUM_NUMBER"
    and l: "lwlog_at n k = Some l" "MAX_ENTRIES l = m" "LWLOG_FLAGS l = fl" "LWLOG_NUMBER l = num" "lw_rep l (es, c)"
    using assms(1) unfolding lw_represents_def q by auto
  let ?w = "lw_queue_write (unat m) (fl AND LOG_OVERWRITE \<noteq> 0) (num, lwlog_stamp hw k, data) q"
  from write_lw_rep [OF l(5), of "lwlog_stamp hw k" data] l obtain l' where
    "write_lwlog (lwlog_stamp hw k) data l = (fst ?w, l')" "lw_rep l' (snd ?w)" "MAX_ENTRIES l' = m" "LWLOG_FLAGS l' = fl"
    "LWLOG_NUMBER l' = (if fst ?w = MQX_OK then num + 1 else num)" unfolding q by auto
  with K l en show ?thesis by (auto simp: lwlog_write_def lwlog_write_internal_def Let_def lw_represents_def split_beta)
qed

lemma lwlog_read_call:
  assumes "lw_represents k n m fl num q" and c: "t = LOG_READ_NEXT \<longrightarrow> snd q \<noteq> None"
  shows "let (r, q') = lw_queue_read t q; (r', k') = lwlog_read n t True k
         in map_sum id content r' = r \<and> lw_represents k' n m fl num q'"
proof -
  obtain es c where q: "q = (es, c)" by (cases q)
  obtain l where K: "KERNEL_LWLOG (OBJ k) = Some LWLOG_VALID" "\<not> LOG_MAXIMUM_NUMBER \<le> n" "n < LOG_MAXIMUM_NUMBER"
    and l: "lwlog_at n k = Some l" "MAX_ENTRIES l = m" "LWLOG_FLAGS l = fl" "LWLOG_NUMBER l = num" "lw_rep l (es, c)"
    using assms(1) unfolding lw_represents_def q by auto
  from read_lw_rep [OF l(5), of t] c K l show ?thesis unfolding q
    by (auto simp: lwlog_read_def Let_def lw_represents_def split_beta)
qed

lemma lwlog_reset_call:
  assumes "lw_represents k n m fl num q"
  shows "let (r, k') = lwlog_reset n k in r = MQX_OK \<and> lw_represents k' n m fl 1 ([], Some 0)"
proof -
  obtain l where K: "KERNEL_LWLOG (OBJ k) = Some LWLOG_VALID" "\<not> LOG_MAXIMUM_NUMBER \<le> n" "n < LOG_MAXIMUM_NUMBER"
    and l: "lwlog_at n k = Some l" "MAX_ENTRIES l = m" "LWLOG_FLAGS l = fl" "LWLOG_NUMBER l = num" "holds l (fst q)"
    using assms unfolding lw_represents_def lw_rep_def by auto
  with holds_reset [OF l(5)] show ?thesis
    by (auto simp: lwlog_reset_def Let_def lw_represents_def reset_lwlog_def)
qed

text \<open>C18 (refinement). A lightweight log behaves as a bounded queue. A write to an enabled log appends an entry with the next
  sequence number, in place of the oldest one if the log is full and may overwrite, and is refused if it may not. Reading
  delivers the oldest entry and removes it if told to, or the newest one; \<^verbatim>\<open>LOG_READ_NEXT\<close> continues a scan, as long as it has not been
  disturbed by an overwritten entry or a read of the newest one, with the first entry not yet delivered and ends with
  \<^verbatim>\<open>LOG_ENTRY_NOT_AVAILABLE\<close> after the last. A reset empties the log.\<close>

theorem lwlogs_refine_queues:
  assumes "lw_represents k n m fl num q"
  shows "(fl AND LWLOG_ENABLED \<noteq> 0 \<longrightarrow>
           (let (r, q') = lw_queue_write (unat m) (fl AND LOG_OVERWRITE \<noteq> 0) (num, lwlog_stamp hw k, data) q; (r', k') = lwlog_write hw n data k
            in r' = r \<and> lw_represents k' n m fl (if r = MQX_OK then num + 1 else num) q'))
       \<and> ((t = LOG_READ_NEXT \<longrightarrow> snd q \<noteq> None) \<longrightarrow>
           (let (r, q') = lw_queue_read t q; (r', k') = lwlog_read n t True k
            in map_sum id content r' = r \<and> lw_represents k' n m fl num q'))
       \<and> (let (r, k') = lwlog_reset n k in r = MQX_OK \<and> lw_represents k' n m fl 1 ([], Some 0))"
  using lwlog_write_call [OF assms] lwlog_read_call [OF assms] lwlog_reset_call [OF assms] by blast

theorem lwlogs_refine_queues_witness:
  "let k = set_lwlog 3 (Some (new_lwlog (\<lambda>_. zero_entry) 2 LOG_OVERWRITE)) (demo\<lparr>OBJ := (OBJ demo)\<lparr>KERNEL_LWLOG := Some LWLOG_VALID\<rparr>\<rparr>)
   in lw_represents k 3 2 (LOG_OVERWRITE OR LWLOG_ENABLED) 1 ([], Some 0)
      \<and> (let (r, k') = lwlog_write None 3 [1, 2, 3, 4, 5, 6, 7] k
         in r = MQX_OK \<and> lw_represents k' 3 2 (LOG_OVERWRITE OR LWLOG_ENABLED) 2 ([(1, lwlog_stamp None k, [1, 2, 3, 4, 5, 6, 7])], Some 0))
      \<and> map_sum id content (fst (lwlog_read 3 LOG_READ_NEXT True k)) = Inl LOG_ENTRY_NOT_AVAILABLE"
proof -
  define k where "k = set_lwlog 3 (Some (new_lwlog (\<lambda>_. zero_entry) 2 LOG_OVERWRITE)) (demo\<lparr>OBJ := (OBJ demo)\<lparr>KERNEL_LWLOG := Some LWLOG_VALID\<rparr>\<rparr>)"
  have r: "lw_represents k 3 2 (LOG_OVERWRITE OR LWLOG_ENABLED) 1 ([], Some 0)"
    using holds_new [of 2 "\<lambda>_. zero_entry" LOG_OVERWRITE] by (simp add: k_def lw_represents_def)
  from lwlogs_refine_queues [OF r, of None "[1, 2, 3, 4, 5, 6, 7]" LOG_READ_NEXT]
  have "(let (r, k') = lwlog_write None 3 [1, 2, 3, 4, 5, 6, 7] k
         in r = MQX_OK \<and> lw_represents k' 3 2 (LOG_OVERWRITE OR LWLOG_ENABLED) 2 ([(1, lwlog_stamp None k, [1, 2, 3, 4, 5, 6, 7])], Some 0))
      \<and> map_sum id content (fst (lwlog_read 3 LOG_READ_NEXT True k)) = Inl LOG_ENTRY_NOT_AVAILABLE"
    by (simp add: lw_queue_write_def lw_queue_read_def split_beta)
  with r show ?thesis by (simp add: k_def)
qed

text \<open>A log that represents a queue passes the test, although the range the test allows is moved by the wrong size of the header:
  entries lie at multiples of their size.\<close>

lemma entry_in_range_iff: "entry_in_range l i \<longleftrightarrow> i < lw_size l"
  by (auto simp: entry_in_range_def)

lemma walk_in_range_holds: "holds l es \<Longrightarrow> i < lw_size l \<Longrightarrow> walk_in_range j i l"
  by (induction j arbitrary: i) (auto simp: entry_in_range_iff holds_def)

lemma lwlog_test_accepts:
  assumes "KERNEL_LWLOG (OBJ k) = Some LWLOG_VALID" "\<And>i l. LWLOGS (OBJ k) i = Some l \<Longrightarrow> \<exists>es. holds l es"
  shows "fst (lwlog_test True k) = (MQX_OK, 0)"
proof -
  have "lwlog_fine l" if "holds l es" for l es
    using that walk_in_range_holds [OF that, of 0 "lw_size l"] by (auto simp: lwlog_fine_def entry_in_range_iff holds_def)
  then have "find (\<lambda>i. case LWLOGS (OBJ k) i of None \<Rightarrow> False | Some l \<Rightarrow> \<not> lwlog_fine l) [0..<16] = None"
    using assms(2) by (auto simp: find_None_iff split: option.splits) blast
  then show ?thesis using assms(1) by (simp add: lwlog_test_def Let_def)
qed

text \<open>Fact. A reader that has seen both entries of a full log is not given the one written next: \<^verbatim>\<open>READS\<close> is not adjusted when an entry is
  overwritten, and the reading position is moved past the new entry.\<close>

lemma lwlog_scan_misses_entry:
  defines "w \<equiv> \<lambda>n l. snd (write_lwlog \<lparr>TICKS = 0, HW_TICKS = 0\<rparr> [n, 0, 0, 0, 0, 0, 0] l)"
  defines "l \<equiv> w 2 (w 1 (new_lwlog (\<lambda>_. zero_entry) 2 LOG_OVERWRITE))"
  shows "map_sum id ENTRY_DATA (fst (read_lwlog LOG_READ_NEXT (snd (read_lwlog LOG_READ_OLDEST l)))) = Inr [2, 0, 0, 0, 0, 0, 0]"
    and "fst (read_lwlog LOG_READ_NEXT (w 3 (snd (read_lwlog LOG_READ_NEXT (snd (read_lwlog LOG_READ_OLDEST l)))))) = Inl LOG_ENTRY_NOT_AVAILABLE"
  unfolding l_def w_def by code_simp+

text \<open>Fact. \<^verbatim>\<open>_lwlog_reset\<close> returns with interrupts disabled if the component is not valid.\<close>

lemma lwlog_reset_leaves_disabled:
  assumes "KERNEL_LWLOG (OBJ k) = Some v" "v \<noteq> LWLOG_VALID" "n < LOG_MAXIMUM_NUMBER"
  shows "lwlog_reset n k = (MQX_INVALID_COMPONENT_HANDLE, INT_DISABLE k)"
  using assms by (simp add: lwlog_reset_def not_le)

end
