(* ===== verification/Memory_Layout.thy ===== *)
theory Memory_Layout
  imports Scheduler
begin

unbundle bit_operations_syntax

text \<open>
  What the memory components share: the alignment macros of \<^verbatim>\<open>mqx_prv.h\<close> for a memory alignment of 16 bytes
  (\<^verbatim>\<open>PSP_MEMORY_ALIGNMENT\<close> of the Cortex-M port), zeroing, the task that stands for the system, and the
  arithmetic of aligned addresses.
\<close>

abbreviation (input) MQX_NOT_RESOURCE_OWNER :: u32 where "MQX_NOT_RESOURCE_OWNER \<equiv> 3"
abbreviation (input) MQX_OUT_OF_MEMORY :: u32 where "MQX_OUT_OF_MEMORY \<equiv> 4"
abbreviation (input) PSP_MEMORY_ALIGNMENT :: u32 where "PSP_MEMORY_ALIGNMENT \<equiv> 15"

definition ALIGN_LARGER :: "u32 \<Rightarrow> u32" where
  "ALIGN_LARGER v = (v + PSP_MEMORY_ALIGNMENT) AND NOT PSP_MEMORY_ALIGNMENT"

definition ALIGN_SMALLER :: "u32 \<Rightarrow> u32" where
  "ALIGN_SMALLER v = v AND NOT PSP_MEMORY_ALIGNMENT"

definition system_task_id :: "kernel \<Rightarrow> u32" where
  "system_task_id k = TASK_ID (TDS k (SYSTEM_TD k))"

text \<open>\<^verbatim>\<open>_mem_zero\<close>, byte by byte.\<close>

primrec zero_bytes :: "nat \<Rightarrow> ptr \<Rightarrow> (ptr \<Rightarrow> u8) \<Rightarrow> ptr \<Rightarrow> u8" where
  "zero_bytes 0 a m = m"
| "zero_bytes (Suc n) a m = zero_bytes n (a + 1) (m(a := 0))"

subsection \<open>Frames\<close>

lemma task_id_int [simp]:
  "TASK_ID (TDS (INT_DISABLE k) t) = TASK_ID (TDS k t)" "TASK_ID (TDS (INT_ENABLE k) t) = TASK_ID (TDS k t)"
  "SYSTEM_TD (INT_DISABLE k) = SYSTEM_TD k" "SYSTEM_TD (INT_ENABLE k) = SYSTEM_TD k"
  by (simp_all add: INT_DISABLE_def INT_ENABLE_def upd_td_def)

lemma system_task_id_frame [simp]:
  "system_task_id (INT_DISABLE k) = system_task_id k" "system_task_id (INT_ENABLE k) = system_task_id k"
  by (simp_all add: system_task_id_def)

lemma task_set_error_obj [simp]:
  "OBJ (snd (task_set_error e k)) = OBJ k" "system_task_id (snd (task_set_error e k)) = system_task_id k"
  by (simp_all add: task_set_error_def Let_def system_task_id_def upd_td_def)

subsection \<open>Aligned words\<close>

lemma and_not_15: "(x :: u32) AND NOT 15 = x - take_bit 4 x"
proof -
  have m: "(15 :: u32) = mask 4" by (simp add: mask_eq_exp_minus_1)
  have "x AND NOT 15 = push_bit 4 (drop_bit 4 x)" unfolding m by (rule bit_eqI) (auto simp: bit_simps)
  then show ?thesis using bits_ident [of 4 x] by (metis add_diff_cancel_right')
qed

lemma unat_and_not_15: "unat ((x :: u32) AND NOT 15) = unat x div 16 * 16"
proof -
  have t: "unat (take_bit 4 x) = unat x mod 16" by (simp add: unsigned_take_bit_eq take_bit_eq_mod unat_mod)
  have "unat (x AND NOT 15) = unat x - unat x mod 16" unfolding and_not_15
    by (subst unat_sub) (simp_all add: t word_le_nat_alt)
  then show ?thesis by (simp add: minus_mod_eq_div_mult)
qed

lemma unat_align:
  assumes "unat v + 15 < 2 ^ 32"
  shows "unat (ALIGN_LARGER v) = (unat v + 15) div 16 * 16"
  unfolding ALIGN_LARGER_def unat_and_not_15 using unat_add_small [of v 15] assms by simp

lemma align_wraps: "2 ^ 32 \<le> unat v + 15 \<Longrightarrow> ALIGN_LARGER v = 0"
proof -
  assume a: "2 ^ 32 \<le> unat v + 15"
  have "unat (v + 15) = unat v + 15 - 2 ^ 32"
    using a unat_u32_bound [of v] by (simp add: unat_word_ariths mod_if)
  then have "unat (v + 15) div 16 = 0" using unat_u32_bound [of v] by simp
  then have "unat (ALIGN_LARGER v) = 0" unfolding ALIGN_LARGER_def unat_and_not_15 by simp
  then show ?thesis by (simp add: unat_eq_0)
qed

lemma aligned_align: "take_bit 4 (ALIGN_LARGER v) = 0"
proof -
  have m: "(15 :: u32) = mask 4" by (simp add: mask_eq_exp_minus_1)
  show ?thesis unfolding ALIGN_LARGER_def m by (rule bit_eqI) (auto simp: bit_simps)
qed

lemma align_after_aligned:
  assumes "take_bit 4 x = 0"
  shows "ALIGN_LARGER (x + 60) = x + 64"
proof -
  have t: "unat (take_bit 4 y) = unat y mod 16" for y :: u32 by (simp add: unsigned_take_bit_eq take_bit_eq_mod unat_mod)
  have "unat x mod 16 = 0" using t [of x] assms by simp
  then have "unat (x + 75) mod 16 = 11" by (simp add: unat_word_ariths mod_mod_cancel) presburger
  then have "take_bit 4 (x + 60 + 15) = 11" using t [of "x + 75"] by (simp add: word_unat_eq_iff add.assoc)
  then show ?thesis unfolding ALIGN_LARGER_def and_not_15 by (simp only:) simp
qed

lemma align_bounds:
  assumes "unat v + 15 < 2 ^ 32"
  shows "unat v \<le> unat (ALIGN_LARGER v)" and "unat (ALIGN_LARGER v) < unat v + 16" and "16 dvd unat (ALIGN_LARGER v)"
  unfolding unat_align [OF assms] by presburger+

end
