(* ===== verification/Partition.thy ===== *)
theory Partition
  imports Lwsem Memory_Layout
begin

unbundle bit_operations_syntax

text \<open>
  Partitions (\<^verbatim>\<open>kernel/partition.c\<close>): pools of blocks of one size, created in given memory or in memory of the
  system, with a linked free list and checksums on the block headers. The structures and their sizes
  are those of \<^verbatim>\<open>partition_prv.h\<close> on a 32-bit processor, the alignment is 16 bytes. The answers of the system
  memory manager (an address, or zero) are arguments. The loops that run with interrupts enabled and disable
  them around each step are modelled without these balanced pairs.
\<close>

abbreviation (input) PARTITION_VALID :: u32 where "PARTITION_VALID \<equiv> 0x70617274"
abbreviation (input) PARTITION_DYNAMIC :: u32 where "PARTITION_DYNAMIC \<equiv> 2"
abbreviation (input) PARTITION_STATIC :: u32 where "PARTITION_STATIC \<equiv> 4"
abbreviation (input) PARTITION_INVALID :: u32 where "PARTITION_INVALID \<equiv> 0x801"
abbreviation (input) PARTITION_OUT_OF_BLOCKS :: u32 where "PARTITION_OUT_OF_BLOCKS \<equiv> 0x802"
abbreviation (input) PARTITION_INVALID_TASK_ID :: u32 where "PARTITION_INVALID_TASK_ID \<equiv> 0x805"
abbreviation (input) PARTITION_BLOCK_INVALID_CHECKSUM :: u32 where "PARTITION_BLOCK_INVALID_CHECKSUM \<equiv> 0x806"
abbreviation (input) PARTITION_INVALID_TYPE :: u32 where "PARTITION_INVALID_TYPE \<equiv> 0x807"
abbreviation (input) PARTITION_ALL_BLOCKS_NOT_FREE :: u32 where "PARTITION_ALL_BLOCKS_NOT_FREE \<equiv> 0x808"

text \<open>\<^verbatim>\<open>sizeof\<close> of the three structures.\<close>

abbreviation (input) PARTPOOL_SIZE :: u32 where "PARTPOOL_SIZE \<equiv> 60"
abbreviation (input) AREA_SIZE :: u32 where "AREA_SIZE \<equiv> 16"
abbreviation (input) HEADER_SIZE :: u32 where "HEADER_SIZE \<equiv> 12"

definition POOL :: "ptr \<Rightarrow> ptr" where "POOL p = p + 44"

subsection \<open>Access to the structures\<close>

definition upd_pool :: "ptr \<Rightarrow> (partpool \<Rightarrow> partpool) \<Rightarrow> partitions \<Rightarrow> partitions" where
  "upd_pool p f P = P\<lparr>PARTPOOLS := (PARTPOOLS P)(p := f (PARTPOOLS P p))\<rparr>"

definition upd_area :: "ptr \<Rightarrow> (parea \<Rightarrow> parea) \<Rightarrow> partitions \<Rightarrow> partitions" where
  "upd_area a f P = P\<lparr>PAREAS := (PAREAS P)(a := f (PAREAS P a))\<rparr>"

definition upd_block :: "ptr \<Rightarrow> (pblock \<Rightarrow> pblock) \<Rightarrow> partitions \<Rightarrow> partitions" where
  "upd_block b f P = P\<lparr>PBLOCKS := (PBLOCKS P)(b := f (PBLOCKS P b))\<rparr>"

definition upd_part :: "(partitions \<Rightarrow> partitions) \<Rightarrow> kernel \<Rightarrow> kernel" where
  "upd_part f k = k\<lparr>OBJ := (OBJ k)\<lparr>PART := f (PART (OBJ k))\<rparr>\<rparr>"

abbreviation part :: "kernel \<Rightarrow> partitions" where "part k \<equiv> PART (OBJ k)"

definition CALC_PARTITION_CHECKSUM :: "pblock \<Rightarrow> pblock" where
  "CALC_PARTITION_CHECKSUM d = d\<lparr>CHECKSUM := LINK d + BLK_TASK_ID d\<rparr>"

definition VALID_PARTITION_CHECKSUM :: "pblock \<Rightarrow> bool" where
  "VALID_PARTITION_CHECKSUM d \<longleftrightarrow> CHECKSUM d = LINK d + BLK_TASK_ID d"

definition pool_valid :: "ptr \<Rightarrow> partitions \<Rightarrow> bool" where
  "pool_valid p P \<longleftrightarrow> AREA_VALID (PAREAS P (POOL p)) = PARTITION_VALID"

subsection \<open>Creation\<close>

text \<open>A block joins the free list: the common steps of the loops.\<close>

definition link_block :: "ptr \<Rightarrow> ptr \<Rightarrow> partitions \<Rightarrow> partitions" where
  "link_block p b P =
     upd_pool p (\<lambda>r. r\<lparr>FREE_LIST_PTR := b\<rparr>)
       (upd_block b (\<lambda>d. CALC_PARTITION_CHECKSUM (d\<lparr>LINK := FREE_LIST_PTR (PARTPOOLS P p)\<rparr>)) P)"

primrec create_loop :: "nat \<Rightarrow> ptr \<Rightarrow> u32 \<Rightarrow> ptr \<Rightarrow> partitions \<Rightarrow> partitions" where
  "create_loop 0 p sz b P = P"
| "create_loop (Suc n) p sz b P = create_loop n p sz (b + sz) (link_block p b P)"

primrec extend_loop :: "nat \<Rightarrow> ptr \<Rightarrow> ptr \<Rightarrow> partitions \<Rightarrow> partitions" where
  "extend_loop 0 p b P = P"
| "extend_loop (Suc n) p b P =
     (let P1 = upd_pool p (\<lambda>r. r\<lparr>AVAILABLE := AVAILABLE r + 1\<rparr>) (link_block p b P)
      in extend_loop n p (b + BLOCK_SIZE (PARTPOOLS P1 p)) P1)"

definition partition_create_component :: "bool \<Rightarrow> kernel \<Rightarrow> (kernel, u32) prog" where
  "partition_create_component allocated k =
     (if IN_ISR k \<noteq> 0 then Done MQX_CANNOT_CALL_FUNCTION_FROM_ISR k
      else let s = COMPONENT_CREATE_LWSEM (OBJ k)
           in andthen (lwsem_wait s k) (\<lambda>_ k1.
                if PARTITION_COMPONENT (part k1) \<noteq> None then andthen (lwsem_post s k1) (\<lambda>_ k2. Done MQX_OK k2)
                else if \<not> allocated then andthen (lwsem_post s k1) (\<lambda>_ k2. Done MQX_OUT_OF_MEMORY k2)
                else andthen (lwsem_post s (upd_part (\<lambda>P. P\<lparr>PARTITION_COMPONENT := Some PARTITION_VALID, PARTITION_LIST := []\<rparr>) k1))
                       (\<lambda>_ k2. Done MQX_OK k2)))"

definition create_pool :: "ptr \<Rightarrow> u32 \<Rightarrow> u32 \<Rightarrow> partitions \<Rightarrow> partitions" where
  "create_pool p actual_size initial_blocks P =
     (let first = ALIGN_LARGER (p + PARTPOOL_SIZE);
          P1 = upd_pool p (\<lambda>_. \<lparr>BLOCK_SIZE = actual_size, AVAILABLE = initial_blocks, FREE_LIST_PTR = 0,
                 TOTAL_BLOCKS = initial_blocks, MAX_BLOCKS_USED = 0, GROW_BLOCKS = 0, MAXIMUM_BLOCKS = 0,
                 PARTITION_TYPE = 0, TEST_FREE_PTR = 0\<rparr>) P;
          P2 = upd_area (POOL p) (\<lambda>_. \<lparr>NEXT_POOL_PTR = 0, AREA_VALID = PARTITION_VALID, NUMBER_OF_BLOCKS = initial_blocks,
                 FIRST_IBLOCK_PTR = first\<rparr>) P1;
          P3 = create_loop (unat initial_blocks) p actual_size first P2
      in P3\<lparr>PARTITION_LIST := PARTITION_LIST P3 @ [p]\<rparr>)"

definition partition_create_internal :: "bool \<Rightarrow> ptr \<Rightarrow> u32 \<Rightarrow> u32 \<Rightarrow> kernel \<Rightarrow> (kernel, u32) prog" where
  "partition_create_internal allocated p actual_size initial_blocks k =
     andthen (if PARTITION_COMPONENT (part k) = None then partition_create_component allocated k else Done MQX_OK k)
       (\<lambda>result k1. if PARTITION_COMPONENT (part k1) = None then Done result k1
         else Done MQX_OK (INT_ENABLE (INT_DISABLE (upd_part (create_pool p actual_size initial_blocks) k1))))"

text \<open>The sizes a partition in given memory works with: the aligned structure, the start of the blocks, the
  size of a block and the number of blocks.\<close>

definition create_at_sizes :: "ptr \<Rightarrow> u32 \<Rightarrow> u32 \<Rightarrow> ptr \<times> ptr \<times> u32 \<times> u32" where
  "create_at_sizes partition_location partition_size block_size =
     (let p = ALIGN_LARGER partition_location;
          area = ALIGN_LARGER (p + PARTPOOL_SIZE);
          actual = ALIGN_LARGER (block_size + HEADER_SIZE)
      in (p, area, actual, (partition_size - (area - partition_location)) div actual))"

definition partition_create_at :: "bool \<Rightarrow> ptr \<Rightarrow> u32 \<Rightarrow> u32 \<Rightarrow> kernel \<Rightarrow> (kernel, ptr) prog" where
  "partition_create_at allocated partition_location partition_size block_size k =
     (if block_size = 0 then Done 0 (snd (task_set_error MQX_INVALID_PARAMETER k))
      else let (p, area, actual, n) = create_at_sizes partition_location partition_size block_size
           in if partition_size < area - partition_location then Done 0 (snd (task_set_error MQX_INVALID_PARAMETER k))
              else if n = 0 then Done 0 (snd (task_set_error MQX_INVALID_PARAMETER k))
              else andthen (partition_create_internal allocated p actual n k)
                     (\<lambda>result k1. if result \<noteq> MQX_OK then Done 0 (snd (task_set_error MQX_INVALID_PARAMETER k1))
                       else Done p (upd_part (upd_pool p (\<lambda>r. r\<lparr>PARTITION_TYPE := PARTITION_STATIC\<rparr>)) k1)))"

text \<open>\<^verbatim>\<open>_partition_create\<close>: \<open>mem\<close> answers a request of \<open>create_request\<close> bytes. When the component cannot be created
  the memory is freed again.\<close>

definition partition_actual_size :: "u32 \<Rightarrow> u32" where
  "partition_actual_size block_size = ALIGN_LARGER (HEADER_SIZE + block_size)"

definition create_request :: "u32 \<Rightarrow> u32 \<Rightarrow> u32" where
  "create_request block_size initial_blocks =
     PARTPOOL_SIZE + PSP_MEMORY_ALIGNMENT + partition_actual_size block_size * initial_blocks"

definition partition_create :: "bool \<Rightarrow> ptr \<Rightarrow> u32 \<Rightarrow> u32 \<Rightarrow> u32 \<Rightarrow> u32 \<Rightarrow> kernel \<Rightarrow> (kernel, ptr) prog" where
  "partition_create allocated mem block_size initial_blocks grow_blocks maximum_blocks k =
     (if IN_ISR k \<noteq> 0 then Done 0 (snd (task_set_error MQX_CANNOT_CALL_FUNCTION_FROM_ISR k))
      else if block_size = 0 then Done 0 (snd (task_set_error MQX_INVALID_PARAMETER k))
      else if mem = 0 then Done 0 k
      else andthen (partition_create_internal allocated mem (partition_actual_size block_size) initial_blocks k)
             (\<lambda>result k1. if result \<noteq> MQX_OK then Done 0 k1
               else Done mem (upd_part (upd_pool mem (\<lambda>r. r\<lparr>PARTITION_TYPE := PARTITION_DYNAMIC, GROW_BLOCKS := grow_blocks,
                      MAXIMUM_BLOCKS := maximum_blocks\<rparr>)) k1)))"

subsection \<open>Extension and destruction\<close>

definition partition_extend_internal :: "ptr \<Rightarrow> ptr \<Rightarrow> u32 \<Rightarrow> partitions \<Rightarrow> partitions" where
  "partition_extend_internal p a n P =
     (let first = ALIGN_LARGER (a + AREA_SIZE);
          P1 = upd_area a (\<lambda>r. r\<lparr>AREA_VALID := PARTITION_VALID, NUMBER_OF_BLOCKS := n, FIRST_IBLOCK_PTR := first\<rparr>) P;
          P2 = extend_loop (unat n) p first P1;
          P3 = upd_area a (\<lambda>r. r\<lparr>NEXT_POOL_PTR := NEXT_POOL_PTR (PAREAS P2 (POOL p))\<rparr>) P2
      in upd_area (POOL p) (\<lambda>r. r\<lparr>NEXT_POOL_PTR := a\<rparr>) P3)"

definition add_total :: "ptr \<Rightarrow> u32 \<Rightarrow> partitions \<Rightarrow> partitions" where
  "add_total p n = upd_pool p (\<lambda>r. r\<lparr>TOTAL_BLOCKS := TOTAL_BLOCKS r + n\<rparr>)"

definition partition_extend :: "ptr \<Rightarrow> ptr \<Rightarrow> u32 \<Rightarrow> kernel \<Rightarrow> u32 \<times> kernel" where
  "partition_extend p partition_location partition_size k =
     (let a = ALIGN_LARGER partition_location;
          b = ALIGN_LARGER (a + AREA_SIZE);
          n = (partition_size - (b - partition_location)) div BLOCK_SIZE (PARTPOOLS (part k) p)
      in if \<not> pool_valid p (part k) then (PARTITION_INVALID, k)
         else if PARTITION_TYPE (PARTPOOLS (part k) p) = PARTITION_DYNAMIC then (MQX_INVALID_PARAMETER, k)
         else if partition_size < b - partition_location then (MQX_INVALID_PARAMETER, snd (task_set_error MQX_INVALID_PARAMETER k))
         else if n = 0 then (MQX_INVALID_PARAMETER, snd (task_set_error MQX_INVALID_PARAMETER k))
         else (MQX_OK, upd_part (\<lambda>P. partition_extend_internal p a n (add_total p n P)) k))"

text \<open>The areas of a partition after the first, in the order of their links. The walk may not end on a broken
  list.\<close>

partial_function (option) area_list :: "partitions \<Rightarrow> ptr \<Rightarrow> ptr list option" where
  [code]: "area_list P a = (if a = 0 then Some [] else Option.bind (area_list P (NEXT_POOL_PTR (PAREAS P a))) (\<lambda>as. Some (a # as)))"

text \<open>\<^verbatim>\<open>_partition_destroy\<close>: the code, the state, and the memory freed in order; \<open>result\<close> is the answer of \<^verbatim>\<open>_mem_free\<close> on
  the partition.\<close>

definition partition_destroy :: "u32 \<Rightarrow> ptr \<Rightarrow> kernel \<Rightarrow> (u32 \<times> kernel \<times> ptr list) option" where
  "partition_destroy result p k =
     (let r = PARTPOOLS (part k) p
      in if PARTITION_COMPONENT (part k) = None then Some (0x18, k, [])
         else if \<not> pool_valid p (part k) then Some (MQX_INVALID_PARAMETER, k, [])
         else if PARTITION_TYPE r \<noteq> PARTITION_DYNAMIC then Some (PARTITION_INVALID_TYPE, k, [])
         else if TOTAL_BLOCKS r \<noteq> AVAILABLE r then Some (PARTITION_ALL_BLOCKS_NOT_FREE, k, [])
         else let k1 = INT_ENABLE (upd_part (\<lambda>P. P\<lparr>PARTITION_LIST := remove1 p (PARTITION_LIST P)\<rparr>) (INT_DISABLE k));
                  k2 = upd_part (upd_area (POOL p) (\<lambda>a. a\<lparr>AREA_VALID := 0\<rparr>)) k1
              in case area_list (part k2) (NEXT_POOL_PTR (PAREAS (part k2) (POOL p))) of
                   None \<Rightarrow> None
                 | Some as \<Rightarrow> Some (result, k2, as @ [p]))"

subsection \<open>Allocation and release\<close>

text \<open>The number of blocks a dynamic partition grows by when it is empty, if it may grow, and its growth with
  the memory \<open>mem\<close> obtained for them.\<close>

definition may_grow :: "partpool \<Rightarrow> bool" where
  "may_grow r \<longleftrightarrow> PARTITION_TYPE r = PARTITION_DYNAMIC \<and> GROW_BLOCKS r \<noteq> 0 \<and>
     (MAXIMUM_BLOCKS r = 0 \<or> TOTAL_BLOCKS r < MAXIMUM_BLOCKS r)"

definition grow_number :: "partpool \<Rightarrow> u32" where
  "grow_number r =
     (if MAXIMUM_BLOCKS r \<noteq> 0 \<and> GROW_BLOCKS r > MAXIMUM_BLOCKS r - TOTAL_BLOCKS r
      then MAXIMUM_BLOCKS r - TOTAL_BLOCKS r else GROW_BLOCKS r)"

definition partition_grow :: "ptr \<Rightarrow> ptr \<Rightarrow> partitions \<Rightarrow> partitions" where
  "partition_grow p mem P =
     (let n = grow_number (PARTPOOLS P p); P1 = add_total p n P
      in if mem \<noteq> 0 then partition_extend_internal p mem n P1
         else upd_pool p (\<lambda>r. r\<lparr>TOTAL_BLOCKS := TOTAL_BLOCKS r - n\<rparr>) P1)"

definition take_block :: "ptr \<Rightarrow> u32 \<Rightarrow> partitions \<Rightarrow> partitions" where
  "take_block p task_id P =
     (let b = FREE_LIST_PTR (PARTPOOLS P p);
          P1 = upd_pool p (\<lambda>r. r\<lparr>FREE_LIST_PTR := LINK (PBLOCKS P b), AVAILABLE := AVAILABLE r - 1\<rparr>) P;
          P2 = upd_pool p (\<lambda>r. if TOTAL_BLOCKS r - AVAILABLE r > MAX_BLOCKS_USED r
                               then r\<lparr>MAX_BLOCKS_USED := TOTAL_BLOCKS r - AVAILABLE r\<rparr> else r) P1;
          P3 = upd_block b (\<lambda>d. CALC_PARTITION_CHECKSUM (d\<lparr>BLK_TASK_ID := task_id, LINK := p\<rparr>)) P2
      in upd_pool p (\<lambda>r. r\<lparr>TEST_FREE_PTR := FREE_LIST_PTR r\<rparr>) P3)"

definition partition_alloc_internal :: "ptr \<Rightarrow> ptr \<Rightarrow> u32 \<Rightarrow> kernel \<Rightarrow> ptr \<times> kernel" where
  "partition_alloc_internal mem p task_id k =
     (if p = 0 then (0, snd (task_set_error PARTITION_INVALID k))
      else if \<not> pool_valid p (part k) then (0, snd (task_set_error PARTITION_INVALID k))
      else let k1 = INT_DISABLE k;
               r = PARTPOOLS (part k1) p;
               k2 = (if AVAILABLE r = 0 \<and> may_grow r
                     then INT_DISABLE (upd_part (partition_grow p mem) (INT_ENABLE k1)) else k1);
               b = FREE_LIST_PTR (PARTPOOLS (part k2) p)
           in if AVAILABLE (PARTPOOLS (part k2) p) = 0
              then (0, snd (task_set_error PARTITION_OUT_OF_BLOCKS (INT_ENABLE k2)))
              else if \<not> VALID_PARTITION_CHECKSUM (PBLOCKS (part k2) b)
              then (0, snd (task_set_error PARTITION_BLOCK_INVALID_CHECKSUM (INT_ENABLE k2)))
              else (b + HEADER_SIZE, INT_ENABLE (upd_part (take_block p task_id) k2)))"

definition partition_alloc :: "ptr \<Rightarrow> ptr \<Rightarrow> kernel \<Rightarrow> ptr \<times> kernel" where
  "partition_alloc mem p k = partition_alloc_internal mem p (TASK_ID (active_td k)) k"

definition partition_alloc_system :: "ptr \<Rightarrow> ptr \<Rightarrow> kernel \<Rightarrow> ptr \<times> kernel" where
  "partition_alloc_system mem p k = partition_alloc_internal mem p (system_task_id k) k"

text \<open>\<^verbatim>\<open>_mem_zero\<close> of the block that was handed out.\<close>

definition zeroed :: "ptr \<Rightarrow> ptr \<times> kernel \<Rightarrow> ptr \<times> kernel" where
  "zeroed p x =
     (let (result, k) = x
      in if result = 0 then x
         else (result, upd_part (\<lambda>P. P\<lparr>PDATA := zero_bytes (unat (BLOCK_SIZE (PARTPOOLS P p) - HEADER_SIZE)) result (PDATA P)\<rparr>) k))"

definition partition_alloc_zero :: "ptr \<Rightarrow> ptr \<Rightarrow> kernel \<Rightarrow> ptr \<times> kernel" where
  "partition_alloc_zero mem p k = zeroed p (partition_alloc_internal mem p (TASK_ID (active_td k)) k)"

definition partition_alloc_system_zero :: "ptr \<Rightarrow> ptr \<Rightarrow> kernel \<Rightarrow> ptr \<times> kernel" where
  "partition_alloc_system_zero mem p k = zeroed p (partition_alloc_internal mem p (system_task_id k) k)"

text \<open>A block returns to the free list of its partition, in \<^verbatim>\<open>_partition_free\<close> and, without the reset of the owner,
  in \<^verbatim>\<open>_partition_cleanup\<close>.\<close>

definition give_back :: "ptr \<Rightarrow> ptr \<Rightarrow> (pblock \<Rightarrow> pblock) \<Rightarrow> partitions \<Rightarrow> partitions" where
  "give_back p b f P =
     upd_pool p (\<lambda>r. r\<lparr>FREE_LIST_PTR := b, AVAILABLE := AVAILABLE r + 1\<rparr>)
       (upd_block b (\<lambda>d. CALC_PARTITION_CHECKSUM ((f d)\<lparr>LINK := FREE_LIST_PTR (PARTPOOLS P p)\<rparr>)) P)"

definition partition_free :: "ptr \<Rightarrow> kernel \<Rightarrow> u32 \<times> kernel" where
  "partition_free mem_ptr k =
     (let b = mem_ptr - HEADER_SIZE; d = PBLOCKS (part k) b
      in if \<not> VALID_PARTITION_CHECKSUM d then (PARTITION_BLOCK_INVALID_CHECKSUM, k)
         else if BLK_TASK_ID d \<noteq> system_task_id k \<and> BLK_TASK_ID d \<noteq> TASK_ID (active_td k) then (MQX_NOT_RESOURCE_OWNER, k)
         else let p = LINK d; k1 = INT_DISABLE k
              in if \<not> pool_valid p (part k1) then (PARTITION_INVALID, INT_ENABLE k1)
                 else (MQX_OK, INT_ENABLE (upd_part (give_back p b (\<lambda>d. d\<lparr>BLK_TASK_ID := 0\<rparr>)) k1)))"

definition partition_transfer :: "ptr \<Rightarrow> u32 \<Rightarrow> kernel \<Rightarrow> u32 \<times> kernel" where
  "partition_transfer mem_ptr new_owner_id k =
     (let b = mem_ptr - HEADER_SIZE
      in if \<not> VALID_PARTITION_CHECKSUM (PBLOCKS (part k) b) then (PARTITION_BLOCK_INVALID_CHECKSUM, k)
         else if task_get_td new_owner_id k = NULL then (PARTITION_INVALID_TASK_ID, k)
         else (MQX_OK, INT_ENABLE (upd_part (upd_block b (\<lambda>d. CALC_PARTITION_CHECKSUM (d\<lparr>BLK_TASK_ID := new_owner_id\<rparr>)))
                (INT_DISABLE k))))"

subsection \<open>Cleanup and test\<close>

text \<open>The blocks of an area one after the other, as the loops of \<^verbatim>\<open>_partition_cleanup\<close> and \<^verbatim>\<open>_partition_test\<close> visit them.\<close>

primrec cleanup_blocks :: "nat \<Rightarrow> ptr \<Rightarrow> u32 \<Rightarrow> ptr \<Rightarrow> partitions \<Rightarrow> partitions" where
  "cleanup_blocks 0 p task_id b P = P"
| "cleanup_blocks (Suc n) p task_id b P =
     (let d = PBLOCKS P b;
          P1 = (if BLK_TASK_ID d = task_id \<and> LINK d = p then give_back p b (\<lambda>d. d) P else P)
      in cleanup_blocks n p task_id (b + BLOCK_SIZE (PARTPOOLS P1 p)) P1)"

partial_function (option) cleanup_areas :: "ptr \<Rightarrow> u32 \<Rightarrow> ptr \<Rightarrow> partitions \<Rightarrow> partitions option" where
  [code]: "cleanup_areas p task_id a P =
     (if a = 0 then Some P
      else if AREA_VALID (PAREAS P a) \<noteq> PARTITION_VALID then Some P
      else let P1 = cleanup_blocks (unat (NUMBER_OF_BLOCKS (PAREAS P a))) p task_id (FIRST_IBLOCK_PTR (PAREAS P a)) P
           in cleanup_areas p task_id (NEXT_POOL_PTR (PAREAS P1 a)) P1)"

fun cleanup_pools :: "ptr list \<Rightarrow> u32 \<Rightarrow> partitions \<Rightarrow> partitions option" where
  "cleanup_pools [] task_id P = Some P"
| "cleanup_pools (p # ps) task_id P = Option.bind (cleanup_areas p task_id (POOL p) P) (cleanup_pools ps task_id)"

definition partition_cleanup :: "addr \<Rightarrow> kernel \<Rightarrow> kernel option" where
  "partition_cleanup td k =
     (if PARTITION_COMPONENT (part k) = None then Some k
      else if PARTITION_COMPONENT (part k) \<noteq> Some PARTITION_VALID then Some k
      else Option.bind (cleanup_pools (PARTITION_LIST (part k)) (TASK_ID (TDS k td)) (part k)) (\<lambda>P. Some (upd_part (\<lambda>_. P) k)))"

text \<open>The test returns the code and the partition, the area and the block (the address handed out) in error,
  where it sets them. It also moves \<open>TEST_FREE_PTR\<close>.\<close>

type_synonym part_report = "u32 \<times> ptr option \<times> ptr option \<times> ptr option"

primrec test_blocks :: "nat \<Rightarrow> ptr \<Rightarrow> ptr \<Rightarrow> ptr \<Rightarrow> partitions \<Rightarrow> part_report option" where
  "test_blocks 0 p a b P = None"
| "test_blocks (Suc n) p a b P =
     (if \<not> pool_valid p P then Some (PARTITION_INVALID, Some p, Some a, Some 0)
      else if \<not> VALID_PARTITION_CHECKSUM (PBLOCKS P b)
      then Some (PARTITION_BLOCK_INVALID_CHECKSUM, Some p, Some a, Some (b + HEADER_SIZE))
      else test_blocks n p a (b + BLOCK_SIZE (PARTPOOLS P p)) P)"

partial_function (option) test_areas :: "ptr \<Rightarrow> ptr \<Rightarrow> ptr \<Rightarrow> partitions \<Rightarrow> (part_report option \<times> ptr) option" where
  [code]: "test_areas p visited a P =
     (if a = 0 then Some (None, visited)
      else case test_blocks (unat (NUMBER_OF_BLOCKS (PAREAS P a))) p a (FIRST_IBLOCK_PTR (PAREAS P a)) P of
             Some e \<Rightarrow> Some (Some e, a)
           | None \<Rightarrow> test_areas p a (NEXT_POOL_PTR (PAREAS P a)) P)"

partial_function (option) test_free :: "ptr \<Rightarrow> ptr \<Rightarrow> ptr \<Rightarrow> partitions \<Rightarrow> (part_report option \<times> partitions) option" where
  [code]: "test_free p a b P =
     (if b = 0 then Some (None, P)
      else let P1 = upd_pool p (\<lambda>r. r\<lparr>TEST_FREE_PTR := b\<rparr>) P
           in if \<not> VALID_PARTITION_CHECKSUM (PBLOCKS P1 b)
              then Some (Some (PARTITION_BLOCK_INVALID_CHECKSUM, Some p, Some a, Some (b + HEADER_SIZE)), P1)
              else test_free p a (LINK (PBLOCKS P1 b)) P1)"

fun test_pools :: "ptr list \<Rightarrow> part_report \<Rightarrow> partitions \<Rightarrow> (part_report \<times> partitions) option" where
  "test_pools [] out P = Some (out, P)"
| "test_pools (p # ps) out P =
     (case test_areas p 0 (POOL p) P of
        None \<Rightarrow> None
      | Some (Some e, a) \<Rightarrow> Some (e, P)
      | Some (None, a) \<Rightarrow>
          (case test_free p a (FREE_LIST_PTR (PARTPOOLS P p)) P of
             None \<Rightarrow> None
           | Some (Some e, P1) \<Rightarrow> Some (e, P1)
           | Some (None, P1) \<Rightarrow> test_pools ps (MQX_OK, Some p, Some a, None) P1))"

definition partition_test :: "kernel \<Rightarrow> (part_report \<times> kernel) option" where
  "partition_test k =
     (case PARTITION_COMPONENT (part k) of
        None \<Rightarrow> Some ((MQX_OK, None, None, None), k)
      | Some valid \<Rightarrow>
          if valid \<noteq> PARTITION_VALID then Some ((0x1A, None, None, None), k)
          else Option.bind (test_pools (PARTITION_LIST (part k)) (MQX_OK, None, None, None) (part k))
                 (\<lambda>(out, P). Some (out, upd_part (\<lambda>_. P) k)))"

subsection \<open>Queries\<close>

definition pool_query :: "(partitions \<Rightarrow> u32) \<Rightarrow> u32 \<Rightarrow> ptr \<Rightarrow> kernel \<Rightarrow> u32 \<times> kernel" where
  "pool_query f failed p k =
     (if \<not> pool_valid p (part k) then (failed, snd (task_set_error PARTITION_INVALID k)) else (f (part k), k))"

definition partition_get_free_blocks :: "ptr \<Rightarrow> kernel \<Rightarrow> u32 \<times> kernel" where
  "partition_get_free_blocks p = pool_query (\<lambda>P. AVAILABLE (PARTPOOLS P p)) MAX_UINT_32 p"

definition partition_get_max_used_blocks :: "ptr \<Rightarrow> kernel \<Rightarrow> u32 \<times> kernel" where
  "partition_get_max_used_blocks p = pool_query (\<lambda>P. MAX_BLOCKS_USED (PARTPOOLS P p)) 0 p"

definition partition_get_total_blocks :: "ptr \<Rightarrow> kernel \<Rightarrow> u32 \<times> kernel" where
  "partition_get_total_blocks p = pool_query (\<lambda>P. TOTAL_BLOCKS (PARTPOOLS P p)) 0 p"

definition partition_get_block_size :: "ptr \<Rightarrow> kernel \<Rightarrow> u32 \<times> kernel" where
  "partition_get_block_size p = pool_query (\<lambda>P. BLOCK_SIZE (PARTPOOLS P p) - HEADER_SIZE) 0 p"

definition partition_get_total_size :: "ptr \<Rightarrow> kernel \<Rightarrow> (u32 \<times> kernel) option" where
  "partition_get_total_size p k =
     (if \<not> pool_valid p (part k) then Some (0, snd (task_set_error PARTITION_INVALID k))
      else case area_list (part k) (NEXT_POOL_PTR (PAREAS (part k) (POOL p))) of
             None \<Rightarrow> None
           | Some as \<Rightarrow>
               let size = sum_list (map (\<lambda>a. ALIGN_LARGER (a + AREA_SIZE) - a) as) + (ALIGN_LARGER (p + PARTPOOL_SIZE) - p);
                   r = PARTPOOLS (part k) p
               in Some (size + BLOCK_SIZE r * TOTAL_BLOCKS r, k))"

definition partition_calculate_size :: "u32 \<Rightarrow> u32 \<Rightarrow> u32" where
  "partition_calculate_size number_of_blocks block_size =
     PARTPOOL_SIZE + PSP_MEMORY_ALIGNMENT + ALIGN_LARGER (HEADER_SIZE + block_size) * number_of_blocks"

definition partition_calculate_blocks :: "u32 \<Rightarrow> u32 \<Rightarrow> kernel \<Rightarrow> u32 \<times> kernel" where
  "partition_calculate_blocks partition_size block_size k =
     (let actual = ALIGN_LARGER (HEADER_SIZE + block_size); sz = ALIGN_LARGER PARTPOOL_SIZE
      in if partition_size < sz then (0, snd (task_set_error MQX_INVALID_PARAMETER k))
         else ((partition_size - sz) div actual, k))"

definition partition_get_number_of :: "kernel \<Rightarrow> u32" where
  "partition_get_number_of k =
     (case PARTITION_COMPONENT (part k) of None \<Rightarrow> 0 | Some _ \<Rightarrow> of_nat (length (PARTITION_LIST (part k))))"

subsection \<open>Well-formed partitions\<close>

lemma upd_part_simps [simp]:
  "PARTPOOLS (upd_pool p f P) = (PARTPOOLS P)(p := f (PARTPOOLS P p))" "PAREAS (upd_pool p f P) = PAREAS P"
  "PBLOCKS (upd_pool p f P) = PBLOCKS P" "PARTITION_LIST (upd_pool p f P) = PARTITION_LIST P" "PDATA (upd_pool p f P) = PDATA P"
  "PARTPOOLS (upd_area a g P) = PARTPOOLS P" "PAREAS (upd_area a g P) = (PAREAS P)(a := g (PAREAS P a))"
  "PBLOCKS (upd_area a g P) = PBLOCKS P" "PARTITION_LIST (upd_area a g P) = PARTITION_LIST P" "PDATA (upd_area a g P) = PDATA P"
  "PARTPOOLS (upd_block b h P) = PARTPOOLS P" "PAREAS (upd_block b h P) = PAREAS P"
  "PBLOCKS (upd_block b h P) = (PBLOCKS P)(b := h (PBLOCKS P b))" "PARTITION_LIST (upd_block b h P) = PARTITION_LIST P"
  "PDATA (upd_block b h P) = PDATA P"
  by (simp_all add: upd_pool_def upd_area_def upd_block_def)

lemma checksum_simps [simp]:
  "VALID_PARTITION_CHECKSUM (CALC_PARTITION_CHECKSUM d)" "LINK (CALC_PARTITION_CHECKSUM d) = LINK d"
  "BLK_TASK_ID (CALC_PARTITION_CHECKSUM d) = BLK_TASK_ID d"
  by (simp_all add: VALID_PARTITION_CHECKSUM_def CALC_PARTITION_CHECKSUM_def)

text \<open>The free list from a pointer on, and the areas.\<close>

fun block_chain :: "(ptr \<Rightarrow> pblock) \<Rightarrow> ptr \<Rightarrow> ptr list \<Rightarrow> bool" where
  "block_chain B b [] \<longleftrightarrow> b = 0"
| "block_chain B b (x # xs) \<longleftrightarrow> b = x \<and> x \<noteq> 0 \<and> block_chain B (LINK (B x)) xs"

fun area_chain :: "(ptr \<Rightarrow> parea) \<Rightarrow> ptr \<Rightarrow> ptr list \<Rightarrow> bool" where
  "area_chain A a [] \<longleftrightarrow> a = 0"
| "area_chain A a (x # xs) \<longleftrightarrow> a = x \<and> x \<noteq> 0 \<and> area_chain A (NEXT_POOL_PTR (A x)) xs"

definition blocks_from :: "ptr \<Rightarrow> u32 \<Rightarrow> nat \<Rightarrow> ptr list" where
  "blocks_from b sz n = map (\<lambda>i. b + of_nat i * sz) [0 ..< n]"

definition area_blocks :: "u32 \<Rightarrow> parea \<Rightarrow> ptr list" where
  "area_blocks sz a = blocks_from (FIRST_IBLOCK_PTR a) sz (unat (NUMBER_OF_BLOCKS a))"

definition blocks :: "partitions \<Rightarrow> ptr \<Rightarrow> ptr list \<Rightarrow> ptr list" where
  "blocks P p as = concat (map (\<lambda>a. area_blocks (BLOCK_SIZE (PARTPOOLS P p)) (PAREAS P a)) as)"

text \<open>The partition \<open>p\<close> consists of the areas \<open>as\<close> and has the free list \<open>fs\<close>: its counters are right, every header
  has a valid checksum, and a block that is not free points to its partition.\<close>

definition part_rep :: "partitions \<Rightarrow> ptr \<Rightarrow> ptr list \<Rightarrow> ptr list \<Rightarrow> bool" where
  "part_rep P p as fs \<longleftrightarrow>
     p \<noteq> 0 \<and> as \<noteq> [] \<and> area_chain (PAREAS P) (POOL p) as \<and> distinct as \<and> list_all (\<lambda>a. AREA_VALID (PAREAS P a) = PARTITION_VALID) as \<and>
     distinct (blocks P p as) \<and> 0 \<notin> set (blocks P p as) \<and> p \<notin> set (blocks P p as) \<and>
     unat (TOTAL_BLOCKS (PARTPOOLS P p)) = length (blocks P p as) \<and>
     block_chain (PBLOCKS P) (FREE_LIST_PTR (PARTPOOLS P p)) fs \<and> distinct fs \<and> set fs \<subseteq> set (blocks P p as) \<and>
     unat (AVAILABLE (PARTPOOLS P p)) = length fs \<and>
     list_all (\<lambda>b. VALID_PARTITION_CHECKSUM (PBLOCKS P b) \<and> (b \<in> set fs \<or> LINK (PBLOCKS P b) = p)) (blocks P p as) \<and>
     length (blocks P p as) - length fs \<le> unat (MAX_BLOCKS_USED (PARTPOOLS P p)) \<and>
     unat (MAX_BLOCKS_USED (PARTPOOLS P p)) \<le> length (blocks P p as)"

lemma block_chain_cong: "\<forall>x \<in> set xs. LINK (B' x) = LINK (B x) \<Longrightarrow> block_chain B' b xs = block_chain B b xs"
  by (induction xs arbitrary: b) auto

lemma area_chain_cong: "\<forall>x \<in> set xs. NEXT_POOL_PTR (A' x) = NEXT_POOL_PTR (A x) \<Longrightarrow> area_chain A' a xs = area_chain A a xs"
  by (induction xs arbitrary: a) auto

lemma chain_nonzero: "block_chain B b xs \<Longrightarrow> 0 \<notin> set xs"
  by (induction xs arbitrary: b) auto

lemma part_rep_valid: "part_rep P p as fs \<Longrightarrow> pool_valid p P"
  by (cases as) (auto simp: part_rep_def pool_valid_def)

lemma part_rep_length: "part_rep P p as fs \<Longrightarrow> length fs \<le> length (blocks P p as)"
  unfolding part_rep_def by (metis card_mono distinct_card finite_set)

lemma take_block_rep:
  assumes "part_rep P p as (b # fs)"
  shows "part_rep (take_block p i P) p as fs" and "FREE_LIST_PTR (PARTPOOLS P p) = b"
    and "blocks (take_block p i P) p as = blocks P p as"
    and "PBLOCKS (take_block p i P) = (PBLOCKS P)(b := CALC_PARTITION_CHECKSUM ((PBLOCKS P b)\<lparr>BLK_TASK_ID := i, LINK := p\<rparr>))"
proof -
  show b: "FREE_LIST_PTR (PARTPOOLS P p) = b" using assms by (simp add: part_rep_def)
  show bl: "blocks (take_block p i P) p as = blocks P p as" by (simp add: blocks_def take_block_def Let_def)
  show B: "PBLOCKS (take_block p i P) = (PBLOCKS P)(b := CALC_PARTITION_CHECKSUM ((PBLOCKS P b)\<lparr>BLK_TASK_ID := i, LINK := p\<rparr>))"
    by (simp add: take_block_def Let_def b)
  have n: "b \<notin> set fs" "block_chain (PBLOCKS P) (LINK (PBLOCKS P b)) fs" using assms by (simp_all add: part_rep_def)
  let ?t = "unat (TOTAL_BLOCKS (PARTPOOLS P p))" let ?r = "PARTPOOLS P p"
  have l: "length (b # fs) \<le> ?t" using part_rep_length [OF assms] assms by (simp add: part_rep_def)
  have a: "unat (AVAILABLE ?r - 1) = length fs" using assms by (simp add: part_rep_def unat_sub_small)
  have u: "unat (TOTAL_BLOCKS ?r - (AVAILABLE ?r - 1)) = ?t - length fs" using a l by (simp add: unat_sub_small)
  have c: "block_chain (PBLOCKS (take_block p i P)) (LINK (PBLOCKS P b)) fs"
    using n by (subst block_chain_cong [of fs _ "PBLOCKS P"]) (auto simp: B)
  show "part_rep (take_block p i P) p as fs"
  proof -
    have f: "PAREAS (take_block p i P) = PAREAS P" "TOTAL_BLOCKS (PARTPOOLS (take_block p i P) p) = TOTAL_BLOCKS ?r"
      "FREE_LIST_PTR (PARTPOOLS (take_block p i P) p) = LINK (PBLOCKS P b)" "AVAILABLE (PARTPOOLS (take_block p i P) p) = AVAILABLE ?r - 1"
      by (simp_all add: take_block_def Let_def b)
    have m: "unat (MAX_BLOCKS_USED (PARTPOOLS (take_block p i P) p)) = max (unat (MAX_BLOCKS_USED ?r)) (?t - length fs)"
      by (simp add: take_block_def Let_def b word_less_nat_alt u max_def)
    have "list_all (\<lambda>x. VALID_PARTITION_CHECKSUM (PBLOCKS (take_block p i P) x) \<and> (x \<in> set fs \<or> LINK (PBLOCKS (take_block p i P) x) = p))
        (blocks P p as)"
      using assms unfolding B list_all_iff by (auto simp: part_rep_def list_all_iff)
    then show ?thesis using assms c a unfolding part_rep_def bl f m by simp
  qed
qed

lemma give_back_rep:
  assumes r: "part_rep P p as fs" and b: "b \<in> set (blocks P p as)" "b \<notin> set fs"
  shows "part_rep (give_back p b f P) p as (b # fs)" and "blocks (give_back p b f P) p as = blocks P p as"
proof -
  show bl: "blocks (give_back p b f P) p as = blocks P p as" by (simp add: blocks_def give_back_def)
  have n: "b \<noteq> 0" "block_chain (PBLOCKS P) (FREE_LIST_PTR (PARTPOOLS P p)) fs" using r b by (auto simp: part_rep_def)
  have c: "block_chain (PBLOCKS (give_back p b f P)) (FREE_LIST_PTR (PARTPOOLS P p)) fs"
    using n b by (subst block_chain_cong [of fs _ "PBLOCKS P"]) (auto simp: give_back_def)
  have "card (insert b (set fs)) \<le> card (set (blocks P p as))" using r b by (intro card_mono) (auto simp: part_rep_def)
  then have l: "Suc (length fs) \<le> length (blocks P p as)" using r b by (simp add: part_rep_def distinct_card)
  then have "Suc (length fs) < 2 ^ 32" using r unat_u32_bound [of "TOTAL_BLOCKS (PARTPOOLS P p)"] by (simp add: part_rep_def)
  then have a: "unat (AVAILABLE (PARTPOOLS P p) + 1) = Suc (length fs)"
    using r unat_add_small [of "AVAILABLE (PARTPOOLS P p)" 1] by (simp add: part_rep_def)
  show "part_rep (give_back p b f P) p as (b # fs)"
    using r b c a n unfolding part_rep_def bl by (auto simp: list_all_iff) (auto simp: give_back_def)
qed

subsection \<open>Building free lists\<close>

lemma blocks_from_Suc: "blocks_from b sz (Suc n) = b # blocks_from (b + sz) sz n"
proof -
  have "[0 ..< Suc n] = 0 # map Suc [0 ..< n]" by (simp add: map_Suc_upt upt_conv_Cons)
  then show ?thesis by (simp add: blocks_from_def o_def algebra_simps)
qed

lemma blocks_from_0 [simp]: "blocks_from b sz 0 = []" "length (blocks_from b sz n) = n"
  by (simp_all add: blocks_from_def)

lemma create_loop_frame [simp]:
  "PAREAS (create_loop n p sz b P) = PAREAS P" "PARTITION_LIST (create_loop n p sz b P) = PARTITION_LIST P"
  "PARTITION_COMPONENT (create_loop n p sz b P) = PARTITION_COMPONENT P"
  by (induction n arbitrary: b P) (simp_all add: link_block_def upd_pool_def upd_block_def)

lemma create_loop_pools:
  "\<exists>f. PARTPOOLS (create_loop n p sz b P) = (PARTPOOLS P)(p := (PARTPOOLS P p)\<lparr>FREE_LIST_PTR := f\<rparr>)"
proof (induction n arbitrary: b P)
  case 0
  have "PARTPOOLS P = (PARTPOOLS P)(p := (PARTPOOLS P p)\<lparr>FREE_LIST_PTR := FREE_LIST_PTR (PARTPOOLS P p)\<rparr>)" by simp
  then show ?case unfolding create_loop.simps by blast
next
  case (Suc n)
  have l: "PARTPOOLS (link_block p b P) = (PARTPOOLS P)(p := (PARTPOOLS P p)\<lparr>FREE_LIST_PTR := b\<rparr>)" by (simp add: link_block_def)
  from Suc [of "b + sz" "link_block p b P"] show ?case unfolding create_loop.simps l by (simp only: fun_upd_upd fun_upd_same) simp
qed

lemma create_loop_chain:
  assumes "block_chain (PBLOCKS P) (FREE_LIST_PTR (PARTPOOLS P p)) fs" and "distinct (blocks_from b sz n @ fs)"
    and "0 \<notin> set (blocks_from b sz n)"
  shows "block_chain (PBLOCKS (create_loop n p sz b P)) (FREE_LIST_PTR (PARTPOOLS (create_loop n p sz b P) p)) (rev (blocks_from b sz n) @ fs) \<and>
    (\<forall>x \<in> set (blocks_from b sz n). VALID_PARTITION_CHECKSUM (PBLOCKS (create_loop n p sz b P) x)) \<and>
    (\<forall>x. x \<notin> set (blocks_from b sz n) \<longrightarrow> PBLOCKS (create_loop n p sz b P) x = PBLOCKS P x)"
  using assms
proof (induction n arbitrary: b P fs)
  case (Suc n)
  let ?P = "link_block p b P"
  have b: "FREE_LIST_PTR (PARTPOOLS ?P p) = b" "LINK (PBLOCKS ?P b) = FREE_LIST_PTR (PARTPOOLS P p)"
    "\<And>x. x \<noteq> b \<Longrightarrow> PBLOCKS ?P x = PBLOCKS P x" "VALID_PARTITION_CHECKSUM (PBLOCKS ?P b)"
    by (simp_all add: link_block_def)
  have "block_chain (PBLOCKS ?P) (FREE_LIST_PTR (PARTPOOLS P p)) fs"
    using Suc.prems b(3) by (subst block_chain_cong [of fs _ "PBLOCKS P"]) (fastforce simp: blocks_from_Suc)+
  then have c: "block_chain (PBLOCKS ?P) (FREE_LIST_PTR (PARTPOOLS ?P p)) (b # fs)"
    using Suc.prems b by (simp add: blocks_from_Suc)
  have d: "distinct (blocks_from (b + sz) sz n @ b # fs)" "0 \<notin> set (blocks_from (b + sz) sz n)" "b \<notin> set (blocks_from (b + sz) sz n)"
    using Suc.prems by (auto simp: blocks_from_Suc)
  show ?case using Suc.IH [OF c d(1,2)] b(3,4) d(3) by (simp add: blocks_from_Suc)
qed simp

lemma extend_loop_create:
  "extend_loop n p b P = upd_pool p (\<lambda>r. r\<lparr>AVAILABLE := AVAILABLE r + of_nat n\<rparr>) (create_loop n p (BLOCK_SIZE (PARTPOOLS P p)) b P)"
proof -
  have l: "link_block p c (upd_pool p (\<lambda>r. r\<lparr>AVAILABLE := AVAILABLE r + m\<rparr>) Q)
      = upd_pool p (\<lambda>r. r\<lparr>AVAILABLE := AVAILABLE r + m\<rparr>) (link_block p c Q)" for c m Q
    by (cases "PARTPOOLS Q p") (simp add: link_block_def upd_pool_def upd_block_def)
  have c: "create_loop m p sz c (upd_pool p (\<lambda>r. r\<lparr>AVAILABLE := AVAILABLE r + 1\<rparr>) Q)
      = upd_pool p (\<lambda>r. r\<lparr>AVAILABLE := AVAILABLE r + 1\<rparr>) (create_loop m p sz c Q)" for m sz c Q
    by (induction m arbitrary: c Q) (simp_all add: l)
  show ?thesis
  proof (induction n arbitrary: b P)
    case 0
    then show ?case by (simp add: upd_pool_def)
  next
    case (Suc n)
    have z: "BLOCK_SIZE (PARTPOOLS (link_block p b P) p) = BLOCK_SIZE (PARTPOOLS P p)" by (simp add: link_block_def)
    show ?case by (simp add: Let_def z Suc.IH c) (simp add: upd_pool_def add.assoc)
  qed
qed

lemma create_pool_rep:
  fixes sz n :: u32 and p :: ptr
  assumes "p \<noteq> 0" and "POOL p \<noteq> 0"
  defines "bs \<equiv> blocks_from (ALIGN_LARGER (p + PARTPOOL_SIZE)) sz (unat n)"
  assumes "distinct bs" and "0 \<notin> set bs" and "p \<notin> set bs"
  shows "part_rep (create_pool p sz n P) p [POOL p] (rev bs)" and "blocks (create_pool p sz n P) p [POOL p] = bs"
proof -
  let ?first = "ALIGN_LARGER (p + PARTPOOL_SIZE)"
  let ?P1 = "upd_pool p (\<lambda>_. \<lparr>BLOCK_SIZE = sz, AVAILABLE = n, FREE_LIST_PTR = 0, TOTAL_BLOCKS = n, MAX_BLOCKS_USED = 0,
      GROW_BLOCKS = 0, MAXIMUM_BLOCKS = 0, PARTITION_TYPE = 0, TEST_FREE_PTR = 0\<rparr>) P"
  let ?P2 = "upd_area (POOL p) (\<lambda>_. \<lparr>NEXT_POOL_PTR = 0, AREA_VALID = PARTITION_VALID, NUMBER_OF_BLOCKS = n, FIRST_IBLOCK_PTR = ?first\<rparr>) ?P1"
  define P3 where "P3 = create_loop (unat n) p sz ?first ?P2"
  have e: "create_pool p sz n P = P3\<lparr>PARTITION_LIST := PARTITION_LIST P3 @ [p]\<rparr>" by (simp add: create_pool_def Let_def P3_def)
  have c: "block_chain (PBLOCKS P3) (FREE_LIST_PTR (PARTPOOLS P3 p)) (rev bs @ [])"
    and v: "\<forall>x \<in> set bs. VALID_PARTITION_CHECKSUM (PBLOCKS P3 x)"
    using create_loop_chain [of ?P2 p "[]" ?first sz "unat n"] assms(4,5) by (simp_all add: P3_def bs_def)
  obtain f where f: "PARTPOOLS P3 = (PARTPOOLS ?P2)(p := (PARTPOOLS ?P2 p)\<lparr>FREE_LIST_PTR := f\<rparr>)"
    using create_loop_pools [of "unat n" p sz ?first ?P2] by (auto simp: P3_def)
  have a: "PAREAS P3 = PAREAS ?P2" by (simp add: P3_def create_loop_frame)
  show b: "blocks (create_pool p sz n P) p [POOL p] = bs" by (simp add: e blocks_def f a area_blocks_def bs_def)
  show "part_rep (create_pool p sz n P) p [POOL p] (rev bs)"
    unfolding part_rep_def b using assms c v by (simp add: e f a list_all_iff bs_def)
qed

lemma part_rep_areas: "part_rep P p as fs \<Longrightarrow> \<exists>rest. as = POOL p # rest"
  by (cases as) (auto simp: part_rep_def)

lemma extend_internal_rep:
  fixes n :: u32 and a :: ptr
  assumes r: "part_rep P p (POOL p # rest) fs" and a: "a \<notin> set (POOL p # rest)" "a \<noteq> 0"
  defines "bs \<equiv> blocks_from (ALIGN_LARGER (a + AREA_SIZE)) (BLOCK_SIZE (PARTPOOLS P p)) (unat n)"
  assumes d: "distinct bs" "set bs \<inter> set (blocks P p (POOL p # rest)) = {}" "0 \<notin> set bs" "p \<notin> set bs"
    and t: "unat (TOTAL_BLOCKS (PARTPOOLS P p)) + unat n < 2 ^ 32"
  defines "P' \<equiv> partition_extend_internal p a n (add_total p n P)"
  shows "part_rep P' p (POOL p # a # rest) (rev bs @ fs)"
    and "set (blocks P' p (POOL p # a # rest)) = set bs \<union> set (blocks P p (POOL p # rest))"
proof -
  let ?first = "ALIGN_LARGER (a + AREA_SIZE)" let ?r = "PARTPOOLS P p"
  let ?P1 = "upd_area a (\<lambda>r. r\<lparr>AREA_VALID := PARTITION_VALID, NUMBER_OF_BLOCKS := n, FIRST_IBLOCK_PTR := ?first\<rparr>) (add_total p n P)"
  define Q where "Q = create_loop (unat n) p (BLOCK_SIZE ?r) ?first ?P1"
  have z: "BLOCK_SIZE (PARTPOOLS (add_total p n P) p) = BLOCK_SIZE ?r" by (simp add: add_total_def)
  have c0: "block_chain (PBLOCKS ?P1) (FREE_LIST_PTR (PARTPOOLS ?P1 p)) fs" using r by (simp add: part_rep_def add_total_def)
  have df: "distinct (bs @ fs)" using r d by (auto simp: part_rep_def)
  have c: "block_chain (PBLOCKS Q) (FREE_LIST_PTR (PARTPOOLS Q p)) (rev bs @ fs)" "\<forall>x \<in> set bs. VALID_PARTITION_CHECKSUM (PBLOCKS Q x)"
    "\<forall>x. x \<notin> set bs \<longrightarrow> PBLOCKS Q x = PBLOCKS P x"
    using create_loop_chain [OF c0, of ?first "BLOCK_SIZE ?r" "unat n"] df d(3) by (simp_all add: Q_def bs_def add_total_def)
  obtain f where f: "PARTPOOLS Q = (PARTPOOLS ?P1)(p := (PARTPOOLS ?P1 p)\<lparr>FREE_LIST_PTR := f\<rparr>)"
    using create_loop_pools [of "unat n" p "BLOCK_SIZE ?r" ?first ?P1] by (auto simp: Q_def)
  have A: "PAREAS P' = (PAREAS P)(a := (PAREAS P a)\<lparr>AREA_VALID := PARTITION_VALID, NUMBER_OF_BLOCKS := n, FIRST_IBLOCK_PTR := ?first,
        NEXT_POOL_PTR := NEXT_POOL_PTR (PAREAS P (POOL p))\<rparr>, POOL p := (PAREAS P (POOL p))\<lparr>NEXT_POOL_PTR := a\<rparr>)"
    using a by (auto simp: P'_def partition_extend_internal_def Let_def extend_loop_create add_total_def fun_upd_twist)
  have B: "PBLOCKS P' = PBLOCKS Q"
    by (simp add: P'_def partition_extend_internal_def Let_def extend_loop_create z Q_def)
  have PP: "PARTPOOLS P' p = (PARTPOOLS Q p)\<lparr>AVAILABLE := AVAILABLE (PARTPOOLS Q p) + n\<rparr>"
    by (simp add: P'_def partition_extend_internal_def Let_def extend_loop_create z Q_def)
  have PF: "BLOCK_SIZE (PARTPOOLS P' p) = BLOCK_SIZE ?r" "AVAILABLE (PARTPOOLS P' p) = AVAILABLE ?r + n"
    "TOTAL_BLOCKS (PARTPOOLS P' p) = TOTAL_BLOCKS ?r + n" "MAX_BLOCKS_USED (PARTPOOLS P' p) = MAX_BLOCKS_USED ?r"
    "FREE_LIST_PTR (PARTPOOLS P' p) = FREE_LIST_PTR (PARTPOOLS Q p)"
    by (simp_all add: PP f add_total_def)
  have m: "map (\<lambda>x. area_blocks (BLOCK_SIZE ?r) (PAREAS P' x)) rest = map (\<lambda>x. area_blocks (BLOCK_SIZE ?r) (PAREAS P x)) rest"
    using a r by (auto simp: A part_rep_def)
  have h: "area_blocks (BLOCK_SIZE ?r) (PAREAS P' (POOL p)) = area_blocks (BLOCK_SIZE ?r) (PAREAS P (POOL p))"
    "area_blocks (BLOCK_SIZE ?r) (PAREAS P' a) = bs" using a by (simp_all add: A area_blocks_def bs_def)
  have bl: "blocks P' p (POOL p # a # rest) = area_blocks (BLOCK_SIZE ?r) (PAREAS P (POOL p)) @ bs @ blocks P p rest"
    unfolding blocks_def PF list.map concat.simps m h ..
  have bo: "blocks P p (POOL p # rest) = area_blocks (BLOCK_SIZE ?r) (PAREAS P (POOL p)) @ blocks P p rest" by (simp add: blocks_def)
  show s: "set (blocks P' p (POOL p # a # rest)) = set bs \<union> set (blocks P p (POOL p # rest))" unfolding bl bo by auto
  have ds: "distinct (blocks P' p (POOL p # a # rest))" using d(1,2) r unfolding bl by (auto simp: part_rep_def bo)
  have len: "length (blocks P' p (POOL p # a # rest)) = length (blocks P p (POOL p # rest)) + unat n" by (simp add: bl bo bs_def)
  have "area_chain (PAREAS P') (NEXT_POOL_PTR (PAREAS P (POOL p))) rest"
    using r a by (subst area_chain_cong [of rest _ "PAREAS P"]) (auto simp: A part_rep_def)
  then have ac: "area_chain (PAREAS P') (POOL p) (POOL p # a # rest)" using r a by (auto simp: A part_rep_def)
  have va: "list_all (\<lambda>x. AREA_VALID (PAREAS P' x) = PARTITION_VALID) (POOL p # a # rest)"
    using r a by (auto simp: A part_rep_def list_all_iff)
  have u: "unat (TOTAL_BLOCKS ?r + n) = unat (TOTAL_BLOCKS ?r) + unat n" using t by (simp add: unat_add_small)
  have "length fs \<le> unat (TOTAL_BLOCKS ?r)" using part_rep_length [OF r] r by (simp add: part_rep_def)
  then have v: "unat (AVAILABLE ?r + n) = length fs + unat n" using t r by (simp add: unat_add_small part_rep_def)
  have bk: "\<forall>x \<in> set (blocks P' p (POOL p # a # rest)). VALID_PARTITION_CHECKSUM (PBLOCKS P' x) \<and> (x \<in> set (rev bs @ fs) \<or> LINK (PBLOCKS P' x) = p)"
    using c(2,3) r unfolding s B by (fastforce simp: part_rep_def list_all_iff)
  have lb: "length bs = unat n" by (simp add: bs_def)
  show "part_rep P' p (POOL p # a # rest) (rev bs @ fs)"
    unfolding part_rep_def using ac va ds a(1) len u v c(1) df r d(3,4) lb bk
    by (simp add: s PF B part_rep_def list_all_iff) auto
qed

subsection \<open>Alignment and layout\<close>

text \<open>The blocks of an area at their addresses.\<close>

lemma blocks_from_unat:
  assumes "unat b + n * unat sz \<le> 2 ^ 32" and "0 < unat sz"
  shows "i < n \<Longrightarrow> unat (b + of_nat i * sz) = unat b + i * unat sz"
    and "distinct (blocks_from b sz n)" and "x \<in> set (blocks_from b sz n) \<Longrightarrow> unat b \<le> unat x \<and> unat x + unat sz \<le> unat b + n * unat sz"
proof -
  have u: "unat (b + of_nat i * sz) = unat b + i * unat sz" if "i < n" for i
  proof -
    have "Suc i * unat sz \<le> n * unat sz" using that by (intro mult_right_mono) auto
    then have l: "unat b + i * unat sz < 2 ^ 32" using assms by simp
    have "i \<le> i * unat sz" using assms(2) by (cases "unat sz") simp_all
    then have "i < 2 ^ 32" using l by linarith
    then have "unat (of_nat i :: u32) = i" by (intro unat_of_nat_small) simp
    then show ?thesis using l by (simp add: unat_add_small unat_mult_small)
  qed
  then show "i < n \<Longrightarrow> unat (b + of_nat i * sz) = unat b + i * unat sz" .
  have "inj_on (\<lambda>i. b + of_nat i * sz) (set [0 ..< n])"
    using u assms(2) by (intro inj_onI) (metis add_left_cancel atLeastLessThan_iff mult_cancel2 neq0_conv set_upt)
  then show "distinct (blocks_from b sz n)" by (simp add: blocks_from_def distinct_map)
  assume "x \<in> set (blocks_from b sz n)"
  then obtain i where i: "i < n" "x = b + of_nat i * sz" by (auto simp: blocks_from_def)
  have "Suc i * unat sz \<le> n * unat sz" using i by (intro mult_right_mono) auto
  then show "unat b \<le> unat x \<and> unat x + unat sz \<le> unat b + n * unat sz" using u [OF i(1)] i(2) by simp
qed

lemma create_at_sizes_spec:
  fixes l sz bsz :: u32
  assumes c: "create_at_sizes l sz bsz = (p, area, actual, n)" and l: "l \<noteq> 0" "unat l + unat sz < 2 ^ 32"
    and b: "unat bsz + 27 < 2 ^ 32" and fits: "area - l \<le> sz"
  shows "unat l \<le> unat p" "unat p < unat l + 16" "unat area = unat p + 64" "16 dvd unat p" "16 dvd unat actual"
    "unat bsz + 12 \<le> unat actual" "unat actual < unat bsz + 28"
    "unat area + unat n * unat actual \<le> unat l + unat sz" "unat l + unat sz < unat area + (unat n + 1) * unat actual"
proof -
  have e: "p = ALIGN_LARGER l" "area = ALIGN_LARGER (p + 60)" "actual = ALIGN_LARGER (bsz + 12)" "n = (sz - (area - l)) div actual"
    using c by (auto simp: create_at_sizes_def Let_def)
  have fit: "unat (area - l) \<le> unat sz" using fits by (simp add: word_le_nat_alt)
  have l15: "unat l + 15 < 2 ^ 32"
  proof (rule ccontr)
    assume n: "\<not> unat l + 15 < 2 ^ 32"
    then have "p = 0" using align_wraps e(1) by simp
    then have "area = 64" by (simp add: e(2) ALIGN_LARGER_def)
    then have "unat (area - l) = 64 + 2 ^ 32 - unat l"
      using n unat_u32_bound [of l] by (simp add: unat_sub_if')
    then show False using fit l(2) by simp
  qed
  have p: "unat l \<le> unat p" "unat p < unat l + 16" "16 dvd unat p" using align_bounds [OF l15] by (simp_all add: e(1))
  have "area = p + 64" using align_after_aligned [of p] by (simp add: e(1,2) aligned_align)
  then have d: "area - l = (p - l) + 64" by simp
  have "unat (p - l) = unat p - unat l" using p(1) by (rule unat_sub_small)
  then have pl: "unat (area - l) = unat p - unat l + 64" unfolding d using p(2) unat_add_small [of "p - l" 64] by simp
  have a: "unat area = unat p + 64"
    using pl fit l(2) p(1) unat_add_small [of p 64] \<open>area = p + 64\<close> by simp
  have b12: "unat (bsz + 12) = unat bsz + 12" using b unat_add_small [of bsz 12] by simp
  have act: "unat bsz + 12 \<le> unat actual" "unat actual < unat bsz + 28" "16 dvd unat actual"
    using align_bounds [of "bsz + 12"] b b12 by (simp_all add: e(3))
  have al: "unat (area - l) = unat area - unat l" using a p by (simp add: unat_sub_small)
  have "unat (sz - (area - l)) = unat sz - (unat area - unat l)" using fit al by (simp add: unat_sub_small)
  then have n: "unat n = (unat sz - (unat area - unat l)) div unat actual" by (simp add: e(4) unat_div)
  have "unat n * unat actual \<le> unat sz - (unat area - unat l)" by (simp add: n)
  moreover have "unat sz - (unat area - unat l) < (unat n + 1) * unat actual"
    using act(1) dividend_less_div_times [of "unat actual" "unat sz - (unat area - unat l)"] by (simp add: n)
  ultimately show "unat area + unat n * unat actual \<le> unat l + unat sz" "unat l + unat sz < unat area + (unat n + 1) * unat actual"
    using fit al a p by simp_all
  show "unat l \<le> unat p" "unat p < unat l + 16" "unat area = unat p + 64" "16 dvd unat p" "16 dvd unat actual"
    "unat bsz + 12 \<le> unat actual" "unat actual < unat bsz + 28" using p a act by simp_all
qed

subsection \<open>Allocation and release on well-formed partitions\<close>

lemma part_kernel [simp]:
  "part (upd_part f k) = f (part k)" "TDS (upd_part f k) = TDS k" "ACTIVE_PTR (upd_part f k) = ACTIVE_PTR k"
  "SYSTEM_TD (upd_part f k) = SYSTEM_TD k" "active_td (upd_part f k) = active_td k" "IN_ISR (upd_part f k) = IN_ISR k"
  by (simp_all add: upd_part_def active_td_def)

lemma system_task_id_part [simp]:
  "system_task_id (upd_part f k) = system_task_id k"
  by (simp_all add: system_task_id_def)

lemma alloc_some:
  assumes r: "part_rep (part k) p as (b # fs)"
  shows "fst (partition_alloc_internal mem p i k) = b + HEADER_SIZE"
    and "part (snd (partition_alloc_internal mem p i k)) = take_block p i (part k)"
    and "system_task_id (snd (partition_alloc_internal mem p i k)) = system_task_id k"
proof -
  have "AVAILABLE (PARTPOOLS (part k) p) \<noteq> 0" "p \<noteq> 0" "VALID_PARTITION_CHECKSUM (PBLOCKS (part k) b)"
    "FREE_LIST_PTR (PARTPOOLS (part k) p) = b"
    using r by (auto simp: part_rep_def list_all_iff)
  then show "fst (partition_alloc_internal mem p i k) = b + HEADER_SIZE"
    "part (snd (partition_alloc_internal mem p i k)) = take_block p i (part k)"
    "system_task_id (snd (partition_alloc_internal mem p i k)) = system_task_id k"
    using part_rep_valid [OF r] by (simp_all add: partition_alloc_internal_def Let_def)
qed

lemma grow_nothing: "partition_grow p 0 P = P"
  by (simp add: partition_grow_def Let_def add_total_def upd_pool_def)

lemma alloc_none:
  assumes r: "part_rep (part k) p as []" and g: "\<not> may_grow (PARTPOOLS (part k) p) \<or> mem = 0"
  shows "fst (partition_alloc_internal mem p i k) = 0" and "part (snd (partition_alloc_internal mem p i k)) = part k"
    and "system_task_id (snd (partition_alloc_internal mem p i k)) = system_task_id k"
proof -
  have "AVAILABLE (PARTPOOLS (part k) p) = 0" "p \<noteq> 0" using r by (auto simp: part_rep_def unat_eq_0)
  then show "fst (partition_alloc_internal mem p i k) = 0" "part (snd (partition_alloc_internal mem p i k)) = part k"
    "system_task_id (snd (partition_alloc_internal mem p i k)) = system_task_id k"
    using part_rep_valid [OF r] g by (auto simp: partition_alloc_internal_def Let_def grow_nothing)
qed

lemma free_ok:
  assumes r: "part_rep (part k) p as fs" and b: "b \<in> set (blocks (part k) p as)" "b \<notin> set fs"
    and o: "BLK_TASK_ID (PBLOCKS (part k) b) \<in> {system_task_id k, TASK_ID (active_td k)}"
  shows "fst (partition_free (b + HEADER_SIZE) k) = MQX_OK"
    and "part (snd (partition_free (b + HEADER_SIZE) k)) = give_back p b (\<lambda>d. d\<lparr>BLK_TASK_ID := 0\<rparr>) (part k)"
    and "system_task_id (snd (partition_free (b + HEADER_SIZE) k)) = system_task_id k"
proof -
  have "VALID_PARTITION_CHECKSUM (PBLOCKS (part k) b)" "LINK (PBLOCKS (part k) b) = p"
    using r b by (auto simp: part_rep_def list_all_iff)
  then show "fst (partition_free (b + HEADER_SIZE) k) = MQX_OK"
    "part (snd (partition_free (b + HEADER_SIZE) k)) = give_back p b (\<lambda>d. d\<lparr>BLK_TASK_ID := 0\<rparr>) (part k)"
    "system_task_id (snd (partition_free (b + HEADER_SIZE) k)) = system_task_id k"
    using part_rep_valid [OF r] o by (auto simp: partition_free_def Let_def)
qed

text \<open>
  C19 (functional). A partition that is well formed hands out the first block of its free list, marked with its
  owner and its partition, and stays well formed; with an empty free list and no memory to grow it
  returns no block and changes nothing. The owner, or anybody if the system owns it, gives a block
  back, and it becomes the first of the free list. Anybody else is refused, also when the block is
  free already because it was given back before: a block is not freed twice.
\<close>

theorem partition_alloc_free:
  fixes mem p b :: ptr and i :: u32
  assumes r: "part_rep (part k) p as fs" and mem: "mem = 0"
  defines "k1 \<equiv> snd (partition_alloc_internal mem p i k)" and "res \<equiv> fst (partition_alloc_internal mem p i k)"
    and "k2 \<equiv> snd (partition_free (b + HEADER_SIZE) k)" and "d \<equiv> PBLOCKS (part k) b"
  shows "(fs = [] \<longrightarrow> res = 0 \<and> part k1 = part k) \<and>
    (fs \<noteq> [] \<longrightarrow> res = hd fs + HEADER_SIZE \<and> part_rep (part k1) p as (tl fs) \<and> BLK_TASK_ID (PBLOCKS (part k1) (hd fs)) = i
       \<and> LINK (PBLOCKS (part k1) (hd fs)) = p) \<and>
    (b \<in> set (blocks (part k) p as) \<and> b \<notin> set fs \<and> BLK_TASK_ID d \<in> {system_task_id k, TASK_ID (active_td k)} \<longrightarrow>
       fst (partition_free (b + HEADER_SIZE) k) = MQX_OK \<and> part_rep (part k2) p as (b # fs)) \<and>
    (b \<in> set (blocks (part k) p as) \<and> BLK_TASK_ID d \<notin> {system_task_id k, TASK_ID (active_td k)} \<longrightarrow>
       partition_free (b + HEADER_SIZE) k = (MQX_NOT_RESOURCE_OWNER, k)) \<and>
    (b \<in> set (blocks (part k) p as) \<and> b \<notin> set fs \<and> BLK_TASK_ID d \<in> {system_task_id k, TASK_ID (active_td k)} \<and>
       0 \<notin> {system_task_id k2, TASK_ID (active_td k2)} \<longrightarrow> partition_free (b + HEADER_SIZE) k2 = (MQX_NOT_RESOURCE_OWNER, k2))"
proof (intro conjI impI; (elim conjE)?)
  show "fs = [] \<Longrightarrow> res = 0" "fs = [] \<Longrightarrow> part k1 = part k"
    using alloc_none(1,2) [where k = k and p = p and mem = mem] r mem by (simp_all add: res_def k1_def)
  assume "fs \<noteq> []"
  then have r': "part_rep (part k) p as (hd fs # tl fs)" using r by simp
  show "res = hd fs + HEADER_SIZE" "part_rep (part k1) p as (tl fs)" "BLK_TASK_ID (PBLOCKS (part k1) (hd fs)) = i"
    "LINK (PBLOCKS (part k1) (hd fs)) = p"
    using alloc_some [OF r', of mem i] take_block_rep(1,4) [OF r', of i] by (simp_all add: res_def k1_def)
next
  assume b: "b \<in> set (blocks (part k) p as)" "b \<notin> set fs" and o: "BLK_TASK_ID d \<in> {system_task_id k, TASK_ID (active_td k)}"
  note f = free_ok [OF r b o [unfolded d_def]]
  show "fst (partition_free (b + HEADER_SIZE) k) = MQX_OK" by (rule f(1))
  show "part_rep (part k2) p as (b # fs)" unfolding k2_def f(2) by (rule give_back_rep [OF r b])
  assume z: "0 \<notin> {system_task_id k2, TASK_ID (active_td k2)}"
  have "BLK_TASK_ID (PBLOCKS (part k2) b) = 0" "VALID_PARTITION_CHECKSUM (PBLOCKS (part k2) b)"
    unfolding k2_def f(2) by (simp_all add: give_back_def)
  then show "partition_free (b + HEADER_SIZE) k2 = (MQX_NOT_RESOURCE_OWNER, k2)" using z by (simp add: partition_free_def Let_def)
next
  assume "b \<in> set (blocks (part k) p as)" "BLK_TASK_ID d \<notin> {system_task_id k, TASK_ID (active_td k)}"
  then show "partition_free (b + HEADER_SIZE) k = (MQX_NOT_RESOURCE_OWNER, k)"
    using r by (auto simp: partition_free_def Let_def d_def part_rep_def list_all_iff)
qed

subsection \<open>Creation in given memory\<close>

lemma part_rep_type:
  "part_rep (upd_pool p (\<lambda>r. r\<lparr>PARTITION_TYPE := x, GROW_BLOCKS := g, MAXIMUM_BLOCKS := m\<rparr>) P) p as fs = part_rep P p as fs"
  "part_rep (upd_pool p (\<lambda>r. r\<lparr>PARTITION_TYPE := x\<rparr>) P) p as fs = part_rep P p as fs"
  by (simp_all add: part_rep_def blocks_def)

lemma create_at_rep:
  fixes l sz bsz :: u32 and allocated :: bool
  assumes c: "create_at_sizes l sz bsz = (p, area, actual, n)" and l: "l \<noteq> 0" "unat l + unat sz < 2 ^ 32"
    and b: "bsz \<noteq> 0" "unat bsz + 27 < 2 ^ 32" and fits: "area - l \<le> sz" and n: "n \<noteq> 0"
    and comp: "PARTITION_COMPONENT (part k) \<noteq> None"
  defines "bs \<equiv> blocks_from area actual (unat n)" and "k' \<equiv> state_of (partition_create_at allocated l sz bsz k)"
  shows "partition_create_at allocated l sz bsz k = Done p k'"
    and "part_rep (part k') p [POOL p] (rev bs)" and "blocks (part k') p [POOL p] = bs" and "distinct bs"
    and "PARTITION_LIST (part k') = PARTITION_LIST (part k) @ [p]"
    and "PARTITION_TYPE (PARTPOOLS (part k') p) = PARTITION_STATIC"
proof -
  note sp = create_at_sizes_spec [OF c l b(2) fits]
  have bl: "unat area + unat n * unat actual \<le> 2 ^ 32" "0 < unat actual" using sp l by linarith+
  note bu = blocks_from_unat [OF bl]
  have p: "p \<noteq> 0" using sp(1) l(1) by (auto simp: unat_eq_0 [symmetric])
  have area: "area = ALIGN_LARGER (p + PARTPOOL_SIZE)" using c by (auto simp: create_at_sizes_def Let_def)
  have "unat (p + 44) = unat p + 44" using sp(3,8) l(2) unat_add_small [of p 44] by simp
  then have pool: "POOL p \<noteq> 0" by (auto simp: POOL_def unat_eq_0 [symmetric])
  show d: "distinct bs" unfolding bs_def by (rule bu(2))
  have nb: "x \<noteq> 0 \<and> x \<noteq> p" if "x \<in> set bs" for x
    using bu(3) [of x] that sp(3) p unfolding bs_def by (metis add_le_same_cancel1 le_zero_eq less_eq_nat.simps(1) unat_0 zero_neq_numeral add.commute add_eq_0_iff_both_eq_0)
  note cr = create_pool_rep [OF p pool, of actual n, folded area, folded bs_def, OF d]
  obtain v where v: "PARTITION_COMPONENT (part k) = Some v" using comp by blast
  have e: "partition_create_at allocated l sz bsz k = Done p
      (upd_part (upd_pool p (\<lambda>r. r\<lparr>PARTITION_TYPE := PARTITION_STATIC\<rparr>)) (INT_ENABLE (INT_DISABLE (upd_part (create_pool p actual n) k))))"
    using b(1) n fits v by (simp add: partition_create_at_def c partition_create_internal_def not_less [symmetric])
  then have k': "part k' = upd_pool p (\<lambda>r. r\<lparr>PARTITION_TYPE := PARTITION_STATIC\<rparr>) (create_pool p actual n (part k))"
    by (simp add: k'_def)
  show "partition_create_at allocated l sz bsz k = Done p k'" unfolding k'_def e by simp
  show "part_rep (part k') p [POOL p] (rev bs)" unfolding k' part_rep_type using nb by (intro cr(1)) auto
  have "blocks (part k') p [POOL p] = blocks (create_pool p actual n (part k)) p [POOL p]" by (simp add: k' blocks_def)
  then show "blocks (part k') p [POOL p] = bs" using cr(2) nb by auto
  show "PARTITION_LIST (part k') = PARTITION_LIST (part k) @ [p]" "PARTITION_TYPE (PARTPOOLS (part k') p) = PARTITION_STATIC"
    by (simp_all add: k' create_pool_def Let_def)
qed

text \<open>
  C20 (bounds). A static partition in given memory that does not wrap around the address space, when there is room
  for at least one block: the partition is well formed, all its blocks are free, and they are as many as
  fit. Each block lies inside the memory and behind the partition structure, at an aligned address,
  the blocks do not overlap, and each has room for a header of 12 bytes and the requested size.
\<close>

theorem partition_create_at_layout:
  fixes l sz bsz :: u32 and allocated :: bool
  assumes "create_at_sizes l sz bsz = (p, area, actual, n)" and "l \<noteq> 0" and "unat l + unat sz < 2 ^ 32"
    and "bsz \<noteq> 0" and "unat bsz + 27 < 2 ^ 32" and "area - l \<le> sz" and "n \<noteq> 0" and "PARTITION_COMPONENT (part k) \<noteq> None"
  defines "bs \<equiv> blocks_from area actual (unat n)" and "k' \<equiv> state_of (partition_create_at allocated l sz bsz k)"
  shows "result_of (partition_create_at allocated l sz bsz k) = Some p \<and> part_rep (part k') p [POOL p] (rev bs) \<and>
    blocks (part k') p [POOL p] = bs \<and>
    (\<forall>i < unat n. unat (bs ! i) = unat area + i * unat actual \<and> 16 dvd unat (bs ! i) \<and> unat l + 64 \<le> unat (bs ! i) \<and>
       unat (bs ! i) + unat actual \<le> unat l + unat sz) \<and>
    unat bsz + 12 \<le> unat actual \<and> unat l + unat sz < unat area + (unat n + 1) * unat actual"
proof -
  note sp = create_at_sizes_spec [OF assms(1-3,5,6)]
  note cr = create_at_rep(1-3) [OF assms(1-8), of allocated]
  have bl: "unat area + unat n * unat actual \<le> 2 ^ 32" "0 < unat actual" using sp assms(3) by linarith+
  have at: "unat (bs ! i) = unat area + i * unat actual \<and> 16 dvd unat (bs ! i) \<and> unat l + 64 \<le> unat (bs ! i) \<and>
       unat (bs ! i) + unat actual \<le> unat l + unat sz" if i: "i < unat n" for i
  proof -
    have u: "unat (bs ! i) = unat area + i * unat actual"
      using i blocks_from_unat(1) [OF bl i] by (simp add: bs_def blocks_from_def)
    moreover have "Suc i * unat actual \<le> unat n * unat actual" using i by (intro mult_right_mono) auto
    ultimately show ?thesis using sp by auto
  qed
  have "result_of (partition_create_at allocated l sz bsz k) = Some p" by (subst cr(1)) simp
  then show ?thesis using cr(2,3) at sp(6,9) unfolding bs_def k'_def by blast
qed

definition demo_part :: kernel where
  "demo_part = state_of (partition_create_at True 0x1000 200 20 demo)"

lemma demo_sizes: "create_at_sizes 0x1000 200 20 = (0x1000, 0x1040, 32, 4)"
  by (simp add: create_at_sizes_def Let_def ALIGN_LARGER_def)

lemma demo_component: "PARTITION_COMPONENT (part demo) \<noteq> None"
  by (simp add: demo_def)

lemma demo_part_rep:
  "part_rep (part demo_part) 0x1000 [POOL 0x1000] (rev (blocks_from 0x1040 32 4))"
  "blocks (part demo_part) 0x1000 [POOL 0x1000] = blocks_from 0x1040 32 4"
  "PARTITION_TYPE (PARTPOOLS (part demo_part) 0x1000) = PARTITION_STATIC"
  using create_at_rep(2,3,6) [OF demo_sizes _ _ _ _ _ _ demo_component, of True] by (simp_all add: demo_part_def)

theorem partition_create_at_layout_witness:
  "result_of (partition_create_at True 0x1000 200 20 demo) = Some 0x1000 \<and> unat (blocks_from 0x1040 32 4 ! 3) = 0x10A0"
proof -
  note th = partition_create_at_layout [OF demo_sizes _ _ _ _ _ _ demo_component, of True]
  show ?thesis using th by (simp add: blocks_from_def)
qed

theorem partition_alloc_free_witness:
  "fst (partition_alloc_internal 0 0x1000 7 demo_part) = 0x10AC"
proof -
  have "rev (blocks_from 0x1040 32 4) = [0x10A0, 0x1080, 0x1060, 0x1040 :: ptr]" by (simp add: blocks_from_def upt_conv_Cons)
  then show ?thesis using partition_alloc_free [OF demo_part_rep(1) refl, of 7 0] by simp
qed

text \<open>
  Fact. The size the code computes for a partition of \<open>n\<close> blocks is too small for an unaligned
  location: \<^verbatim>\<open>_partition_calculate_size\<close> adds the alignment once, \<^verbatim>\<open>_partition_create_at\<close> may lose it twice,
  at the start and behind the 60 bytes of the partition structure. At a location four bytes above an
  aligned address one block fewer is created than was asked for, whatever the number and size of the blocks, as
  long as the size does not wrap.
\<close>

theorem partition_calculate_size_short:
  fixes l n bsz :: u32
  assumes "unat l mod 16 = 4" and "n \<noteq> 0" and "unat bsz + 27 < 2 ^ 32"
    and "unat l + 75 + unat (ALIGN_LARGER (HEADER_SIZE + bsz)) * unat n < 2 ^ 32"
    and "create_at_sizes l (partition_calculate_size n bsz) bsz = (p, area, actual, m)"
  shows "area - l = 76 \<and> area - l \<le> partition_calculate_size n bsz \<and> unat m = unat n - 1"
proof -
  let ?sz = "partition_calculate_size n bsz" let ?A = "ALIGN_LARGER (HEADER_SIZE + bsz)"
  have e: "p = ALIGN_LARGER l" "area = ALIGN_LARGER (p + 60)" "actual = ?A"
    using assms(5) by (auto simp: create_at_sizes_def Let_def add.commute)
  have A: "0 < unat ?A" using align_bounds(1) [of "HEADER_SIZE + bsz"] assms(3) unat_add_small [of 12 bsz] by simp
  have n: "0 < unat n" using assms(2) by (simp add: unat_gt_0)
  have An: "1 \<le> unat ?A * unat n" using A n by (simp add: Suc_leI)
  have sz: "unat ?sz = 75 + unat ?A * unat n"
    using assms(4) unat_mult_small [of ?A n] unat_add_small [of 75 "?A * n"] by (simp add: partition_calculate_size_def)
  have p: "unat p = unat l + 12" using assms(1,4) by (simp add: e(1) unat_align) presburger
  have a: "area = p + 64" using align_after_aligned [of p] aligned_align [of l] by (simp add: e(1,2))
  have "p = l + 12" using p assms(4) unat_add_small [of l 12] by (simp add: word_unat_eq_iff)
  then have al: "area - l = 76" by (simp add: a)
  have fits: "area - l \<le> ?sz" using An by (simp add: al word_le_nat_alt sz)
  have l: "l \<noteq> 0" "unat l + unat ?sz < 2 ^ 32" using assms(1,4) by (auto simp: sz)
  note sp = create_at_sizes_spec(8,9) [OF assms(5) l assms(3) fits, unfolded sz e(3)]
  have ua: "unat area = unat l + 76" using create_at_sizes_spec(3) [OF assms(5) l assms(3) fits] p by simp
  have "unat m * unat ?A < unat n * unat ?A" using sp(1) An unfolding ua mult.commute [of "unat ?A" "unat n"] by linarith
  then have "unat m < unat n" by (simp only: mult_less_cancel2)
  moreover have "unat n * unat ?A < Suc ((unat m + 1) * unat ?A)" using sp(2) unfolding ua mult.commute [of "unat ?A" "unat n"] by linarith
  then have "unat n * unat ?A \<le> (unat m + 1) * unat ?A" by simp
  then have "unat n \<le> unat m + 1" using A by (simp only: mult_le_cancel2)
  ultimately show ?thesis using al fits by simp
qed

theorem partition_calculate_size_short_witness:
  "snd (snd (snd (create_at_sizes 0x1004 (partition_calculate_size 5 20) 20))) = 4"
proof -
  have c: "create_at_sizes 0x1004 (partition_calculate_size 5 20) 20 = (0x1010, 0x1050, 32, 4)"
    by (simp add: create_at_sizes_def partition_calculate_size_def Let_def ALIGN_LARGER_def)
  show ?thesis
    using partition_calculate_size_short [OF _ _ _ _ c] unfolding c by (simp add: ALIGN_LARGER_def)
qed

subsection \<open>Exclusive use of blocks\<close>

text \<open>What a pool of blocks promises its clients: a block comes from the free ones, goes back to them, and a
  request fails only when none is free. A client keeps the list of the blocks it holds.\<close>

datatype 'b pool_op = Get | Put 'b

fun pool_run :: "('s \<Rightarrow> 'b option \<times> 's) \<Rightarrow> ('b \<Rightarrow> 's \<Rightarrow> 's) \<Rightarrow> 'b pool_op list \<Rightarrow> 'b list \<times> 's \<Rightarrow> 'b list \<times> 's" where
  "pool_run get put [] x = x"
| "pool_run get put (Get # ops) (held, s) =
     (case get s of (None, s1) \<Rightarrow> pool_run get put ops (held, s1) | (Some b, s1) \<Rightarrow> pool_run get put ops (b # held, s1))"
| "pool_run get put (Put b # ops) (held, s) =
     (if b \<in> set held then pool_run get put ops (remove1 b held, put b s) else pool_run get put ops (held, s))"

locale block_pool =
  fixes ok :: "'s \<Rightarrow> bool" and all :: "'s \<Rightarrow> 'b list" and free :: "'s \<Rightarrow> 'b list"
    and get :: "'s \<Rightarrow> 'b option \<times> 's" and put :: "'b \<Rightarrow> 's \<Rightarrow> 's"
  assumes lists: "ok s \<Longrightarrow> distinct (all s) \<and> distinct (free s) \<and> set (free s) \<subseteq> set (all s)"
    and get_some: "ok s \<Longrightarrow> free s = b # fs \<Longrightarrow> fst (get s) = Some b \<and> ok (snd (get s)) \<and> free (snd (get s)) = fs \<and> all (snd (get s)) = all s"
    and get_none: "ok s \<Longrightarrow> free s = [] \<Longrightarrow> fst (get s) = None \<and> ok (snd (get s)) \<and> free (snd (get s)) = [] \<and> all (snd (get s)) = all s"
    and put_back: "ok s \<Longrightarrow> b \<in> set (all s) \<Longrightarrow> b \<notin> set (free s) \<Longrightarrow> ok (put b s) \<and> free (put b s) = b # free s \<and> all (put b s) = all s"
begin

definition consistent :: "'b list \<times> 's \<Rightarrow> bool" where
  "consistent x \<longleftrightarrow> ok (snd x) \<and> distinct (fst x) \<and> set (fst x) = set (all (snd x)) - set (free (snd x))"

lemma get_consistent:
  assumes "consistent (held, s)"
  shows "case get s of (None, s1) \<Rightarrow> consistent (held, s1) \<and> all s1 = all s \<and> free s = []
    | (Some b, s1) \<Rightarrow> consistent (b # held, s1) \<and> all s1 = all s \<and> b \<notin> set held"
proof (cases "free s")
  case Nil
  then show ?thesis using assms get_none [of s] by (cases "get s") (auto simp: consistent_def)
next
  case (Cons b fs)
  then show ?thesis using assms get_some [of s b fs] lists [of s] by (cases "get s") (auto simp: consistent_def)
qed

lemma put_consistent:
  assumes "consistent (held, s)" and "b \<in> set held"
  shows "consistent (remove1 b held, put b s)" and "all (put b s) = all s"
  using assms put_back [of s b] by (auto simp: consistent_def set_remove1_eq)

lemma run_consistent:
  "consistent (held, s) \<Longrightarrow> consistent (pool_run get put ops (held, s)) \<and> all (snd (pool_run get put ops (held, s))) = all s"
proof (induction ops arbitrary: held s)
  case (Cons x ops)
  show ?case
  proof (cases x)
    case Get
    then show ?thesis using get_consistent [OF Cons.prems] Cons.IH by (auto split: prod.splits option.splits)
  next
    case (Put b)
    then show ?thesis using put_consistent [OF Cons.prems, of b] Cons.IH Cons.prems by auto
  qed
qed simp

lemma held_and_free: "consistent (held, s) \<Longrightarrow> length held + length (free s) = length (all s)"
proof -
  assume c: "consistent (held, s)"
  then have l: "distinct (all s)" "distinct (free s)" "set (free s) \<subseteq> set (all s)" using lists by (auto simp: consistent_def)
  have "length held = card (set (all s)) - card (set (free s))"
    using c l(3) distinct_card [of held] by (simp add: consistent_def card_Diff_subset)
  then show ?thesis using l card_mono [OF _ l(3)] by (simp add: distinct_card)
qed

end

text \<open>The free list as a function of the state.\<close>

fun follow :: "nat \<Rightarrow> (ptr \<Rightarrow> pblock) \<Rightarrow> ptr \<Rightarrow> ptr list" where
  "follow 0 B b = []"
| "follow (Suc n) B b = b # follow n B (LINK (B b))"

definition free_blocks :: "ptr \<Rightarrow> kernel \<Rightarrow> ptr list" where
  "free_blocks p k = follow (unat (AVAILABLE (PARTPOOLS (part k) p))) (PBLOCKS (part k)) (FREE_LIST_PTR (PARTPOOLS (part k) p))"

lemma follow_chain: "block_chain B b xs \<Longrightarrow> follow (length xs) B b = xs"
  by (induction xs arbitrary: b) auto

lemma free_blocks_rep: "part_rep (part k) p as fs \<Longrightarrow> free_blocks p k = fs"
  using follow_chain by (simp add: part_rep_def free_blocks_def)

text \<open>A partition that does not grow, used for blocks of the system.\<close>

definition pool_ready :: "ptr \<Rightarrow> ptr list \<Rightarrow> kernel \<Rightarrow> bool" where
  "pool_ready p as k \<longleftrightarrow> part_rep (part k) p as (free_blocks p k) \<and> \<not> may_grow (PARTPOOLS (part k) p) \<and>
     list_all (\<lambda>b. b + HEADER_SIZE \<noteq> 0 \<and> (b \<in> set (free_blocks p k) \<or> BLK_TASK_ID (PBLOCKS (part k) b) = system_task_id k)) (blocks (part k) p as)"

definition pool_get :: "ptr \<Rightarrow> kernel \<Rightarrow> ptr option \<times> kernel" where
  "pool_get p k = (case partition_alloc_system 0 p k of (r, k1) \<Rightarrow> (if r = 0 then None else Some (r - HEADER_SIZE), k1))"

definition pool_put :: "ptr \<Rightarrow> kernel \<Rightarrow> kernel" where
  "pool_put b k = snd (partition_free (b + HEADER_SIZE) k)"

lemma take_block_fields [simp]:
  "may_grow (PARTPOOLS (take_block p i P) p) = may_grow (PARTPOOLS P p)"
  "may_grow (PARTPOOLS (give_back p b f P) p) = may_grow (PARTPOOLS P p)"
  by (simp_all add: take_block_def give_back_def may_grow_def Let_def)

lemma pool_get_some:
  assumes k: "pool_ready p as k" and fs: "free_blocks p k = b # fs"
  shows "fst (pool_get p k) = Some b \<and> pool_ready p as (snd (pool_get p k)) \<and> free_blocks p (snd (pool_get p k)) = fs \<and>
    blocks (part (snd (pool_get p k))) p as = blocks (part k) p as"
proof -
  have r: "part_rep (part k) p as (b # fs)" using k fs by (simp add: pool_ready_def)
  define k1 where "k1 = snd (partition_alloc_system 0 p k)"
  have e: "fst (partition_alloc_system 0 p k) = b + HEADER_SIZE" "part k1 = take_block p (system_task_id k) (part k)"
    "system_task_id k1 = system_task_id k"
    using alloc_some [OF r, of 0 "system_task_id k"] by (simp_all add: partition_alloc_system_def k1_def)
  note t = take_block_rep(1,3,4) [OF r, of "system_task_id k"]
  have b: "b \<in> set (blocks (part k) p as)" using r by (auto simp: part_rep_def)
  then have "b + HEADER_SIZE \<noteq> 0" using k by (auto simp: pool_ready_def list_all_iff)
  then have g: "pool_get p k = (Some b, k1)" using e(1) by (simp add: pool_get_def k1_def split_beta)
  have f: "free_blocks p k1 = fs" using t(1) by (intro free_blocks_rep) (simp add: e(2))
  have "pool_ready p as k1"
    using k t fs unfolding pool_ready_def f e by (auto simp: list_all_iff)
  then show ?thesis using t(2) by (simp add: g f e(2))
qed

lemma pool_get_none:
  assumes k: "pool_ready p as k" and fs: "free_blocks p k = []"
  shows "fst (pool_get p k) = None \<and> pool_ready p as (snd (pool_get p k)) \<and> free_blocks p (snd (pool_get p k)) = [] \<and>
    blocks (part (snd (pool_get p k))) p as = blocks (part k) p as"
proof -
  have r: "part_rep (part k) p as []" using k fs by (simp add: pool_ready_def)
  note n = alloc_none [OF r disjI2 [OF refl], of "system_task_id k"]
  then show ?thesis using k fs by (simp add: pool_get_def partition_alloc_system_def split_beta pool_ready_def free_blocks_def)
qed

lemma pool_put_back:
  assumes k: "pool_ready p as k" and b: "b \<in> set (blocks (part k) p as)" "b \<notin> set (free_blocks p k)"
  shows "pool_ready p as (pool_put b k) \<and> free_blocks p (pool_put b k) = b # free_blocks p k \<and>
    blocks (part (pool_put b k)) p as = blocks (part k) p as"
proof -
  have r: "part_rep (part k) p as (free_blocks p k)" and o: "BLK_TASK_ID (PBLOCKS (part k) b) \<in> {system_task_id k, TASK_ID (active_td k)}"
    using k b by (auto simp: pool_ready_def list_all_iff)
  note f = free_ok(2,3) [OF r b o]
  note g = give_back_rep [OF r b, of "\<lambda>d. d\<lparr>BLK_TASK_ID := 0\<rparr>"]
  have fb: "free_blocks p (pool_put b k) = b # free_blocks p k" using g(1) by (intro free_blocks_rep) (simp add: pool_put_def f)
  have "PBLOCKS (part (pool_put b k)) x = PBLOCKS (part k) x" if "x \<noteq> b" for x
    using that by (simp add: pool_put_def f give_back_def)
  then have "pool_ready p as (pool_put b k)" using k g unfolding pool_ready_def fb by (auto simp: pool_put_def f list_all_iff)
  then show ?thesis using fb g(2) by (simp add: pool_put_def f)
qed

interpretation parts: block_pool "pool_ready p as" "\<lambda>k. blocks (part k) p as" "free_blocks p" "pool_get p" pool_put
  for p as
proof
  show "distinct (blocks (part k) p as) \<and> distinct (free_blocks p k) \<and> set (free_blocks p k) \<subseteq> set (blocks (part k) p as)"
    if "pool_ready p as k" for k
    using that by (simp add: pool_ready_def part_rep_def)
qed (use pool_get_some pool_get_none pool_put_back in blast)+

text \<open>
  C14 (refinement). A partition implements a pool of blocks. Whatever a client of the system requests and gives back, the blocks
  it holds are distinct blocks of the partition, none of them is on the free list, every other one is, and
  together they are all the blocks: no block is ever handed out to two holders, and none is lost. The
  next request fails only if the client holds every block.
\<close>

theorem partition_exclusive_blocks:
  fixes ops :: "ptr pool_op list" and p :: ptr
  assumes "pool_ready p as k" and "set (free_blocks p k) = set (blocks (part k) p as)"
  defines "x \<equiv> pool_run (pool_get p) pool_put ops ([], k)"
  shows "distinct (fst x) \<and> set (fst x) = set (blocks (part k) p as) - set (free_blocks p (snd x)) \<and>
    length (fst x) + length (free_blocks p (snd x)) = length (blocks (part k) p as) \<and>
    (fst (pool_get p (snd x)) = None \<longleftrightarrow> set (fst x) = set (blocks (part k) p as))"
proof -
  have c: "parts.consistent p as ([], k)" using assms(1,2) by (simp add: parts.consistent_def)
  note r = parts.run_consistent [OF c, of ops, folded x_def]
  then have cx: "parts.consistent p as (fst x, snd x)" by simp
  have "fst (pool_get p (snd x)) = None \<longleftrightarrow> free_blocks p (snd x) = []"
    using cx pool_get_some [of p as "snd x"] pool_get_none [of p as "snd x"]
    by (cases "free_blocks p (snd x)") (auto simp: parts.consistent_def)
  moreover have "set (free_blocks p (snd x)) \<subseteq> set (blocks (part k) p as)"
    using parts.lists [of p as "snd x"] r by (simp add: parts.consistent_def)
  moreover have "set (fst x) = set (blocks (part k) p as) - set (free_blocks p (snd x))" "distinct (fst x)"
    using r by (simp_all add: parts.consistent_def)
  moreover have "length (fst x) + length (free_blocks p (snd x)) = length (blocks (part k) p as)"
    using parts.held_and_free [OF cx] r by simp
  ultimately show ?thesis by (cases "free_blocks p (snd x)") auto
qed

theorem partition_exclusive_blocks_witness:
  "length (fst (pool_run (pool_get 0x1000) pool_put [Get, Get, Put 0x10A0, Get] ([], demo_part)))
   + length (free_blocks 0x1000 (snd (pool_run (pool_get 0x1000) pool_put [Get, Get, Put 0x10A0, Get] ([], demo_part)))) = 4"
proof -
  have f: "free_blocks 0x1000 demo_part = rev (blocks_from 0x1040 32 4)" by (rule free_blocks_rep [OF demo_part_rep(1)])
  have b: "list_all (\<lambda>b. b + 12 \<noteq> 0) (blocks_from 0x1040 32 4)" by (simp add: blocks_from_def upt_conv_Cons)
  have "pool_ready 0x1000 [POOL 0x1000] demo_part"
    unfolding pool_ready_def f using demo_part_rep b by (simp add: may_grow_def list_all_iff)
  from partition_exclusive_blocks [OF this, of "[Get, Get, Put 0x10A0, Get]"] show ?thesis
    unfolding f demo_part_rep(2) by simp
qed

subsection \<open>Cleanup of a task\<close>

lemma blocks_cong:
  "BLOCK_SIZE (PARTPOOLS P' p) = BLOCK_SIZE (PARTPOOLS P p) \<Longrightarrow> (\<And>a. a \<in> set as \<Longrightarrow> PAREAS P' a = PAREAS P a) \<Longrightarrow>
   blocks P' p as = blocks P p as"
  unfolding blocks_def by (metis (no_types, lifting) map_cong)

lemma part_rep_cong:
  assumes "PARTPOOLS P' p = PARTPOOLS P p" and "\<And>a. a \<in> set as \<Longrightarrow> PAREAS P' a = PAREAS P a"
    and "\<And>b. b \<in> set (blocks P p as) \<Longrightarrow> PBLOCKS P' b = PBLOCKS P b" and r: "part_rep P p as fs"
  shows "part_rep P' p as fs"
proof -
  have bl: "blocks P' p as = blocks P p as" using assms(1,2) by (intro blocks_cong) simp_all
  have ac: "area_chain (PAREAS P') (POOL p) as" using r assms(2) by (subst area_chain_cong [of as _ "PAREAS P"]) (auto simp: part_rep_def)
  have "block_chain (PBLOCKS P') (FREE_LIST_PTR (PARTPOOLS P p)) fs"
    using r assms(3) by (subst block_chain_cong [of fs _ "PBLOCKS P"]) (auto simp: part_rep_def subset_iff)
  then show ?thesis using r ac assms unfolding part_rep_def bl by (auto simp: list_all_iff)
qed

lemma block_chain_link: "block_chain B b xs \<Longrightarrow> x \<in> set xs \<Longrightarrow> LINK (B x) \<in> insert 0 (set xs)"
proof (induction xs arbitrary: b)
  case (Cons y ys)
  then show ?case by (cases ys) auto
qed simp

text \<open>A block carries the address of its partition exactly if it is in use.\<close>

lemma link_in_use: "part_rep P p as fs \<Longrightarrow> b \<in> set (blocks P p as) \<Longrightarrow> LINK (PBLOCKS P b) = p \<longleftrightarrow> b \<notin> set fs"
  unfolding part_rep_def using block_chain_link [of "PBLOCKS P" "FREE_LIST_PTR (PARTPOOLS P p)" fs b] by (auto simp: list_all_iff)

definition owned :: "u32 \<Rightarrow> partitions \<Rightarrow> ptr list \<Rightarrow> ptr set" where
  "owned task_id P bs = {b \<in> set bs. BLK_TASK_ID (PBLOCKS P b) = task_id}"

text \<open>What the cleanup of one partition leaves alone.\<close>

definition only_partition :: "ptr \<Rightarrow> ptr set \<Rightarrow> partitions \<Rightarrow> partitions \<Rightarrow> bool" where
  "only_partition p bs P P' \<longleftrightarrow> PAREAS P' = PAREAS P \<and> PARTITION_LIST P' = PARTITION_LIST P \<and>
     BLOCK_SIZE (PARTPOOLS P' p) = BLOCK_SIZE (PARTPOOLS P p) \<and> (\<forall>q. q \<noteq> p \<longrightarrow> PARTPOOLS P' q = PARTPOOLS P q) \<and>
     (\<forall>b. b \<notin> bs \<longrightarrow> PBLOCKS P' b = PBLOCKS P b) \<and> (\<forall>b. BLK_TASK_ID (PBLOCKS P' b) = BLK_TASK_ID (PBLOCKS P b))"

lemma only_partition_trans: "only_partition p bs P Q \<Longrightarrow> only_partition p bs Q R \<Longrightarrow> only_partition p bs P R"
  by (simp add: only_partition_def)

lemma only_partition_refl: "only_partition p bs P P"
  by (simp add: only_partition_def)

lemma cleanup_blocks_rep:
  assumes "part_rep P p as fs" and "set (blocks_from b (BLOCK_SIZE (PARTPOOLS P p)) n) \<subseteq> set (blocks P p as)"
  shows "\<exists>fs'. part_rep (cleanup_blocks n p i b P) p as fs' \<and> only_partition p (set (blocks P p as)) P (cleanup_blocks n p i b P) \<and>
    set fs' = set fs \<union> owned i P (blocks_from b (BLOCK_SIZE (PARTPOOLS P p)) n)"
  using assms
proof (induction n arbitrary: b P fs)
  case 0
  then show ?case by (auto simp: owned_def only_partition_refl)
next
  case (Suc n)
  let ?z = "BLOCK_SIZE (PARTPOOLS P p)" let ?B = "set (blocks P p as)"
  let ?c = "BLK_TASK_ID (PBLOCKS P b) = i \<and> LINK (PBLOCKS P b) = p"
  define P1 where "P1 = (if ?c then give_back p b (\<lambda>d. d) P else P)"
  define fs1 where "fs1 = (if ?c then b # fs else fs)"
  have b: "b \<in> ?B" and bs: "set (blocks_from (b + ?z) ?z n) \<subseteq> ?B" using Suc.prems(2) by (auto simp: blocks_from_Suc)
  have c: "?c \<longleftrightarrow> BLK_TASK_ID (PBLOCKS P b) = i \<and> b \<notin> set fs" using link_in_use [OF Suc.prems(1) b] by blast
  have r1: "part_rep P1 p as fs1"
    using give_back_rep(1) [OF Suc.prems(1) b] Suc.prems(1) c by (auto simp: P1_def fs1_def)
  have o1: "only_partition p ?B P P1" using b by (auto simp: P1_def only_partition_def give_back_def)
  have z: "BLOCK_SIZE (PARTPOOLS P1 p) = ?z" and bl: "blocks P1 p as = blocks P p as"
    using o1 blocks_cong [of P1 p P as] by (simp_all add: only_partition_def)
  have sub: "set (blocks_from (b + ?z) (BLOCK_SIZE (PARTPOOLS P1 p)) n) \<subseteq> set (blocks P1 p as)" using bs by (simp add: z bl)
  have ow: "owned i P1 xs = owned i P xs" for xs using o1 by (simp add: owned_def only_partition_def)
  have e: "cleanup_blocks (Suc n) p i b P = cleanup_blocks n p i (b + ?z) P1" by (simp add: Let_def P1_def [symmetric] z)
  obtain fs' where f: "part_rep (cleanup_blocks n p i (b + ?z) P1) p as fs'"
    "only_partition p ?B P1 (cleanup_blocks n p i (b + ?z) P1)"
    "set fs' = set fs1 \<union> owned i P (blocks_from (b + ?z) ?z n)"
    using Suc.IH [OF r1 sub] unfolding bl z ow by auto
  have "set fs' = set fs \<union> owned i P (blocks_from b ?z (Suc n))"
    using f(3) c by (auto simp: fs1_def owned_def blocks_from_Suc)
  then show ?case using f(1) only_partition_trans [OF o1 f(2)] unfolding e by auto
qed

lemma cleanup_areas_rep:
  assumes "part_rep P p as fs" and "area_chain (PAREAS P) a cs" and "set cs \<subseteq> set as"
  shows "\<exists>P' fs'. cleanup_areas p i a P = Some P' \<and> part_rep P' p as fs' \<and> only_partition p (set (blocks P p as)) P P' \<and>
    set fs' = set fs \<union> owned i P (blocks P p cs)"
  using assms
proof (induction cs arbitrary: a P fs)
  case Nil
  then show ?case by (subst cleanup_areas.simps) (auto simp: only_partition_refl owned_def blocks_def)
next
  case (Cons c cs)
  let ?z = "BLOCK_SIZE (PARTPOOLS P p)" let ?A = "PAREAS P c"
  have a: "a = c" "c \<noteq> 0" "area_chain (PAREAS P) (NEXT_POOL_PTR ?A) cs" "AREA_VALID ?A = PARTITION_VALID"
    using Cons.prems by (auto simp: part_rep_def list_all_iff)
  have "set (area_blocks ?z ?A) \<subseteq> set (blocks P p as)" using Cons.prems(3) by (auto simp: blocks_def)
  then obtain fs1 where f1: "part_rep (cleanup_blocks (unat (NUMBER_OF_BLOCKS ?A)) p i (FIRST_IBLOCK_PTR ?A) P) p as fs1"
    "only_partition p (set (blocks P p as)) P (cleanup_blocks (unat (NUMBER_OF_BLOCKS ?A)) p i (FIRST_IBLOCK_PTR ?A) P)"
    "set fs1 = set fs \<union> owned i P (area_blocks ?z ?A)"
    using cleanup_blocks_rep [OF Cons.prems(1), of "FIRST_IBLOCK_PTR ?A" "unat (NUMBER_OF_BLOCKS ?A)" i] by (auto simp: area_blocks_def)
  let ?P1 = "cleanup_blocks (unat (NUMBER_OF_BLOCKS ?A)) p i (FIRST_IBLOCK_PTR ?A) P"
  have s: "PAREAS ?P1 = PAREAS P" "blocks ?P1 p xs = blocks P p xs" "owned i ?P1 ys = owned i P ys" for xs ys
    using f1(2) blocks_cong [of ?P1 p P xs] by (simp_all add: only_partition_def owned_def)
  have "set cs \<subseteq> set as" using Cons.prems(3) by simp
  then obtain P' fs' where f: "cleanup_areas p i (NEXT_POOL_PTR ?A) ?P1 = Some P'" "part_rep P' p as fs'"
    "only_partition p (set (blocks P p as)) ?P1 P'" "set fs' = set fs1 \<union> owned i P (blocks P p cs)"
    using Cons.IH [OF f1(1), of "NEXT_POOL_PTR ?A"] a(3) unfolding s by blast
  have "cleanup_areas p i a P = Some P'"
    using a f(1) by (subst cleanup_areas.simps) (simp add: Let_def s)
  moreover have "set fs' = set fs \<union> owned i P (blocks P p (c # cs))" using f(4) f1(3) by (auto simp: owned_def blocks_def)
  ultimately show ?case using f(2) only_partition_trans [OF f1(2) f(3)] by blast
qed

text \<open>All partitions together: \<open>as\<close> and \<open>fs\<close> give the areas and the free list of each, and no block belongs to two.\<close>

definition parts_rep :: "partitions \<Rightarrow> (ptr \<Rightarrow> ptr list) \<Rightarrow> (ptr \<Rightarrow> ptr list) \<Rightarrow> bool" where
  "parts_rep P as fs \<longleftrightarrow> distinct (PARTITION_LIST P) \<and> (\<forall>p \<in> set (PARTITION_LIST P). part_rep P p (as p) (fs p) \<and>
     (\<forall>q \<in> set (PARTITION_LIST P). q \<noteq> p \<longrightarrow> set (blocks P q (as q)) \<inter> set (blocks P p (as p)) = {}))"

lemma parts_rep_step:
  assumes P: "parts_rep P as fs" and p: "p \<in> set (PARTITION_LIST P)"
    and o: "only_partition p (set (blocks P p (as p))) P P'" and r: "part_rep P' p (as p) xs"
  shows "parts_rep P' as (fs(p := xs))" and "\<And>q. blocks P' q (as q) = blocks P q (as q)"
proof -
  have A: "PAREAS P' = PAREAS P" "PARTITION_LIST P' = PARTITION_LIST P" using o by (simp_all add: only_partition_def)
  show bl: "blocks P' q (as q) = blocks P q (as q)" for q
    using o by (cases "q = p") (auto intro!: blocks_cong simp: only_partition_def)
  have "part_rep P' q (as q) (fs q)" if q: "q \<in> set (PARTITION_LIST P)" "q \<noteq> p" for q
  proof (rule part_rep_cong)
    show "part_rep P q (as q) (fs q)" "PARTPOOLS P' q = PARTPOOLS P q" using P o q by (auto simp: parts_rep_def only_partition_def)
    show "PBLOCKS P' b = PBLOCKS P b" if "b \<in> set (blocks P q (as q))" for b
    proof -
      have "set (blocks P q (as q)) \<inter> set (blocks P p (as p)) = {}" using P p q by (simp add: parts_rep_def)
      then show ?thesis using that o by (auto simp: only_partition_def)
    qed
  qed (simp add: A)
  then show "parts_rep P' as (fs(p := xs))" using P r by (auto simp: parts_rep_def A bl)
qed

lemma cleanup_pools_rep:
  assumes "parts_rep P as fs" and "set ps \<subseteq> set (PARTITION_LIST P)" and "distinct ps"
  shows "\<exists>P' fs'. cleanup_pools ps i P = Some P' \<and> parts_rep P' as fs' \<and> PARTITION_LIST P' = PARTITION_LIST P \<and>
    (\<forall>b. BLK_TASK_ID (PBLOCKS P' b) = BLK_TASK_ID (PBLOCKS P b)) \<and> (\<forall>p. blocks P' p (as p) = blocks P p (as p)) \<and>
    (\<forall>p. set (fs' p) = (if p \<in> set ps then set (fs p) \<union> owned i P (blocks P p (as p)) else set (fs p)))"
  using assms
proof (induction ps arbitrary: P fs)
  case Nil
  then show ?case by auto
next
  case (Cons p ps)
  have p: "p \<in> set (PARTITION_LIST P)" "p \<notin> set ps" and r: "part_rep P p (as p) (fs p)"
    using Cons.prems by (auto simp: parts_rep_def)
  have ac: "area_chain (PAREAS P) (POOL p) (as p)" using r by (simp add: part_rep_def)
  obtain P1 xs where f1: "cleanup_areas p i (POOL p) P = Some P1" "part_rep P1 p (as p) xs" "only_partition p (set (blocks P p (as p))) P P1"
    "set xs = set (fs p) \<union> owned i P (blocks P p (as p))"
    using cleanup_areas_rep [OF r ac order_refl] by blast
  note st = parts_rep_step [OF Cons.prems(1) p(1) f1(3,2)]
  have s: "PARTITION_LIST P1 = PARTITION_LIST P" "owned i P1 ys = owned i P ys" "BLK_TASK_ID (PBLOCKS P1 b) = BLK_TASK_ID (PBLOCKS P b)" for ys b
    using f1(3) by (simp_all add: only_partition_def owned_def)
  have "set ps \<subseteq> set (PARTITION_LIST P1)" "distinct ps" using Cons.prems by (simp_all add: s)
  from Cons.IH [OF st(1) this] obtain P' fs' where f: "cleanup_pools ps i P1 = Some P'" "parts_rep P' as fs'"
    "PARTITION_LIST P' = PARTITION_LIST P" "\<forall>b. BLK_TASK_ID (PBLOCKS P' b) = BLK_TASK_ID (PBLOCKS P b)"
    "\<forall>q. blocks P' q (as q) = blocks P q (as q)"
    "\<forall>q. set (fs' q) = (if q \<in> set ps then set ((fs(p := xs)) q) \<union> owned i P (blocks P q (as q)) else set ((fs(p := xs)) q))"
    unfolding s st(2) by blast
  have "\<forall>q. set (fs' q) = (if q \<in> set (p # ps) then set (fs q) \<union> owned i P (blocks P q (as q)) else set (fs q))"
    using f(6) f1(4) p(2) by auto
  then show ?case using f(1-5) f1(1) by auto
qed

text \<open>
  Fact. When a task is destroyed the cleanup of the partitions ends, and afterwards the free blocks of
  every partition are those that were free and those the task owned. The partitions stay well formed, and the
  blocks of other tasks keep their owners.
\<close>

theorem partition_cleanup_frees:
  assumes "parts_rep (part k) as fs" and "PARTITION_COMPONENT (part k) = Some PARTITION_VALID"
  shows "\<exists>k' fs'. partition_cleanup td k = Some k' \<and> parts_rep (part k') as fs' \<and> PARTITION_LIST (part k') = PARTITION_LIST (part k) \<and>
    (\<forall>b. BLK_TASK_ID (PBLOCKS (part k') b) = BLK_TASK_ID (PBLOCKS (part k) b)) \<and>
    (\<forall>p \<in> set (PARTITION_LIST (part k)). blocks (part k') p (as p) = blocks (part k) p (as p) \<and>
       set (fs' p) = set (fs p) \<union> owned (TASK_ID (TDS k td)) (part k) (blocks (part k) p (as p)))"
proof -
  have "distinct (PARTITION_LIST (part k))" using assms(1) by (simp add: parts_rep_def)
  from cleanup_pools_rep [OF assms(1) order_refl this, of "TASK_ID (TDS k td)"] obtain P' fs' where f:
    "cleanup_pools (PARTITION_LIST (part k)) (TASK_ID (TDS k td)) (part k) = Some P'" "parts_rep P' as fs'"
    "PARTITION_LIST P' = PARTITION_LIST (part k)" "\<forall>b. BLK_TASK_ID (PBLOCKS P' b) = BLK_TASK_ID (PBLOCKS (part k) b)"
    "\<forall>p. blocks P' p (as p) = blocks (part k) p (as p)"
    "\<forall>p. set (fs' p) = (if p \<in> set (PARTITION_LIST (part k)) then set (fs p) \<union> owned (TASK_ID (TDS k td)) (part k) (blocks (part k) p (as p))
       else set (fs p))"
    by blast
  have "partition_cleanup td k = Some (upd_part (\<lambda>_. P') k)" using assms(2) f(1) by (simp add: partition_cleanup_def)
  with f show ?thesis by (intro exI [of _ "upd_part (\<lambda>_. P') k"] exI [of _ fs']) simp
qed

lemma demo_parts_rep:
  "parts_rep (part demo_part) (\<lambda>p. [POOL p]) (\<lambda>_. rev (blocks_from 0x1040 32 4))"
  "PARTITION_COMPONENT (part demo_part) = Some PARTITION_VALID" "PARTITION_LIST (part demo_part) = [0x1000]"
proof -
  show l: "PARTITION_LIST (part demo_part) = [0x1000]"
    using create_at_rep(5) [OF demo_sizes _ _ _ _ _ _ demo_component, of True] by (simp add: demo_part_def) (simp add: demo_def)
  show "parts_rep (part demo_part) (\<lambda>p. [POOL p]) (\<lambda>_. rev (blocks_from 0x1040 32 4))"
    using demo_part_rep(1) by (simp add: parts_rep_def l)
  have "PARTITION_COMPONENT (part demo) = Some PARTITION_VALID" by (simp add: demo_def)
  then show "PARTITION_COMPONENT (part demo_part) = Some PARTITION_VALID"
    by (simp add: demo_part_def partition_create_at_def demo_sizes partition_create_internal_def create_pool_def Let_def upd_pool_def upd_area_def)
qed

theorem partition_cleanup_frees_witness: "\<exists>k'. partition_cleanup 200 demo_part = Some k' \<and> PARTITION_LIST (part k') = [0x1000]"
  using partition_cleanup_frees [OF demo_parts_rep(1,2), of 200] demo_parts_rep(3) by auto

subsection \<open>The consistency check and destruction\<close>

lemma test_blocks_ok:
  "pool_valid p P \<Longrightarrow> (\<And>x. x \<in> set (blocks_from b (BLOCK_SIZE (PARTPOOLS P p)) n) \<Longrightarrow> VALID_PARTITION_CHECKSUM (PBLOCKS P x)) \<Longrightarrow>
   test_blocks n p a b P = None"
  by (induction n arbitrary: b) (simp_all add: blocks_from_Suc)

lemma test_areas_ok:
  assumes "part_rep P p as fs" and "area_chain (PAREAS P) a cs" and "set cs \<subseteq> set as"
  shows "\<exists>a'. test_areas p v a P = Some (None, a')"
  using assms(2,3)
proof (induction cs arbitrary: a v)
  case Nil
  then show ?case by (subst test_areas.simps) simp
next
  case (Cons c cs)
  have "test_blocks (unat (NUMBER_OF_BLOCKS (PAREAS P c))) p c (FIRST_IBLOCK_PTR (PAREAS P c)) P = None"
    using assms(1) Cons.prems(2)
    by (intro test_blocks_ok part_rep_valid [OF assms(1)]) (auto simp: part_rep_def list_all_iff blocks_def area_blocks_def)
  then show ?case using Cons by (subst test_areas.simps) auto
qed

lemma test_free_ok:
  assumes "block_chain (PBLOCKS P) b fs" and "\<forall>x \<in> set fs. VALID_PARTITION_CHECKSUM (PBLOCKS P x)"
  shows "\<exists>t. test_free p a b P = Some (None, upd_pool p (\<lambda>r. r\<lparr>TEST_FREE_PTR := t\<rparr>) P)"
  using assms
proof (induction fs arbitrary: b P)
  case Nil
  have "P = upd_pool p (\<lambda>r. r\<lparr>TEST_FREE_PTR := TEST_FREE_PTR (PARTPOOLS P p)\<rparr>) P" by (simp add: upd_pool_def)
  then show ?case using Nil by (subst test_free.simps) auto
next
  case (Cons x xs)
  let ?P = "upd_pool p (\<lambda>r. r\<lparr>TEST_FREE_PTR := x\<rparr>) P"
  from Cons.IH [of ?P "LINK (PBLOCKS P x)"] Cons.prems obtain t where
    "test_free p a (LINK (PBLOCKS P x)) ?P = Some (None, upd_pool p (\<lambda>r. r\<lparr>TEST_FREE_PTR := t\<rparr>) ?P)" by auto
  then show ?case using Cons.prems by (subst test_free.simps) (auto simp: Let_def upd_pool_def)
qed

lemma part_rep_test_ptr: "part_rep (upd_pool p (\<lambda>r. r\<lparr>TEST_FREE_PTR := t\<rparr>) P) p as fs = part_rep P p as fs"
  by (simp add: part_rep_def blocks_def)

lemma test_pools_ok:
  assumes "parts_rep P as fs" and "set ps \<subseteq> set (PARTITION_LIST P)" and "fst out = MQX_OK"
  shows "\<exists>out' P'. test_pools ps out P = Some (out', P') \<and> fst out' = MQX_OK \<and> parts_rep P' as fs"
  using assms
proof (induction ps arbitrary: P out)
  case Nil
  then show ?case by auto
next
  case (Cons p ps)
  have p: "p \<in> set (PARTITION_LIST P)" and r: "part_rep P p (as p) (fs p)" using Cons.prems by (auto simp: parts_rep_def)
  have ac: "area_chain (PAREAS P) (POOL p) (as p)" using r by (simp add: part_rep_def)
  obtain a where a: "test_areas p 0 (POOL p) P = Some (None, a)" using test_areas_ok [OF r ac order_refl] by blast
  have "block_chain (PBLOCKS P) (FREE_LIST_PTR (PARTPOOLS P p)) (fs p)" "\<forall>x \<in> set (fs p). VALID_PARTITION_CHECKSUM (PBLOCKS P x)"
    using r by (auto simp: part_rep_def list_all_iff)
  then obtain t where t: "test_free p a (FREE_LIST_PTR (PARTPOOLS P p)) P = Some (None, upd_pool p (\<lambda>r. r\<lparr>TEST_FREE_PTR := t\<rparr>) P)"
    using test_free_ok by blast
  let ?P = "upd_pool p (\<lambda>r. r\<lparr>TEST_FREE_PTR := t\<rparr>) P"
  have "parts_rep ?P as (fs(p := fs p))"
    by (rule parts_rep_step(1) [OF Cons.prems(1) p]) (use r in \<open>simp_all add: only_partition_def part_rep_test_ptr\<close>)
  then have "\<exists>out' P'. test_pools ps (MQX_OK, Some p, Some a, None) ?P = Some (out', P') \<and> fst out' = MQX_OK \<and> parts_rep P' as fs"
    using Cons.prems(2) by (intro Cons.IH) simp_all
  then show ?case by (simp add: a t)
qed

text \<open>
  Fact. The consistency check walks the areas, the blocks and the free list of every partition; on
  well-formed partitions all these walks end, the result is \<^verbatim>\<open>MQX_OK\<close>, and the partitions are well formed afterwards.
\<close>

theorem partition_test_accepts:
  assumes "parts_rep (part k) as fs" and "PARTITION_COMPONENT (part k) = Some PARTITION_VALID"
  shows "\<exists>out k'. partition_test k = Some (out, k') \<and> fst out = MQX_OK \<and> parts_rep (part k') as fs"
proof -
  obtain out P' where f: "test_pools (PARTITION_LIST (part k)) (MQX_OK, None, None, None) (part k) = Some (out, P')"
    "fst out = MQX_OK" "parts_rep P' as fs"
    using test_pools_ok [OF assms(1) order_refl, of "(MQX_OK, None, None, None)"] by auto
  then have "partition_test k = Some (out, upd_part (\<lambda>_. P') k)" using assms(2) by (simp add: partition_test_def)
  with f show ?thesis by (intro exI [of _ out] exI [of _ "upd_part (\<lambda>_. P') k"]) simp
qed

theorem partition_test_accepts_witness: "\<exists>out k'. partition_test demo_part = Some (out, k') \<and> fst out = MQX_OK"
  using partition_test_accepts [OF demo_parts_rep(1,2)] by blast

lemma area_list_chain: "area_chain (PAREAS P) a as \<Longrightarrow> area_list P a = Some as"
proof (induction as arbitrary: a)
  case (Cons x xs)
  then show ?case by (subst area_list.simps) simp
qed (subst area_list.simps, simp)

text \<open>Destruction of a dynamic partition with all blocks free returns exactly its areas and itself to the memory
  manager; with a block in use it refuses and changes nothing.\<close>

lemma partition_destroy_frees:
  assumes r: "part_rep (part k) p (POOL p # rest) fs" and "PARTITION_COMPONENT (part k) \<noteq> None"
    and "PARTITION_TYPE (PARTPOOLS (part k) p) = PARTITION_DYNAMIC"
  shows "set fs \<noteq> set (blocks (part k) p (POOL p # rest)) \<Longrightarrow> partition_destroy result p k = Some (PARTITION_ALL_BLOCKS_NOT_FREE, k, [])"
    and "set fs = set (blocks (part k) p (POOL p # rest)) \<Longrightarrow>
      \<exists>k'. partition_destroy result p k = Some (result, k', rest @ [p]) \<and> \<not> pool_valid p (part k') \<and>
        PARTITION_LIST (part k') = remove1 p (PARTITION_LIST (part k))"
proof -
  let ?r = "PARTPOOLS (part k) p" let ?b = "blocks (part k) p (POOL p # rest)"
  have "set fs \<subseteq> set ?b" "distinct fs" "distinct ?b" using r by (simp_all add: part_rep_def)
  then have "length fs = length ?b \<longleftrightarrow> set fs = set ?b" by (metis card_subset_eq distinct_card finite_set)
  then have t: "TOTAL_BLOCKS ?r = AVAILABLE ?r \<longleftrightarrow> set fs = set ?b" using r by (auto simp: part_rep_def word_unat_eq_iff)
  show "set fs \<noteq> set ?b \<Longrightarrow> partition_destroy result p k = Some (PARTITION_ALL_BLOCKS_NOT_FREE, k, [])"
    using t assms part_rep_valid [OF r] by (auto simp: partition_destroy_def Let_def)
  assume e: "set fs = set ?b"
  define k2 where "k2 = upd_part (upd_area (POOL p) (\<lambda>a. a\<lparr>AREA_VALID := 0\<rparr>))
    (INT_ENABLE (upd_part (\<lambda>P. P\<lparr>PARTITION_LIST := remove1 p (PARTITION_LIST P)\<rparr>) (INT_DISABLE k)))"
  have "area_chain (PAREAS (part k2)) (NEXT_POOL_PTR (PAREAS (part k) (POOL p))) rest"
    using r by (subst area_chain_cong [of rest _ "PAREAS (part k)"]) (auto simp: part_rep_def k2_def)
  then have "area_list (part k2) (NEXT_POOL_PTR (PAREAS (part k2) (POOL p))) = Some rest"
    by (intro area_list_chain) (simp add: k2_def)
  then have "partition_destroy result p k = Some (result, k2, rest @ [p])"
    using t e assms part_rep_valid [OF r] by (simp add: partition_destroy_def Let_def k2_def)
  moreover have "\<not> pool_valid p (part k2)" "PARTITION_LIST (part k2) = remove1 p (PARTITION_LIST (part k))"
    by (simp_all add: k2_def pool_valid_def)
  ultimately show "\<exists>k'. partition_destroy result p k = Some (result, k', rest @ [p]) \<and> \<not> pool_valid p (part k') \<and>
        PARTITION_LIST (part k') = remove1 p (PARTITION_LIST (part k))" by blast
qed

subsection \<open>Growth\<close>

lemma grow_number_bounds:
  assumes "may_grow r"
  shows "0 < unat (grow_number r)" and "MAXIMUM_BLOCKS r \<noteq> 0 \<Longrightarrow> unat (TOTAL_BLOCKS r) + unat (grow_number r) \<le> unat (MAXIMUM_BLOCKS r)"
proof -
  have m: "unat (MAXIMUM_BLOCKS r - TOTAL_BLOCKS r) = unat (MAXIMUM_BLOCKS r) - unat (TOTAL_BLOCKS r)" "TOTAL_BLOCKS r < MAXIMUM_BLOCKS r"
    if "MAXIMUM_BLOCKS r \<noteq> 0"
    using assms that by (auto simp: may_grow_def unat_sub_small word_less_nat_alt)
  show "0 < unat (grow_number r)"
    using assms m by (auto simp: grow_number_def may_grow_def word_less_nat_alt unat_gt_0)
  show "unat (TOTAL_BLOCKS r) + unat (grow_number r) \<le> unat (MAXIMUM_BLOCKS r)" if "MAXIMUM_BLOCKS r \<noteq> 0"
    using m [OF that] by (auto simp: grow_number_def word_less_nat_alt not_less)
qed

text \<open>An empty dynamic partition that may grow hands out the last block of the new area, keeps the rest of it
  free, and never exceeds its maximum.\<close>

lemma partition_alloc_grows:
  fixes mem p :: ptr and i :: u32
  assumes r: "part_rep (part k) p (POOL p # rest) []" and g: "may_grow (PARTPOOLS (part k) p)"
    and m: "mem \<notin> set (POOL p # rest)" "mem \<noteq> 0"
  defines "n \<equiv> unat (grow_number (PARTPOOLS (part k) p))"
    and "bs \<equiv> blocks_from (ALIGN_LARGER (mem + AREA_SIZE)) (BLOCK_SIZE (PARTPOOLS (part k) p)) (unat (grow_number (PARTPOOLS (part k) p)))"
    and "k1 \<equiv> snd (partition_alloc_internal mem p i k)"
  assumes d: "distinct bs" "set bs \<inter> set (blocks (part k) p (POOL p # rest)) = {}" "0 \<notin> set bs" "p \<notin> set bs"
    and t: "unat (TOTAL_BLOCKS (PARTPOOLS (part k) p)) + n < 2 ^ 32"
  shows "fst (partition_alloc_internal mem p i k) = last bs + HEADER_SIZE" and "part_rep (part k1) p (POOL p # mem # rest) (rev (butlast bs))"
    and "MAXIMUM_BLOCKS (PARTPOOLS (part k) p) \<noteq> 0 \<Longrightarrow>
      length (blocks (part k1) p (POOL p # mem # rest)) \<le> unat (MAXIMUM_BLOCKS (PARTPOOLS (part k) p))"
proof -
  let ?P = "partition_grow p mem (part k)"
  have P: "?P = partition_extend_internal p mem (grow_number (PARTPOOLS (part k) p)) (add_total p (grow_number (PARTPOOLS (part k) p)) (part k))"
    using m by (simp add: partition_grow_def Let_def)
  have e: "part_rep ?P p (POOL p # mem # rest) (rev bs @ [])"
    unfolding P bs_def by (rule extend_internal_rep(1) [OF r m]) (use d t in \<open>simp_all add: bs_def n_def\<close>)
  have nz: "bs \<noteq> []" using grow_number_bounds(1) [OF g] by (simp add: bs_def blocks_from_def)
  then have rb: "rev bs = last bs # rev (butlast bs)" by (metis append_butlast_last_id rev_append rev_singleton_conv singleton_rev_conv append_Cons append_Nil)
  have e': "part_rep ?P p (POOL p # mem # rest) (last bs # rev (butlast bs))" using e unfolding append_Nil2 rb .
  have av: "AVAILABLE (PARTPOOLS (part k) p) = 0" "p \<noteq> 0" using r by (auto simp: part_rep_def unat_eq_0)
  have "AVAILABLE (PARTPOOLS ?P p) \<noteq> 0" "VALID_PARTITION_CHECKSUM (PBLOCKS ?P (last bs))" "FREE_LIST_PTR (PARTPOOLS ?P p) = last bs"
    using e' by (auto simp: part_rep_def list_all_iff)
  then show "fst (partition_alloc_internal mem p i k) = last bs + HEADER_SIZE"
    and k1: "part_rep (part k1) p (POOL p # mem # rest) (rev (butlast bs))"
    using part_rep_valid [OF r] av g take_block_rep(1) [OF e', of i] by (simp_all add: k1_def partition_alloc_internal_def Let_def)
  have "part k1 = take_block p i ?P"
    using part_rep_valid [OF r] av g \<open>AVAILABLE (PARTPOOLS ?P p) \<noteq> 0\<close> \<open>VALID_PARTITION_CHECKSUM (PBLOCKS ?P (last bs))\<close>
      \<open>FREE_LIST_PTR (PARTPOOLS ?P p) = last bs\<close> by (simp add: k1_def partition_alloc_internal_def Let_def)
  then have "blocks (part k1) p (POOL p # mem # rest) = blocks ?P p (POOL p # mem # rest)"
    using take_block_rep(3) [OF e', of i] by simp
  moreover have "set (blocks ?P p (POOL p # mem # rest)) = set bs \<union> set (blocks (part k) p (POOL p # rest))"
    unfolding P bs_def by (rule extend_internal_rep(2) [OF r m]) (use d t in \<open>simp_all add: bs_def n_def\<close>)
  then have "length (blocks ?P p (POOL p # mem # rest)) = n + unat (TOTAL_BLOCKS (PARTPOOLS (part k) p))"
    using e r d(1,2) card_Un_disjoint [of "set bs" "set (blocks (part k) p (POOL p # rest))"] distinct_card [of bs]
      distinct_card [of "blocks ?P p (POOL p # mem # rest)"] distinct_card [of "blocks (part k) p (POOL p # rest)"]
    by (simp add: part_rep_def n_def bs_def)
  ultimately show "length (blocks (part k1) p (POOL p # mem # rest)) \<le> unat (MAXIMUM_BLOCKS (PARTPOOLS (part k) p))"
    if "MAXIMUM_BLOCKS (PARTPOOLS (part k) p) \<noteq> 0"
    using grow_number_bounds(2) [OF g that] by (simp add: n_def)
qed

end
