(* ===== verification/Lwmem.thy ===== *)
theory Lwmem
  imports Memory_Layout
begin

unbundle bit_operations_syntax

text \<open>
  Lightweight memory (\<^verbatim>\<open>kernel/lwmem.c\<close>): pools of memory cut into blocks that lie one behind the other, the free
  ones linked in the order of their addresses. The structures and their sizes are those of \<^verbatim>\<open>lwmem_prv.h\<close> on a
  32-bit little-endian processor. Block headers and the bytes handed out are kept apart. The walks through a list
  open a window for interrupts at every step: \<open>W\<close> lists what the interrupt handlers and other tasks do in these
  windows, one entry for each; nothing happens once the list is used up.
\<close>

abbreviation (input) MQX_INVALID_POINTER :: u32 where "MQX_INVALID_POINTER \<equiv> 1"
abbreviation (input) MQX_CORRUPT_STORAGE_POOL :: u32 where "MQX_CORRUPT_STORAGE_POOL \<equiv> 6"
abbreviation (input) MQX_CORRUPT_STORAGE_POOL_FREE_LIST :: u32 where "MQX_CORRUPT_STORAGE_POOL_FREE_LIST \<equiv> 7"
abbreviation (input) MQX_LWMEM_POOL_INVALID :: u32 where "MQX_LWMEM_POOL_INVALID \<equiv> 0x38"
abbreviation (input) LWMEM_POOL_VALID :: u32 where "LWMEM_POOL_VALID \<equiv> 0x6C6D6570"
abbreviation (input) SYSTEM_TASK_NUMBER :: u32 where "SYSTEM_TASK_NUMBER \<equiv> 0xFFFF"

text \<open>\<^verbatim>\<open>sizeof\<close> of the block header and of the pool, and the smallest block.\<close>

abbreviation (input) LWBLOCK_SIZE :: u32 where "LWBLOCK_SIZE \<equiv> 12"
abbreviation (input) LWPOOL_SIZE :: u32 where "LWPOOL_SIZE \<equiv> 48"
abbreviation (input) LWMEM_MIN_MEMORY_STORAGE_SIZE :: u32 where "LWMEM_MIN_MEMORY_STORAGE_SIZE \<equiv> 16"

type_synonym windows = "(kernel \<Rightarrow> kernel) list"

subsection \<open>Access to the structures\<close>

definition upd_lwpool :: "ptr \<Rightarrow> (lwpool \<Rightarrow> lwpool) \<Rightarrow> lwmem \<Rightarrow> lwmem" where
  "upd_lwpool p f M = M\<lparr>LWPOOLS := (LWPOOLS M)(p := f (LWPOOLS M p))\<rparr>"

definition upd_lwblock :: "ptr \<Rightarrow> (lwblock \<Rightarrow> lwblock) \<Rightarrow> lwmem \<Rightarrow> lwmem" where
  "upd_lwblock b f M = M\<lparr>LWBLOCKS := (LWBLOCKS M)(b := f (LWBLOCKS M b))\<rparr>"

definition upd_lwmem :: "(lwmem \<Rightarrow> lwmem) \<Rightarrow> kernel \<Rightarrow> kernel" where
  "upd_lwmem f k = k\<lparr>OBJ := (OBJ k)\<lparr>LWMEM := f (LWMEM (OBJ k))\<rparr>\<rparr>"

abbreviation lwm :: "kernel \<Rightarrow> lwmem" where "lwm k \<equiv> LWMEM (OBJ k)"

definition lwpool_valid :: "ptr \<Rightarrow> lwmem \<Rightarrow> bool" where
  "lwpool_valid p M \<longleftrightarrow> LWPOOL_VALID (LWPOOLS M p) = LWMEM_POOL_VALID"

definition GET_LWMEMBLOCK_PTR :: "ptr \<Rightarrow> ptr" where
  "GET_LWMEMBLOCK_PTR a = a - LWBLOCK_SIZE"

text \<open>The two halves of the union word, and the number of a task.\<close>

definition TASK_NUMBER_FROM_TASKID :: "u32 \<Rightarrow> u32" where
  "TASK_NUMBER_FROM_TASKID task_id = task_id AND 0xFFFF"

definition blk_task_number :: "lwblock \<Rightarrow> u32" where
  "blk_task_number d = UWORD d AND 0xFFFF"

definition blk_mem_type :: "lwblock \<Rightarrow> u32" where
  "blk_mem_type d = drop_bit 16 (UWORD d)"

definition set_task_number :: "u32 \<Rightarrow> lwblock \<Rightarrow> lwblock" where
  "set_task_number n d = d\<lparr>UWORD := (UWORD d AND NOT 0xFFFF) OR (n AND 0xFFFF)\<rparr>"

definition set_mem_type :: "u32 \<Rightarrow> lwblock \<Rightarrow> lwblock" where
  "set_mem_type t d = d\<lparr>UWORD := (UWORD d AND 0xFFFF) OR push_bit 16 (t AND 0xFFFF)\<rparr>"

definition td_task_number :: "addr \<Rightarrow> kernel \<Rightarrow> u32" where
  "td_task_number td k = TASK_NUMBER_FROM_TASKID (TASK_ID (TDS k td))"

text \<open>\<^verbatim>\<open>_int_enable\<close>, what happens in the window, \<^verbatim>\<open>_int_disable\<close>.\<close>

definition window :: "windows \<Rightarrow> kernel \<Rightarrow> kernel" where
  "window W k = INT_DISABLE ((case W of [] \<Rightarrow> \<lambda>k. k | w # _ \<Rightarrow> w) (INT_ENABLE k))"

text \<open>The pointers of the walks are reset at the end of every operation that changes the blocks.\<close>

definition reset_walks :: "ptr \<Rightarrow> lwmem \<Rightarrow> lwmem" where
  "reset_walks p =
     upd_lwpool p (\<lambda>r. r\<lparr>POOL_ALLOC_PTR := POOL_FREE_LIST_PTR r, POOL_FREE_PTR := POOL_FREE_LIST_PTR r,
       POOL_TEST_PTR := POOL_FREE_LIST_PTR r, POOL_TEST2_PTR := POOL_ALLOC_START_PTR r,
       POOL_DESTROY_PTR := POOL_ALLOC_START_PTR r\<rparr>)"

subsection \<open>Allocation\<close>

text \<open>The size of the block for a request.\<close>

definition alloc_request :: "u32 \<Rightarrow> u32" where
  "alloc_request requested_size =
     (let n = requested_size + LWBLOCK_SIZE
      in ALIGN_LARGER (if n < LWMEM_MIN_MEMORY_STORAGE_SIZE then LWMEM_MIN_MEMORY_STORAGE_SIZE else n))"

text \<open>The walk through the free list to the first block that fits (zero if there is none), with the block
  before it. It starts again at the head of the list when the list was changed in the window.\<close>

partial_function (option) walk_free ::
  "windows \<Rightarrow> ptr \<Rightarrow> (ptr \<Rightarrow> lwblock \<Rightarrow> bool) \<Rightarrow> ptr \<Rightarrow> ptr \<Rightarrow> kernel \<Rightarrow> (ptr \<times> ptr \<times> kernel) option" where
  [code]: "walk_free W p fits b prev k =
     (if b = 0 then Some (0, prev, k)
      else let k1 = window W (upd_lwmem (upd_lwpool p (\<lambda>r. r\<lparr>POOL_ALLOC_PTR := b\<rparr>)) k);
               r = LWPOOLS (lwm k1) p;
               b1 = (if b \<noteq> POOL_ALLOC_PTR r then POOL_FREE_LIST_PTR r else b);
               prev1 = (if b \<noteq> POOL_ALLOC_PTR r then POOL_FREE_LIST_PTR r else prev)
           in if b1 = 0 then Some (0, prev1, k1)
              else if fits b1 (LWBLOCKS (lwm k1) b1) then Some (b1, prev1, k1)
              else walk_free (tl W) p fits (UWORD (LWBLOCKS (lwm k1) b1)) b1 k1)"

definition raise_highwater :: "ptr \<Rightarrow> ptr \<Rightarrow> lwmem \<Rightarrow> lwmem" where
  "raise_highwater p b M =
     (let h = b + BLOCKSIZE (LWBLOCKS M b) - 1
      in upd_lwpool p (\<lambda>r. if h > HIGHWATER r then r\<lparr>HIGHWATER := h\<rparr> else r) M)"

definition set_owner :: "ptr \<Rightarrow> u32 \<Rightarrow> ptr \<Rightarrow> lwmem \<Rightarrow> lwmem" where
  "set_owner p number b = upd_lwblock b (\<lambda>d. (set_mem_type 0 (set_task_number number d))\<lparr>BPOOL := p\<rparr>)"

definition clear_block :: "bool \<Rightarrow> ptr \<Rightarrow> u32 \<Rightarrow> lwmem \<Rightarrow> lwmem" where
  "clear_block zero a n M = (if zero then M\<lparr>LWDATA := zero_bytes (unat n) a (LWDATA M)\<rparr> else M)"

text \<open>What \<^verbatim>\<open>_lwmem_alloc_internal\<close> does with the block it found: it cuts off the rest if this is large enough for a
  block, takes the block off the free list and marks it with its owner.\<close>

definition take_fit :: "ptr \<Rightarrow> u32 \<Rightarrow> u32 \<Rightarrow> bool \<Rightarrow> ptr \<Rightarrow> ptr \<Rightarrow> lwmem \<Rightarrow> lwmem" where
  "take_fit p requested_size number zero b prev M =
     (let d = LWBLOCKS M b;
          next_block_size = BLOCKSIZE d - requested_size;
          cut = next_block_size \<ge> LWMEM_MIN_MEMORY_STORAGE_SIZE;
          n = b + requested_size;
          M1 = (if cut
                then upd_lwblock b (\<lambda>d. d\<lparr>BLOCKSIZE := requested_size\<rparr>)
                       (upd_lwblock n (\<lambda>_. \<lparr>BLOCKSIZE = next_block_size, BPOOL = p, UWORD = UWORD d\<rparr>) M)
                else M);
          taken = (if cut then requested_size else BLOCKSIZE d);
          next = (if cut then n else UWORD d);
          M2 = (if b = POOL_FREE_LIST_PTR (LWPOOLS M1 p) then upd_lwpool p (\<lambda>r. r\<lparr>POOL_FREE_LIST_PTR := next\<rparr>) M1
                else upd_lwblock prev (\<lambda>d. d\<lparr>UWORD := next\<rparr>) M1)
      in clear_block zero (b + LWBLOCK_SIZE) (taken - LWBLOCK_SIZE) (raise_highwater p b (set_owner p number b M2)))"

text \<open>The end of the three allocation functions: reset, and the error if nothing was found.\<close>

definition alloc_exit :: "ptr \<Rightarrow> ptr \<Rightarrow> kernel \<Rightarrow> ptr \<times> kernel" where
  "alloc_exit p result k =
     (let k1 = INT_ENABLE (upd_lwmem (reset_walks p) k)
      in if result = 0 then (0, snd (task_set_error MQX_OUT_OF_MEMORY k1)) else (result, k1))"

definition lwmem_alloc_internal :: "windows \<Rightarrow> u32 \<Rightarrow> addr \<Rightarrow> ptr \<Rightarrow> bool \<Rightarrow> kernel \<Rightarrow> (ptr \<times> kernel) option" where
  "lwmem_alloc_internal W requested_size td p zero k =
     (if \<not> lwpool_valid p (lwm k) then Some (0, snd (task_set_error MQX_LWMEM_POOL_INVALID k))
      else let req = alloc_request requested_size;
               k1 = INT_DISABLE k;
               head = POOL_FREE_LIST_PTR (LWPOOLS (lwm k1) p)
           in case walk_free W p (\<lambda>b d. BLOCKSIZE d \<ge> req) head head k1 of
                None \<Rightarrow> None
              | Some (b, prev, k2) \<Rightarrow>
                  Some (if b = 0 then alloc_exit p 0 k2
                        else alloc_exit p (b + LWBLOCK_SIZE) (upd_lwmem (take_fit p req (td_task_number td k2) zero b prev) k2)))"

text \<open>Allocation at a given address: a free block is left in front of it.\<close>

definition fits_at :: "ptr \<Rightarrow> u32 \<Rightarrow> ptr \<Rightarrow> lwblock \<Rightarrow> bool" where
  "fits_at requested_addr requested_size b d \<longleftrightarrow>
     b + LWMEM_MIN_MEMORY_STORAGE_SIZE \<le> requested_addr - LWBLOCK_SIZE \<and>
     b + BLOCKSIZE d \<ge> requested_addr - LWBLOCK_SIZE + requested_size"

definition take_at :: "ptr \<Rightarrow> u32 \<Rightarrow> ptr \<Rightarrow> u32 \<Rightarrow> bool \<Rightarrow> ptr \<Rightarrow> lwmem \<Rightarrow> lwmem" where
  "take_at p requested_size requested_addr number zero b M =
     (let rb = GET_LWMEMBLOCK_PTR requested_addr;
          d = LWBLOCKS M b;
          free_block_size = rb - b;
          next_block_size = BLOCKSIZE d - requested_size - free_block_size;
          cut = next_block_size \<ge> LWMEM_MIN_MEMORY_STORAGE_SIZE;
          n = rb + requested_size;
          M1 = upd_lwblock b (\<lambda>d. d\<lparr>BLOCKSIZE := free_block_size\<rparr>) M;
          M2 = (if cut
                then upd_lwblock b (\<lambda>d. d\<lparr>UWORD := n\<rparr>)
                       (upd_lwblock n (\<lambda>_. \<lparr>BLOCKSIZE = next_block_size, BPOOL = p, UWORD = UWORD d\<rparr>) M1)
                else M1);
          taken = (if cut then requested_size else requested_size + next_block_size);
          next = (if cut then n else UWORD d);
          M3 = set_owner p number rb (upd_lwblock rb (\<lambda>d. d\<lparr>BLOCKSIZE := taken, UWORD := next\<rparr>) M2)
      in clear_block zero requested_addr (taken - LWBLOCK_SIZE) (raise_highwater p b M3))"

definition lwmem_alloc_at_internal :: "windows \<Rightarrow> u32 \<Rightarrow> ptr \<Rightarrow> addr \<Rightarrow> ptr \<Rightarrow> bool \<Rightarrow> kernel \<Rightarrow> (ptr \<times> kernel) option" where
  "lwmem_alloc_at_internal W requested_size requested_addr td p zero k =
     (if \<not> lwpool_valid p (lwm k) then Some (0, snd (task_set_error MQX_LWMEM_POOL_INVALID k))
      else let req = alloc_request requested_size;
               k1 = INT_DISABLE k
           in case walk_free W p (fits_at requested_addr req) (POOL_FREE_LIST_PTR (LWPOOLS (lwm k1) p)) 0 k1 of
                None \<Rightarrow> None
              | Some (b, prev, k2) \<Rightarrow>
                  Some (if b = 0 then alloc_exit p 0 k2
                        else alloc_exit p requested_addr
                               (upd_lwmem (take_at p req requested_addr (td_task_number td k2) zero b) k2)))"

text \<open>Aligned allocation: a free block is left in front of the aligned one.\<close>

definition align_shift :: "u32 \<Rightarrow> ptr \<Rightarrow> u32" where
  "align_shift req_align b =
     (let shift = ((b + LWBLOCK_SIZE + req_align) AND NOT (req_align - 1)) - (b + LWBLOCK_SIZE)
      in if shift < 2 * LWMEM_MIN_MEMORY_STORAGE_SIZE
         then ((b + LWBLOCK_SIZE + 3 * LWMEM_MIN_MEMORY_STORAGE_SIZE + req_align) AND NOT (req_align - 1)) - (b + LWBLOCK_SIZE)
         else shift)"

definition take_align :: "ptr \<Rightarrow> u32 \<Rightarrow> u32 \<Rightarrow> u32 \<Rightarrow> bool \<Rightarrow> ptr \<Rightarrow> lwmem \<Rightarrow> lwmem" where
  "take_align p requested_size shift number zero prev M =
     (let b = prev + shift;
          d = LWBLOCKS M prev;
          block_size = BLOCKSIZE d - shift;
          M1 = upd_lwblock b (\<lambda>e. e\<lparr>UWORD := UWORD d\<rparr>) (upd_lwblock prev (\<lambda>d. d\<lparr>BLOCKSIZE := shift\<rparr>) M);
          next_block_size = block_size - requested_size;
          cut = next_block_size \<ge> LWMEM_MIN_MEMORY_STORAGE_SIZE;
          n = b + requested_size;
          M2 = (if cut
                then upd_lwblock b (\<lambda>e. e\<lparr>UWORD := n\<rparr>)
                       (upd_lwblock n (\<lambda>_. \<lparr>BLOCKSIZE = next_block_size, BPOOL = p, UWORD = UWORD d\<rparr>) M1)
                else M1);
          taken = (if cut then requested_size else block_size);
          next = (if cut then n else UWORD d);
          M3 = upd_lwblock b (\<lambda>e. e\<lparr>BLOCKSIZE := taken\<rparr>) M2;
          M4 = (if b = POOL_FREE_LIST_PTR (LWPOOLS M3 p) then upd_lwpool p (\<lambda>r. r\<lparr>POOL_FREE_LIST_PTR := next\<rparr>) M3
                else upd_lwblock prev (\<lambda>d. d\<lparr>UWORD := next\<rparr>) M3)
      in clear_block zero (b + LWBLOCK_SIZE) (taken - LWBLOCK_SIZE) (raise_highwater p b (set_owner p number b M4)))"

definition lwmem_alloc_align_internal :: "windows \<Rightarrow> u32 \<Rightarrow> u32 \<Rightarrow> addr \<Rightarrow> ptr \<Rightarrow> bool \<Rightarrow> kernel \<Rightarrow> (ptr \<times> kernel) option" where
  "lwmem_alloc_align_internal W requested_size req_align td p zero k =
     (if req_align \<noteq> 0 \<and> req_align AND (req_align - 1) \<noteq> 0 then Some (0, snd (task_set_error MQX_INVALID_PARAMETER k))
      else if \<not> lwpool_valid p (lwm k) then Some (0, snd (task_set_error MQX_LWMEM_POOL_INVALID k))
      else let size = (if requested_size < LWMEM_MIN_MEMORY_STORAGE_SIZE then LWMEM_MIN_MEMORY_STORAGE_SIZE else requested_size);
               al = (if req_align \<le> PSP_MEMORY_ALIGNMENT then PSP_MEMORY_ALIGNMENT + 1 else req_align);
               req = alloc_request size;
               k1 = INT_DISABLE k
           in case walk_free W p (\<lambda>b d. BLOCKSIZE d \<ge> req + align_shift al b) (POOL_FREE_LIST_PTR (LWPOOLS (lwm k1) p)) 0 k1 of
                None \<Rightarrow> None
              | Some (b, prev, k2) \<Rightarrow>
                  Some (if b = 0 then alloc_exit p 0 k2
                        else alloc_exit p (b + align_shift al b + LWBLOCK_SIZE)
                               (upd_lwmem (take_align p req (align_shift al b) (td_task_number td k2) zero b) k2)))"

text \<open>The interface functions: the pool and the task they allocate for.\<close>

definition lwmem_alloc :: "windows \<Rightarrow> u32 \<Rightarrow> kernel \<Rightarrow> (ptr \<times> kernel) option" where
  "lwmem_alloc W requested_size k = lwmem_alloc_internal W requested_size (ACTIVE_PTR k) (KERNEL_LWMEM_POOL (lwm k)) False k"

definition lwmem_alloc_at :: "windows \<Rightarrow> u32 \<Rightarrow> ptr \<Rightarrow> kernel \<Rightarrow> (ptr \<times> kernel) option" where
  "lwmem_alloc_at W requested_size requested_addr k =
     lwmem_alloc_at_internal W requested_size requested_addr (ACTIVE_PTR k) (KERNEL_LWMEM_POOL (lwm k)) False k"

definition lwmem_alloc_align :: "windows \<Rightarrow> u32 \<Rightarrow> u32 \<Rightarrow> kernel \<Rightarrow> (ptr \<times> kernel) option" where
  "lwmem_alloc_align W requested_size req_align k =
     lwmem_alloc_align_internal W requested_size req_align (ACTIVE_PTR k) (KERNEL_LWMEM_POOL (lwm k)) False k"

definition lwmem_get_system_pool_id :: "kernel \<Rightarrow> ptr" where
  "lwmem_get_system_pool_id k = KERNEL_LWMEM_POOL (lwm k)"

definition lwmem_alloc_from :: "windows \<Rightarrow> ptr \<Rightarrow> u32 \<Rightarrow> kernel \<Rightarrow> (ptr \<times> kernel) option" where
  "lwmem_alloc_from W p requested_size k = lwmem_alloc_internal W requested_size (ACTIVE_PTR k) p False k"

definition lwmem_alloc_align_from :: "windows \<Rightarrow> ptr \<Rightarrow> u32 \<Rightarrow> u32 \<Rightarrow> kernel \<Rightarrow> (ptr \<times> kernel) option" where
  "lwmem_alloc_align_from W p requested_size req_align k =
     lwmem_alloc_align_internal W requested_size req_align (ACTIVE_PTR k) p False k"

definition lwmem_alloc_zero :: "windows \<Rightarrow> u32 \<Rightarrow> kernel \<Rightarrow> (ptr \<times> kernel) option" where
  "lwmem_alloc_zero W sz k = lwmem_alloc_internal W sz (ACTIVE_PTR k) (KERNEL_LWMEM_POOL (lwm k)) True k"

definition lwmem_alloc_zero_from :: "windows \<Rightarrow> ptr \<Rightarrow> u32 \<Rightarrow> kernel \<Rightarrow> (ptr \<times> kernel) option" where
  "lwmem_alloc_zero_from W p sz k = lwmem_alloc_internal W sz (ACTIVE_PTR k) p True k"

definition lwmem_alloc_system_from :: "windows \<Rightarrow> ptr \<Rightarrow> u32 \<Rightarrow> kernel \<Rightarrow> (ptr \<times> kernel) option" where
  "lwmem_alloc_system_from W p sz k = lwmem_alloc_internal W sz (SYSTEM_TD k) p False k"

definition lwmem_alloc_system :: "windows \<Rightarrow> u32 \<Rightarrow> kernel \<Rightarrow> (ptr \<times> kernel) option" where
  "lwmem_alloc_system W sz k = lwmem_alloc_internal W sz (SYSTEM_TD k) (KERNEL_LWMEM_POOL (lwm k)) False k"

definition lwmem_alloc_system_align :: "windows \<Rightarrow> u32 \<Rightarrow> u32 \<Rightarrow> kernel \<Rightarrow> (ptr \<times> kernel) option" where
  "lwmem_alloc_system_align W sz req_align k =
     lwmem_alloc_align_internal W sz req_align (SYSTEM_TD k) (KERNEL_LWMEM_POOL (lwm k)) False k"

definition lwmem_alloc_system_align_from :: "windows \<Rightarrow> ptr \<Rightarrow> u32 \<Rightarrow> u32 \<Rightarrow> kernel \<Rightarrow> (ptr \<times> kernel) option" where
  "lwmem_alloc_system_align_from W p requested_size req_align k =
     lwmem_alloc_align_internal W requested_size req_align (SYSTEM_TD k) p False k"

definition lwmem_alloc_system_zero_from :: "windows \<Rightarrow> ptr \<Rightarrow> u32 \<Rightarrow> kernel \<Rightarrow> (ptr \<times> kernel) option" where
  "lwmem_alloc_system_zero_from W p sz k = lwmem_alloc_internal W sz (SYSTEM_TD k) p True k"

definition lwmem_alloc_system_zero :: "windows \<Rightarrow> u32 \<Rightarrow> kernel \<Rightarrow> (ptr \<times> kernel) option" where
  "lwmem_alloc_system_zero W sz k = lwmem_alloc_internal W sz (SYSTEM_TD k) (KERNEL_LWMEM_POOL (lwm k)) True k"

subsection \<open>Pools\<close>

definition pool_setup :: "ptr \<Rightarrow> ptr \<Rightarrow> u32 \<Rightarrow> lwmem \<Rightarrow> lwmem" where
  "pool_setup p start sz M =
     (let e = ALIGN_SMALLER (start + sz); b = ALIGN_LARGER start
      in upd_lwpool p (\<lambda>r. r\<lparr>POOL_ALLOC_END_PTR := e, POOL_ALLOC_START_PTR := b, HIGHWATER := b, POOL_FREE_LIST_PTR := b,
             POOL_ALLOC_PTR := b, POOL_FREE_PTR := b, POOL_TEST_PTR := b\<rparr>)
           (upd_lwblock b (\<lambda>_. \<lparr>BLOCKSIZE = e - b, BPOOL = p, UWORD = 0\<rparr>) M))"

definition pool_enqueue :: "ptr \<Rightarrow> lwmem \<Rightarrow> lwmem" where
  "pool_enqueue p M = M\<lparr>LWMEM_POOLS := Some ((case LWMEM_POOLS M of None \<Rightarrow> [] | Some ps \<Rightarrow> ps) @ [p])\<rparr>"

definition lwmem_create_pool :: "ptr \<Rightarrow> ptr \<Rightarrow> u32 \<Rightarrow> kernel \<Rightarrow> ptr \<times> kernel" where
  "lwmem_create_pool p start sz k =
     (p, upd_lwmem (upd_lwpool p (\<lambda>r. r\<lparr>LWPOOL_VALID := LWMEM_POOL_VALID\<rparr>))
           (INT_ENABLE (upd_lwmem (pool_enqueue p) (INT_DISABLE (upd_lwmem (pool_setup p start sz) k)))))"

definition lwmem_create_pool_mapped :: "ptr \<Rightarrow> u32 \<Rightarrow> kernel \<Rightarrow> ptr \<times> kernel" where
  "lwmem_create_pool_mapped start sz k =
     (let p = ALIGN_LARGER start;
          k1 = upd_lwmem (upd_lwpool p (\<lambda>_. \<lparr>LWPOOL_VALID = 0, POOL_ALLOC_START_PTR = 0, POOL_ALLOC_END_PTR = 0,
                 POOL_FREE_LIST_PTR = 0, POOL_ALLOC_PTR = 0, POOL_FREE_PTR = 0, POOL_TEST_PTR = 0, POOL_TEST2_PTR = 0,
                 POOL_DESTROY_PTR = 0, HIGHWATER = 0\<rparr>)) k
      in (p, snd (lwmem_create_pool p (p + LWPOOL_SIZE) (sz - LWPOOL_SIZE) k1)))"

text \<open>\<^verbatim>\<open>_lwmem_init_internal\<close>: \<open>kernel_end\<close> is the end of the kernel data, \<open>mem_end\<close> the end of the kernel memory.\<close>

definition lwmem_init_internal :: "ptr \<Rightarrow> ptr \<Rightarrow> kernel \<Rightarrow> u32 \<times> kernel" where
  "lwmem_init_internal kernel_end mem_end k =
     (let k1 = upd_lwmem (\<lambda>M. M\<lparr>KERNEL_LWMEM_POOL := kernel_end\<rparr>) k;
          start = kernel_end + LWPOOL_SIZE
      in (MQX_OK, snd (lwmem_create_pool kernel_end start (mem_end - start) k1)))"

definition lwmem_set_default_pool :: "ptr \<Rightarrow> kernel \<Rightarrow> ptr \<times> kernel" where
  "lwmem_set_default_pool p k = (KERNEL_LWMEM_POOL (lwm k), upd_lwmem (\<lambda>M. M\<lparr>KERNEL_LWMEM_POOL := p\<rparr>) k)"

definition lwmem_get_highwater :: "kernel \<Rightarrow> ptr" where
  "lwmem_get_highwater k = HIGHWATER (LWPOOLS (lwm k) (KERNEL_LWMEM_POOL (lwm k)))"

subsection \<open>Release\<close>

definition zero_lwblock :: "ptr \<Rightarrow> lwmem \<Rightarrow> lwmem" where
  "zero_lwblock b = upd_lwblock b (\<lambda>_. \<lparr>BLOCKSIZE = 0, BPOOL = 0, UWORD = 0\<rparr>)"

text \<open>The place of a block in the free list: \<open>None\<close> is the front, \<open>Some f\<close> the place behind \<open>f\<close>.\<close>

partial_function (option) find_place :: "windows \<Rightarrow> ptr \<Rightarrow> ptr \<Rightarrow> ptr \<Rightarrow> kernel \<Rightarrow> (ptr option \<times> kernel) option" where
  [code]: "find_place W p b f k =
     (let head = POOL_FREE_LIST_PTR (LWPOOLS (lwm k) p); next = UWORD (LWBLOCKS (lwm k) f)
      in if head = 0 \<or> b < head then Some (None, k)
         else if b < next \<or> next = 0 then Some (Some f, k)
         else let k1 = window W (upd_lwmem (upd_lwpool p (\<lambda>r. r\<lparr>POOL_FREE_PTR := next\<rparr>)) k);
                  r = LWPOOLS (lwm k1) p
              in find_place (tl W) p b (if next \<noteq> POOL_FREE_PTR r then POOL_FREE_LIST_PTR r else next) k1)"

definition insert_front :: "ptr \<Rightarrow> ptr \<Rightarrow> lwmem \<Rightarrow> lwmem" where
  "insert_front p b M =
     (let f = POOL_FREE_LIST_PTR (LWPOOLS M p); d = LWBLOCKS M b; e = LWBLOCKS M f;
          M1 = (if b + BLOCKSIZE d = f
                then zero_lwblock f (upd_lwblock b (\<lambda>d. d\<lparr>BLOCKSIZE := BLOCKSIZE d + BLOCKSIZE e, UWORD := UWORD e\<rparr>) M)
                else upd_lwblock b (\<lambda>d. d\<lparr>UWORD := f\<rparr>) M)
      in upd_lwpool p (\<lambda>r. r\<lparr>POOL_FREE_LIST_PTR := b\<rparr>) M1)"

definition insert_behind :: "ptr \<Rightarrow> ptr \<Rightarrow> lwmem \<Rightarrow> lwmem" where
  "insert_behind f b M =
     (let next = UWORD (LWBLOCKS M f); d = LWBLOCKS M b; e = LWBLOCKS M next;
          M1 = (if b + BLOCKSIZE d = next
                then zero_lwblock next (upd_lwblock b (\<lambda>d. d\<lparr>BLOCKSIZE := BLOCKSIZE d + BLOCKSIZE e, UWORD := UWORD e\<rparr>) M)
                else upd_lwblock b (\<lambda>d. d\<lparr>UWORD := next\<rparr>) M);
          d1 = LWBLOCKS M1 b
      in if f + BLOCKSIZE (LWBLOCKS M1 f) = b
         then zero_lwblock b (upd_lwblock f (\<lambda>c. c\<lparr>BLOCKSIZE := BLOCKSIZE c + BLOCKSIZE d1, UWORD := UWORD d1\<rparr>) M1)
         else upd_lwblock f (\<lambda>c. c\<lparr>UWORD := b\<rparr>) M1)"

definition lwmem_free :: "windows \<Rightarrow> ptr \<Rightarrow> kernel \<Rightarrow> (u32 \<times> kernel) option" where
  "lwmem_free W mem_ptr k =
     (if mem_ptr = 0 then Some (MQX_INVALID_POINTER, snd (task_set_error MQX_INVALID_POINTER k))
      else let b = GET_LWMEMBLOCK_PTR mem_ptr; d = LWBLOCKS (lwm k) b; p = BPOOL d
           in if \<not> lwpool_valid p (lwm k) then Some (MQX_LWMEM_POOL_INVALID, snd (task_set_error MQX_LWMEM_POOL_INVALID k))
              else if blk_task_number d \<noteq> td_task_number (ACTIVE_PTR k) k \<and> blk_task_number d \<noteq> SYSTEM_TASK_NUMBER
              then Some (MQX_NOT_RESOURCE_OWNER, snd (task_set_error MQX_NOT_RESOURCE_OWNER k))
              else let k1 = INT_DISABLE k
                   in case find_place W p b (POOL_FREE_LIST_PTR (LWPOOLS (lwm k1) p)) k1 of
                        None \<Rightarrow> None
                      | Some (place, k2) \<Rightarrow>
                          Some (MQX_OK, INT_ENABLE (upd_lwmem (reset_walks p)
                            (upd_lwmem (case place of None \<Rightarrow> insert_front p b | Some f \<Rightarrow> insert_behind f b) k2))))"

subsection \<open>Queries and transfer\<close>

partial_function (option) sum_free :: "windows \<Rightarrow> ptr \<Rightarrow> u32 \<Rightarrow> ptr \<Rightarrow> kernel \<Rightarrow> (u32 \<times> kernel) option" where
  [code]: "sum_free W p total_size b k =
     (if b = 0 then Some (total_size, k)
      else let k1 = window W (upd_lwmem (upd_lwpool p (\<lambda>r. r\<lparr>POOL_ALLOC_PTR := b\<rparr>)) k);
               r = LWPOOLS (lwm k1) p; d = LWBLOCKS (lwm k1) b
           in if b \<noteq> POOL_ALLOC_PTR r then sum_free (tl W) p 0 (POOL_FREE_LIST_PTR r) k1
              else sum_free (tl W) p (total_size + BLOCKSIZE d) (UWORD d) k1)"

definition lwmem_get_free_internal :: "windows \<Rightarrow> ptr \<Rightarrow> kernel \<Rightarrow> (u32 \<times> kernel) option" where
  "lwmem_get_free_internal W p k =
     (if \<not> lwpool_valid p (lwm k) then Some (0, snd (task_set_error MQX_LWMEM_POOL_INVALID k))
      else let k1 = INT_DISABLE k
           in Option.bind (sum_free W p 0 (POOL_FREE_LIST_PTR (LWPOOLS (lwm k1) p)) k1)
                (\<lambda>(total_size, k2). Some (total_size, INT_ENABLE k2)))"

definition lwmem_get_free :: "windows \<Rightarrow> kernel \<Rightarrow> (u32 \<times> kernel) option" where
  "lwmem_get_free W k = lwmem_get_free_internal W (KERNEL_LWMEM_POOL (lwm k)) k"

definition lwmem_get_free_from :: "windows \<Rightarrow> ptr \<Rightarrow> kernel \<Rightarrow> (u32 \<times> kernel) option" where
  "lwmem_get_free_from W p k = lwmem_get_free_internal W p k"

text \<open>\<^verbatim>\<open>_lwmem_get_next_block_internal\<close>: the next block of a task behind a given one, or the first one of the task. A
  block whose word has the number of the task is one of its blocks unless it is on the free list.\<close>

partial_function (option) skip_free :: "lwmem \<Rightarrow> ptr \<Rightarrow> ptr \<Rightarrow> ptr option" where
  [code]: "skip_free M b f = (if f \<noteq> 0 \<and> f < b then skip_free M b (UWORD (LWBLOCKS M f)) else Some f)"

partial_function (option) next_in_pool :: "lwmem \<Rightarrow> ptr \<Rightarrow> u32 \<Rightarrow> ptr \<Rightarrow> ptr \<Rightarrow> ptr option" where
  [code]: "next_in_pool M p number f b =
     (if b < POOL_ALLOC_END_PTR (LWPOOLS M p)
      then if blk_task_number (LWBLOCKS M b) = number
           then case skip_free M b f of
                  None \<Rightarrow> None
                | Some f1 \<Rightarrow> if f1 \<noteq> b then Some b else next_in_pool M p number f1 (b + BLOCKSIZE (LWBLOCKS M b))
           else next_in_pool M p number f (b + BLOCKSIZE (LWBLOCKS M b))
      else Some 0)"

fun next_in_pools :: "lwmem \<Rightarrow> u32 \<Rightarrow> ptr list \<Rightarrow> ptr \<Rightarrow> ptr option" where
  "next_in_pools M number [] b = Some 0"
| "next_in_pools M number (p # ps) b =
     (case next_in_pool M p number (POOL_FREE_LIST_PTR (LWPOOLS M p)) b of
        None \<Rightarrow> None
      | Some c \<Rightarrow> if c \<noteq> 0 then Some (c + LWBLOCK_SIZE)
                  else next_in_pools M number ps (case ps of [] \<Rightarrow> 0 | q # _ \<Rightarrow> POOL_ALLOC_START_PTR (LWPOOLS M q)))"

definition lwmem_get_next_block_internal :: "addr \<Rightarrow> ptr \<Rightarrow> kernel \<Rightarrow> (ptr \<times> kernel) option" where
  "lwmem_get_next_block_internal td in_block_ptr k =
     (let M = lwm k;
          ps = (case LWMEM_POOLS M of None \<Rightarrow> [] | Some ps \<Rightarrow> ps);
          b = GET_LWMEMBLOCK_PTR in_block_ptr
      in case (if in_block_ptr = 0 then ps else dropWhile (\<lambda>q. q \<noteq> BPOOL (LWBLOCKS M b)) ps) of
           [] \<Rightarrow> None
         | q # qs \<Rightarrow>
             Option.bind (next_in_pools M (td_task_number td k) (q # qs)
                  (if in_block_ptr = 0 then POOL_ALLOC_START_PTR (LWPOOLS M q) else b + BLOCKSIZE (LWBLOCKS M b)))
               (\<lambda>a. Some (a, INT_ENABLE (INT_DISABLE k))))"

definition lwmem_get_size :: "ptr \<Rightarrow> kernel \<Rightarrow> u32 \<times> kernel" where
  "lwmem_get_size mem_ptr k =
     (if mem_ptr = 0 then (0, snd (task_set_error MQX_INVALID_POINTER k))
      else let n = BLOCKSIZE (LWBLOCKS (lwm k) (GET_LWMEMBLOCK_PTR mem_ptr))
           in if n \<le> LWBLOCK_SIZE then (0, snd (task_set_error MQX_INVALID_POINTER k)) else (n - LWBLOCK_SIZE, k))"

definition lwmem_get_type :: "ptr \<Rightarrow> kernel \<Rightarrow> u32" where
  "lwmem_get_type mem_ptr k = blk_mem_type (LWBLOCKS (lwm k) (GET_LWMEMBLOCK_PTR mem_ptr))"

definition lwmem_set_type :: "ptr \<Rightarrow> u32 \<Rightarrow> kernel \<Rightarrow> bool \<times> kernel" where
  "lwmem_set_type mem_ptr mem_type k =
     (if mem_ptr \<noteq> 0 then (True, upd_lwmem (upd_lwblock (GET_LWMEMBLOCK_PTR mem_ptr) (set_mem_type mem_type)) k) else (False, k))"

definition lwmem_transfer :: "ptr \<Rightarrow> u32 \<Rightarrow> u32 \<Rightarrow> kernel \<Rightarrow> u32 \<times> kernel" where
  "lwmem_transfer memory_ptr source_id target_id k =
     (if memory_ptr = 0 then (MQX_INVALID_POINTER, snd (task_set_error MQX_INVALID_POINTER k))
      else let b = GET_LWMEMBLOCK_PTR memory_ptr; source = task_get_td source_id k; target = task_get_td target_id k
           in if source = NULL \<or> target = NULL then (MQX_INVALID_TASK_ID, snd (task_set_error MQX_INVALID_TASK_ID k))
              else if blk_task_number (LWBLOCKS (lwm k) b) \<noteq> td_task_number source k
              then (MQX_NOT_RESOURCE_OWNER, snd (task_set_error MQX_NOT_RESOURCE_OWNER k))
              else (MQX_OK, upd_lwmem (upd_lwblock b (set_task_number (td_task_number target k))) k))"

definition lwmem_transfer_internal :: "ptr \<Rightarrow> addr \<Rightarrow> kernel \<Rightarrow> kernel" where
  "lwmem_transfer_internal memory_ptr target k =
     upd_lwmem (upd_lwblock (GET_LWMEMBLOCK_PTR memory_ptr) (set_task_number (td_task_number target k))) k"

definition lwmem_transfer_td_internal :: "ptr \<Rightarrow> addr \<Rightarrow> addr \<Rightarrow> kernel \<Rightarrow> u32 \<times> kernel" where
  "lwmem_transfer_td_internal memory_ptr source target k =
     (MQX_OK, upd_lwmem (upd_lwblock (GET_LWMEMBLOCK_PTR memory_ptr) (set_task_number (td_task_number target k))) k)"

subsection \<open>Test\<close>

text \<open>The two walks over a pool return the windows that are left, the code and the block in error, and the state.\<close>

partial_function (option) test_blocks_of :: "windows \<Rightarrow> ptr \<Rightarrow> ptr \<Rightarrow> kernel \<Rightarrow> (windows \<times> (u32 \<times> ptr) option \<times> kernel) option" where
  [code]: "test_blocks_of W p b k =
     (if b < POOL_ALLOC_END_PTR (LWPOOLS (lwm k) p)
      then let k1 = window W (upd_lwmem (upd_lwpool p (\<lambda>r. r\<lparr>POOL_TEST2_PTR := b\<rparr>)) k);
               b1 = POOL_TEST2_PTR (LWPOOLS (lwm k1) p)
           in if BPOOL (LWBLOCKS (lwm k1) b1) \<noteq> p then Some (tl W, Some (MQX_CORRUPT_STORAGE_POOL, b1), k1)
              else test_blocks_of (tl W) p (b1 + BLOCKSIZE (LWBLOCKS (lwm k1) b1)) k1
      else Some (W, None, k))"

definition bad_free :: "ptr \<Rightarrow> ptr \<Rightarrow> lwmem \<Rightarrow> bool" where
  "bad_free p b M \<longleftrightarrow>
     (let r = LWPOOLS M p; d = LWBLOCKS M b
      in b < POOL_ALLOC_START_PTR r \<or> b > POOL_ALLOC_END_PTR r \<or> BPOOL d \<noteq> p \<or>
         UWORD d \<noteq> 0 \<and> UWORD d \<le> b + BLOCKSIZE d)"

partial_function (option) test_free_of :: "windows \<Rightarrow> ptr \<Rightarrow> ptr \<Rightarrow> kernel \<Rightarrow> (windows \<times> (u32 \<times> ptr) option \<times> kernel) option" where
  [code]: "test_free_of W p b k =
     (if b \<noteq> 0
      then let k1 = window W (upd_lwmem (upd_lwpool p (\<lambda>r. r\<lparr>POOL_TEST_PTR := b\<rparr>)) k);
               b1 = POOL_TEST_PTR (LWPOOLS (lwm k1) p)
           in if bad_free p b1 (lwm k1) then Some (tl W, Some (MQX_CORRUPT_STORAGE_POOL_FREE_LIST, b1), k1)
              else test_free_of (tl W) p (UWORD (LWBLOCKS (lwm k1) b1)) k1
      else Some (W, None, k))"

text \<open>A report is the code and, where the test sets them, the pool and the block in error.\<close>

fun test_lwpools :: "windows \<Rightarrow> ptr list \<Rightarrow> kernel \<Rightarrow> ((u32 \<times> (ptr \<times> ptr) option) \<times> kernel) option" where
  "test_lwpools W [] k = Some ((MQX_OK, Some (0, 0)), INT_ENABLE k)"
| "test_lwpools W (p # ps) k =
     (if \<not> lwpool_valid p (lwm k) then Some ((MQX_LWMEM_POOL_INVALID, Some (p, 0)), INT_ENABLE k)
      else case test_blocks_of W p (POOL_ALLOC_START_PTR (LWPOOLS (lwm k) p)) k of
             None \<Rightarrow> None
           | Some (W1, Some (e, b), k1) \<Rightarrow> Some ((e, Some (p, b)), INT_ENABLE k1)
           | Some (W1, None, k1) \<Rightarrow>
               (case test_free_of W1 p (POOL_FREE_LIST_PTR (LWPOOLS (lwm k1) p)) k1 of
                  None \<Rightarrow> None
                | Some (W2, Some (e, b), k2) \<Rightarrow> Some ((e, Some (p, b)), INT_ENABLE k2)
                | Some (W2, None, k2) \<Rightarrow> test_lwpools W2 ps k2))"

text \<open>
  \<^verbatim>\<open>_lwmem_test\<close> begins with a \<^verbatim>\<open>_queue_test\<close> of the queue of pools. The pools are a list in the model, on which that
  test succeeds (\<^verbatim>\<open>Mqx_Queue\<close> is about the test itself), so it is left out here and the model speaks of
  what follows: the walks over the blocks and over the free list of every pool.
\<close>

definition lwmem_test :: "windows \<Rightarrow> kernel \<Rightarrow> ((u32 \<times> (ptr \<times> ptr) option) \<times> kernel) option" where
  "lwmem_test W k =
     (case LWMEM_POOLS (lwm k) of
        None \<Rightarrow> Some ((MQX_OK, None), k)
      | Some ps \<Rightarrow> test_lwpools W ps (INT_DISABLE k))"

end
