(* ===== verification/Lwmem_Layout.thy ===== *)
theory Lwmem_Layout
  imports Lwmem
begin

unbundle bit_operations_syntax

text \<open>
  The layout of a pool of lightweight memory, and that the elementary changes of the headers keep it: taking a block off
  the free list with or without its rest, carving a block out of a free one, linking a block into the free list and
  joining it with its neighbours.
\<close>

subsection \<open>Well-formed pools\<close>

text \<open>The blocks of a pool with a mark for the free ones tile the pool from the start to the end, and the links
  of the free ones lead from the head of the list through them in the order of their addresses.\<close>

type_synonym blocks_of = "(ptr \<times> bool) list"

fun tiles :: "(ptr \<Rightarrow> lwblock) \<Rightarrow> ptr \<Rightarrow> blocks_of \<Rightarrow> ptr \<Rightarrow> bool" where
  "tiles B a [] e \<longleftrightarrow> a = e"
| "tiles B a (x # xs) e \<longleftrightarrow> fst x = a \<and> 16 \<le> unat (BLOCKSIZE (B a)) \<and> unat a + unat (BLOCKSIZE (B a)) < 2 ^ 32 \<and>
     tiles B (a + BLOCKSIZE (B a)) xs e"

fun links :: "(ptr \<Rightarrow> lwblock) \<Rightarrow> ptr \<Rightarrow> ptr list \<Rightarrow> ptr \<Rightarrow> bool" where
  "links B a [] z \<longleftrightarrow> a = z"
| "links B a (f # fs) z \<longleftrightarrow> a = f \<and> f \<noteq> 0 \<and> links B (UWORD (B f)) fs z"

definition free_of :: "blocks_of \<Rightarrow> ptr list" where
  "free_of xs = map fst (filter snd xs)"

definition apart :: "blocks_of \<Rightarrow> bool" where
  "apart = successively (\<lambda>x y. \<not> (snd x \<and> snd y))"

text \<open>The layout of a pool, and with no two free blocks side by side its well-formedness.\<close>

definition lw_ok :: "ptr \<Rightarrow> blocks_of \<Rightarrow> lwmem \<Rightarrow> bool" where
  "lw_ok p xs M \<longleftrightarrow>
     lwpool_valid p M \<and> POOL_ALLOC_START_PTR (LWPOOLS M p) \<noteq> 0 \<and>
     tiles (LWBLOCKS M) (POOL_ALLOC_START_PTR (LWPOOLS M p)) xs (POOL_ALLOC_END_PTR (LWPOOLS M p)) \<and>
     links (LWBLOCKS M) (POOL_FREE_LIST_PTR (LWPOOLS M p)) (free_of xs) 0 \<and>
     list_all (\<lambda>x. BPOOL (LWBLOCKS M (fst x)) = p) xs"

definition lw_inv :: "ptr \<Rightarrow> blocks_of \<Rightarrow> lwmem \<Rightarrow> bool" where
  "lw_inv p xs M \<longleftrightarrow> lw_ok p xs M \<and> apart xs"

subsection \<open>Lists of blocks\<close>

lemma free_of_simps [simp]:
  "free_of [] = []" "free_of (x # xs) = (if snd x then fst x # free_of xs else free_of xs)"
  "free_of (xs @ ys) = free_of xs @ free_of ys"
  by (auto simp: free_of_def)

lemma free_of_subset: "set (free_of xs) \<subseteq> fst ` set xs"
  by (auto simp: free_of_def)

lemma free_of_all: "\<forall>x \<in> set xs. P (fst x) \<Longrightarrow> f \<in> set (free_of xs) \<Longrightarrow> P f"
  by (auto simp: free_of_def)

lemma free_of_split:
  assumes "free_of xs = b # fs"
  obtains us vs where "xs = us @ (b, True) # vs" and "free_of us = []" and "free_of vs = fs"
  using assms
proof (induction xs arbitrary: thesis)
  case (Cons x xs)
  show ?case
  proof (cases "snd x")
    case True
    then show ?thesis using Cons.prems(1) [of "[]" xs] Cons.prems(2) by (cases x) auto
  next
    case False
    then obtain us vs where "xs = us @ (b, True) # vs" "free_of us = []" "free_of vs = fs" using Cons by auto
    then show ?thesis using Cons.prems(1) [of "x # us" vs] False by auto
  qed
qed simp

lemma tiles_append: "tiles B a (xs @ ys) e \<longleftrightarrow> (\<exists>m. tiles B a xs m \<and> tiles B m ys e)"
  by (induction xs arbitrary: a) auto

lemma tiles_cong: "\<forall>x \<in> set xs. BLOCKSIZE (B' (fst x)) = BLOCKSIZE (B (fst x)) \<Longrightarrow> tiles B' a xs e = tiles B a xs e"
  by (induction xs arbitrary: a) auto

lemma tiles_next:
  assumes "unat a + unat n < 2 ^ 32"
  shows "unat (a + n) = unat (a :: u32) + unat n"
  using assms by (simp add: unat_word_ariths)

lemma tiles_bounds:
  "tiles B a xs e \<Longrightarrow> unat a \<le> unat e \<and> (\<forall>x \<in> set xs. unat a \<le> unat (fst x) \<and> unat (fst x) + unat (BLOCKSIZE (B (fst x))) \<le> unat e)"
proof (induction xs arbitrary: a)
  case (Cons x xs)
  then show ?case using tiles_next [of a "BLOCKSIZE (B a)"] Cons.IH [of "a + BLOCKSIZE (B a)"] by force
qed simp

lemma tiles_block:
  "tiles B a xs e \<Longrightarrow> x \<in> set xs \<Longrightarrow> 16 \<le> unat (BLOCKSIZE (B (fst x))) \<and> unat (fst x) + unat (BLOCKSIZE (B (fst x))) < 2 ^ 32"
  by (induction xs arbitrary: a) auto

lemma tiles_sorted: "tiles B a xs e \<Longrightarrow> sorted_wrt (\<lambda>x y. unat (fst x) + unat (BLOCKSIZE (B (fst x))) \<le> unat (fst y)) xs"
proof (induction xs arbitrary: a)
  case (Cons x xs)
  then have t: "tiles B (a + BLOCKSIZE (B a)) xs e" "fst x = a" "unat (a + BLOCKSIZE (B a)) = unat a + unat (BLOCKSIZE (B a))"
    using tiles_next by auto
  then show ?case using tiles_bounds [OF t(1)] Cons.IH [OF t(1)] by auto
qed simp

lemma tiles_distinct: "tiles B a xs e \<Longrightarrow> distinct (map fst xs)"
proof (induction xs arbitrary: a)
  case (Cons x xs)
  then have t: "tiles B (a + BLOCKSIZE (B a)) xs e" "fst x = a" "16 \<le> unat (BLOCKSIZE (B a))"
    "unat (a + BLOCKSIZE (B a)) = unat a + unat (BLOCKSIZE (B a))"
    using tiles_next by auto
  then have "fst x \<notin> fst ` set xs" using tiles_bounds [OF t(1)] by force
  then show ?case using Cons.IH [OF t(1)] by simp
qed simp

definition hd0 :: "ptr list \<Rightarrow> ptr \<Rightarrow> ptr" where
  "hd0 fs z = (case fs of [] \<Rightarrow> z | f # _ \<Rightarrow> f)"

lemma hd0_simps [simp]: "hd0 [] z = z" "hd0 (f # fs) z = f" "hd0 (fs @ gs) z = hd0 fs (hd0 gs z)"
  by (cases fs; simp add: hd0_def)+

lemma links_hd0: "links B a fs z \<Longrightarrow> a = hd0 fs z"
  by (cases fs) auto

lemma links_append: "links B a (fs @ gs) z \<longleftrightarrow> links B a fs (hd0 gs z) \<and> links B (hd0 gs z) gs z"
  by (induction fs arbitrary: a) (auto dest: links_hd0)

lemma links_cong: "\<forall>f \<in> set fs. UWORD (B' f) = UWORD (B f) \<Longrightarrow> links B' a fs z = links B a fs z"
  by (induction fs arbitrary: a) auto

lemma links_redirect:
  assumes "links B a fs z" and "fs \<noteq> []" and "\<forall>f \<in> set (butlast fs). UWORD (B' f) = UWORD (B f)" and "UWORD (B' (last fs)) = z'"
  shows "links B' a fs z'"
  using assms by (induction fs arbitrary: a) (auto split: if_splits)

lemma links_nonzero: "links B a fs z \<Longrightarrow> 0 \<notin> set fs"
  by (induction fs arbitrary: a) auto

lemma butlast_not_last: "distinct fs \<Longrightarrow> fs \<noteq> [] \<Longrightarrow> last fs \<notin> set (butlast fs)"
  by (induction fs) auto

lemma apart_simps [simp]: "apart []" "apart [x]" "apart (x # y # ys) \<longleftrightarrow> \<not> (snd x \<and> snd y) \<and> apart (y # ys)"
  by (auto simp: apart_def)

lemma apart_append: "apart (xs @ ys) \<longleftrightarrow> apart xs \<and> apart ys \<and> (xs \<noteq> [] \<longrightarrow> ys \<noteq> [] \<longrightarrow> \<not> (snd (last xs) \<and> snd (hd ys)))"
  by (auto simp: apart_def successively_append_iff)

lemma apart_Cons: "apart (x # xs) \<longleftrightarrow> (xs \<noteq> [] \<longrightarrow> \<not> (snd x \<and> snd (hd xs))) \<and> apart xs"
  by (cases xs) auto

subsection \<open>Updates\<close>

lemma lw_upd_simps [simp]:
  "LWBLOCKS (upd_lwblock b f M) = (LWBLOCKS M)(b := f (LWBLOCKS M b))" "LWPOOLS (upd_lwblock b f M) = LWPOOLS M"
  "LWPOOLS (upd_lwpool p g M) = (LWPOOLS M)(p := g (LWPOOLS M p))" "LWBLOCKS (upd_lwpool p g M) = LWBLOCKS M"
  "LWBLOCKS (clear_block z a n M) = LWBLOCKS M" "LWPOOLS (clear_block z a n M) = LWPOOLS M"
  "LWBLOCKS (raise_highwater p b M) = LWBLOCKS M" "LWBLOCKS (reset_walks p M) = LWBLOCKS M"
  "lwm (upd_lwmem h k) = h (lwm k)"
  by (simp_all add: upd_lwblock_def upd_lwpool_def clear_block_def raise_highwater_def Let_def reset_walks_def upd_lwmem_def)

lemma lw_highwater_simps [simp]:
  "POOL_ALLOC_START_PTR (LWPOOLS (raise_highwater p b M) q) = POOL_ALLOC_START_PTR (LWPOOLS M q)"
  "POOL_ALLOC_END_PTR (LWPOOLS (raise_highwater p b M) q) = POOL_ALLOC_END_PTR (LWPOOLS M q)"
  "POOL_FREE_LIST_PTR (LWPOOLS (raise_highwater p b M) q) = POOL_FREE_LIST_PTR (LWPOOLS M q)"
  "LWPOOL_VALID (LWPOOLS (raise_highwater p b M) q) = LWPOOL_VALID (LWPOOLS M q)"
  by (simp_all add: raise_highwater_def Let_def)

lemma lw_reset_simps [simp]:
  "POOL_ALLOC_START_PTR (LWPOOLS (reset_walks p M) q) = POOL_ALLOC_START_PTR (LWPOOLS M q)"
  "POOL_ALLOC_END_PTR (LWPOOLS (reset_walks p M) q) = POOL_ALLOC_END_PTR (LWPOOLS M q)"
  "POOL_FREE_LIST_PTR (LWPOOLS (reset_walks p M) q) = POOL_FREE_LIST_PTR (LWPOOLS M q)"
  "LWPOOL_VALID (LWPOOLS (reset_walks p M) q) = LWPOOL_VALID (LWPOOLS M q)"
  by (simp_all add: reset_walks_def)

lemma lw_int_simps [simp]: "lwm (INT_DISABLE k) = lwm k" "lwm (INT_ENABLE k) = lwm k"
  by (simp_all add: INT_DISABLE_def INT_ENABLE_def upd_td_def)

lemma set_owner_blocks [simp]:
  "BLOCKSIZE (LWBLOCKS (set_owner p n b M) x) = BLOCKSIZE (LWBLOCKS M x)"
  "BPOOL (LWBLOCKS (set_owner p n b M) x) = (if x = b then p else BPOOL (LWBLOCKS M x))"
  "x \<noteq> b \<Longrightarrow> LWBLOCKS (set_owner p n b M) x = LWBLOCKS M x"
  "LWPOOLS (set_owner p n b M) = LWPOOLS M"
  by (auto simp: set_owner_def set_mem_type_def set_task_number_def)

lemma task_number_owner: "blk_task_number (LWBLOCKS (set_owner p n b M) b) = n AND 0xFFFF"
  by (simp add: set_owner_def set_mem_type_def set_task_number_def blk_task_number_def bit_eq_iff bit_simps) auto

definition pool_frame :: "ptr \<Rightarrow> lwmem \<Rightarrow> lwmem \<Rightarrow> bool" where
  "pool_frame p M M' \<longleftrightarrow>
     LWPOOL_VALID (LWPOOLS M' p) = LWPOOL_VALID (LWPOOLS M p) \<and>
     POOL_ALLOC_START_PTR (LWPOOLS M' p) = POOL_ALLOC_START_PTR (LWPOOLS M p) \<and>
     POOL_ALLOC_END_PTR (LWPOOLS M' p) = POOL_ALLOC_END_PTR (LWPOOLS M p)"

lemma lw_ok_cong:
  assumes "lw_ok p xs M" and "pool_frame p M M'" and "POOL_FREE_LIST_PTR (LWPOOLS M' p) = POOL_FREE_LIST_PTR (LWPOOLS M p)"
    and same: "\<forall>x \<in> set xs. LWBLOCKS M' (fst x) = LWBLOCKS M (fst x)"
  shows "lw_ok p xs M'"
proof -
  have "\<forall>f \<in> set (free_of xs). UWORD (LWBLOCKS M' f) = UWORD (LWBLOCKS M f)" using free_of_all [OF same] by simp
  then show ?thesis
    using assms tiles_cong [of xs "LWBLOCKS M'" "LWBLOCKS M"] links_cong [of "free_of xs" "LWBLOCKS M'" "LWBLOCKS M"]
    by (auto simp: lw_ok_def lwpool_valid_def pool_frame_def list_all_iff)
qed

text \<open>Replacing a stretch of blocks by another one of the same extent.\<close>

lemma lw_ok_splice:
  assumes ok: "lw_ok p (us @ ys @ vs) M" and fr: "pool_frame p M M'"
    and us: "\<forall>x \<in> set us. BLOCKSIZE (LWBLOCKS M' (fst x)) = BLOCKSIZE (LWBLOCKS M (fst x)) \<and> BPOOL (LWBLOCKS M' (fst x)) = BPOOL (LWBLOCKS M (fst x))"
    and vs: "\<forall>x \<in> set vs. LWBLOCKS M' (fst x) = LWBLOCKS M (fst x)"
    and seg: "\<And>a c. tiles (LWBLOCKS M) a ys c \<Longrightarrow> tiles (LWBLOCKS M') a zs c"
    and bp: "list_all (\<lambda>x. BPOOL (LWBLOCKS M' (fst x)) = p) zs"
    and lus: "links (LWBLOCKS M') (POOL_FREE_LIST_PTR (LWPOOLS M' p)) (free_of us) (hd0 (free_of zs) (hd0 (free_of vs) 0))"
    and lzs: "links (LWBLOCKS M') (hd0 (free_of zs) (hd0 (free_of vs) 0)) (free_of zs) (hd0 (free_of vs) 0)"
  shows "lw_ok p (us @ zs @ vs) M'"
proof -
  obtain a c where t: "tiles (LWBLOCKS M) (POOL_ALLOC_START_PTR (LWPOOLS M p)) us a" "tiles (LWBLOCKS M) a ys c"
      "tiles (LWBLOCKS M) c vs (POOL_ALLOC_END_PTR (LWPOOLS M p))"
    using ok by (auto simp: lw_ok_def tiles_append)
  have "tiles (LWBLOCKS M') (POOL_ALLOC_START_PTR (LWPOOLS M p)) (us @ zs @ vs) (POOL_ALLOC_END_PTR (LWPOOLS M p))"
    using t seg [OF t(2)] us vs tiles_cong [of us "LWBLOCKS M'" "LWBLOCKS M"] tiles_cong [of vs "LWBLOCKS M'" "LWBLOCKS M"]
    by (auto simp: tiles_append)
  moreover have "links (LWBLOCKS M') (hd0 (free_of vs) 0) (free_of vs) 0"
  proof -
    have "links (LWBLOCKS M) (hd0 (free_of vs) 0) (free_of vs) 0" using ok by (auto simp: lw_ok_def links_append)
    moreover have "\<forall>f \<in> set (free_of vs). UWORD (LWBLOCKS M' f) = UWORD (LWBLOCKS M f)" using free_of_all [OF vs] by simp
    ultimately show ?thesis using links_cong by blast
  qed
  moreover have "list_all (\<lambda>x. BPOOL (LWBLOCKS M' (fst x)) = p) (us @ zs @ vs)"
    using ok bp us vs by (simp add: lw_ok_def list_all_iff ball_Un)
  ultimately show ?thesis using ok fr lus lzs
    by (auto simp: lw_ok_def lwpool_valid_def pool_frame_def links_append)
qed

text \<open>What the layout says of one block: its size, and that no other header lies in it.\<close>

lemma tiles_interior:
  assumes "tiles B a (us @ x # vs) e" and "unat (fst x) \<le> unat c" and "unat c < unat (fst x) + unat (BLOCKSIZE (B (fst x)))"
  shows "c \<notin> fst ` set us" and "c \<notin> fst ` set vs"
proof -
  have s: "sorted_wrt (\<lambda>x y. unat (fst x) + unat (BLOCKSIZE (B (fst x))) \<le> unat (fst y)) (us @ x # vs)"
    using tiles_sorted [OF assms(1)] .
  show "c \<notin> fst ` set us"
  proof
    assume "c \<in> fst ` set us"
    then obtain y where y: "y \<in> set us" "c = fst y" by auto
    then have "unat (fst y) + unat (BLOCKSIZE (B (fst y))) \<le> unat (fst x)" using s by (auto simp: sorted_wrt_append)
    then show False using assms(2) y tiles_block [OF assms(1), of y] by auto
  qed
  show "c \<notin> fst ` set vs" using s assms(3) by (force simp: sorted_wrt_append)
qed

lemma lw_ok_block:
  assumes "lw_ok p (us @ (b, f) # vs) M"
  shows "b \<noteq> 0" and "16 \<le> unat (BLOCKSIZE (LWBLOCKS M b))" and "unat b + unat (BLOCKSIZE (LWBLOCKS M b)) < 2 ^ 32"
    and "BPOOL (LWBLOCKS M b) = p"
proof -
  have t: "tiles (LWBLOCKS M) (POOL_ALLOC_START_PTR (LWPOOLS M p)) (us @ (b, f) # vs) (POOL_ALLOC_END_PTR (LWPOOLS M p))"
    and s: "POOL_ALLOC_START_PTR (LWPOOLS M p) \<noteq> 0"
    using assms by (auto simp: lw_ok_def)
  show "16 \<le> unat (BLOCKSIZE (LWBLOCKS M b))" "unat b + unat (BLOCKSIZE (LWBLOCKS M b)) < 2 ^ 32"
    using tiles_block [OF t, of "(b, f)"] by auto
  have "unat (POOL_ALLOC_START_PTR (LWPOOLS M p)) \<le> unat b" using tiles_bounds [OF t] by auto
  then show "b \<noteq> 0" using s by (metis le_zero_eq unat_0 unat_eq_0)
  show "BPOOL (LWBLOCKS M b) = p" using assms by (auto simp: lw_ok_def)
qed

lemma lw_ok_interior:
  assumes "lw_ok p (us @ (b, f) # vs) M" and "unat b \<le> unat c" and "unat c < unat b + unat (BLOCKSIZE (LWBLOCKS M b))"
  shows "c \<notin> fst ` set us" and "c \<notin> fst ` set vs"
proof -
  have t: "tiles (LWBLOCKS M) (POOL_ALLOC_START_PTR (LWPOOLS M p)) (us @ (b, f) # vs) (POOL_ALLOC_END_PTR (LWPOOLS M p))"
    using assms by (simp add: lw_ok_def)
  show "c \<notin> fst ` set us" "c \<notin> fst ` set vs" using tiles_interior [OF t, of c] assms(2,3) by simp_all
qed

lemma lw_ok_links:
  assumes "lw_ok p (us @ (b, True) # vs) M"
  shows "links (LWBLOCKS M) (POOL_FREE_LIST_PTR (LWPOOLS M p)) (free_of us) b" and "UWORD (LWBLOCKS M b) = hd0 (free_of vs) 0"
  using assms by (auto simp: lw_ok_def links_append dest: links_hd0)

lemma lw_ok_free_distinct: "lw_ok p xs M \<Longrightarrow> distinct (free_of xs)"
  by (auto simp: lw_ok_def free_of_def distinct_map dest!: tiles_distinct intro: inj_on_subset)

lemma head_iff:
  assumes "lw_ok p (us @ (b, True) # vs) M"
  shows "b = POOL_FREE_LIST_PTR (LWPOOLS M p) \<longleftrightarrow> free_of us = []"
proof -
  have "POOL_FREE_LIST_PTR (LWPOOLS M p) = hd0 (free_of us) b" using lw_ok_links(1) [OF assms] links_hd0 by blast
  then show ?thesis using lw_ok_free_distinct [OF assms] by (cases "free_of us") auto
qed

text \<open>The link that leads to a place in the free list, set to another target.\<close>

lemma links_enter:
  assumes ok: "lw_ok p (us @ (b, True) # vs) M" and prev: "free_of us \<noteq> [] \<Longrightarrow> UWORD (B' (last (free_of us))) = z"
    and head: "free_of us = [] \<Longrightarrow> h = z" and tail: "free_of us \<noteq> [] \<Longrightarrow> h = POOL_FREE_LIST_PTR (LWPOOLS M p)"
    and same: "\<forall>f \<in> set (butlast (free_of us)). UWORD (B' f) = UWORD (LWBLOCKS M f)"
  shows "links B' h (free_of us) z"
proof (cases "free_of us = []")
  case False
  then show ?thesis using links_redirect [OF lw_ok_links(1) [OF ok], of B' z] prev same tail by simp
qed (use head in simp)

subsection \<open>The steps that change the blocks\<close>

text \<open>What a step leaves as it is of the other blocks: sizes, pools, and the owners of the ones in use.\<close>

definition others_same :: "blocks_of \<Rightarrow> lwmem \<Rightarrow> lwmem \<Rightarrow> bool" where
  "others_same xs M M' \<longleftrightarrow>
     (\<forall>x \<in> set xs. BLOCKSIZE (LWBLOCKS M' (fst x)) = BLOCKSIZE (LWBLOCKS M (fst x)) \<and> BPOOL (LWBLOCKS M' (fst x)) = BPOOL (LWBLOCKS M (fst x)) \<and>
        (\<not> snd x \<longrightarrow> UWORD (LWBLOCKS M' (fst x)) = UWORD (LWBLOCKS M (fst x))))"

definition cut_off :: "u32 \<Rightarrow> u32 \<Rightarrow> ptr \<Rightarrow> blocks_of" where
  "cut_off sz req b = (if sz - req \<ge> LWMEM_MIN_MEMORY_STORAGE_SIZE then [(b, False), (b + req, True)] else [(b, False)])"

lemma used_not_free:
  assumes "lw_ok p xs M" and "x \<in> set xs" and "\<not> snd x"
  shows "fst x \<notin> set (free_of xs)"
proof
  assume "fst x \<in> set (free_of xs)"
  then obtain y where y: "y \<in> set xs" "snd y" "fst y = fst x" by (auto simp: free_of_def)
  have "distinct (map fst xs)" using assms(1) tiles_distinct by (auto simp: lw_ok_def)
  then have "x = y" using y(1,3) assms(2) by (auto simp: distinct_map dest: inj_onD)
  then show False using y(2) assms(3) by simp
qed

text \<open>The headers after \<open>take_fit\<close>.\<close>

lemma take_fit_owner:
  "BPOOL (LWBLOCKS (take_fit p req number zero b prev M) b) = p"
  "blk_task_number (LWBLOCKS (take_fit p req number zero b prev M) b) = number AND 0xFFFF"
  by (simp_all add: take_fit_def Let_def task_number_owner)

lemma take_fit_headers:
  assumes "req \<noteq> 0" and "POOL_FREE_LIST_PTR (LWPOOLS M p) \<noteq> b \<Longrightarrow> b \<noteq> prev \<and> b + req \<noteq> prev"
  shows "16 \<le> BLOCKSIZE (LWBLOCKS M b) - req \<Longrightarrow> LWBLOCKS (take_fit p req number zero b prev M) (b + req) =
      \<lparr>BLOCKSIZE = BLOCKSIZE (LWBLOCKS M b) - req, BPOOL = p, UWORD = UWORD (LWBLOCKS M b)\<rparr>" (is "_ \<Longrightarrow> ?rest")
    and "BLOCKSIZE (LWBLOCKS (take_fit p req number zero b prev M) b) =
      (if 16 \<le> BLOCKSIZE (LWBLOCKS M b) - req then req else BLOCKSIZE (LWBLOCKS M b))" (is ?size)
proof -
  show ?rest if "16 \<le> BLOCKSIZE (LWBLOCKS M b) - req"
    using assms that by (cases "POOL_FREE_LIST_PTR (LWPOOLS M p) = b") (simp_all add: take_fit_def Let_def)
  show ?size
    using assms by (cases "16 \<le> BLOCKSIZE (LWBLOCKS M b) - req"; cases "POOL_FREE_LIST_PTR (LWPOOLS M p) = b") (simp_all add: take_fit_def Let_def)
qed

lemma take_fit_others:
  assumes "c \<noteq> b" and "16 \<le> BLOCKSIZE (LWBLOCKS M b) - req \<Longrightarrow> c \<noteq> b + req"
  shows "LWBLOCKS (take_fit p req number zero b prev M) c =
     (if POOL_FREE_LIST_PTR (LWPOOLS M p) = b \<or> c \<noteq> prev then LWBLOCKS M c
      else (LWBLOCKS M c)\<lparr>UWORD := if 16 \<le> BLOCKSIZE (LWBLOCKS M b) - req then b + req else UWORD (LWBLOCKS M b)\<rparr>)"
  using assms by (cases "POOL_FREE_LIST_PTR (LWPOOLS M p) = b"; cases "16 \<le> BLOCKSIZE (LWBLOCKS M b) - req") (simp_all add: take_fit_def Let_def)

lemma take_fit_pool:
  "pool_frame p M (take_fit p req number zero b prev M)"
  "POOL_FREE_LIST_PTR (LWPOOLS (take_fit p req number zero b prev M) p) =
     (if POOL_FREE_LIST_PTR (LWPOOLS M p) = b
      then if 16 \<le> BLOCKSIZE (LWBLOCKS M b) - req then b + req else UWORD (LWBLOCKS M b)
      else POOL_FREE_LIST_PTR (LWPOOLS M p))"
  by (simp_all add: take_fit_def Let_def pool_frame_def)

text \<open>The headers of the other blocks are neither that of the block nor of its rest.\<close>

lemma others_apart:
  assumes ok: "lw_ok p (us @ (b, f) # vs) M" and n: "unat n < unat (BLOCKSIZE (LWBLOCKS M b))" and c: "c \<in> fst ` set us \<or> c \<in> fst ` set vs"
  shows "c \<noteq> b + n"
proof -
  have "unat (b + n) = unat b + unat n" using lw_ok_block(3) [OF ok] n by (intro tiles_next) simp
  then have "b + n \<notin> fst ` set us" "b + n \<notin> fst ` set vs" using lw_ok_interior [OF ok, of "b + n"] n by simp_all
  then show ?thesis using c by blast
qed

lemma free_of_in: "f \<in> set (free_of xs) \<Longrightarrow> f \<in> fst ` set xs"
  using free_of_subset by blast

lemma sides_disjoint: "lw_ok p (us @ x # vs) M \<Longrightarrow> c \<in> fst ` set us \<Longrightarrow> c \<notin> fst ` set vs"
  using tiles_distinct [of "LWBLOCKS M" "POOL_ALLOC_START_PTR (LWPOOLS M p)" "us @ x # vs" "POOL_ALLOC_END_PTR (LWPOOLS M p)"]
  by (auto simp: lw_ok_def)

lemma cut_space:
  assumes "req \<le> sz"
  shows "16 \<le> sz - req \<longleftrightarrow> unat req + 16 \<le> unat (sz :: u32)" and "unat (sz - req) = unat sz - unat req"
  using unat_sub [OF assms] assms by (auto simp: word_le_nat_alt)

lemma lower_blocks:
  assumes ok: "lw_ok p (us @ (b, f) # vs) M" and c: "c \<in> fst ` set us"
  shows "unat c + unat (BLOCKSIZE (LWBLOCKS M c)) \<le> unat b" and "unat c < unat b"
proof -
  have t: "tiles (LWBLOCKS M) (POOL_ALLOC_START_PTR (LWPOOLS M p)) (us @ (b, f) # vs) (POOL_ALLOC_END_PTR (LWPOOLS M p))"
    using ok by (simp add: lw_ok_def)
  obtain x where x: "x \<in> set us" "c = fst x" using c by auto
  show "unat c + unat (BLOCKSIZE (LWBLOCKS M c)) \<le> unat b" using tiles_sorted [OF t] x by (simp add: sorted_wrt_append)
  moreover have "16 \<le> unat (BLOCKSIZE (LWBLOCKS M c))" using tiles_block [OF t, of x] x by simp
  ultimately show "unat c < unat b" by simp
qed

lemma take_fit_ok:
  fixes M number zero
  assumes ok: "lw_ok p (us @ (b, True) # vs) M" and req: "16 \<le> unat req" "req \<le> BLOCKSIZE (LWBLOCKS M b)"
    and prev: "free_of us \<noteq> [] \<Longrightarrow> prev = last (free_of us)"
  defines "M' \<equiv> take_fit p req number zero b prev M"
  shows "lw_ok p (us @ cut_off (BLOCKSIZE (LWBLOCKS M b)) req b @ vs) M'" and "others_same (us @ vs) M M'"
    and "req \<le> BLOCKSIZE (LWBLOCKS M' b)"
proof -
  let ?B = "LWBLOCKS M" and ?sz = "BLOCKSIZE (LWBLOCKS M b)" and ?zs = "cut_off (BLOCKSIZE (LWBLOCKS M b)) req b"
  let ?nxt = "if 16 \<le> ?sz - req then b + req else UWORD (?B b)" and ?hd = "POOL_FREE_LIST_PTR (LWPOOLS M p)"
  note blk = lw_ok_block [OF ok] and cut = cut_space [OF req(2)] and lnk = lw_ok_links [OF ok]
  have hd: "?hd = b \<longleftrightarrow> free_of us = []" using head_iff [OF ok] by metis
  have le: "unat req \<le> unat ?sz" using req(2) by (simp add: word_le_nat_alt)
  have n: "unat (b + req) = unat b + unat req" using blk(3) le by (intro tiles_next) simp
  have bn: "req \<noteq> 0" "b + req \<noteq> 0" using n req(1) by auto
  have cb: "c \<noteq> b" if "c \<in> fst ` set us \<or> c \<in> fst ` set vs" for c using others_apart [OF ok _ that, of 0] blk(2) by simp
  have cn: "c \<noteq> b + req" if "c \<in> fst ` set us \<or> c \<in> fst ` set vs" "16 \<le> ?sz - req" for c
    using others_apart [OF ok _ that(1), of req] that(2) cut(1) by simp
  have pus: "prev \<in> fst ` set us" if "free_of us \<noteq> []" using prev [OF that] free_of_in [of prev us] that by simp
  have pn: "b \<noteq> prev \<and> b + req \<noteq> prev" if "?hd \<noteq> b" using lower_blocks(2) [OF ok pus] that hd n by auto
  note hdr = take_fit_headers [of req M p b prev number zero, OF bn(1) pn, folded M'_def]
  have oth: "LWBLOCKS M' c = (if free_of us = [] \<or> c \<noteq> prev then ?B c else (?B c)\<lparr>UWORD := ?nxt\<rparr>)"
    if "c \<in> fst ` set us \<or> c \<in> fst ` set vs" for c
    using take_fit_others [OF cb [OF that] cn [OF that], where p = p and prev = prev and number = number and zero = zero] hd
    unfolding M'_def by simp
  have vs: "LWBLOCKS M' (fst x) = ?B (fst x)" if "x \<in> set vs" for x
    using oth [of "fst x"] pus sides_disjoint [OF ok, of prev] that by auto
  show "req \<le> BLOCKSIZE (LWBLOCKS M' b)" using hdr(2) req(2) by simp
  have used: "fst x \<noteq> last (free_of us)" if "x \<in> set us" "\<not> snd x" "free_of us \<noteq> []" for x
    using used_not_free [OF ok, of x] that by auto
  show os: "others_same (us @ vs) M M'" unfolding others_same_def
  proof
    fix x assume "x \<in> set (us @ vs)"
    then show "BLOCKSIZE (LWBLOCKS M' (fst x)) = BLOCKSIZE (?B (fst x)) \<and> BPOOL (LWBLOCKS M' (fst x)) = BPOOL (?B (fst x)) \<and>
      (\<not> snd x \<longrightarrow> UWORD (LWBLOCKS M' (fst x)) = UWORD (?B (fst x)))"
      using oth [of "fst x"] vs [of x] used [of x] prev by auto
  qed
  show "lw_ok p (us @ ?zs @ vs) M'"
  proof (rule lw_ok_splice [of p us "[(b, True)]" vs M])
    show "pool_frame p M M'" unfolding M'_def by (rule take_fit_pool)
    show "tiles (LWBLOCKS M') a ?zs c" if "tiles ?B a [(b, True)] c" for a c
      using that hdr req(1) blk n le cut by (auto simp: cut_off_def)
    show "list_all (\<lambda>x. BPOOL (LWBLOCKS M' (fst x)) = p) ?zs" using hdr take_fit_owner(1) by (simp add: cut_off_def M'_def)
    show "links (LWBLOCKS M') (hd0 (free_of ?zs) (hd0 (free_of vs) 0)) (free_of ?zs) (hd0 (free_of vs) 0)"
      using hdr(1) lnk(2) bn(2) by (simp add: cut_off_def)
    have z: "hd0 (free_of ?zs) (hd0 (free_of vs) 0) = ?nxt" using lnk(2) by (simp add: cut_off_def)
    show "links (LWBLOCKS M') (POOL_FREE_LIST_PTR (LWPOOLS M' p)) (free_of us) (hd0 (free_of ?zs) (hd0 (free_of vs) 0))"
      unfolding z
    proof (rule links_enter [OF ok])
      show "free_of us \<noteq> [] \<Longrightarrow> UWORD (LWBLOCKS M' (last (free_of us))) = ?nxt" using oth [of prev] pus prev by simp
      show "free_of us = [] \<Longrightarrow> POOL_FREE_LIST_PTR (LWPOOLS M' p) = ?nxt" using hd take_fit_pool(2) by (simp add: M'_def)
      show "free_of us \<noteq> [] \<Longrightarrow> POOL_FREE_LIST_PTR (LWPOOLS M' p) = ?hd" using hd take_fit_pool(2) by (simp add: M'_def)
      have "distinct (free_of us)" using lw_ok_free_distinct [OF ok] by simp
      then show "\<forall>f \<in> set (butlast (free_of us)). UWORD (LWBLOCKS M' f) = UWORD (?B f)"
        using oth prev butlast_not_last [of "free_of us"] free_of_in [of _ us] in_set_butlastD [of _ "free_of us"] by (cases "free_of us = []") auto
    qed
  qed (use ok os vs in \<open>auto simp: others_same_def\<close>)
qed

text \<open>A block taken from the inside of a free one, which stays on the list with the space in front: the common
  effect of the allocation at an address and of the aligned allocation.\<close>

lemma carve_ok:
  fixes M b
  defines "B \<equiv> LWBLOCKS M" and "sz \<equiv> BLOCKSIZE (LWBLOCKS M b)"
  assumes ok: "lw_ok p (us @ (b, True) # vs) M" and sizes: "16 \<le> unat fsz" "16 \<le> unat req" "unat fsz + unat req \<le> unat sz"
    and fr: "pool_frame p M M'" "POOL_FREE_LIST_PTR (LWPOOLS M' p) = POOL_FREE_LIST_PTR (LWPOOLS M p)"
    and Bb: "BLOCKSIZE (LWBLOCKS M' b) = fsz" "BPOOL (LWBLOCKS M' b) = p"
      "UWORD (LWBLOCKS M' b) = (if 16 \<le> sz - fsz - req then b + fsz + req else UWORD (B b))"
    and Br: "BLOCKSIZE (LWBLOCKS M' (b + fsz)) = (if 16 \<le> sz - fsz - req then req else sz - fsz)" "BPOOL (LWBLOCKS M' (b + fsz)) = p"
    and Bn: "16 \<le> sz - fsz - req \<Longrightarrow> LWBLOCKS M' (b + fsz + req) = \<lparr>BLOCKSIZE = sz - fsz - req, BPOOL = p, UWORD = UWORD (B b)\<rparr>"
    and oth: "\<And>c. c \<in> fst ` set us \<or> c \<in> fst ` set vs \<Longrightarrow> LWBLOCKS M' c = B c"
  shows "lw_ok p ((us @ [(b, True)]) @ cut_off (sz - fsz) req (b + fsz) @ vs) M'" and "others_same (us @ vs) M M'"
proof -
  note blk = lw_ok_block [OF ok, folded sz_def B_def] and lnk = lw_ok_links [OF ok, folded B_def]
  let ?zs = "(b, True) # cut_off (sz - fsz) req (b + fsz)"
  have f: "fsz \<le> sz" "unat (sz - fsz) = unat sz - unat fsz" using sizes(3) unat_sub [of fsz sz] by (auto simp: word_le_nat_alt)
  have r: "req \<le> sz - fsz" using f sizes(3) by (simp add: word_le_nat_alt)
  note cut = cut_space [OF r]
  have n: "unat (b + fsz) = unat b + unat fsz" "unat (b + fsz + req) = unat b + unat fsz + unat req"
    using blk(3) sizes(3) tiles_next [of b fsz] tiles_next [of "b + fsz" req] by auto
  have "lw_ok p (us @ ?zs @ vs) M'"
  proof (rule lw_ok_splice [of p us "[(b, True)]" vs M])
    show "tiles (LWBLOCKS M') a ?zs c" if "tiles (LWBLOCKS M) a [(b, True)] c" for a c
      using that Bb Br Bn sizes blk n f cut by (auto simp: cut_off_def sz_def)
    show "list_all (\<lambda>x. BPOOL (LWBLOCKS M' (fst x)) = p) ?zs" using Bb Br Bn by (simp add: cut_off_def)
    have "b + fsz + req \<noteq> 0" using n sizes by auto
    then show "links (LWBLOCKS M') (hd0 (free_of ?zs) (hd0 (free_of vs) 0)) (free_of ?zs) (hd0 (free_of vs) 0)"
      using Bb(3) Bn lnk(2) blk(1) by (simp add: cut_off_def)
    have "\<forall>f \<in> set (free_of us). UWORD (LWBLOCKS M' f) = UWORD (B f)" using oth free_of_in [of _ us] by simp
    then show "links (LWBLOCKS M') (POOL_FREE_LIST_PTR (LWPOOLS M' p)) (free_of us) (hd0 (free_of ?zs) (hd0 (free_of vs) 0))"
      using lnk(1) fr(2) links_cong [of "free_of us" "LWBLOCKS M'" B] by simp
  qed (use ok fr oth in \<open>auto simp: B_def\<close>)
  then show "lw_ok p ((us @ [(b, True)]) @ cut_off (sz - fsz) req (b + fsz) @ vs) M'" by simp
  show "others_same (us @ vs) M M'" using oth by (simp add: others_same_def B_def ball_Un)
qed

lemma carve_apart:
  assumes ok: "lw_ok p (us @ (b, True) # vs) M" and sizes: "16 \<le> unat fsz" "16 \<le> unat req" "unat fsz + unat req \<le> unat (BLOCKSIZE (LWBLOCKS M b))"
    and c: "c \<in> fst ` set us \<or> c \<in> fst ` set vs"
  shows "c \<noteq> b" and "c \<noteq> b + fsz" and "16 \<le> BLOCKSIZE (LWBLOCKS M b) - fsz - req \<Longrightarrow> c \<noteq> b + fsz + req"
proof -
  let ?sz = "BLOCKSIZE (LWBLOCKS M b)"
  show "c \<noteq> b" "c \<noteq> b + fsz" using others_apart [OF ok _ c, of fsz] others_apart [OF ok _ c, of 0] sizes lw_ok_block(2) [OF ok] by simp_all
  have f: "unat (fsz + req) = unat fsz + unat req" using sizes(3) lw_ok_block(3) [OF ok] by (intro tiles_next) simp
  assume "16 \<le> ?sz - fsz - req"
  moreover have "fsz + req \<le> ?sz" using f sizes(3) by (simp add: word_le_nat_alt)
  ultimately have "unat (fsz + req) < unat ?sz" using cut_space(1) [of "fsz + req" ?sz] by (simp add: diff_diff_eq)
  then show "c \<noteq> b + fsz + req" using others_apart [OF ok _ c, of "fsz + req"] by (simp add: add.assoc)
qed

lemma take_at_pool:
  "pool_frame p M (take_at p req a number zero b M)"
  "POOL_FREE_LIST_PTR (LWPOOLS (take_at p req a number zero b M) p) = POOL_FREE_LIST_PTR (LWPOOLS M p)"
  by (simp_all add: take_at_def Let_def pool_frame_def)

lemma take_at_headers:
  fixes M b p req a number zero
  defines "M' \<equiv> take_at p req a number zero b M" and "rb \<equiv> GET_LWMEMBLOCK_PTR a" and "sz \<equiv> BLOCKSIZE (LWBLOCKS M b)"
  assumes "rb \<noteq> b" and "rb + req \<noteq> b" and "req \<noteq> 0"
  shows "BLOCKSIZE (LWBLOCKS M' b) = rb - b"
    and "BPOOL (LWBLOCKS M' b) = BPOOL (LWBLOCKS M b)"
    and "UWORD (LWBLOCKS M' b) = (if 16 \<le> sz - req - (rb - b) then rb + req else UWORD (LWBLOCKS M b))"
    and "BLOCKSIZE (LWBLOCKS M' rb) = (if 16 \<le> sz - req - (rb - b) then req else req + (sz - req - (rb - b)))"
    and "BPOOL (LWBLOCKS M' rb) = p"
    and "blk_task_number (LWBLOCKS M' rb) = number AND 0xFFFF"
    and "16 \<le> sz - req - (rb - b) \<Longrightarrow> LWBLOCKS M' (rb + req) = \<lparr>BLOCKSIZE = sz - req - (rb - b), BPOOL = p, UWORD = UWORD (LWBLOCKS M b)\<rparr>"
  using assms(4-6) unfolding M'_def take_at_def Let_def rb_def [symmetric] sz_def [symmetric]
  by (cases "16 \<le> sz - req - (rb - b)"; simp add: task_number_owner)+

lemma take_at_others:
  assumes "c \<noteq> b" and "c \<noteq> GET_LWMEMBLOCK_PTR a"
    and "16 \<le> BLOCKSIZE (LWBLOCKS M b) - req - (GET_LWMEMBLOCK_PTR a - b) \<Longrightarrow> c \<noteq> GET_LWMEMBLOCK_PTR a + req"
  shows "LWBLOCKS (take_at p req a number zero b M) c = LWBLOCKS M c"
  using assms unfolding take_at_def Let_def
  by (cases "16 \<le> BLOCKSIZE (LWBLOCKS M b) - req - (GET_LWMEMBLOCK_PTR a - b)") simp_all

lemma take_at_ok:
  fixes M b p req a number zero
  defines "M' \<equiv> take_at p req a number zero b M" and "fsz \<equiv> GET_LWMEMBLOCK_PTR a - b"
  assumes ok: "lw_ok p (us @ (b, True) # vs) M" and req: "16 \<le> unat req" and low: "unat b + 16 \<le> unat (GET_LWMEMBLOCK_PTR a)"
    and high: "unat (GET_LWMEMBLOCK_PTR a) + unat req \<le> unat b + unat (BLOCKSIZE (LWBLOCKS M b))"
  shows "lw_ok p ((us @ [(b, True)]) @ cut_off (BLOCKSIZE (LWBLOCKS M b) - fsz) req (GET_LWMEMBLOCK_PTR a) @ vs) M'"
    and "others_same (us @ vs) M M'" and "req \<le> BLOCKSIZE (LWBLOCKS M' (GET_LWMEMBLOCK_PTR a))"
    and "blk_task_number (LWBLOCKS M' (GET_LWMEMBLOCK_PTR a)) = number AND 0xFFFF"
proof -
  let ?rb = "GET_LWMEMBLOCK_PTR a" and ?sz = "BLOCKSIZE (LWBLOCKS M b)"
  note blk = lw_ok_block [OF ok]
  have f: "unat fsz = unat ?rb - unat b" "b + fsz = ?rb" unfolding fsz_def using low unat_sub [of b ?rb] by (auto simp: word_le_nat_alt)
  have sizes: "16 \<le> unat fsz" "16 \<le> unat req" "unat fsz + unat req \<le> unat ?sz" using f low high req by auto
  have n: "unat (?rb + req) = unat ?rb + unat req" using high blk(3) by (intro tiles_next) simp
  have ne: "?rb \<noteq> b" "?rb + req \<noteq> b" "req \<noteq> 0" using low n req by auto
  have c: "?sz - req - fsz = ?sz - fsz - req" "req + (?sz - fsz - req) = ?sz - fsz" by simp_all
  note hdr = take_at_headers [where a = a and p = p and req = req and number = number and zero = zero and M = M and b = b, OF ne,
      folded M'_def fsz_def, unfolded c]
  have r: "req \<le> ?sz - fsz" using sizes unat_sub [of fsz ?sz] by (simp add: word_le_nat_alt)
  have oth: "LWBLOCKS M' c = LWBLOCKS M c" if "c \<in> fst ` set us \<or> c \<in> fst ` set vs" for c
    using take_at_others [of c b a M req p number zero] carve_apart [OF ok sizes that] f(2) c(1) unfolding M'_def fsz_def by simp
  note carve = carve_ok [OF ok sizes, of M']
  note pool = take_at_pool [where p = p and M = M and req = req and a = a and number = number and zero = zero and b = b, folded M'_def]
  have "lw_ok p ((us @ [(b, True)]) @ cut_off (?sz - fsz) req (b + fsz) @ vs) M' \<and> others_same (us @ vs) M M'"
    by (intro conjI carve) (simp_all add: hdr f(2) oth blk(4) pool)
  then show "lw_ok p ((us @ [(b, True)]) @ cut_off (?sz - fsz) req ?rb @ vs) M'" "others_same (us @ vs) M M'" using f(2) by simp_all
  show "req \<le> BLOCKSIZE (LWBLOCKS M' ?rb)" using hdr(4) r by simp
  show "blk_task_number (LWBLOCKS M' ?rb) = number AND 0xFFFF" by (rule hdr)
qed

lemma take_align_pool:
  assumes "POOL_FREE_LIST_PTR (LWPOOLS M p) \<noteq> b + shift"
  shows "pool_frame p M (take_align p req shift number zero b M)"
    and "POOL_FREE_LIST_PTR (LWPOOLS (take_align p req shift number zero b M) p) = POOL_FREE_LIST_PTR (LWPOOLS M p)"
  using assms by (auto simp: take_align_def Let_def pool_frame_def)

lemma take_align_headers:
  fixes M b p req shift number zero
  defines "M' \<equiv> take_align p req shift number zero b M" and "sz \<equiv> BLOCKSIZE (LWBLOCKS M b)"
  assumes "POOL_FREE_LIST_PTR (LWPOOLS M p) \<noteq> b + shift" and "shift \<noteq> 0" and "shift + req \<noteq> 0" and "req \<noteq> 0"
  shows "BLOCKSIZE (LWBLOCKS M' b) = shift"
    and "BPOOL (LWBLOCKS M' b) = BPOOL (LWBLOCKS M b)"
    and "UWORD (LWBLOCKS M' b) = (if 16 \<le> sz - shift - req then b + shift + req else UWORD (LWBLOCKS M b))"
    and "BLOCKSIZE (LWBLOCKS M' (b + shift)) = (if 16 \<le> sz - shift - req then req else sz - shift)"
    and "BPOOL (LWBLOCKS M' (b + shift)) = p"
    and "blk_task_number (LWBLOCKS M' (b + shift)) = number AND 0xFFFF"
    and "16 \<le> sz - shift - req \<Longrightarrow> LWBLOCKS M' (b + shift + req) = \<lparr>BLOCKSIZE = sz - shift - req, BPOOL = p, UWORD = UWORD (LWBLOCKS M b)\<rparr>"
proof -
  have e: "b + shift \<noteq> POOL_FREE_LIST_PTR (LWPOOLS M p)" "b \<noteq> b + shift" "b + shift + req \<noteq> b" using assms(3-6) by (simp_all add: add.assoc)
  show "BLOCKSIZE (LWBLOCKS M' b) = shift" "BPOOL (LWBLOCKS M' b) = BPOOL (LWBLOCKS M b)"
    "UWORD (LWBLOCKS M' b) = (if 16 \<le> sz - shift - req then b + shift + req else UWORD (LWBLOCKS M b))"
    "BLOCKSIZE (LWBLOCKS M' (b + shift)) = (if 16 \<le> sz - shift - req then req else sz - shift)"
    "BPOOL (LWBLOCKS M' (b + shift)) = p" "blk_task_number (LWBLOCKS M' (b + shift)) = number AND 0xFFFF"
    "16 \<le> sz - shift - req \<Longrightarrow> LWBLOCKS M' (b + shift + req) = \<lparr>BLOCKSIZE = sz - shift - req, BPOOL = p, UWORD = UWORD (LWBLOCKS M b)\<rparr>"
    using e assms(4,6) unfolding M'_def take_align_def Let_def sz_def [symmetric]
    by (cases "16 \<le> sz - shift - req"; simp add: task_number_owner)+
qed

lemma take_align_others:
  assumes "c \<noteq> b" and "c \<noteq> b + shift" and "16 \<le> BLOCKSIZE (LWBLOCKS M b) - shift - req \<Longrightarrow> c \<noteq> b + shift + req"
  shows "LWBLOCKS (take_align p req shift number zero b M) c = LWBLOCKS M c"
  using assms unfolding take_align_def Let_def
  by (cases "16 \<le> BLOCKSIZE (LWBLOCKS M b) - shift - req") auto

lemma take_align_ok:
  fixes M b p req shift number zero
  defines "M' \<equiv> take_align p req shift number zero b M" and "sz \<equiv> BLOCKSIZE (LWBLOCKS M b)"
  assumes ok: "lw_ok p (us @ (b, True) # vs) M" and sizes: "16 \<le> unat shift" "16 \<le> unat req" "unat shift + unat req \<le> unat sz"
  shows "lw_ok p ((us @ [(b, True)]) @ cut_off (sz - shift) req (b + shift) @ vs) M'"
    and "others_same (us @ vs) M M'" and "req \<le> BLOCKSIZE (LWBLOCKS M' (b + shift))"
    and "blk_task_number (LWBLOCKS M' (b + shift)) = number AND 0xFFFF"
proof -
  note blk = lw_ok_block [OF ok, folded sz_def]
  have n: "unat (b + shift) = unat b + unat shift" "unat (shift + req) = unat shift + unat req"
    using sizes blk(3) by (auto intro!: tiles_next)
  have hd: "POOL_FREE_LIST_PTR (LWPOOLS M p) \<noteq> b + shift"
  proof -
    have "POOL_FREE_LIST_PTR (LWPOOLS M p) = hd0 (free_of us) b" using lw_ok_links(1) [OF ok] links_hd0 by blast
    then have "POOL_FREE_LIST_PTR (LWPOOLS M p) = b \<or> POOL_FREE_LIST_PTR (LWPOOLS M p) \<in> fst ` set us"
      using free_of_in [of _ us] by (cases "free_of us") auto
    then show ?thesis using lower_blocks(2) [OF ok] n sizes by force
  qed
  have ne: "shift \<noteq> 0" "shift + req \<noteq> 0" "req \<noteq> 0" using n sizes by auto
  note hdr = take_align_headers [where p = p and req = req and number = number and zero = zero and M = M and b = b, OF hd ne,
      folded M'_def sz_def]
  note pool = take_align_pool [OF hd, of req number zero, folded M'_def]
  have oth: "LWBLOCKS M' c = LWBLOCKS M c" if "c \<in> fst ` set us \<or> c \<in> fst ` set vs" for c
    using take_align_others [of c b shift M req p number zero] carve_apart [OF ok sizes [unfolded sz_def] that] unfolding M'_def by simp
  have "lw_ok p ((us @ [(b, True)]) @ cut_off (sz - shift) req (b + shift) @ vs) M' \<and> others_same (us @ vs) M M'"
    unfolding sz_def by (intro conjI carve_ok [OF ok sizes [unfolded sz_def], of M']) (simp_all add: hdr oth blk(4) pool sz_def [symmetric])
  then show "lw_ok p ((us @ [(b, True)]) @ cut_off (sz - shift) req (b + shift) @ vs) M'" "others_same (us @ vs) M M'" by simp_all
  have "req \<le> sz - shift" using sizes unat_sub [of shift sz] by (simp add: word_le_nat_alt)
  then show "req \<le> BLOCKSIZE (LWBLOCKS M' (b + shift))" using hdr(4) by simp
  show "blk_task_number (LWBLOCKS M' (b + shift)) = number AND 0xFFFF" by (rule hdr)
qed

lemma apart_cut: "apart (us @ (b, True) # vs) \<Longrightarrow> apart (us @ cut_off sz req b @ vs)"
  by (auto simp: apart_append cut_off_def apart_Cons)

lemma apart_carve: "apart (us @ (b, True) # vs) \<Longrightarrow> apart ((us @ [(b, True)]) @ cut_off sz req c @ vs)"
  by (auto simp: apart_append cut_off_def apart_Cons)

subsection \<open>Blocks that return to the free list\<close>

text \<open>A return as a sequence of simple steps: the block is linked into the list, joined with its successor and joined
  with its predecessor.\<close>

definition join :: "ptr \<Rightarrow> ptr \<Rightarrow> lwmem \<Rightarrow> lwmem" where
  "join a c M = zero_lwblock c (upd_lwblock a (\<lambda>d. d\<lparr>BLOCKSIZE := BLOCKSIZE d + BLOCKSIZE (LWBLOCKS M c), UWORD := UWORD (LWBLOCKS M c)\<rparr>) M)"

definition link_front :: "ptr \<Rightarrow> ptr \<Rightarrow> lwmem \<Rightarrow> lwmem" where
  "link_front p b M = upd_lwpool p (\<lambda>r. r\<lparr>POOL_FREE_LIST_PTR := b\<rparr>) (upd_lwblock b (\<lambda>d. d\<lparr>UWORD := POOL_FREE_LIST_PTR (LWPOOLS M p)\<rparr>) M)"

definition link_behind :: "ptr \<Rightarrow> ptr \<Rightarrow> lwmem \<Rightarrow> lwmem" where
  "link_behind f b M = upd_lwblock f (\<lambda>d. d\<lparr>UWORD := b\<rparr>) (upd_lwblock b (\<lambda>d. d\<lparr>UWORD := UWORD (LWBLOCKS M f)\<rparr>) M)"

definition join_next :: "ptr \<Rightarrow> lwmem \<Rightarrow> lwmem" where
  "join_next b M = (let n = UWORD (LWBLOCKS M b) in if b + BLOCKSIZE (LWBLOCKS M b) = n then join b n M else M)"

definition join_prev :: "ptr \<Rightarrow> ptr \<Rightarrow> lwmem \<Rightarrow> lwmem" where
  "join_prev f b M = (if f + BLOCKSIZE (LWBLOCKS M f) = b then join f b M else M)"

lemma lwmem_eqI:
  assumes "\<And>c. LWBLOCKS M c = LWBLOCKS N c" "LWPOOLS M = LWPOOLS N" "LWMEM_POOLS M = LWMEM_POOLS N"
    "KERNEL_LWMEM_POOL M = KERNEL_LWMEM_POOL N" "LWDATA M = LWDATA N"
  shows "(M :: lwmem) = N"
  using assms by (auto intro!: lwmem.equality)

lemma lw_upd_rest [simp]:
  "LWMEM_POOLS (upd_lwblock b f M) = LWMEM_POOLS M" "KERNEL_LWMEM_POOL (upd_lwblock b f M) = KERNEL_LWMEM_POOL M" "LWDATA (upd_lwblock b f M) = LWDATA M"
  "LWMEM_POOLS (upd_lwpool p g M) = LWMEM_POOLS M" "KERNEL_LWMEM_POOL (upd_lwpool p g M) = KERNEL_LWMEM_POOL M" "LWDATA (upd_lwpool p g M) = LWDATA M"
  by (simp_all add: upd_lwblock_def upd_lwpool_def)

lemma insert_front_steps:
  assumes "b \<noteq> POOL_FREE_LIST_PTR (LWPOOLS M p)"
  shows "insert_front p b M = join_next b (link_front p b M)"
  by (rule lwmem_eqI) (use assms in \<open>auto simp: insert_front_def join_next_def link_front_def join_def zero_lwblock_def Let_def\<close>)

lemma insert_behind_steps:
  assumes "f \<noteq> b" and "UWORD (LWBLOCKS M f) \<noteq> f" and "UWORD (LWBLOCKS M f) \<noteq> b"
  shows "insert_behind f b M = join_prev f b (join_next b (link_behind f b M))"
  by (rule lwmem_eqI) (use assms in \<open>auto simp: insert_behind_def join_next_def join_prev_def link_behind_def join_def zero_lwblock_def Let_def\<close>)

lemma link_front_ok:
  assumes ok: "lw_ok p (us @ (b, False) # vs) M" and front: "free_of us = []"
  shows "lw_ok p (us @ (b, True) # vs) (link_front p b M)"
proof -
  note blk = lw_ok_block [OF ok]
  have oth: "c \<noteq> b" if "c \<in> fst ` set us \<or> c \<in> fst ` set vs" for c using others_apart [OF ok _ that, of 0] blk(2) by simp
  have hd: "POOL_FREE_LIST_PTR (LWPOOLS M p) = hd0 (free_of vs) 0" using ok front by (auto simp: lw_ok_def dest: links_hd0)
  let ?M = "link_front p b M"
  have B: "LWBLOCKS ?M c = LWBLOCKS M c" if "c \<in> fst ` set us \<or> c \<in> fst ` set vs" for c using oth [OF that] by (simp add: link_front_def)
  have Bb: "LWBLOCKS ?M b = (LWBLOCKS M b)\<lparr>UWORD := hd0 (free_of vs) 0\<rparr>" using hd by (simp add: link_front_def)
  have "lw_ok p (us @ [(b, True)] @ vs) ?M"
  proof (rule lw_ok_splice [of p us "[(b, False)]" vs M])
    show "pool_frame p M ?M" by (simp add: link_front_def pool_frame_def)
    show "tiles (LWBLOCKS ?M) a [(b, True)] c" if "tiles (LWBLOCKS M) a [(b, False)] c" for a c using that Bb by auto
    show "links (LWBLOCKS ?M) (POOL_FREE_LIST_PTR (LWPOOLS ?M p)) (free_of us) (hd0 (free_of [(b, True)]) (hd0 (free_of vs) 0))"
      using front by (simp add: link_front_def)
  qed (use ok B Bb blk in simp_all)
  then show ?thesis by simp
qed

lemma link_behind_ok:
  assumes ok: "lw_ok p (us @ (b, False) # vs) M" and f: "free_of us \<noteq> []" "f = last (free_of us)"
  shows "lw_ok p (us @ (b, True) # vs) (link_behind f b M)"
proof -
  note blk = lw_ok_block [OF ok]
  have oth: "c \<noteq> b" if "c \<in> fst ` set us \<or> c \<in> fst ` set vs" for c using others_apart [OF ok _ that, of 0] blk(2) by simp
  have fus: "f \<in> fst ` set us" using f free_of_in [of f us] by simp
  have fvs: "f \<notin> fst ` set vs" using sides_disjoint [OF ok fus] .
  let ?hd = "POOL_FREE_LIST_PTR (LWPOOLS M p)" and ?B' = "LWBLOCKS (link_behind f b M)"
  have l: "links (LWBLOCKS M) ?hd (free_of us) (hd0 (free_of vs) 0)" using ok by (auto simp: lw_ok_def links_append)
  have u: "UWORD (LWBLOCKS M f) = hd0 (free_of vs) 0"
    using l f by (metis append_butlast_last_id hd0_simps(1) links.simps(1,2) links_append)
  let ?M = "link_behind f b M"
  have B: "?B' c = (if c = f then (LWBLOCKS M f)\<lparr>UWORD := b\<rparr> else LWBLOCKS M c)" if "c \<in> fst ` set us \<or> c \<in> fst ` set vs" for c
    using oth [OF that] by (simp add: link_behind_def)
  have Bb: "?B' b = (LWBLOCKS M b)\<lparr>UWORD := hd0 (free_of vs) 0\<rparr>" using u oth [of f] fus by (auto simp: link_behind_def)
  have "links ?B' ?hd (free_of us) b"
  proof (rule links_redirect [OF l f(1)])
    show "UWORD (?B' (last (free_of us))) = b" using f by (simp add: link_behind_def)
    have "distinct (free_of us)" using lw_ok_free_distinct [OF ok] by simp
    then show "\<forall>g \<in> set (butlast (free_of us)). UWORD (?B' g) = UWORD (LWBLOCKS M g)"
      using butlast_not_last [OF _ f(1)] oth free_of_in [of _ us] in_set_butlastD [of _ "free_of us"] f(2) by (auto simp: link_behind_def)
  qed
  note l2 = this
  have "lw_ok p (us @ [(b, True)] @ vs) ?M"
  proof (rule lw_ok_splice [of p us "[(b, False)]" vs M])
    show "pool_frame p M ?M" by (simp add: link_behind_def pool_frame_def)
    show "tiles ?B' a [(b, True)] c" if "tiles (LWBLOCKS M) a [(b, False)] c" for a c using that Bb by auto
    show "links ?B' (POOL_FREE_LIST_PTR (LWPOOLS ?M p)) (free_of us) (hd0 (free_of [(b, True)]) (hd0 (free_of vs) 0))"
      using l2 by (simp add: link_behind_def)
    show "\<forall>x \<in> set vs. ?B' (fst x) = LWBLOCKS M (fst x)" using B fvs by auto
  qed (use ok B Bb blk in simp_all)
  then show ?thesis by simp
qed

lemma join_headers:
  "a \<noteq> c \<Longrightarrow> LWBLOCKS (join a c M) a = (LWBLOCKS M a)\<lparr>BLOCKSIZE := BLOCKSIZE (LWBLOCKS M a) + BLOCKSIZE (LWBLOCKS M c), UWORD := UWORD (LWBLOCKS M c)\<rparr>"
  "x \<noteq> a \<Longrightarrow> x \<noteq> c \<Longrightarrow> LWBLOCKS (join a c M) x = LWBLOCKS M x"
  "LWPOOLS (join a c M) = LWPOOLS M"
  by (auto simp: join_def zero_lwblock_def)

lemma join_ok:
  assumes ok: "lw_ok p (us @ (a, True) # (c, True) # vs) M"
  shows "lw_ok p (us @ (a, True) # vs) (join a c M)"
proof -
  have ok2: "lw_ok p ((us @ [(a, True)]) @ (c, True) # vs) M" using ok by simp
  note blka = lw_ok_block [OF ok] and blkc = lw_ok_block [OF ok2]
  have ac: "a \<noteq> c" "c = a + BLOCKSIZE (LWBLOCKS M a)"
    using others_apart [OF ok, of 0 c] blka(2) ok by (auto simp: lw_ok_def tiles_append)
  have n: "unat c = unat a + unat (BLOCKSIZE (LWBLOCKS M a))"
    "unat (BLOCKSIZE (LWBLOCKS M a) + BLOCKSIZE (LWBLOCKS M c)) = unat (BLOCKSIZE (LWBLOCKS M a)) + unat (BLOCKSIZE (LWBLOCKS M c))"
    using ac(2) tiles_next [OF blka(3)] blkc(3) by (auto intro!: tiles_next)
  have oth: "x \<noteq> a \<and> x \<noteq> c" if "x \<in> fst ` set us \<or> x \<in> fst ` set vs" for x
    using others_apart [OF ok, of 0 x] others_apart [OF ok2, of 0 x] that blka(2) blkc(2) by auto
  have us: "LWBLOCKS (join a c M) x = LWBLOCKS M x" if "x \<in> fst ` set us \<or> x \<in> fst ` set vs" for x using oth [OF that] by (simp add: join_headers)
  have "lw_ok p (us @ [(a, True)] @ vs) (join a c M)"
  proof (rule lw_ok_splice [of p us "[(a, True), (c, True)]" vs M])
    show "pool_frame p M (join a c M)" by (simp add: pool_frame_def join_headers)
    show "tiles (LWBLOCKS (join a c M)) s [(a, True)] e" if "tiles (LWBLOCKS M) s [(a, True), (c, True)] e" for s e
    proof -
      have e: "s = a" "e = a + (BLOCKSIZE (LWBLOCKS M a) + BLOCKSIZE (LWBLOCKS M c))" using that ac(2) by (auto simp: add.assoc)
      show ?thesis unfolding e using n blka(2) blkc(3) by (simp add: join_headers ac(1))
    qed
    have "\<forall>f \<in> set (free_of us). UWORD (LWBLOCKS (join a c M) f) = UWORD (LWBLOCKS M f)" using us free_of_in [of _ us] by simp
    then show "links (LWBLOCKS (join a c M)) (POOL_FREE_LIST_PTR (LWPOOLS (join a c M) p)) (free_of us) (hd0 (free_of [(a, True)]) (hd0 (free_of vs) 0))"
      using lw_ok_links(1) [OF ok] links_cong [of "free_of us" "LWBLOCKS (join a c M)" "LWBLOCKS M"] by (simp add: join_headers)
  qed (use ok us blka blkc lw_ok_links(2) [OF ok2] in \<open>simp_all add: join_headers ac(1)\<close>)
  then show ?thesis by simp
qed

text \<open>When the joins happen: the neighbour is free.\<close>

definition drop_free :: "blocks_of \<Rightarrow> blocks_of" where
  "drop_free vs = (if vs \<noteq> [] \<and> snd (hd vs) then tl vs else vs)"

definition add_free :: "blocks_of \<Rightarrow> ptr \<Rightarrow> blocks_of" where
  "add_free us b = (if us \<noteq> [] \<and> snd (last us) then us else us @ [(b, True)])"

lemma upper_blocks:
  assumes ok: "lw_ok p (us @ (b, f) # vs) M" and c: "c \<in> fst ` set vs"
  shows "unat b + unat (BLOCKSIZE (LWBLOCKS M b)) \<le> unat c"
proof -
  have "tiles (LWBLOCKS M) (POOL_ALLOC_START_PTR (LWPOOLS M p)) (us @ (b, f) # vs) (POOL_ALLOC_END_PTR (LWPOOLS M p))"
    using ok by (simp add: lw_ok_def)
  from tiles_sorted [OF this] show ?thesis using c by (auto simp: sorted_wrt_append)
qed

lemma next_iff:
  assumes ok: "lw_ok p (us @ (b, True) # vs) M"
  shows "b + BLOCKSIZE (LWBLOCKS M b) = UWORD (LWBLOCKS M b) \<longleftrightarrow> vs \<noteq> [] \<and> snd (hd vs)"
proof (cases vs)
  case Nil
  then show ?thesis using lw_ok_links(2) [OF ok] lw_ok_block [OF ok] tiles_next [of b "BLOCKSIZE (LWBLOCKS M b)"] by auto
next
  case (Cons y ws)
  then have y: "fst y = b + BLOCKSIZE (LWBLOCKS M b)" using ok by (auto simp: lw_ok_def tiles_append)
  obtain c g where yc: "y = (c, g)" by (cases y)
  have ok2: "lw_ok p ((us @ [(b, True)]) @ (c, g) # ws) M" using ok Cons yc by simp
  have "c \<noteq> hd0 (free_of ws) 0"
    using upper_blocks [OF ok2, of c] lw_ok_block [OF ok2] free_of_in [of _ ws] by (cases "free_of ws") (auto simp: hd0_def)
  then show ?thesis using lw_ok_links(2) [OF ok] y yc Cons by auto
qed

lemma join_next_ok:
  assumes ok: "lw_ok p (us @ (b, True) # vs) M"
  shows "lw_ok p (us @ (b, True) # drop_free vs) (join_next b M)"
proof (cases "vs \<noteq> [] \<and> snd (hd vs)")
  case True
  then obtain c ws where vs: "vs = (c, True) # ws" by (cases vs) auto
  then have "UWORD (LWBLOCKS M b) = c" using lw_ok_links(2) [OF ok] by simp
  then show ?thesis using join_ok [of p us b c ws M] ok next_iff [OF ok] True vs by (simp add: join_next_def drop_free_def Let_def)
next
  case False
  then show ?thesis using ok next_iff [OF ok] by (auto simp: join_next_def drop_free_def Let_def)
qed

lemma prev_iff:
  assumes ok: "lw_ok p (us @ (b, True) # vs) M" and f: "free_of us \<noteq> []" "f = last (free_of us)"
  shows "f + BLOCKSIZE (LWBLOCKS M f) = b \<longleftrightarrow> snd (last us)"
proof -
  have "us \<noteq> []" using f(1) by auto
  then obtain us' c g where us: "us = us' @ [(c, g)]" by (cases us rule: rev_cases) auto
  have ok2: "lw_ok p (us' @ (c, g) # (b, True) # vs) M" using ok us by simp
  have c: "c + BLOCKSIZE (LWBLOCKS M c) = b" using ok2 by (auto simp: lw_ok_def tiles_append)
  show ?thesis
  proof (cases g)
    case True
    then show ?thesis using c us f by simp
  next
    case False
    then have fu: "f \<in> fst ` set us'" using f us free_of_in [of f us'] by simp
    have ok3: "lw_ok p (us @ (b, True) # vs) M" by (rule ok)
    have "unat f + unat (BLOCKSIZE (LWBLOCKS M f)) \<le> unat c" "unat c < unat b"
      using lower_blocks(1) [OF ok2 fu] lower_blocks(2) [OF ok3, of c] us by auto
    then have "f + BLOCKSIZE (LWBLOCKS M f) \<noteq> b"
      using tiles_next [of f "BLOCKSIZE (LWBLOCKS M f)"] unat_u32_bound [of c] by auto
    then show ?thesis using False us by simp
  qed
qed

lemma join_prev_ok:
  assumes ok: "lw_ok p (us @ (b, True) # vs) M" and f: "free_of us \<noteq> []" "f = last (free_of us)"
  shows "lw_ok p (add_free us b @ vs) (join_prev f b M)"
proof (cases "snd (last us)")
  case True
  moreover have "us \<noteq> []" using f(1) by auto
  ultimately obtain us' c where us: "us = us' @ [(c, True)]" by (cases us rule: rev_cases) auto
  then show ?thesis using join_ok [of p us' f b vs M] ok f prev_iff [OF ok f] True by (simp add: join_prev_def add_free_def)
next
  case False
  then show ?thesis using ok prev_iff [OF ok f] by (simp add: join_prev_def add_free_def)
qed

end
