(* ===== verification/Lwmem_Calls.thy ===== *)
theory Lwmem_Calls
  imports Lwmem_Layout
begin

unbundle bit_operations_syntax

text \<open>
  The calls of lightweight memory on well-formed pools: the walks with interference in their windows, allocation, release,
  queries, test and creation, and the heap they provide to clients as an interpretation of the locale
  \<open>region_heap\<close>.
\<close>

subsection \<open>The walks\<close>

text \<open>What the code in the windows may do: it leaves the pool alone, or it leaves it well-formed, with the pointers
  of the walks reset, and with the blocks in \<open>H\<close> still in use. Allocation is such a call. A call that only walks and
  leaves its pointer where it ended, such as \<^verbatim>\<open>_lwmem_get_free\<close>, is not, and the walks are not safe against it: the
  last lemma of this theory hands out a block twice.\<close>

definition walks_reset :: "ptr \<Rightarrow> lwmem \<Rightarrow> bool" where
  "walks_reset p M \<longleftrightarrow>
     (let r = LWPOOLS M p
      in POOL_ALLOC_PTR r = POOL_FREE_LIST_PTR r \<and> POOL_FREE_PTR r = POOL_FREE_LIST_PTR r \<and>
         POOL_TEST_PTR r = POOL_FREE_LIST_PTR r \<and> POOL_TEST2_PTR r = POOL_ALLOC_START_PTR r)"

definition untouched :: "ptr \<Rightarrow> blocks_of \<Rightarrow> lwmem \<Rightarrow> lwmem \<Rightarrow> bool" where
  "untouched p xs M M' \<longleftrightarrow> LWPOOLS M' p = LWPOOLS M p \<and> (\<forall>x \<in> set xs. LWBLOCKS M' (fst x) = LWBLOCKS M (fst x))"

definition keeps_used :: "ptr set \<Rightarrow> blocks_of \<Rightarrow> lwmem \<Rightarrow> blocks_of \<Rightarrow> lwmem \<Rightarrow> bool" where
  "keeps_used H xs M ys M' \<longleftrightarrow> (\<forall>b \<in> H. (b, False) \<in> set xs \<longrightarrow> (b, False) \<in> set ys \<and> LWBLOCKS M' b = LWBLOCKS M b)"

definition considerate :: "ptr \<Rightarrow> ptr set \<Rightarrow> (kernel \<Rightarrow> kernel) \<Rightarrow> bool" where
  "considerate p H w \<longleftrightarrow>
     (\<forall>k xs. lw_inv p xs (lwm k) \<longrightarrow> untouched p xs (lwm k) (lwm (w k)) \<or>
        (\<exists>ys. lw_inv p ys (lwm (w k)) \<and> walks_reset p (lwm (w k)) \<and> keeps_used H xs (lwm k) ys (lwm (w k))))"

lemma upd_lwmem_tds [simp]: "TDS (upd_lwmem f k) = TDS k" "ACTIVE_PTR (upd_lwmem f k) = ACTIVE_PTR k" "SYSTEM_TD (upd_lwmem f k) = SYSTEM_TD k"
  by (simp_all add: upd_lwmem_def)

definition same_tasks :: "kernel \<Rightarrow> kernel \<Rightarrow> bool" where
  "same_tasks k k' \<longleftrightarrow> ACTIVE_PTR k' = ACTIVE_PTR k \<and> SYSTEM_TD k' = SYSTEM_TD k \<and> (\<forall>t. TASK_ID (TDS k' t) = TASK_ID (TDS k t))"

lemma active_frame:
  "ACTIVE_PTR (INT_DISABLE k) = ACTIVE_PTR k" "ACTIVE_PTR (INT_ENABLE k) = ACTIVE_PTR k" "ACTIVE_PTR (snd (task_set_error e k)) = ACTIVE_PTR k"
  "SYSTEM_TD (snd (task_set_error e k)) = SYSTEM_TD k"
  by (simp_all add: INT_DISABLE_def INT_ENABLE_def upd_td_def task_set_error_def Let_def)

lemma task_set_error_task_id: "TASK_ID (TDS (snd (task_set_error e k)) t) = TASK_ID (TDS k t)"
  by (simp add: upd_td_def task_set_error_def Let_def)

lemma same_tasks_simps [simp]:
  "same_tasks k (INT_DISABLE k') = same_tasks k k'" "same_tasks k (INT_ENABLE k') = same_tasks k k'" "same_tasks k (upd_lwmem f k') = same_tasks k k'"
  "same_tasks (INT_DISABLE k) k' = same_tasks k k'" "same_tasks (INT_ENABLE k) k' = same_tasks k k'" "same_tasks (upd_lwmem f k) k' = same_tasks k k'"
  "same_tasks k (snd (task_set_error e k')) = same_tasks k k'"
  by (simp_all add: same_tasks_def active_frame task_set_error_task_id)

lemma same_tasks_number: "same_tasks k k' \<Longrightarrow> td_task_number t k' = td_task_number t k" "same_tasks k k' \<Longrightarrow> ACTIVE_PTR k' = ACTIVE_PTR k"
  "same_tasks k k' \<Longrightarrow> SYSTEM_TD k' = SYSTEM_TD k"
  by (simp_all add: same_tasks_def td_task_number_def)

lemma same_tasks_refl [simp]: "same_tasks k k"
  by (simp add: same_tasks_def)

lemma window_alone [simp]: "lwm (window [] k) = lwm k" "same_tasks k' (window [] k) = same_tasks k' k" "same_tasks (window [] k) k' = same_tasks k k'"
  by (simp_all add: window_def)

lemma lw_ok_pointer:
  "(\<And>r. POOL_ALLOC_START_PTR (g r) = POOL_ALLOC_START_PTR r) \<Longrightarrow> (\<And>r. POOL_ALLOC_END_PTR (g r) = POOL_ALLOC_END_PTR r) \<Longrightarrow>
   (\<And>r. POOL_FREE_LIST_PTR (g r) = POOL_FREE_LIST_PTR r) \<Longrightarrow> (\<And>r. LWPOOL_VALID (g r) = LWPOOL_VALID r) \<Longrightarrow>
   lw_ok p xs (upd_lwpool p g M) = lw_ok p xs M"
  by (simp add: lw_ok_def lwpool_valid_def)

lemma lw_ok_walks [simp]:
  "lw_ok p xs (upd_lwpool p (\<lambda>r. r\<lparr>POOL_ALLOC_PTR := a\<rparr>) M) = lw_ok p xs M"
  "lw_ok p xs (upd_lwpool p (\<lambda>r. r\<lparr>POOL_FREE_PTR := a\<rparr>) M) = lw_ok p xs M"
  "lw_ok p xs (upd_lwpool p (\<lambda>r. r\<lparr>POOL_TEST_PTR := a\<rparr>) M) = lw_ok p xs M"
  "lw_ok p xs (upd_lwpool p (\<lambda>r. r\<lparr>POOL_TEST2_PTR := a\<rparr>) M) = lw_ok p xs M"
  "lw_ok p xs (reset_walks p M) = lw_ok p xs M"
  unfolding reset_walks_def by (rule lw_ok_pointer; simp)+

lemma lw_inv_walks [simp]:
  "lw_inv p xs (upd_lwpool p (\<lambda>r. r\<lparr>POOL_ALLOC_PTR := a\<rparr>) M) = lw_inv p xs M"
  "lw_inv p xs (upd_lwpool p (\<lambda>r. r\<lparr>POOL_FREE_PTR := a\<rparr>) M) = lw_inv p xs M"
  "lw_inv p xs (upd_lwpool p (\<lambda>r. r\<lparr>POOL_TEST_PTR := a\<rparr>) M) = lw_inv p xs M"
  "lw_inv p xs (upd_lwpool p (\<lambda>r. r\<lparr>POOL_TEST2_PTR := a\<rparr>) M) = lw_inv p xs M"
  "lw_inv p xs (reset_walks p M) = lw_inv p xs M"
  by (simp_all add: lw_inv_def)

text \<open>A place in the free list: the block \<open>c\<close> at it (zero at the end), and the one in front of it.\<close>

definition place :: "blocks_of \<Rightarrow> ptr \<Rightarrow> ptr \<Rightarrow> bool" where
  "place xs c prev \<longleftrightarrow> (\<exists>us vs. xs = us @ vs \<and> c = hd0 (free_of vs) 0 \<and> (free_of us \<noteq> [] \<longrightarrow> prev = last (free_of us)))"

lemma place_head: "lw_ok p xs M \<Longrightarrow> place xs (POOL_FREE_LIST_PTR (LWPOOLS M p)) prev"
  unfolding place_def lw_ok_def using links_hd0 by (intro exI [of _ "[]"] exI [of _ xs]) auto

lemma place_split:
  assumes "place xs c prev" and "c \<noteq> 0"
  obtains us vs where "xs = us @ (c, True) # vs" and "free_of us \<noteq> [] \<Longrightarrow> prev = last (free_of us)"
proof -
  obtain us vs where p: "xs = us @ vs" "c = hd0 (free_of vs) 0" "free_of us \<noteq> [] \<longrightarrow> prev = last (free_of us)"
    using assms(1) by (auto simp: place_def)
  then obtain fs where "free_of vs = c # fs" using assms(2) by (cases "free_of vs") auto
  then obtain vs1 vs2 where "vs = vs1 @ (c, True) # vs2" "free_of vs1 = []" by (elim free_of_split)
  then show thesis using that [of "us @ vs1" vs2] p by simp
qed

lemma place_next:
  assumes "lw_ok p xs M" and "place xs c prev" and "c \<noteq> 0"
  shows "place xs (UWORD (LWBLOCKS M c)) c"
proof -
  obtain us vs where "xs = us @ (c, True) # vs" using place_split [OF assms(2,3)] by metis
  then show ?thesis using assms(1) lw_ok_links(2) [of p us c vs M] unfolding place_def
    by (intro exI [of _ "us @ [(c, True)]"] exI [of _ vs]) simp
qed

text \<open>The free blocks from a place on.\<close>

lemma free_from:
  assumes "lw_ok p xs M" and "place xs c prev"
  obtains fs where "links (LWBLOCKS M) c fs 0" and "set fs \<subseteq> set (free_of xs)"
proof -
  obtain us vs where p: "xs = us @ vs" "c = hd0 (free_of vs) 0" using assms(2) by (auto simp: place_def)
  then have "links (LWBLOCKS M) c (free_of vs) 0" using assms(1) by (auto simp: lw_ok_def links_append)
  then show thesis using that [of "free_of vs"] p by simp
qed

lemma walk_alone:
  assumes "lw_ok p xs (lwm k)" and "place xs c prev" and "links (LWBLOCKS (lwm k)) c fs 0"
  shows "\<exists>g pr a k2. walk_free [] p fits c prev k = Some (g, pr, k2) \<and>
    g = (case List.find (\<lambda>g. fits g (LWBLOCKS (lwm k) g)) fs of None \<Rightarrow> 0 | Some g \<Rightarrow> g) \<and> place xs g pr \<and>
    lwm k2 = upd_lwpool p (\<lambda>r. r\<lparr>POOL_ALLOC_PTR := a\<rparr>) (lwm k) \<and> same_tasks k k2"
  using assms
proof (induction fs arbitrary: c prev k)
  case Nil
  have "upd_lwpool p (\<lambda>r. r\<lparr>POOL_ALLOC_PTR := POOL_ALLOC_PTR (LWPOOLS (lwm k) p)\<rparr>) (lwm k) = lwm k"
    by (rule lwmem_eqI) auto
  then show ?case using Nil by (subst walk_free.simps) (auto intro!: exI [of _ "POOL_ALLOC_PTR (LWPOOLS (lwm k) p)"])
next
  case (Cons f fs)
  let ?k1 = "window [] (upd_lwmem (upd_lwpool p (\<lambda>r. r\<lparr>POOL_ALLOC_PTR := c\<rparr>)) k)"
  have c: "c = f" "c \<noteq> 0" using Cons.prems(3) by auto
  show ?case
  proof (cases "fits c (LWBLOCKS (lwm k) c)")
    case True
    then show ?thesis using Cons.prems c by (subst walk_free.simps) (auto simp: Let_def)
  next
    case False
    then have s: "walk_free [] p fits c prev k = walk_free [] p fits (UWORD (LWBLOCKS (lwm k) c)) c ?k1"
      using c by (subst walk_free.simps) (simp add: Let_def)
    have "place xs (UWORD (LWBLOCKS (lwm k) c)) c" using place_next [OF Cons.prems(1,2) c(2)] .
    with Cons.IH [of ?k1 "UWORD (LWBLOCKS (lwm k) c)" c] Cons.prems c
    obtain g pr a k2 where r: "walk_free [] p fits (UWORD (LWBLOCKS (lwm k) c)) c ?k1 = Some (g, pr, k2)"
      "g = (case List.find (\<lambda>g. fits g (LWBLOCKS (lwm k) g)) fs of None \<Rightarrow> 0 | Some g \<Rightarrow> g)" "place xs g pr"
      "lwm k2 = upd_lwpool p (\<lambda>r. r\<lparr>POOL_ALLOC_PTR := a\<rparr>) (upd_lwpool p (\<lambda>r. r\<lparr>POOL_ALLOC_PTR := c\<rparr>) (lwm k))"
      "same_tasks k k2"
      by auto
    have "lwm k2 = upd_lwpool p (\<lambda>r. r\<lparr>POOL_ALLOC_PTR := a\<rparr>) (lwm k)" unfolding r(4) by (rule lwmem_eqI) auto
    then show ?thesis using r(1-3,5) s False c by auto
  qed
qed

lemma untouched_inv:
  assumes "untouched p xs M M'" and "lw_inv p xs M"
  shows "lw_inv p xs M'"
  using assms lw_ok_cong [of p xs M M'] by (auto simp: lw_inv_def untouched_def pool_frame_def)

text \<open>The state after a window: the walk goes on where it was, or the list is well-formed and its pointers are reset.\<close>

lemma window_cases:
  assumes inv: "lw_inv p xs (lwm k)" and w: "considerate p H w"
  obtains (same) "lw_inv p xs (lwm (window (w # W) k))" and "untouched p xs (lwm k) (lwm (window (w # W) k))"
  | (changed) ys where "lw_inv p ys (lwm (window (w # W) k))" and "walks_reset p (lwm (window (w # W) k))"
      and "keeps_used H xs (lwm k) ys (lwm (window (w # W) k))"
proof -
  have "lw_inv p xs (lwm (INT_ENABLE k))" using inv by simp
  then consider "untouched p xs (lwm k) (lwm (w (INT_ENABLE k)))"
    | ys where "lw_inv p ys (lwm (w (INT_ENABLE k)))" "walks_reset p (lwm (w (INT_ENABLE k)))" "keeps_used H xs (lwm k) ys (lwm (w (INT_ENABLE k)))"
    using w unfolding considerate_def by (metis lw_int_simps(2))
  then show thesis
  proof cases
    case 1
    then show thesis using that(1) untouched_inv [OF _ inv] by (simp add: window_def)
  next
    case (2 ys)
    then show thesis using that(2) [of ys] by (simp add: window_def)
  qed
qed

text \<open>A walk that ends well: at a place of the list, with a block that fits if it is not the end.\<close>

definition walk_end :: "ptr \<Rightarrow> (ptr \<Rightarrow> lwblock \<Rightarrow> bool) \<Rightarrow> blocks_of \<Rightarrow> (ptr \<times> ptr \<times> kernel) option \<Rightarrow> bool" where
  "walk_end p fits ys r \<longleftrightarrow>
     (case r of None \<Rightarrow> False
      | Some (g, prev, k) \<Rightarrow> lw_inv p ys (lwm k) \<and> place ys g prev \<and> (g = 0 \<or> fits g (LWBLOCKS (lwm k) g)))"

lemma walk_free_ok:
  assumes "lw_inv p xs (lwm k)" and "place xs c prev" and "list_all (considerate p H) W"
  shows "\<exists>ys. walk_end p fits ys (walk_free W p fits c prev k)"
  using assms
proof (induction W arbitrary: xs c prev k)
  case Nil
  then have ok: "lw_ok p xs (lwm k)" by (simp add: lw_inv_def)
  obtain fs where fs: "links (LWBLOCKS (lwm k)) c fs 0" using free_from [OF ok Nil.prems(2)] by metis
  obtain g pr a k2 where r: "walk_free [] p fits c prev k = Some (g, pr, k2)"
    "g = (case List.find (\<lambda>g. fits g (LWBLOCKS (lwm k) g)) fs of None \<Rightarrow> 0 | Some g \<Rightarrow> g)" "place xs g pr"
    "lwm k2 = upd_lwpool p (\<lambda>r. r\<lparr>POOL_ALLOC_PTR := a\<rparr>) (lwm k)"
    using walk_alone [OF ok Nil.prems(2) fs, of fits] by (elim exE conjE) (rule that)
  have "g = 0 \<or> fits g (LWBLOCKS (lwm k2) g)" using r(2,4)
    by (cases "List.find (\<lambda>g. fits g (LWBLOCKS (lwm k) g)) fs") (auto simp: find_Some_iff)
  moreover have "lw_inv p xs (lwm k2)" using r(4) Nil.prems(1) by simp
  ultimately show ?case using r(1,3) by (intro exI [of _ xs]) (simp add: walk_end_def)
next
  case (Cons w W)
  show ?case
  proof (cases "c = 0")
    case True
    then have "walk_free (w # W) p fits c prev k = Some (0, prev, k)" by (subst walk_free.simps) simp
    then show ?thesis using Cons.prems True by (intro exI [of _ xs]) (simp add: walk_end_def)
  next
    case False
    let ?k0 = "upd_lwmem (upd_lwpool p (\<lambda>r. r\<lparr>POOL_ALLOC_PTR := c\<rparr>)) k"
    define k1 where "k1 = window (w # W) ?k0"
    let ?r = "LWPOOLS (lwm k1) p"
    define d where "d = (if c \<noteq> POOL_ALLOC_PTR ?r then POOL_FREE_LIST_PTR ?r else c)"
    define pr where "pr = (if c \<noteq> POOL_ALLOC_PTR ?r then POOL_FREE_LIST_PTR ?r else prev)"
    have inv0: "lw_inv p xs (lwm ?k0)" using Cons.prems(1) by simp
    have w: "considerate p H w" "list_all (considerate p H) W" using Cons.prems(3) by auto
    obtain ys where ys: "lw_inv p ys (lwm k1)" "place ys d pr"
    proof (cases rule: window_cases [OF inv0 w(1), of W, folded k1_def])
      case 1
      then have "POOL_ALLOC_PTR ?r = c" by (auto simp: untouched_def)
      then show thesis using that [of xs] 1(1) Cons.prems(2) by (simp add: d_def pr_def)
    next
      case (2 ys)
      then have "d = POOL_FREE_LIST_PTR ?r" by (auto simp: walks_reset_def Let_def d_def)
      then show thesis using that [of ys] 2(1) place_head [of p ys "lwm k1"] by (simp add: lw_inv_def)
    qed
    have step: "walk_free (w # W) p fits c prev k =
        (if d = 0 then Some (0, pr, k1) else if fits d (LWBLOCKS (lwm k1) d) then Some (d, pr, k1)
         else walk_free W p fits (UWORD (LWBLOCKS (lwm k1) d)) d k1)"
      using False by (subst walk_free.simps) (simp add: Let_def k1_def [symmetric] d_def [symmetric] pr_def [symmetric])
    show ?thesis
    proof (cases "d = 0 \<or> fits d (LWBLOCKS (lwm k1) d)")
      case True
      then have "walk_free (w # W) p fits c prev k = Some (d, pr, k1)" unfolding step by auto
      then show ?thesis using ys True by (intro exI [of _ ys]) (simp add: walk_end_def)
    next
      case False
      then have "walk_free (w # W) p fits c prev k = walk_free W p fits (UWORD (LWBLOCKS (lwm k1) d)) d k1" unfolding step by simp
      moreover have "place ys (UWORD (LWBLOCKS (lwm k1) d)) d" 
        using place_next [of p ys "lwm k1" d pr] ys False by (simp add: lw_inv_def)
      ultimately show ?thesis using Cons.IH [OF ys(1) _ w(2)] by simp
    qed
  qed
qed

subsection \<open>Allocation\<close>

lemma alloc_request_bounds:
  assumes "unat n + 27 < 2 ^ 32"
  shows "unat n + 12 \<le> unat (alloc_request n)" and "16 \<le> unat (alloc_request n)" and "unat (alloc_request n) < unat n + 32"
    and "16 dvd unat (alloc_request n)"
proof -
  let ?m = "if n + 12 < 16 then 16 else n + 12"
  have s: "unat (n + 12) = unat n + 12" using assms by (simp add: unat_word_ariths)
  then have m: "unat ?m = max 16 (unat n + 12)" by (auto simp: word_less_nat_alt)
  have "unat ?m + 15 < 2 ^ 32" using m assms by simp
  note b = align_bounds [OF this]
  have "alloc_request n = ALIGN_LARGER ?m" by (simp add: alloc_request_def Let_def)
  then show "unat n + 12 \<le> unat (alloc_request n)" "16 \<le> unat (alloc_request n)" "unat (alloc_request n) < unat n + 32" "16 dvd unat (alloc_request n)"
    using b m by simp_all
qed

lemma alloc_exit_result [simp]: "fst (alloc_exit p r k) = r" "lwm (snd (alloc_exit p r k)) = reset_walks p (lwm k)"
  by (simp_all add: alloc_exit_def Let_def)

lemma alloc_exit_tasks [simp]: "same_tasks k (snd (alloc_exit p r k')) = same_tasks k k'"
  by (simp add: alloc_exit_def Let_def)

lemma pool_frame_simps [simp]: "pool_frame p M (reset_walks p M') = pool_frame p M M'" "pool_frame p M M"
  "pool_frame p (upd_lwpool p (\<lambda>r. r\<lparr>POOL_ALLOC_PTR := a\<rparr>) M) M' = pool_frame p M M'"
  "pool_frame p M (upd_lwpool p (\<lambda>r. r\<lparr>POOL_ALLOC_PTR := a\<rparr>) M') = pool_frame p M M'"
  "pool_frame p (upd_lwpool p (\<lambda>r. r\<lparr>POOL_FREE_PTR := a\<rparr>) M) M' = pool_frame p M M'"
  by (auto simp: pool_frame_def)

lemma walks_reset_reset [simp]: "walks_reset p (reset_walks p M)"
  by (simp add: walks_reset_def reset_walks_def Let_def)

lemma block_address: "lw_ok p (us @ (b, f) # vs) M \<Longrightarrow> b + 12 \<noteq> 0"
  using lw_ok_block [of p us b f vs M] tiles_next [of b 12] by auto

lemma lw_inv_valid: "lw_inv p xs M \<Longrightarrow> lwpool_valid p M"
  by (simp add: lw_inv_def lw_ok_def)

text \<open>The allocation once the block is found.\<close>

lemma take_fit_inv:
  assumes inv: "lw_inv p ys M" and pl: "place ys b prev" and b: "b \<noteq> 0" and req: "16 \<le> unat req" "req \<le> BLOCKSIZE (LWBLOCKS M b)"
  obtains us vs where "ys = us @ (b, True) # vs"
    and "lw_inv p (us @ cut_off (BLOCKSIZE (LWBLOCKS M b)) req b @ vs) (take_fit p req number zero b prev M)"
    and "others_same (us @ vs) M (take_fit p req number zero b prev M)"
    and "req \<le> BLOCKSIZE (LWBLOCKS (take_fit p req number zero b prev M) b)"
proof -
  obtain us vs where s: "ys = us @ (b, True) # vs" "free_of us \<noteq> [] \<Longrightarrow> prev = last (free_of us)" using place_split [OF pl b] by metis
  have ok: "lw_ok p (us @ (b, True) # vs) M" "apart (us @ (b, True) # vs)" using inv s by (auto simp: lw_inv_def)
  show thesis using that [OF s(1)] take_fit_ok [OF ok(1) req s(2)] apart_cut [OF ok(2)] by (simp add: lw_inv_def)
qed

lemma cut_off_block: "(b, False) \<in> set (cut_off sz req b)"
  by (simp add: cut_off_def)

lemma alloc_internal_steps:
  assumes "lwpool_valid p (lwm k)"
    and "walk_free W p (\<lambda>b d. BLOCKSIZE d \<ge> alloc_request n) (POOL_FREE_LIST_PTR (LWPOOLS (lwm k) p)) (POOL_FREE_LIST_PTR (LWPOOLS (lwm k) p)) (INT_DISABLE k) = Some (b, prev, k2)"
  shows "lwmem_alloc_internal W n td p zero k =
    Some (if b = 0 then alloc_exit p 0 k2
          else alloc_exit p (b + LWBLOCK_SIZE) (upd_lwmem (take_fit p (alloc_request n) (td_task_number td k2) zero b prev) k2))"
  using assms by (simp add: lwmem_alloc_internal_def Let_def)

text \<open>
  C11 (safety). Allocation from a well-formed pool, with considerate code of interrupt handlers and other tasks in the
  windows of the walk: code that leaves the pool alone, or leaves it well-formed with all walk pointers reset, as complete
  allocations do, but not calls that leave a walk pointer set (\<^verbatim>\<open>_lwmem_get_free\<close>, \<^verbatim>\<open>_lwmem_test\<close>, \<^verbatim>\<open>_lwmem_transfer\<close>,
  \<^verbatim>\<open>_lwmem_set_type\<close>). It returns, the pool is well-formed afterwards with its walk pointers reset, and an address that
  is not NULL is that of a block in use which is large enough for the request. The request must not overflow when
  the header is added and the size aligned.
\<close>
theorem lwmem_alloc_safe:
  assumes inv: "lw_inv p xs (lwm k)" and size: "unat requested_size + 27 < 2 ^ 32" and W: "list_all (considerate p H) W"
  shows "\<exists>a k' ys. lwmem_alloc_internal W requested_size td p zero k = Some (a, k') \<and> lw_inv p ys (lwm k') \<and> walks_reset p (lwm k') \<and>
    (a \<noteq> 0 \<longrightarrow> (GET_LWMEMBLOCK_PTR a, False) \<in> set ys \<and>
      unat requested_size + 12 \<le> unat (BLOCKSIZE (LWBLOCKS (lwm k') (GET_LWMEMBLOCK_PTR a))))"
proof -
  let ?req = "alloc_request requested_size" and ?hd = "POOL_FREE_LIST_PTR (LWPOOLS (lwm k) p)"
  note req = alloc_request_bounds [OF size]
  have "lw_inv p xs (lwm (INT_DISABLE k))" "place xs ?hd ?hd" using inv place_head [of p xs "lwm k"] by (auto simp: lw_inv_def)
  from walk_free_ok [OF this W, of "\<lambda>b d. BLOCKSIZE d \<ge> ?req"] obtain ys b prev k2 where
    w: "walk_free W p (\<lambda>b d. BLOCKSIZE d \<ge> ?req) ?hd ?hd (INT_DISABLE k) = Some (b, prev, k2)"
      "lw_inv p ys (lwm k2)" "place ys b prev" "b = 0 \<or> ?req \<le> BLOCKSIZE (LWBLOCKS (lwm k2) b)"
    by (auto simp: walk_end_def split: option.splits)
  note r = alloc_internal_steps [OF lw_inv_valid [OF inv] w(1), of td zero]
  show ?thesis
  proof (cases "b = 0")
    case True
    then have "lwmem_alloc_internal W requested_size td p zero k = Some (0, snd (alloc_exit p 0 k2))"
      using r by (simp add: prod_eq_iff)
    then show ?thesis using w(2) by (intro exI [of _ 0] exI [of _ "snd (alloc_exit p 0 k2)"] exI [of _ ys]) simp
  next
    case False
    let ?k = "upd_lwmem (take_fit p ?req (td_task_number td k2) zero b prev) k2"
    have fit: "?req \<le> BLOCKSIZE (LWBLOCKS (lwm k2) b)" using w(4) False by simp
    obtain us vs where t: "ys = us @ (b, True) # vs"
      "lw_inv p (us @ cut_off (BLOCKSIZE (LWBLOCKS (lwm k2) b)) ?req b @ vs) (lwm ?k)" "?req \<le> BLOCKSIZE (LWBLOCKS (lwm ?k) b)"
      by (rule take_fit_inv [OF w(2,3) False req(2) fit, of "td_task_number td k2" zero], rule that) simp_all
    have "lwmem_alloc_internal W requested_size td p zero k = Some (b + 12, snd (alloc_exit p (b + 12) ?k))"
      using r False by (simp add: prod_eq_iff)
    moreover have "unat requested_size + 12 \<le> unat (BLOCKSIZE (LWBLOCKS (lwm ?k) b))" using t(3) req(1) by (simp add: word_le_nat_alt)
    ultimately show ?thesis using t(2) cut_off_block
      by (intro exI [of _ "b + 12"] exI [of _ "snd (alloc_exit p (b + 12) ?k)"] exI [of _ "us @ cut_off (BLOCKSIZE (LWBLOCKS (lwm k2) b)) ?req b @ vs"])
        (simp add: GET_LWMEMBLOCK_PTR_def)
  qed
qed

lemma find_free:
  assumes "lw_ok p xs M"
  shows "links (LWBLOCKS M) (POOL_FREE_LIST_PTR (LWPOOLS M p)) (free_of xs) 0"
  using assms by (simp add: lw_ok_def)

lemma alloc_alone:
  fixes k requested_size
  defines "req \<equiv> alloc_request requested_size" and "M \<equiv> lwm k"
  assumes inv: "lw_inv p xs M" and size: "unat requested_size + 27 < 2 ^ 32"
  shows "\<exists>a k'. lwmem_alloc_internal [] requested_size td p zero k = Some (a, k') \<and> walks_reset p (lwm k') \<and> pool_frame p M (lwm k') \<and> same_tasks k k' \<and>
    (case List.find (\<lambda>b. req \<le> BLOCKSIZE (LWBLOCKS M b)) (free_of xs) of
       None \<Rightarrow> a = 0 \<and> LWBLOCKS (lwm k') = LWBLOCKS M \<and> lw_inv p xs (lwm k')
     | Some b \<Rightarrow> a = b + 12 \<and> (\<exists>us vs. xs = us @ (b, True) # vs \<and>
         lw_inv p (us @ cut_off (BLOCKSIZE (LWBLOCKS M b)) req b @ vs) (lwm k') \<and> others_same (us @ vs) M (lwm k') \<and>
         req \<le> BLOCKSIZE (LWBLOCKS (lwm k') b) \<and> blk_task_number (LWBLOCKS (lwm k') b) = td_task_number td k))"
proof -
  let ?hd = "POOL_FREE_LIST_PTR (LWPOOLS M p)" and ?find = "List.find (\<lambda>b. req \<le> BLOCKSIZE (LWBLOCKS M b)) (free_of xs)"
  note req = alloc_request_bounds [OF size, folded req_def]
  have ok: "lw_ok p xs (lwm (INT_DISABLE k))" using inv by (simp add: lw_inv_def M_def)
  obtain b prev a k2 where w: "walk_free [] p (\<lambda>b d. BLOCKSIZE d \<ge> req) ?hd ?hd (INT_DISABLE k) = Some (b, prev, k2)"
      "b = (case ?find of None \<Rightarrow> 0 | Some g \<Rightarrow> g)" "place xs b prev"
      "lwm k2 = upd_lwpool p (\<lambda>r. r\<lparr>POOL_ALLOC_PTR := a\<rparr>) M" "same_tasks k k2"
    using walk_alone [OF ok place_head [OF ok, of ?hd] find_free [OF ok], of "\<lambda>b d. BLOCKSIZE d \<ge> req", unfolded lw_int_simps same_tasks_simps, folded M_def]
    by (elim exE conjE) (rule that)
  have inv2: "lw_inv p xs (lwm k2)" and number: "td_task_number td k2 = td_task_number td k"
    using inv w(4,5) by (simp_all add: same_tasks_number)
  note r = alloc_internal_steps [OF lw_inv_valid [OF inv [unfolded M_def]] w(1) [unfolded M_def req_def], of td zero, folded M_def req_def]
  show ?thesis
  proof (cases ?find)
    case None
    then have "lwmem_alloc_internal [] requested_size td p zero k = Some (0, snd (alloc_exit p 0 k2))" using r w(2) by (simp add: prod_eq_iff)
    then show ?thesis using None inv2 w(4,5) by (intro exI [of _ 0] exI [of _ "snd (alloc_exit p 0 k2)"]) simp
  next
    case (Some g)
    then have f: "g \<in> set (free_of xs)" "req \<le> BLOCKSIZE (LWBLOCKS M g)" by (auto simp: find_Some_iff)
    have g: "b = g" "req \<le> BLOCKSIZE (LWBLOCKS (lwm k2) b)" "b \<noteq> 0"
      using w(2,4) Some f links_nonzero [OF find_free [OF ok]] by auto
    let ?k = "upd_lwmem (take_fit p req (td_task_number td k2) zero b prev) k2"
    obtain us vs where t: "xs = us @ (b, True) # vs" "lw_inv p (us @ cut_off (BLOCKSIZE (LWBLOCKS M b)) req b @ vs) (lwm ?k)"
      "others_same (us @ vs) M (lwm ?k)" "req \<le> BLOCKSIZE (LWBLOCKS (lwm ?k) b)"
      by (rule take_fit_inv [OF inv2 w(3) g(3) req(2) g(2), of "td_task_number td k2" zero], rule that)
        (simp_all add: w(4) others_same_def)
    have "td_task_number td k AND 0xFFFF = td_task_number td k"
      unfolding td_task_number_def TASK_NUMBER_FROM_TASKID_def by (simp add: and.assoc)
    then have "blk_task_number (LWBLOCKS (lwm ?k) b) = td_task_number td k" by (simp add: take_fit_owner number)
    moreover have "lwmem_alloc_internal [] requested_size td p zero k = Some (b + 12, snd (alloc_exit p (b + 12) ?k))"
      using r g by (simp add: prod_eq_iff)
    moreover have "pool_frame p M (lwm ?k)" using take_fit_pool(1) [of p "lwm k2"] w(4) by simp
    ultimately show ?thesis unfolding Some option.case g(1) [symmetric]
      by (intro exI [of _ "b + 12"] exI [of _ "snd (alloc_exit p (b + 12) ?k)"] exI [of _ us] exI [of _ vs] conjI)
        (use t w(5) in \<open>simp_all add: others_same_def del: lw_upd_simps(9)\<close>)
  qed
qed

text \<open>
  C13 (functional). With no interference an allocation is first fit: it takes the first free block, in the order of
  the addresses, that is large enough for the header and the request, leaves the rest of it as a free
  block if this is large enough, marks the block with the number of the task, and leaves all other blocks alone. If no
  free block is large enough it returns NULL and leaves all headers alone.
\<close>
theorem lwmem_alloc_first_fit:
  assumes "lw_inv (KERNEL_LWMEM_POOL (lwm k)) xs (lwm k)" and "unat requested_size + 27 < 2 ^ 32"
  shows "\<exists>a k'. lwmem_alloc [] requested_size k = Some (a, k') \<and> walks_reset (KERNEL_LWMEM_POOL (lwm k)) (lwm k') \<and>
    (case List.find (\<lambda>b. alloc_request requested_size \<le> BLOCKSIZE (LWBLOCKS (lwm k) b)) (free_of xs) of
       None \<Rightarrow> a = 0 \<and> LWBLOCKS (lwm k') = LWBLOCKS (lwm k) \<and> lw_inv (KERNEL_LWMEM_POOL (lwm k)) xs (lwm k')
     | Some b \<Rightarrow> a = b + 12 \<and> (\<exists>us vs. xs = us @ (b, True) # vs \<and>
         lw_inv (KERNEL_LWMEM_POOL (lwm k)) (us @ cut_off (BLOCKSIZE (LWBLOCKS (lwm k) b)) (alloc_request requested_size) b @ vs) (lwm k') \<and>
         others_same (us @ vs) (lwm k) (lwm k') \<and> alloc_request requested_size \<le> BLOCKSIZE (LWBLOCKS (lwm k') b) \<and>
         blk_task_number (LWBLOCKS (lwm k') b) = td_task_number (ACTIVE_PTR k) k))"
  using alloc_alone [OF assms, of "ACTIVE_PTR k" False] unfolding lwmem_alloc_def by blast

text \<open>An interrupt handler that allocates is considerate.\<close>

lemma others_same_used:
  assumes "others_same xs M M'" and "(b, False) \<in> set xs"
  shows "LWBLOCKS M' b = LWBLOCKS M b"
  using assms by (auto simp: others_same_def intro!: lwblock.equality)

lemma alloc_considerate:
  assumes "unat n + 27 < 2 ^ 32"
  shows "considerate p H (\<lambda>k. snd (the (lwmem_alloc_internal [] n td p zero k)))"
  unfolding considerate_def
proof (intro allI impI disjI2)
  fix k xs assume inv: "lw_inv p xs (lwm k)"
  obtain a k' where r: "lwmem_alloc_internal [] n td p zero k = Some (a, k')" "walks_reset p (lwm k')"
    and c: "case List.find (\<lambda>b. alloc_request n \<le> BLOCKSIZE (LWBLOCKS (lwm k) b)) (free_of xs) of
       None \<Rightarrow> a = 0 \<and> LWBLOCKS (lwm k') = LWBLOCKS (lwm k) \<and> lw_inv p xs (lwm k')
     | Some b \<Rightarrow> a = b + 12 \<and> (\<exists>us vs. xs = us @ (b, True) # vs \<and>
         lw_inv p (us @ cut_off (BLOCKSIZE (LWBLOCKS (lwm k) b)) (alloc_request n) b @ vs) (lwm k') \<and> others_same (us @ vs) (lwm k) (lwm k') \<and>
         alloc_request n \<le> BLOCKSIZE (LWBLOCKS (lwm k') b) \<and> blk_task_number (LWBLOCKS (lwm k') b) = td_task_number td k)"
    using alloc_alone [OF inv assms, of td zero] by (elim exE conjE) (rule that)
  have "\<exists>ys. lw_inv p ys (lwm k') \<and> keeps_used H xs (lwm k) ys (lwm k')"
  proof (cases "List.find (\<lambda>b. alloc_request n \<le> BLOCKSIZE (LWBLOCKS (lwm k) b)) (free_of xs)")
    case None
    then show ?thesis using c by (intro exI [of _ xs]) (simp add: keeps_used_def)
  next
    case (Some b)
    then obtain us vs where u: "xs = us @ (b, True) # vs" "others_same (us @ vs) (lwm k) (lwm k')"
      "lw_inv p (us @ cut_off (BLOCKSIZE (LWBLOCKS (lwm k) b)) (alloc_request n) b @ vs) (lwm k')" using c by auto
    have "keeps_used H xs (lwm k) (us @ cut_off (BLOCKSIZE (LWBLOCKS (lwm k) b)) (alloc_request n) b @ vs) (lwm k')"
      using others_same_used [OF u(2)] u(1) by (auto simp: keeps_used_def)
    then show ?thesis using u(3) by blast
  qed
  then show "\<exists>ys. lw_inv p ys (lwm (snd (the (lwmem_alloc_internal [] n td p zero k)))) \<and>
      walks_reset p (lwm (snd (the (lwmem_alloc_internal [] n td p zero k)))) \<and>
      keeps_used H xs (lwm k) ys (lwm (snd (the (lwmem_alloc_internal [] n td p zero k))))"
    using r by simp
qed

subsection \<open>Release\<close>

text \<open>The place of a block in use: the last free block in front of it, or the front of the list.\<close>

definition place_of :: "blocks_of \<Rightarrow> ptr \<Rightarrow> ptr option \<Rightarrow> bool" where
  "place_of xs b pl \<longleftrightarrow> (\<exists>us vs. xs = us @ (b, False) # vs \<and>
     (case pl of None \<Rightarrow> free_of us = [] | Some f \<Rightarrow> free_of us \<noteq> [] \<and> f = last (free_of us)))"

text \<open>Where the search for the place can be: at the head, or at a free block in front of the block.\<close>

definition before :: "ptr \<Rightarrow> blocks_of \<Rightarrow> ptr \<Rightarrow> lwmem \<Rightarrow> ptr \<Rightarrow> bool" where
  "before p xs b M f \<longleftrightarrow> f = POOL_FREE_LIST_PTR (LWPOOLS M p) \<or> f \<in> set (free_of xs) \<and> f < b"

lemma free_side:
  assumes ok: "lw_ok p (us @ (b, False) # vs) M" and f: "f \<in> set (free_of (us @ (b, False) # vs))"
  shows "f \<noteq> b" and "f < b \<longleftrightarrow> f \<in> set (free_of us)"
proof -
  have f2: "f \<in> set (free_of us) \<or> f \<in> set (free_of vs)" using f by simp
  have u: "f \<in> set (free_of us) \<Longrightarrow> unat f < unat b" using lower_blocks(2) [OF ok] free_of_in by blast
  have v: "f \<in> set (free_of vs) \<Longrightarrow> unat b < unat f" using upper_blocks [OF ok] free_of_in lw_ok_block(2) [OF ok] by fastforce
  show "f \<noteq> b" "f < b \<longleftrightarrow> f \<in> set (free_of us)" using f2 u v by (auto simp: word_less_nat_alt)
qed

lemma head_free: "lw_ok p xs M \<Longrightarrow> POOL_FREE_LIST_PTR (LWPOOLS M p) = hd0 (free_of xs) 0"
  by (auto simp: lw_ok_def dest: links_hd0)

lemma front_place:
  assumes ok: "lw_ok p xs M" and b: "(b, False) \<in> set xs" and front: "POOL_FREE_LIST_PTR (LWPOOLS M p) = 0 \<or> b < POOL_FREE_LIST_PTR (LWPOOLS M p)"
  shows "place_of xs b None"
proof -
  obtain us vs where xs: "xs = us @ (b, False) # vs" using b by (meson split_list)
  have "free_of us = []"
  proof (rule ccontr)
    assume n: "free_of us \<noteq> []"
    then have h: "POOL_FREE_LIST_PTR (LWPOOLS M p) = hd (free_of us)" "hd (free_of us) \<in> set (free_of us)"
      using head_free [OF ok] xs by (cases "free_of us"; simp)+
    moreover have "hd (free_of us) \<noteq> 0" using links_nonzero [OF find_free [OF ok]] h(2) xs by (metis Un_iff free_of_simps(3) set_append)
    ultimately show False using front free_side(2) [OF ok [unfolded xs], of "hd (free_of us)"] by auto
  qed
  then show ?thesis using xs by (auto simp: place_of_def)
qed

lemma free_succ:
  assumes ok: "lw_ok p (us @ (f, True) # vs) M"
  shows "UWORD (LWBLOCKS M f) = 0 \<and> free_of vs = [] \<or> UWORD (LWBLOCKS M f) \<in> set (free_of vs) \<and> UWORD (LWBLOCKS M f) = hd (free_of vs)"
  using lw_ok_links(2) [OF ok] by (cases "free_of vs") auto

lemma behind_place:
  assumes ok: "lw_ok p xs M" and b: "(b, False) \<in> set xs" and f: "f \<in> set (free_of xs)" "f < b"
  shows "b < UWORD (LWBLOCKS M f) \<or> UWORD (LWBLOCKS M f) = 0 \<Longrightarrow> place_of xs b (Some f)"
    and "\<not> b < UWORD (LWBLOCKS M f) \<Longrightarrow> UWORD (LWBLOCKS M f) \<noteq> 0 \<Longrightarrow> UWORD (LWBLOCKS M f) \<in> set (free_of xs) \<and> UWORD (LWBLOCKS M f) < b"
proof -
  obtain us vs where xs: "xs = us @ (b, False) # vs" using b by (meson split_list)
  note side = free_side [OF ok [unfolded xs], folded xs]
  have "f \<in> set (free_of us)" using side(2) [OF f(1)] f(2) by simp
  then obtain us1 us2 where us: "us = us1 @ (f, True) # us2" by (auto simp: free_of_def dest!: split_list)
  let ?n = "UWORD (LWBLOCKS M f)" and ?vs = "us2 @ (b, False) # vs"
  have succ: "?n = 0 \<and> free_of ?vs = [] \<or> ?n \<in> set (free_of ?vs) \<and> ?n = hd (free_of ?vs)" using free_succ [of p us1 f ?vs M] ok xs us by simp
  have in_xs: "?n \<noteq> 0 \<Longrightarrow> ?n \<in> set (free_of xs)" using succ xs us by auto
  show "place_of xs b (Some f)" if n: "b < ?n \<or> ?n = 0"
  proof -
    have "free_of us2 = []"
    proof (rule ccontr)
      assume a: "free_of us2 \<noteq> []"
      then have "?n \<in> set (free_of us)" "?n \<noteq> 0" using succ us links_nonzero [OF find_free [OF ok]] xs by (auto simp: hd_append)
      then show False using n side(2) [OF in_xs] by auto
    qed
    then show ?thesis unfolding place_of_def using xs us by (intro exI [of _ us] exI [of _ vs]) simp
  qed
  show "?n \<in> set (free_of xs) \<and> ?n < b" if "\<not> b < ?n" "?n \<noteq> 0" using in_xs side(1) [OF in_xs] that by auto
qed

lemma before_head: "before p xs b M (POOL_FREE_LIST_PTR (LWPOOLS M p))"
  by (simp add: before_def)

text \<open>One round of the search: it ends at the place, or the next block is also in front.\<close>

lemma find_place_round:
  assumes ok: "lw_ok p xs (lwm k)" and b: "(b, False) \<in> set xs" and f: "before p xs b (lwm k) f"
  obtains (front) "find_place W p b f k = Some (None, k)" and "place_of xs b None"
  | (found) "find_place W p b f k = Some (Some f, k)" and "place_of xs b (Some f)"
  | (on) n k1 where "n = UWORD (LWBLOCKS (lwm k) f)" "k1 = window W (upd_lwmem (upd_lwpool p (\<lambda>r. r\<lparr>POOL_FREE_PTR := n\<rparr>)) k)"
      "n \<in> set (free_of xs)" "n < b" "f \<in> set (free_of xs)"
      "find_place W p b f k = find_place (tl W) p b (if n \<noteq> POOL_FREE_PTR (LWPOOLS (lwm k1) p) then POOL_FREE_LIST_PTR (LWPOOLS (lwm k1) p) else n) k1"
proof -
  let ?h = "POOL_FREE_LIST_PTR (LWPOOLS (lwm k) p)" and ?n = "UWORD (LWBLOCKS (lwm k) f)"
  show thesis
  proof (cases "?h = 0 \<or> b < ?h")
    case True
    then have "find_place W p b f k = Some (None, k)" by (subst find_place.simps) (simp add: Let_def)
    then show thesis using front front_place [OF ok b True] by simp
  next
    case False
    obtain us vs where xs: "xs = us @ (b, False) # vs" using b by (meson split_list)
    have hf: "?h \<in> set (free_of xs)" using head_free [OF ok] False by (cases "free_of xs") auto
    then have "?h < b" using free_side(1) [OF ok [unfolded xs], of ?h] False xs by auto
    then have ff: "f \<in> set (free_of xs)" "f < b" using f hf by (auto simp: before_def)
    note bp = behind_place [OF ok b ff]
    show thesis
    proof (cases "b < ?n \<or> ?n = 0")
      case True
      then have "find_place W p b f k = Some (Some f, k)" using False by (subst find_place.simps) (simp add: Let_def)
      then show thesis using found bp(1) [OF True] by simp
    next
      case n: False
      let ?k1 = "window W (upd_lwmem (upd_lwpool p (\<lambda>r. r\<lparr>POOL_FREE_PTR := ?n\<rparr>)) k)"
      have "find_place W p b f k =
        find_place (tl W) p b (if ?n \<noteq> POOL_FREE_PTR (LWPOOLS (lwm ?k1) p) then POOL_FREE_LIST_PTR (LWPOOLS (lwm ?k1) p) else ?n) ?k1"
        using n False by (subst find_place.simps) (simp add: Let_def)
      then show thesis using on [OF refl refl _ _ ff(1)] bp(2) n by auto
    qed
  qed
qed

lemma find_place_alone:
  assumes "lw_ok p xs (lwm k)" and "(b, False) \<in> set xs" and "before p xs b (lwm k) f" and "links (LWBLOCKS (lwm k)) f fs 0"
  shows "\<exists>pl a k2. find_place [] p b f k = Some (pl, k2) \<and> place_of xs b pl \<and> lwm k2 = upd_lwpool p (\<lambda>r. r\<lparr>POOL_FREE_PTR := a\<rparr>) (lwm k) \<and>
    same_tasks k k2"
  using assms
proof (induction fs arbitrary: f k)
  case Nil
  have e: "upd_lwpool p (\<lambda>r. r\<lparr>POOL_FREE_PTR := POOL_FREE_PTR (LWPOOLS (lwm k) p)\<rparr>) (lwm k) = lwm k" by (rule lwmem_eqI) auto
  have "f = 0" using Nil.prems by simp
  then show ?case using find_place_round [OF Nil.prems(1-3), of "[]"] links_nonzero [OF find_free [OF Nil.prems(1)]] e same_tasks_refl by metis
next
  case (Cons g fs)
  have e: "upd_lwpool p (\<lambda>r. r\<lparr>POOL_FREE_PTR := POOL_FREE_PTR (LWPOOLS (lwm k) p)\<rparr>) (lwm k) = lwm k" by (rule lwmem_eqI) auto
  show ?case
  proof (cases rule: find_place_round [OF Cons.prems(1-3), of "[]"])
    case (3 n k1)
    have m: "lwm k1 = upd_lwpool p (\<lambda>r. r\<lparr>POOL_FREE_PTR := n\<rparr>) (lwm k)" using 3(2) by simp
    have p: "lw_ok p xs (lwm k1)" "before p xs b (lwm k1) n" "links (LWBLOCKS (lwm k1)) n fs 0"
      using Cons.prems m 3 by (auto simp: before_def)
    have s: "find_place [] p b f k = find_place [] p b n k1" using 3(6) m by simp
    obtain pl a k2 where r: "find_place [] p b n k1 = Some (pl, k2)" "place_of xs b pl" "lwm k2 = upd_lwpool p (\<lambda>r. r\<lparr>POOL_FREE_PTR := a\<rparr>) (lwm k1)" "same_tasks k1 k2"
      using Cons.IH [OF p(1) Cons.prems(2) p(2,3)] by (elim exE conjE) (rule that)
    have "lwm k2 = upd_lwpool p (\<lambda>r. r\<lparr>POOL_FREE_PTR := a\<rparr>) (lwm k)" unfolding r(3) m by (rule lwmem_eqI) auto
    moreover have "same_tasks k k2" using r(4) 3(2) by simp
    ultimately show ?thesis using r(1,2) s by auto
  qed (use e same_tasks_refl in metis)+
qed

definition place_end :: "ptr \<Rightarrow> ptr \<Rightarrow> lwblock \<Rightarrow> blocks_of \<Rightarrow> (ptr option \<times> kernel) option \<Rightarrow> bool" where
  "place_end p b d ys r \<longleftrightarrow>
     (case r of None \<Rightarrow> False | Some (pl, k) \<Rightarrow> lw_inv p ys (lwm k) \<and> place_of ys b pl \<and> LWBLOCKS (lwm k) b = d)"

lemma find_place_ok:
  assumes "lw_inv p xs (lwm k)" and "(b, False) \<in> set xs" and "before p xs b (lwm k) f" and "list_all (considerate p {b}) W"
  shows "\<exists>ys. place_end p b (LWBLOCKS (lwm k) b) ys (find_place W p b f k)"
  using assms
proof (induction W arbitrary: xs f k)
  case Nil
  then have ok: "lw_ok p xs (lwm k)" by (simp add: lw_inv_def)
  have "\<exists>fs. links (LWBLOCKS (lwm k)) f fs 0"
  proof (cases "f = POOL_FREE_LIST_PTR (LWPOOLS (lwm k) p)")
    case True
    then show ?thesis using find_free [OF ok] by blast
  next
    case False
    then obtain us vs where "xs = us @ (f, True) # vs" using Nil.prems(3) by (auto simp: before_def free_of_def dest!: split_list)
    then show ?thesis using ok by (auto simp: lw_ok_def links_append intro: exI [of _ "f # free_of vs"])
  qed
  then obtain fs where fs: "links (LWBLOCKS (lwm k)) f fs 0" by blast
  obtain pl a k2 where "find_place [] p b f k = Some (pl, k2)" "place_of xs b pl" "lwm k2 = upd_lwpool p (\<lambda>r. r\<lparr>POOL_FREE_PTR := a\<rparr>) (lwm k)"
    using find_place_alone [OF ok Nil.prems(2,3) fs] by (elim exE conjE) (rule that)
  then show ?case using Nil.prems(1) by (intro exI [of _ xs]) (simp add: place_end_def)
next
  case (Cons w W)
  have ok: "lw_ok p xs (lwm k)" using Cons.prems(1) by (simp add: lw_inv_def)
  show ?case
  proof (cases rule: find_place_round [OF ok Cons.prems(2,3), of "w # W"])
    case (3 n k1)
    let ?k0 = "upd_lwmem (upd_lwpool p (\<lambda>r. r\<lparr>POOL_FREE_PTR := n\<rparr>)) k"
    let ?r = "LWPOOLS (lwm k1) p"
    define g where "g = (if n \<noteq> POOL_FREE_PTR ?r then POOL_FREE_LIST_PTR ?r else n)"
    have inv0: "lw_inv p xs (lwm ?k0)" using Cons.prems(1) by simp
    have w: "considerate p {b} w" "list_all (considerate p {b}) W" using Cons.prems(4) by auto
    have "\<exists>ys. lw_inv p ys (lwm k1) \<and> (b, False) \<in> set ys \<and> before p ys b (lwm k1) g \<and> LWBLOCKS (lwm k1) b = LWBLOCKS (lwm k) b"
    proof (cases rule: window_cases [OF inv0 w(1), of W, folded 3(2)])
      case 1
      then have "POOL_FREE_PTR ?r = n" "LWBLOCKS (lwm k1) b = LWBLOCKS (lwm k) b" using Cons.prems(2) by (auto simp: untouched_def)
      then show ?thesis using 1(1) Cons.prems(2) 3(3,4) by (intro exI [of _ xs]) (simp add: before_def g_def)
    next
      case (2 ys)
      then have "g = POOL_FREE_LIST_PTR ?r" by (auto simp: walks_reset_def Let_def g_def)
      then show ?thesis using 2 Cons.prems(2) by (intro exI [of _ ys]) (simp add: before_def keeps_used_def)
    qed
    then obtain ys where ys: "lw_inv p ys (lwm k1)" "(b, False) \<in> set ys" "before p ys b (lwm k1) g" "LWBLOCKS (lwm k1) b = LWBLOCKS (lwm k) b" by blast
    have "find_place (w # W) p b f k = find_place W p b g k1" using 3(6) by (simp add: g_def)
    then show ?thesis using Cons.IH [OF ys(1-3) w(2)] ys(4) by simp
  qed (use Cons.prems(1) in \<open>auto simp: place_end_def\<close>)
qed

lemma insert_front_others: "c \<noteq> b \<Longrightarrow> c \<noteq> POOL_FREE_LIST_PTR (LWPOOLS M p) \<Longrightarrow> LWBLOCKS (insert_front p b M) c = LWBLOCKS M c"
  by (simp add: insert_front_def Let_def zero_lwblock_def)

lemma insert_behind_others: "c \<noteq> b \<Longrightarrow> c \<noteq> f \<Longrightarrow> c \<noteq> UWORD (LWBLOCKS M f) \<Longrightarrow> LWBLOCKS (insert_behind f b M) c = LWBLOCKS M c"
  by (simp add: insert_behind_def Let_def zero_lwblock_def)

lemma apart_release: "apart (us @ (b, False) # vs) \<Longrightarrow> apart (add_free us b @ drop_free vs)"
  by (cases us rule: rev_cases; cases vs) (auto simp: add_free_def drop_free_def apart_append apart_Cons split: if_splits)

definition release :: "ptr \<Rightarrow> ptr \<Rightarrow> ptr option \<Rightarrow> lwmem \<Rightarrow> lwmem" where
  "release p b pl = (case pl of None \<Rightarrow> insert_front p b | Some f \<Rightarrow> insert_behind f b)"

lemma release_pool: "pool_frame p M (release p b pl M)"
  by (auto simp: release_def insert_front_def insert_behind_def zero_lwblock_def pool_frame_def Let_def split: option.split)

lemma release_layout:
  assumes ok: "lw_ok p (us @ (b, False) # vs) M"
    and pl: "case pl of None \<Rightarrow> free_of us = [] | Some f \<Rightarrow> free_of us \<noteq> [] \<and> f = last (free_of us)"
  shows "lw_ok p (add_free us b @ drop_free vs) (release p b pl M)"
proof (cases pl)
  case None
  then have f: "free_of us = []" using pl by simp
  have "POOL_FREE_LIST_PTR (LWPOOLS M p) \<noteq> b"
    using head_free [OF ok] f lw_ok_block(1) [OF ok] free_side(1) [OF ok, of "hd (free_of vs)"] by (cases "free_of vs") auto
  then have "release p b pl M = join_next b (link_front p b M)" using None insert_front_steps [of b M p] by (simp add: release_def)
  moreover have "add_free us b = us @ [(b, True)]" using f by (cases us rule: rev_cases) (auto simp: add_free_def split: if_splits)
  ultimately show ?thesis using join_next_ok [OF link_front_ok [OF ok f]] by simp
next
  case (Some f)
  then have f: "free_of us \<noteq> []" "f = last (free_of us)" using pl by auto
  then have fu: "f \<in> set (free_of us)" by simp
  obtain us1 us2 where us: "us = us1 @ (f, True) # us2" using fu by (auto simp: free_of_def dest!: split_list)
  have ok2: "lw_ok p (us1 @ (f, True) # us2 @ (b, False) # vs) M" using ok us by simp
  have "f \<noteq> b" using free_side(1) [OF ok, of f] fu by simp
  moreover have "UWORD (LWBLOCKS M f) \<noteq> f \<and> UWORD (LWBLOCKS M f) \<noteq> b"
  proof (cases "UWORD (LWBLOCKS M f) = 0")
    case False
    then have n: "UWORD (LWBLOCKS M f) \<in> set (free_of (us2 @ (b, False) # vs))" using free_succ [OF ok2] by auto
    have "unat f < unat (UWORD (LWBLOCKS M f))" using upper_blocks [OF ok2 free_of_in [OF n]] lw_ok_block(2) [OF ok2] by simp
    then show ?thesis using free_side(1) [OF ok, of "UWORD (LWBLOCKS M f)"] n us by auto
  qed (use lw_ok_block(1) [OF ok] lw_ok_block(1) [OF ok2] in auto)
  ultimately have "release p b pl M = join_prev f b (join_next b (link_behind f b M))"
    using Some insert_behind_steps [of f b M] by (simp add: release_def)
  then show ?thesis using join_prev_ok [OF join_next_ok [OF link_behind_ok [OF ok f]] f] by simp
qed

lemma release_others:
  assumes ok: "lw_ok p (us @ (b, False) # vs) M"
    and pl: "case pl of None \<Rightarrow> free_of us = [] | Some f \<Rightarrow> free_of us \<noteq> [] \<and> f = last (free_of us)"
    and c: "(c, False) \<in> set (us @ vs)"
  shows "LWBLOCKS (release p b pl M) c = LWBLOCKS M c"
proof -
  have b: "c \<noteq> b" using others_apart [OF ok, of 0 c] lw_ok_block(2) [OF ok] c by force
  have free: "c \<notin> set (free_of (us @ (b, False) # vs))" using used_not_free [OF ok, of "(c, False)"] c by auto
  have "(c, False) \<in> set (us @ (b, False) # vs)" using c by auto
  then obtain as bs where s: "us @ (b, False) # vs = as @ (c, False) # bs" by (meson split_list)
  have c0: "c \<noteq> 0" using lw_ok_block(1) [OF ok [unfolded s]] .
  show ?thesis
  proof (cases pl)
    case None
    have "c \<noteq> POOL_FREE_LIST_PTR (LWPOOLS M p)" using head_free [OF ok] free c0 by (cases "free_of us"; cases "free_of vs") auto
    then show ?thesis using None insert_front_others [OF b] by (simp add: release_def)
  next
    case (Some f)
    then have fu: "f \<in> set (free_of us)" using pl by auto
    obtain us1 us2 where us: "us = us1 @ (f, True) # us2" using fu by (auto simp: free_of_def dest!: split_list)
    have "UWORD (LWBLOCKS M f) \<noteq> c" using free_succ [of p us1 f "us2 @ (b, False) # vs" M] ok us free c0 by auto
    moreover have "c \<noteq> f" using fu free by auto
    ultimately show ?thesis using Some insert_behind_others [OF b, of f] by (auto simp: release_def)
  qed
qed

lemma lwmem_free_steps:
  assumes "mem_ptr \<noteq> 0" and "lwpool_valid p (lwm k)" and "BPOOL (LWBLOCKS (lwm k) b) = p" and "mem_ptr = b + 12"
    and "blk_task_number (LWBLOCKS (lwm k) b) = td_task_number (ACTIVE_PTR k) k \<or> blk_task_number (LWBLOCKS (lwm k) b) = SYSTEM_TASK_NUMBER"
    and "find_place W p b (POOL_FREE_LIST_PTR (LWPOOLS (lwm k) p)) (INT_DISABLE k) = Some (pl, k2)"
  shows "lwmem_free W mem_ptr k = Some (MQX_OK, INT_ENABLE (upd_lwmem (reset_walks p) (upd_lwmem (release p b pl) k2)))"
  using assms by (auto simp: lwmem_free_def Let_def GET_LWMEMBLOCK_PTR_def release_def)

lemma lw_inv_split:
  assumes "lw_inv p xs M" and "(b, f) \<in> set xs"
  obtains us vs where "xs = us @ (b, f) # vs" and "lw_ok p (us @ (b, f) # vs) M"
  using assms by (metis lw_inv_def split_list)

lemma lw_ok_distinct: "lw_ok p xs M \<Longrightarrow> distinct (map fst xs)"
  unfolding lw_ok_def by (elim conjE) (rule tiles_distinct)

lemma place_of_case:
  assumes ok: "lw_ok p (us @ (b, False) # vs) M" and pl: "place_of (us @ (b, False) # vs) b pl"
  shows "case pl of None \<Rightarrow> free_of us = [] | Some f \<Rightarrow> free_of us \<noteq> [] \<and> f = last (free_of us)"
proof -
  have d: "distinct (map fst (us @ (b, False) # vs))" by (rule lw_ok_distinct [OF ok])
  then have "(b, False) \<notin> set us" "(b, False) \<notin> set vs" by force+
  then show ?thesis using pl by (auto simp: place_of_def append_Cons_eq_iff)
qed

lemma free_alone:
  assumes inv: "lw_inv p (us @ (b, False) # vs) (lwm k)"
    and owner: "blk_task_number (LWBLOCKS (lwm k) b) = td_task_number (ACTIVE_PTR k) k \<or> blk_task_number (LWBLOCKS (lwm k) b) = SYSTEM_TASK_NUMBER"
  shows "\<exists>k'. lwmem_free [] (b + 12) k = Some (MQX_OK, k') \<and> walks_reset p (lwm k') \<and> pool_frame p (lwm k) (lwm k') \<and> same_tasks k k' \<and> lw_inv p (add_free us b @ drop_free vs) (lwm k') \<and>
    (\<forall>c. (c, False) \<in> set (us @ vs) \<longrightarrow> LWBLOCKS (lwm k') c = LWBLOCKS (lwm k) c)"
proof -
  let ?xs = "us @ (b, False) # vs" and ?hd = "POOL_FREE_LIST_PTR (LWPOOLS (lwm k) p)"
  have ok: "lw_ok p ?xs (lwm (INT_DISABLE k))" and ap: "apart ?xs" using inv by (simp_all add: lw_inv_def)
  have h: "before p ?xs b (lwm (INT_DISABLE k)) ?hd" "(b, False) \<in> set ?xs" by (simp_all add: before_def)
  have l: "links (LWBLOCKS (lwm (INT_DISABLE k))) ?hd (free_of ?xs) 0" using find_free [OF ok] by (simp only: lw_int_simps)
  obtain pl a k2 where r: "find_place [] p b ?hd (INT_DISABLE k) = Some (pl, k2)" "place_of ?xs b pl"
      "lwm k2 = upd_lwpool p (\<lambda>r. r\<lparr>POOL_FREE_PTR := a\<rparr>) (lwm (INT_DISABLE k))" "same_tasks (INT_DISABLE k) k2"
    using find_place_alone [OF ok h(2,1) l] by (elim exE conjE) (rule that)
  have ok2: "lw_ok p ?xs (lwm k2)" using ok r(3) by simp
  note pl = place_of_case [OF ok r(2)]
  let ?k = "INT_ENABLE (upd_lwmem (reset_walks p) (upd_lwmem (release p b pl) k2))"
  have "lwmem_free [] (b + 12) k = Some (MQX_OK, ?k)"
    using lwmem_free_steps [OF block_address [OF ok] _ _ refl owner r(1)] lw_ok_block(4) [OF ok] inv by (simp add: lw_inv_valid)
  moreover have "lw_inv p (add_free us b @ drop_free vs) (lwm ?k)"
    using release_layout [OF ok2 pl] apart_release [OF ap] by (simp add: lw_inv_def)
  moreover have "LWBLOCKS (lwm ?k) c = LWBLOCKS (lwm k) c" if "(c, False) \<in> set (us @ vs)" for c
    using release_others [OF ok2 pl that] r(3) by simp
  moreover have "pool_frame p (lwm k) (lwm ?k)" using release_pool [of p "lwm k2" b pl] r(3) by simp
  ultimately show ?thesis using r(4) by (intro exI [of _ ?k]) simp
qed

text \<open>
  C12 (safety). Release of a block in use by its owner, or of a block of the system, with considerate code in the windows of
  the search: code that leaves the pool alone, or leaves it well-formed with all walk pointers reset and this block in
  use, but not calls that leave a walk pointer set (\<^verbatim>\<open>_lwmem_get_free\<close>, \<^verbatim>\<open>_lwmem_test\<close>, \<^verbatim>\<open>_lwmem_transfer\<close>, \<^verbatim>\<open>_lwmem_set_type\<close>).
  It returns MQX_OK, the block is free and joined with the free blocks at its sides, and the pool is well-formed with
  its walk pointers reset.
\<close>
theorem lwmem_free_safe:
  assumes inv: "lw_inv p xs (lwm k)" and b: "(b, False) \<in> set xs" and W: "list_all (considerate p {b}) W"
    and owner: "blk_task_number (LWBLOCKS (lwm k) b) = td_task_number (ACTIVE_PTR k) k \<or> blk_task_number (LWBLOCKS (lwm k) b) = SYSTEM_TASK_NUMBER"
  shows "\<exists>k' us vs. lwmem_free W (b + 12) k = Some (MQX_OK, k') \<and> walks_reset p (lwm k') \<and>
    apart (us @ (b, False) # vs) \<and> lw_inv p (add_free us b @ drop_free vs) (lwm k')"
proof -
  let ?hd = "POOL_FREE_LIST_PTR (LWPOOLS (lwm k) p)"
  obtain as bs where as: "lw_ok p (as @ (b, False) # bs) (lwm k)" by (rule lw_inv_split [OF inv b])
  have h: "before p xs b (lwm (INT_DISABLE k)) ?hd" "lw_inv p xs (lwm (INT_DISABLE k))" using inv by (simp_all add: before_def)
  obtain ys pl k2 where r: "find_place W p b ?hd (INT_DISABLE k) = Some (pl, k2)" "lw_inv p ys (lwm k2)" "place_of ys b pl"
    using find_place_ok [OF h(2) b h(1) W] by (auto simp: place_end_def split: option.splits)
  then obtain us vs where ys: "ys = us @ (b, False) # vs" by (auto simp: place_of_def)
  have ok2: "lw_ok p (us @ (b, False) # vs) (lwm k2)" "apart (us @ (b, False) # vs)" using r(2) ys by (simp_all add: lw_inv_def)
  let ?k = "INT_ENABLE (upd_lwmem (reset_walks p) (upd_lwmem (release p b pl) k2))"
  have "lwmem_free W (b + 12) k = Some (MQX_OK, ?k)"
    using lwmem_free_steps [OF block_address [OF as] _ _ refl owner r(1)] lw_ok_block(4) [OF as] inv by (simp add: lw_inv_valid)
  moreover have "lw_inv p (add_free us b @ drop_free vs) (lwm ?k)"
    using release_layout [OF ok2(1) place_of_case [OF ok2(1)]] r(3) ys apart_release [OF ok2(2)] by (simp add: lw_inv_def)
  ultimately show ?thesis using ok2(2) by (intro exI [of _ ?k] exI [of _ us] exI [of _ vs]) simp
qed

text \<open>The blocks of a well-formed pool determine the headers: the sizes, and the links of the free ones.\<close>

lemma tiles_sizes: "tiles B a xs e \<Longrightarrow> tiles B' a xs e \<Longrightarrow> x \<in> set xs \<Longrightarrow> BLOCKSIZE (B' (fst x)) = BLOCKSIZE (B (fst x))"
proof (induction xs arbitrary: a)
  case (Cons y ys)
  have "a + BLOCKSIZE (B a) = a + BLOCKSIZE (B' a)" using Cons.prems(1,2) by (cases ys) auto
  then have s: "BLOCKSIZE (B' a) = BLOCKSIZE (B a)" by simp
  then show ?case using Cons.prems Cons.IH [of "a + BLOCKSIZE (B a)"] by auto
qed simp

lemma links_determined: "links B a fs z \<Longrightarrow> links B' a fs z \<Longrightarrow> f \<in> set fs \<Longrightarrow> UWORD (B' f) = UWORD (B f)"
proof (induction fs arbitrary: a)
  case (Cons g fs)
  have "UWORD (B' g) = UWORD (B g)" using Cons.prems(1,2) links_hd0 [of B "UWORD (B g)" fs z] links_hd0 [of B' "UWORD (B' g)" fs z] by simp
  then show ?case using Cons by auto
qed simp

definition headers_same :: "blocks_of \<Rightarrow> lwmem \<Rightarrow> lwmem \<Rightarrow> bool" where
  "headers_same xs M M' \<longleftrightarrow> (\<forall>x \<in> set xs. LWBLOCKS M' (fst x) = LWBLOCKS M (fst x))"

lemma layout_determined:
  assumes ok: "lw_ok p xs M" "lw_ok p xs M'" and fr: "pool_frame p M M'"
    and used: "\<And>c. (c, False) \<in> set xs \<Longrightarrow> LWBLOCKS M' c = LWBLOCKS M c"
  shows "headers_same xs M M'"
  unfolding headers_same_def
proof
  fix x assume x: "x \<in> set xs"
  show "LWBLOCKS M' (fst x) = LWBLOCKS M (fst x)"
  proof (cases "snd x")
    case False
    then show ?thesis using used [of "fst x"] x by (cases x) auto
  next
    case True
    then have f: "fst x \<in> set (free_of xs)" using x by (auto simp: free_of_def)
    have "BLOCKSIZE (LWBLOCKS M' (fst x)) = BLOCKSIZE (LWBLOCKS M (fst x))"
      using ok fr x by (intro tiles_sizes) (auto simp: lw_ok_def pool_frame_def)
    moreover have "BPOOL (LWBLOCKS M' (fst x)) = BPOOL (LWBLOCKS M (fst x))" using ok x by (simp add: lw_ok_def list_all_iff)
    moreover have "UWORD (LWBLOCKS M' (fst x)) = UWORD (LWBLOCKS M (fst x))"
      using links_determined [OF find_free [OF ok(1)] _ f, of "LWBLOCKS M'"] find_free [OF ok(2)] head_free [OF ok(1)] head_free [OF ok(2)] by simp
    ultimately show ?thesis by (intro lwblock.equality) auto
  qed
qed

lemma release_after_cut:
  assumes "apart (us @ (b, True) # vs)"
  obtains ws where "us @ cut_off sz req b @ vs = us @ (b, False) # ws" and "add_free us b @ drop_free ws = us @ (b, True) # vs"
proof -
  have u: "add_free us b = us @ [(b, True)]" and v: "drop_free vs = vs"
    using assms by (cases us rule: rev_cases; cases vs; auto simp: add_free_def drop_free_def apart_append apart_Cons)+
  show thesis
  proof (cases "16 \<le> sz - req")
    case True
    then show thesis using that [of "(b + req, True) # vs"] u by (simp add: cut_off_def drop_free_def)
  next
    case False
    then show thesis using that [of vs] u v by (simp add: cut_off_def)
  qed
qed

text \<open>
  C21 (roundtrip). A block that is allocated and released again, with nothing else in between, leaves every header of
  the pool exactly as it was: the block list, the sizes, the owners and the links of the free list.
\<close>
theorem lwmem_alloc_free_roundtrip:
  assumes inv: "lw_inv p xs (lwm k)" and size: "unat requested_size + 27 < 2 ^ 32"
    and alloc: "lwmem_alloc_from [] p requested_size k = Some (a, k1)" and got: "a \<noteq> 0"
  shows "\<exists>k2. lwmem_free [] a k1 = Some (MQX_OK, k2) \<and> lw_inv p xs (lwm k2) \<and> headers_same xs (lwm k) (lwm k2)"
proof -
  let ?req = "alloc_request requested_size"
  obtain us b vs where u: "a = b + 12" "xs = us @ (b, True) # vs" "others_same (us @ vs) (lwm k) (lwm k1)" "pool_frame p (lwm k) (lwm k1)" "same_tasks k k1"
    "lw_inv p (us @ cut_off (BLOCKSIZE (LWBLOCKS (lwm k) b)) ?req b @ vs) (lwm k1)"
    "blk_task_number (LWBLOCKS (lwm k1) b) = td_task_number (ACTIVE_PTR k) k"
    using alloc_alone [OF inv size, of "ACTIVE_PTR k" False] alloc got unfolding lwmem_alloc_from_def by (auto split: option.splits)
  have ap: "apart (us @ (b, True) # vs)" using inv u(2) by (simp add: lw_inv_def)
  obtain ws where w: "us @ cut_off (BLOCKSIZE (LWBLOCKS (lwm k) b)) ?req b @ vs = us @ (b, False) # ws" "add_free us b @ drop_free ws = xs"
    using release_after_cut [OF ap, of "BLOCKSIZE (LWBLOCKS (lwm k) b)" ?req] u(2) by metis
  have owner: "blk_task_number (LWBLOCKS (lwm k1) b) = td_task_number (ACTIVE_PTR k1) k1 \<or> blk_task_number (LWBLOCKS (lwm k1) b) = SYSTEM_TASK_NUMBER"
    using u(7) same_tasks_number [OF u(5)] by simp
  obtain k2 where r: "lwmem_free [] (b + 12) k1 = Some (MQX_OK, k2)" "pool_frame p (lwm k1) (lwm k2)" "lw_inv p xs (lwm k2)"
    "\<forall>c. (c, False) \<in> set (us @ ws) \<longrightarrow> LWBLOCKS (lwm k2) c = LWBLOCKS (lwm k1) c"
    using free_alone [OF u(6) [unfolded w(1)] owner] w(2) by auto
  have "headers_same xs (lwm k) (lwm k2)"
  proof (rule layout_determined)
    show "lw_ok p xs (lwm k)" "lw_ok p xs (lwm k2)" using inv r(3) by (simp_all add: lw_inv_def)
    show "pool_frame p (lwm k) (lwm k2)" using u(4) r(2) by (simp add: pool_frame_def)
    fix c assume "(c, False) \<in> set xs"
    then have c: "(c, False) \<in> set (us @ vs)" using u(2) by auto
    moreover have "set vs \<subseteq> set ws" using w(1) by (auto simp: cut_off_def split: if_splits)
    ultimately show "LWBLOCKS (lwm k2) c = LWBLOCKS (lwm k) c" using r(4) others_same_used [OF u(3) c] by auto
  qed
  then show ?thesis using r u(1) by auto
qed

subsection \<open>Allocation at an address and with an alignment\<close>

lemma unat_and_not_mask: "unat ((x :: u32) AND NOT (2 ^ n - 1)) = unat x div 2 ^ n * 2 ^ n"
proof -
  have "x AND NOT (mask n) = push_bit n (drop_bit n x)" by (rule bit_eqI) (auto simp: bit_simps)
  then have e: "x AND NOT (mask n) = x - take_bit n x" using bits_ident [of n x] by (metis add_diff_cancel_right')
  have t: "unat (take_bit n x) = unat x mod 2 ^ n" unfolding unsigned_take_bit_eq by (simp add: take_bit_eq_mod)
  have "unat (x - take_bit n x) = unat x - unat x mod 2 ^ n" by (subst unat_sub) (simp_all add: t word_le_nat_alt)
  then show ?thesis using e by (simp add: mask_eq_exp_minus_1 minus_mod_eq_div_mult)
qed

lemma unat_exp:
  assumes "n < 32"
  shows "unat (2 ^ n :: u32) = 2 ^ n"
proof -
  have "(2 :: nat) ^ n < 2 ^ 32" using assms by (intro power_strict_increasing) auto
  then show ?thesis using of_nat_inverse [of "2 ^ n" "2 ^ n :: u32"] by simp
qed

lemma align_up:
  assumes "unat (x :: u32) + unat c + 2 ^ n < 2 ^ 32" and "n < 32"
  defines "y \<equiv> ((x + c + 2 ^ n) AND NOT (2 ^ n - 1)) - x"
  shows "unat c < unat y" and "unat y \<le> unat c + 2 ^ n" and "2 ^ n dvd unat x + unat y"
proof -
  have p: "unat (2 ^ n :: u32) = 2 ^ n" using unat_exp [OF assms(2)] .
  have s: "unat (x + c + 2 ^ n) = unat x + unat c + 2 ^ n" using assms(1) p tiles_next [of x c] tiles_next [of "x + c" "2 ^ n"] by simp
  let ?z = "(x + c + 2 ^ n) AND NOT (2 ^ n - 1)"
  have z: "unat ?z = (unat x + unat c + 2 ^ n) div 2 ^ n * 2 ^ n" unfolding unat_and_not_mask s ..
  have m: "(unat x + unat c + 2 ^ n) mod 2 ^ n < 2 ^ n" by simp
  have lt: "unat x + unat c < unat ?z" and le: "unat ?z \<le> unat x + unat c + 2 ^ n"
    unfolding z using div_mult_mod_eq [of "unat x + unat c + 2 ^ n" "2 ^ n"] m by linarith+
  have "unat y = unat ?z - unat x" unfolding y_def using lt by (subst unat_sub) (auto simp: word_le_nat_alt)
  then show "unat c < unat y" "unat y \<le> unat c + 2 ^ n" using lt le by linarith+
  have "unat x + unat y = unat ?z" using \<open>unat y = unat ?z - unat x\<close> lt by simp
  then show "2 ^ n dvd unat x + unat y" unfolding z by simp
qed

lemma align_shift_bounds:
  assumes "unat b + 60 + 2 ^ n < 2 ^ 32" and "n < 32"
  shows "32 \<le> unat (align_shift (2 ^ n) b)" and "unat (align_shift (2 ^ n) b) \<le> 48 + 2 ^ n" and "2 ^ n dvd unat b + 12 + unat (align_shift (2 ^ n) b)"
proof -
  have x: "unat (b + 12) = unat b + 12" using assms(1) by (simp add: unat_word_ariths)
  note a0 = align_up [of "b + 12" 0 n] and a48 = align_up [of "b + 12" 48 n]
  let ?s0 = "((b + 12 + 2 ^ n) AND NOT (2 ^ n - 1)) - (b + 12)" and ?s1 = "((b + 12 + 48 + 2 ^ n) AND NOT (2 ^ n - 1)) - (b + 12)"
  have s: "align_shift (2 ^ n) b = (if ?s0 < 32 then ?s1 else ?s0)" by (simp add: align_shift_def Let_def)
  show "32 \<le> unat (align_shift (2 ^ n) b)" "unat (align_shift (2 ^ n) b) \<le> 48 + 2 ^ n" "2 ^ n dvd unat b + 12 + unat (align_shift (2 ^ n) b)"
    unfolding s using a0 a48 x assms by (auto simp: word_less_nat_alt)
qed

lemma power_align:
  assumes "n < 32"
  shows "(2 ^ n :: u32) AND (2 ^ n - 1) = 0"
  using assms by (intro bit_eqI) (auto simp: bit_simps mask_eq_exp_minus_1 [symmetric])

lemma walk_from_head:
  assumes "lw_ok p xs (lwm k)"
  obtains b prev a k2 where "walk_free [] p fits (POOL_FREE_LIST_PTR (LWPOOLS (lwm k) p)) start (INT_DISABLE k) = Some (b, prev, k2)"
    and "b = (case List.find (\<lambda>b. fits b (LWBLOCKS (lwm k) b)) (free_of xs) of None \<Rightarrow> 0 | Some b \<Rightarrow> b)" and "place xs b prev"
    and "lwm k2 = upd_lwpool p (\<lambda>r. r\<lparr>POOL_ALLOC_PTR := a\<rparr>) (lwm k)" and "same_tasks k k2"
proof -
  have ok: "lw_ok p xs (lwm (INT_DISABLE k))" using assms by simp
  show thesis using walk_alone [OF ok place_head [OF ok, of start] find_free [OF ok], of fits, unfolded lw_int_simps same_tasks_simps]
    by (elim exE conjE) (rule that)
qed

lemma found_free:
  assumes ok: "lw_ok p xs M" and b: "b = (case List.find P (free_of xs) of None \<Rightarrow> 0 | Some b \<Rightarrow> b)"
  obtains (none) "b = 0" and "\<forall>g \<in> set (free_of xs). \<not> P g" | (some) "b \<noteq> 0" and "b \<in> set (free_of xs)" and "P b"
proof (cases "List.find P (free_of xs)")
  case None
  then have "\<forall>g \<in> set (free_of xs). \<not> P g" by (simp add: find_None_iff)
  then show thesis using none b None by simp
next
  case (Some g)
  then have "g \<in> set (free_of xs)" "P g" by (auto simp: find_Some_iff)
  then show thesis using some b Some links_nonzero [OF find_free [OF ok]] by auto
qed

definition align_of :: "u32 \<Rightarrow> u32" where
  "align_of req_align = (if req_align \<le> PSP_MEMORY_ALIGNMENT then PSP_MEMORY_ALIGNMENT + 1 else req_align)"

definition align_request :: "u32 \<Rightarrow> u32" where
  "align_request n = alloc_request (if n < LWMEM_MIN_MEMORY_STORAGE_SIZE then LWMEM_MIN_MEMORY_STORAGE_SIZE else n)"

lemma align_of_power:
  assumes "n < 32"
  shows "align_of (2 ^ n) = 2 ^ max 4 n"
proof (cases "n < 4")
  case True
  then have "n = 0 \<or> n = 1 \<or> n = 2 \<or> n = 3" by auto
  then show ?thesis by (auto simp: align_of_def max_def)
next
  case False
  then have "(2 :: nat) ^ 4 \<le> 2 ^ n" by (intro power_increasing) auto
  then have "\<not> (2 ^ n :: u32) \<le> 15" using unat_exp [OF assms] by (simp add: word_le_nat_alt)
  then show ?thesis using False by (simp add: align_of_def max_def)
qed

lemma align_request_bounds:
  assumes "unat n + 64 < 2 ^ 32"
  shows "unat n + 12 \<le> unat (align_request n)" and "16 \<le> unat (align_request n)" and "unat (align_request n) < unat n + 64"
  using alloc_request_bounds [of "if n < 16 then 16 else n"] assms by (auto simp: align_request_def word_less_nat_alt split: if_splits)

lemma lw_inv_end:
  assumes "lw_inv p xs M" and "(b, f) \<in> set xs"
  shows "unat b + unat (BLOCKSIZE (LWBLOCKS M b)) \<le> unat (POOL_ALLOC_END_PTR (LWPOOLS M p))"
proof -
  have "tiles (LWBLOCKS M) (POOL_ALLOC_START_PTR (LWPOOLS M p)) xs (POOL_ALLOC_END_PTR (LWPOOLS M p))" using assms(1) by (simp add: lw_inv_def lw_ok_def)
  from tiles_bounds [OF this] show ?thesis using assms(2) by auto
qed

lemma take_align_inv:
  assumes inv: "lw_inv p xs M" and pl: "place xs b prev" and b: "b \<noteq> 0" and sizes: "16 \<le> unat shift" "16 \<le> unat req" "unat shift + unat req \<le> unat (BLOCKSIZE (LWBLOCKS M b))"
  obtains us vs where "xs = us @ (b, True) # vs"
    and "lw_inv p ((us @ [(b, True)]) @ cut_off (BLOCKSIZE (LWBLOCKS M b) - shift) req (b + shift) @ vs) (take_align p req shift number zero b M)"
    and "others_same (us @ vs) M (take_align p req shift number zero b M)"
    and "req \<le> BLOCKSIZE (LWBLOCKS (take_align p req shift number zero b M) (b + shift))"
proof -
  obtain us vs where s: "xs = us @ (b, True) # vs" using place_split [OF pl b] by metis
  have ok: "lw_ok p (us @ (b, True) # vs) M" "apart (us @ (b, True) # vs)" using inv s by (auto simp: lw_inv_def)
  show thesis using that [OF s] take_align_ok(1-3) [OF ok(1) sizes] apart_carve [OF ok(2)] by (simp add: lw_inv_def)
qed

lemma align_fits:
  assumes inv: "lw_inv p xs (lwm k)" and n: "n < 32" and size: "unat requested_size + 2 ^ max 4 n + 112 < 2 ^ 32"
    and room: "unat (POOL_ALLOC_END_PTR (LWPOOLS (lwm k) p)) + 60 + 2 ^ max 4 n < 2 ^ 32" and b: "b \<in> set (free_of xs)"
  shows "32 \<le> unat (align_shift (2 ^ max 4 n) b)" and "2 ^ max 4 n dvd unat b + 12 + unat (align_shift (2 ^ max 4 n) b)"
    and "unat (align_request requested_size + align_shift (2 ^ max 4 n) b) = unat (align_request requested_size) + unat (align_shift (2 ^ max 4 n) b)"
proof -
  have "(b, True) \<in> set xs" using b by (auto simp: free_of_def)
  then have "unat b \<le> unat (POOL_ALLOC_END_PTR (LWPOOLS (lwm k) p))" using lw_inv_end [OF inv] by fastforce
  then have "unat b + 60 + 2 ^ max 4 n < 2 ^ 32" using room by simp
  note s = align_shift_bounds [OF this]
  show "32 \<le> unat (align_shift (2 ^ max 4 n) b)" "2 ^ max 4 n dvd unat b + 12 + unat (align_shift (2 ^ max 4 n) b)" using s n by auto
  have "unat (align_shift (2 ^ max 4 n) b) \<le> 48 + 2 ^ max 4 n" using s(2) n by auto
  then show "unat (align_request requested_size + align_shift (2 ^ max 4 n) b) = unat (align_request requested_size) + unat (align_shift (2 ^ max 4 n) b)"
    using align_request_bounds(3) [of requested_size] size by (intro tiles_next) simp
qed

text \<open>
  Fact. Aligned allocation, with no interference: the address returned is a multiple of the alignment, which
  is a power of two, and that of a block in use which is large enough; it is carved out of the first free block with
  enough room behind the shift, whose front part stays free. If there is none the result is NULL and the
  blocks are unchanged.
\<close>
theorem lwmem_alloc_align_aligned:
  fixes k requested_size n
  defines "req \<equiv> align_request requested_size" and "shift \<equiv> align_shift (2 ^ max 4 n)"
  assumes inv: "lw_inv p xs (lwm k)" and n: "n < 32" and size: "unat requested_size + 2 ^ max 4 n + 112 < 2 ^ 32"
    and room: "unat (POOL_ALLOC_END_PTR (LWPOOLS (lwm k) p)) + 60 + 2 ^ max 4 n < 2 ^ 32"
  shows "\<exists>a k'. lwmem_alloc_align_internal [] requested_size (2 ^ n) td p zero k = Some (a, k') \<and> walks_reset p (lwm k') \<and> 2 ^ n dvd unat a \<and>
    (if a = 0 then lw_inv p xs (lwm k') \<and> (\<forall>b \<in> set (free_of xs). unat (BLOCKSIZE (LWBLOCKS (lwm k) b)) < unat req + unat (shift b))
     else \<exists>us b vs. a = b + shift b + 12 \<and> xs = us @ (b, True) # vs \<and>
       lw_inv p (us @ (b, True) # cut_off (BLOCKSIZE (LWBLOCKS (lwm k) b) - shift b) req (b + shift b) @ vs) (lwm k') \<and>
       others_same (us @ vs) (lwm k) (lwm k') \<and> unat requested_size + 12 \<le> unat (BLOCKSIZE (LWBLOCKS (lwm k') (b + shift b))))"
proof -
  let ?N = "max 4 n" and ?hd = "POOL_FREE_LIST_PTR (LWPOOLS (lwm k) p)" and ?fits = "\<lambda>b d. BLOCKSIZE d \<ge> req + shift b"
  have req: "unat requested_size + 12 \<le> unat req" "16 \<le> unat req"
    using align_request_bounds [of requested_size] size unfolding req_def by simp_all
  have ok: "lw_ok p xs (lwm k)" using inv by (simp add: lw_inv_def)
  note sh = align_fits [OF inv n size room, folded req_def shift_def]
  obtain b prev a k2 where w: "walk_free [] p ?fits ?hd 0 (INT_DISABLE k) = Some (b, prev, k2)"
      "b = (case List.find (\<lambda>b. ?fits b (LWBLOCKS (lwm k) b)) (free_of xs) of None \<Rightarrow> 0 | Some b \<Rightarrow> b)" "place xs b prev"
      "lwm k2 = upd_lwpool p (\<lambda>r. r\<lparr>POOL_ALLOC_PTR := a\<rparr>) (lwm k)" by (rule walk_from_head [OF ok])
  let ?k = "upd_lwmem (take_align p req (shift b) (td_task_number td k2) zero b) k2"
  have r: "lwmem_alloc_align_internal [] requested_size (2 ^ n) td p zero k =
      Some (if b = 0 then alloc_exit p 0 k2 else alloc_exit p (b + shift b + 12) ?k)"
    using w(1) n lw_inv_valid [OF inv] power_align [OF n] align_of_power [OF n]
    unfolding req_def shift_def lwmem_alloc_align_internal_def by (simp add: Let_def align_request_def align_of_def)
  from ok w(2) show ?thesis
  proof (cases rule: found_free)
    case none
    then have "lwmem_alloc_align_internal [] requested_size (2 ^ n) td p zero k = Some (0, snd (alloc_exit p 0 k2))" using r by (simp add: prod_eq_iff)
    moreover have "\<forall>b \<in> set (free_of xs). unat (BLOCKSIZE (LWBLOCKS (lwm k) b)) < unat req + unat (shift b)"
      using none(2) sh(3) by (auto simp: word_le_nat_alt)
    ultimately show ?thesis using inv w(4) by (intro exI [of _ 0] exI [of _ "snd (alloc_exit p 0 k2)"]) simp
  next
    case some
    note s = sh [OF some(2)]
    have inv2: "lw_inv p xs (lwm k2)" using inv w(4) by simp
    have sz: "16 \<le> unat (shift b)" "16 \<le> unat req" "unat (shift b) + unat req \<le> unat (BLOCKSIZE (LWBLOCKS (lwm k2) b))"
      using s req some(3) w(4) by (auto simp: word_le_nat_alt)
    obtain us vs where t: "xs = us @ (b, True) # vs"
      "lw_inv p ((us @ [(b, True)]) @ cut_off (BLOCKSIZE (LWBLOCKS (lwm k) b) - shift b) req (b + shift b) @ vs) (lwm ?k)"
      "others_same (us @ vs) (lwm k) (lwm ?k)" "req \<le> BLOCKSIZE (LWBLOCKS (lwm ?k) (b + shift b))"
      by (rule take_align_inv [OF inv2 w(3) some(1) sz, of "td_task_number td k2" zero], rule that) (simp_all add: w(4) others_same_def)
    have "unat b + unat (BLOCKSIZE (LWBLOCKS (lwm k) b)) < 2 ^ 32" using lw_ok_block(3) ok t(1) by auto
    then have a: "unat (b + shift b + 12) = unat b + unat (shift b) + 12"
      using sz w(4) tiles_next [of b "shift b"] tiles_next [of "b + shift b" 12] by simp
    then have "2 ^ ?N dvd unat (b + shift b + 12)" using s(2) by (simp add: add.commute add.left_commute)
    then have d: "2 ^ n dvd unat (b + shift b + 12)" by (rule dvd_trans [rotated]) (simp add: le_imp_power_dvd)
    have "lwmem_alloc_align_internal [] requested_size (2 ^ n) td p zero k = Some (b + shift b + 12, snd (alloc_exit p (b + shift b + 12) ?k))"
      using r some(1) by (simp add: prod_eq_iff)
    moreover have "b + shift b + 12 \<noteq> 0" using a by auto
    moreover have "\<exists>us c vs. b + shift b + 12 = c + shift c + 12 \<and> xs = us @ (c, True) # vs \<and>
       lw_inv p (us @ (c, True) # cut_off (BLOCKSIZE (LWBLOCKS (lwm k) c) - shift c) req (c + shift c) @ vs) (lwm ?k) \<and>
       others_same (us @ vs) (lwm k) (lwm ?k) \<and> unat requested_size + 12 \<le> unat (BLOCKSIZE (LWBLOCKS (lwm ?k) (c + shift c)))"
      by (rule exI [of _ us], rule exI [of _ b], rule exI [of _ vs]) (use t req(1) in \<open>simp add: word_le_nat_alt\<close>)
    ultimately show ?thesis using d
      by (intro exI [of _ "b + shift b + 12"] exI [of _ "snd (alloc_exit p (b + shift b + 12) ?k)"]) (simp add: others_same_def)
  qed
qed

subsection \<open>Queries and tests\<close>

text \<open>States that differ in the pointers of the walks and the highwater marks only.\<close>

definition same_heap :: "lwmem \<Rightarrow> lwmem \<Rightarrow> bool" where
  "same_heap M M' \<longleftrightarrow> LWBLOCKS M' = LWBLOCKS M \<and> LWMEM_POOLS M' = LWMEM_POOLS M \<and>
     (\<forall>q. pool_frame q M M' \<and> POOL_FREE_LIST_PTR (LWPOOLS M' q) = POOL_FREE_LIST_PTR (LWPOOLS M q))"

lemma same_heap_inv: "same_heap M M' \<Longrightarrow> lw_inv p xs M' = lw_inv p xs M"
  by (simp add: same_heap_def pool_frame_def lw_inv_def lw_ok_def lwpool_valid_def)

lemma same_heap_trans: "same_heap M M' \<Longrightarrow> same_heap M' M'' \<Longrightarrow> same_heap M M''"
  by (simp add: same_heap_def pool_frame_def)

lemma same_heap_simps [simp]:
  "same_heap M M" "same_heap M (upd_lwpool p (\<lambda>r. r\<lparr>POOL_ALLOC_PTR := a\<rparr>) M)"
  "same_heap M (upd_lwpool p (\<lambda>r. r\<lparr>POOL_TEST_PTR := a\<rparr>) M)" "same_heap M (upd_lwpool p (\<lambda>r. r\<lparr>POOL_TEST2_PTR := a\<rparr>) M)"
  by (auto simp: same_heap_def pool_frame_def)

lemma tiles_sum: "tiles B a xs e \<Longrightarrow> unat a + (\<Sum>x\<leftarrow>xs. unat (BLOCKSIZE (B (fst x)))) = unat e"
proof (induction xs arbitrary: a)
  case (Cons x xs)
  then show ?case using Cons.IH [of "a + BLOCKSIZE (B a)"] tiles_next [of a "BLOCKSIZE (B a)"] by auto
qed simp

definition free_bytes :: "blocks_of \<Rightarrow> lwmem \<Rightarrow> nat" where
  "free_bytes xs M = (\<Sum>x\<leftarrow>filter snd xs. unat (BLOCKSIZE (LWBLOCKS M (fst x))))"

definition used_bytes :: "blocks_of \<Rightarrow> lwmem \<Rightarrow> nat" where
  "used_bytes xs M = (\<Sum>x\<leftarrow>filter (\<lambda>x. \<not> snd x) xs. unat (BLOCKSIZE (LWBLOCKS M (fst x))))"

lemma sum_list_filter_split: "(\<Sum>x\<leftarrow>filter P xs. f x) + (\<Sum>x\<leftarrow>filter (\<lambda>x. \<not> P x) xs. f x) = (\<Sum>x\<leftarrow>xs. (f x :: nat))"
  by (induction xs) auto

lemma free_used_bytes:
  assumes "lw_inv p xs M"
  shows "unat (POOL_ALLOC_START_PTR (LWPOOLS M p)) + free_bytes xs M + used_bytes xs M = unat (POOL_ALLOC_END_PTR (LWPOOLS M p))"
  using assms tiles_sum [of "LWBLOCKS M" "POOL_ALLOC_START_PTR (LWPOOLS M p)" xs] sum_list_filter_split [of _ snd xs]
  by (simp add: lw_inv_def lw_ok_def free_bytes_def used_bytes_def add.assoc)

lemma free_bytes_free_of: "free_bytes xs M = (\<Sum>f\<leftarrow>free_of xs. unat (BLOCKSIZE (LWBLOCKS M f)))"
  by (simp add: free_bytes_def free_of_def comp_def)

lemma sum_free_alone:
  assumes "links (LWBLOCKS (lwm k)) b fs 0" and "unat total_size + (\<Sum>f\<leftarrow>fs. unat (BLOCKSIZE (LWBLOCKS (lwm k) f))) < 2 ^ 32"
  shows "\<exists>n k'. sum_free [] p total_size b k = Some (n, k') \<and> unat n = unat total_size + (\<Sum>f\<leftarrow>fs. unat (BLOCKSIZE (LWBLOCKS (lwm k) f))) \<and>
    same_heap (lwm k) (lwm k')"
  using assms
proof (induction fs arbitrary: b total_size k)
  case Nil
  then show ?case by (subst sum_free.simps) simp
next
  case (Cons f fs)
  let ?k1 = "window [] (upd_lwmem (upd_lwpool p (\<lambda>r. r\<lparr>POOL_ALLOC_PTR := b\<rparr>)) k)"
  have b: "b = f" "b \<noteq> 0" using Cons.prems(1) by auto
  have s: "sum_free [] p total_size b k = sum_free [] p (total_size + BLOCKSIZE (LWBLOCKS (lwm k) b)) (UWORD (LWBLOCKS (lwm k) b)) ?k1"
    using b(2) by (subst sum_free.simps) (simp add: Let_def)
  have u: "unat (total_size + BLOCKSIZE (LWBLOCKS (lwm k) b)) = unat total_size + unat (BLOCKSIZE (LWBLOCKS (lwm k) b))"
    using Cons.prems(2) b by (intro tiles_next) simp
  let ?t = "total_size + BLOCKSIZE (LWBLOCKS (lwm k) b)" and ?n = "UWORD (LWBLOCKS (lwm k) b)"
  have m: "LWBLOCKS (lwm ?k1) = LWBLOCKS (lwm k)" "same_heap (lwm k) (lwm ?k1)" by simp_all
  have p: "links (LWBLOCKS (lwm ?k1)) ?n fs 0" "unat ?t + (\<Sum>f\<leftarrow>fs. unat (BLOCKSIZE (LWBLOCKS (lwm ?k1) f))) < 2 ^ 32"
    unfolding m(1) using Cons.prems u b by simp_all
  obtain n k' where r: "sum_free [] p ?t ?n ?k1 = Some (n, k')" "unat n = unat ?t + (\<Sum>f\<leftarrow>fs. unat (BLOCKSIZE (LWBLOCKS (lwm k) f)))"
    "same_heap (lwm ?k1) (lwm k')"
    using Cons.IH [OF p, unfolded m(1)] by (elim exE conjE) (rule that)
  show ?case unfolding s r(1) using r(2) u b same_heap_trans [OF m(2) r(3)] by simp
qed

text \<open>
  Fact. \<^verbatim>\<open>_lwmem_get_free_from\<close> returns the number of bytes in the free blocks, headers included, and does not
  change the blocks; together with the bytes in use this is the size of the pool.
\<close>
theorem lwmem_get_free_exact:
  assumes inv: "lw_inv p xs (lwm k)"
  shows "\<exists>n k'. lwmem_get_free_from [] p k = Some (n, k') \<and> unat n = free_bytes xs (lwm k) \<and> lw_inv p xs (lwm k') \<and>
    unat (POOL_ALLOC_START_PTR (LWPOOLS (lwm k) p)) + unat n + used_bytes xs (lwm k) = unat (POOL_ALLOC_END_PTR (LWPOOLS (lwm k) p))"
proof -
  have ok: "lw_ok p xs (lwm (INT_DISABLE k))" using inv by (simp add: lw_inv_def)
  have small: "free_bytes xs (lwm k) < 2 ^ 32"
    using free_used_bytes [OF inv] unat_u32_bound [of "POOL_ALLOC_END_PTR (LWPOOLS (lwm k) p)"] by simp
  obtain n k' where r: "sum_free [] p 0 (POOL_FREE_LIST_PTR (LWPOOLS (lwm k) p)) (INT_DISABLE k) = Some (n, k')"
      "unat n = free_bytes xs (lwm k)" "same_heap (lwm k) (lwm k')"
    using sum_free_alone [OF find_free [OF ok], of 0 p] small by (auto simp: free_bytes_free_of)
  have "lwmem_get_free_from [] p k = Some (n, INT_ENABLE k')"
    using r(1) lw_inv_valid [OF inv] by (simp add: lwmem_get_free_from_def lwmem_get_free_internal_def Let_def)
  then show ?thesis using r(2,3) free_used_bytes [OF inv] same_heap_inv [of "lwm k" "lwm k'"] inv
    by (intro exI [of _ n] exI [of _ "INT_ENABLE k'"]) simp
qed

lemma test_blocks_alone:
  assumes "tiles (LWBLOCKS (lwm k)) b xs (POOL_ALLOC_END_PTR (LWPOOLS (lwm k) p))" and "list_all (\<lambda>x. BPOOL (LWBLOCKS (lwm k) (fst x)) = p) xs"
  shows "\<exists>k'. test_blocks_of [] p b k = Some ([], None, k') \<and> same_heap (lwm k) (lwm k')"
  using assms
proof (induction xs arbitrary: b k)
  case Nil
  then show ?case by (subst test_blocks_of.simps) simp
next
  case (Cons x xs)
  let ?k1 = "window [] (upd_lwmem (upd_lwpool p (\<lambda>r. r\<lparr>POOL_TEST2_PTR := b\<rparr>)) k)"
  have t: "fst x = b" "tiles (LWBLOCKS (lwm k)) (b + BLOCKSIZE (LWBLOCKS (lwm k) b)) xs (POOL_ALLOC_END_PTR (LWPOOLS (lwm k) p))"
    using Cons.prems(1) by auto
  have "unat b < unat (b + BLOCKSIZE (LWBLOCKS (lwm k) b))" "unat (b + BLOCKSIZE (LWBLOCKS (lwm k) b)) \<le> unat (POOL_ALLOC_END_PTR (LWPOOLS (lwm k) p))"
    using Cons.prems(1) tiles_next [of b "BLOCKSIZE (LWBLOCKS (lwm k) b)"] tiles_bounds [OF t(2)] by auto
  then have "b < POOL_ALLOC_END_PTR (LWPOOLS (lwm k) p)" by (simp add: word_less_nat_alt)
  then have s: "test_blocks_of [] p b k = test_blocks_of [] p (b + BLOCKSIZE (LWBLOCKS (lwm k) b)) ?k1"
    using Cons.prems(2) t(1) by (subst test_blocks_of.simps) (simp add: Let_def)
  have m: "LWBLOCKS (lwm ?k1) = LWBLOCKS (lwm k)" "POOL_ALLOC_END_PTR (LWPOOLS (lwm ?k1) p) = POOL_ALLOC_END_PTR (LWPOOLS (lwm k) p)"
    "same_heap (lwm k) (lwm ?k1)" by simp_all
  have pools: "list_all (\<lambda>x. BPOOL (LWBLOCKS (lwm k) (fst x)) = p) xs" using Cons.prems(2) by simp
  obtain k' where r: "test_blocks_of [] p (b + BLOCKSIZE (LWBLOCKS (lwm k) b)) ?k1 = Some ([], None, k')" "same_heap (lwm ?k1) (lwm k')"
    using Cons.IH [of ?k1 "b + BLOCKSIZE (LWBLOCKS (lwm k) b)", unfolded m(1,2), OF t(2) pools] by (elim exE conjE) (rule that)
  show ?case unfolding s r(1) using same_heap_trans [OF m(3) r(2)] by simp
qed

lemma free_block_good:
  assumes inv: "lw_inv p xs M" and b: "b \<in> set (free_of xs)"
  shows "\<not> bad_free p b M"
proof -
  have "(b, True) \<in> set xs" using b by (auto simp: free_of_def)
  then obtain us vs where xs: "xs = us @ (b, True) # vs" by (meson split_list)
  have ok: "lw_ok p (us @ (b, True) # vs) M" and ap: "apart (us @ (b, True) # vs)" using inv xs by (simp_all add: lw_inv_def)
  have t: "tiles (LWBLOCKS M) (POOL_ALLOC_START_PTR (LWPOOLS M p)) xs (POOL_ALLOC_END_PTR (LWPOOLS M p))" using inv by (simp add: lw_inv_def lw_ok_def)
  have r: "unat (POOL_ALLOC_START_PTR (LWPOOLS M p)) \<le> unat b" "unat b \<le> unat (POOL_ALLOC_END_PTR (LWPOOLS M p))"
    using tiles_bounds [OF t] xs by auto
  have n: "unat (b + BLOCKSIZE (LWBLOCKS M b)) = unat b + unat (BLOCKSIZE (LWBLOCKS M b))" using tiles_next lw_ok_block(3) [OF ok] by blast
  have "unat (b + BLOCKSIZE (LWBLOCKS M b)) < unat (UWORD (LWBLOCKS M b))" if nz: "UWORD (LWBLOCKS M b) \<noteq> 0"
  proof -
    have f: "UWORD (LWBLOCKS M b) \<in> set (free_of vs)" using free_succ [OF ok] nz by auto
    have "unat b + unat (BLOCKSIZE (LWBLOCKS M b)) \<le> unat (UWORD (LWBLOCKS M b))" using upper_blocks [OF ok free_of_in [OF f]] .
    moreover have "b + BLOCKSIZE (LWBLOCKS M b) \<noteq> UWORD (LWBLOCKS M b)" using next_iff [OF ok] ap by (cases vs) (auto simp: apart_append)
    ultimately show ?thesis using n by (metis le_neq_implies_less word_unat_eq_iff)
  qed
  then show ?thesis using r lw_ok_block(4) [OF ok] by (auto simp: bad_free_def Let_def word_less_nat_alt word_le_nat_alt)
qed

lemma test_free_alone:
  assumes "lw_inv p xs (lwm k)" and "set fs \<subseteq> set (free_of xs)" and "links (LWBLOCKS (lwm k)) b fs 0"
  shows "\<exists>k'. test_free_of [] p b k = Some ([], None, k') \<and> same_heap (lwm k) (lwm k')"
  using assms
proof (induction fs arbitrary: b k)
  case Nil
  then show ?case by (subst test_free_of.simps) simp
next
  case (Cons f fs)
  let ?k1 = "window [] (upd_lwmem (upd_lwpool p (\<lambda>r. r\<lparr>POOL_TEST_PTR := b\<rparr>)) k)"
  have b: "b = f" "b \<noteq> 0" using Cons.prems(3) by auto
  have m: "LWBLOCKS (lwm ?k1) = LWBLOCKS (lwm k)" "same_heap (lwm k) (lwm ?k1)" "lw_inv p xs (lwm ?k1)" using Cons.prems(1) by simp_all
  have "\<not> bad_free p b (lwm ?k1)" using free_block_good [OF m(3)] Cons.prems(2) b by simp
  then have s: "test_free_of [] p b k = test_free_of [] p (UWORD (LWBLOCKS (lwm k) b)) ?k1"
    using b(2) by (subst test_free_of.simps) (simp add: Let_def)
  have q: "set fs \<subseteq> set (free_of xs)" "links (LWBLOCKS (lwm ?k1)) (UWORD (LWBLOCKS (lwm k) b)) fs 0" using Cons.prems b by simp_all
  obtain k' where r: "test_free_of [] p (UWORD (LWBLOCKS (lwm k) b)) ?k1 = Some ([], None, k')" "same_heap (lwm ?k1) (lwm k')"
    using Cons.IH [OF m(3) q] by (elim exE conjE) (rule that)
  show ?case unfolding s r(1) using same_heap_trans [OF m(2) r(2)] by simp
qed

lemma test_lwpools_alone:
  assumes "\<forall>p \<in> set ps. \<exists>xs. lw_inv p xs (lwm k)"
  shows "\<exists>k'. test_lwpools [] ps k = Some ((MQX_OK, Some (0, 0)), k') \<and> same_heap (lwm k) (lwm k')"
  using assms
proof (induction ps arbitrary: k)
  case (Cons p ps)
  obtain xs where inv: "lw_inv p xs (lwm k)" using Cons.prems by auto
  have lay: "tiles (LWBLOCKS (lwm k)) (POOL_ALLOC_START_PTR (LWPOOLS (lwm k) p)) xs (POOL_ALLOC_END_PTR (LWPOOLS (lwm k) p))"
    "list_all (\<lambda>x. BPOOL (LWBLOCKS (lwm k) (fst x)) = p) xs" using inv by (simp_all add: lw_inv_def lw_ok_def)
  obtain k1 where k1: "test_blocks_of [] p (POOL_ALLOC_START_PTR (LWPOOLS (lwm k) p)) k = Some ([], None, k1)" "same_heap (lwm k) (lwm k1)"
    using test_blocks_alone [OF lay] by (elim exE conjE) (rule that)
  have inv1: "lw_inv p xs (lwm k1)" using same_heap_inv [OF k1(2)] inv by simp
  have l1: "links (LWBLOCKS (lwm k1)) (POOL_FREE_LIST_PTR (LWPOOLS (lwm k1) p)) (free_of xs) 0" using inv1 by (simp add: lw_inv_def lw_ok_def)
  obtain k2 where k2: "test_free_of [] p (POOL_FREE_LIST_PTR (LWPOOLS (lwm k1) p)) k1 = Some ([], None, k2)" "same_heap (lwm k1) (lwm k2)"
    using test_free_alone [OF inv1 subset_refl l1] by (elim exE conjE) (rule that)
  have sh: "same_heap (lwm k) (lwm k2)" using same_heap_trans [OF k1(2) k2(2)] .
  have "\<forall>p \<in> set ps. \<exists>xs. lw_inv p xs (lwm k2)" using Cons.prems same_heap_inv [OF sh] by simp
  from Cons.IH [OF this] obtain k3 where k3: "test_lwpools [] ps k2 = Some ((MQX_OK, Some (0, 0)), k3)" "same_heap (lwm k2) (lwm k3)"
    by (elim exE conjE) (rule that)
  have "test_lwpools [] (p # ps) k = Some ((MQX_OK, Some (0, 0)), k3)" using lw_inv_valid [OF inv] k1(1) k2(1) k3(1) by simp
  then show ?case using same_heap_trans [OF sh k3(2)] by auto
qed auto

text \<open>
  Fact. \<^verbatim>\<open>_lwmem_test\<close> finds nothing wrong with well-formed pools when it runs undisturbed, and does not change
  their blocks.
\<close>
theorem lwmem_test_accepts:
  assumes "LWMEM_POOLS (lwm k) = Some ps" and "list_all (\<lambda>p. \<exists>xs. lw_inv p xs (lwm k)) ps"
  shows "\<exists>k'. lwmem_test [] k = Some ((MQX_OK, Some (0, 0)), k') \<and> same_heap (lwm k) (lwm k')"
  using assms test_lwpools_alone [of ps "INT_DISABLE k"] by (simp add: lwmem_test_def list_all_iff)

subsection \<open>Creation\<close>

lemma unat_align_smaller: "unat (ALIGN_SMALLER v) = unat v div 16 * 16"
  unfolding ALIGN_SMALLER_def by (rule unat_and_not_15)

lemma create_pool_inv:
  fixes k p start sz
  defines "k' \<equiv> snd (lwmem_create_pool p start sz k)" and "b \<equiv> ALIGN_LARGER start"
  assumes nowrap: "unat start + 15 < 2 ^ 32" and start: "start \<noteq> 0" and room: "unat b + 16 \<le> unat (ALIGN_SMALLER (start + sz))"
  shows "lw_inv p [(b, True)] (lwm k')" and "BLOCKSIZE (LWBLOCKS (lwm k') b) = ALIGN_SMALLER (start + sz) - b"
    and "unat (ALIGN_SMALLER (start + sz) - b) = unat (ALIGN_SMALLER (start + sz)) - unat b"
proof -
  let ?e = "ALIGN_SMALLER (start + sz)"
  have "unat start \<le> unat b" using align_bounds(1) [OF nowrap] by (simp add: b_def)
  then have b0: "b \<noteq> 0" using start by (metis le_zero_eq unat_0 unat_eq_0)
  show s: "unat (?e - b) = unat ?e - unat b" using room by (subst unat_sub) (simp_all add: word_le_nat_alt)
  have blk: "LWBLOCKS (lwm k') b = \<lparr>BLOCKSIZE = ?e - b, BPOOL = p, UWORD = 0\<rparr>"
    by (simp add: k'_def lwmem_create_pool_def pool_setup_def pool_enqueue_def Let_def b_def upd_lwpool_def upd_lwblock_def upd_lwmem_def)
  then show "BLOCKSIZE (LWBLOCKS (lwm k') b) = ?e - b" by simp
  have pool: "LWPOOL_VALID (LWPOOLS (lwm k') p) = LWMEM_POOL_VALID" "POOL_ALLOC_START_PTR (LWPOOLS (lwm k') p) = b"
    "POOL_ALLOC_END_PTR (LWPOOLS (lwm k') p) = ?e" "POOL_FREE_LIST_PTR (LWPOOLS (lwm k') p) = b"
    by (simp_all add: k'_def lwmem_create_pool_def pool_setup_def pool_enqueue_def Let_def b_def upd_lwpool_def upd_lwblock_def upd_lwmem_def)
  show "lw_inv p [(b, True)] (lwm k')"
    using blk pool b0 s room unat_u32_bound [of ?e] by (simp add: lw_inv_def lw_ok_def lwpool_valid_def)
qed

lemma create_pool_list:
  "LWMEM_POOLS (lwm (snd (lwmem_create_pool p start sz k))) = Some ((case LWMEM_POOLS (lwm k) of None \<Rightarrow> [] | Some ps \<Rightarrow> ps) @ [p])"
  by (simp add: lwmem_create_pool_def pool_setup_def pool_enqueue_def Let_def upd_lwpool_def upd_lwblock_def upd_lwmem_def)

text \<open>
  C22 (invariant). A pool created in memory that does not wrap, with room for one block between its aligned ends, is
  well-formed and consists of one free block; the block lies in the given memory, and the pool is at the end of the list
  of pools.
\<close>
theorem lwmem_create_pool_ok:
  assumes nowrap: "unat start + 15 < 2 ^ 32" "unat start + unat sz < 2 ^ 32" and start: "start \<noteq> 0"
    and room: "unat (ALIGN_LARGER start) + 16 \<le> unat (ALIGN_SMALLER (start + sz))"
    and k': "lwmem_create_pool p start sz k = (p, k')"
  shows "lw_inv p [(ALIGN_LARGER start, True)] (lwm k') \<and> unat start \<le> unat (ALIGN_LARGER start) \<and>
    unat (ALIGN_LARGER start) + unat (BLOCKSIZE (LWBLOCKS (lwm k') (ALIGN_LARGER start))) \<le> unat start + unat sz \<and>
    LWMEM_POOLS (lwm k') = Some ((case LWMEM_POOLS (lwm k) of None \<Rightarrow> [] | Some ps \<Rightarrow> ps) @ [p])"
proof -
  have e: "unat (ALIGN_SMALLER (start + sz)) \<le> unat start + unat sz" using nowrap(2) tiles_next [of start sz] by (simp add: unat_align_smaller)
  note inv = create_pool_inv(1,2) [OF nowrap(1) start room, of p k, unfolded k' snd_conv] create_pool_inv(3) [OF nowrap(1) start room]
  show ?thesis using inv e room align_bounds(1) [OF nowrap(1)] create_pool_list [of p start sz k] k' by simp
qed

text \<open>The pool that maps its own structure into the memory counts the space from the aligned start: the blocks go beyond
  the end of memory that starts unaligned.\<close>

lemma lwmem_create_pool_mapped_overrun:
  "POOL_ALLOC_END_PTR (LWPOOLS (lwm (snd (lwmem_create_pool_mapped 0x1008 0x100 k))) 0x1010) = 0x1110"
  by (simp add: lwmem_create_pool_mapped_def lwmem_create_pool_def pool_setup_def pool_enqueue_def Let_def upd_lwpool_def upd_lwblock_def
      upd_lwmem_def ALIGN_LARGER_def ALIGN_SMALLER_def)

subsection \<open>Requests that overflow\<close>

lemma take_fit_head_size:
  "POOL_FREE_LIST_PTR (LWPOOLS M p) = b \<Longrightarrow> BLOCKSIZE (LWBLOCKS (take_fit p req number zero b prev M) b) =
    (if 16 \<le> BLOCKSIZE (LWBLOCKS M b) - req then req else BLOCKSIZE (LWBLOCKS M b))"
  by (cases "16 \<le> BLOCKSIZE (LWBLOCKS M b) - req") (simp_all add: take_fit_def Let_def)

lemma alloc_request_wraps:
  assumes "2 ^ 32 \<le> unat n + 27"
  shows "alloc_request n = 0 \<or> alloc_request n = 16"
proof (cases "unat n + 12 < 2 ^ 32")
  case True
  then have m: "unat (n + 12) = unat n + 12" by (simp add: unat_word_ariths)
  then have "ALIGN_LARGER (n + 12) = 0" using assms by (intro align_wraps) simp
  moreover have "\<not> n + 12 < 16" using m assms by (simp add: word_less_nat_alt)
  ultimately show ?thesis by (simp add: alloc_request_def)
next
  case False
  then have "unat (n + 12) = unat n + 12 - 2 ^ 32" using unat_u32_bound [of n] by (simp add: unat_word_ariths mod_if)
  then have "n + 12 < 16" using unat_u32_bound [of n] by (simp add: word_less_nat_alt)
  then show ?thesis by (simp add: alloc_request_def ALIGN_LARGER_def)
qed

text \<open>
  Fact. A request of more than 4294967268 bytes overflows when the header is added or the size aligned: with any free block
  in the pool the call succeeds and returns a block of less than 32 bytes.
\<close>
theorem lwmem_alloc_overflow:
  assumes inv: "lw_inv p xs (lwm k)" and free: "free_of xs \<noteq> []" and size: "2 ^ 32 \<le> unat requested_size + 27"
  shows "\<exists>a k'. lwmem_alloc_from [] p requested_size k = Some (a, k') \<and> a \<noteq> 0 \<and>
    unat (BLOCKSIZE (LWBLOCKS (lwm k') (GET_LWMEMBLOCK_PTR a))) < 32"
proof -
  let ?req = "alloc_request requested_size" and ?hd = "POOL_FREE_LIST_PTR (LWPOOLS (lwm k) p)"
  have ok: "lw_ok p xs (lwm k)" using inv by (simp add: lw_inv_def)
  obtain g fs where fs: "free_of xs = g # fs" using free by (cases "free_of xs") auto
  then obtain us vs where xs: "xs = us @ (g, True) # vs" by (rule free_of_split)
  have ok2: "lw_ok p (us @ (g, True) # vs) (lwm k)" using ok xs by simp
  have g: "?hd = g" using head_free [OF ok] fs by simp
  have fit: "?req \<le> BLOCKSIZE (LWBLOCKS (lwm k) g)" using alloc_request_wraps [OF size] lw_ok_block(2) [OF ok2] by (auto simp: word_le_nat_alt)
  obtain b prev a k2 where w: "walk_free [] p (\<lambda>b d. BLOCKSIZE d \<ge> ?req) ?hd ?hd (INT_DISABLE k) = Some (b, prev, k2)"
      "b = (case List.find (\<lambda>b. ?req \<le> BLOCKSIZE (LWBLOCKS (lwm k) b)) (free_of xs) of None \<Rightarrow> 0 | Some b \<Rightarrow> b)"
      "lwm k2 = upd_lwpool p (\<lambda>r. r\<lparr>POOL_ALLOC_PTR := a\<rparr>) (lwm k)" by (rule walk_from_head [OF ok])
  have b: "b = g" "b \<noteq> 0" using w(2) fs fit lw_ok_block(1) [OF ok2] by simp_all
  let ?k = "upd_lwmem (take_fit p ?req (td_task_number (ACTIVE_PTR k) k2) False b prev) k2"
  have r: "lwmem_alloc_from [] p requested_size k = Some (b + 12, snd (alloc_exit p (b + 12) ?k))"
    using alloc_internal_steps [OF lw_inv_valid [OF inv] w(1), of "ACTIVE_PTR k" False] b(2)
    by (simp add: lwmem_alloc_from_def prod_eq_iff)
  have "unat (BLOCKSIZE (LWBLOCKS (lwm ?k) b)) < 32"
    using take_fit_head_size [of "lwm k2" p b ?req] g b(1) w(3) alloc_request_wraps [OF size] cut_space [OF fit]
    by (auto simp: word_le_nat_alt)
  then show ?thesis using r block_address [OF ok2] b(1)
    by (intro exI [of _ "b + 12"] exI [of _ "snd (alloc_exit p (b + 12) ?k)"]) (simp add: GET_LWMEMBLOCK_PTR_def)
qed

subsection \<open>A test that is disturbed\<close>

text \<open>
  C32 (error). \<^verbatim>\<open>_lwmem_test\<close> may report a corrupted free list of a well-formed pool: an allocation in the window of its walk
  through the free list that takes the last free block resets the pointer of the walk to NULL, which the test takes for
  a block outside the pool.
\<close>
theorem lwmem_test_false_alarm:
  assumes pools: "LWMEM_POOLS (lwm k) = Some [p]" and inv: "lw_inv p [(b, True)] (lwm k)"
    and n: "unat n + 27 < 2 ^ 32" "alloc_request n \<le> BLOCKSIZE (LWBLOCKS (lwm k) b)" "unat (BLOCKSIZE (LWBLOCKS (lwm k) b)) < unat (alloc_request n) + 16"
  shows "\<exists>k'. lwmem_test [\<lambda>k. k, \<lambda>k. snd (the (lwmem_alloc_internal [] n td p zero k))] k =
      Some ((MQX_CORRUPT_STORAGE_POOL_FREE_LIST, Some (p, 0)), k') \<and> lw_inv p [(b, False)] (lwm k')"
proof -
  let ?w = "\<lambda>k. snd (the (lwmem_alloc_internal [] n td p zero k))" and ?k = "INT_DISABLE k"
  let ?r = "LWPOOLS (lwm k) p"
  have ok: "lw_ok p ([] @ (b, True) # []) (lwm k)" using inv by (simp add: lw_inv_def)
  have st: "POOL_ALLOC_START_PTR ?r = b" "POOL_ALLOC_END_PTR ?r = b + BLOCKSIZE (LWBLOCKS (lwm k) b)" "POOL_FREE_LIST_PTR ?r = b"
    "b \<noteq> 0" "BPOOL (LWBLOCKS (lwm k) b) = p" "lwpool_valid p (lwm k)"
    using inv lw_ok_block(1) [OF ok] by (auto simp: lw_inv_def lw_ok_def)
  have lt: "b < b + BLOCKSIZE (LWBLOCKS (lwm k) b)"
    using tiles_next [OF lw_ok_block(3) [OF ok]] lw_ok_block(2) [OF ok] by (simp add: word_less_nat_alt)
  define k1 where "k1 = window [\<lambda>k. k, ?w] (upd_lwmem (upd_lwpool p (\<lambda>r. r\<lparr>POOL_TEST2_PTR := b\<rparr>)) ?k)"
  have m1: "lwm k1 = upd_lwpool p (\<lambda>r. r\<lparr>POOL_TEST2_PTR := b\<rparr>) (lwm k)" by (simp add: k1_def window_def)
  have "test_blocks_of [\<lambda>k. k, ?w] p b ?k = test_blocks_of [?w] p (b + BLOCKSIZE (LWBLOCKS (lwm k) b)) k1"
    by (subst test_blocks_of.simps) (simp add: k1_def [symmetric] m1 st lt Let_def)
  also have "\<dots> = Some ([?w], None, k1)" by (subst test_blocks_of.simps) (simp add: m1 st)
  finally have tb: "test_blocks_of [\<lambda>k. k, ?w] p b ?k = Some ([?w], None, k1)" .
  define k0 where "k0 = INT_ENABLE (upd_lwmem (upd_lwpool p (\<lambda>r. r\<lparr>POOL_TEST_PTR := b\<rparr>)) k1)"
  have m0: "LWBLOCKS (lwm k0) = LWBLOCKS (lwm k)" "lw_inv p [(b, True)] (lwm k0)" using inv by (simp_all add: k0_def m1)
  obtain a k2 where r: "lwmem_alloc_internal [] n td p zero k0 = Some (a, k2)" "walks_reset p (lwm k2)" "lw_inv p [(b, False)] (lwm k2)"
  proof -
    obtain a k2 where r: "lwmem_alloc_internal [] n td p zero k0 = Some (a, k2)" "walks_reset p (lwm k2)"
      and c: "\<exists>us vs. [(b, True)] = us @ (b, True) # vs \<and> lw_inv p (us @ cut_off (BLOCKSIZE (LWBLOCKS (lwm k) b)) (alloc_request n) b @ vs) (lwm k2)"
      using alloc_alone [OF m0(2) n(1), of td zero] n(2) m0(1) by auto
    have "cut_off (BLOCKSIZE (LWBLOCKS (lwm k) b)) (alloc_request n) b = [(b, False)]"
      using cut_space(1) [OF n(2)] n(3) by (simp add: cut_off_def)
    then have "lw_inv p [(b, False)] (lwm k2)" using c by (auto simp: Cons_eq_append_conv)
    then show thesis using that r by blast
  qed
  have wk: "window [?w] (upd_lwmem (upd_lwpool p (\<lambda>r. r\<lparr>POOL_TEST_PTR := b\<rparr>)) k1) = INT_DISABLE k2"
    using r(1) by (simp add: window_def k0_def)
  have f0: "POOL_FREE_LIST_PTR (LWPOOLS (lwm k2) p) = 0" "POOL_ALLOC_START_PTR (LWPOOLS (lwm k2) p) \<noteq> 0"
    using r(3) by (auto simp: lw_inv_def lw_ok_def)
  then have "POOL_TEST_PTR (LWPOOLS (lwm k2) p) = 0" "bad_free p 0 (lwm k2)"
    using r(2) by (auto simp: walks_reset_def Let_def bad_free_def word_less_nat_alt unat_gt_0)
  then have "test_free_of [?w] p b k1 = Some ([], Some (MQX_CORRUPT_STORAGE_POOL_FREE_LIST, 0), INT_DISABLE k2)"
    using st(4) wk by (subst test_free_of.simps) (simp add: Let_def)
  then show ?thesis using pools tb st m1 r(3) by (simp add: lwmem_test_def)
qed

subsection \<open>The blocks a client holds\<close>

lemma lw_inv_unique:
  assumes "lw_inv p xs M" and "lw_inv p ys M"
  shows "xs = ys"
proof -
  have addr: "map fst xs = map fst ys" if "tiles B a xs e" "tiles B a ys e" for B a e and xs ys :: blocks_of
    using that
  proof (induction xs arbitrary: a ys)
    case Nil
    then show ?case by (cases ys) (auto dest!: tiles_bounds simp: tiles_next)
  next
    case (Cons x xs)
    then have n: "tiles B (a + BLOCKSIZE (B a)) xs e" "fst x = a" "unat (a + BLOCKSIZE (B a)) = unat a + unat (BLOCKSIZE (B a))" "16 \<le> unat (BLOCKSIZE (B a))"
      using tiles_next by auto
    have "a \<noteq> e" using tiles_bounds [OF n(1)] n(3,4) by auto
    then obtain y zs where "ys = y # zs" using Cons.prems(2) by (cases ys) auto
    then show ?case using Cons.IH [OF n(1), of zs] Cons.prems(2) n(2) by simp
  qed
  have links_same: "fs = gs" if "links B a fs 0" "links B a gs 0" for B a fs gs
    using that by (induction fs arbitrary: a gs) (auto elim: links.elims)
  have f: "free_of xs = free_of ys"
    using assms links_same [of "LWBLOCKS M" "POOL_FREE_LIST_PTR (LWPOOLS M p)"] by (auto simp: lw_inv_def lw_ok_def)
  have a: "map fst xs = map fst ys" using assms addr [of "LWBLOCKS M"] by (auto simp: lw_inv_def lw_ok_def)
  have flag: "snd x \<longleftrightarrow> fst x \<in> set (free_of zs)" if "lw_inv p zs M" "x \<in> set zs" for x zs
    using that used_not_free [of p zs M x] by (auto simp: lw_inv_def free_of_def)
  have "map snd xs = map (\<lambda>a. a \<in> set (free_of xs)) (map fst xs)" "map snd ys = map (\<lambda>a. a \<in> set (free_of ys)) (map fst ys)"
    using flag [OF assms(1)] flag [OF assms(2)] by simp_all
  then have "map snd xs = map snd ys" using f a by simp
  then show ?thesis using a by (metis zip_map_fst_snd)
qed

text \<open>What a heap promises its clients: the regions of the blocks in use are disjoint, a new block is none of those in use, and
  neither allocation nor release touches the region of another block.\<close>

datatype ('r, 'a) heap_op = Alloc 'r | Release 'a

fun heap_run :: "('r \<Rightarrow> 's \<Rightarrow> 'a option \<times> 's) \<Rightarrow> ('a \<Rightarrow> 's \<Rightarrow> 's) \<Rightarrow> ('r, 'a) heap_op list \<Rightarrow> 'a list \<times> 's \<Rightarrow> 'a list \<times> 's" where
  "heap_run get put [] x = x"
| "heap_run get put (Alloc r # ops) (held, s) =
     (case get r s of (None, s1) \<Rightarrow> heap_run get put ops (held, s1) | (Some a, s1) \<Rightarrow> heap_run get put ops (a # held, s1))"
| "heap_run get put (Release a # ops) (held, s) =
     (if a \<in> set held then heap_run get put ops (remove1 a held, put a s) else heap_run get put ops (held, s))"

fun valid_op :: "('r \<Rightarrow> bool) \<Rightarrow> ('r, 'a) heap_op \<Rightarrow> bool" where
  "valid_op valid (Alloc r) \<longleftrightarrow> valid r"
| "valid_op valid (Release a) \<longleftrightarrow> True"

locale region_heap =
  fixes ok :: "'s \<Rightarrow> bool" and live :: "'s \<Rightarrow> 'a set" and region :: "'s \<Rightarrow> 'a \<Rightarrow> nat set" and valid :: "'r \<Rightarrow> bool"
    and get :: "'r \<Rightarrow> 's \<Rightarrow> 'a option \<times> 's" and put :: "'a \<Rightarrow> 's \<Rightarrow> 's"
  assumes disjoint: "ok s \<Longrightarrow> a \<in> live s \<Longrightarrow> b \<in> live s \<Longrightarrow> a \<noteq> b \<Longrightarrow> region s a \<inter> region s b = {}"
    and get_some: "ok s \<Longrightarrow> valid r \<Longrightarrow> get r s = (Some a, s1) \<Longrightarrow>
      ok s1 \<and> a \<notin> live s \<and> live s1 = insert a (live s) \<and> (\<forall>b \<in> live s. region s1 b = region s b)"
    and get_none: "ok s \<Longrightarrow> valid r \<Longrightarrow> get r s = (None, s1) \<Longrightarrow> ok s1 \<and> live s1 = live s \<and> (\<forall>b \<in> live s. region s1 b = region s b)"
    and put_back: "ok s \<Longrightarrow> a \<in> live s \<Longrightarrow> ok (put a s) \<and> live (put a s) = live s - {a} \<and> (\<forall>b \<in> live s - {a}. region (put a s) b = region s b)"
begin

definition consistent :: "'a list \<times> 's \<Rightarrow> bool" where
  "consistent x \<longleftrightarrow> ok (snd x) \<and> distinct (fst x) \<and> set (fst x) \<subseteq> live (snd x)"

lemma run_consistent:
  "consistent (held, s) \<Longrightarrow> list_all (valid_op valid) ops \<Longrightarrow> consistent (heap_run get put ops (held, s))"
proof (induction ops arbitrary: held s)
  case (Cons x ops)
  show ?case
  proof (cases x)
    case (Alloc r)
    obtain o1 s1 where g: "get r s = (o1, s1)" by (cases "get r s")
    have v: "valid r" "ok s" using Cons.prems Alloc by (auto simp: consistent_def)
    show ?thesis
    proof (cases o1)
      case None
      then have "consistent (held, s1)" using get_none [OF v(2,1), of s1] g Cons.prems(1) by (auto simp: consistent_def)
      then show ?thesis using Cons.IH Cons.prems(2) Alloc g None by simp
    next
      case (Some a)
      then have "consistent (a # held, s1)" using get_some [OF v(2,1), of a s1] g Cons.prems(1) by (auto simp: consistent_def)
      then show ?thesis using Cons.IH Cons.prems(2) Alloc g Some by simp
    qed
  next
    case (Release a)
    show ?thesis
    proof (cases "a \<in> set held")
      case True
      then have "consistent (remove1 a held, put a s)"
        using put_back [of s a] Cons.prems(1) by (auto simp: consistent_def set_remove1_eq)
      then show ?thesis using Cons.IH Cons.prems(2) Release True by simp
    qed (use Cons Release in simp)
  qed
qed simp

lemma held_disjoint: "consistent (held, s) \<Longrightarrow> i < length held \<Longrightarrow> j < i \<Longrightarrow> region s (held ! i) \<inter> region s (held ! j) = {}"
  using disjoint [of s "held ! i" "held ! j"] by (auto simp: consistent_def nth_eq_iff_index_eq subset_iff)

lemma region_stable:
  "consistent (held, s) \<Longrightarrow> list_all (valid_op valid) ops \<Longrightarrow> a \<in> set held \<Longrightarrow> Release a \<notin> set ops \<Longrightarrow>
   a \<in> set (fst (heap_run get put ops (held, s))) \<and> region (snd (heap_run get put ops (held, s))) a = region s a"
proof (induction ops arbitrary: held s)
  case (Cons x ops)
  have la: "a \<in> live s" "ok s" using Cons.prems by (auto simp: consistent_def)
  have c: "consistent (heap_run get put [x] (held, s))" using run_consistent [OF Cons.prems(1), of "[x]"] Cons.prems(2) by simp
  show ?case
  proof (cases x)
    case (Alloc r)
    obtain o1 s1 where g: "get r s = (o1, s1)" by (cases "get r s")
    have v: "valid r" using Cons.prems(2) Alloc by simp
    have "region s1 a = region s a"
      using get_none [OF la(2) v, of s1] get_some [OF la(2) v] g la(1) by (cases o1) auto
    then show ?thesis using Cons.IH [of _ s1] c Cons.prems(2-4) Alloc g by (cases o1) auto
  next
    case (Release b)
    then have ab: "a \<noteq> b" using Cons.prems(4) by auto
    show ?thesis
    proof (cases "b \<in> set held")
      case True
      then have "b \<in> live s" using Cons.prems(1) by (auto simp: consistent_def)
      then have "region (put b s) a = region s a" using put_back [of s b] la ab by auto
      moreover have "a \<in> set (remove1 b held)" using Cons.prems(3) ab by simp
      ultimately show ?thesis using Cons.IH [of "remove1 b held" "put b s"] c Cons.prems(2,4) Release True by simp
    qed (use Cons Release in simp)
  qed
qed simp

end

text \<open>A pool used for blocks of the system.\<close>

definition heap_ready :: "ptr \<Rightarrow> kernel \<Rightarrow> bool" where
  "heap_ready p k \<longleftrightarrow> td_task_number (SYSTEM_TD k) k = SYSTEM_TASK_NUMBER \<and>
     (\<exists>xs. lw_inv p xs (lwm k) \<and> (\<forall>b. (b, False) \<in> set xs \<longrightarrow> blk_task_number (LWBLOCKS (lwm k) b) = SYSTEM_TASK_NUMBER))"

definition heap_live :: "ptr \<Rightarrow> kernel \<Rightarrow> ptr set" where
  "heap_live p k = {a. \<exists>xs. lw_inv p xs (lwm k) \<and> (GET_LWMEMBLOCK_PTR a, False) \<in> set xs}"

definition heap_region :: "kernel \<Rightarrow> ptr \<Rightarrow> nat set" where
  "heap_region k a =
     (let b = GET_LWMEMBLOCK_PTR a in {unat b ..< unat b + unat (BLOCKSIZE (LWBLOCKS (lwm k) b))})"

definition heap_get :: "ptr \<Rightarrow> u32 \<Rightarrow> kernel \<Rightarrow> ptr option \<times> kernel" where
  "heap_get p n k = (case lwmem_alloc_system_from [] p n k of None \<Rightarrow> (None, k) | Some (a, k') \<Rightarrow> (if a = 0 then None else Some a, k'))"

definition heap_put :: "ptr \<Rightarrow> kernel \<Rightarrow> kernel" where
  "heap_put a k = (case lwmem_free [] a k of None \<Rightarrow> k | Some (_, k') \<Rightarrow> k')"

lemma heap_live_iff: "lw_inv p xs (lwm k) \<Longrightarrow> a \<in> heap_live p k \<longleftrightarrow> (GET_LWMEMBLOCK_PTR a, False) \<in> set xs"
  unfolding heap_live_def mem_Collect_eq by (metis lw_inv_unique)

lemma ranges_disjoint: "(y :: nat) + m \<le> x \<or> x + n \<le> y \<Longrightarrow> {x ..< x + n} \<inter> {y ..< y + m} = {}"
  by auto

lemma heap_disjoint:
  assumes "heap_ready p k" and "a \<in> heap_live p k" and "c \<in> heap_live p k" and "a \<noteq> c"
  shows "heap_region k a \<inter> heap_region k c = {}"
proof -
  let ?a = "GET_LWMEMBLOCK_PTR a" and ?c = "GET_LWMEMBLOCK_PTR c"
  obtain xs where inv: "lw_inv p xs (lwm k)" using assms(1) by (auto simp: heap_ready_def)
  then have in_xs: "(?a, False) \<in> set xs" "(?c, False) \<in> set xs" using assms(2,3) heap_live_iff by auto
  have ne: "?a \<noteq> ?c" using assms(4) by (simp add: GET_LWMEMBLOCK_PTR_def)
  obtain us vs where s: "xs = us @ (?a, False) # vs" "lw_ok p (us @ (?a, False) # vs) (lwm k)" by (rule lw_inv_split [OF inv in_xs(1)])
  then have "(?c, False) \<in> set us \<or> (?c, False) \<in> set vs" using in_xs(2) ne by auto
  then have "?c \<in> fst ` set us \<or> ?c \<in> fst ` set vs" by (metis fst_conv image_eqI)
  then have "unat ?c + unat (BLOCKSIZE (LWBLOCKS (lwm k) ?c)) \<le> unat ?a \<or> unat ?a + unat (BLOCKSIZE (LWBLOCKS (lwm k) ?a)) \<le> unat ?c"
    using lower_blocks(1) [OF s(2)] upper_blocks [OF s(2)] by blast
  then show ?thesis unfolding heap_region_def Let_def by (rule ranges_disjoint)
qed

lemma system_number_and: "td_task_number td k AND 0xFFFF = td_task_number td k"
  unfolding td_task_number_def TASK_NUMBER_FROM_TASKID_def by (simp add: and.assoc)

lemma heap_region_cong: "LWBLOCKS (lwm k') (GET_LWMEMBLOCK_PTR b) = LWBLOCKS (lwm k) (GET_LWMEMBLOCK_PTR b) \<Longrightarrow> heap_region k' b = heap_region k b"
  by (simp add: heap_region_def)

lemma heap_get_cases:
  assumes rdy: "heap_ready p k" and n: "unat n + 27 < 2 ^ 32"
  obtains (none) k' where "heap_get p n k = (None, k')" and "heap_ready p k'" and "heap_live p k' = heap_live p k" and "\<forall>b. heap_region k' b = heap_region k b"
  | (some) a k' where "heap_get p n k = (Some a, k')" and "heap_ready p k'" and "a \<notin> heap_live p k" and "heap_live p k' = insert a (heap_live p k)"
      and "\<forall>b \<in> heap_live p k. heap_region k' b = heap_region k b"
proof -
  let ?req = "alloc_request n"
  obtain xs where inv: "lw_inv p xs (lwm k)" and num: "\<And>b. (b, False) \<in> set xs \<Longrightarrow> blk_task_number (LWBLOCKS (lwm k) b) = SYSTEM_TASK_NUMBER"
    and sys: "td_task_number (SYSTEM_TD k) k = SYSTEM_TASK_NUMBER" using rdy by (auto simp: heap_ready_def)
  obtain a k' where r: "lwmem_alloc_internal [] n (SYSTEM_TD k) p False k = Some (a, k')" "same_tasks k k'"
    and c: "case List.find (\<lambda>b. ?req \<le> BLOCKSIZE (LWBLOCKS (lwm k) b)) (free_of xs) of
       None \<Rightarrow> a = 0 \<and> LWBLOCKS (lwm k') = LWBLOCKS (lwm k) \<and> lw_inv p xs (lwm k')
     | Some b \<Rightarrow> a = b + 12 \<and> (\<exists>us vs. xs = us @ (b, True) # vs \<and>
         lw_inv p (us @ cut_off (BLOCKSIZE (LWBLOCKS (lwm k) b)) ?req b @ vs) (lwm k') \<and> others_same (us @ vs) (lwm k) (lwm k') \<and>
         ?req \<le> BLOCKSIZE (LWBLOCKS (lwm k') b) \<and> blk_task_number (LWBLOCKS (lwm k') b) = td_task_number (SYSTEM_TD k) k)"
    using alloc_alone [OF inv n, of "SYSTEM_TD k" False] by (elim exE conjE) (rule that)
  have sys': "td_task_number (SYSTEM_TD k') k' = SYSTEM_TASK_NUMBER" using sys same_tasks_number [OF r(2)] by simp
  have g: "heap_get p n k = (if a = 0 then None else Some a, k')" using r(1) by (simp add: heap_get_def lwmem_alloc_system_from_def)
  show thesis
  proof (cases "List.find (\<lambda>b. ?req \<le> BLOCKSIZE (LWBLOCKS (lwm k) b)) (free_of xs)")
    case None
    then have e: "a = 0" "LWBLOCKS (lwm k') = LWBLOCKS (lwm k)" "lw_inv p xs (lwm k')" using c by auto
    have "heap_ready p k'" unfolding heap_ready_def using sys' e num by (intro conjI exI [of _ xs]) auto
    moreover have "heap_live p k' = heap_live p k" using heap_live_iff [OF inv] heap_live_iff [OF e(3)] by blast
    ultimately show thesis using none [of k'] g e by (simp add: heap_region_def)
  next
    case (Some b)
    then obtain us vs where e: "a = b + 12" "xs = us @ (b, True) # vs" "others_same (us @ vs) (lwm k) (lwm k')"
      "lw_inv p (us @ cut_off (BLOCKSIZE (LWBLOCKS (lwm k) b)) ?req b @ vs) (lwm k')" "blk_task_number (LWBLOCKS (lwm k') b) = SYSTEM_TASK_NUMBER"
      using c sys by auto
    let ?ys = "us @ cut_off (BLOCKSIZE (LWBLOCKS (lwm k) b)) ?req b @ vs"
    have ok: "lw_ok p (us @ (b, True) # vs) (lwm k)" using inv e(2) by (simp add: lw_inv_def)
    have mem: "(d, False) \<in> set ?ys \<longleftrightarrow> d = b \<or> (d, False) \<in> set xs" for d using e(2) by (auto simp: cut_off_def)
    have nb: "(b, False) \<notin> set xs" using lw_ok_distinct [OF ok] e(2) by force
    have same: "LWBLOCKS (lwm k') d = LWBLOCKS (lwm k) d" if "(d, False) \<in> set xs" for d using others_same_used [OF e(3), of d] that e(2) by auto
    have a0: "a \<noteq> 0" "GET_LWMEMBLOCK_PTR a = b" using block_address [OF ok] e(1) by (simp_all add: GET_LWMEMBLOCK_PTR_def)
    have "heap_ready p k'" unfolding heap_ready_def using sys' e(4,5) mem num same by (intro conjI exI [of _ ?ys]) auto
    moreover have "heap_live p k' = insert a (heap_live p k)"
      using heap_live_iff [OF inv] heap_live_iff [OF e(4)] mem e(1) by (auto simp: GET_LWMEMBLOCK_PTR_def eq_diff_eq)
    moreover have "a \<notin> heap_live p k" using heap_live_iff [OF inv, of a] a0(2) nb by simp
    moreover have "\<forall>b \<in> heap_live p k. heap_region k' b = heap_region k b"
      using heap_live_iff [OF inv] same by (auto intro!: heap_region_cong)
    ultimately show thesis using some [of a k'] g a0(1) by simp
  qed
qed

lemma heap_put_live:
  assumes rdy: "heap_ready p k" and a: "a \<in> heap_live p k"
  shows "heap_ready p (heap_put a k) \<and> heap_live p (heap_put a k) = heap_live p k - {a} \<and>
    (\<forall>b \<in> heap_live p k - {a}. heap_region (heap_put a k) b = heap_region k b)"
proof -
  let ?b = "GET_LWMEMBLOCK_PTR a"
  obtain xs where inv: "lw_inv p xs (lwm k)" and num: "\<And>b. (b, False) \<in> set xs \<Longrightarrow> blk_task_number (LWBLOCKS (lwm k) b) = SYSTEM_TASK_NUMBER"
    and sys: "td_task_number (SYSTEM_TD k) k = SYSTEM_TASK_NUMBER" using rdy by (auto simp: heap_ready_def)
  have b: "(?b, False) \<in> set xs" using a heap_live_iff [OF inv] by simp
  obtain us vs where s: "xs = us @ (?b, False) # vs" by (rule lw_inv_split [OF inv b])
  have a12: "?b + 12 = a" by (simp add: GET_LWMEMBLOCK_PTR_def)
  obtain k' where r: "lwmem_free [] (?b + 12) k = Some (MQX_OK, k')" "same_tasks k k'" "lw_inv p (add_free us ?b @ drop_free vs) (lwm k')"
    and same: "\<forall>c. (c, False) \<in> set (us @ vs) \<longrightarrow> LWBLOCKS (lwm k') c = LWBLOCKS (lwm k) c"
    using free_alone [OF inv [unfolded s]] num [OF b] by auto
  have p: "heap_put a k = k'" using r(1) a12 by (simp add: heap_put_def)
  have d: "distinct (map fst xs)" using inv lw_ok_distinct by (auto simp: lw_inv_def)
  have mem: "(c, False) \<in> set (add_free us ?b @ drop_free vs) \<longleftrightarrow> (c, False) \<in> set (us @ vs)" for c
    by (cases vs) (auto simp: add_free_def drop_free_def)
  have mem2: "(c, False) \<in> set (us @ vs) \<longleftrightarrow> (c, False) \<in> set xs \<and> c \<noteq> ?b" for c using d s by force
  have "td_task_number (SYSTEM_TD k') k' = SYSTEM_TASK_NUMBER" using sys same_tasks_number [OF r(2)] by simp
  then have "heap_ready p k'" unfolding heap_ready_def using r(3) mem mem2 num same by (intro conjI exI [of _ "add_free us ?b @ drop_free vs"]) auto
  moreover have "heap_live p k' = heap_live p k - {a}"
    using heap_live_iff [OF inv] heap_live_iff [OF r(3)] mem mem2 by (auto simp: GET_LWMEMBLOCK_PTR_def)
  moreover have "\<forall>b \<in> heap_live p k - {a}. heap_region k' b = heap_region k b"
    using heap_live_iff [OF inv] mem2 same by (auto simp: GET_LWMEMBLOCK_PTR_def intro!: heap_region_cong)
  ultimately show ?thesis using p by simp
qed

interpretation lwheap: region_heap "heap_ready p" "heap_live p" heap_region "\<lambda>n. unat n + 27 < 2 ^ 32" "heap_get p" heap_put
proof
  show "heap_region s a \<inter> heap_region s b = {}" if "heap_ready p s" "a \<in> heap_live p s" "b \<in> heap_live p s" "a \<noteq> b" for s a b
    using that by (rule heap_disjoint)
  show "heap_ready p s1 \<and> a \<notin> heap_live p s \<and> heap_live p s1 = insert a (heap_live p s) \<and> (\<forall>b \<in> heap_live p s. heap_region s1 b = heap_region s b)"
    if "heap_ready p s" "unat r + 27 < 2 ^ 32" "heap_get p r s = (Some a, s1)" for s r a s1
    by (rule heap_get_cases [OF that(1,2)]) (use that(3) in auto)
  show "heap_ready p s1 \<and> heap_live p s1 = heap_live p s \<and> (\<forall>b \<in> heap_live p s. heap_region s1 b = heap_region s b)"
    if "heap_ready p s" "unat r + 27 < 2 ^ 32" "heap_get p r s = (None, s1)" for s r s1
    by (rule heap_get_cases [OF that(1,2)]) (use that(3) in auto)
  show "heap_ready p (heap_put a s) \<and> heap_live p (heap_put a s) = heap_live p s - {a} \<and>
      (\<forall>b \<in> heap_live p s - {a}. heap_region (heap_put a s) b = heap_region s b)"
    if "heap_ready p s" "a \<in> heap_live p s" for s a
    using that by (rule heap_put_live)
qed

text \<open>
  C10 (refinement). Over any sequence of allocations and releases of blocks of the system in a pool, one after the other
  with nothing in the windows of the walks and requests below \<open>2 ^ 32 - 27\<close> bytes, starting in any state with some blocks
  already handed out: the blocks handed out and not yet returned, headers included, are in use and never overlap,
  and a block handed out before that is not returned is still there with the extent it had.
\<close>
theorem lwmem_exclusive_regions:
  assumes ready: "heap_ready p k" and held0: "distinct held0" "set held0 \<subseteq> heap_live p k"
    and ops: "list_all (valid_op (\<lambda>n :: u32. unat n + 27 < 2 ^ 32)) ops"
    and run: "heap_run (heap_get p) heap_put ops (held0, k) = (held, k')"
  shows "heap_ready p k' \<and> distinct held \<and> set held \<subseteq> heap_live p k' \<and>
    (\<forall>i j. j < i \<longrightarrow> i < length held \<longrightarrow> heap_region k' (held ! i) \<inter> heap_region k' (held ! j) = {}) \<and>
    (\<forall>a \<in> set held0. Release a \<notin> set ops \<longrightarrow> a \<in> set held \<and> heap_region k' a = heap_region k a)"
proof -
  have c0: "lwheap.consistent p (held0, k)" using ready held0 by (simp add: lwheap.consistent_def)
  from lwheap.run_consistent [OF this ops] have c: "lwheap.consistent p (held, k')" by (simp add: run)
  then show ?thesis
    using lwheap.held_disjoint [OF c] lwheap.region_stable [OF c0 ops] run by (auto simp: lwheap.consistent_def)
qed

subsection \<open>A small pool\<close>

text \<open>The kernel pool of the small system: its structure at address 4096, followed by 4304 bytes of memory.\<close>

definition demo_lw :: kernel where
  "demo_lw = snd (lwmem_init_internal 0x1000 0x2100 (demo\<lparr>TDS := (TDS demo)(400 := mk_td 0x1FFFF 0 0)\<rparr>))"

lemma demo_lw_pool: "lwmem_init_internal 0x1000 0x2100 k =
    (MQX_OK, snd (lwmem_create_pool 0x1000 0x1030 0x10D0 (upd_lwmem (\<lambda>M. M\<lparr>KERNEL_LWMEM_POOL := 0x1000\<rparr>) k)))"
  by (simp add: lwmem_init_internal_def Let_def)

lemma demo_lw_sizes: "ALIGN_LARGER 0x1030 = 0x1030" "ALIGN_SMALLER 0x2100 = 0x2100"
  by (simp_all add: ALIGN_LARGER_def ALIGN_SMALLER_def)

lemma demo_lw_inv: "lw_inv 0x1000 [(0x1030, True)] (lwm demo_lw)" "BLOCKSIZE (LWBLOCKS (lwm demo_lw) 0x1030) = 0x10D0"
  using create_pool_inv(1,2) [of "0x1030" "0x10D0" "0x1000"] by (simp_all add: demo_lw_def demo_lw_pool demo_lw_sizes)

lemma demo_lw_fields: "KERNEL_LWMEM_POOL (lwm demo_lw) = 0x1000" "LWMEM_POOLS (lwm demo_lw) = Some [0x1000]"
  "POOL_ALLOC_END_PTR (LWPOOLS (lwm demo_lw) 0x1000) = 0x2100"
  by (simp_all add: demo_lw_def demo_lw_pool lwmem_create_pool_def pool_setup_def pool_enqueue_def Let_def upd_lwpool_def upd_lwblock_def
      upd_lwmem_def demo_lw_sizes demo_def)

lemma demo_lw_ready: "heap_ready 0x1000 demo_lw"
proof -
  have "td_task_number (SYSTEM_TD demo_lw) demo_lw = 0xFFFF"
    by (simp add: demo_lw_def demo_lw_pool lwmem_create_pool_def td_task_number_def TASK_NUMBER_FROM_TASKID_def demo_def mk_td_def)
  then show ?thesis unfolding heap_ready_def using demo_lw_inv(1) by (intro conjI exI [of _ "[(0x1030, True)]"]) simp_all
qed

abbreviation (input) demo_interrupt :: "kernel \<Rightarrow> kernel" where
  "demo_interrupt \<equiv> \<lambda>k. snd (the (lwmem_alloc_internal [] 20 400 0x1000 False k))"

text \<open>The pool after an allocation of 100 bytes.\<close>

definition demo_used :: kernel where
  "demo_used = snd (the (lwmem_alloc_internal [] 100 200 0x1000 False demo_lw))"

lemma demo_used_alloc:
  "lwmem_alloc_internal [] 100 200 0x1000 False demo_lw = Some (0x103C, demo_used)"
  "lw_inv 0x1000 [(0x1030, False), (0x10A0, True)] (lwm demo_used)" "same_tasks demo_lw demo_used"
  "blk_task_number (LWBLOCKS (lwm demo_used) 0x1030) = td_task_number 200 demo_lw"
proof -
  have *: "[(0x1030, True)] = us @ (0x1030, True) # vs \<longleftrightarrow> us = [] \<and> vs = []" for us vs :: blocks_of by (auto simp: Cons_eq_append_conv)
  obtain k' where "lwmem_alloc_internal [] 100 200 0x1000 False demo_lw = Some (0x103C, k')" "same_tasks demo_lw k'"
    "lw_inv 0x1000 (cut_off 0x10D0 112 0x1030) (lwm k')" "blk_task_number (LWBLOCKS (lwm k') 0x1030) = td_task_number 200 demo_lw"
    using alloc_alone [OF demo_lw_inv(1), of 100 200 False] demo_lw_inv(2) by (auto simp: alloc_request_def ALIGN_LARGER_def *)
  then show "lwmem_alloc_internal [] 100 200 0x1000 False demo_lw = Some (0x103C, demo_used)"
    "lw_inv 0x1000 [(0x1030, False), (0x10A0, True)] (lwm demo_used)" "same_tasks demo_lw demo_used"
    "blk_task_number (LWBLOCKS (lwm demo_used) 0x1030) = td_task_number 200 demo_lw"
    by (simp_all add: demo_used_def cut_off_def)
qed

lemma demo_lw_active: "ACTIVE_PTR demo_lw = 200"
  by (simp add: demo_lw_def demo_lw_pool lwmem_create_pool_def active_frame demo_def)

theorem lwmem_alloc_safe_witness: "\<exists>a k'. lwmem_alloc_internal [demo_interrupt] 100 200 0x1000 False demo_lw = Some (a, k')"
  using lwmem_alloc_safe [OF demo_lw_inv(1), of 100 "{}" "[demo_interrupt]" 200 False] alloc_considerate [of 20 "0x1000" "{}" 400 False]
  by (elim impE meta_impE) auto

theorem lwmem_alloc_first_fit_witness: "\<exists>k'. lwmem_alloc [] 100 demo_lw = Some (0x103C, k')"
  using lwmem_alloc_first_fit [of demo_lw "[(0x1030, True)]" 100] demo_lw_inv by (auto simp: demo_lw_fields alloc_request_def ALIGN_LARGER_def)

theorem lwmem_free_safe_witness: "\<exists>k'. lwmem_free [demo_interrupt] 0x103C demo_used = Some (MQX_OK, k')"
  using lwmem_free_safe [OF demo_used_alloc(2), of "0x1030" "[demo_interrupt]"] alloc_considerate [of 20 "0x1000" "{0x1030}" 400 False]
    demo_used_alloc(4) same_tasks_number [OF demo_used_alloc(3)] demo_lw_active by auto

theorem lwmem_alloc_free_roundtrip_witness: "\<exists>k2. lwmem_free [] 0x103C demo_used = Some (MQX_OK, k2) \<and> lw_inv 0x1000 [(0x1030, True)] (lwm k2)"
  using lwmem_alloc_free_roundtrip [OF demo_lw_inv(1), of 100 "0x103C" demo_used] demo_used_alloc(1) demo_lw_active
  by (auto simp: lwmem_alloc_from_def)

theorem lwmem_alloc_align_aligned_witness:
  "\<exists>a k'. lwmem_alloc_align_internal [] 100 64 200 0x1000 False demo_lw = Some (a, k') \<and> 64 dvd unat a"
  using lwmem_alloc_align_aligned [OF demo_lw_inv(1), of 6 100 200 False] by (auto simp: demo_lw_fields)

theorem lwmem_get_free_exact_witness: "\<exists>n k'. lwmem_get_free_from [] 0x1000 demo_lw = Some (n, k') \<and> unat n = 4304"
  using lwmem_get_free_exact [OF demo_lw_inv(1)] demo_lw_inv(2) by (auto simp: free_bytes_def)

theorem lwmem_test_accepts_witness: "\<exists>k'. lwmem_test [] demo_lw = Some ((MQX_OK, Some (0, 0)), k')"
  using lwmem_test_accepts [OF demo_lw_fields(2)] demo_lw_inv(1) by auto

theorem lwmem_test_false_alarm_witness:
  "\<exists>k'. lwmem_test [\<lambda>k. k, \<lambda>k. snd (the (lwmem_alloc_internal [] 4292 400 0x1000 False k))] demo_lw =
    Some ((MQX_CORRUPT_STORAGE_POOL_FREE_LIST, Some (0x1000, 0)), k')"
  using lwmem_test_false_alarm [OF demo_lw_fields(2) demo_lw_inv(1), of 4292 400 False] demo_lw_inv(2)
  by (auto simp: alloc_request_def ALIGN_LARGER_def)

theorem lwmem_alloc_overflow_witness: "\<exists>a k'. lwmem_alloc_from [] 0x1000 0xFFFFFFF0 demo_lw = Some (a, k') \<and> a \<noteq> 0"
  using lwmem_alloc_overflow [OF demo_lw_inv(1), of "0xFFFFFFF0"] by auto

theorem lwmem_create_pool_ok_witness: "lw_inv 0x1000 [(0x2000, True)] (lwm (snd (lwmem_create_pool 0x1000 0x2000 0x100 demo)))"
  using lwmem_create_pool_ok [of "0x2000" "0x100" "0x1000" demo "snd (lwmem_create_pool 0x1000 0x2000 0x100 demo)"]
  by (simp add: ALIGN_LARGER_def ALIGN_SMALLER_def lwmem_create_pool_def)

theorem lwmem_exclusive_regions_witness:
  "\<exists>held k'. heap_run (heap_get 0x1000) heap_put [Alloc 20, Alloc 30, Release 0x103C] ([], demo_lw) = (held, k') \<and> distinct held"
  using lwmem_exclusive_regions [OF demo_lw_ready, of "[]" "[Alloc 20, Alloc 30, Release 0x103C]"]
  by (cases "heap_run (heap_get 0x1000) heap_put [Alloc 20, Alloc 30, Release 0x103C] ([], demo_lw)") auto

subsection \<open>A call that leaves its walk pointer behind\<close>

text \<open>
  \<^verbatim>\<open>_lwmem_get_free\<close> leaves \<^verbatim>\<open>POOL_ALLOC_PTR\<close> at the last free block. In a pool with the free blocks 0x1030, of 32
  bytes, and 0x10C0 an allocation of 100 bytes has come to 0x10C0, with 0x1030 as the block before it, when other code
  allocates 4 bytes, which cuts 0x1030, and asks for the free memory. The walk does not notice.
\<close>

definition two_free :: "ptr \<Rightarrow> u32 \<Rightarrow> u32 \<Rightarrow> kernel \<Rightarrow> bool" where
  "two_free h n m k \<longleftrightarrow> lwpool_valid 0x1000 (lwm k) \<and> POOL_FREE_LIST_PTR (LWPOOLS (lwm k) 0x1000) = h \<and>
     BLOCKSIZE (LWBLOCKS (lwm k) h) = n \<and> UWORD (LWBLOCKS (lwm k) h) = 0x10C0 \<and> BLOCKSIZE (LWBLOCKS (lwm k) 0x10C0) = m"

definition alloc_then_get_free :: "kernel \<Rightarrow> kernel" where
  "alloc_then_get_free k =
     snd (the (lwmem_get_free_from [] 0x1000 (snd (the (lwmem_alloc_internal [] 4 400 0x1000 False k)))))"

lemmas lw_steps = Let_def lwpool_valid_def window_def upd_lwmem_def upd_lwpool_def upd_lwblock_def two_free_def

lemma small_request: "alloc_request 4 = 16" "alloc_request 100 = 112"
  by (simp_all add: alloc_request_def ALIGN_LARGER_def)

lemma inner_alloc:
  assumes "two_free 0x1030 32 m k" "UWORD (LWBLOCKS (lwm k) 0x10C0) = 0"
  defines "k' \<equiv> snd (the (lwmem_alloc_internal [] 4 400 0x1000 False k))"
  shows "two_free 0x1040 16 m k'" "UWORD (LWBLOCKS (lwm k') 0x10C0) = 0"
  using assms
  by (simp_all add: k'_def lwmem_alloc_internal_def walk_free.simps [of "[]"] small_request alloc_exit_def take_fit_def
      set_owner_def raise_highwater_def clear_block_def reset_walks_def set_task_number_def set_mem_type_def lw_steps)

lemma inner_get_free:
  assumes "two_free 0x1040 16 m k" "UWORD (LWBLOCKS (lwm k) 0x10C0) = 0"
  defines "k' \<equiv> snd (the (lwmem_get_free_from [] 0x1000 k))"
  shows "two_free 0x1040 16 m k'" "UWORD (LWBLOCKS (lwm k') 0x10C0) = 0" "POOL_ALLOC_PTR (LWPOOLS (lwm k') 0x1000) = 0x10C0"
  using assms
  by (simp_all add: k'_def lwmem_get_free_from_def lwmem_get_free_internal_def sum_free.simps [of "[]"] lw_steps)

lemma outer_walk:
  assumes "two_free 0x1030 32 m k" "UWORD (LWBLOCKS (lwm k) 0x10C0) = 0" "112 \<le> m"
  shows "\<exists>k2. walk_free [\<lambda>k. k, alloc_then_get_free] 0x1000 (\<lambda>b d. BLOCKSIZE d \<ge> 112) 0x1030 0x1030 k = Some (0x10C0, 0x1030, k2)
    \<and> two_free 0x1040 16 m k2"
proof -
  define k1 where "k1 = window [\<lambda>k. k] (upd_lwmem (upd_lwpool 0x1000 (\<lambda>r. r\<lparr>POOL_ALLOC_PTR := 0x1030\<rparr>)) k)"
  define j where "j = INT_ENABLE (upd_lwmem (upd_lwpool 0x1000 (\<lambda>r. r\<lparr>POOL_ALLOC_PTR := 0x10C0\<rparr>)) k1)"
  have j: "two_free 0x1030 32 m j" "UWORD (LWBLOCKS (lwm j) 0x10C0) = 0"
    using assms by (simp_all add: j_def k1_def lw_steps)
  have f: "two_free 0x1040 16 m (alloc_then_get_free j)" "POOL_ALLOC_PTR (LWPOOLS (lwm (alloc_then_get_free j)) 0x1000) = 0x10C0"
    using inner_get_free [OF inner_alloc [OF j]] by (simp_all add: alloc_then_get_free_def)
  have "walk_free [\<lambda>k. k, alloc_then_get_free] 0x1000 (\<lambda>b d. BLOCKSIZE d \<ge> 112) 0x1030 0x1030 k =
      walk_free [alloc_then_get_free] 0x1000 (\<lambda>b d. BLOCKSIZE d \<ge> 112) 0x10C0 0x1030 k1"
    using assms by (subst walk_free.simps) (simp add: k1_def lw_steps)
  also have "\<dots> = Some (0x10C0, 0x1030, INT_DISABLE (alloc_then_get_free j))"
    using f assms(3) by (subst walk_free.simps) (simp add: j_def [symmetric] window_def Let_def two_free_def)
  finally show ?thesis using f(1) by (simp add: two_free_def)
qed

text \<open>The outer allocation then links the rest of its block to a block that is in use; its own block stays on the free
  list and is handed out a second time.\<close>

lemma get_free_in_window:
  assumes "two_free 0x1030 32 m k" "UWORD (LWBLOCKS (lwm k) 0x10C0) = 0" "128 \<le> m"
  shows "\<exists>k1 k2. lwmem_alloc_internal [\<lambda>k. k, alloc_then_get_free] 100 td 0x1000 False k = Some (0x10CC, k1) \<and>
    lwmem_alloc_internal [] 100 td 0x1000 False k1 = Some (0x10CC, k2)"
proof -
  have m: "(112 :: u32) \<le> m" using assms(3) by (rule order_trans [rotated]) simp
  have d: "two_free 0x1030 32 m (INT_DISABLE k)" "UWORD (LWBLOCKS (lwm (INT_DISABLE k)) 0x10C0) = 0" "112 \<le> m"
    using assms(1,2) m by (simp_all add: two_free_def)
  obtain k2 where w: "walk_free [\<lambda>k. k, alloc_then_get_free] 0x1000 (\<lambda>b d. BLOCKSIZE d \<ge> 112) 0x1030 0x1030 (INT_DISABLE k)
      = Some (0x10C0, 0x1030, k2)" and t: "two_free 0x1040 16 m k2" using outer_walk [OF d] by blast
  define k1 where "k1 = snd (alloc_exit 0x1000 0x10CC (upd_lwmem (take_fit 0x1000 112 (td_task_number td k2) False 0x10C0 0x1030) k2))"
  have a: "lwmem_alloc_internal [\<lambda>k. k, alloc_then_get_free] 100 td 0x1000 False k = Some (0x10CC, k1)"
    using assms w by (simp add: lwmem_alloc_internal_def Let_def small_request two_free_def k1_def alloc_exit_def)
  have "16 \<le> m - 112" using assms(3) by unat_arith
  then have "two_free 0x1040 16 112 k1"
    using t by (simp add: k1_def alloc_exit_def take_fit_def set_owner_def raise_highwater_def clear_block_def reset_walks_def
        set_task_number_def set_mem_type_def lw_steps)
  then have "\<exists>k2. lwmem_alloc_internal [] 100 td 0x1000 False k1 = Some (0x10CC, k2)"
    by (simp add: lwmem_alloc_internal_def walk_free.simps [of "[]"] small_request alloc_exit_def lw_steps)
  with a show ?thesis by blast
qed
text \<open>Such a pool is well-formed.\<close>

lemma lwmem_get_free_in_window:
  assumes inv: "lw_inv 0x1000 [(0x1030, True), (0x1050, False), (0x10C0, True)] (lwm k)"
    and "BLOCKSIZE (LWBLOCKS (lwm k) 0x1030) = 32" "128 \<le> BLOCKSIZE (LWBLOCKS (lwm k) 0x10C0)"
  shows "\<exists>k1 k2. lwmem_alloc_internal [\<lambda>k. k, alloc_then_get_free] 100 td 0x1000 False k = Some (0x10CC, k1) \<and>
    lwmem_alloc_internal [] 100 td 0x1000 False k1 = Some (0x10CC, k2)"
proof -
  have "links (LWBLOCKS (lwm k)) (POOL_FREE_LIST_PTR (LWPOOLS (lwm k) 0x1000)) [0x1030, 0x10C0] 0"
    using inv by (auto simp: lw_inv_def lw_ok_def free_of_def)
  then have "two_free 0x1030 32 (BLOCKSIZE (LWBLOCKS (lwm k) 0x10C0)) k" "UWORD (LWBLOCKS (lwm k) 0x10C0) = 0"
    using assms(2) lw_inv_valid [OF inv] by (simp_all add: two_free_def)
  then show ?thesis by (rule get_free_in_window) (rule assms(3))
qed

end
