(* ===== verification/Spec2Isabelle.thy ===== *)
theory Spec2Isabelle
  imports Mqx_Queue Calendar Kernel_System Mutex_Cleanup Names Lwlog Partition Lwmem_Calls
begin

text \<open>
  \<^bold>\<open>A verification of the MQX 4.1.1 kernel.\<close> MQX is a preemptive real-time kernel in C for small
  processors. This development models the core of the kernel under \<^verbatim>\<open>src/mqx/source/kernel\<close> and of the
  Cortex-M port under \<^verbatim>\<open>src/mqx/source/psp/cortex_m\<close>, in the default configuration (error and validity
  checks on, user mode off, time slices, dynamic priorities and ticks on), and proves what its parts
  promise.

  \<^bold>\<open>Parts of the program.\<close> Everything rests on doubly linked queues (\<^verbatim>\<open>queue.c\<close> and the macros of
  \<^verbatim>\<open>mqx_prv.h\<close>). Task descriptors hang in ready queues, one per priority, in the timeout queue or in the
  wait queue of a synchronisation object; the dispatcher (\<^verbatim>\<open>dispatch.S\<close>) runs the head of the first
  non-empty ready queue. Synchronisation objects and delays move task descriptors between the queues and
  ask the dispatcher. A periodic interrupt advances the time, runs the lightweight timers that are due and
  wakes tasks whose timeout is over. Partitions hand out blocks of one size and lightweight memory pools
  blocks of any size from regions of memory.
  Time is kept in ticks and hardware ticks; the port converts them to and from units with 128-bit
  arithmetic, and the calendar functions convert seconds to dates and back.

  \<^bold>\<open>Theories.\<close>
  \<^item> \<^verbatim>\<open>Mqx_Prelude\<close>: word types, error codes, lemmas on lists and words.
  \<^item> \<^verbatim>\<open>Mqx_Queue\<close>: the queue macros and all of \<^verbatim>\<open>queue.c\<close> on a heap of \<^verbatim>\<open>NEXT\<close>, \<^verbatim>\<open>PREV\<close>, \<^verbatim>\<open>SIZE\<close> and
    \<^verbatim>\<open>MAX\<close> fields. \<open>queue_rep h q xs\<close> says that the head \<open>q\<close> represents the list \<open>xs\<close>; every operation
    implements the list operation; \<^verbatim>\<open>_queue_test\<close> accepts exactly the well-formed queues; the locale
    \<open>fifo_queue\<close> gives first-in first-out order for sequences of operations.
  \<^item> \<^verbatim>\<open>Psp_Math\<close>, \<^verbatim>\<open>Psp_Ticks\<close>: the 128-bit arithmetic of \<^verbatim>\<open>psp_mat1.c\<close> to \<^verbatim>\<open>psp_mat3.c\<close> and the tick
    functions \<^verbatim>\<open>psp_t*.c\<close>, at the width of the machine words: exact products, quotients and carries,
    exact conversions with their overflow flags, round trips, and the stale static variables of the
    quick conversion.
  \<^item> \<^verbatim>\<open>Calendar\<close>: \<^verbatim>\<open>_time_from_date\<close>, \<^verbatim>\<open>_time_to_date\<close>, \<^verbatim>\<open>mktime\<close>, \<^verbatim>\<open>gmtime_r\<close> and their helpers of
    \<^verbatim>\<open>time.c\<close> against the proleptic calendar, for the years the code supports, 1970 to 2099; both loops
    end on every input.
  \<^item> \<^verbatim>\<open>Resumption\<close>: programs that can be switched out, as the codatatype \<open>prog\<close>; sequencing (\<open>andthen\<close>),
    loops that wait (\<open>spin\<close>), and the coinductive predicates \<open>keeps\<close> and \<open>yields\<close> with their rules.
  \<^item> \<^verbatim>\<open>Kernel\<close>: the kernel state (record \<open>kernel\<close> for \<^verbatim>\<open>KERNEL_DATA_STRUCT\<close>, \<open>td\<close> for \<^verbatim>\<open>TD_STRUCT\<close>), the
    macros \<^verbatim>\<open>_TASK_READY\<close>, \<^verbatim>\<open>_TIME_DEQUEUE\<close>, \<^verbatim>\<open>_INT_DISABLE\<close>, the dispatcher and interrupt entry and
    exit; the kernel invariant \<open>kinv\<close> (the state of a task says exactly which queues hold it) and the
    states \<open>running\<close> in which a best ready task is active.
  \<^item> \<^verbatim>\<open>Scheduler\<close>: \<^verbatim>\<open>sched.c\<close> and the part of \<^verbatim>\<open>task.c\<close> about priorities, readiness and error codes.
  \<^item> \<^verbatim>\<open>Lwtimer\<close>: \<^verbatim>\<open>lwtimer.c\<close>; the periodic timer queues, their cycle, and which functions a tick calls.
  \<^item> \<^verbatim>\<open>Kernel_Time\<close>: delays and the tick handler of \<^verbatim>\<open>time.c\<close>; a tick readies exactly the expired tasks. \<open>timer_interrupts hws\<close>
    is a run of timer interrupts, each with the reading of the hardware tick function, if there is one; a delayed
    task is ready after a run exactly if as many ticks have passed as its delay asks for.
  \<^item> \<^verbatim>\<open>Lwsem\<close>: \<^verbatim>\<open>lwsem.c\<close>; the locale \<open>counting_semaphore\<close> states its contract, from which the count and
    the waiting list follow for every sequence of operations.
  \<^item> \<^verbatim>\<open>Task_Queue\<close>: \<^verbatim>\<open>taskq.c\<close>; service in order of priority, and \<^verbatim>\<open>_taskq_destroy\<close> with the interrupt window
    in every round of its loop.
  \<^item> \<^verbatim>\<open>Lwevent\<close>: \<^verbatim>\<open>lwevent.c\<close>; a set delivers the bits to every waiter whose condition they meet, in
    order and with the automatic clearing the code does, and no waiter stays asleep on a condition that
    holds.
  \<^item> \<^verbatim>\<open>Lwmsgq\<close>: \<^verbatim>\<open>lwmsgq.c\<close>; the ring buffer is an instance of \<open>fifo_queue\<close>, and send and receive move
    whole messages in order; the loops of blocked writers and readers are \<open>spin\<close>s. Sizes and locations are natural
    numbers: the caller's memory holds the whole queue, so the sums of the code do not wrap.
  \<^item> \<^verbatim>\<open>Mutex\<close>: \<^verbatim>\<open>mutex.c\<close>; the locale \<open>exclusive_lock\<close> states the contract of a lock with one owner and a
    waiting list, and lock, try-lock and unlock implement it, with the priority boosts of inheritance and
    of protection. The window in which a spinning lock has taken the mutex but is not yet its owner, and the one
    in which \<^verbatim>\<open>_mutex_destroy\<close> has taken a waiter off the queue but not made it ready, are arguments \<open>W\<close>; the
    invariant holds if \<open>spin_window\<close> and \<open>destroy_window\<close> hold of them.
  \<^item> \<^verbatim>\<open>Mutex_Cleanup\<close>: \<^verbatim>\<open>_mutex_cleanup\<close>, which takes the mutexes of a destroyed task from it; the walk starts
    again after every unlock, its model has fuel, and the number of mutexes of the task is enough.
  \<^item> \<^verbatim>\<open>Object_Tests\<close>: \<^verbatim>\<open>_lwsem_test\<close>, \<^verbatim>\<open>_taskq_test\<close>, \<^verbatim>\<open>_lwevent_test\<close> and \<^verbatim>\<open>_mutex_test\<close> on the heap of
    \<^verbatim>\<open>Mqx_Queue\<close>; they accept exactly the consistent lists of valid objects.
  \<^item> \<^verbatim>\<open>Names\<close>: \<^verbatim>\<open>name.c\<close>; the locale \<open>symbol_table\<close> (interpreted as \<open>nametab\<close>) states that a table of names is
    a finite map, for every sequence of calls.
  \<^item> \<^verbatim>\<open>Time_Services\<close>: the rest of \<^verbatim>\<open>time.c\<close>: reading and setting the clock, tick rates, adding units and tick
    differences; the time of day runs on with any run of timer interrupts and any readings of the counter.
  \<^item> \<^verbatim>\<open>Logs\<close>: \<^verbatim>\<open>log.c\<close>; a ring of words that represents a queue of entries with a reading position.
  \<^item> \<^verbatim>\<open>Lwlog\<close>: \<^verbatim>\<open>lwlog.c\<close>; a ring of linked entries of fixed size that represents a bounded queue with a scan
    position; when a full log overwrites its oldest entry the scan can miss one.
  \<^item> \<^verbatim>\<open>Memory_Layout\<close>: lemmas on memory regions, alignment and address arithmetic shared by the allocators.
  \<^item> \<^verbatim>\<open>Partition\<close>: \<^verbatim>\<open>partition.c\<close>; blocks are aligned, disjoint and inside the pool, a block is free or owned,
    and the locale \<open>block_pool\<close> (interpreted as \<open>parts\<close>) gives exclusive ownership for sequences of calls.
  \<^item> \<^verbatim>\<open>Lwmem\<close>, \<^verbatim>\<open>Lwmem_Layout\<close>, \<^verbatim>\<open>Lwmem_Calls\<close>: \<^verbatim>\<open>lwmem.c\<close>. Its walks over the free list open an interrupt
    window at every step; the model takes the effect \<open>W\<close> of the window as an argument, and the theorems
    hold for every \<open>W\<close> that is \<open>considerate\<close>: it leaves the pool alone, or it leaves the pool well-formed, the
    caller's blocks in use and all walk pointers reset, as complete allocations do and as \<^verbatim>\<open>_lwmem_get_free\<close>,
    \<^verbatim>\<open>_lwmem_test\<close>, \<^verbatim>\<open>_lwmem_transfer\<close> and \<^verbatim>\<open>_lwmem_set_type\<close> do not (\<open>lwmem_get_free_in_window\<close> shows a block
    handed out twice after the first of them). The layout
    invariant says that free and used blocks tile the pool and that the free list is sorted; allocation
    carves the first fit, freeing joins neighbours, and the locale \<open>region_heap\<close> (interpreted as \<open>lwheap\<close>)
    gives disjoint regions to the callers for sequences of calls.
  \<^item> \<^verbatim>\<open>Kernel_System\<close>: tasks, calls, switches and interrupts as one transition system; in every reachable
    state a best ready task runs and the invariant holds.

  \<^bold>\<open>How the kernel is modelled.\<close> A kernel function may switch the processor to another task in its middle
  and go on later. Its model is a program of type \<open>prog\<close>: \<open>Done\<close> with a result, or \<open>Susp\<close> with the state
  at the switch and the rest of the function, which is applied to the state in which the task runs
  again. \<open>keeps S D R p\<close> says that \<open>p\<close> is switched out in \<open>S\<close> states and ends in \<open>D\<close> states.
  Kernel functions disable interrupts around their changes and run without being interrupted between two
  switches; interrupts occur between these stretches. Where the code enables interrupts in the middle of a
  change, the model has the effect \<open>W\<close> of what happens there as an argument: in the loop of \<^verbatim>\<open>_taskq_destroy\<close>, in
  the spinning lock and in \<^verbatim>\<open>_mutex_destroy\<close>, and in the walks of \<^verbatim>\<open>lwmem.c\<close>. Other windows are collapsed: those of
  the growth of a partition and of its walks, and those in which the code has changed nothing yet or is done
  with its change, which are between stretches. Queues are lists in the kernel
  state; \<^verbatim>\<open>Mqx_Queue\<close> justifies that, and \<^verbatim>\<open>_queue_test\<close>, which accepts every queue that represents
  a list, succeeds on them. A ready queue is named by its priority. Counters are words where
  they wrap (\<open>DISABLED_LEVEL\<close>, \<open>BOOSTED\<close>, ticks) and \<open>VALUE\<close> of a semaphore is an integer kept in the
  signed 32-bit range. \<open>mutex_cleanup\<close> has fuel, for which the number of mutexes is enough, and the loops that
  empty a queue with a window in every round (\<open>tdq_drain\<close>, \<open>destroy_waiters\<close>) have as many rounds as the queue has tasks,
  enough when nobody joins it. All other loops recurse over the list they walk, and a loop that may wait for ever (a blocked
  writer, a spinning mutex) is a corecursive program, of which \<open>keeps\<close> speaks at every switch.

  \<^bold>\<open>Assumptions.\<close> The idle task exists and never blocks (\<open>running\<close> says that it is ready; \<open>allowed\<close> keeps
  it so); callers pass the descriptors of existing tasks; interrupts that reschedule arrive when the
  active task has preemption enabled. The operations of message queues and mutexes are stated on states in
  which the object is well formed (\<open>msgq_running\<close>, \<open>mutex_running\<close>). In \<^verbatim>\<open>Kernel_System\<close> the tasks make the calls of \<open>kcall\<close> as \<open>allowed\<close> admits them: objects are
  created where no task waits, messages are sent without waiting for room, and mutexes, memory and stopping
  of preemption are left out. \<^verbatim>\<open>_time_notify_kernel\<close> takes the value of the hardware tick function as an argument.

  \<^bold>\<open>Not modelled.\<close> The register context, interrupt masks and floating-point state of \<^verbatim>\<open>dispatch.S\<close>; kernel
  logging; user mode; the hooks \<^verbatim>\<open>_time_set_timer_vector\<close> and \<^verbatim>\<open>_time_set_hwtick_function\<close>; task creation and
  destruction; semaphores, events and messages (\<^verbatim>\<open>sem.c\<close>, \<^verbatim>\<open>event.c\<close>, \<^verbatim>\<open>msgq.c\<close>); the kernel log, timer tasks
  and watchdogs (\<^verbatim>\<open>klog.c\<close>, \<^verbatim>\<open>timer.c\<close>, \<^verbatim>\<open>watchdog.c\<close>); the memory
  manager of \<^verbatim>\<open>mem.c\<close>; drivers, board support, and the stacks (MFS, RTCS, USB, shell) above the kernel.

  \<^bold>\<open>Order of extension.\<close> Watchdogs and timer tasks; semaphores, events and messages; the memory
  manager; creation and destruction of tasks.
\<close>

end
